(* ===== verification/Prelude.thy ===== *)
theory Prelude
  imports Main "HOL-Library.Word" "HOL-Library.Multiset"
begin

text \<open>
  Shared vocabulary of the development: the C integer types as words, the collections of
  rewrite rules the components add to, and the generic facts on words, lists and multisets
  that several components use.
\<close>

unbundle bit_operations_syntax

type_synonym u8 = "8 word"
type_synonym u16 = "16 word"
type_synonym u32 = "32 word"
type_synonym u64 = "64 word"

text \<open>\<open>SIZE_MAX\<close>, \<open>UINT64_MAX\<close> and \<open>UINTPTR_MAX\<close> of the 64-bit targets.\<close>

abbreviation SIZE_MAX :: u64 where "SIZE_MAX \<equiv> - 1"

abbreviation UINT32_MAX :: u32 where "UINT32_MAX \<equiv> - 1"

named_theorems nat_of_word "unsigned values of word expressions, as naturals"

named_theorems frame "fields an operation leaves unchanged"

lemma unat_size_max [nat_of_word]: "unat SIZE_MAX = 18446744073709551615"
  by (simp add: unsigned_minus_1_eq_mask mask_eq_exp_minus_1)

lemma unat_u32_max: "unat UINT32_MAX = 4294967295"
  by (simp add: unsigned_minus_1_eq_mask mask_eq_exp_minus_1)

text \<open>Alignment: clearing the low \<open>k\<close> bits rounds down to a multiple of \<open>2 ^ k\<close>.\<close>

lemma word_clear_low_bits:
  fixes x :: "'a::len word"
  shows "x AND NOT (mask k) = push_bit k (drop_bit k x)"
  by (rule bit_word_eqI) (auto simp: bit_simps)

lemma unat_clear_low_bits:
  fixes x :: "'a::len word"
  shows "unat (x AND NOT (mask k)) = unat x div 2 ^ k * 2 ^ k"
proof -
  have "unat x div 2 ^ k * 2 ^ k < 2 ^ LENGTH('a)"
    using unsigned_less [of x] by (meson div_times_less_eq_dividend le_less_trans)
  moreover have "unat (push_bit k (drop_bit k x)) =
      take_bit LENGTH('a) (push_bit k (drop_bit k (take_bit LENGTH('a) (unat x))))"
    by (simp only: unsigned_push_bit_eq unsigned_drop_bit_eq)
  moreover have "take_bit LENGTH('a) (unat x) = unat x"
    using unsigned_less [of x] by (simp add: take_bit_nat_eq_self_iff)
  ultimately show ?thesis
    by (simp add: word_clear_low_bits push_bit_eq_mult drop_bit_eq_div take_bit_eq_mod)
qed

lemma unat_and_mask:
  fixes x :: "'a::len word"
  shows "unat (x AND mask k) = unat x mod 2 ^ k"
proof -
  have "unat (take_bit k x) = take_bit k (unat x)"
    by (rule unsigned_take_bit_eq)
  then show ?thesis
    by (simp only: take_bit_eq_mask) (simp add: take_bit_eq_mask [symmetric] take_bit_eq_mod)
qed

lemma unat_add_no_wrap:
  fixes a b :: "'a::len word"
  assumes "unat a + unat b < 2 ^ LENGTH('a)"
  shows "unat (a + b) = unat a + unat b"
  using assms by (simp add: unat_word_ariths)

lemma unat_sub_no_wrap:
  fixes a b :: "'a::len word"
  assumes "unat b \<le> unat a"
  shows "unat (a - b) = unat a - unat b"
  using assms by (simp add: unat_sub_if')

lemma unat_of_nat_u32: "n < 4294967296 \<Longrightarrow> unat (of_nat n :: u32) = n"
  by (simp add: unat_of_nat)

lemma unat_of_nat_u64: "n < 18446744073709551616 \<Longrightarrow> unat (of_nat n :: u64) = n"
  by (simp add: unat_of_nat)

lemma unat_mask_u64: "k < 64 \<Longrightarrow> unat (mask k :: u64) = 2 ^ k - 1"
proof -
  assume "k < 64"
  then have "(2::nat) ^ k < 18446744073709551616"
    using power_strict_increasing [of k 64 "2::nat"] by simp
  then have "unat ((2::u64) ^ k) = 2 ^ k"
    using unat_of_nat_u64 [of "2 ^ k"] by simp
  then show ?thesis
    by (simp add: mask_eq_exp_minus_1 unat_sub_if')
qed

text \<open>Rounding up to a multiple of \<open>m\<close> on naturals.\<close>

definition ceil_to :: "nat \<Rightarrow> nat \<Rightarrow> nat" where
  "ceil_to m n = (n + m - 1) div m * m"

lemma ceil_to_eq: "0 < m \<Longrightarrow> ceil_to m n + (n + m - 1) mod m = n + m - 1"
  by (simp add: ceil_to_def)

lemma ceil_to_ge: "0 < m \<Longrightarrow> n \<le> ceil_to m n"
  using ceil_to_eq [of m n] mod_less_divisor [of m "n + m - 1"] by linarith

lemma ceil_to_less: "0 < m \<Longrightarrow> ceil_to m n < n + m"
  using ceil_to_eq [of m n] by linarith

lemma ceil_to_dvd: "m dvd ceil_to m n"
  by (simp add: ceil_to_def)

lemma ceil_to_least:
  assumes "0 < m" and "m dvd k" and "n \<le> k"
  shows "ceil_to m n \<le> k"
proof (rule ccontr)
  assume "\<not> ceil_to m n \<le> k"
  then have "k < ceil_to m n" by simp
  moreover obtain q where q: "k = m * q" using assms(2) by (rule dvdE)
  moreover obtain c where c: "ceil_to m n = m * c" using ceil_to_dvd by (rule dvdE)
  ultimately have "q + 1 \<le> c" by simp
  then have "m * (q + 1) \<le> m * c" by (rule mult_le_mono2)
  with q c have "k + m \<le> ceil_to m n" by simp
  with ceil_to_less [OF assms(1), of n] assms(3) show False by linarith
qed

lemma ceil_to_Suc:
  assumes "0 < n" and "0 < m"
  shows "ceil_to m n = ((n - 1) div m + 1) * m"
proof -
  have "n + m - 1 = (n - 1) + m" using assms(1) by simp
  then have "(n + m - 1) div m = ((n - 1) + m) div m" by (rule arg_cong)
  also have "\<dots> = (n - 1) div m + 1" using assms(2) by (intro div_add_self2) simp
  finally show ?thesis by (simp add: ceil_to_def)
qed

text \<open>An array update \<open>a[i] op= v\<close>, and the array that holds \<open>g i\<close> at \<open>i - n\<close>.\<close>

definition update_at :: "nat \<Rightarrow> ('a \<Rightarrow> 'a) \<Rightarrow> 'a list \<Rightarrow> 'a list" where
  "update_at i f xs = xs[i := f (xs ! i)]"

definition tabulate :: "nat \<Rightarrow> nat \<Rightarrow> (nat \<Rightarrow> 'a) \<Rightarrow> 'a list" where
  "tabulate n m g = map g [n..<m]"

lemma update_at_nth [simp]:
  "length (update_at i f xs) = length xs"
  "s < length xs \<Longrightarrow> update_at i f xs ! s = (if s = i then f (xs ! s) else xs ! s)"
  by (simp_all add: update_at_def nth_list_update)

lemma tabulate_nth [simp]:
  "length (tabulate n m g) = m - n" "i < m - n \<Longrightarrow> tabulate n m g ! i = g (n + i)"
  by (simp_all add: tabulate_def)

lemma update_at_tabulate:
  assumes "n \<le> i" and "i < m"
  shows "update_at (i - n) f (tabulate n m g) = tabulate n m (\<lambda>b. if b = i then f (g b) else g b)"
  using assms by (auto intro!: nth_equalityI)

lemma update_at_tabulate0:
  "i < m \<Longrightarrow> update_at i f (tabulate 0 m g) = tabulate 0 m (\<lambda>b. if b = i then f (g b) else g b)"
  using update_at_tabulate [of 0 i m f g] by simp

lemma tabulate_eq: "tabulate n m g = tabulate n m h \<longleftrightarrow> (\<forall>i. n \<le> i \<and> i < m \<longrightarrow> g i = h i)"
  by (auto simp: tabulate_def)

lemma tabulate_zero [simp]: "tabulate n m (\<lambda>_. c) = replicate (m - n) c"
  by (auto intro!: nth_equalityI)

text \<open>Inclusion of one ordered table in another, by one merge.\<close>

fun merge_sub :: "'a list \<Rightarrow> 'a list \<Rightarrow> bool" where
  "merge_sub [] ys = True"
| "merge_sub (x # xs) [] = False"
| "merge_sub (x # xs) (y # ys) = (if x = y then merge_sub xs ys else merge_sub (x # xs) ys)"

lemma merge_sub_subset: "merge_sub xs ys \<Longrightarrow> set xs \<subseteq> set ys"
  by (induction xs ys rule: merge_sub.induct) (auto split: if_splits)

lemma unat_u32_u64: "unat (ucast (x :: u32) :: u64) = unat x"
proof -
  have "unat x < 2 ^ 64"
    using unsigned_less [of x, where ?'a = nat] by simp
  then show ?thesis by (simp add: unsigned_ucast_eq take_bit_nat_eq_self_iff)
qed

text \<open>Little-endian bytes: the bytes of a word, put together again, are the word.\<close>

lemma le_bits:
  fixes w :: "'a::len word" and f :: "nat \<Rightarrow> u8"
  assumes "\<And>k. m \<le> k \<Longrightarrow> k < n \<Longrightarrow> f k = ucast (drop_bit (8 * k) w)"
  shows "bit (foldr (\<lambda>k v. push_bit 8 v OR ucast (f k)) [m..<n] (0 :: 'a word)) j \<longleftrightarrow> j < 8 * (n - m) \<and> bit w (8 * m + j)"
  using assms
proof (induction "n - m" arbitrary: m j)
  case (Suc d)
  then have m: "m < n" by simp
  have ih: "bit (foldr (\<lambda>k v. push_bit 8 v OR ucast (f k)) [Suc m..<n] (0 :: 'a word)) j \<longleftrightarrow>
      j < 8 * (n - Suc m) \<and> bit w (8 * Suc m + j)" for j
    using Suc.hyps(2) Suc.prems by (intro Suc.hyps(1)) simp_all
  have b: "f m = ucast (drop_bit (8 * m) w)" using Suc.prems m by simp
  have "bit w (8 * m + j) \<Longrightarrow> j < LENGTH('a)" for j
    by (metis add_lessD1 bit_imp_le_length add.commute)
  then show ?case
    using m unfolding upt_conv_Cons [OF m] foldr_Cons comp_def
    by (simp only: bit_or_iff bit_push_bit_iff ih b bit_ucast_iff bit_drop_bit_eq comp_def)
      (cases "j < 8"; auto simp: algebra_simps)
qed simp

lemma le_value:
  fixes w :: "'a::len word" and f :: "nat \<Rightarrow> u8"
  assumes "\<And>k. k < n \<Longrightarrow> f k = ucast (drop_bit (8 * k) w)" and "8 * n = LENGTH('a)"
  shows "foldr (\<lambda>k v. push_bit 8 v OR ucast (f k)) [0..<n] (0 :: 'a word) = w"
  using le_bits [of 0 n f w] assms by (intro bit_word_eqI) simp

end
