(* ===== verification/SizeClasses.thy ===== *)
theory SizeClasses
  imports Prelude
begin

text \<open>
  The size-class arithmetic of \<open>malloc_hole_hook.c\<close>: the variable-step classes the hook
  rounds requests to (\<open>small_size_class_at\<close>, \<open>rounded_allocation_size\<close>), the common
  live histogram (\<open>live_histogram_size_classes\<close>, \<open>live_histogram_bucket_index\<close>) and the
  class tables of the compared allocators. The lemmas show that rounding finds the least
  class (or 4 KiB multiple) that holds the request and that the bucket index, computed
  with a patched Mini160 index below 16384 and a binary search above, is the position the
  table itself defines.
\<close>

definition SMALL_SIZE_CLASS_COUNT :: nat where "SMALL_SIZE_CLASS_COUNT = 160"
definition SIZE_BUCKET_COUNT :: nat where "SIZE_BUCKET_COUNT = SMALL_SIZE_CLASS_COUNT + 1"
definition LIVE_HISTOGRAM_EXPLICIT_CLASS_COUNT :: nat where
  "LIVE_HISTOGRAM_EXPLICIT_CLASS_COUNT = 176"
definition LIVE_HISTOGRAM_BUCKET_COUNT :: nat where
  "LIVE_HISTOGRAM_BUCKET_COUNT = LIVE_HISTOGRAM_EXPLICIT_CLASS_COUNT + 1"
definition LIVE_HISTOGRAM_LARGE_START :: nat where "LIVE_HISTOGRAM_LARGE_START = 164"
definition LIVE_HISTOGRAM_LARGE_BUCKET_COUNT :: nat where
  "LIVE_HISTOGRAM_LARGE_BUCKET_COUNT = LIVE_HISTOGRAM_BUCKET_COUNT - LIVE_HISTOGRAM_LARGE_START"
definition LARGE_ALLOCATION_ALIGNMENT :: u64 where "LARGE_ALLOCATION_ALIGNMENT = 4096"

lemmas class_counts =
  SMALL_SIZE_CLASS_COUNT_def SIZE_BUCKET_COUNT_def LIVE_HISTOGRAM_EXPLICIT_CLASS_COUNT_def
  LIVE_HISTOGRAM_BUCKET_COUNT_def LIVE_HISTOGRAM_LARGE_START_def
  LIVE_HISTOGRAM_LARGE_BUCKET_COUNT_def

subsection \<open>The model\<close>

definition small_size_class_at :: "u32 \<Rightarrow> u64" where
  "small_size_class_at index =
    (if index < 32 then ucast (index + 1) * 8
     else let index = index - 32 in
     if index < 16 then 256 + ucast (index + 1) * 16
     else let index = index - 16 in
     if index < 16 then 512 + ucast (index + 1) * 32
     else let index = index - 16 in
     if index < 16 then 1024 + ucast (index + 1) * 64
     else let index = index - 16 in
     if index < 48 then 2048 + ucast (index + 1) * 128
     else let index = index - 48 in
     8192 + ucast (index + 1) * 256)"

definition live_histogram_size_classes :: "u64 list" where
  "live_histogram_size_classes =
    [8, 16, 24, 32, 40, 48, 56, 64,
     72, 80, 88, 96, 104, 112, 120, 128,
     136, 144, 152, 160, 168, 176, 184, 192,
     200, 208, 216, 224, 232, 240, 248, 256,
     272, 288, 304, 320, 336, 352, 368, 384,
     400, 416, 432, 448, 464, 480, 496, 512,
     544, 560, 576, 608, 640, 656, 672, 704,
     736, 768, 784, 800, 832, 864, 896, 928,
     960, 992, 1024, 1088, 1152, 1216, 1280, 1312,
     1344, 1408, 1472, 1536, 1600, 1664, 1728, 1792,
     1856, 1920, 1984, 2048, 2176, 2304, 2432, 2560,
     2688, 2816, 2944, 3072, 3200, 3328, 3456, 3584,
     3712, 3840, 3968, 4096,
     4224, 4352, 4480, 4608, 4736, 4864, 4992, 5120,
     5248, 5376, 5504, 5632, 5760, 5888, 6016, 6144,
     6272, 6400, 6528, 6656, 6784, 6912, 7040, 7168,
     7296, 7424, 7552, 7680, 7808, 7936, 8064, 8192,
     8448, 8704, 8960, 9216, 9472, 9728, 9984, 10240,
     10496, 10752, 11008, 11264, 11520, 11776, 12032,
     12288, 12544, 12800, 13056, 13312, 13568, 13824,
     14080, 14336, 14592, 14848, 15104, 15360, 15616,
     15872, 16128, 16384,
     40960, 49152, 57344, 65536, 81920, 98304, 114688,
     131072, 163840, 196608, 229376, 262144]"

definition dfmalloc1_size_classes :: "u64 list" where
  "dfmalloc1_size_classes =
    [8, 16, 24, 32, 40, 48, 56, 64,
     80, 96, 112, 128, 144, 176, 208, 256,
     304, 352, 384, 432, 496, 560, 656, 784,
     992, 1312, 1984, 3968, 4096,
     5120, 6144, 7168, 8192, 10240, 12288, 14336, 16384,
     40960, 49152, 57344, 65536, 81920, 98304, 114688,
     131072, 163840, 196608, 229376, 262144]"

definition dfmalloc2_size_classes :: "u64 list" where
  "dfmalloc2_size_classes =
    [8, 16, 32, 48, 64, 80, 96, 112, 128,
     160, 192, 224, 256, 304, 352, 384, 432, 496,
     560, 640, 784, 992, 1280, 1536, 2048,
     2560, 3072, 3584, 4096, 5120, 6144, 7168,
     8192, 10240, 12288, 14336]"

definition jemalloc_size_classes :: "u64 list" where
  "jemalloc_size_classes =
    [8, 16, 32, 48, 64, 80, 96, 112, 128,
     160, 192, 224, 256, 320, 384, 448, 512,
     640, 768, 896, 1024, 1280, 1536, 1792, 2048,
     2560, 3072, 3584, 4096, 5120, 6144, 7168,
     8192, 10240, 12288, 14336, 16384,
     40960, 49152, 57344, 65536, 81920, 98304,
     114688, 131072, 163840, 196608, 229376, 262144]"

text \<open>The out-parameters \<open>rounded\<close> and \<open>bucket\<close> are the pair under \<open>Some\<close>; \<open>false\<close> is \<open>None\<close>.\<close>

definition rounded_allocation_size :: "u64 \<Rightarrow> (u64 \<times> u32) option" where
  "rounded_allocation_size requested =
    (let value = (if requested = 0 then 1 else requested) in
     if value \<le> 256 then
       (let rounded = (value + 7) AND NOT 7
        in Some (rounded, ucast (rounded div 8 - 1)))
     else if value \<le> 512 then
       (let rounded = 256 + ((value - 256 + 15) AND NOT 15)
        in Some (rounded, 31 + ucast ((rounded - 256) div 16)))
     else if value \<le> 1024 then
       (let rounded = 512 + ((value - 512 + 31) AND NOT 31)
        in Some (rounded, 47 + ucast ((rounded - 512) div 32)))
     else if value \<le> 2048 then
       (let rounded = 1024 + ((value - 1024 + 63) AND NOT 63)
        in Some (rounded, 63 + ucast ((rounded - 1024) div 64)))
     else if value \<le> 4096 then
       (let rounded = 2048 + ((value - 2048 + 127) AND NOT 127)
        in Some (rounded, 79 + ucast ((rounded - 2048) div 128)))
     else if value \<le> 8192 then
       (let rounded = 4096 + ((value - 4096 + 127) AND NOT 127)
        in Some (rounded, 95 + ucast ((rounded - 4096) div 128)))
     else if value \<le> 16384 then
       (let rounded = 8192 + ((value - 8192 + 255) AND NOT 255)
        in Some (rounded, 127 + ucast ((rounded - 8192) div 256)))
     else if requested > SIZE_MAX - (LARGE_ALLOCATION_ALIGNMENT - 1) then None
     else Some ((requested + LARGE_ALLOCATION_ALIGNMENT - 1)
                  AND NOT (LARGE_ALLOCATION_ALIGNMENT - 1),
                of_nat SMALL_SIZE_CLASS_COUNT))"

text \<open>The binary search of \<open>live_histogram_bucket_index\<close>; its bounds stay below 177, so the
  \<open>uint32_t\<close> cursors are naturals.\<close>

function histogram_search :: "u64 list \<Rightarrow> u64 \<Rightarrow> nat \<Rightarrow> nat \<Rightarrow> nat" where
  "histogram_search classes value low high =
    (if low < high then
       let middle = low + (high - low) div 2 in
       if classes ! middle < value then histogram_search classes value (middle + 1) high
       else histogram_search classes value low middle
     else low)"
  by pat_completeness auto
termination
  by (relation "measure (\<lambda>(classes, value, low, high). high - low)") auto

declare histogram_search.simps [simp del]

definition live_histogram_bucket_index :: "u64 \<Rightarrow> u32 \<Rightarrow> nat" where
  "live_histogram_bucket_index requested mini_bucket =
    (let value = (if requested = 0 then 1 else requested) in
     if value \<le> 16384 then
       (if mini_bucket < 49 then unat mini_bucket
        else if mini_bucket = 49 then unat (mini_bucket + (if value > 560 then 1 else 0))
        else if mini_bucket < 52 then unat (mini_bucket + 1)
        else if mini_bucket = 52 then unat (mini_bucket + 1 + (if value > 656 then 1 else 0))
        else if mini_bucket < 56 then unat (mini_bucket + 2)
        else if mini_bucket = 56 then unat (mini_bucket + 2 + (if value > 784 then 1 else 0))
        else if mini_bucket < 68 then unat (mini_bucket + 3)
        else if mini_bucket = 68 then unat (mini_bucket + 3 + (if value > 1312 then 1 else 0))
        else unat (mini_bucket + 4))
     else histogram_search live_histogram_size_classes value
            LIVE_HISTOGRAM_LARGE_START LIVE_HISTOGRAM_EXPLICIT_CLASS_COUNT)"

subsection \<open>Rounding\<close>

text \<open>The classes and the class index of a size, over the naturals.\<close>

definition class_at :: "nat \<Rightarrow> nat" where
  "class_at n =
    (if n < 32 then (n + 1) * 8
     else if n < 48 then 256 + (n - 31) * 16
     else if n < 64 then 512 + (n - 47) * 32
     else if n < 80 then 1024 + (n - 63) * 64
     else if n < 128 then 2048 + (n - 79) * 128
     else 8192 + (n - 127) * 256)"

lemma small_size_class_at_nat: assumes "n < 160" shows "unat (small_size_class_at (of_nat n)) = class_at n"
proof -
  have u: "unat (of_nat n :: u32) = n" using assms by (simp add: unat_of_nat_u32)
  show ?thesis using assms
  by (simp add: small_size_class_at_def class_at_def Let_def word_less_nat_alt u unat_sub_if' unat_word_ariths unsigned_ucast_eq take_bit_eq_mod) linarith
qed

lemma round_segment:
  fixes v :: u64 and base k :: nat
  assumes "base \<le> unat v" and "unat v \<le> 16384" and "k \<le> 8"
  shows "unat (of_nat base + ((v - of_nat base + mask k) AND NOT (mask k)))
    = base + ceil_to (2 ^ k) (unat v - base)"
proof -
  have m: "unat (mask k :: u64) = 2 ^ k - 1" "(2::nat) ^ k \<le> 256"
    using assms(3) power_increasing [of k 8 "2::nat"] by (auto simp: unat_mask_u64)
  have b: "unat (of_nat base :: u64) = base"
    using assms by (simp add: unat_of_nat)
  have s: "unat (v - of_nat base) = unat v - base"
    using assms b by (simp add: unat_sub_no_wrap)
  have p: "unat (v - of_nat base + mask k) = unat v - base + 2 ^ k - 1"
    using assms m s by (subst unat_add_no_wrap) auto
  have c: "unat ((v - of_nat base + mask k) AND NOT (mask k)) = ceil_to (2 ^ k) (unat v - base)"
    by (simp add: unat_clear_low_bits p ceil_to_def)
  moreover have "ceil_to (2 ^ k) (unat v - base) < 16384 + 256"
    using ceil_to_less [of "2 ^ k" "unat v - base"] m assms by simp
  ultimately show ?thesis
    using b assms by (subst unat_add_no_wrap) auto
qed

definition class_index :: "nat \<Rightarrow> nat" where
  "class_index v =
    (if v \<le> 256 then (v - 1) div 8
     else if v \<le> 512 then 32 + (v - 257) div 16
     else if v \<le> 1024 then 48 + (v - 513) div 32
     else if v \<le> 2048 then 64 + (v - 1025) div 64
     else if v \<le> 8192 then 80 + (v - 2049) div 128
     else 128 + (v - 8193) div 256)"


lemma div_segment:
  fixes v base s :: nat
  assumes "base < v" and "0 < s"
  shows "base + (v - (base + 1)) div s * s < v" and "v \<le> base + ((v - (base + 1)) div s + 1) * s"
proof -
  have "(v - (base + 1)) div s * s + (v - (base + 1)) mod s = v - (base + 1)" by (rule div_mult_mod_eq)
  moreover have "(v - (base + 1)) mod s < s" using assms(2) by simp
  moreover have "((v - (base + 1)) div s + 1) * s = (v - (base + 1)) div s * s + s" by simp
  ultimately show "base + (v - (base + 1)) div s * s < v"
    and "v \<le> base + ((v - (base + 1)) div s + 1) * s" using assms(1) by linarith+
qed

text \<open>The size the classes see: a zero-byte request counts as one byte.\<close>

definition effective :: "u64 \<Rightarrow> u64" where
  "effective requested = (if requested = 0 then 1 else requested)"


lemma bucket_segment:
  fixes r :: u64
  assumes "unat r = base + (q + 1) * s" and "0 < s" and "unat r \<le> 16384" and "off < 1000"
  shows "unat (of_nat off + ucast ((r - of_nat base) div of_nat s) :: u32) = off + q + 1"
proof -
  have le: "base \<le> unat r" "(q + 1) * s \<le> 16384" using assms by linarith+
  then have q: "q + 1 \<le> 16384" using assms(2) by (metis le_trans mult_le_mono2 nat_mult_1_right Suc_leI One_nat_def)
  have s: "s \<le> 16384" using le(2) by (metis le_trans le_add2 mult_le_mono1 nat_mult_1)
  have nb: "unat (of_nat base :: u64) = base" "unat (of_nat s :: u64) = s"
    using le assms s by (simp_all add: unat_of_nat_u64)
  have "unat (r - of_nat base) = (q + 1) * s"
    using le nb assms by (simp add: unat_sub_no_wrap)
  then have "unat ((r - of_nat base) div of_nat s) = q + 1"
    using nb assms(2) by (simp add: unat_div)
  then have "unat (ucast ((r - of_nat base) div of_nat s) :: u32) = q + 1"
    using q by (simp add: unsigned_ucast_eq take_bit_eq_mod)
  moreover have "unat (of_nat off :: u32) = off" using assms by (simp add: unat_of_nat_u32)
  ultimately show ?thesis using q assms by (simp add: unat_add_no_wrap)
qed

definition class_segments :: "(nat \<times> nat \<times> nat \<times> nat \<times> nat) list" where
  "class_segments = [(0, 256, 0, 8, 32), (256, 512, 32, 16, 16), (512, 1024, 48, 32, 16), (1024, 2048, 64, 64, 16),
    (2048, 8192, 80, 128, 48), (8192, 16384, 128, 256, 32)]"

lemma class_index_segment:
  assumes "(base, hi, c, s, n) \<in> set class_segments" and "base < v" and "v \<le> hi"
  shows "class_index v = c + (v - (base + 1)) div s" (is ?I)
    and "class_at (class_index v) = base + ((v - (base + 1)) div s + 1) * s" (is ?A)
    and "0 < class_index v \<Longrightarrow> class_at (class_index v - 1) = base + (v - (base + 1)) div s * s"
proof -
  have hi: "hi = base + n * s"
    using assms(1) by (auto simp: class_segments_def)
  have q: "(v - (base + 1)) div s < n" using assms(2,3) hi by (simp add: less_mult_imp_div_less)
  have at: "class_at (c + q) = base + (q + 1) * s" if "q < n" for q
    using assms(1) that by (auto simp: class_segments_def class_at_def)
  have pre: "class_at (c + q - 1) = base + q * s" if "q < n" "0 < c + q" for q
    using assms(1) that by (cases q) (auto simp: class_segments_def class_at_def)
  show i: ?I using assms by (auto simp: class_segments_def class_index_def)
  show ?A unfolding i by (rule at [OF q])
  show "class_at (class_index v - 1) = base + (v - (base + 1)) div s * s" if "0 < class_index v"
    using that unfolding i by (rule pre [OF q])
qed

lemma small_segment:
  assumes "0 < v" and "v \<le> 16384"
  obtains base hi c s n where "(base, hi, c, s, n) \<in> set class_segments" and "base < v" and "v \<le> hi"
proof -
  have "\<exists>t \<in> set class_segments. case t of (base, hi, c, s, n) \<Rightarrow> base < v \<and> v \<le> hi"
    using assms by (simp add: class_segments_def) linarith
  then show thesis using that by auto
qed

lemma class_index_least:
  assumes "0 < v" and "v \<le> 16384"
  shows "class_index v < 160" and "v \<le> class_at (class_index v)"
    and "0 < class_index v \<Longrightarrow> class_at (class_index v - 1) < v"
proof -
  obtain base hi c s n where m: "(base, hi, c, s, n) \<in> set class_segments" "base < v" "v \<le> hi"
    using assms by (rule small_segment)
  then have s: "0 < s" "c + n \<le> 160" "hi = base + n * s" by (auto simp: class_segments_def)
  note d = div_segment [OF m(2) s(1)]
  have "(v - (base + 1)) div s < n" using m(2,3) s by (simp add: less_mult_imp_div_less)
  then show "class_index v < 160" using class_index_segment(1) [OF m] s by simp
  show "v \<le> class_at (class_index v)" using class_index_segment(2) [OF m] d by simp
  show "class_at (class_index v - 1) < v" if "0 < class_index v"
    using class_index_segment(3) [OF m that] d by simp
qed


lemma rounded_segment:
  fixes v :: u64
  assumes "base < unat v" and "unat v \<le> 16384" and "k \<le> 8" and "off < 1000"
    and "(unat v - (base + 1)) div 2 ^ k + 1 \<le> (16384 - base) div 2 ^ k"
  defines "q \<equiv> (unat v - (base + 1)) div 2 ^ k"
    and "r \<equiv> of_nat base + ((v - of_nat base + mask k) AND NOT (mask k))"
  shows "unat r = base + (q + 1) * 2 ^ k"
    and "unat (of_nat off + ucast ((r - of_nat base) div of_nat (2 ^ k)) :: u32) = off + q + 1"
proof -
  show r: "unat r = base + (q + 1) * 2 ^ k"
    unfolding r_def q_def using assms(1-3) by (subst round_segment) (simp_all add: ceil_to_Suc)
  have "(q + 1) * 2 ^ k \<le> 16384 - base"
    using assms(5) unfolding q_def by (simp add: less_eq_div_iff_mult_less_eq)
  then have "unat r \<le> 16384" using r assms(1,2) by simp
  with bucket_segment [OF r _ this assms(4)]
  show "unat (of_nat off + ucast ((r - of_nat base) div of_nat (2 ^ k)) :: u32) = off + q + 1"
    by simp
qed

lemmas rounded_segments_w =
  rounded_segment [of 0 _ 3 0] rounded_segment [of 256 _ 4 31] rounded_segment [of 512 _ 5 47]
  rounded_segment [of 1024 _ 6 63] rounded_segment [of 2048 _ 7 79] rounded_segment [of 4096 _ 7 95]
  rounded_segment [of 8192 _ 8 127]
lemmas rounded_segments = rounded_segments_w [simplified, unfolded mask_eq_exp_minus_1, simplified]

lemma rounded_small:
  assumes "unat (effective req) \<le> 16384"
  shows "\<exists>r b. rounded_allocation_size req = Some (r, b) \<and> unat b = class_index (unat (effective req))
    \<and> unat r = class_at (class_index (unat (effective req)))"
proof -
  define v where "v = effective req"
  have v0: "0 < unat v" by (simp add: v_def effective_def unat_gt_0)
  have eq: "(if req = 0 then 1 else req) = v" by (simp add: v_def effective_def)
  note defs = rounded_allocation_size_def eq word_le_nat_alt
  note seg = class_index_segment [unfolded class_segments_def]
  consider "unat v \<le> 256" | "256 < unat v" "unat v \<le> 512" | "512 < unat v" "unat v \<le> 1024"
    | "1024 < unat v" "unat v \<le> 2048" | "2048 < unat v" "unat v \<le> 4096"
    | "4096 < unat v" "unat v \<le> 8192" | "8192 < unat v" "unat v \<le> 16384"
    using assms unfolding v_def by linarith
  then have "\<exists>r b. rounded_allocation_size req = Some (r, b) \<and> unat b = class_index (unat v)
    \<and> unat r = class_at (class_index (unat v))"
  proof cases
    case 1
    then have "(unat v - 1) div 8 < 32" by (simp add: less_mult_imp_div_less)
    with 1 v0 have r: "unat ((v + 7) AND - 8) = 8 + (unat v - 1) div 8 * 8"
      using rounded_segments(1) [of v] by simp
    moreover have "unat (ucast ((v + 7 AND - 8) div 8 - 1) :: u32) = (unat v - 1) div 8"
      using r 1 by (simp add: unsigned_ucast_eq take_bit_eq_mod unat_div unat_sub_if')
    ultimately show ?thesis using 1 v0 seg(1,2) [of 0 256 0 8 32 "unat v"]
      by (simp add: defs Let_def)
  next
    case 2
    moreover from 2 have "(unat v - 257) div 16 < 16" by (simp add: less_mult_imp_div_less)
    ultimately show ?thesis
      using rounded_segments(3,4) [of v] seg(1,2) [of 256 512 32 16 16 "unat v"]
      by (simp add: defs Let_def)
  next
    case 3
    moreover from 3 have "(unat v - 513) div 32 < 16" by (simp add: less_mult_imp_div_less)
    ultimately show ?thesis
      using rounded_segments(5,6) [of v] seg(1,2) [of 512 1024 48 32 16 "unat v"]
      by (simp add: defs Let_def)
  next
    case 4
    moreover from 4 have "(unat v - 1025) div 64 < 16" by (simp add: less_mult_imp_div_less)
    ultimately show ?thesis
      using rounded_segments(7,8) [of v] seg(1,2) [of 1024 2048 64 64 16 "unat v"]
      by (simp add: defs Let_def)
  next
    case 5
    moreover from 5 have "(unat v - 2049) div 128 < 16" by (simp add: less_mult_imp_div_less)
    ultimately show ?thesis
      using rounded_segments(9,10) [of v] seg(1,2) [of 2048 8192 80 128 48 "unat v"]
      by (simp add: defs Let_def)
  next
    case 6
    then have "(unat v - 2049) div 128 = ((unat v - 4097) + 16 * 128) div 128" by simp
    also have "\<dots> = 16 + (unat v - 4097) div 128" by (intro div_mult_self1) simp
    finally have "(unat v - 2049) div 128 = 16 + (unat v - 4097) div 128" .
    moreover from 6 have "(unat v - 4097) div 128 < 32" by (simp add: less_mult_imp_div_less)
    moreover note 6
    ultimately show ?thesis
      using rounded_segments(11,12) [of v] seg(1,2) [of 2048 8192 80 128 48 "unat v"]
      by (simp add: defs Let_def)
  next
    case 7
    moreover from 7 have "(unat v - 8193) div 256 < 32" by (simp add: less_mult_imp_div_less)
    ultimately show ?thesis
      using rounded_segments(13,14) [of v] seg(1,2) [of 8192 16384 128 256 32 "unat v"]
      by (simp add: defs Let_def)
  qed
  then show ?thesis by (simp add: v_def)
qed

lemma effective_le: "unat (effective req) \<le> 16384 \<longleftrightarrow> unat req \<le> 16384"
  by (auto simp: effective_def)

lemma rounded_large:
  assumes "16384 < unat req"
  shows "rounded_allocation_size req =
    (if req > SIZE_MAX - 4095 then None else Some ((req + 4095) AND NOT 4095, 160))"
proof -
  have "req \<noteq> 0" "\<not> req \<le> 16384" using assms by (auto simp: word_le_nat_alt)
  moreover have "\<not> req \<le> 256" "\<not> req \<le> 512" "\<not> req \<le> 1024" "\<not> req \<le> 2048"
     "\<not> req \<le> 4096" "\<not> req \<le> 8192" using assms by (auto simp: word_le_nat_alt)
  ultimately show ?thesis
    by (simp add: rounded_allocation_size_def Let_def LARGE_ALLOCATION_ALIGNMENT_def
        SMALL_SIZE_CLASS_COUNT_def add.commute [of 4095])
qed
 
lemma rounded_large_nat:
  assumes "16384 < unat req"
  shows "rounded_allocation_size req = None \<longleftrightarrow> 2 ^ 64 - 4096 < unat req"
    and "rounded_allocation_size req = Some (r, b) \<Longrightarrow> b = 160 \<and> unat r = ceil_to 4096 (unat req)"
proof -
  have mx: "unat (SIZE_MAX - 4095 :: u64) = 2 ^ 64 - 4096"
    by (simp add: unat_sub_no_wrap)
  show "rounded_allocation_size req = None \<longleftrightarrow> 2 ^ 64 - 4096 < unat req"
    using rounded_large [OF assms] mx by (simp add: word_less_nat_alt)
  assume r: "rounded_allocation_size req = Some (r, b)"
  then have le: "unat req \<le> 2 ^ 64 - 4096" and eq: "r = (req + 4095) AND NOT 4095" "b = 160"
    using rounded_large [OF assms] mx by (auto simp: word_less_nat_alt split: if_splits)
  have "(4095 :: u64) = mask 12" by (simp add: mask_eq_exp_minus_1)
  moreover have "unat (req + 4095) = unat req + 4095" using le by (subst unat_add_no_wrap) simp_all
  ultimately show "b = 160 \<and> unat r = ceil_to 4096 (unat req)"
    using unat_clear_low_bits [of "req + 4095" 12] eq by (simp add: ceil_to_def)
qed

subsection \<open>The live histogram\<close>

lemma histogram_classes_length: "length live_histogram_size_classes = 176"
  by (simp add: live_histogram_size_classes_def sorted2_simps del: sorted_wrt.simps)

lemma histogram_classes_sorted: "sorted (map unat live_histogram_size_classes)"
  by (simp add: live_histogram_size_classes_def sorted2_simps del: sorted_wrt.simps)

lemma histogram_parts:
  "map unat (take 49 live_histogram_size_classes) = map class_at [0..<49]"
  "map unat (take 4 (drop 49 live_histogram_size_classes)) = 560 # map class_at [49..<52]"
  "map unat (take 5 (drop 53 live_histogram_size_classes)) = 656 # map class_at [52..<56]"
  "map unat (take 13 (drop 58 live_histogram_size_classes)) = 784 # map class_at [56..<68]"
  "map unat (take 93 (drop 71 live_histogram_size_classes)) = 1312 # map class_at [68..<160]"
  by (simp_all add: live_histogram_size_classes_def class_at_def upt_conv_Cons)


definition histogram_at :: "nat \<Rightarrow> nat" where
  "histogram_at i = unat (live_histogram_size_classes ! i)"

lemma histogram_at_mono: "i \<le> j \<Longrightarrow> j < 176 \<Longrightarrow> histogram_at i \<le> histogram_at j"
  using sorted_nth_mono [OF histogram_classes_sorted, of i j]
  by (simp add: histogram_at_def histogram_classes_length)

lemma histogram_at_part:
  assumes "map unat (take n (drop d live_histogram_size_classes)) = xs" and "d + n \<le> 176" and "i < n"
  shows "histogram_at (d + i) = xs ! i"
  using assms by (auto simp: histogram_at_def histogram_classes_length)

lemma histogram_at_tail:
  assumes "map unat (take k (drop d live_histogram_size_classes)) = x # map class_at [a..<c]"
    and "d + k \<le> 176" and "k = c - a + 1"
  shows "histogram_at d = x"
    and "a \<le> n \<Longrightarrow> n < c \<Longrightarrow> d + 1 = a + e \<Longrightarrow> histogram_at (n + e) = class_at n"
proof -
  show "histogram_at d = x" using histogram_at_part [OF assms(1,2), of 0] assms(3) by simp
  assume n: "a \<le> n" "n < c" "d + 1 = a + e"
  then have "d + (n - a + 1) = n + e" by simp
  moreover have "histogram_at (d + (n - a + 1)) = class_at n"
    using histogram_at_part [OF assms(1,2), of "n - a + 1"] assms(3) n by simp
  ultimately show "histogram_at (n + e) = class_at n" by (simp only:)
qed

lemma histogram_at_classes:
  "n < 49 \<Longrightarrow> histogram_at n = class_at n"
  "histogram_at 49 = 560" "49 \<le> n \<Longrightarrow> n < 52 \<Longrightarrow> histogram_at (n + 1) = class_at n"
  "histogram_at 53 = 656" "52 \<le> n \<Longrightarrow> n < 56 \<Longrightarrow> histogram_at (n + 2) = class_at n"
  "histogram_at 58 = 784" "56 \<le> n \<Longrightarrow> n < 68 \<Longrightarrow> histogram_at (n + 3) = class_at n"
  "histogram_at 71 = 1312" "68 \<le> n \<Longrightarrow> n < 160 \<Longrightarrow> histogram_at (n + 4) = class_at n"
proof -
  have "map unat (take 49 (drop 0 live_histogram_size_classes)) = map class_at [0..<49]"
    using histogram_parts(1) by (simp only: drop0)
  from histogram_at_part [OF this, of n] show "n < 49 \<Longrightarrow> histogram_at n = class_at n"
    by (simp del: upt_rec_numeral)
  show "histogram_at 49 = 560" by (rule histogram_at_tail(1) [OF histogram_parts(2)]) simp_all
  show "49 \<le> n \<Longrightarrow> n < 52 \<Longrightarrow> histogram_at (n + 1) = class_at n"
    by (rule histogram_at_tail(2) [OF histogram_parts(2)]) simp_all
  show "histogram_at 53 = 656" by (rule histogram_at_tail(1) [OF histogram_parts(3)]) simp_all
  show "52 \<le> n \<Longrightarrow> n < 56 \<Longrightarrow> histogram_at (n + 2) = class_at n"
    by (rule histogram_at_tail(2) [OF histogram_parts(3)]) simp_all
  show "histogram_at 58 = 784" by (rule histogram_at_tail(1) [OF histogram_parts(4)]) simp_all
  show "56 \<le> n \<Longrightarrow> n < 68 \<Longrightarrow> histogram_at (n + 3) = class_at n"
    by (rule histogram_at_tail(2) [OF histogram_parts(4)]) simp_all
  show "histogram_at 71 = 1312" by (rule histogram_at_tail(1) [OF histogram_parts(5)]) simp_all
  show "68 \<le> n \<Longrightarrow> n < 160 \<Longrightarrow> histogram_at (n + 4) = class_at n"
    by (rule histogram_at_tail(2) [OF histogram_parts(5)]) simp_all
qed

text \<open>The position of a value in the table: its bucket is \<open>(previous boundary, boundary]\<close>.\<close>

definition histogram_position :: "nat \<Rightarrow> nat \<Rightarrow> bool" where
  "histogram_position v h \<longleftrightarrow>
    h \<le> 176 \<and> (h < 176 \<longrightarrow> v \<le> histogram_at h) \<and> (0 < h \<longrightarrow> histogram_at (h - 1) < v)"

lemma histogram_search_bounds:
  assumes "low \<le> high" and "high \<le> length classes" and "sorted (map unat classes)"
    and "\<forall>i < low. unat (classes ! i) < unat v" and "\<forall>i. high \<le> i \<and> i < length classes \<longrightarrow> unat v \<le> unat (classes ! i)"
  shows "histogram_search classes v low high \<le> high \<and> low \<le> histogram_search classes v low high
    \<and> (\<forall>i < histogram_search classes v low high. unat (classes ! i) < unat v)
    \<and> (\<forall>i. histogram_search classes v low high \<le> i \<and> i < length classes \<longrightarrow> unat v \<le> unat (classes ! i))"
  using assms
proof (induction classes v low high rule: histogram_search.induct)
  case (1 classes v low high)
  define m where "m = low + (high - low) div 2"
  have mono: "i \<le> j \<Longrightarrow> j < length classes \<Longrightarrow> unat (classes ! i) \<le> unat (classes ! j)" for i j
    using sorted_nth_mono [OF "1.prems"(3), of i j] by simp
  consider "\<not> low < high" | "low < high" "classes ! m < v" | "low < high" "\<not> classes ! m < v" by blast
  then show ?case
  proof cases
    case 1
    then have "histogram_search classes v low high = low" by (simp add: histogram_search.simps)
    with 1 "1.prems" show ?thesis by auto
  next
    case 2
    then have m: "low \<le> m" "m < high" by (auto simp: m_def)
    have below: "\<forall>i < m + 1. unat (classes ! i) < unat v"
    proof (intro allI impI)
      fix i assume "i < m + 1"
      then have "unat (classes ! i) \<le> unat (classes ! m)" using mono [of i m] m "1.prems"(2) by simp
      with 2(2) show "unat (classes ! i) < unat v" by (simp add: word_less_nat_alt)
    qed
    have eq: "histogram_search classes v low high = histogram_search classes v (m + 1) high"
      using 2 by (subst histogram_search.simps) (simp add: m_def)
    show ?thesis unfolding eq
      using "1.IH"(1) [OF 2(1) m_def] 2(2) below m "1.prems" by auto
  next
    case 3
    then have m: "low \<le> m" "m < high" by (auto simp: m_def)
    have above: "\<forall>i. m \<le> i \<and> i < length classes \<longrightarrow> unat v \<le> unat (classes ! i)"
      using 3(2) mono by (auto simp: word_less_nat_alt not_less intro: order_trans)
    have eq: "histogram_search classes v low high = histogram_search classes v low m"
      using 3 by (subst histogram_search.simps) (simp add: m_def)
    show ?thesis unfolding eq
      using "1.IH"(2) [OF 3(1) m_def] 3(2) above m "1.prems" by auto
  qed
qed

lemma histogram_index_small:
  assumes "unat (effective req) \<le> 16384" and "rounded_allocation_size req = Some (r, b)"
  shows "histogram_position (unat (effective req)) (live_histogram_bucket_index req b)"
proof -
  define v where "v = unat (effective req)"
  define n where "n = unat b"
  have v: "0 < v" "v \<le> 16384" using assms(1) by (auto simp: v_def effective_def unat_gt_0)
  have n: "n = class_index v" using rounded_small [OF assms(1)] assms(2) by (auto simp: n_def v_def)
  note least = class_index_least [OF v, folded n]
  have eq: "live_histogram_bucket_index req b =
    (if n < 49 then n else if n = 49 then n + (if v > 560 then 1 else 0) else if n < 52 then n + 1
     else if n = 52 then n + 1 + (if v > 656 then 1 else 0) else if n < 56 then n + 2
     else if n = 56 then n + 2 + (if v > 784 then 1 else 0) else if n < 68 then n + 3
     else if n = 68 then n + 3 + (if v > 1312 then 1 else 0) else n + 4)"
  proof -
    have "b = 49 \<longleftrightarrow> n = 49" "b = 52 \<longleftrightarrow> n = 52" "b = 56 \<longleftrightarrow> n = 56" "b = 68 \<longleftrightarrow> n = 68"
      by (auto simp: n_def word_unat_eq_iff)
    then show ?thesis
      using v least(1) unfolding live_histogram_bucket_index_def effective_def [symmetric] Let_def
      by (simp add: word_less_nat_alt word_le_nat_alt unat_word_ariths flip: v_def n_def)
  qed
  have pred: "class_at (k - 1) < v" if "n = k" "0 < k" for k using least(3) that by simp
  consider "n < 49" | "n = 49" | "49 < n" "n < 52" | "n = 52" | "52 < n" "n < 56" | "n = 56"
    | "56 < n" "n < 68" | "n = 68" | "68 < n" by linarith
  then have "histogram_position v (live_histogram_bucket_index req b)"
  proof cases
    case 1
    then show ?thesis using least histogram_at_classes(1) [of n] histogram_at_classes(1) [of "n - 1"]
      by (auto simp: histogram_position_def eq)
  next
    case 2
    then show ?thesis using least pred [of 49] histogram_at_classes(1) [of 48] histogram_at_classes(2) histogram_at_classes(3) [of 49]
      by (auto simp: histogram_position_def eq)
  next
    case 3
    then show ?thesis using least histogram_at_classes(3) [of n] histogram_at_classes(3) [of "n - 1"]
      by (auto simp: histogram_position_def eq)
  next
    case 4
    then show ?thesis using least pred [of 52] histogram_at_classes(3) [of 51] histogram_at_classes(4) histogram_at_classes(5) [of 52]
      by (auto simp: histogram_position_def eq)
  next
    case 5
    then show ?thesis using least histogram_at_classes(5) [of n] histogram_at_classes(5) [of "n - 1"]
      by (auto simp: histogram_position_def eq)
  next
    case 6
    then show ?thesis using least pred [of 56] histogram_at_classes(5) [of 55] histogram_at_classes(6) histogram_at_classes(7) [of 56]
      by (auto simp: histogram_position_def eq)
  next
    case 7
    then show ?thesis using least histogram_at_classes(7) [of n] histogram_at_classes(7) [of "n - 1"]
      by (auto simp: histogram_position_def eq)
  next
    case 8
    then show ?thesis using least pred [of 68] histogram_at_classes(7) [of 67] histogram_at_classes(8) histogram_at_classes(9) [of 68]
      by (auto simp: histogram_position_def eq)
  next
    case 9
    then show ?thesis using least histogram_at_classes(9) [of n] histogram_at_classes(9) [of "n - 1"]
      by (auto simp: histogram_position_def eq)
  qed
  then show ?thesis by (simp add: v_def)
qed

lemma histogram_index_large:
  assumes "16384 < unat req"
  shows "histogram_position (unat req) (live_histogram_bucket_index req b)"
    and "164 \<le> live_histogram_bucket_index req b"
proof -
  have ne: "req \<noteq> 0" "\<not> req \<le> 16384" using assms by (auto simp: word_le_nat_alt)
  have eq: "live_histogram_bucket_index req b =
      histogram_search live_histogram_size_classes req 164 176" (is "_ = ?h")
    using ne by (simp add: live_histogram_bucket_index_def LIVE_HISTOGRAM_LARGE_START_def
        LIVE_HISTOGRAM_EXPLICIT_CLASS_COUNT_def)
  have "histogram_at i < unat req" if "i < 164" for i
    using histogram_at_mono [of i 163] histogram_at_classes(9) [of 159] that assms
    by (simp add: class_at_def)
  then have "?h \<le> 176 \<and> 164 \<le> ?h \<and> (\<forall>i < ?h. histogram_at i < unat req)
      \<and> (\<forall>i. ?h \<le> i \<and> i < 176 \<longrightarrow> unat req \<le> histogram_at i)"
    using histogram_search_bounds [of 164 176 live_histogram_size_classes req]
      histogram_classes_sorted by (simp add: histogram_classes_length histogram_at_def)
  then show "histogram_position (unat req) (live_histogram_bucket_index req b)"
    and "164 \<le> live_histogram_bucket_index req b"
    by (auto simp: eq histogram_position_def)
qed

lemma class_at_mono: "i \<le> j \<Longrightarrow> class_at i \<le> class_at j"
  by (auto simp: class_at_def)

lemma histogram_position_unique:
  assumes "histogram_position v h" and "c < 176"
  shows "v \<le> histogram_at c \<longleftrightarrow> h \<le> c"
proof
  assume "v \<le> histogram_at c"
  show "h \<le> c"
  proof (rule ccontr)
    assume "\<not> h \<le> c"
    then have "c \<le> h - 1" "h - 1 < 176" "0 < h" using assms by (auto simp: histogram_position_def)
    then have "histogram_at c < v" using assms(1) histogram_at_mono [of c "h - 1"]
      by (auto simp: histogram_position_def)
    with \<open>v \<le> histogram_at c\<close> show False by simp
  qed
next
  assume "h \<le> c"
  with assms show "v \<le> histogram_at c" using histogram_at_mono [of h c]
    by (auto simp: histogram_position_def)
qed

definition explicit_classes :: "u64 set" where
  "explicit_classes = set dfmalloc1_size_classes \<union> set dfmalloc2_size_classes
     \<union> set jemalloc_size_classes \<union> (\<lambda>i. small_size_class_at (of_nat i)) ` {..<160}"

lemma tables_in_histogram:
  "set dfmalloc1_size_classes \<subseteq> set live_histogram_size_classes"
  "set dfmalloc2_size_classes \<subseteq> set live_histogram_size_classes"
  "set jemalloc_size_classes \<subseteq> set live_histogram_size_classes"
  by (rule merge_sub_subset, simp add: dfmalloc1_size_classes_def dfmalloc2_size_classes_def
      jemalloc_size_classes_def live_histogram_size_classes_def)+

lemma small_class_in_histogram:
  assumes "i < 160"
  shows "\<exists>c < 176. histogram_at c = class_at i"
proof -
  consider "i < 49" | "49 \<le> i" "i < 52" | "52 \<le> i" "i < 56" | "56 \<le> i" "i < 68" | "68 \<le> i" by linarith
  then show ?thesis
    using assms histogram_at_classes(1,3,5,7,9) [of i]
    by cases (force intro: exI [of _ i] exI [of _ "i + 1"] exI [of _ "i + 2"] exI [of _ "i + 3"] exI [of _ "i + 4"])+
qed

lemma explicit_class_boundary:
  assumes "k \<in> explicit_classes"
  shows "\<exists>c < 176. histogram_at c = unat k"
proof -
  have table: "\<exists>c < 176. histogram_at c = unat k" if "k \<in> set live_histogram_size_classes"
    using that by (auto simp: in_set_conv_nth histogram_classes_length histogram_at_def)
  from assms consider "k \<in> set live_histogram_size_classes" | i where "i < 160" "k = small_size_class_at (of_nat i)"
    using tables_in_histogram by (auto simp: explicit_classes_def)
  then show ?thesis
  proof cases
    case 1 then show ?thesis by (rule table)
  next
    case 2 then show ?thesis using small_class_in_histogram small_size_class_at_nat by metis
  qed
qed

lemma histogram_index_position:
  assumes "rounded_allocation_size r = Some (s, b)"
  shows "histogram_position (unat (effective r)) (live_histogram_bucket_index r b)"
  using assms histogram_index_small histogram_index_large(1) [of r b]
  by (cases "unat r \<le> 16384") (auto simp: effective_le effective_def)

subsection \<open>Properties\<close>

text \<open>C1: up to 16384 bytes, rounding succeeds, the bucket is one of the 160 Mini classes, the
  rounded size is that class (\<open>small_size_class_at\<close> of the bucket), it holds the request, and
  every smaller class is too small: the hook charges the least class that fits.\<close>

theorem rounding_least_class:
  assumes "unat requested \<le> 16384"
  shows "\<exists>rounded bucket. rounded_allocation_size requested = Some (rounded, bucket)
    \<and> unat bucket < SMALL_SIZE_CLASS_COUNT \<and> small_size_class_at bucket = rounded
    \<and> effective requested \<le> rounded
    \<and> (\<forall>j. j < unat bucket \<longrightarrow> small_size_class_at (of_nat j) < effective requested)"
proof -
  let ?v = "unat (effective requested)"
  have v: "0 < ?v" "?v \<le> 16384" using assms effective_le by (auto simp: effective_def unat_gt_0)
  obtain r b where rb: "rounded_allocation_size requested = Some (r, b)"
    "unat b = class_index ?v" "unat r = class_at (class_index ?v)"
    using rounded_small v(2) by blast
  note least = class_index_least [OF v]
  have "of_nat (class_index ?v) = b" by (simp add: rb(2) [symmetric])
  with small_size_class_at_nat [OF least(1)] rb(3) have "unat (small_size_class_at b) = unat r"
    by simp
  then have "small_size_class_at b = r" by (simp add: word_unat_eq_iff)
  moreover have "unat (small_size_class_at (of_nat j)) < ?v" if "j < unat b" for j
  proof -
    have "class_at j \<le> class_at (unat b - 1)" using that by (intro class_at_mono) simp
    also have "\<dots> < ?v" using least that rb(2) by simp
    finally show ?thesis using small_size_class_at_nat [of j] that least(1) rb(2) by simp
  qed
  ultimately show ?thesis
    using rb least by (auto simp: SMALL_SIZE_CLASS_COUNT_def word_le_nat_alt word_less_nat_alt)
qed

theorem rounding_least_class_witness:
  "unat (561 :: u64) \<le> 16384 \<and> (\<exists>rounded bucket. rounded_allocation_size 561 = Some (rounded, bucket)
    \<and> unat bucket < SMALL_SIZE_CLASS_COUNT \<and> small_size_class_at bucket = rounded
    \<and> effective 561 \<le> rounded
    \<and> (\<forall>j. j < unat bucket \<longrightarrow> small_size_class_at (of_nat j) < effective 561))"
  using rounding_least_class [of 561] by simp

text \<open>above 16384 bytes, rounding fails only for a request within 4095 of \<open>SIZE_MAX\<close> (where
  adding the alignment would wrap); otherwise the result is the 4 KiB multiple at or above the
  request, less than a page away, and the bucket is the shared \<open>4K+\<close> bucket.\<close>

theorem rounding_page_multiple:
  assumes "16384 < unat requested"
  shows "case rounded_allocation_size requested of
      None \<Rightarrow> 2 ^ 64 - 4096 < unat requested
    | Some (rounded, bucket) \<Rightarrow> unat bucket = SMALL_SIZE_CLASS_COUNT
        \<and> 4096 dvd unat rounded \<and> unat requested \<le> unat rounded
        \<and> unat rounded < unat requested + 4096"
  using rounded_large_nat [OF assms] ceil_to_ge [of 4096 "unat requested"]
    ceil_to_less [of 4096 "unat requested"] ceil_to_dvd [of 4096 "unat requested"]
  by (auto simp: SMALL_SIZE_CLASS_COUNT_def split: option.split)

theorem rounding_page_multiple_witness:
  "16384 < unat (20000 :: u64) \<and> rounded_allocation_size 20000 = Some (20480, 160)
    \<and> (case rounded_allocation_size 20000 of
      None \<Rightarrow> 2 ^ 64 - 4096 < unat (20000 :: u64)
    | Some (rounded, bucket) \<Rightarrow> unat bucket = SMALL_SIZE_CLASS_COUNT
        \<and> 4096 dvd unat rounded \<and> unat (20000 :: u64) \<le> unat rounded
        \<and> unat rounded < unat (20000 :: u64) + 4096)"
  using rounding_page_multiple [of 20000]
  by (simp add: rounded_allocation_size_def LARGE_ALLOCATION_ALIGNMENT_def SMALL_SIZE_CLASS_COUNT_def)

text \<open>C2: the live histogram index of a tracked request is its position in the boundary table: the
  request lies in \<open>(boundary of the previous bucket, boundary of its bucket]\<close>, with the last
  bucket for everything above 262144. The patched Mini160 index used up to 16384 and the binary
  search used above agree with the table at every request.\<close>

theorem histogram_bucket_is_position:
  assumes "rounded_allocation_size requested = Some (rounded, bucket)"
  shows "histogram_position (unat (effective requested)) (live_histogram_bucket_index requested bucket)"
  by (rule histogram_index_position [OF assms])

theorem histogram_bucket_is_position_witness:
  "rounded_allocation_size 700 = Some (704, 53)
    \<and> histogram_position (unat (effective 700)) (live_histogram_bucket_index 700 53)"
proof -
  have h: "rounded_allocation_size 700 = Some (704, 53)"
    by (simp add: rounded_allocation_size_def)
  show ?thesis using h histogram_bucket_is_position [OF h] by simp
qed

text \<open>the histogram loses nothing the four size-class rules could see: two requests of one
  bucket fit exactly the same classes of Mini160, dfmalloc1.0, dfmalloc2.0 and jemalloc, so a rule's
  class for a bucket is well defined offline (the purpose the table's comment states).\<close>

theorem same_bucket_same_class:
  assumes "rounded_allocation_size r1 = Some (s1, b1)" and "rounded_allocation_size r2 = Some (s2, b2)"
    and "live_histogram_bucket_index r1 b1 = live_histogram_bucket_index r2 b2"
    and "k \<in> explicit_classes"
  shows "effective r1 \<le> k \<longleftrightarrow> effective r2 \<le> k"
proof -
  obtain c where c: "c < 176" "histogram_at c = unat k"
    using explicit_class_boundary [OF assms(4)] by blast
  then show ?thesis
    using histogram_position_unique [OF histogram_index_position [OF assms(1)] c(1)]
      histogram_position_unique [OF histogram_index_position [OF assms(2)] c(1)] assms(3)
    by (simp add: word_le_nat_alt)
qed

theorem same_bucket_same_class_witness:
  "rounded_allocation_size 700 = Some (704, 53) \<and> rounded_allocation_size 675 = Some (704, 53)
    \<and> (effective 700 \<le> (784 :: u64) \<longleftrightarrow> effective 675 \<le> (784 :: u64))"
proof -
  have h: "rounded_allocation_size 700 = Some (704, 53)" "rounded_allocation_size 675 = Some (704, 53)"
    by (simp_all add: rounded_allocation_size_def)
  have b: "live_histogram_bucket_index 700 53 = live_histogram_bucket_index 675 53"
    by (simp add: live_histogram_bucket_index_def)
  have k: "(784 :: u64) \<in> explicit_classes"
    by (simp add: explicit_classes_def dfmalloc1_size_classes_def)
  show ?thesis using h same_bucket_same_class [OF h b k] by simp
qed

end
