(* ===== verification/OpenAddressing.thy ===== *)
theory OpenAddressing
  imports Prelude
begin

text \<open>
  Open addressing, for the hash tables of the program: the live-allocation table of
  \<open>malloc_hole_hook.c\<close> and the thread map of \<open>malloc_free_hook.c\<close> both probe a fixed array
  along a key's probe sequence, reuse the first free slot on insertion and leave a tombstone
  on removal. The theory holds the search both loops perform, the contents of a table as a
  multiset of entries, the invariant \<open>chained\<close> (an entry lies on its key's probe sequence and
  no empty slot precedes it there), and, in the locale \<open>probing\<close>, what a probe sequence must
  satisfy for search, insertion and removal to be correct.
\<close>

datatype 'e slot_state = Empty | Deleted | Used (entry: 'e)

text \<open>The first index from \<open>j\<close> up to \<open>n\<close> where \<open>P\<close> holds.\<close>

function first_from :: "(nat \<Rightarrow> bool) \<Rightarrow> nat \<Rightarrow> nat \<Rightarrow> nat option" where
  "first_from P j n = (if j < n then if P j then Some j else first_from P (j + 1) n else None)"
  by pat_completeness auto
termination
  by (relation "measure (\<lambda>(P, j, n). n - j)") auto

declare first_from.simps [simp del]

lemma first_from_SomeD:
  assumes "first_from P j n = Some i"
  shows "j \<le> i \<and> i < n \<and> P i \<and> (\<forall>m. j \<le> m \<and> m < i \<longrightarrow> \<not> P m)"
  using assms
proof (induction P j n rule: first_from.induct)
  case (1 P j n)
  show ?case
  proof (cases "j < n \<and> \<not> P j")
    case True
    then have "first_from P (j + 1) n = Some i"
      using 1(2) by (simp add: first_from.simps [of P j n])
    with 1(1) True show ?thesis
      by (metis Suc_eq_plus1 Suc_leD Suc_leI le_neq_implies_less)
  next
    case False
    then show ?thesis
      using 1(2) by (auto simp: first_from.simps [of P j n] split: if_splits)
  qed
qed

lemma first_from_NoneD:
  assumes "first_from P j n = None" and "j \<le> m" and "m < n"
  shows "\<not> P m"
  using assms
proof (induction P j n rule: first_from.induct)
  case (1 P j n)
  then show ?case
    by (cases "m = j") (auto simp: first_from.simps [of P j n] split: if_splits)
qed

lemma first_from_None_iff: "first_from P 0 n = None \<longleftrightarrow> (\<forall>m<n. \<not> P m)"
proof
  show "\<forall>m<n. \<not> P m \<Longrightarrow> first_from P 0 n = None"
    by (metis first_from_SomeD option.exhaust)
qed (auto dest: first_from_NoneD)

text \<open>The contents of a table, and the invariant of its probe chains.\<close>

definition entries :: "('s \<Rightarrow> 'e slot_state) \<Rightarrow> 's list \<Rightarrow> 'e multiset" where
  "entries st xs = image_mset entry (filter_mset (\<lambda>x. is_Used x) (image_mset st (mset xs)))"

definition chained :: "('s \<Rightarrow> 'e slot_state) \<Rightarrow> ('e \<Rightarrow> 'k) \<Rightarrow> ('k \<Rightarrow> nat \<Rightarrow> nat) \<Rightarrow> nat \<Rightarrow> 's list \<Rightarrow> bool" where
  "chained st key pos n xs \<longleftrightarrow>
    (\<forall>i<length xs. \<forall>e. st (xs ! i) = Used e \<longrightarrow>
      (\<exists>j<n. pos (key e) j = i \<and> (\<forall>m<j. st (xs ! pos (key e) m) \<noteq> Empty)))"

lemma entries_iff: "e \<in># entries st xs \<longleftrightarrow> (\<exists>i<length xs. st (xs ! i) = Used e)"
  by (force simp: entries_def in_set_conv_nth image_iff)

lemma entries_update_free:
  assumes "i < length xs" and "\<not> is_Used (st (xs ! i))" and "st v = Used e"
  shows "entries st (xs[i := v]) = add_mset e (entries st xs)"
  using assms by (simp add: entries_def mset_update filter_diff_mset image_mset_Diff)

lemma entries_update_unused:
  assumes "i < length xs" and "st (xs ! i) = Used e" and "\<not> is_Used (st v)"
  shows "entries st xs = add_mset e (entries st (xs[i := v]))"
proof -
  have "mset xs = add_mset (xs ! i) (mset (xs[i := v]) - {#v#})"
    using assms(1) by (simp add: mset_update)
  then have "image_mset st (mset xs) = add_mset (Used e) (image_mset st (mset (xs[i := v]) - {#v#}))"
    using assms(2) by (metis image_mset_add_mset)
  moreover have "v \<in># mset (xs[i := v])"
    using assms(1) by (simp add: mset_update)
  then have "image_mset st (mset (xs[i := v])) = add_mset (st v) (image_mset st (mset (xs[i := v]) - {#v#}))"
    by (metis image_mset_add_mset insert_DiffM)
  ultimately show ?thesis
    using assms(3) by (simp add: entries_def)
qed

lemma entries_update_used:
  assumes "i < length xs" and "st (xs ! i) = Used e" and "st v = Used e'"
  shows "\<exists>E. entries st xs = add_mset e E \<and> entries st (xs[i := v]) = add_mset e' E"
proof -
  define M where "M = mset xs - {#xs ! i#}"
  have M: "mset xs = add_mset (xs ! i) M" "mset (xs[i := v]) = add_mset v M"
    using assms(1) by (simp_all add: M_def mset_update)
  show ?thesis
    unfolding entries_def M using assms(2,3) by auto
qed

lemma entries_Nil [simp]: "entries st [] = {#}"
  by (simp add: entries_def)

lemma entries_replicate: "\<not> is_Used (st v) \<Longrightarrow> entries st (replicate n v) = {#}"
  by (induction n) (simp_all add: entries_def)

lemma chained_replicate: "\<not> is_Used (st v) \<Longrightarrow> chained st key pos n (replicate m v)"
  by (auto simp: chained_def)

lemma chained_same:
  assumes "chained st key pos n xs" and "length ys = length xs" and "\<And>k j. j < n \<Longrightarrow> pos k j < length xs"
    and "\<And>j. j < length xs \<Longrightarrow> st (ys ! j) = st (xs ! j)"
  shows "chained st key pos n ys"
  unfolding chained_def
proof (intro allI impI)
  fix i e
  assume "i < length ys" and "st (ys ! i) = Used e"
  then obtain j where j: "j < n" "pos (key e) j = i" "\<forall>m<j. st (xs ! pos (key e) m) \<noteq> Empty"
    using assms(1,2,4) unfolding chained_def by metis
  moreover have "st (ys ! pos (key e) m) \<noteq> Empty" if "m < j" for m
    using j that assms(3) [of m "key e"] assms(4) by simp
  ultimately show "\<exists>j<n. pos (key e) j = i \<and> (\<forall>m<j. st (ys ! pos (key e) m) \<noteq> Empty)"
    by blast
qed

lemma chained_update:
  assumes "chained st key pos n xs" and "st v \<noteq> Empty"
    and "\<And>e. st v = Used e \<Longrightarrow>
      (\<exists>j<n. pos (key e) j = i \<and> (\<forall>m<j. st (xs ! pos (key e) m) \<noteq> Empty))"
  shows "chained st key pos n (xs[i := v])"
  unfolding chained_def
proof (intro allI impI)
  fix i' e
  assume i': "i' < length (xs[i := v])" and e: "st (xs[i := v] ! i') = Used e"
  have "\<exists>j<n. pos (key e) j = i' \<and> (\<forall>m<j. st (xs ! pos (key e) m) \<noteq> Empty)"
    using assms(1,3) i' e by (cases "i' = i") (auto simp: chained_def)
  then show "\<exists>j<n. pos (key e) j = i' \<and> (\<forall>m<j. st (xs[i := v] ! pos (key e) m) \<noteq> Empty)"
    using assms(2) by (metis nth_list_update_eq nth_list_update_neq list_update_beyond not_le)
qed

text \<open>At most one entry per key, so that the table is a map.\<close>

definition single_by :: "('e \<Rightarrow> 'k) \<Rightarrow> 'e multiset \<Rightarrow> bool" where
  "single_by key E \<longleftrightarrow> (\<forall>k. count (image_mset key E) k \<le> 1)"

lemma single_by_empty [simp]: "single_by key {#}"
  by (simp add: single_by_def)

lemma single_by_add:
  "single_by key (add_mset e E) \<longleftrightarrow> single_by key E \<and> (\<forall>e'. e' \<in># E \<longrightarrow> key e' \<noteq> key e)"
proof -
  have "single_by key (add_mset e E) \<longleftrightarrow> single_by key E \<and> count (image_mset key E) (key e) = 0"
    by (auto simp: single_by_def le_Suc_eq)
  moreover have "count (image_mset key E) (key e) = 0 \<longleftrightarrow> (\<forall>e'. e' \<in># E \<longrightarrow> key e' \<noteq> key e)"
    unfolding count_eq_zero_iff set_image_mset by (metis image_iff)
  ultimately show ?thesis by blast
qed

lemma single_by_map_of:
  assumes "single_by key (mset es)"
  shows "map_of (map (\<lambda>e. (key e, v e)) es) k = Some x \<longleftrightarrow> (\<exists>e. e \<in># mset es \<and> key e = k \<and> v e = x)"
proof -
  have "count (mset (map key es)) a \<le> 1" for a
    using assms by (simp add: single_by_def)
  then have "count (mset (map key es)) a = (if a \<in> set (map key es) then 1 else 0)" for a
    by (metis count_greater_zero_iff count_mset_0_iff le_antisym less_one not_le set_mset_mset)
  then have "distinct (map key es)"
    using distinct_count_atmost_1 by blast
  then have "distinct (map fst (map (\<lambda>e. (key e, v e)) es))"
    by (simp add: comp_def)
  then have "map_of (map (\<lambda>e. (key e, v e)) es) k = Some x \<longleftrightarrow> (k, x) \<in> set (map (\<lambda>e. (key e, v e)) es)"
    by (rule map_of_eq_Some_iff)
  then show ?thesis by auto
qed

text \<open>Linear probing reaches every slot of the ring.\<close>

lemma linear_reaches:
  assumes "i < (n::nat)"
  shows "\<exists>j<n. (h + j) mod n = i"
proof -
  define j where "j = (i + (n - h mod n)) mod n"
  have "0 < n" using assms by simp
  have "(h + j) mod n = (h mod n + (i + (n - h mod n))) mod n"
    unfolding j_def by (metis mod_add_left_eq mod_add_right_eq)
  also have "h mod n + (i + (n - h mod n)) = i + n"
    using mod_less_divisor [OF \<open>0 < n\<close>, of h] by linarith
  finally show ?thesis
    using assms by (intro exI [of _ j]) (simp add: j_def)
qed

text \<open>
  What a probe sequence promises: the first \<open>n\<close> probes of a key fall into the table. The
  searches of the code are instances of \<open>first_from\<close>.
\<close>

locale probing =
  fixes st :: "'s \<Rightarrow> 'e slot_state" and key :: "'e \<Rightarrow> 'k"
    and pos :: "'k \<Rightarrow> nat \<Rightarrow> nat" and n :: nat and cap :: nat
  assumes pos_less: "j < n \<Longrightarrow> pos k j < cap"
begin

lemma insert_first_free:
  assumes "chained st key pos n xs" and "length xs = cap"
    and "first_from (\<lambda>j. \<not> is_Used (st (xs ! pos k j))) 0 n = Some j"
    and "st v = Used e" and "key e = k"
  shows "chained st key pos n (xs[pos k j := v])"
    and "entries st (xs[pos k j := v]) = add_mset e (entries st xs)"
proof -
  have j: "j < n" "\<not> is_Used (st (xs ! pos k j))" "\<forall>m<j. is_Used (st (xs ! pos k m))"
    using first_from_SomeD [OF assms(3)] by auto
  then have "\<forall>m<j. st (xs ! pos k m) \<noteq> Empty" by auto
  then show "chained st key pos n (xs[pos k j := v])"
    using assms(1,4,5) j(1) by (intro chained_update) auto
  show "entries st (xs[pos k j := v]) = add_mset e (entries st xs)"
    using j pos_less [of j k] assms(2,4) by (intro entries_update_free) auto
qed

lemma search_absent:
  assumes "chained st key pos n xs" and "length xs = cap"
    and "\<And>j. j < n \<Longrightarrow> (\<forall>m<j. st (xs ! pos k m) \<noteq> Empty) \<Longrightarrow>
      (\<forall>e. st (xs ! pos k j) = Used e \<longrightarrow> key e \<noteq> k)"
  shows "\<forall>e. e \<in># entries st xs \<longrightarrow> key e \<noteq> k"
  using assms unfolding entries_iff chained_def by metis

lemma search_none:
  assumes "chained st key pos n xs" and "length xs = cap"
    and "first_from (\<lambda>j. st (xs ! pos k j) = Empty \<or> (\<exists>e. st (xs ! pos k j) = Used e \<and> key e = k)) 0 n
      = None"
  shows "\<forall>e. e \<in># entries st xs \<longrightarrow> key e \<noteq> k"
  using assms(3) by (intro search_absent assms(1,2)) (auto simp: first_from_None_iff)

lemma search_empty:
  assumes "chained st key pos n xs" and "length xs = cap"
    and "first_from (\<lambda>j. st (xs ! pos k j) = Empty \<or> (\<exists>e. st (xs ! pos k j) = Used e \<and> key e = k)) 0 n
      = Some i" and "st (xs ! pos k i) = Empty"
  shows "\<forall>e. e \<in># entries st xs \<longrightarrow> key e \<noteq> k"
proof (intro search_absent assms(1,2))
  fix j
  assume "j < n" and "\<forall>m<j. st (xs ! pos k m) \<noteq> Empty"
  then have "j \<le> i"
    using assms(4) by (meson not_le)
  then show "\<forall>e. st (xs ! pos k j) = Used e \<longrightarrow> key e \<noteq> k"
    using first_from_SomeD [OF assms(3)] assms(4) by (cases "j = i") (auto dest: le_neq_implies_less)
qed

text \<open>The search for \<open>k\<close> in a table with an empty slot in reach: where it stops, and what that says.\<close>

lemma search_outcome:
  assumes "chained st key pos n xs" and "length xs = cap" and "j0 < n" and "st (xs ! pos k j0) = Empty"
  obtains (absent) d where "d < n" "st (xs ! pos k d) = Empty"
      "\<forall>i<d. st (xs ! pos k i) \<noteq> Empty \<and> (\<forall>e. st (xs ! pos k i) = Used e \<longrightarrow> key e \<noteq> k)"
      "\<forall>e. e \<in># entries st xs \<longrightarrow> key e \<noteq> k"
  | (found) d e where "d < n" "st (xs ! pos k d) = Used e" "key e = k"
      "\<forall>i<d. st (xs ! pos k i) \<noteq> Empty \<and> (\<forall>e. st (xs ! pos k i) = Used e \<longrightarrow> key e \<noteq> k)"
proof -
  let ?stop = "\<lambda>j. st (xs ! pos k j) = Empty \<or> (\<exists>e. st (xs ! pos k j) = Used e \<and> key e = k)"
  have "first_from ?stop 0 n \<noteq> None"
    using assms(3,4) unfolding first_from_None_iff by blast
  then obtain d where d: "first_from ?stop 0 n = Some d" by blast
  have D: "d < n" "?stop d" "\<forall>i<d. \<not> ?stop i"
    using first_from_SomeD [OF d] by auto
  show thesis
  proof (cases "st (xs ! pos k d) = Empty")
    case True
    with D search_empty [OF assms(1,2) d] show thesis by (intro absent) auto
  next
    case False
    with D show thesis by (elim disjE exE conjE) (auto intro: found)
  qed
qed

lemma delete_found:
  assumes "chained st key pos n xs" and "length xs = cap" and "j < n"
    and "st (xs ! pos k j) = Used e" and "st v = Deleted"
  shows "chained st key pos n (xs[pos k j := v])"
    and "entries st xs = add_mset e (entries st (xs[pos k j := v]))"
  using assms pos_less [of j k] by (auto intro: chained_update entries_update_unused)

end

end
