(* ===== verification/LiveTable.thy ===== *)
theory LiveTable
  imports SizeClasses OpenAddressing
begin

text \<open>
  The live-allocation table of \<open>malloc_hole_hook.c\<close>: a fixed open-addressing table of
  \<open>(pointer, requested)\<close> slots, split into 256 shards, probed linearly inside a shard for at
  most 128 slots, with tombstones for removed entries. The operations are
  \<open>live_table_insert_locked\<close> and \<open>live_table_remove_locked\<close>; both run under the shard's
  lock, so each is one atomic step on the shard. The lemmas give the table an abstract value,
  the multiset of entries of each shard, and show that insertion and removal implement
  multiset insertion and removal as long as pointers hash to their shard.
\<close>

definition ATOMIC_STATISTICS_SHARD_COUNT :: nat where "ATOMIC_STATISTICS_SHARD_COUNT = 256"
definition LIVE_TABLE_MAX_PROBES :: nat where "LIVE_TABLE_MAX_PROBES = 128"
definition LIVE_SLOT_EMPTY :: u64 where "LIVE_SLOT_EMPTY = 0"
definition LIVE_SLOT_TOMBSTONE :: u64 where "LIVE_SLOT_TOMBSTONE = 1"

lemmas live_constants = ATOMIC_STATISTICS_SHARD_COUNT_def LIVE_TABLE_MAX_PROBES_def
  LIVE_SLOT_EMPTY_def LIVE_SLOT_TOMBSTONE_def

record live_slot =
  slot_pointer :: u64
  slot_requested :: u64

text \<open>The mapped table: its slots in order, or no table when the mapping failed.\<close>

record live_table =
  slots :: "live_slot list"
  live_table_ready :: bool

definition live_pointer_hash :: "u64 \<Rightarrow> u64" where
  "live_pointer_hash ptr =
    (let v = ptr;
         v = v XOR drop_bit 33 v;
         v = v * 0xff51afd7ed558ccd;
         v = v XOR drop_bit 33 v;
         v = v * 0xc4ceb9fe1a85ec53;
         v = v XOR drop_bit 33 v
     in v)"

definition statistics_pointer_hash :: "u64 \<Rightarrow> u64" where
  "statistics_pointer_hash ptr =
    (let v = ptr;
         v = v XOR drop_bit 17 v;
         v = v XOR drop_bit 9 v
     in v)"

definition live_shard_index :: "u64 \<Rightarrow> u64" where
  "live_shard_index hash = hash AND (of_nat ATOMIC_STATISTICS_SHARD_COUNT - 1)"

definition live_pointer_is_sampled :: "u64 \<Rightarrow> u64 \<Rightarrow> bool" where
  "live_pointer_is_sampled live_sample_rate sample_hash \<longleftrightarrow>
    live_sample_rate = 1 \<or> sample_hash AND (live_sample_rate - 1) = 0"

text \<open>
  The geometry both operations compute: the shard's first slot, the mask of the probe
  sequence, the home position and the probe limit. \<open>live_table_capacity\<close> is the number of
  slots.
\<close>

definition slots_per_shard :: "live_table \<Rightarrow> nat" where
  "slots_per_shard t = length (slots t) div ATOMIC_STATISTICS_SHARD_COUNT"

definition probe_limit :: "live_table \<Rightarrow> nat" where
  "probe_limit t = (if slots_per_shard t < LIVE_TABLE_MAX_PROBES then slots_per_shard t
                    else LIVE_TABLE_MAX_PROBES)"

definition probe_slot :: "live_table \<Rightarrow> u64 \<Rightarrow> nat \<Rightarrow> nat" where
  "probe_slot t hash probe =
    (let shard_begin = unat (live_shard_index hash) * slots_per_shard t;
         mask = of_nat (slots_per_shard t) - 1;
         index = drop_bit 8 hash AND mask
     in shard_begin + unat ((index + of_nat probe) AND mask))"

text \<open>The two probe loops, from probe number \<open>probe\<close> on.\<close>

function live_insert_probe :: "live_table \<Rightarrow> u64 \<Rightarrow> u64 \<Rightarrow> u64 \<Rightarrow> nat \<Rightarrow> live_table \<times> bool" where
  "live_insert_probe t pointer requested hash probe =
    (if probe < probe_limit t then
       let i = probe_slot t hash probe;
           current = slot_pointer (slots t ! i) in
       if current \<noteq> LIVE_SLOT_EMPTY \<and> current \<noteq> LIVE_SLOT_TOMBSTONE
       then live_insert_probe t pointer requested hash (probe + 1)
       else (t\<lparr>slots := (slots t)[i := \<lparr>slot_pointer = pointer, slot_requested = requested\<rparr>]\<rparr>, True)
     else (t, False))"
  by pat_completeness auto
termination
  by (relation "measure (\<lambda>(t, p, r, h, probe). probe_limit t - probe)") auto

declare live_insert_probe.simps [simp del]

definition live_table_insert_locked :: "live_table \<Rightarrow> u64 \<Rightarrow> u64 \<Rightarrow> u64 \<Rightarrow> live_table \<times> bool" where
  "live_table_insert_locked t ptr requested hash =
    (if \<not> live_table_ready t \<or> ptr = 0 then (t, False)
     else if ptr \<le> LIVE_SLOT_TOMBSTONE then (t, False)
     else live_insert_probe t ptr requested hash 0)"

function live_remove_probe :: "live_table \<Rightarrow> u64 \<Rightarrow> u64 \<Rightarrow> nat \<Rightarrow> live_table \<times> u64 option" where
  "live_remove_probe t pointer hash probe =
    (if probe < probe_limit t then
       let i = probe_slot t hash probe;
           current = slot_pointer (slots t ! i) in
       if current = LIVE_SLOT_EMPTY then (t, None)
       else if current \<noteq> pointer then live_remove_probe t pointer hash (probe + 1)
       else (t\<lparr>slots := (slots t)[i := (slots t ! i)\<lparr>slot_pointer := LIVE_SLOT_TOMBSTONE\<rparr>]\<rparr>,
             Some (slot_requested (slots t ! i)))
     else (t, None))"
  by pat_completeness auto
termination
  by (relation "measure (\<lambda>(t, p, h, probe). probe_limit t - probe)") auto

declare live_remove_probe.simps [simp del]

text \<open>The out-parameter \<open>requested\<close> is the value under \<open>Some\<close>; \<open>None\<close> is \<open>false\<close>.\<close>

definition live_table_remove_locked :: "live_table \<Rightarrow> u64 \<Rightarrow> u64 \<Rightarrow> live_table \<times> u64 option" where
  "live_table_remove_locked t ptr hash =
    (if \<not> live_table_ready t \<or> ptr = 0 then (t, None)
     else live_remove_probe t ptr hash 0)"

text \<open>
  \<open>release_live_table\<close> unmaps; \<open>initialize_live_table\<close> maps afresh: \<open>mmap_ok\<close> is whether the
  \<open>mmap\<close> call succeeds, and an anonymous mapping is zero-filled.
\<close>

definition release_live_table :: "live_table \<Rightarrow> live_table" where
  "release_live_table t = \<lparr>slots = [], live_table_ready = False\<rparr>"

definition initialize_live_table :: "nat \<Rightarrow> bool \<Rightarrow> live_table \<Rightarrow> live_table" where
  "initialize_live_table live_table_capacity mmap_ok t =
    (let t = release_live_table t in
     if live_table_capacity > (2 ^ 64 - 1) div 16 then t
     else if \<not> mmap_ok then t
     else \<lparr>slots = replicate live_table_capacity \<lparr>slot_pointer = 0, slot_requested = 0\<rparr>,
           live_table_ready = True\<rparr>)"

text \<open>
  The abstract value of a table and its invariant. \<open>live_position k\<close> is the probe sequence of a
  pointer in a table of \<open>256 * 2 ^ k\<close> slots; the static assertions of the source bound the
  capacity by \<open>2 ^ 27\<close> slots, hence \<open>k \<le> 19\<close>.
\<close>

definition live_slot_state :: "live_slot \<Rightarrow> (u64 \<times> u64) slot_state" where
  "live_slot_state s =
    (if slot_pointer s = LIVE_SLOT_EMPTY then Empty
     else if slot_pointer s = LIVE_SLOT_TOMBSTONE then Deleted
     else Used (slot_pointer s, slot_requested s))"

definition live_position :: "nat \<Rightarrow> u64 \<Rightarrow> nat \<Rightarrow> nat" where
  "live_position k ptr j =
    unat (live_pointer_hash ptr) mod 256 * 2 ^ k + (unat (live_pointer_hash ptr) div 256 + j) mod 2 ^ k"

definition live_probes :: "nat \<Rightarrow> nat" where
  "live_probes k = min (2 ^ k) LIVE_TABLE_MAX_PROBES"

definition live_entries :: "live_table \<Rightarrow> (u64 \<times> u64) multiset" where
  "live_entries t = entries live_slot_state (slots t)"

definition wf_live_table :: "live_table \<Rightarrow> bool" where
  "wf_live_table t \<longleftrightarrow>
    (if live_table_ready t
     then \<exists>k\<le>19. length (slots t) = 256 * 2 ^ k \<and>
                  chained live_slot_state fst (live_position k) (live_probes k) (slots t)
     else slots t = [])"

lemma live_position_less: "live_position k p j < 256 * 2 ^ k"
proof -
  let ?s = "unat (live_pointer_hash p) mod 256" and ?o = "(unat (live_pointer_hash p) div 256 + j) mod 2 ^ k"
  have "?s * 2 ^ k + ?o < (?s + 1) * 2 ^ k" by simp
  also have "\<dots> \<le> 256 * 2 ^ k" by (intro mult_right_mono) (simp_all add: Suc_leI)
  finally show ?thesis by (simp add: live_position_def)
qed

interpretation live: probing live_slot_state fst "live_position k" "live_probes k" "256 * 2 ^ k" for k
  by unfold_locales (rule live_position_less)

text \<open>The probe arithmetic of the code is \<open>live_position\<close>.\<close>

lemma unat_live_shard_index: "unat (live_shard_index h) = unat h mod 256"
  using unat_and_mask [of h 8]
  by (simp add: live_shard_index_def live_constants mask_eq_exp_minus_1)

lemma probe_slot_eq:
  assumes "length (slots t) = 256 * 2 ^ k" and "k \<le> 19" and "j < 128"
  shows "probe_slot t (live_pointer_hash p) j = live_position k p j"
proof -
  have sps: "slots_per_shard t = 2 ^ k"
    using assms(1) by (simp add: slots_per_shard_def live_constants)
  have m: "(of_nat (2 ^ k) :: u64) - 1 = mask k"
    by (simp add: mask_eq_exp_minus_1)
  let ?h = "live_pointer_hash p"
  have d: "unat (drop_bit 8 ?h) = unat ?h div 256"
    by (simp add: drop_bit_eq_div unat_div)
  have k: "(2::nat) ^ k \<le> 2 ^ 19"
    using assms(2) by (intro power_increasing) auto
  have i: "unat (drop_bit 8 ?h AND mask k) = unat ?h div 256 mod 2 ^ k"
    by (simp only: unat_and_mask d)
  have "unat (drop_bit 8 ?h AND mask k) < 2 ^ 19"
    unfolding i using k by (meson le_trans mod_less_divisor not_le zero_less_numeral zero_less_power)
  then have "unat ((drop_bit 8 ?h AND mask k) + of_nat j) = unat ?h div 256 mod 2 ^ k + j"
    using assms(3) i by (subst unat_add_no_wrap) (simp_all add: unat_of_nat)
  then show ?thesis
    unfolding probe_slot_def live_position_def Let_def sps m
    by (simp only: unat_and_mask unat_live_shard_index mod_add_left_eq)
qed

lemma probe_limit_eq:
  assumes "length (slots t) = 256 * 2 ^ k"
  shows "probe_limit t = live_probes k"
  using assms by (simp add: probe_limit_def slots_per_shard_def live_probes_def live_constants)

lemma live_probes_le: "live_probes k \<le> 128"
  by (simp add: live_probes_def live_constants)

text \<open>The two loops, as searches along the probe sequence.\<close>

lemma live_insert_probe_eq:
  "live_insert_probe t p r h j =
    (case first_from (\<lambda>j. \<not> is_Used (live_slot_state (slots t ! probe_slot t h j))) j (probe_limit t) of
       None \<Rightarrow> (t, False)
     | Some i \<Rightarrow> (t\<lparr>slots := (slots t)[probe_slot t h i := \<lparr>slot_pointer = p, slot_requested = r\<rparr>]\<rparr>, True))"
proof (induction t p r h j rule: live_insert_probe.induct)
  case (1 t p r h j)
  then show ?case
    unfolding live_insert_probe.simps [of t p r h j] first_from.simps [of _ j]
    by (simp add: Let_def live_slot_state_def)
qed

lemma live_remove_probe_eq:
  assumes "1 < p"
  shows "live_remove_probe t p h j =
    (case first_from (\<lambda>j. live_slot_state (slots t ! probe_slot t h j) = Empty \<or>
        (\<exists>e. live_slot_state (slots t ! probe_slot t h j) = Used e \<and> fst e = p)) j (probe_limit t) of
       None \<Rightarrow> (t, None)
     | Some i \<Rightarrow> (case live_slot_state (slots t ! probe_slot t h i) of
           Used e \<Rightarrow> (t\<lparr>slots := (slots t)[probe_slot t h i :=
             (slots t ! probe_slot t h i)\<lparr>slot_pointer := LIVE_SLOT_TOMBSTONE\<rparr>]\<rparr>, Some (snd e))
         | _ \<Rightarrow> (t, None)))"
  using assms
proof (induction t p h j rule: live_remove_probe.induct)
  case (1 t p h j)
  then have "p \<noteq> LIVE_SLOT_EMPTY \<and> p \<noteq> LIVE_SLOT_TOMBSTONE"
    by (auto simp: live_constants)
  with 1 show ?case
    unfolding live_remove_probe.simps [of t p h j] first_from.simps [of _ j]
    by (auto simp: Let_def live_slot_state_def)
qed

lemma probe_slot_position:
  assumes "length (slots t) = 256 * 2 ^ k" and "k \<le> 19"
  shows "first_from (\<lambda>j. P (probe_slot t (live_pointer_hash p) j)) j (probe_limit t) =
    first_from (\<lambda>j. P (live_position k p j)) j (live_probes k)"
proof -
  have "first_from (\<lambda>j. P (probe_slot t (live_pointer_hash p) j)) j n =
      first_from (\<lambda>j. P (live_position k p j)) j n" if "n \<le> 128" for n
    using that
  proof (induction "\<lambda>j. P (live_position k p j)" j n rule: first_from.induct)
    case (1 j n)
    then show ?case
      using probe_slot_eq [OF assms, of j p] by (simp add: first_from.simps [of _ j n])
  qed
  then show ?thesis
    using probe_limit_eq [OF assms(1)] live_probes_le by metis
qed

lemma live_slot_state_new:
  "1 < p \<Longrightarrow> live_slot_state \<lparr>slot_pointer = p, slot_requested = r\<rparr> = Used (p, r)"
  by (auto simp: live_slot_state_def live_constants)

lemma live_slot_state_tombstone:
  "live_slot_state (s\<lparr>slot_pointer := LIVE_SLOT_TOMBSTONE\<rparr>) = Deleted"
  by (simp add: live_slot_state_def live_constants)

definition live_has_room :: "live_table \<Rightarrow> u64 \<Rightarrow> bool" where
  "live_has_room t ptr \<longleftrightarrow>
    (\<exists>j<probe_limit t. \<not> is_Used (live_slot_state (slots t ! probe_slot t (live_pointer_hash ptr) j)))"

lemma live_insert_spec:
  assumes "wf_live_table t"
  shows "wf_live_table (fst (live_table_insert_locked t ptr requested (live_pointer_hash ptr))) \<and>
    (if live_table_ready t \<and> 1 < ptr \<and> live_has_room t ptr
     then snd (live_table_insert_locked t ptr requested (live_pointer_hash ptr)) \<and>
       live_entries (fst (live_table_insert_locked t ptr requested (live_pointer_hash ptr))) =
         add_mset (ptr, requested) (live_entries t)
     else live_table_insert_locked t ptr requested (live_pointer_hash ptr) = (t, False))"
proof (cases "live_table_ready t \<and> 1 < ptr")
  case False
  then have "\<not> live_table_ready t \<or> ptr \<le> LIVE_SLOT_TOMBSTONE" by (auto simp: live_constants)
  then show ?thesis
    using assms False by (auto simp: live_table_insert_locked_def)
next
  case True
  then obtain k where k: "k \<le> 19" "length (slots t) = 256 * 2 ^ k"
    "chained live_slot_state fst (live_position k) (live_probes k) (slots t)"
    using assms by (auto simp: wf_live_table_def)
  let ?P = "\<lambda>i. \<not> is_Used (live_slot_state (slots t ! i))"
  let ?v = "\<lparr>slot_pointer = ptr, slot_requested = requested\<rparr>"
  have ins: "live_table_insert_locked t ptr requested (live_pointer_hash ptr) =
      live_insert_probe t ptr requested (live_pointer_hash ptr) 0"
    using True by (auto simp: live_table_insert_locked_def live_constants)
  note search = probe_slot_position [OF k(2,1), of ?P ptr 0]
  show ?thesis
  proof (cases "first_from (\<lambda>j. ?P (live_position k ptr j)) 0 (live_probes k)")
    case None
    with search have "first_from (\<lambda>j. ?P (probe_slot t (live_pointer_hash ptr) j)) 0 (probe_limit t) = None"
      by simp
    then have "\<not> live_has_room t ptr"
      by (simp add: live_has_room_def first_from_None_iff)
    then show ?thesis
      using assms ins None search by (simp add: live_insert_probe_eq)
  next
    case (Some j)
    then have room: "live_has_room t ptr"
      using search first_from_SomeD [of _ 0 "probe_limit t" j] by (auto simp: live_has_room_def)
    have j: "j < 128"
      using first_from_SomeD [OF Some] live_probes_le [of k] by linarith
    note step = live.insert_first_free [OF k(3,2) Some, of ?v "(ptr, requested)"]
    have res: "live_insert_probe t ptr requested (live_pointer_hash ptr) 0 =
        (t\<lparr>slots := (slots t)[live_position k ptr j := ?v]\<rparr>, True)"
      using Some search probe_slot_eq [OF k(2,1) j] by (simp add: live_insert_probe_eq)
    show ?thesis
      using True k step room by (auto simp: ins res wf_live_table_def live_entries_def live_slot_state_new)
  qed
qed

lemma live_remove_spec:
  assumes "wf_live_table t" and "1 < ptr"
  shows "case live_table_remove_locked t ptr (live_pointer_hash ptr) of
      (t', None) \<Rightarrow> t' = t \<and> (\<forall>r. (ptr, r) \<notin># live_entries t)
    | (t', Some r) \<Rightarrow> wf_live_table t' \<and> live_table_ready t' = live_table_ready t \<and>
        live_entries t = add_mset (ptr, r) (live_entries t')"
proof (cases "live_table_ready t")
  case False
  then show ?thesis
    using assms(1) by (simp add: live_table_remove_locked_def wf_live_table_def live_entries_def entries_def)
next
  case True
  then obtain k where k: "k \<le> 19" "length (slots t) = 256 * 2 ^ k"
    "chained live_slot_state fst (live_position k) (live_probes k) (slots t)"
    using assms by (auto simp: wf_live_table_def)
  let ?P = "\<lambda>i. live_slot_state (slots t ! i) = Empty \<or>
    (\<exists>e. live_slot_state (slots t ! i) = Used e \<and> fst e = ptr)"
  have rem: "live_table_remove_locked t ptr (live_pointer_hash ptr) =
      live_remove_probe t ptr (live_pointer_hash ptr) 0"
    using True assms(2) by (auto simp: live_table_remove_locked_def)
  note search = probe_slot_position [OF k(2,1), of ?P ptr 0]
  show ?thesis
  proof (cases "first_from (\<lambda>j. ?P (live_position k ptr j)) 0 (live_probes k)")
    case None
    then show ?thesis
      using live.search_none [OF k(3,2) None] search
      by (auto simp: rem live_remove_probe_eq [OF assms(2)] live_entries_def)
  next
    case (Some j)
    have j: "j < live_probes k" "j < 128"
      using first_from_SomeD [OF Some] live_probes_le [of k] by linarith+
    note pos = probe_slot_eq [OF k(2,1) j(2)]
    show ?thesis
    proof (cases "live_slot_state (slots t ! live_position k ptr j)")
      case Empty
      then show ?thesis
        using live.search_empty [OF k(3,2) Some Empty] search Some pos
        by (auto simp: rem live_remove_probe_eq [OF assms(2)] live_entries_def)
    next
      case Deleted
      then show ?thesis
        using first_from_SomeD [OF Some] by simp
    next
      case (Used e)
      then have "fst e = ptr"
        using first_from_SomeD [OF Some] by auto
      moreover note live.delete_found [OF k(3,2) j(1) Used live_slot_state_tombstone]
      ultimately show ?thesis
        using search Some pos Used k True
        by (cases e) (auto simp: rem live_remove_probe_eq [OF assms(2)] live_entries_def wf_live_table_def)
    qed
  qed
qed

text \<open>A removal leaves room for its pointer: the tombstone is on the probe sequence.\<close>

lemma live_remove_room:
  assumes "wf_live_table t" and "1 < ptr"
    and "live_table_remove_locked t ptr (live_pointer_hash ptr) = (t', Some r)"
  shows "live_has_room t' ptr \<and> live_table_ready t'"
proof -
  have ready: "live_table_ready t"
    using assms(2,3) by (auto simp: live_table_remove_locked_def split: if_splits)
  obtain k where k: "k \<le> 19" "length (slots t) = 256 * 2 ^ k"
    using assms(1) ready by (auto simp: wf_live_table_def)
  have rem: "live_remove_probe t ptr (live_pointer_hash ptr) 0 = (t', Some r)"
    using assms(2,3) ready by (auto simp: live_table_remove_locked_def split: if_splits)
  then obtain j where j: "j < probe_limit t" "slots t' = (slots t)[probe_slot t (live_pointer_hash ptr) j :=
      (slots t ! probe_slot t (live_pointer_hash ptr) j)\<lparr>slot_pointer := LIVE_SLOT_TOMBSTONE\<rparr>]"
    "live_table_ready t' = live_table_ready t"
    unfolding live_remove_probe_eq [OF assms(2)]
    by (cases "first_from (\<lambda>j. live_slot_state (slots t ! probe_slot t (live_pointer_hash ptr) j) = Empty \<or>
        (\<exists>e. live_slot_state (slots t ! probe_slot t (live_pointer_hash ptr) j) = Used e \<and> fst e = ptr))
        0 (probe_limit t)")
      (auto split: slot_state.splits dest!: first_from_SomeD)
  have eq: "slots_per_shard t' = slots_per_shard t"
    using j by (simp add: slots_per_shard_def)
  then have "probe_slot t' h i = probe_slot t h i" "probe_limit t' = probe_limit t" for h i
    by (simp_all add: probe_slot_def probe_limit_def)
  moreover have "j < 128"
    using j(1) probe_limit_eq [OF k(2)] live_probes_le [of k] by simp
  then have "probe_slot t (live_pointer_hash ptr) j < length (slots t)"
    using live_position_less by (simp add: probe_slot_eq [OF k(2,1)] k(2))
  ultimately show ?thesis
    using j ready by (auto simp: live_has_room_def live_slot_state_tombstone intro!: exI [of _ j])
qed

text \<open>Mapping and unmapping give well-formed, empty tables.\<close>

lemma release_live_table_wf [simp]:
  "wf_live_table (release_live_table t)" "live_entries (release_live_table t) = {#}"
  by (simp_all add: release_live_table_def wf_live_table_def live_entries_def entries_def)

lemma initialize_live_table_wf [simp]:
  assumes "k \<le> 19"
  shows "wf_live_table (initialize_live_table (256 * 2 ^ k) ok t)"
    and "live_entries (initialize_live_table (256 * 2 ^ k) ok t) = {#}"
proof -
  have e: "\<not> is_Used (live_slot_state \<lparr>slot_pointer = 0, slot_requested = 0\<rparr>)"
    by (simp add: live_slot_state_def live_constants)
  show "wf_live_table (initialize_live_table (256 * 2 ^ k) ok t)"
    using assms chained_replicate [of live_slot_state, OF e]
    by (auto simp: initialize_live_table_def release_live_table_def wf_live_table_def Let_def)
  show "live_entries (initialize_live_table (256 * 2 ^ k) ok t) = {#}"
    by (auto simp: e entries_replicate [of live_slot_state, OF e] initialize_live_table_def release_live_table_def live_entries_def Let_def)
qed

lemma live_has_room_initialize:
  assumes "k \<le> 19"
  shows "live_has_room (initialize_live_table (256 * 2 ^ k) True t) ptr"
proof -
  let ?t = "initialize_live_table (256 * 2 ^ k) True t"
  have t: "slots ?t = replicate (256 * 2 ^ k) \<lparr>slot_pointer = 0, slot_requested = 0\<rparr>"
    using power_increasing [OF assms, of "2::nat"]
    by (simp add: initialize_live_table_def release_live_table_def Let_def)
  from assms have "probe_slot ?t (live_pointer_hash ptr) 0 = live_position k ptr 0"
    using t by (intro probe_slot_eq) simp_all
  then have "slots ?t ! probe_slot ?t (live_pointer_hash ptr) 0 = \<lparr>slot_pointer = 0, slot_requested = 0\<rparr>"
    using t live_position_less by simp
  then show ?thesis
    using t assms by (auto simp: live_has_room_def probe_limit_eq live_slot_state_def live_constants
        live_probes_def intro!: exI [of _ 0])
qed

definition sample_live_table :: live_table where
  "sample_live_table = initialize_live_table (256 * 2 ^ 2) True \<lparr>slots = [], live_table_ready = False\<rparr>"

lemma sample_live_table:
  "wf_live_table sample_live_table" "live_table_ready sample_live_table"
  "live_has_room sample_live_table ptr" "live_entries sample_live_table = {#}"
  unfolding sample_live_table_def
  by (rule initialize_live_table_wf live_has_room_initialize | simp add: initialize_live_table_def)+

lemma live_insert_sample:
  "wf_live_table (fst (live_table_insert_locked sample_live_table 4096 100 (live_pointer_hash 4096)))"
  "live_entries (fst (live_table_insert_locked sample_live_table 4096 100 (live_pointer_hash 4096))) =
    {#(4096, 100)#}"
  using live_insert_spec [OF sample_live_table(1), of 4096 100] sample_live_table by simp_all

text \<open>C3: In a well-formed live table, \<open>live_table_insert_locked\<close> keeps the table well formed;
  it succeeds exactly when the table is mapped, the pointer is not one of the two reserved
  values and one of its at most 128 probes is free; on success the table holds one more entry,
  the given one, and on failure it is unchanged.\<close>
theorem live_insert_refines:
  assumes "wf_live_table t"
  shows "wf_live_table (fst (live_table_insert_locked t ptr requested (live_pointer_hash ptr))) \<and>
    (if live_table_ready t \<and> 1 < ptr \<and> live_has_room t ptr
     then snd (live_table_insert_locked t ptr requested (live_pointer_hash ptr)) \<and>
       live_entries (fst (live_table_insert_locked t ptr requested (live_pointer_hash ptr))) =
         add_mset (ptr, requested) (live_entries t)
     else live_table_insert_locked t ptr requested (live_pointer_hash ptr) = (t, False))"
  using assms by (rule live_insert_spec)

lemma live_insert_refines_witness:
  "live_entries (fst (live_table_insert_locked sample_live_table 4096 100 (live_pointer_hash 4096))) =
    {#(4096, 100)#}"
  using live_insert_refines [OF sample_live_table(1), of 4096 100] sample_live_table by simp

text \<open>C4: In a well-formed live table and for a pointer above the reserved values,
  \<open>live_table_remove_locked\<close> returns the requested size of an entry of that pointer and
  removes exactly this entry, or, when no entry of the pointer is in the table, fails and
  changes nothing; the probe limit and the tombstones never hide an entry.\<close>
theorem live_remove_refines:
  assumes "wf_live_table t" and "1 < ptr"
  shows "case live_table_remove_locked t ptr (live_pointer_hash ptr) of
      (t', None) \<Rightarrow> t' = t \<and> (\<forall>r. (ptr, r) \<notin># live_entries t)
    | (t', Some r) \<Rightarrow> wf_live_table t' \<and> live_table_ready t' = live_table_ready t \<and>
        live_entries t = add_mset (ptr, r) (live_entries t')"
  using assms by (rule live_remove_spec)

lemma live_remove_refines_witness:
  "snd (live_table_remove_locked
     (fst (live_table_insert_locked sample_live_table 4096 100 (live_pointer_hash 4096)))
     4096 (live_pointer_hash 4096)) = Some 100"
  using live_remove_refines [of "fst (live_table_insert_locked sample_live_table 4096 100
      (live_pointer_hash 4096))" 4096] live_insert_sample
  by (auto split: prod.splits option.splits)

end
