(* ===== verification/LiveStats.thy ===== *)
theory LiveStats
  imports LiveTable
begin

text \<open>
  The live-allocation statistics of \<open>malloc_hole_hook.c\<close>: 256 shards of counters and
  histograms beside the live table, both guarded by the shard's lock. Each operation below is
  the section the code runs under that lock; the parts of the entry points before it
  (\<open>prepare_recording\<close>) are in \<open>HoleProcess\<close>. The operations are polymorphic in the rest of
  the hook's state. The invariant \<open>live_consistent\<close> says that every counter of every shard is
  the exact sum (in \<open>uint64_t\<close>) over the table entries of that shard.
\<close>

text \<open>
  \<open>LiveStatisticsShard\<close> and \<open>LiveSnapshot\<close> have the same counters; the shard's lock is the
  atomicity of the operations.
\<close>

record live_snapshot =
  live_free_events :: u64
  live_untracked_frees :: u64
  live_tracking_failures :: u64
  live_allocations :: u64
  live_requested_bytes :: u64
  live_hole_bytes :: u64
  histogram_allocations :: "u64 list"
  histogram_requested_bytes :: "u64 list"
  histogram_4k_hole_bytes :: "u64 list"

definition zero_live_snapshot :: live_snapshot where
  "zero_live_snapshot = \<lparr>live_free_events = 0, live_untracked_frees = 0, live_tracking_failures = 0,
    live_allocations = 0, live_requested_bytes = 0, live_hole_bytes = 0,
    histogram_allocations = replicate LIVE_HISTOGRAM_BUCKET_COUNT 0,
    histogram_requested_bytes = replicate LIVE_HISTOGRAM_BUCKET_COUNT 0,
    histogram_4k_hole_bytes = replicate LIVE_HISTOGRAM_LARGE_BUCKET_COUNT 0\<rparr>"

record live_state =
  live_tab :: live_table
  live_statistics :: "live_snapshot list"
  live_sample_rate :: u64

record detached_allocation =
  observed :: bool
  tracked :: bool
  detached_requested :: u64

definition not_detached :: detached_allocation where
  "not_detached = \<lparr>observed = False, tracked = False, detached_requested = 0\<rparr>"

definition clear_live_statistics :: "'a live_state_scheme \<Rightarrow> 'a live_state_scheme" where
  "clear_live_statistics st = st\<lparr>live_statistics :=
    replicate ATOMIC_STATISTICS_SHARD_COUNT zero_live_snapshot\<rparr>"

definition add_live_counters_locked :: "live_snapshot \<Rightarrow> u64 \<Rightarrow> u64 \<Rightarrow> u32 \<Rightarrow> live_snapshot" where
  "add_live_counters_locked shard requested rounded bucket =
    (let hole = rounded - requested;
         histogram_bucket = live_histogram_bucket_index requested bucket;
         shard = shard\<lparr>live_allocations := live_allocations shard + 1,
           live_requested_bytes := live_requested_bytes shard + requested,
           live_hole_bytes := live_hole_bytes shard + hole,
           histogram_allocations := update_at histogram_bucket (\<lambda>x. x + 1) (histogram_allocations shard),
           histogram_requested_bytes :=
             update_at histogram_bucket (\<lambda>x. x + requested) (histogram_requested_bytes shard)\<rparr>
     in if histogram_bucket \<ge> LIVE_HISTOGRAM_LARGE_START
        then shard\<lparr>histogram_4k_hole_bytes := update_at (histogram_bucket - LIVE_HISTOGRAM_LARGE_START)
               (\<lambda>x. x + hole) (histogram_4k_hole_bytes shard)\<rparr>
        else shard)"

definition subtract_live_counters_locked :: "live_snapshot \<Rightarrow> u64 \<Rightarrow> u64 \<Rightarrow> u32 \<Rightarrow> live_snapshot" where
  "subtract_live_counters_locked shard requested rounded bucket =
    (let hole = rounded - requested;
         histogram_bucket = live_histogram_bucket_index requested bucket;
         shard = shard\<lparr>live_allocations := live_allocations shard - 1,
           live_requested_bytes := live_requested_bytes shard - requested,
           live_hole_bytes := live_hole_bytes shard - hole,
           histogram_allocations := update_at histogram_bucket (\<lambda>x. x - 1) (histogram_allocations shard),
           histogram_requested_bytes :=
             update_at histogram_bucket (\<lambda>x. x - requested) (histogram_requested_bytes shard)\<rparr>
     in if histogram_bucket \<ge> LIVE_HISTOGRAM_LARGE_START
        then shard\<lparr>histogram_4k_hole_bytes := update_at (histogram_bucket - LIVE_HISTOGRAM_LARGE_START)
               (\<lambda>x. x - hole) (histogram_4k_hole_bytes shard)\<rparr>
        else shard)"

text \<open>\<open>&live_statistics[live_shard_index(hash)]\<close>, as an update of that shard.\<close>

definition shard_of :: "u64 \<Rightarrow> nat" where
  "shard_of ptr = unat (live_shard_index (live_pointer_hash ptr))"

definition update_live_shard ::
  "u64 \<Rightarrow> (live_snapshot \<Rightarrow> live_snapshot) \<Rightarrow> 'a live_state_scheme \<Rightarrow> 'a live_state_scheme" where
  "update_live_shard ptr f st = st\<lparr>live_statistics := update_at (shard_of ptr) f (live_statistics st)\<rparr>"

definition count_tracking_failure :: "live_snapshot \<Rightarrow> live_snapshot" where
  "count_tracking_failure sh = sh\<lparr>live_tracking_failures := live_tracking_failures sh + 1\<rparr>"

definition count_free_event :: "live_snapshot \<Rightarrow> live_snapshot" where
  "count_free_event sh = sh\<lparr>live_free_events := live_free_events sh + 1\<rparr>"

definition count_untracked_free :: "live_snapshot \<Rightarrow> live_snapshot" where
  "count_untracked_free sh = sh\<lparr>live_untracked_frees := live_untracked_frees sh + 1\<rparr>"

definition track_live_allocation ::
  "u64 \<Rightarrow> u64 \<Rightarrow> u64 \<Rightarrow> u32 \<Rightarrow> u64 \<Rightarrow> 'a live_state_scheme \<Rightarrow> 'a live_state_scheme \<times> bool" where
  "track_live_allocation ptr requested rounded bucket sample_hash st =
    (if \<not> live_pointer_is_sampled (live_sample_rate st) sample_hash then (st, False)
     else
       let hash = live_pointer_hash ptr;
           (tab, inserted) = live_table_insert_locked (live_tab st) ptr requested hash;
           st = st\<lparr>live_tab := tab\<rparr>
       in if inserted
          then (update_live_shard ptr (\<lambda>sh. add_live_counters_locked sh requested rounded bucket) st, True)
          else (update_live_shard ptr count_tracking_failure st, False))"

text \<open>\<open>detach_live_allocation\<close> after \<open>prepare_recording\<close> has returned true.\<close>

definition detach_prepared :: "u64 \<Rightarrow> 'a live_state_scheme \<Rightarrow> 'a live_state_scheme \<times> detached_allocation" where
  "detach_prepared ptr st =
    (let sample_hash = statistics_pointer_hash ptr in
     if \<not> live_pointer_is_sampled (live_sample_rate st) sample_hash then (st, not_detached)
     else
       let hash = live_pointer_hash ptr;
           detached = not_detached\<lparr>observed := True\<rparr>
       in case live_table_remove_locked (live_tab st) ptr hash of
            (tab, None) \<Rightarrow> (st\<lparr>live_tab := tab\<rparr>, detached)
          | (tab, Some requested) \<Rightarrow>
              let st = st\<lparr>live_tab := tab\<rparr> in
              case rounded_allocation_size requested of
                None \<Rightarrow> (update_live_shard ptr count_tracking_failure st, detached)
              | Some (rounded, bucket) \<Rightarrow>
                  (update_live_shard ptr
                     (\<lambda>sh. subtract_live_counters_locked sh requested rounded bucket) st,
                   detached\<lparr>tracked := True, detached_requested := requested\<rparr>))"

definition restore_detached_allocation ::
  "u64 \<Rightarrow> detached_allocation \<Rightarrow> 'a live_state_scheme \<Rightarrow> 'a live_state_scheme" where
  "restore_detached_allocation ptr detached st =
    (if \<not> tracked detached then st
     else case rounded_allocation_size (detached_requested detached) of
            None \<Rightarrow> st
          | Some (rounded, bucket) \<Rightarrow>
              fst (track_live_allocation ptr (detached_requested detached) rounded bucket
                     (statistics_pointer_hash ptr) st))"

definition record_release_event ::
  "u64 \<Rightarrow> detached_allocation \<Rightarrow> 'a live_state_scheme \<Rightarrow> 'a live_state_scheme" where
  "record_release_event ptr detached st =
    (if \<not> observed detached then st
     else
       let st = update_live_shard ptr count_free_event st
       in if \<not> tracked detached then update_live_shard ptr count_untracked_free st else st)"

text \<open>
  The locked section of \<open>record_free_allocation\<close>, after \<open>prepare_recording\<close> and the sampling
  test; the second component is \<open>free_index\<close>, the number of free events of the shard before.
\<close>

definition record_free_locked :: "u64 \<Rightarrow> 'a live_state_scheme \<Rightarrow> 'a live_state_scheme \<times> u64" where
  "record_free_locked ptr st =
    (let hash = live_pointer_hash ptr;
         free_index = live_free_events (live_statistics st ! shard_of ptr);
         st = update_live_shard ptr count_free_event st
     in (case live_table_remove_locked (live_tab st) ptr hash of
           (tab, None) \<Rightarrow> update_live_shard ptr count_untracked_free (st\<lparr>live_tab := tab\<rparr>)
         | (tab, Some requested) \<Rightarrow>
             let st = st\<lparr>live_tab := tab\<rparr> in
             case rounded_allocation_size requested of
               Some (rounded, bucket) \<Rightarrow>
                 update_live_shard ptr (\<lambda>sh. subtract_live_counters_locked sh requested rounded bucket) st
             | None \<Rightarrow> update_live_shard ptr count_tracking_failure st,
         free_index))"

text \<open>
  \<open>scale_live_counter\<close> with the sampling rate as argument, and \<open>load_live_statistics\<close>: the
  shards are added up one after the other, each under its lock, and then scaled.
\<close>

definition scale_live_counter :: "u64 \<Rightarrow> u64 \<Rightarrow> u64" where
  "scale_live_counter rate v =
    (if rate = 1 then v
     else if v > SIZE_MAX div rate then SIZE_MAX
     else v * rate)"

definition accumulate_live_shard :: "live_snapshot \<Rightarrow> live_snapshot \<Rightarrow> live_snapshot" where
  "accumulate_live_shard snapshot current =
    \<lparr>live_free_events = live_free_events snapshot + live_free_events current,
     live_untracked_frees = live_untracked_frees snapshot + live_untracked_frees current,
     live_tracking_failures = live_tracking_failures snapshot + live_tracking_failures current,
     live_allocations = live_allocations snapshot + live_allocations current,
     live_requested_bytes = live_requested_bytes snapshot + live_requested_bytes current,
     live_hole_bytes = live_hole_bytes snapshot + live_hole_bytes current,
     histogram_allocations =
       map2 (+) (histogram_allocations snapshot) (histogram_allocations current),
     histogram_requested_bytes =
       map2 (+) (histogram_requested_bytes snapshot) (histogram_requested_bytes current),
     histogram_4k_hole_bytes =
       map2 (+) (histogram_4k_hole_bytes snapshot) (histogram_4k_hole_bytes current)\<rparr>"

definition scale_live_snapshot :: "u64 \<Rightarrow> live_snapshot \<Rightarrow> live_snapshot" where
  "scale_live_snapshot rate s =
    (let scale = scale_live_counter rate in
     \<lparr>live_free_events = scale (live_free_events s),
      live_untracked_frees = scale (live_untracked_frees s),
      live_tracking_failures = scale (live_tracking_failures s),
      live_allocations = scale (live_allocations s),
      live_requested_bytes = scale (live_requested_bytes s),
      live_hole_bytes = scale (live_hole_bytes s),
      histogram_allocations = map scale (histogram_allocations s),
      histogram_requested_bytes = map scale (histogram_requested_bytes s),
      histogram_4k_hole_bytes = map scale (histogram_4k_hole_bytes s)\<rparr>)"

definition load_live_statistics :: "'a live_state_scheme \<Rightarrow> live_snapshot" where
  "load_live_statistics st =
    scale_live_snapshot (live_sample_rate st)
      (foldl accumulate_live_shard zero_live_snapshot (live_statistics st))"

subsection \<open>The accounting invariant\<close>

text \<open>The hole and the histogram bucket of a tracked request, and what a shard's counters are
  for a multiset of tracked requests.\<close>

definition hole_of :: "u64 \<Rightarrow> u64" where
  "hole_of r = (case rounded_allocation_size r of Some (s, b) \<Rightarrow> s - r | None \<Rightarrow> 0)"

definition histogram_of :: "u64 \<Rightarrow> nat" where
  "histogram_of r = (case rounded_allocation_size r of
     Some (s, b) \<Rightarrow> live_histogram_bucket_index r b | None \<Rightarrow> 0)"

definition shard_counts :: "live_snapshot \<Rightarrow> u64 multiset \<Rightarrow> bool" where
  "shard_counts sh R \<longleftrightarrow>
    live_allocations sh = (\<Sum>r\<in>#R. 1) \<and>
    live_requested_bytes sh = (\<Sum>r\<in>#R. r) \<and>
    live_hole_bytes sh = (\<Sum>r\<in>#R. hole_of r) \<and>
    histogram_allocations sh = tabulate 0 177 (\<lambda>b. \<Sum>r\<in>#R. if histogram_of r = b then 1 else 0) \<and>
    histogram_requested_bytes sh = tabulate 0 177 (\<lambda>b. \<Sum>r\<in>#R. if histogram_of r = b then r else 0) \<and>
    histogram_4k_hole_bytes sh =
      tabulate 164 177 (\<lambda>b. \<Sum>r\<in>#R. if histogram_of r = b then hole_of r else 0)"

definition shard_sizes :: "nat \<Rightarrow> (u64 \<times> u64) multiset \<Rightarrow> u64 multiset" where
  "shard_sizes s M = image_mset snd (filter_mset (\<lambda>e. shard_of (fst e) = s) M)"

definition live_consistent :: "'a live_state_scheme \<Rightarrow> bool" where
  "live_consistent st \<longleftrightarrow>
    wf_live_table (live_tab st) \<and>
    length (live_statistics st) = ATOMIC_STATISTICS_SHARD_COUNT \<and>
    (\<forall>s<ATOMIC_STATISTICS_SHARD_COUNT.
      shard_counts (live_statistics st ! s) (shard_sizes s (live_entries (live_tab st)))) \<and>
    (\<forall>e\<in>#live_entries (live_tab st). rounded_allocation_size (snd e) \<noteq> None)"

lemma shard_of_less [simp]: "shard_of ptr < ATOMIC_STATISTICS_SHARD_COUNT"
  by (simp add: shard_of_def unat_live_shard_index live_constants)

lemma shard_sizes_add:
  "shard_sizes s (add_mset e M) =
    (if shard_of (fst e) = s then add_mset (snd e) (shard_sizes s M) else shard_sizes s M)"
  by (simp add: shard_sizes_def)

lemma shard_sizes_empty [simp]: "shard_sizes s {#} = {#}"
  by (simp add: shard_sizes_def)

lemma histogram_of_less: "rounded_allocation_size r = Some (s, b) \<Longrightarrow> histogram_of r < 177"
  using histogram_index_position [of r s b] by (simp add: histogram_of_def histogram_position_def)

lemma rounded_parts:
  "rounded_allocation_size r = Some (s, b) \<Longrightarrow>
    s - r = hole_of r \<and> live_histogram_bucket_index r b = histogram_of r"
  by (simp add: hole_of_def histogram_of_def)

lemma shard_counts_add:
  assumes "shard_counts sh R" and "rounded_allocation_size r = Some (s, b)"
  shows "shard_counts (add_live_counters_locked sh r s b) (add_mset r R)"
  using assms histogram_of_less [OF assms(2)] rounded_parts [OF assms(2)]
  by (auto simp: shard_counts_def add_live_counters_locked_def Let_def update_at_tabulate
      update_at_tabulate0 tabulate_eq class_counts)

lemma shard_counts_subtract:
  assumes "shard_counts sh (add_mset r R)" and "rounded_allocation_size r = Some (s, b)"
  shows "shard_counts (subtract_live_counters_locked sh r s b) R"
  using assms histogram_of_less [OF assms(2)] rounded_parts [OF assms(2)]
  by (auto simp: shard_counts_def subtract_live_counters_locked_def Let_def update_at_tabulate
      update_at_tabulate0 tabulate_eq class_counts)

lemma shard_counts_events [simp]:
  "shard_counts (count_free_event sh) = shard_counts sh"
  "shard_counts (count_untracked_free sh) = shard_counts sh"
  "shard_counts (count_tracking_failure sh) = shard_counts sh"
  by (simp_all add: shard_counts_def fun_eq_iff count_free_event_def count_untracked_free_def
      count_tracking_failure_def)

lemma shard_counts_zero: "shard_counts zero_live_snapshot {#}"
  by (simp add: shard_counts_def zero_live_snapshot_def class_counts)

text \<open>Fields outside the statistics are framed.\<close>

lemma update_live_shard_frame [simp]:
  "live_tab (update_live_shard ptr f st) = live_tab st"
  "live_sample_rate (update_live_shard ptr f st) = live_sample_rate st"
  "length (live_statistics (update_live_shard ptr f st)) = length (live_statistics st)"
  by (simp_all add: update_live_shard_def)

text \<open>Two updates of one state that change one shard: the table gains or loses an entry of that
  shard and the shard's counters follow.\<close>

lemma live_consistent_update:
  assumes "live_consistent st" and "wf_live_table tab"
    and "\<And>s. s \<noteq> shard_of ptr \<Longrightarrow> shard_sizes s (live_entries tab) = shard_sizes s (live_entries (live_tab st))"
    and "shard_counts (f (live_statistics st ! shard_of ptr)) (shard_sizes (shard_of ptr) (live_entries tab))"
    and "\<forall>e\<in>#live_entries tab. rounded_allocation_size (snd e) \<noteq> None"
  shows "live_consistent (update_live_shard ptr f (st\<lparr>live_tab := tab\<rparr>))"
proof -
  have "shard_counts (live_statistics (update_live_shard ptr f (st\<lparr>live_tab := tab\<rparr>)) ! s)
      (shard_sizes s (live_entries tab))" if "s < ATOMIC_STATISTICS_SHARD_COUNT" for s
    using that assms(1,3,4) by (simp add: live_consistent_def update_live_shard_def)
  with assms(1,2,5) show ?thesis by (simp add: live_consistent_def)
qed

lemma live_consistent_count:
  assumes "live_consistent st" and "\<And>sh. shard_counts (f sh) = shard_counts sh"
  shows "live_consistent (update_live_shard ptr f st)"
  using live_consistent_update [OF assms(1), of "live_tab st" ptr f] assms
  by (simp add: live_consistent_def)

lemma live_consistent_counted [simp]:
  "live_consistent st \<Longrightarrow> live_consistent (update_live_shard ptr count_tracking_failure st)"
  "live_consistent st \<Longrightarrow> live_consistent (update_live_shard ptr count_free_event st)"
  "live_consistent st \<Longrightarrow> live_consistent (update_live_shard ptr count_untracked_free st)"
  by (rule live_consistent_count; simp)+

lemma live_consistent_add:
  assumes "live_consistent st" and "rounded_allocation_size r = Some (s, b)"
    and "wf_live_table tab" and "live_entries tab = add_mset (ptr, r) (live_entries (live_tab st))"
  shows "live_consistent (update_live_shard ptr (\<lambda>sh. add_live_counters_locked sh r s b)
           (st\<lparr>live_tab := tab\<rparr>))"
  using assms by (intro live_consistent_update)
    (auto simp: shard_sizes_add live_consistent_def intro!: shard_counts_add)

lemma live_consistent_subtract:
  assumes "live_consistent st" and "rounded_allocation_size r = Some (s, b)"
    and "wf_live_table tab" and "live_entries (live_tab st) = add_mset (ptr, r) (live_entries tab)"
  shows "live_consistent (update_live_shard ptr (\<lambda>sh. subtract_live_counters_locked sh r s b)
           (st\<lparr>live_tab := tab\<rparr>))"
proof (rule live_consistent_update [OF assms(1,3)])
  have "shard_counts (live_statistics st ! shard_of ptr) (shard_sizes (shard_of ptr) (live_entries (live_tab st)))"
    using assms(1) by (simp add: live_consistent_def)
  then show "shard_counts (subtract_live_counters_locked (live_statistics st ! shard_of ptr) r s b)
      (shard_sizes (shard_of ptr) (live_entries tab))"
    using assms(2,4) by (auto simp: shard_sizes_add intro: shard_counts_subtract)
qed (use assms in \<open>auto simp: shard_sizes_add live_consistent_def\<close>)

text \<open>What tracking does: the state stays consistent, and the entry is added exactly when the
  pointer is sampled and the table takes it; otherwise no entry changes.\<close>

lemma track_spec:
  assumes "live_consistent st" and "rounded_allocation_size r = Some (s, b)"
  shows "live_consistent (fst (track_live_allocation ptr r s b h st)) \<and>
    live_entries (live_tab (fst (track_live_allocation ptr r s b h st))) =
      (if snd (track_live_allocation ptr r s b h st)
       then add_mset (ptr, r) (live_entries (live_tab st)) else live_entries (live_tab st)) \<and>
    (snd (track_live_allocation ptr r s b h st) \<longleftrightarrow>
      live_pointer_is_sampled (live_sample_rate st) h \<and> live_table_ready (live_tab st) \<and>
      1 < ptr \<and> live_has_room (live_tab st) ptr)"
proof -
  have wf: "wf_live_table (live_tab st)"
    using assms(1) by (simp add: live_consistent_def)
  show ?thesis
    using live_insert_spec [OF wf, of ptr r] assms live_consistent_add [OF assms, of _ ptr]
    by (auto simp: track_live_allocation_def Let_def split: prod.splits if_splits)
qed

text \<open>Every entry found can be rounded, so the failure branches of detaching and freeing are dead
  in a consistent state.\<close>

lemma removed_rounded:
  assumes "live_consistent st" and "live_entries (live_tab st) = add_mset (ptr, r) M"
  obtains s b where "rounded_allocation_size r = Some (s, b)"
  using assms by (fastforce simp: live_consistent_def)

lemma detach_prepared_spec:
  assumes "live_consistent st" and "1 < ptr"
  shows "live_consistent (fst (detach_prepared ptr st)) \<and>
    live_sample_rate (fst (detach_prepared ptr st)) = live_sample_rate st \<and>
    (let d = snd (detach_prepared ptr st) in
      observed d = live_pointer_is_sampled (live_sample_rate st) (statistics_pointer_hash ptr) \<and>
      (if tracked d
       then live_entries (live_tab st) =
         add_mset (ptr, detached_requested d) (live_entries (live_tab (fst (detach_prepared ptr st))))
       else fst (detach_prepared ptr st) = st \<and> (observed d \<longrightarrow> (\<forall>r. (ptr, r) \<notin># live_entries (live_tab st)))))"
proof (cases "live_pointer_is_sampled (live_sample_rate st) (statistics_pointer_hash ptr)")
  case False
  then show ?thesis
    using assms by (simp add: detach_prepared_def not_detached_def)
next
  case True
  have wf: "wf_live_table (live_tab st)"
    using assms(1) by (simp add: live_consistent_def)
  obtain tab res where rem: "live_table_remove_locked (live_tab st) ptr (live_pointer_hash ptr) = (tab, res)"
    by fastforce
  note spec = live_remove_spec [OF wf assms(2), unfolded rem]
  show ?thesis
  proof (cases res)
    case None
    then show ?thesis
      using True assms spec by (simp add: detach_prepared_def not_detached_def rem)
  next
    case (Some r)
    then have tab: "wf_live_table tab" "live_entries (live_tab st) = add_mset (ptr, r) (live_entries tab)"
      using spec by auto
    from removed_rounded [OF assms(1) tab(2)] obtain s b where "rounded_allocation_size r = Some (s, b)" .
    then show ?thesis
      using True Some tab live_consistent_subtract [OF assms(1) _ tab]
      by (simp add: detach_prepared_def not_detached_def rem)
  qed
qed

lemma update_at_cancel:
  assumes "\<And>x. f (g x) = x"
  shows "update_at i f (update_at i g xs) = xs"
  using assms by (cases "i < length xs") (simp_all add: update_at_def not_less list_update_beyond)

lemma add_subtract_counters:
  "add_live_counters_locked (subtract_live_counters_locked sh r s b) r s b = sh"
  by (simp add: add_live_counters_locked_def subtract_live_counters_locked_def Let_def update_at_cancel)

lemma update_live_shard_twice:
  "update_live_shard ptr f (update_live_shard ptr g st) = update_live_shard ptr (f \<circ> g) st"
  by (cases "shard_of ptr < length (live_statistics st)")
    (simp_all add: update_live_shard_def update_at_def not_less list_update_beyond)

lemma restore_after_detach:
  assumes "live_consistent st" and "1 < ptr" and "tracked (snd (detach_prepared ptr st))"
  shows "live_entries (live_tab (restore_detached_allocation ptr (snd (detach_prepared ptr st))
           (fst (detach_prepared ptr st)))) = live_entries (live_tab st)"
    and "live_statistics (restore_detached_allocation ptr (snd (detach_prepared ptr st))
           (fst (detach_prepared ptr st))) = live_statistics st"
proof -
  have wf: "wf_live_table (live_tab st)"
    using assms(1) by (simp add: live_consistent_def)
  obtain tab res where rem: "live_table_remove_locked (live_tab st) ptr (live_pointer_hash ptr) = (tab, res)"
    by fastforce
  have sampled: "live_pointer_is_sampled (live_sample_rate st) (statistics_pointer_hash ptr)"
    using assms(3) by (auto simp: detach_prepared_def not_detached_def split: if_splits)
  obtain r where r: "res = Some r"
    using assms(3) rem sampled by (cases res) (auto simp: detach_prepared_def not_detached_def)
  note tab = live_remove_spec [OF wf assms(2), unfolded rem r, simplified]
  from removed_rounded [OF assms(1), of ptr r] tab obtain s b
    where sb: "rounded_allocation_size r = Some (s, b)" by auto
  let ?st = "update_live_shard ptr (\<lambda>sh. subtract_live_counters_locked sh r s b) (st\<lparr>live_tab := tab\<rparr>)"
  have det: "detach_prepared ptr st = (?st, \<lparr>observed = True, tracked = True, detached_requested = r\<rparr>)"
    using rem r sb sampled by (simp add: detach_prepared_def not_detached_def)
  have "live_consistent ?st"
    using tab by (intro live_consistent_subtract [OF assms(1) sb]) auto
  note spec = track_spec [OF this sb, of ptr "statistics_pointer_hash ptr"]
  have room: "snd (track_live_allocation ptr r s b (statistics_pointer_hash ptr) ?st)"
    using spec sampled live_remove_room [OF wf assms(2) rem [unfolded r]] assms(2) by simp
  show "live_entries (live_tab (restore_detached_allocation ptr (snd (detach_prepared ptr st))
           (fst (detach_prepared ptr st)))) = live_entries (live_tab st)"
    using spec room tab by (simp add: det restore_detached_allocation_def sb)
  have "live_statistics (fst (track_live_allocation ptr r s b (statistics_pointer_hash ptr) ?st)) =
      update_at (shard_of ptr) (\<lambda>sh. add_live_counters_locked sh r s b) (live_statistics ?st)"
    using room by (auto simp: track_live_allocation_def Let_def update_live_shard_def split: prod.splits if_splits)
  then show "live_statistics (restore_detached_allocation ptr (snd (detach_prepared ptr st))
           (fst (detach_prepared ptr st))) = live_statistics st"
    by (simp add: det restore_detached_allocation_def sb update_live_shard_def update_at_cancel
        add_subtract_counters)
qed

lemma record_free_spec:
  assumes "live_consistent st" and "1 < ptr"
  shows "live_consistent (fst (record_free_locked ptr st)) \<and>
    (live_entries (live_tab (fst (record_free_locked ptr st))) = live_entries (live_tab st) \<and>
       (\<forall>r. (ptr, r) \<notin># live_entries (live_tab st)) \<or>
     (\<exists>r. live_entries (live_tab st) =
       add_mset (ptr, r) (live_entries (live_tab (fst (record_free_locked ptr st))))))"
proof -
  let ?st = "update_live_shard ptr count_free_event st"
  have con: "live_consistent ?st"
    using assms(1) by simp
  then have wf: "wf_live_table (live_tab ?st)"
    by (simp add: live_consistent_def)
  obtain tab res where rem: "live_table_remove_locked (live_tab st) ptr (live_pointer_hash ptr) = (tab, res)"
    by fastforce
  note spec = live_remove_spec [OF wf assms(2), unfolded update_live_shard_frame rem]
  show ?thesis
  proof (cases res)
    case None
    have same: "?st\<lparr>live_tab := live_tab st\<rparr> = ?st"
      by (simp add: update_live_shard_def)
    show ?thesis
      using None con spec by (simp add: record_free_locked_def Let_def rem same)
  next
    case (Some r)
    then have tab: "wf_live_table tab" "live_entries (live_tab ?st) = add_mset (ptr, r) (live_entries tab)"
      using spec by auto
    from removed_rounded [OF con tab(2)] obtain s b where "rounded_allocation_size r = Some (s, b)" .
    then show ?thesis
      using Some tab live_consistent_subtract [OF con _ tab]
      by (simp add: record_free_locked_def Let_def rem)
  qed
qed

lemma record_release_spec [simp]:
  "live_consistent st \<Longrightarrow> live_consistent (record_release_event ptr d st)"
  "live_tab (record_release_event ptr d st) = live_tab st"
  by (simp_all add: record_release_event_def Let_def)

lemma restore_consistent:
  assumes "live_consistent st"
  shows "live_consistent (restore_detached_allocation ptr d st)"
  using assms track_spec [OF assms, of "detached_requested d"]
  by (auto simp: restore_detached_allocation_def split: option.splits)

subsection \<open>Adding up the shards\<close>

lemma map2_tabulate: "map2 f (tabulate n m g) (tabulate n m h) = tabulate n m (\<lambda>i. f (g i) (h i))"
  by (auto intro!: nth_equalityI)

lemma shard_counts_union:
  assumes "shard_counts a R" and "shard_counts b Q"
  shows "shard_counts (accumulate_live_shard a b) (R + Q)"
  using assms by (simp add: shard_counts_def accumulate_live_shard_def map2_tabulate)

lemma shard_counts_foldl:
  assumes "shard_counts a R" and "\<And>i. i < length xs \<Longrightarrow> shard_counts (xs ! i) (Q i)"
  shows "shard_counts (foldl accumulate_live_shard a xs) (R + (\<Sum>i<length xs. Q i))"
  using assms
proof (induction xs arbitrary: a R Q)
  case (Cons x xs)
  have "shard_counts (accumulate_live_shard a x) (R + Q 0)"
    using Cons.prems(1) Cons.prems(2) [of 0] by (simp add: shard_counts_union)
  from Cons.IH [OF this, of "\<lambda>i. Q (Suc i)"] Cons.prems(2) [of "Suc _"]
  have "shard_counts (foldl accumulate_live_shard a (x # xs)) (R + Q 0 + (\<Sum>i<length xs. Q (Suc i)))"
    by simp
  then show ?case
    by (simp add: sum.lessThan_Suc_shift add.assoc del: sum.lessThan_Suc)
qed simp

lemma shard_sizes_sum: "(\<Sum>s<ATOMIC_STATISTICS_SHARD_COUNT. shard_sizes s M) = image_mset snd M"
proof (induction M)
  case (add e M)
  have "(\<Sum>s<ATOMIC_STATISTICS_SHARD_COUNT. shard_sizes s (add_mset e M)) =
      (\<Sum>s<ATOMIC_STATISTICS_SHARD_COUNT. (if s = shard_of (fst e) then {#snd e#} else {#}) + shard_sizes s M)"
    by (intro sum.cong) (auto simp: shard_sizes_add)
  also have "\<dots> = {#snd e#} + image_mset snd M"
    by (simp only: sum.distrib add.IH) (simp add: sum.delta)
  finally show ?case by simp
qed (simp add: shard_sizes_def)

lemma scale_live_counter_one [simp]: "scale_live_counter 1 = (\<lambda>v. v)"
  by (simp add: scale_live_counter_def fun_eq_iff)

lemma load_live_statistics_exact:
  assumes "live_consistent st" and "live_sample_rate st = 1"
  shows "shard_counts (load_live_statistics st) (image_mset snd (live_entries (live_tab st)))"
proof -
  have "shard_counts (foldl accumulate_live_shard zero_live_snapshot (live_statistics st))
      ({#} + (\<Sum>s<length (live_statistics st). shard_sizes s (live_entries (live_tab st))))"
    using assms(1) by (intro shard_counts_foldl shard_counts_zero) (simp add: live_consistent_def)
  moreover have "scale_live_snapshot 1 s = s" for s
    by (simp add: scale_live_snapshot_def Let_def)
  ultimately show ?thesis
    using assms by (simp add: load_live_statistics_def shard_sizes_sum live_consistent_def)
qed

subsection \<open>Runs of the statistics\<close>

text \<open>
  Any interleaving of the locked sections: each step is one section, on any pointer, in any
  order, from the state after \<open>clear_live_statistics\<close> and \<open>initialize_live_table\<close>. Pointers
  come from an allocator, so none is \<open>0\<close> or \<open>1\<close>.
\<close>

inductive live_step :: "live_state \<Rightarrow> live_state \<Rightarrow> bool" where
  track: "rounded_allocation_size r = Some (s, b) \<Longrightarrow>
    live_step st (fst (track_live_allocation ptr r s b (statistics_pointer_hash ptr) st))"
| detach: "1 < ptr \<Longrightarrow> live_step st (fst (detach_prepared ptr st))"
| free: "1 < ptr \<Longrightarrow> live_step st (fst (record_free_locked ptr st))"
| restore: "live_step st (restore_detached_allocation ptr d st)"
| release: "live_step st (record_release_event ptr d st)"

definition initial_live_state :: "nat \<Rightarrow> bool \<Rightarrow> u64 \<Rightarrow> live_state" where
  "initial_live_state k mmap_ok rate = clear_live_statistics
    \<lparr>live_tab = initialize_live_table (256 * 2 ^ k) mmap_ok (release_live_table \<lparr>slots = [], live_table_ready = False\<rparr>),
     live_statistics = [], live_sample_rate = rate\<rparr>"

lemma initial_live_state_fields:
  "live_tab (initial_live_state k ok rate) = initialize_live_table (256 * 2 ^ k) ok
    (release_live_table \<lparr>slots = [], live_table_ready = False\<rparr>)"
  "live_sample_rate (initial_live_state k ok rate) = rate"
  by (simp_all add: initial_live_state_def clear_live_statistics_def)

lemma initialize_live_table_ready: "k \<le> 19 \<Longrightarrow> live_table_ready (initialize_live_table (256 * 2 ^ k) True t)"
  using power_increasing [of k 19 "2::nat"] by (simp add: initialize_live_table_def)

lemma initial_live_consistent: "k \<le> 19 \<Longrightarrow> live_consistent (initial_live_state k ok rate)"
  by (simp add: live_consistent_def initial_live_state_def clear_live_statistics_def shard_counts_zero)

lemma live_step_consistent: "live_step st st' \<Longrightarrow> live_consistent st \<Longrightarrow> live_consistent st'"
  by (induction rule: live_step.induct)
    (simp_all add: track_spec detach_prepared_spec record_free_spec restore_consistent)

lemma track_sample_rate [simp]:
  "live_sample_rate (fst (track_live_allocation ptr r s b h st)) = live_sample_rate st"
  by (simp add: track_live_allocation_def Let_def split: prod.splits)

lemma live_step_sample_rate: "live_step st st' \<Longrightarrow> live_sample_rate st' = live_sample_rate st"
  by (induction rule: live_step.induct)
    (auto simp: detach_prepared_def record_free_locked_def restore_detached_allocation_def
      record_release_event_def Let_def split: prod.splits option.splits)

lemma live_run_consistent: "live_step\<^sup>*\<^sup>* st st' \<Longrightarrow> live_consistent st \<Longrightarrow>
    live_consistent st' \<and> live_sample_rate st' = live_sample_rate st"
  by (induction rule: rtranclp_induct) (simp_all add: live_step_consistent live_step_sample_rate)

subsection \<open>Properties\<close>

text \<open>C5: In every state reached from the initial one by any interleaving of the statistics'
  locked sections, the counters and histograms of each of the 256 shards equal, modulo
  \<open>2 ^ 64\<close>, the sums over the allocations the live table holds for that shard, and the table
  is well formed.\<close>

theorem live_accounting_invariant:
  assumes "k \<le> 19" and "live_step\<^sup>*\<^sup>* (initial_live_state k ok rate) st"
  shows "live_consistent st"
  using live_run_consistent [OF assms(2)] initial_live_consistent [OF assms(1)] by simp

definition sample_live_run :: live_state where
  "sample_live_run = fst (track_live_allocation 4096 100 104 12 (statistics_pointer_hash 4096)
    (initial_live_state 2 True 1))"

lemma sample_live_run: "live_step\<^sup>*\<^sup>* (initial_live_state 2 True 1) sample_live_run"
proof -
  have "rounded_allocation_size 100 = Some (104, 12)"
    by (simp add: rounded_allocation_size_def)
  from live_step.track [OF this] show ?thesis
    unfolding sample_live_run_def by (rule r_into_rtranclp)
qed

lemma sample_live_run_entries: "live_entries (live_tab sample_live_run) = {#(4096, 100)#}"
proof -
  have r: "rounded_allocation_size 100 = Some (104, 12)"
    by (simp add: rounded_allocation_size_def)
  show ?thesis
    using track_spec [OF initial_live_consistent [of 2 True 1] r, of 4096 "statistics_pointer_hash 4096"]
    by (simp add: sample_live_run_def initial_live_state_fields live_has_room_initialize
        live_pointer_is_sampled_def initialize_live_table_ready del: mult_numeral_left power_numeral)
qed

theorem live_accounting_invariant_witness: "live_consistent sample_live_run"
  using live_accounting_invariant [OF _ sample_live_run] by simp

text \<open>C6: With the production sampling rate 1, the snapshot \<open>load_live_statistics\<close> reads in any
  reachable state is exact: its counts, requested bytes, hole bytes and three histograms are
  the sums over all entries of the live table.\<close>

theorem live_snapshot_exact:
  assumes "k \<le> 19" and "live_step\<^sup>*\<^sup>* (initial_live_state k ok 1) st"
  shows "shard_counts (load_live_statistics st) (image_mset snd (live_entries (live_tab st)))"
proof (rule load_live_statistics_exact)
  show "live_consistent st" "live_sample_rate st = 1"
    using live_run_consistent [OF assms(2)] initial_live_consistent [OF assms(1)]
    by (simp_all add: initial_live_state_def clear_live_statistics_def)
qed

theorem live_snapshot_exact_witness:
  "live_allocations (load_live_statistics sample_live_run) = 1 \<and>
   live_requested_bytes (load_live_statistics sample_live_run) = 100 \<and>
   live_hole_bytes (load_live_statistics sample_live_run) = 4"
  using live_snapshot_exact [OF _ sample_live_run] sample_live_run_entries
  by (simp add: shard_counts_def hole_of_def rounded_allocation_size_def)

text \<open>C7: When a \<open>realloc\<close> fails, restoring the detached allocation undoes the detaching: the
  live table holds the same entries again and every counter of every shard has its old
  value.\<close>

theorem restore_undoes_detach:
  assumes "live_consistent st" and "1 < ptr" and "tracked (snd (detach_prepared ptr st))"
  shows "live_entries (live_tab (restore_detached_allocation ptr (snd (detach_prepared ptr st))
             (fst (detach_prepared ptr st)))) = live_entries (live_tab st) \<and>
         live_statistics (restore_detached_allocation ptr (snd (detach_prepared ptr st))
             (fst (detach_prepared ptr st))) = live_statistics st"
  using restore_after_detach [OF assms] by simp

lemma sample_live_consistent: "live_consistent sample_live_run"
  using live_run_consistent [OF sample_live_run] initial_live_consistent by simp

theorem restore_undoes_detach_witness:
  "live_statistics (restore_detached_allocation 4096 (snd (detach_prepared 4096 sample_live_run))
     (fst (detach_prepared 4096 sample_live_run))) = live_statistics sample_live_run"
proof -
  have "live_sample_rate sample_live_run = 1"
    by (simp add: sample_live_run_def initial_live_state_fields)
  then have "tracked (snd (detach_prepared 4096 sample_live_run))"
    using detach_prepared_spec [OF sample_live_consistent, of 4096] sample_live_run_entries
    by (auto simp: Let_def live_pointer_is_sampled_def split: if_splits)
  from restore_undoes_detach [OF sample_live_consistent _ this] show ?thesis by simp
qed

text \<open>Scaling a sampled counter multiplies it by the sampling rate and saturates at
  \<open>UINT64_MAX\<close> instead of wrapping.\<close>

theorem scale_live_counter_saturates:
  assumes "rate \<noteq> 0"
  shows "unat (scale_live_counter rate v) = min (unat v * unat rate) (2 ^ 64 - 1)"
proof (cases "v > SIZE_MAX div rate")
  case True
  then have "(2 ^ 64 - 1) div unat rate < unat v"
    by (simp add: word_less_nat_alt unat_div unat_size_max)
  then have "2 ^ 64 - 1 < unat v * unat rate"
    using assms by (simp add: div_less_iff_less_mult unat_gt_0)
  moreover have "rate \<noteq> 1"
    using True unsigned_less [where 'a = nat, of v] by (auto simp: word_less_nat_alt unat_size_max)
  ultimately show ?thesis
    using True by (simp add: scale_live_counter_def unat_size_max)
next
  case False
  then have "unat v \<le> (2 ^ 64 - 1) div unat rate"
    by (simp add: word_less_nat_alt unat_div unat_size_max)
  then have "unat v * unat rate \<le> 2 ^ 64 - 1"
    using assms by (simp add: less_eq_div_iff_mult_less_eq unat_gt_0)
  then show ?thesis
    using False by (auto simp: scale_live_counter_def unat_word_ariths)
qed

theorem scale_live_counter_saturates_witness:
  "unat (scale_live_counter 65536 (2 ^ 60)) = 2 ^ 64 - 1"
  using scale_live_counter_saturates [of 65536 "2 ^ 60"] by simp

end
