(* ===== verification/HoleStats.thy ===== *)
theory HoleStats
  imports LiveStats
begin

text \<open>
  The sharded atomic statistics of \<open>malloc_hole_hook.c\<close> (the \<open>MINI_HOLE_ATOMIC_STATS\<close> build):
  256 shards of counters that the entry points change only by \<open>atomic_fetch_add\<close>, the
  aggregation \<open>load_statistics\<close> and the differences written per period. An allocation event is
  the list of its atomic additions, in program order; the lemmas show that under any
  interleaving of the additions of any number of threads the aggregate is the exact summary of
  the events.
\<close>

subsection \<open>The model\<close>

text \<open>\<open>HoleSnapshot\<close>; \<open>AtomicHoleStatistics\<close> has the same counters.\<close>

record hole_snapshot =
  allocations :: u64
  measured_allocations :: u64
  requested_bytes :: u64
  hole_bytes :: u64
  failed_allocations :: u64
  measurement_errors :: u64
  bucket_allocations :: "u64 list"
  bucket_hole_bytes :: "u64 list"

definition zero_hole_snapshot :: hole_snapshot where
  "zero_hole_snapshot = \<lparr>allocations = 0, measured_allocations = 0, requested_bytes = 0, hole_bytes = 0,
    failed_allocations = 0, measurement_errors = 0,
    bucket_allocations = replicate SIZE_BUCKET_COUNT 0, bucket_hole_bytes = replicate SIZE_BUCKET_COUNT 0\<rparr>"

type_synonym hole_statistics = "hole_snapshot list"

definition clear_statistics :: hole_statistics where
  "clear_statistics = replicate ATOMIC_STATISTICS_SHARD_COUNT zero_hole_snapshot"

text \<open>The \<open>atomic_fetch_add_explicit\<close> calls of the entry points, by counter.\<close>

datatype counter_add =
    Add_requested (add_shard: nat) u64
  | Add_bucket (add_shard: nat) nat
  | Add_hole (add_shard: nat) nat u64
  | Add_error (add_shard: nat)
  | Add_failed (add_shard: nat)

fun add_counter :: "counter_add \<Rightarrow> hole_snapshot \<Rightarrow> hole_snapshot" where
  "add_counter (Add_requested s n) h = h\<lparr>requested_bytes := requested_bytes h + n\<rparr>"
| "add_counter (Add_bucket s b) h =
    h\<lparr>bucket_allocations := update_at b (\<lambda>x. x + 1) (bucket_allocations h)\<rparr>"
| "add_counter (Add_hole s b n) h =
    h\<lparr>bucket_hole_bytes := update_at b (\<lambda>x. x + n) (bucket_hole_bytes h)\<rparr>"
| "add_counter (Add_error s) h = h\<lparr>measurement_errors := measurement_errors h + 1\<rparr>"
| "add_counter (Add_failed s) h = h\<lparr>failed_allocations := failed_allocations h + 1\<rparr>"

definition atomic_fetch_add :: "counter_add \<Rightarrow> hole_statistics \<Rightarrow> hole_statistics" where
  "atomic_fetch_add a st = update_at (add_shard a) (add_counter a) st"

definition statistics_shard :: "u64 \<Rightarrow> nat" where
  "statistics_shard ptr = unat (statistics_pointer_hash ptr AND (of_nat ATOMIC_STATISTICS_SHARD_COUNT - 1))"

text \<open>
  The additions of \<open>record_successful_allocation\<close>, in order (the live tracking is
  \<open>track_live_allocation\<close>), and of \<open>record_failed_allocation\<close>.
\<close>

definition success_adds :: "u64 \<Rightarrow> u64 \<Rightarrow> counter_add list" where
  "success_adds requested ptr =
    (let shard = statistics_shard ptr in
     case rounded_allocation_size requested of
       None \<Rightarrow> [Add_error shard]
     | Some (rounded, bucket) \<Rightarrow>
         let hole = rounded - requested in
         [Add_requested shard requested, Add_bucket shard (unat bucket), Add_hole shard (unat bucket) hole])"

definition failed_adds :: "counter_add list" where
  "failed_adds = [Add_failed 0]"

text \<open>\<open>load_statistics\<close>: the buckets of a shard, then the shards.\<close>

definition load_bucket :: "hole_snapshot \<Rightarrow> hole_snapshot \<Rightarrow> nat \<Rightarrow> hole_snapshot" where
  "load_bucket shard snapshot i =
    (let count = bucket_allocations shard ! i; hole = bucket_hole_bytes shard ! i in
     snapshot\<lparr>bucket_allocations := update_at i (\<lambda>x. x + count) (bucket_allocations snapshot),
       bucket_hole_bytes := update_at i (\<lambda>x. x + hole) (bucket_hole_bytes snapshot),
       measured_allocations := measured_allocations snapshot + count,
       hole_bytes := hole_bytes snapshot + hole\<rparr>)"

definition load_shard :: "hole_snapshot \<Rightarrow> hole_snapshot \<Rightarrow> hole_snapshot" where
  "load_shard snapshot shard =
    (let snapshot = snapshot\<lparr>requested_bytes := requested_bytes snapshot + requested_bytes shard,
           failed_allocations := failed_allocations snapshot + failed_allocations shard,
           measurement_errors := measurement_errors snapshot + measurement_errors shard\<rparr>
     in foldl (load_bucket shard) snapshot [0..<SIZE_BUCKET_COUNT])"

definition load_statistics :: "hole_statistics \<Rightarrow> hole_snapshot" where
  "load_statistics st =
    (let snapshot = foldl load_shard zero_hole_snapshot st in
     snapshot\<lparr>allocations := measured_allocations snapshot + measurement_errors snapshot\<rparr>)"

definition snapshot_delta :: "hole_snapshot \<Rightarrow> hole_snapshot \<Rightarrow> hole_snapshot" where
  "snapshot_delta current previous =
    \<lparr>allocations = allocations current - allocations previous,
     measured_allocations = measured_allocations current - measured_allocations previous,
     requested_bytes = requested_bytes current - requested_bytes previous,
     hole_bytes = hole_bytes current - hole_bytes previous,
     failed_allocations = failed_allocations current - failed_allocations previous,
     measurement_errors = measurement_errors current - measurement_errors previous,
     bucket_allocations = map2 (-) (bucket_allocations current) (bucket_allocations previous),
     bucket_hole_bytes = map2 (-) (bucket_hole_bytes current) (bucket_hole_bytes previous)\<rparr>"

definition live_event_delta :: "live_snapshot \<Rightarrow> live_snapshot \<Rightarrow> live_snapshot" where
  "live_event_delta current previous = zero_live_snapshot
    \<lparr>live_free_events := live_free_events current - live_free_events previous,
     live_untracked_frees := live_untracked_frees current - live_untracked_frees previous,
     live_tracking_failures := live_tracking_failures current - live_tracking_failures previous\<rparr>"

subsection \<open>What the additions amount to\<close>

text \<open>The aggregate of a multiset of additions, and of a multiset of events.\<close>

fun requested_add :: "counter_add \<Rightarrow> u64" where
  "requested_add (Add_requested s n) = n" | "requested_add _ = 0"

fun bucket_add :: "nat \<Rightarrow> counter_add \<Rightarrow> u64" where
  "bucket_add i (Add_bucket s b) = (if b = i then 1 else 0)" | "bucket_add i _ = 0"

fun hole_add :: "nat \<Rightarrow> counter_add \<Rightarrow> u64" where
  "hole_add i (Add_hole s b n) = (if b = i then n else 0)" | "hole_add i _ = 0"

fun error_add :: "counter_add \<Rightarrow> u64" where
  "error_add (Add_error s) = 1" | "error_add _ = 0"

fun failed_add :: "counter_add \<Rightarrow> u64" where
  "failed_add (Add_failed s) = 1" | "failed_add _ = 0"

definition add_ok :: "counter_add \<Rightarrow> bool" where
  "add_ok a \<longleftrightarrow> add_shard a < ATOMIC_STATISTICS_SHARD_COUNT \<and>
    (case a of Add_bucket s b \<Rightarrow> b < SIZE_BUCKET_COUNT | Add_hole s b n \<Rightarrow> b < SIZE_BUCKET_COUNT | _ \<Rightarrow> True)"

definition statistics_ok :: "hole_statistics \<Rightarrow> bool" where
  "statistics_ok st \<longleftrightarrow> length st = ATOMIC_STATISTICS_SHARD_COUNT \<and>
    (\<forall>h\<in>set st. length (bucket_allocations h) = SIZE_BUCKET_COUNT \<and>
                length (bucket_hole_bytes h) = SIZE_BUCKET_COUNT)"

definition totals :: "(hole_snapshot \<Rightarrow> u64) \<Rightarrow> hole_statistics \<Rightarrow> u64" where
  "totals f st = sum_list (map f st)"

lemma load_buckets:
  assumes "n \<le> SIZE_BUCKET_COUNT" and "length (bucket_allocations s) = SIZE_BUCKET_COUNT"
    and "length (bucket_hole_bytes s) = SIZE_BUCKET_COUNT"
  shows "foldl (load_bucket shard) s [0..<n] =
    s\<lparr>bucket_allocations := tabulate 0 SIZE_BUCKET_COUNT
        (\<lambda>i. if i < n then bucket_allocations s ! i + bucket_allocations shard ! i else bucket_allocations s ! i),
      bucket_hole_bytes := tabulate 0 SIZE_BUCKET_COUNT
        (\<lambda>i. if i < n then bucket_hole_bytes s ! i + bucket_hole_bytes shard ! i else bucket_hole_bytes s ! i),
      measured_allocations := measured_allocations s + (\<Sum>i<n. bucket_allocations shard ! i),
      hole_bytes := hole_bytes s + (\<Sum>i<n. bucket_hole_bytes shard ! i)\<rparr>"
  using assms(1)
proof (induction n)
  case 0
  have "xs = tabulate 0 SIZE_BUCKET_COUNT (\<lambda>i. xs ! i)" if "length xs = SIZE_BUCKET_COUNT" for xs :: "u64 list"
    using that by (auto intro!: nth_equalityI)
  then show ?case using assms(2,3) by simp
next
  case (Suc n)
  have "tabulate 0 SIZE_BUCKET_COUNT (\<lambda>b. if b = n then x b else y b) =
      tabulate 0 SIZE_BUCKET_COUNT (\<lambda>b. if b < Suc n then x b else z b)"
    if "\<And>b. b < n \<Longrightarrow> y b = x b" "\<And>b. n < b \<Longrightarrow> y b = z b" for x y z :: "nat \<Rightarrow> u64"
    using that by (auto simp: tabulate_eq less_Suc_eq)
  with Suc show ?case
    by (simp add: load_bucket_def Let_def update_at_tabulate0 add.assoc tabulate_eq less_Suc_eq)
qed

lemma load_shard_fields:
  assumes "length (bucket_allocations s) = SIZE_BUCKET_COUNT" "length (bucket_hole_bytes s) = SIZE_BUCKET_COUNT"
  shows "load_shard s h = s
    \<lparr>requested_bytes := requested_bytes s + requested_bytes h,
     failed_allocations := failed_allocations s + failed_allocations h,
     measurement_errors := measurement_errors s + measurement_errors h,
     bucket_allocations := tabulate 0 SIZE_BUCKET_COUNT (\<lambda>i. bucket_allocations s ! i + bucket_allocations h ! i),
     bucket_hole_bytes := tabulate 0 SIZE_BUCKET_COUNT (\<lambda>i. bucket_hole_bytes s ! i + bucket_hole_bytes h ! i),
     measured_allocations := measured_allocations s + (\<Sum>i<SIZE_BUCKET_COUNT. bucket_allocations h ! i),
     hole_bytes := hole_bytes s + (\<Sum>i<SIZE_BUCKET_COUNT. bucket_hole_bytes h ! i)\<rparr>"
  using assms by (simp add: load_shard_def Let_def load_buckets tabulate_eq)

lemma load_shards:
  assumes "length (bucket_allocations s) = SIZE_BUCKET_COUNT" "length (bucket_hole_bytes s) = SIZE_BUCKET_COUNT"
  shows "foldl load_shard s st = s
    \<lparr>requested_bytes := requested_bytes s + totals requested_bytes st,
     failed_allocations := failed_allocations s + totals failed_allocations st,
     measurement_errors := measurement_errors s + totals measurement_errors st,
     bucket_allocations := tabulate 0 SIZE_BUCKET_COUNT
       (\<lambda>i. bucket_allocations s ! i + totals (\<lambda>h. bucket_allocations h ! i) st),
     bucket_hole_bytes := tabulate 0 SIZE_BUCKET_COUNT
       (\<lambda>i. bucket_hole_bytes s ! i + totals (\<lambda>h. bucket_hole_bytes h ! i) st),
     measured_allocations := measured_allocations s +
       (\<Sum>i<SIZE_BUCKET_COUNT. totals (\<lambda>h. bucket_allocations h ! i) st),
     hole_bytes := hole_bytes s + (\<Sum>i<SIZE_BUCKET_COUNT. totals (\<lambda>h. bucket_hole_bytes h ! i) st)\<rparr>"
  using assms
proof (induction st arbitrary: s)
  case Nil
  have "xs = tabulate 0 SIZE_BUCKET_COUNT (\<lambda>i. xs ! i)" if "length xs = SIZE_BUCKET_COUNT" for xs :: "u64 list"
    using that by (auto intro!: nth_equalityI)
  with Nil show ?case by (simp add: totals_def)
next
  case (Cons h st)
  show ?case
    unfolding foldl_Cons
    by (subst Cons.IH) (simp_all add: Cons.prems load_shard_fields totals_def tabulate_eq sum.distrib add.assoc)
qed

text \<open>One addition changes each total by its own contribution.\<close>

lemma sum_list_add_at:
  fixes xs :: "'a::comm_monoid_add list"
  shows "i < length xs \<Longrightarrow> sum_list (xs[i := xs ! i + d]) = sum_list xs + d"
proof (induction xs arbitrary: i)
  case (Cons x xs)
  then show ?case by (cases i) (simp_all add: ac_simps)
qed simp

lemma add_counter_fields:
  "requested_bytes (add_counter a h) = requested_bytes h + requested_add a"
  "failed_allocations (add_counter a h) = failed_allocations h + failed_add a"
  "measurement_errors (add_counter a h) = measurement_errors h + error_add a"
  "length (bucket_allocations (add_counter a h)) = length (bucket_allocations h)"
  "length (bucket_hole_bytes (add_counter a h)) = length (bucket_hole_bytes h)"
  "i < length (bucket_allocations h) \<Longrightarrow>
    bucket_allocations (add_counter a h) ! i = bucket_allocations h ! i + bucket_add i a"
  "i < length (bucket_hole_bytes h) \<Longrightarrow>
    bucket_hole_bytes (add_counter a h) ! i = bucket_hole_bytes h ! i + hole_add i a"
  by (cases a; simp)+

lemma totals_fetch_add:
  assumes "statistics_ok st" and "add_ok a"
    and "\<And>h. length (bucket_allocations h) = SIZE_BUCKET_COUNT \<Longrightarrow>
      length (bucket_hole_bytes h) = SIZE_BUCKET_COUNT \<Longrightarrow> f (add_counter a h) = f h + d"
  shows "totals f (atomic_fetch_add a st) = totals f st + d"
proof -
  have a: "add_shard a < length st"
    using assms(1,2) by (simp add: statistics_ok_def add_ok_def)
  then have "st ! add_shard a \<in> set st" by simp
  then have "f (add_counter a (st ! add_shard a)) = f (st ! add_shard a) + d"
    using assms(1,3) by (auto simp: statistics_ok_def)
  then show ?thesis
    using a sum_list_add_at [of "add_shard a" "map f st" d]
    by (simp add: totals_def atomic_fetch_add_def update_at_def map_update)
qed

lemma statistics_ok_fetch_add:
  assumes "statistics_ok st"
  shows "statistics_ok (atomic_fetch_add a st)"
proof (cases "add_shard a < length st")
  case True
  then have "st ! add_shard a \<in> set st" by simp
  then show ?thesis
    using assms set_update_subset_insert [of st "add_shard a" "add_counter a (st ! add_shard a)"]
    by (auto simp: statistics_ok_def atomic_fetch_add_def update_at_def add_counter_fields)
next
  case False
  then show ?thesis
    using assms by (simp add: atomic_fetch_add_def update_at_def list_update_beyond)
qed

lemma totals_adds:
  assumes "statistics_ok st" and "\<forall>a\<in>set as. add_ok a"
    and "\<And>a h. add_ok a \<Longrightarrow> length (bucket_allocations h) = SIZE_BUCKET_COUNT \<Longrightarrow>
      length (bucket_hole_bytes h) = SIZE_BUCKET_COUNT \<Longrightarrow> f (add_counter a h) = f h + d a"
  shows "totals f (foldl (\<lambda>st a. atomic_fetch_add a st) st as) = totals f st + (\<Sum>a\<in>#mset as. d a)"
  using assms(1,2)
proof (induction as arbitrary: st)
  case (Cons a as)
  then show ?case
    using totals_fetch_add [of st a f "d a"] assms(3)
    by (simp add: statistics_ok_fetch_add algebra_simps)
qed simp

definition adds_summary :: "counter_add multiset \<Rightarrow> hole_snapshot" where
  "adds_summary A =
    \<lparr>allocations = (\<Sum>i<SIZE_BUCKET_COUNT. \<Sum>a\<in>#A. bucket_add i a) + (\<Sum>a\<in>#A. error_add a),
     measured_allocations = (\<Sum>i<SIZE_BUCKET_COUNT. \<Sum>a\<in>#A. bucket_add i a),
     requested_bytes = (\<Sum>a\<in>#A. requested_add a),
     hole_bytes = (\<Sum>i<SIZE_BUCKET_COUNT. \<Sum>a\<in>#A. hole_add i a),
     failed_allocations = (\<Sum>a\<in>#A. failed_add a),
     measurement_errors = (\<Sum>a\<in>#A. error_add a),
     bucket_allocations = tabulate 0 SIZE_BUCKET_COUNT (\<lambda>i. \<Sum>a\<in>#A. bucket_add i a),
     bucket_hole_bytes = tabulate 0 SIZE_BUCKET_COUNT (\<lambda>i. \<Sum>a\<in>#A. hole_add i a)\<rparr>"

lemma clear_statistics_ok: "statistics_ok clear_statistics"
  by (simp add: statistics_ok_def clear_statistics_def zero_hole_snapshot_def)

lemma totals_clear: "f zero_hole_snapshot = 0 \<Longrightarrow> totals f clear_statistics = 0"
  by (simp add: totals_def clear_statistics_def sum_list_replicate)

lemma load_adds:
  assumes "\<forall>a\<in>set as. add_ok a"
  shows "load_statistics (foldl (\<lambda>st a. atomic_fetch_add a st) clear_statistics as) = adds_summary (mset as)"
proof -
  let ?st = "foldl (\<lambda>st a. atomic_fetch_add a st) clear_statistics as"
  note t = totals_adds [OF clear_statistics_ok assms]
  have r: "totals requested_bytes ?st = (\<Sum>a\<in>#mset as. requested_add a)"
    by (subst t [of _ requested_add]) (simp_all add: totals_clear zero_hole_snapshot_def add_counter_fields)
  have f: "totals failed_allocations ?st = (\<Sum>a\<in>#mset as. failed_add a)"
    by (subst t [of _ failed_add]) (simp_all add: totals_clear zero_hole_snapshot_def add_counter_fields)
  have e: "totals measurement_errors ?st = (\<Sum>a\<in>#mset as. error_add a)"
    by (subst t [of _ error_add]) (simp_all add: totals_clear zero_hole_snapshot_def add_counter_fields)
  have b: "totals (\<lambda>h. bucket_allocations h ! i) ?st = (\<Sum>a\<in>#mset as. bucket_add i a)"
    if "i < SIZE_BUCKET_COUNT" for i
    using that by (subst t [of _ "bucket_add i"])
      (simp_all add: totals_clear zero_hole_snapshot_def add_counter_fields)
  have h: "totals (\<lambda>h. bucket_hole_bytes h ! i) ?st = (\<Sum>a\<in>#mset as. hole_add i a)"
    if "i < SIZE_BUCKET_COUNT" for i
    using that by (subst t [of _ "hole_add i"])
      (simp_all add: totals_clear zero_hole_snapshot_def add_counter_fields)
  show ?thesis
    unfolding load_statistics_def
    by (subst load_shards) (simp_all add: r f e b h zero_hole_snapshot_def adds_summary_def Let_def tabulate_eq)
qed

subsection \<open>Events\<close>

datatype hole_event = Allocation_event u64 u64 | Failure_event

text \<open>The additions an event makes, in program order.\<close>

fun event_adds :: "hole_event \<Rightarrow> counter_add list" where
  "event_adds (Allocation_event requested ptr) = success_adds requested ptr"
| "event_adds Failure_event = failed_adds"

definition class_of :: "u64 \<Rightarrow> nat option" where
  "class_of r = map_option (\<lambda>(s, b). unat b) (rounded_allocation_size r)"

fun measured_event :: "hole_event \<Rightarrow> bool" where
  "measured_event (Allocation_event r p) \<longleftrightarrow> rounded_allocation_size r \<noteq> None"
| "measured_event Failure_event \<longleftrightarrow> False"

fun event_requested :: "hole_event \<Rightarrow> u64" where
  "event_requested (Allocation_event r p) = r"
| "event_requested Failure_event = 0"

text \<open>The specification: what a period's events amount to.\<close>

definition events_summary :: "hole_event multiset \<Rightarrow> hole_snapshot" where
  "events_summary E =
    (let M = filter_mset measured_event E; R = image_mset event_requested M in
     \<lparr>allocations = of_nat (size (filter_mset (\<lambda>e. e \<noteq> Failure_event) E)),
      measured_allocations = of_nat (size R),
      requested_bytes = (\<Sum>r\<in>#R. r),
      hole_bytes = (\<Sum>r\<in>#R. hole_of r),
      failed_allocations = of_nat (size (filter_mset (\<lambda>e. e = Failure_event) E)),
      measurement_errors = of_nat (size (filter_mset (\<lambda>e. e \<noteq> Failure_event \<and> \<not> measured_event e) E)),
      bucket_allocations = tabulate 0 SIZE_BUCKET_COUNT
        (\<lambda>i. of_nat (size (filter_mset (\<lambda>r. class_of r = Some i) R))),
      bucket_hole_bytes = tabulate 0 SIZE_BUCKET_COUNT
        (\<lambda>i. \<Sum>r\<in>#filter_mset (\<lambda>r. class_of r = Some i) R. hole_of r)\<rparr>)"

lemma statistics_shard_less: "statistics_shard ptr < ATOMIC_STATISTICS_SHARD_COUNT"
  using unat_live_shard_index [of "statistics_pointer_hash ptr"]
  by (simp add: statistics_shard_def live_shard_index_def ATOMIC_STATISTICS_SHARD_COUNT_def)

lemma bucket_less: "rounded_allocation_size r = Some (s, b) \<Longrightarrow> unat b < SIZE_BUCKET_COUNT"
proof -
  assume r: "rounded_allocation_size r = Some (s, b)"
  show "unat b < SIZE_BUCKET_COUNT"
  proof (cases "unat r \<le> 16384")
    case True
    then obtain s' b' where "rounded_allocation_size r = Some (s', b')"
      "unat b' = class_index (unat (effective r))" "unat (effective r) \<le> 16384"
      using rounded_small [of r] effective_le by metis
    then show ?thesis
      using r class_index_least(1) [of "unat (effective r)"]
      by (force simp: class_counts effective_def unat_gt_0)
  next
    case False
    then show ?thesis
      using r rounded_large_nat [of r] by (auto simp: class_counts)
  qed
qed

lemma event_adds_ok: "\<forall>a\<in>set (event_adds e). add_ok a"
proof -
  have "0 < ATOMIC_STATISTICS_SHARD_COUNT" by (simp add: ATOMIC_STATISTICS_SHARD_COUNT_def)
  then show ?thesis
    by (cases e) (auto simp: success_adds_def failed_adds_def Let_def add_ok_def statistics_shard_less
        bucket_less split: option.splits)
qed

lemma sum_adds:
  fixes g :: "counter_add \<Rightarrow> u64"
  shows "(\<Sum>a\<in>#(\<Sum>e\<in>#E. mset (event_adds e)). g a) = (\<Sum>e\<in>#E. \<Sum>a\<leftarrow>event_adds e. g a)"
  by (induction E) (simp_all add: sum_mset_sum_list [symmetric])

lemma event_sums:
  "(\<Sum>a\<leftarrow>event_adds e. requested_add a) = (if measured_event e then event_requested e else 0)"
  "(\<Sum>a\<leftarrow>event_adds e. failed_add a) = (if e = Failure_event then 1 else 0)"
  "(\<Sum>a\<leftarrow>event_adds e. error_add a) = (if e \<noteq> Failure_event \<and> \<not> measured_event e then 1 else 0)"
  "(\<Sum>a\<leftarrow>event_adds e. bucket_add i a) =
    (if measured_event e \<and> class_of (event_requested e) = Some i then 1 else 0)"
  "(\<Sum>a\<leftarrow>event_adds e. hole_add i a) =
    (if measured_event e \<and> class_of (event_requested e) = Some i then hole_of (event_requested e) else 0)"
  by (cases e; auto simp: success_adds_def failed_adds_def Let_def class_of_def hole_of_def
      split: option.splits)+

lemma measured_class: "measured_event e \<Longrightarrow> \<exists>i<SIZE_BUCKET_COUNT. class_of (event_requested e) = Some i"
  by (cases e) (auto simp: class_of_def bucket_less)

lemma sum_over_classes:
  fixes g :: u64
  shows "(\<Sum>i<SIZE_BUCKET_COUNT. if measured_event e \<and> class_of (event_requested e) = Some i then g else 0) =
    (if measured_event e then g else 0)"
proof (cases "measured_event e")
  case True
  then obtain c where "c < SIZE_BUCKET_COUNT" "class_of (event_requested e) = Some c"
    using measured_class by blast
  with True show ?thesis by (simp add: sum.delta eq_commute [of c])
qed simp

lemma sum_mset_filter:
  fixes g :: "'a \<Rightarrow> 'b::comm_monoid_add"
  shows "(\<Sum>x\<in>#filter_mset P M. g x) = (\<Sum>x\<in>#M. if P x then g x else 0)"
  by (induction M) simp_all

lemma size_filter_sum: "of_nat (size (filter_mset P M)) = (\<Sum>x\<in>#M. if P x then 1 else (0 :: u64))"
  by (induction M) simp_all

lemma sum_mset_swap:
  fixes g :: "nat \<Rightarrow> 'a \<Rightarrow> u64"
  shows "(\<Sum>i<n. \<Sum>x\<in>#M. g i x) = (\<Sum>x\<in>#M. \<Sum>i<n. g i x)"
  by (induction M) (simp_all add: sum.distrib)

lemma if_if_eq_conj: "(if P then if Q then x else y else y) = (if P \<and> Q then x else y)"
  by simp

lemma adds_summary_events:
  "adds_summary (\<Sum>e\<in>#E. mset (event_adds e)) = events_summary E"
proof -
  have R: "(\<Sum>r\<in>#image_mset event_requested (filter_mset measured_event E). g r) =
      (\<Sum>e\<in>#E. if measured_event e then g (event_requested e) else 0)" for g :: "u64 \<Rightarrow> u64"
    by (simp add: sum_mset_filter image_mset.compositionality comp_def)
  have c: "(\<Sum>i<SIZE_BUCKET_COUNT. \<Sum>e\<in>#E. if measured_event e \<and> class_of (event_requested e) = Some i then 1 else 0) =
      (of_nat (size (filter_mset measured_event E)) :: u64)"
    by (simp only: sum_mset_swap sum_over_classes size_filter_sum)
  have a: "(\<Sum>e\<in>#E. if measured_event e then 1 else 0) +
      (\<Sum>e\<in>#E. if e \<noteq> Failure_event \<and> \<not> measured_event e then 1 else (0 :: u64)) =
      (\<Sum>e\<in>#E. if e \<noteq> Failure_event then 1 else 0)"
    by (induction E) auto
  have h: "(\<Sum>i<SIZE_BUCKET_COUNT. \<Sum>e\<in>#E. if measured_event e \<and> class_of (event_requested e) = Some i
        then hole_of (event_requested e) else 0) =
      (\<Sum>e\<in>#E. if measured_event e then hole_of (event_requested e) else 0)"
    by (simp only: sum_mset_swap sum_over_classes)
  have f: "filter_mset (\<lambda>r. class_of r = Some i) (image_mset event_requested (filter_mset measured_event E)) =
      image_mset event_requested (filter_mset (\<lambda>e. measured_event e \<and> class_of (event_requested e) = Some i) E)" for i
    by (induction E) auto
  show ?thesis
    by (simp only: adds_summary_def events_summary_def Let_def sum_adds event_sums c h R a f
        size_image_mset size_filter_sum sum_mset_filter image_mset.compositionality comp_def
        if_if_eq_conj)
qed

subsection \<open>Properties\<close>

text \<open>C8: No update of the sharded statistics is lost or misplaced: however the atomic additions of
  any allocation and failure events are interleaved by the threads, the aggregate
  \<open>load_statistics\<close> computes is the summary of the events, with each measured allocation in the
  bucket of its size class.\<close>

theorem atomic_statistics_exact:
  assumes "mset adds = (\<Sum>e\<in>#E. mset (event_adds e))"
  shows "load_statistics (foldl (\<lambda>st a. atomic_fetch_add a st) clear_statistics adds) = events_summary E"
proof -
  have "\<forall>a\<in>#(\<Sum>e\<in>#E. mset (event_adds e)). add_ok a"
    by (induction E) (use event_adds_ok in auto)
  then have "\<forall>a\<in>set adds. add_ok a"
    by (simp add: assms [symmetric])
  then show ?thesis
    by (simp only: load_adds assms adds_summary_events)
qed

theorem atomic_statistics_exact_witness:
  "hole_bytes (load_statistics (foldl (\<lambda>st a. atomic_fetch_add a st) clear_statistics
    (rev (event_adds (Allocation_event 100 4096) @ event_adds Failure_event)))) = 4"
  using atomic_statistics_exact [of "rev (event_adds (Allocation_event 100 4096) @ event_adds Failure_event)"
      "{#Allocation_event 100 4096, Failure_event#}"]
  by (simp add: events_summary_def hole_of_def rounded_allocation_size_def)

end
