(* ===== verification/CsvText.thy ===== *)
theory CsvText
  imports HoleStats
begin

text \<open>
  The text the hook writes: \<open>append_text\<close> and \<open>append_u64\<close>, which stop at the buffer's capacity,
  the CSV header and the CSV rows. A buffer is the bytes written so far, so its offset is its
  length. The lemmas show that neither the header nor a row is ever cut off by the 16 KiB
  output buffer, that decimal numbers can be read back, and that a row has a value for each
  column of the header.
\<close>

subsection \<open>The model\<close>

definition OUTPUT_BUFFER_CAPACITY :: nat where "OUTPUT_BUFFER_CAPACITY = 16 * 1024"

fun append_text :: "nat \<Rightarrow> string \<Rightarrow> string \<Rightarrow> string" where
  "append_text capacity buffer [] = buffer"
| "append_text capacity buffer (c # text) =
    (if length buffer < capacity then append_text capacity (buffer @ [c]) text else buffer)"

text \<open>The digits of a number, least significant first, as the \<open>do\<close> loop stores them.\<close>

function digits :: "u64 \<Rightarrow> string" where
  "digits v = (let d = char_of (48 + unat (v mod 10)); v = v div 10
               in if v = 0 then [d] else d # digits v)"
  by pat_completeness auto
termination
proof (relation "measure unat")
  show "(x, v) \<in> measure unat" if "d = char_of (48 + unat (v mod 10))" "x = v div 10" "x \<noteq> 0"
    for v x :: u64 and d :: char
    using that by (auto simp: unat_div unat_gt_0 intro!: div_less_dividend)
qed simp

declare digits.simps [simp del]

definition append_u64 :: "nat \<Rightarrow> string \<Rightarrow> u64 \<Rightarrow> string" where
  "append_u64 capacity buffer v = append_text capacity buffer (rev (digits v))"

text \<open>\<open>APPEND_VALUE\<close>.\<close>

definition append_value :: "string \<Rightarrow> u64 \<Rightarrow> string" where
  "append_value buffer v =
    append_text OUTPUT_BUFFER_CAPACITY (append_u64 OUTPUT_BUFFER_CAPACITY buffer v) '',''"

definition append_csv_row ::
  "u64 \<Rightarrow> u64 \<Rightarrow> hole_snapshot \<Rightarrow> hole_snapshot \<Rightarrow> live_snapshot \<Rightarrow> live_snapshot \<Rightarrow> string" where
  "append_csv_row start_ns end_ns period tot live_period live =
    (let buffer = foldl append_value []
          [start_ns, end_ns,
           allocations period, allocations tot,
           measured_allocations period, measured_allocations tot,
           requested_bytes period, requested_bytes tot,
           hole_bytes period, hole_bytes tot,
           failed_allocations period, failed_allocations tot,
           measurement_errors period, measurement_errors tot,
           live_free_events live_period, live_free_events live,
           live_untracked_frees live_period, live_untracked_frees live,
           live_tracking_failures live_period, live_tracking_failures live,
           live_allocations live, live_requested_bytes live,
           live_requested_bytes live + live_hole_bytes live, live_hole_bytes live];
         buffer = foldl (\<lambda>buffer i.
             append_value (append_value buffer (bucket_allocations period ! i)) (bucket_hole_bytes period ! i))
           buffer [0..<SIZE_BUCKET_COUNT];
         buffer = foldl (\<lambda>buffer i.
             let buffer = append_value (append_value buffer (histogram_allocations live ! i))
                            (histogram_requested_bytes live ! i)
             in if i \<ge> LIVE_HISTOGRAM_LARGE_START
                then
                  let buffer = append_u64 OUTPUT_BUFFER_CAPACITY buffer
                        (histogram_4k_hole_bytes live ! (i - LIVE_HISTOGRAM_LARGE_START))
                  in if i + 1 < LIVE_HISTOGRAM_BUCKET_COUNT
                     then append_text OUTPUT_BUFFER_CAPACITY buffer '','' else buffer
                else buffer)
           buffer [0..<LIVE_HISTOGRAM_BUCKET_COUNT]
     in append_text OUTPUT_BUFFER_CAPACITY buffer ''\<newline>'')"

text \<open>The header; the configuration values are arguments, the class tables are the constants.\<close>

definition append_class_list_metadata :: "string \<Rightarrow> string \<Rightarrow> u64 list \<Rightarrow> string" where
  "append_class_list_metadata buffer name classes =
    (let buffer = append_text OUTPUT_BUFFER_CAPACITY buffer '','';
         buffer = append_text OUTPUT_BUFFER_CAPACITY buffer name;
         buffer = append_text OUTPUT_BUFFER_CAPACITY buffer ''=''
     in foldl (\<lambda>buffer i.
          let buffer = (if i \<noteq> 0 then append_text OUTPUT_BUFFER_CAPACITY buffer ''|'' else buffer)
          in append_u64 OUTPUT_BUFFER_CAPACITY buffer (classes ! i)) buffer [0..<length classes])"

definition append_histogram_class :: "string \<Rightarrow> nat \<Rightarrow> string" where
  "append_histogram_class buffer i =
    (if i < LIVE_HISTOGRAM_EXPLICIT_CLASS_COUNT
     then append_u64 OUTPUT_BUFFER_CAPACITY buffer (live_histogram_size_classes ! i)
     else append_text OUTPUT_BUFFER_CAPACITY buffer ''262144_plus'')"

definition append_csv_header :: "u64 \<Rightarrow> u64 \<Rightarrow> u64 \<Rightarrow> bool \<Rightarrow> u64 \<Rightarrow> u64 \<Rightarrow> string" where
  "append_csv_header clock_check_every live_table_capacity sample_rate table_ready pid interval_seconds =
    (let text = append_text OUTPUT_BUFFER_CAPACITY; number = append_u64 OUTPUT_BUFFER_CAPACITY;
         buffer = text [] (''#mini_malloc_hole_v11,mode=atomic_sharded_opportunistic,'' @
           ''clock=monotonic,initial_snapshot=1,'' @ ''no_tls=1,no_writer=1,clock_check_every='');
         buffer = number buffer clock_check_every;
         buffer = text buffer ('',scope=post_process_start,inherited_allocations=excluded,'' @
           ''comparison_rules=mini160|dfmalloc1.0|dfmalloc2.0|jemalloc,'' @
           ''comparison_mode=postprocess_live_histogram,'' @ ''comparison_fallback=4K,'' @
           ''jemalloc_last_explicit_class=262144,'' @ ''live_values='');
         buffer = text buffer (if sample_rate = 1 then ''exact'' else ''estimated'');
         buffer = text buffer ('',live_table=sharded_open_addressing,'' @ ''live_table_capacity='');
         buffer = number buffer live_table_capacity;
         buffer = text buffer '',live_table_max_probes='';
         buffer = number buffer (of_nat LIVE_TABLE_MAX_PROBES);
         buffer = text buffer '',live_sample_rate='';
         buffer = number buffer sample_rate;
         buffer = text buffer '',live_table_ready='';
         buffer = number buffer (if table_ready then 1 else 0);
         buffer = text buffer '',unit=byte,pid='';
         buffer = number buffer pid;
         buffer = text buffer '',interval_seconds='';
         buffer = number buffer interval_seconds;
         buffer = append_class_list_metadata buffer ''dfmalloc1_classes'' dfmalloc1_size_classes;
         buffer = append_class_list_metadata buffer ''dfmalloc2_classes'' dfmalloc2_size_classes;
         buffer = append_class_list_metadata buffer ''jemalloc_classes'' jemalloc_size_classes;
         buffer = append_class_list_metadata buffer ''live_histogram_classes'' live_histogram_size_classes;
         buffer = text buffer '',size_classes='';
         buffer = foldl (\<lambda>buffer i.
             let buffer = (if i \<noteq> 0 then text buffer ''|'' else buffer)
             in number buffer (small_size_class_at (of_nat i))) buffer [0..<SMALL_SIZE_CLASS_COUNT];
         buffer = text buffer (''|4K+\<newline>'' @ ''start_ns,end_ns,'' @ ''period_alloc,total_alloc,'' @
           ''period_measured,total_measured,'' @ ''period_requested,total_requested,'' @
           ''period_hole,total_hole,'' @ ''period_failed,total_failed,'' @
           ''period_measure_error,total_measure_error,'' @ ''period_free,total_free,'' @
           ''period_untracked_free,total_untracked_free,'' @
           ''period_live_track_failed,total_live_track_failed,'' @
           ''live_alloc,live_requested,live_allocated,live_hole'');
         buffer = foldl (\<lambda>buffer i.
             let buffer = text buffer '',count_'';
                 buffer = number buffer (small_size_class_at (of_nat i));
                 buffer = text buffer '',hole_''
             in number buffer (small_size_class_at (of_nat i))) buffer [0..<SMALL_SIZE_CLASS_COUNT];
         buffer = text buffer '',count_4K_plus,hole_4K_plus'';
         buffer = foldl (\<lambda>buffer i.
             let buffer = text buffer '',live_hist_count_'';
                 buffer = append_histogram_class buffer i;
                 buffer = text buffer '',live_hist_requested_'';
                 buffer = append_histogram_class buffer i
             in if i \<ge> LIVE_HISTOGRAM_LARGE_START
                then append_histogram_class (text buffer '',live_hist_4k_hole_'') i
                else buffer) buffer [0..<LIVE_HISTOGRAM_BUCKET_COUNT]
     in text buffer ''\<newline>'')"

subsection \<open>Decimal numbers and truncation\<close>

definition decimal :: "u64 \<Rightarrow> string" where
  "decimal v = rev (digits v)"

text \<open>Appending never moves what is already written and stops exactly at the capacity.\<close>

lemma append_text_take: "append_text n (take n buf) t = take n (buf @ t)"
proof (induction t arbitrary: buf)
  case (Cons c t)
  show ?case
  proof (cases "length buf < n")
    case True
    then have "take n (buf @ [c]) = take n buf @ [c]" by simp
    then show ?thesis
      using Cons.IH [of "buf @ [c]"] True by simp
  next
    case False
    then show ?thesis by simp
  qed
qed simp

lemma append_u64_take: "append_u64 n (take n buf) v = take n (buf @ decimal v)"
  by (simp add: append_u64_def append_text_take decimal_def)

definition cells :: "u64 list \<Rightarrow> string" where
  "cells vs = concat (map (\<lambda>v. decimal v @ '','') vs)"

lemma append_value_take:
  "append_value (take OUTPUT_BUFFER_CAPACITY buf) v = take OUTPUT_BUFFER_CAPACITY (buf @ cells [v])"
  by (simp add: append_value_def append_u64_take append_text_take cells_def)

lemma cells_append: "cells (us @ vs) = cells us @ cells vs"
  by (simp add: cells_def)

lemma foldl_append_value_take:
  "foldl append_value (take OUTPUT_BUFFER_CAPACITY buf) vs = take OUTPUT_BUFFER_CAPACITY (buf @ cells vs)"
proof (induction vs arbitrary: buf)
  case (Cons v vs)
  then show ?case
    using cells_append [of "[v]" vs] by (simp add: append_value_take del: take_append)
qed (simp add: cells_def)

lemma char_of_digit: "d < 10 \<Longrightarrow> (of_char (char_of (48 + d) :: char) :: nat) = 48 + d"
  by simp

text \<open>Reading a number back.\<close>

definition read_decimal :: "string \<Rightarrow> nat" where
  "read_decimal s = foldl (\<lambda>n c. n * 10 + (of_char c - 48)) 0 s"

lemma read_digits: "foldr (\<lambda>c n. n * 10 + (of_char c - 48)) (digits v) 0 = unat v"
proof (induction v rule: digits.induct)
  case (1 v)
  have "unat v mod 10 < 10" by simp
  then have d: "(of_char (char_of (48 + unat (v mod 10)) :: char) :: nat) = 48 + unat v mod 10"
    by (simp add: unat_mod)
  show ?case
  proof (cases "v div 10 = 0")
    case True
    then have "unat v div 10 = 0"
      using unat_div [of v "10 :: u64"] by simp
    then have "unat v mod 10 = unat v" by simp
    with True d show ?thesis by (simp add: digits.simps [of v] Let_def)
  next
    case False
    with 1 d show ?thesis
      by (simp add: digits.simps [of v] Let_def unat_div)
  qed
qed

lemma read_decimal_decimal: "read_decimal (decimal v) = unat v"
  by (simp add: read_decimal_def decimal_def foldl_conv_foldr read_digits)

lemma digit_char: "d < 10 \<Longrightarrow> char_of (48 + d :: nat) \<in> set ''0123456789''"
proof -
  assume "d < 10"
  then have "d = 0 \<or> d = 1 \<or> d = 2 \<or> d = 3 \<or> d = 4 \<or> d = 5 \<or> d = 6 \<or> d = 7 \<or> d = 8 \<or> d = 9"
    by presburger
  then show ?thesis
    by (elim disjE) (simp_all add: char_of_def bit_0)
qed

lemma unat_mod_10: "unat (v mod 10 :: u64) < 10"
  by (simp add: unat_mod)

lemma digits_chars: "set (digits v) \<subseteq> set ''0123456789'' \<and> digits v \<noteq> []"
proof (induction v rule: digits.induct)
  case (1 v)
  then show ?case
    using digit_char [OF unat_mod_10 [of v]] by (simp add: digits.simps [of v] Let_def)
qed

lemma div_10_nonzero: "v div 10 \<noteq> (0 :: u64) \<Longrightarrow> 10 \<le> unat v"
proof -
  assume "v div 10 \<noteq> 0"
  then have "unat (v div 10) \<noteq> 0" by (metis unat_eq_zero)
  then have "unat v div 10 \<noteq> 0" by (simp add: unat_div)
  then show "10 \<le> unat v" by simp
qed

lemma digits_length: "unat v < 10 ^ k \<Longrightarrow> 0 < k \<Longrightarrow> length (digits v) \<le> k"
proof (induction v arbitrary: k rule: digits.induct)
  case (1 v)
  show ?case
  proof (cases "v div 10 = 0")
    case True
    with 1(3) show ?thesis by (simp add: digits.simps [of v] Let_def)
  next
    case False
    obtain k' where k: "k = Suc k'"
      using 1(3) gr0_conv_Suc by blast
    have k0: "0 < k'"
      using div_10_nonzero [OF False] 1(2) k by (cases k') simp_all
    have "unat (v div 10) < 10 ^ k'"
      using 1(2) k by (simp add: unat_div div_less_iff_less_mult mult.commute)
    from 1(1) [OF refl refl False this k0] False k show ?thesis
      by (simp add: digits.simps [of v] Let_def)
  qed
qed

lemma decimal_length: "length (decimal v) \<le> 20"
proof -
  have "unat v < 10 ^ 20"
    using unsigned_less [where 'a = nat, of v] by simp
  then show ?thesis using digits_length [of v 20] by (simp add: decimal_def)
qed

lemma decimal_no_comma: "CHR '','' \<notin> set (decimal v) \<and> CHR 0x0A \<notin> set (decimal v)"
  using digits_chars [of v] by (auto simp: decimal_def)

subsection \<open>Rows\<close>

text \<open>Values separated by commas.\<close>

fun comma_join :: "string list \<Rightarrow> string" where
  "comma_join [] = []"
| "comma_join [s] = s"
| "comma_join (s # t # ss) = s @ '','' @ comma_join (t # ss)"

lemma comma_join_snoc: "comma_join (map decimal (vs @ [v])) = cells vs @ decimal v"
proof (induction vs)
  case (Cons u vs)
  then show ?case by (cases "vs @ [v]") (auto simp: cells_def)
qed (simp add: cells_def)

text \<open>The values of a row, in column order.\<close>

definition histogram_cells :: "live_snapshot \<Rightarrow> nat \<Rightarrow> u64 list" where
  "histogram_cells live i = [histogram_allocations live ! i, histogram_requested_bytes live ! i] @
       (if 164 \<le> i then [histogram_4k_hole_bytes live ! (i - 164)] else [])"

definition row_values ::
  "u64 \<Rightarrow> u64 \<Rightarrow> hole_snapshot \<Rightarrow> hole_snapshot \<Rightarrow> live_snapshot \<Rightarrow> live_snapshot \<Rightarrow> u64 list" where
  "row_values start_ns end_ns period tot live_period live =
     [start_ns, end_ns,
      allocations period, allocations tot,
      measured_allocations period, measured_allocations tot,
      requested_bytes period, requested_bytes tot,
      hole_bytes period, hole_bytes tot,
      failed_allocations period, failed_allocations tot,
      measurement_errors period, measurement_errors tot,
      live_free_events live_period, live_free_events live,
      live_untracked_frees live_period, live_untracked_frees live,
      live_tracking_failures live_period, live_tracking_failures live,
      live_allocations live, live_requested_bytes live,
      live_requested_bytes live + live_hole_bytes live, live_hole_bytes live] @
     concat (map (\<lambda>i. [bucket_allocations period ! i, bucket_hole_bytes period ! i]) [0..<161]) @
     concat (map (histogram_cells live) [0..<177])"

lemma foldl_cells_take:
  assumes "\<And>buf i. i \<in> set is \<Longrightarrow> step (take OUTPUT_BUFFER_CAPACITY buf) i =
    take OUTPUT_BUFFER_CAPACITY (buf @ cells (g i))"
  shows "foldl step (take OUTPUT_BUFFER_CAPACITY buf) is =
    take OUTPUT_BUFFER_CAPACITY (buf @ cells (concat (map g is)))"
  using assms
proof (induction "is" arbitrary: buf)
  case (Cons i "is")
  then show ?case by (simp add: cells_append del: take_append)
qed (simp add: cells_def)

lemma cells_pair: "cells [u, v] = cells [u] @ cells [v]" "cells (u # v # w) = cells [u, v] @ cells w"
  by (simp_all add: cells_def)

lemma foldl_pair_take:
  "append_value (append_value (take OUTPUT_BUFFER_CAPACITY buf) u) v =
    take OUTPUT_BUFFER_CAPACITY (buf @ cells [u, v])"
  by (simp add: append_value_take cells_pair(1) del: take_append)

lemma row_values_split:
  "row_values start_ns end_ns period tot live_period live =
    take 24 (row_values start_ns end_ns period tot live_period live) @
    concat (map (\<lambda>i. [bucket_allocations period ! i, bucket_hole_bytes period ! i]) [0..<161]) @
    concat (map (histogram_cells live) [0..<176]) @
    [histogram_allocations live ! 176, histogram_requested_bytes live ! 176] @
    [histogram_4k_hole_bytes live ! 12]"
proof -
  have "[0..<177] = [0..<176] @ [176::nat]"
    using upt_Suc_append [of 0 176] by simp
  then show ?thesis
    by (simp add: row_values_def del: upt_Suc upt_rec_numeral) (simp add: histogram_cells_def)
qed

lemma append_csv_row_take:
  "append_csv_row start_ns end_ns period tot live_period live =
    take OUTPUT_BUFFER_CAPACITY
      (comma_join (map decimal (row_values start_ns end_ns period tot live_period live)) @ ''\<newline>'')"
proof -
  let ?C = OUTPUT_BUFFER_CAPACITY
  let ?vs = "take 24 (row_values start_ns end_ns period tot live_period live)"
  define step where "step = (\<lambda>buffer i.
             let buffer = append_value (append_value buffer (histogram_allocations live ! i))
                            (histogram_requested_bytes live ! i)
             in if i \<ge> LIVE_HISTOGRAM_LARGE_START
                then
                  let buffer = append_u64 OUTPUT_BUFFER_CAPACITY buffer
                        (histogram_4k_hole_bytes live ! (i - LIVE_HISTOGRAM_LARGE_START))
                  in if i + 1 < LIVE_HISTOGRAM_BUCKET_COUNT
                     then append_text OUTPUT_BUFFER_CAPACITY buffer '','' else buffer
                else buffer)"
  have step: "step (take ?C buf) i = take ?C (buf @ cells (histogram_cells live i))" if "i < 176" for buf i
    using that
    by (simp add: step_def Let_def foldl_pair_take histogram_cells_def append_u64_take append_text_take
        class_counts cells_def del: take_append append_text.simps)
  have last: "step (take ?C buf) 176 = take ?C (buf @
      cells [histogram_allocations live ! 176, histogram_requested_bytes live ! 176] @
      decimal (histogram_4k_hole_bytes live ! 12))" for buf
    by (simp add: step_def Let_def foldl_pair_take append_u64_take class_counts del: take_append append_text.simps)
  have snoc: "row_values start_ns end_ns period tot live_period live =
      (?vs @ concat (map (\<lambda>i. [bucket_allocations period ! i, bucket_hole_bytes period ! i]) [0..<161]) @
       concat (map (histogram_cells live) [0..<176]) @
       [histogram_allocations live ! 176, histogram_requested_bytes live ! 176]) @
      [histogram_4k_hole_bytes live ! 12]"
    unfolding append_assoc by (rule row_values_split)
  have join: "comma_join (map decimal (row_values start_ns end_ns period tot live_period live)) =
      cells ?vs @ cells (concat (map (\<lambda>i. [bucket_allocations period ! i, bucket_hole_bytes period ! i]) [0..<161])) @
      cells (concat (map (histogram_cells live) [0..<176])) @
      cells [histogram_allocations live ! 176, histogram_requested_bytes live ! 176] @
      decimal (histogram_4k_hole_bytes live ! 12)"
    by (subst snoc, subst comma_join_snoc) (simp only: cells_append append_assoc)
  have upt: "[0..<LIVE_HISTOGRAM_BUCKET_COUNT] = [0..<176] @ [176::nat]"
    using upt_Suc_append [of 0 176] by (simp add: class_counts)
  have "append_csv_row start_ns end_ns period tot live_period live = append_text ?C
      (foldl step (foldl (\<lambda>buffer i. append_value (append_value buffer (bucket_allocations period ! i))
          (bucket_hole_bytes period ! i)) (foldl append_value [] ?vs) [0..<SIZE_BUCKET_COUNT])
        [0..<LIVE_HISTOGRAM_BUCKET_COUNT]) ''\<newline>''"
    unfolding append_csv_row_def step_def row_values_def by (simp only: Let_def) simp
  also have "foldl append_value [] ?vs = take ?C (cells ?vs)"
    using foldl_append_value_take [of "[]" ?vs] by simp
  also have "foldl (\<lambda>buffer i. append_value (append_value buffer (bucket_allocations period ! i))
          (bucket_hole_bytes period ! i)) (take ?C (cells ?vs)) [0..<SIZE_BUCKET_COUNT] =
      take ?C (cells ?vs @ cells (concat (map (\<lambda>i. [bucket_allocations period ! i, bucket_hole_bytes period ! i])
        [0..<161])))" (is "_ = take ?C ?row")
    by (subst foldl_cells_take) (simp_all add: foldl_pair_take class_counts del: take_append)
  also have "foldl step (take ?C ?row) [0..<LIVE_HISTOGRAM_BUCKET_COUNT] =
      step (take ?C (?row @ cells (concat (map (histogram_cells live) [0..<176])))) 176"
    unfolding upt foldl_append by (subst foldl_cells_take) (simp_all add: step del: take_append)
  finally show ?thesis
    unfolding last append_text_take join by (simp only: append_assoc)
qed

lemma length_concat_pairs: "length (concat (map (\<lambda>i. [f i, g i]) xs)) = 2 * length xs"
  by (induction xs) simp_all

lemma row_values_length: "length (row_values start_ns end_ns period tot live_period live) = 713"
proof -
  have "[0..<177] = [0..<164] @ [164::nat..<177]"
    using upt_add_eq_append [of 0 164 13] by simp
  moreover have "length (concat (map (histogram_cells live) [0..<164])) = 328"
  proof -
    have eq: "map (histogram_cells live) [0..<164] =
        map (\<lambda>i. [histogram_allocations live ! i, histogram_requested_bytes live ! i]) [0..<164]"
      by (simp add: histogram_cells_def del: upt_rec_numeral)
    show ?thesis unfolding eq by (simp add: length_concat_pairs del: upt_rec_numeral)
  qed
  moreover have "length (concat (map (histogram_cells live) [164..<177])) = 39"
    by (simp add: histogram_cells_def)
  ultimately show ?thesis
    by (simp add: row_values_def length_concat_pairs del: upt_rec_numeral)
qed

lemma comma_join_length:
  "\<forall>s\<in>set ss. length s \<le> n \<Longrightarrow> length (comma_join ss) \<le> length ss * (n + 1)"
  by (induction ss rule: comma_join.induct) auto

lemma row_fits:
  "append_csv_row start_ns end_ns period tot live_period live =
    comma_join (map decimal (row_values start_ns end_ns period tot live_period live)) @ ''\<newline>''"
proof -
  have "length (comma_join (map decimal (row_values start_ns end_ns period tot live_period live))) \<le> 713 * 21"
    using comma_join_length [of "map decimal (row_values start_ns end_ns period tot live_period live)" 20]
    by (simp add: decimal_length row_values_length)
  then show ?thesis
    by (simp add: append_csv_row_take OUTPUT_BUFFER_CAPACITY_def)
qed

text \<open>Splitting at a separator.\<close>

fun split_on :: "char \<Rightarrow> string \<Rightarrow> string list" where
  "split_on d [] = [[]]"
| "split_on d (c # s) =
    (if c = d then [] # split_on d s
     else case split_on d s of t # ts \<Rightarrow> (c # t) # ts | [] \<Rightarrow> [[c]])"

lemma split_on_prefix:
  assumes "d \<notin> set s"
  shows "split_on d (s @ d # t) = s # split_on d t" and "split_on d s = [s]"
  using assms by (induction s) auto

lemma split_comma_join:
  assumes "\<forall>s\<in>set ss. CHR '','' \<notin> set s" and "ss \<noteq> []"
  shows "split_on (CHR '','') (comma_join ss) = ss"
  using assms by (induction ss rule: comma_join.induct) (simp_all add: split_on_prefix)

lemma comma_join_chars: "set (comma_join ss) \<subseteq> insert (CHR '','') (\<Union>s\<in>set ss. set s)"
  by (induction ss rule: comma_join.induct) auto

subsection \<open>The header\<close>

definition piped :: "u64 list \<Rightarrow> string" where
  "piped vs = concat (map (\<lambda>i. (if i \<noteq> 0 then ''|'' else []) @ decimal (vs ! i)) [0..<length vs])"

definition small_classes :: "u64 list" where
  "small_classes = map (\<lambda>i. small_size_class_at (of_nat i)) [0..<160]"

definition histogram_class_name :: "nat \<Rightarrow> string" where
  "histogram_class_name i =
    (if i < 176 then decimal (live_histogram_size_classes ! i) else ''262144_plus'')"

lemma foldl_text_take:
  assumes "\<And>buf i. i \<in> set is \<Longrightarrow> step (take OUTPUT_BUFFER_CAPACITY buf) i =
    take OUTPUT_BUFFER_CAPACITY (buf @ g i)"
  shows "foldl step (take OUTPUT_BUFFER_CAPACITY buf) is =
    take OUTPUT_BUFFER_CAPACITY (buf @ concat (map g is))"
  using assms by (induction "is" arbitrary: buf) (simp_all del: take_append)

lemma append_class_list_take:
  "append_class_list_metadata (take OUTPUT_BUFFER_CAPACITY buf) name classes =
    take OUTPUT_BUFFER_CAPACITY (buf @ '','' @ name @ ''='' @ piped classes)"
  unfolding append_class_list_metadata_def Let_def append_text_take
  by (subst foldl_text_take [where g = "\<lambda>i. (if i \<noteq> 0 then ''|'' else []) @ decimal (classes ! i)"])
    (simp_all add: append_text_take append_u64_take piped_def del: take_append append_text.simps)

lemma append_histogram_class_take:
  "append_histogram_class (take OUTPUT_BUFFER_CAPACITY buf) i =
    take OUTPUT_BUFFER_CAPACITY (buf @ histogram_class_name i)"
  by (simp add: append_histogram_class_def histogram_class_name_def append_text_take append_u64_take
      class_counts del: take_append append_text.simps)

text \<open>The names of the columns, in order.\<close>

definition column_names :: "string list" where
  "column_names =
    [''start_ns'', ''end_ns'', ''period_alloc'', ''total_alloc'', ''period_measured'', ''total_measured'',
     ''period_requested'', ''total_requested'', ''period_hole'', ''total_hole'', ''period_failed'',
     ''total_failed'', ''period_measure_error'', ''total_measure_error'', ''period_free'', ''total_free'',
     ''period_untracked_free'', ''total_untracked_free'', ''period_live_track_failed'',
     ''total_live_track_failed'', ''live_alloc'', ''live_requested'', ''live_allocated'', ''live_hole''] @
    concat (map (\<lambda>i. [''count_'' @ decimal (small_classes ! i), ''hole_'' @ decimal (small_classes ! i)]) [0..<160]) @
    [''count_4K_plus'', ''hole_4K_plus''] @
    concat (map (\<lambda>i. [''live_hist_count_'' @ histogram_class_name i,
        ''live_hist_requested_'' @ histogram_class_name i] @
      (if 164 \<le> i then [''live_hist_4k_hole_'' @ histogram_class_name i] else [])) [0..<177])"

definition header_metadata :: "u64 \<Rightarrow> u64 \<Rightarrow> u64 \<Rightarrow> bool \<Rightarrow> u64 \<Rightarrow> u64 \<Rightarrow> string" where
  "header_metadata clock_check_every live_table_capacity sample_rate table_ready pid interval_seconds =
    ''#mini_malloc_hole_v11,mode=atomic_sharded_opportunistic,'' @
    ''clock=monotonic,initial_snapshot=1,'' @ ''no_tls=1,no_writer=1,clock_check_every='' @
    decimal clock_check_every @ '',scope=post_process_start,inherited_allocations=excluded,'' @
    ''comparison_rules=mini160|dfmalloc1.0|dfmalloc2.0|jemalloc,'' @
    ''comparison_mode=postprocess_live_histogram,'' @ ''comparison_fallback=4K,'' @
    ''jemalloc_last_explicit_class=262144,'' @ ''live_values='' @
    (if sample_rate = 1 then ''exact'' else ''estimated'') @
    '',live_table=sharded_open_addressing,'' @ ''live_table_capacity='' @ decimal live_table_capacity @
    '',live_table_max_probes='' @ decimal (of_nat LIVE_TABLE_MAX_PROBES) @
    '',live_sample_rate='' @ decimal sample_rate @
    '',live_table_ready='' @ decimal (if table_ready then 1 else 0) @
    '',unit=byte,pid='' @ decimal pid @ '',interval_seconds='' @ decimal interval_seconds @
    '','' @ ''dfmalloc1_classes'' @ ''='' @ piped dfmalloc1_size_classes @
    '','' @ ''dfmalloc2_classes'' @ ''='' @ piped dfmalloc2_size_classes @
    '','' @ ''jemalloc_classes'' @ ''='' @ piped jemalloc_size_classes @
    '','' @ ''live_histogram_classes'' @ ''='' @ piped live_histogram_size_classes @
    '',size_classes='' @ piped small_classes @ ''|4K+''"

lemma comma_join_Cons: "comma_join (s # ss) = s @ concat (map (\<lambda>t. '','' @ t) ss)"
  by (induction ss arbitrary: s) simp_all

lemma commas_concat:
  "concat (map (\<lambda>s. '','' @ s) (concat (map g xs))) = concat (map (\<lambda>i. concat (map (\<lambda>s. '','' @ s) (g i))) xs)"
  by (induction xs) simp_all

lemma sizes_take:
  "foldl (\<lambda>buffer i.
      append_u64 OUTPUT_BUFFER_CAPACITY
        (if i \<noteq> 0 then append_text OUTPUT_BUFFER_CAPACITY buffer ''|'' else buffer)
        (small_size_class_at (of_nat i))) (take OUTPUT_BUFFER_CAPACITY buf) [0..<SMALL_SIZE_CLASS_COUNT] =
    take OUTPUT_BUFFER_CAPACITY (buf @ piped small_classes)"
proof -
  have "length small_classes = 160" and
    nth: "i < 160 \<Longrightarrow> small_classes ! i = small_size_class_at (of_nat i)" for i
    by (simp_all add: small_classes_def del: upt_rec_numeral)
  then show ?thesis
    unfolding piped_def
    by (subst foldl_text_take [where g = "\<lambda>i. (if i \<noteq> 0 then ''|'' else []) @ decimal (small_classes ! i)"])
      (simp_all add: append_text_take append_u64_take class_counts del: take_append append_text.simps upt_rec_numeral)
qed

lemma columns_take:
  "foldl (\<lambda>buffer i.
      append_u64 OUTPUT_BUFFER_CAPACITY
        (append_text OUTPUT_BUFFER_CAPACITY
          (append_u64 OUTPUT_BUFFER_CAPACITY (append_text OUTPUT_BUFFER_CAPACITY buffer '',count_'')
            (small_size_class_at (of_nat i))) '',hole_'')
        (small_size_class_at (of_nat i))) (take OUTPUT_BUFFER_CAPACITY buf) [0..<SMALL_SIZE_CLASS_COUNT] =
    take OUTPUT_BUFFER_CAPACITY (buf @ concat (map (\<lambda>s. '','' @ s) (concat (map (\<lambda>i.
      [''count_'' @ decimal (small_classes ! i), ''hole_'' @ decimal (small_classes ! i)]) [0..<160]))))"
proof -
  have nth: "i < 160 \<Longrightarrow> small_classes ! i = small_size_class_at (of_nat i)" for i
    by (simp add: small_classes_def del: upt_rec_numeral)
  show ?thesis
    unfolding commas_concat class_counts
    by (rule foldl_text_take)
      (simp add: append_text_take append_u64_take nth del: take_append append_text.simps upt_rec_numeral)
qed

lemma histogram_take:
  "foldl (\<lambda>buffer i.
      if LIVE_HISTOGRAM_LARGE_START \<le> i
      then append_histogram_class (append_text OUTPUT_BUFFER_CAPACITY
        (append_histogram_class (append_text OUTPUT_BUFFER_CAPACITY
          (append_histogram_class (append_text OUTPUT_BUFFER_CAPACITY buffer '',live_hist_count_'') i)
          '',live_hist_requested_'') i) '',live_hist_4k_hole_'') i
      else append_histogram_class (append_text OUTPUT_BUFFER_CAPACITY
          (append_histogram_class (append_text OUTPUT_BUFFER_CAPACITY buffer '',live_hist_count_'') i)
          '',live_hist_requested_'') i)
    (take OUTPUT_BUFFER_CAPACITY buf) [0..<LIVE_HISTOGRAM_BUCKET_COUNT] =
    take OUTPUT_BUFFER_CAPACITY (buf @ concat (map (\<lambda>s. '','' @ s) (concat (map (\<lambda>i.
      [''live_hist_count_'' @ histogram_class_name i, ''live_hist_requested_'' @ histogram_class_name i] @
      (if 164 \<le> i then [''live_hist_4k_hole_'' @ histogram_class_name i] else [])) [0..<177]))))"
proof -
  have n: "LIVE_HISTOGRAM_BUCKET_COUNT = 177" "LIVE_HISTOGRAM_LARGE_START = 164"
    by (simp_all add: class_counts)
  show ?thesis
    unfolding commas_concat n
    by (rule foldl_text_take)
      (simp add: append_text_take append_histogram_class_take del: take_append append_text.simps upt_rec_numeral)
qed

lemma append_csv_header_take:
  "append_csv_header cce cap rate ready pid iv = take OUTPUT_BUFFER_CAPACITY
    (header_metadata cce cap rate ready pid iv @ ''\<newline>'' @ comma_join column_names @ ''\<newline>'')"
proof -
  have start: "append_text OUTPUT_BUFFER_CAPACITY [] t = take OUTPUT_BUFFER_CAPACITY t" for t
    using append_text_take [of OUTPUT_BUFFER_CAPACITY "[]" t] by simp
  have names: "comma_join column_names =
    (''start_ns,end_ns,'' @ ''period_alloc,total_alloc,'' @
           ''period_measured,total_measured,'' @ ''period_requested,total_requested,'' @
           ''period_hole,total_hole,'' @ ''period_failed,total_failed,'' @
           ''period_measure_error,total_measure_error,'' @ ''period_free,total_free,'' @
           ''period_untracked_free,total_untracked_free,'' @
           ''period_live_track_failed,total_live_track_failed,'' @
           ''live_alloc,live_requested,live_allocated,live_hole'') @
    concat (map (\<lambda>s. '','' @ s) (concat (map (\<lambda>i.
      [''count_'' @ decimal (small_classes ! i), ''hole_'' @ decimal (small_classes ! i)]) [0..<160]))) @
    '',count_4K_plus,hole_4K_plus'' @
    concat (map (\<lambda>s. '','' @ s) (concat (map (\<lambda>i.
      [''live_hist_count_'' @ histogram_class_name i, ''live_hist_requested_'' @ histogram_class_name i] @
      (if 164 \<le> i then [''live_hist_4k_hole_'' @ histogram_class_name i] else [])) [0..<177])))"
    by (simp add: column_names_def comma_join_Cons del: upt_rec_numeral)
  show ?thesis
    unfolding append_csv_header_def Let_def start
    by (simp only: append_text_take append_u64_take append_class_list_take sizes_take columns_take
        histogram_take names header_metadata_def append_assoc append_Cons append_Nil)
qed

text \<open>The length of the header: at most six digits for a class, at most twenty for the other
  numbers.\<close>

definition width :: "u64 \<Rightarrow> nat" where
  "width v = (if v < 10 then 1 else if v < 100 then 2 else if v < 1000 then 3
    else if v < 10000 then 4 else if v < 100000 then 5 else if v < 1000000 then 6 else 20)"

lemma decimal_width: "length (decimal v) \<le> width v"
  using digits_length [of v 1] digits_length [of v 2] digits_length [of v 3] digits_length [of v 4]
    digits_length [of v 5] digits_length [of v 6] decimal_length [of v]
  by (simp add: width_def decimal_def word_less_nat_alt)

lemma length_concat_le:
  "(\<And>x. x \<in> set xs \<Longrightarrow> length (f x) \<le> g x) \<Longrightarrow> length (concat (map f xs)) \<le> sum_list (map g xs)"
  by (induction xs) (simp_all add: add_mono)

lemma piped_length: "length (piped vs) \<le> sum_list (map width vs) + length vs"
proof -
  have "length (piped vs) \<le> sum_list (map (\<lambda>i. width (vs ! i) + 1) [0..<length vs])"
    unfolding piped_def by (rule length_concat_le) (auto intro: le_SucI decimal_width)
  also have "\<dots> = sum_list (map (\<lambda>v. width v + 1) (map ((!) vs) [0..<length vs]))"
    by (simp add: comp_def)
  finally show ?thesis by (simp add: map_nth sum_list_Suc)
qed

lemma widths:
  "sum_list (map width dfmalloc1_size_classes) \<le> 182" "length dfmalloc1_size_classes = 49"
  "sum_list (map width dfmalloc2_size_classes) \<le> 117" "length dfmalloc2_size_classes = 36"
  "sum_list (map width jemalloc_size_classes) \<le> 190" "length jemalloc_size_classes = 49"
  "sum_list (map width live_histogram_size_classes) \<le> 668"
  by (simp_all add: width_def dfmalloc1_size_classes_def dfmalloc2_size_classes_def
      jemalloc_size_classes_def live_histogram_size_classes_def)

lemma small_widths: "sum_list (map width small_classes) = 589"
proof -
  have w: "width v = (if unat v < 10 then 1 else if unat v < 100 then 2 else if unat v < 1000 then 3
    else if unat v < 10000 then 4 else if unat v < 100000 then 5 else if unat v < 1000000 then 6 else 20)" for v
    by (simp add: width_def word_less_nat_alt)
  have "map width small_classes = map (\<lambda>i. (let v = class_at i in if v < 10 then 1 else if v < 100 then 2
      else if v < 1000 then 3 else if v < 10000 then 4 else if v < 100000 then 5 else if v < 1000000 then 6 else 20)) [0..<160]"
    by (simp add: small_classes_def w small_size_class_at_nat Let_def del: upt_rec_numeral)
  moreover have "[0..<160] = 0 # 1 # [2..<160::nat]"
    by (simp add: upt_rec)
  ultimately show ?thesis
    by (simp add: class_at_def)
qed

lemma concat_nth: "concat (map (\<lambda>i. f (xs ! i)) [0..<length xs]) = concat (map f xs)"
  by (metis map_map map_nth comp_apply map_cong)

lemma small_classes_length: "length small_classes = 160"
  by (simp add: small_classes_def)

lemma size_columns_length:
  "length (concat (map (\<lambda>s. '','' @ s) (concat (map (\<lambda>i.
      [''count_'' @ decimal (small_classes ! i), ''hole_'' @ decimal (small_classes ! i)]) [0..<160])))) \<le> 3258"
proof -
  have "length (concat (map (\<lambda>v. concat (map (\<lambda>s. '','' @ s) [''count_'' @ decimal v, ''hole_'' @ decimal v]))
      small_classes)) \<le> sum_list (map (\<lambda>v. 13 + (width v + width v)) small_classes)"
    by (rule length_concat_le) (simp add: add_mono decimal_width flip: mult_2)
  also have "\<dots> = 13 * 160 + (589 + 589)"
    by (simp only: sum_list_addf sum_list_triv small_widths small_classes_length) simp
  finally show ?thesis
    unfolding commas_concat
    using concat_nth [of "\<lambda>v. concat (map (\<lambda>s. '','' @ s) [''count_'' @ decimal v, ''hole_'' @ decimal v])" small_classes]
    by (simp only: small_classes_length)
qed

lemma class_name_length: "i < 176 \<Longrightarrow> length (histogram_class_name i) \<le> width (live_histogram_size_classes ! i)"
  by (simp add: histogram_class_name_def decimal_width)

lemma histogram_columns_length:
  "length (concat (map (\<lambda>s. '','' @ s) (concat (map (\<lambda>i.
      [''live_hist_count_'' @ histogram_class_name i, ''live_hist_requested_'' @ histogram_class_name i] @
      (if 164 \<le> i then [''live_hist_4k_hole_'' @ histogram_class_name i] else [])) [0..<177])))) \<le> 8803"
proof -
  let ?c = "\<lambda>i. concat (map (\<lambda>s. '','' @ s)
      ([''live_hist_count_'' @ histogram_class_name i, ''live_hist_requested_'' @ histogram_class_name i] @
      (if 164 \<le> i then [''live_hist_4k_hole_'' @ histogram_class_name i] else [])))"
  let ?w = "\<lambda>i. width (live_histogram_size_classes ! i)"
  have small: "length (?c i) \<le> 38 + (?w i + ?w i)" if "i < 164" for i
    using that class_name_length [of i] by simp
  have large: "length (?c i) \<le> 95" if "164 \<le> i" "i < 177" for i
  proof -
    have "length (histogram_class_name i) \<le> 12"
    proof (cases "i < 176")
      case True
      have "unat (live_histogram_size_classes ! 175) = 262144"
        by (simp add: live_histogram_size_classes_def)
      then have "unat (live_histogram_size_classes ! i) < 10 ^ 6"
        using histogram_at_mono [of i 175] True by (simp add: histogram_at_def)
      then show ?thesis
        using digits_length [of "live_histogram_size_classes ! i" 6] True
        by (simp add: histogram_class_name_def decimal_def)
    qed (simp add: histogram_class_name_def)
    then show ?thesis using that by simp
  qed
  have "length (concat (map ?c [0..<164])) \<le> sum_list (map (\<lambda>i. 38 + (?w i + ?w i)) [0..<164])"
    by (rule length_concat_le) (simp only: set_upt atLeastLessThan_iff small)
  also have "\<dots> = 38 * 164 + (sum_list (map ?w [0..<164]) + sum_list (map ?w [0..<164]))"
    by (simp only: sum_list_addf sum_list_triv) (simp del: upt_rec_numeral)
  also have "sum_list (map ?w [0..<164]) \<le> 668"
  proof -
    have "map ?w [0..<164] = map width (take 164 live_histogram_size_classes)"
      by (intro nth_equalityI) (simp_all add: histogram_classes_length del: upt_rec_numeral)
    moreover have "sum_list (map width live_histogram_size_classes) =
        sum_list (map width (take 164 live_histogram_size_classes)) +
        sum_list (map width (drop 164 live_histogram_size_classes))"
      by (metis append_take_drop_id map_append sum_list_append)
    ultimately show ?thesis using widths(7) by simp
  qed
  finally have "length (concat (map ?c [0..<164])) \<le> 7568"
    by simp
  moreover have "length (concat (map ?c [164..<177])) \<le> sum_list (map (\<lambda>i. 95) [164..<177::nat])"
    by (rule length_concat_le) (rule large, simp_all del: upt_rec_numeral)
  moreover have "[0..<177] = [0..<164] @ [164::nat..<177]"
    using upt_add_eq_append [of 0 164 13] by simp
  ultimately show ?thesis
    unfolding commas_concat by (simp only: map_append concat_append length_append) simp
qed

lemma header_metadata_length: "length (header_metadata cce cap rate ready pid iv) \<le> 3200"
proof -
  note d = decimal_length [of cce] decimal_length [of cap] decimal_length [of rate] decimal_length [of pid]
    decimal_length [of iv] decimal_length [of "of_nat LIVE_TABLE_MAX_PROBES"]
    decimal_length [of "if ready then 1 else 0"]
  note p = piped_length [of dfmalloc1_size_classes] piped_length [of dfmalloc2_size_classes]
    piped_length [of jemalloc_size_classes] piped_length [of live_histogram_size_classes]
    piped_length [of small_classes]
  have "length (if rate = 1 then ''exact'' else ''estimated'') \<le> 9" by simp
  with d p widths small_widths small_classes_length histogram_classes_length show ?thesis
    by (simp add: header_metadata_def)
qed

lemma column_names_text_length: "length (comma_join column_names) \<le> 12461"
proof -
  have "length (comma_join column_names) \<le> 400 +
    length (concat (map (\<lambda>s. '','' @ s) (concat (map (\<lambda>i.
      [''count_'' @ decimal (small_classes ! i), ''hole_'' @ decimal (small_classes ! i)]) [0..<160])))) +
    length (concat (map (\<lambda>s. '','' @ s) (concat (map (\<lambda>i.
      [''live_hist_count_'' @ histogram_class_name i, ''live_hist_requested_'' @ histogram_class_name i] @
      (if 164 \<le> i then [''live_hist_4k_hole_'' @ histogram_class_name i] else [])) [0..<177]))))"
    unfolding column_names_def append_Cons comma_join_Cons append_Nil map_append concat_append length_append
    by (simp only: list.map concat.simps) simp
  then show ?thesis
    using size_columns_length histogram_columns_length by linarith
qed

lemma header_fits:
  "append_csv_header cce cap rate ready pid iv =
    header_metadata cce cap rate ready pid iv @ ''\<newline>'' @ comma_join column_names @ ''\<newline>''"
  using header_metadata_length [of cce cap rate ready pid iv] column_names_text_length
  by (simp add: append_csv_header_take OUTPUT_BUFFER_CAPACITY_def)

lemma column_names_length: "length column_names = 713"
proof -
  have "[0..<177] = [0..<164] @ [164::nat..<177]"
    using upt_add_eq_append [of 0 164 13] by simp
  moreover have "length (concat (map (\<lambda>i. [f i, g i] @ (if 164 \<le> i then [h i] else [])) [0..<164])) = 328"
    for f g h :: "nat \<Rightarrow> string"
  proof -
    have eq: "map (\<lambda>i. [f i, g i] @ (if 164 \<le> i then [h i] else [])) [0..<164] = map (\<lambda>i. [f i, g i]) [0..<164]"
      by (simp del: upt_rec_numeral)
    show ?thesis unfolding eq by (simp add: length_concat_pairs del: upt_rec_numeral)
  qed
  moreover have "length (concat (map (\<lambda>i. [f i, g i] @ (if 164 \<le> i then [h i] else [])) [164..<177])) = 39"
    for f g h :: "nat \<Rightarrow> string" by simp
  ultimately show ?thesis
    unfolding column_names_def
    by (simp only: map_append concat_append length_append length_concat_pairs) simp
qed

lemma piped_chars: "set (piped vs) \<subseteq> set ''0123456789|''"
  using digits_chars by (fastforce simp: piped_def decimal_def)

lemma header_metadata_line: "CHR 0x0A \<notin> set (header_metadata cce cap rate ready pid iv)"
proof -
  have p: "CHR 0x0A \<notin> set (piped vs)" for vs
    using piped_chars [of vs] by auto
  have d: "CHR 0x0A \<notin> set (decimal v)" for v
    using decimal_no_comma by simp
  show ?thesis
    unfolding header_metadata_def set_append Un_iff de_Morgan_disj
    by (intro conjI p d; simp)
qed

subsection \<open>Properties\<close>

text \<open>The CSV header is never cut off by the 16 KiB output buffer, whatever the process id and
  the configuration: it is one metadata line and one line of 713 column names.\<close>

lemma csv_header_complete:
  "append_csv_header cce cap rate ready pid iv =
     header_metadata cce cap rate ready pid iv @ ''\<newline>'' @ comma_join column_names @ ''\<newline>'' \<and>
   CHR 0x0A \<notin> set (header_metadata cce cap rate ready pid iv) \<and> length column_names = 713"
  using header_fits header_metadata_line column_names_length by simp

text \<open>The table of a file, its lines and cells; and each column with the counter it is named after.\<close>

definition csv_table :: "string \<Rightarrow> string list list" where
  "csv_table file = map (split_on (CHR '','')) (split_on (CHR 0x0A) file)"

definition csv_columns ::
  "u64 \<Rightarrow> u64 \<Rightarrow> hole_snapshot \<Rightarrow> hole_snapshot \<Rightarrow> live_snapshot \<Rightarrow> live_snapshot \<Rightarrow> (string \<times> u64) list" where
  "csv_columns start_ns end_ns period tot live_period live =
    [(''start_ns'', start_ns), (''end_ns'', end_ns),
     (''period_alloc'', allocations period), (''total_alloc'', allocations tot),
     (''period_measured'', measured_allocations period), (''total_measured'', measured_allocations tot),
     (''period_requested'', requested_bytes period), (''total_requested'', requested_bytes tot),
     (''period_hole'', hole_bytes period), (''total_hole'', hole_bytes tot),
     (''period_failed'', failed_allocations period), (''total_failed'', failed_allocations tot),
     (''period_measure_error'', measurement_errors period), (''total_measure_error'', measurement_errors tot),
     (''period_free'', live_free_events live_period), (''total_free'', live_free_events live),
     (''period_untracked_free'', live_untracked_frees live_period), (''total_untracked_free'', live_untracked_frees live),
     (''period_live_track_failed'', live_tracking_failures live_period),
     (''total_live_track_failed'', live_tracking_failures live),
     (''live_alloc'', live_allocations live), (''live_requested'', live_requested_bytes live),
     (''live_allocated'', live_requested_bytes live + live_hole_bytes live), (''live_hole'', live_hole_bytes live)] @
    concat (map (\<lambda>i. [(''count_'' @ decimal (small_classes ! i), bucket_allocations period ! i),
        (''hole_'' @ decimal (small_classes ! i), bucket_hole_bytes period ! i)]) [0..<160]) @
    [(''count_4K_plus'', bucket_allocations period ! 160), (''hole_4K_plus'', bucket_hole_bytes period ! 160)] @
    concat (map (\<lambda>i. [(''live_hist_count_'' @ histogram_class_name i, histogram_allocations live ! i),
       (''live_hist_requested_'' @ histogram_class_name i, histogram_requested_bytes live ! i)] @
      (if 164 \<le> i then [(''live_hist_4k_hole_'' @ histogram_class_name i, histogram_4k_hole_bytes live ! (i - 164))]
       else [])) [0..<177])"

lemma map_if: "map f (if b then [x] else []) = (if b then [f x] else [])"
  by simp

lemma csv_columns_names: "map fst (csv_columns start_ns end_ns period tot live_period live) = column_names"
  unfolding csv_columns_def column_names_def
  by (simp only: map_append map_concat map_map comp_def list.map fst_conv map_if)

lemma csv_columns_values:
  "map snd (csv_columns start_ns end_ns period tot live_period live) = row_values start_ns end_ns period tot live_period live"
proof -
  have u: "[0..<161] = [0..<160] @ [160::nat]"
    using upt_Suc_append [of 0 160] by simp
  show ?thesis
    unfolding csv_columns_def row_values_def histogram_cells_def u
    by (simp only: map_append map_concat map_map comp_def list.map snd_conv map_if concat_append concat.simps append_assoc append_Nil2)
qed

definition plain :: "string \<Rightarrow> bool" where
  "plain s \<longleftrightarrow> CHR '','' \<notin> set s \<and> CHR 0x0A \<notin> set s"

lemma plain_simps: "plain (s @ t) \<longleftrightarrow> plain s \<and> plain t" "plain (decimal v)"
  "list_all plain (concat (map f xs)) \<longleftrightarrow> (\<forall>x\<in>set xs. list_all plain (f x))"
  using decimal_no_comma by (auto simp: plain_def list_all_iff)

lemma column_names_chars: "s \<in> set column_names \<Longrightarrow> plain s"
proof -
  have "plain (histogram_class_name i)" for i
    by (simp add: histogram_class_name_def plain_simps) (simp add: plain_def)
  moreover have "plain ''live_hist_count_''" "plain ''live_hist_requested_''" "plain ''live_hist_4k_hole_''"
      "plain ''count_''" "plain ''hole_''"
    by (simp_all add: plain_def)
  ultimately have "list_all plain column_names"
    unfolding column_names_def list_all_append plain_simps
    by (intro conjI ballI; simp only: list_all_append plain_simps list.pred_inject if_split; simp add: plain_def)
  then show "s \<in> set column_names \<Longrightarrow> plain s"
    by (simp add: list_all_iff)
qed

text \<open>C11: Header and rows of a log can be read back. Neither is ever cut off by the output buffer,
  whatever the configuration and the values: the file of a header and a row has the metadata line, a line
  of 713 column names and a line of values, and column by column the name written by the header and the value
  written by the row are those of one counter.\<close>

theorem csv_row_roundtrip:
  "let table = csv_table (append_csv_header cce cap rate ready pid iv @
         append_csv_row start_ns end_ns period tot live_period live);
       columns = csv_columns start_ns end_ns period tot live_period live
   in length columns = 713 \<and> length table = 4 \<and> table ! 1 = map fst columns \<and>
     map read_decimal (table ! 2) = map (\<lambda>c. unat (snd c)) columns \<and> table ! 3 = [[]]"
proof -
  let ?vs = "row_values start_ns end_ns period tot live_period live"
  let ?names = "comma_join column_names" and ?row = "comma_join (map decimal ?vs)"
  have ne: "?vs \<noteq> []" "column_names \<noteq> []"
    using row_values_length column_names_length by (metis list.size(3) zero_neq_numeral)+
  have line: "CHR 0x0A \<notin> set ?names" "CHR 0x0A \<notin> set ?row"
    using comma_join_chars [of column_names] comma_join_chars [of "map decimal ?vs"] column_names_chars decimal_no_comma
    by (auto simp: plain_def)
  have "split_on (CHR 0x0A) (header_metadata cce cap rate ready pid iv @ ''\<newline>'' @ ?names @ ''\<newline>'' @ ?row @ ''\<newline>'') =
      [header_metadata cce cap rate ready pid iv, ?names, ?row, []]"
    using header_metadata_line line by (simp add: split_on_prefix)
  then have table: "csv_table (append_csv_header cce cap rate ready pid iv @
      append_csv_row start_ns end_ns period tot live_period live) =
      [split_on (CHR '','') (header_metadata cce cap rate ready pid iv), split_on (CHR '','') ?names,
       split_on (CHR '','') ?row, [[]]]"
    unfolding csv_table_def header_fits row_fits by simp
  have "split_on (CHR '','') ?names = column_names" "split_on (CHR '','') ?row = map decimal ?vs"
    using ne column_names_chars decimal_no_comma by (auto intro!: split_comma_join simp: plain_def)
  moreover have "map (\<lambda>c. unat (snd c)) (csv_columns start_ns end_ns period tot live_period live) = map unat ?vs"
    unfolding csv_columns_values [symmetric] by (simp add: comp_def)
  moreover have "length (csv_columns start_ns end_ns period tot live_period live) = 713"
    using column_names_length unfolding csv_columns_names [symmetric, of start_ns end_ns period tot live_period live] by simp
  ultimately show ?thesis
    by (simp add: table Let_def csv_columns_names read_decimal_decimal comp_def numeral_2_eq_2 numeral_3_eq_3)
qed

end
