(* ===== verification/HoleProcess.thy ===== *)
theory HoleProcess
  imports CsvText
begin

text \<open>
  The process-level state of \<open>malloc_hole_hook.c\<close>: initialisation (once per process, and again
  in a forked child of the \<open>appspawndf\<close> server), the log file, the snapshots and the periodic
  deadline. The state extends the live statistics. System calls are answered by a \<open>world\<close>,
  indexed by the number of calls made so far, and each may change \<open>errno\<close>; the writes of one
  \<open>raw_write_all\<close> are answered by a list. The build is the production one
  (\<open>MINI_HOLE_ATOMIC_STATS\<close>, \<open>MINI_HOLE_NO_WRITER\<close>, \<open>MINI_HOLE_OPPORTUNISTIC_SNAPSHOT\<close>), so
  \<open>start_writer\<close> and \<open>reset_current_thread\<close> do nothing.
\<close>

subsection \<open>The model\<close>

text \<open>The compile-time configuration, with its default values.\<close>

definition interval_seconds :: u64 where "interval_seconds = 10"
definition clock_check_every :: u64 where "clock_check_every = 1024"
definition live_table_capacity :: nat where "live_table_capacity = 256 * 2 ^ 18"
definition OUTPUT_DIR_CAPACITY :: nat where "OUTPUT_DIR_CAPACITY = 256"
definition OUTPUT_PATH_CAPACITY :: nat where "OUTPUT_PATH_CAPACITY = 384"
definition MINI_HOLE_OUTPUT_DIR :: string where "MINI_HOLE_OUTPUT_DIR = ''/tmp''"

datatype write_answer = Wrote nat | Interrupted | Write_error

record world =
  w_pid :: "nat \<Rightarrow> u64"
  w_realtime :: "nat \<Rightarrow> u64"
  w_monotonic :: "nat \<Rightarrow> u64"
  w_mmap :: "nat \<Rightarrow> bool"
  w_open :: "nat \<Rightarrow> bool"
  w_write :: "nat \<Rightarrow> write_answer list"
  w_errno :: "nat \<Rightarrow> int"

record hole_state = live_state +
  tick :: nat
  errno :: int
  statistics :: hole_statistics
  statistics_suppression :: u32
  owner_pid :: u64
  initialization_enabled :: bool
  statistics_ready :: bool
  process_init_lock :: bool
  next_snapshot_monotonic_ns :: u64
  log_is_open :: bool
  log_content :: string
  output_dir :: string
  output_path :: string
  process_start_realtime_ns :: u64
  previous_snapshot_realtime_ns :: u64
  previous_snapshot :: hole_snapshot
  previous_live_snapshot :: live_snapshot
  initial_process_pid :: u64
  initial_process_is_appspawndf :: bool

text \<open>One system call: its answer, and \<open>errno\<close> as the call leaves it.\<close>

definition system_call :: "world \<Rightarrow> (world \<Rightarrow> nat \<Rightarrow> 'r) \<Rightarrow> hole_state \<Rightarrow> hole_state \<times> 'r" where
  "system_call w answer st =
    (st\<lparr>tick := tick st + 1, errno := w_errno w (tick st)\<rparr>, answer w (tick st))"

definition raw_getpid :: "world \<Rightarrow> hole_state \<Rightarrow> hole_state \<times> u64" where
  "raw_getpid w = system_call w w_pid"

definition realtime_ns :: "world \<Rightarrow> hole_state \<Rightarrow> hole_state \<times> u64" where
  "realtime_ns w = system_call w w_realtime"

definition monotonic_ns :: "world \<Rightarrow> hole_state \<Rightarrow> hole_state \<times> u64" where
  "monotonic_ns w = system_call w w_monotonic"

definition clock_check_is_due :: "u64 \<Rightarrow> bool" where
  "clock_check_is_due event_index \<longleftrightarrow>
    clock_check_every = 1 \<or> event_index AND (clock_check_every - 1) = 0"

fun raw_write_all :: "write_answer list \<Rightarrow> string \<Rightarrow> string \<times> bool" where
  "raw_write_all answers [] = ([], True)"
| "raw_write_all [] (c # buffer) = ([], False)"
| "raw_write_all (Wrote n # answers) (c # buffer) =
    (if n > 0
     then (let (written, ok) = raw_write_all answers (drop n (c # buffer))
           in (take n (c # buffer) @ written, ok))
     else ([], False))"
| "raw_write_all (Interrupted # answers) (c # buffer) = raw_write_all answers (c # buffer)"
| "raw_write_all (Write_error # answers) (c # buffer) = ([], False)"

definition copy_output_dir :: "string \<Rightarrow> hole_state \<Rightarrow> hole_state" where
  "copy_output_dir source st = st\<lparr>output_dir := take (OUTPUT_DIR_CAPACITY - 1) source\<rparr>"

definition prepare_output_path :: "u64 \<Rightarrow> hole_state \<Rightarrow> hole_state" where
  "prepare_output_path pid st =
    (let path = append_text (OUTPUT_PATH_CAPACITY - 1) [] (output_dir st);
         path = (if path \<noteq> [] \<and> last path \<noteq> CHR ''/''
                 then append_text (OUTPUT_PATH_CAPACITY - 1) path ''/'' else path);
         path = append_text (OUTPUT_PATH_CAPACITY - 1) path ''mini_hole_'';
         path = append_u64 (OUTPUT_PATH_CAPACITY - 1) path (process_start_realtime_ns st);
         path = append_text (OUTPUT_PATH_CAPACITY - 1) path ''_'';
         path = append_u64 (OUTPUT_PATH_CAPACITY - 1) path pid;
         path = append_text (OUTPUT_PATH_CAPACITY - 1) path ''.csv''
     in st\<lparr>output_path := path\<rparr>)"

definition close_log :: "hole_state \<Rightarrow> hole_state" where
  "close_log st = st\<lparr>log_is_open := False\<rparr>"

text \<open>Opening truncates the file; on a failed header the descriptor is closed again.\<close>

definition open_log :: "world \<Rightarrow> u64 \<Rightarrow> hole_state \<Rightarrow> hole_state" where
  "open_log w pid st =
    (let st = close_log st;
         (st, fd_ok) = system_call w w_open st
     in if \<not> fd_ok then st
        else
          let header = append_csv_header clock_check_every (of_nat live_table_capacity) (live_sample_rate st)
                (live_table_ready (live_tab st)) pid interval_seconds;
              (st, answers) = system_call w w_write st;
              (written, ok) = raw_write_all answers header
          in if \<not> ok then st\<lparr>log_content := written\<rparr>
             else st\<lparr>log_content := written, log_is_open := True\<rparr>)"

definition initialize_live :: "world \<Rightarrow> hole_state \<Rightarrow> hole_state" where
  "initialize_live w st =
    (let (st, mmap_ok) = system_call w w_mmap st
     in st\<lparr>live_tab := initialize_live_table live_table_capacity mmap_ok (live_tab st)\<rparr>)"

definition initialize_process :: "world \<Rightarrow> u64 \<Rightarrow> hole_state \<Rightarrow> hole_state" where
  "initialize_process w pid st =
    (let st = st\<lparr>statistics_ready := False\<rparr>;
         st = close_log st;
         st = st\<lparr>statistics := clear_statistics\<rparr>;
         st = clear_live_statistics st;
         st = st\<lparr>previous_snapshot := zero_hole_snapshot, previous_live_snapshot := zero_live_snapshot\<rparr>;
         st = (if initial_process_is_appspawndf st \<and> pid = initial_process_pid st
               then st\<lparr>live_tab := release_live_table (live_tab st)\<rparr>
               else initialize_live w st);
         (st, start_ns) = realtime_ns w st;
         st = st\<lparr>process_start_realtime_ns := start_ns, previous_snapshot_realtime_ns := start_ns\<rparr>;
         (st, now) = monotonic_ns w st;
         st = st\<lparr>next_snapshot_monotonic_ns := now\<rparr>;
         st = prepare_output_path pid st;
         st = st\<lparr>owner_pid := pid\<rparr>;
         st = open_log w pid st
     in st\<lparr>statistics_ready := True\<rparr>)"

text \<open>\<open>process_init_lock\<close> is true while another thread initialises.\<close>

definition ensure_current_process :: "world \<Rightarrow> hole_state \<Rightarrow> hole_state \<times> bool" where
  "ensure_current_process w st =
    (let (st, pid) = raw_getpid w st
     in if owner_pid st = pid \<and> statistics_ready st then (st, True)
        else if process_init_lock st then (st, False)
        else
          let st = st\<lparr>process_init_lock := True\<rparr>;
              st = (if owner_pid st \<noteq> pid \<or> \<not> statistics_ready st then initialize_process w pid st else st);
              st = st\<lparr>process_init_lock := False\<rparr>
          in (st, statistics_ready st))"

definition prepare_recording :: "world \<Rightarrow> hole_state \<Rightarrow> hole_state \<times> bool" where
  "prepare_recording w st =
    (if \<not> initialization_enabled st then (st, False)
     else if statistics_suppression st \<noteq> 0 then (st, False)
     else if initial_process_is_appspawndf st \<and> owner_pid st = initial_process_pid st
     then
       let (st, pid) = raw_getpid w st
       in if pid = initial_process_pid st then (st, False) else ensure_current_process w st
     else (st, statistics_ready st))"

text \<open>The second component is the row's period and total when it was written completely.\<close>

definition write_snapshot :: "world \<Rightarrow> hole_state \<Rightarrow> hole_state" where
  "write_snapshot w st =
    (let (st, pid) = raw_getpid w st
     in if owner_pid st \<noteq> pid \<or> \<not> log_is_open st then st
        else
          let tot = load_statistics (statistics st);
              period = snapshot_delta tot (previous_snapshot st);
              live = load_live_statistics st;
              live_period = live_event_delta live (previous_live_snapshot st);
              (st, end_ns) = realtime_ns w st;
              row = append_csv_row (previous_snapshot_realtime_ns st) end_ns period tot live_period live;
              (st, answers) = system_call w w_write st;
              (written, ok) = raw_write_all answers row;
              st = st\<lparr>log_content := log_content st @ written\<rparr>
          in if ok
             then st\<lparr>previous_snapshot := tot, previous_live_snapshot := live,
                     previous_snapshot_realtime_ns := end_ns\<rparr>
             else st)"

definition mini_hole_snapshot_now :: "world \<Rightarrow> hole_state \<Rightarrow> hole_state \<times> int" where
  "mini_hole_snapshot_now w st =
    (let saved_errno = errno st;
         (st, ok) = ensure_current_process w st
     in if \<not> ok then (st\<lparr>errno := saved_errno\<rparr>, -1)
        else
          let st = write_snapshot w st;
              result = (if log_is_open st then 0 else -1)
          in (st\<lparr>errno := saved_errno\<rparr>, result))"

text \<open>
  \<open>maybe_write_periodic_snapshot\<close>, by its accesses: the check of the deadline that was loaded, the
  compare-and-swap that moves the deadline when it is still the one that was loaded, and the whole function
  as one thread runs it alone.
\<close>

definition snapshot_is_due :: "u64 \<Rightarrow> u64 \<Rightarrow> bool" where
  "snapshot_is_due now deadline \<longleftrightarrow> \<not> (now = 0 \<or> deadline = 0 \<or> now < deadline)"

definition deadline_compare_exchange :: "u64 \<Rightarrow> u64 \<Rightarrow> hole_state \<Rightarrow> hole_state \<times> bool" where
  "deadline_compare_exchange deadline now st =
    (let interval_ns = interval_seconds * 1000000000;
         next_deadline = now + interval_ns
     in if next_snapshot_monotonic_ns st = deadline
        then (st\<lparr>next_snapshot_monotonic_ns := next_deadline\<rparr>, True) else (st, False))"

definition maybe_write_periodic_snapshot :: "world \<Rightarrow> hole_state \<Rightarrow> hole_state" where
  "maybe_write_periodic_snapshot w st =
    (let (st, now) = monotonic_ns w st;
         deadline = next_snapshot_monotonic_ns st
     in if \<not> snapshot_is_due now deadline then st
        else
          let (st, exchanged) = deadline_compare_exchange deadline now st
          in if \<not> exchanged then st else write_snapshot w st)"

text \<open>
  The same function run by many threads at a time: a thread reads the clock, then loads the deadline,
  then exchanges it, then writes; between its accesses the others go on. What else the process does
  leaves the deadline alone (only initialisation sets it).
\<close>

datatype periodic_phase = Outside | Clock_read u64 | Deadline_loaded u64 u64 | Exchanged u64

record periodic_run =
  process :: hole_state
  phase :: "nat \<Rightarrow> periodic_phase"
  exchanges :: "u64 list"
  snapshots :: "u64 list"

inductive periodic_step :: "world \<Rightarrow> periodic_run \<Rightarrow> periodic_run \<Rightarrow> bool" for w where
  periodic_clock: "phase c t = Outside \<Longrightarrow> monotonic_ns w (process c) = (st, now) \<Longrightarrow>
    periodic_step w c (c\<lparr>process := st, phase := (phase c)(t := Clock_read now)\<rparr>)"
| periodic_load: "phase c t = Clock_read now \<Longrightarrow> deadline = next_snapshot_monotonic_ns (process c) \<Longrightarrow>
    periodic_step w c (c\<lparr>phase := (phase c)(t :=
      if snapshot_is_due now deadline then Deadline_loaded now deadline else Outside)\<rparr>)"
| periodic_exchange: "phase c t = Deadline_loaded now deadline \<Longrightarrow>
    deadline_compare_exchange deadline now (process c) = (st, exchanged) \<Longrightarrow>
    periodic_step w c (c\<lparr>process := st, phase := (phase c)(t := if exchanged then Exchanged now else Outside),
      exchanges := (if exchanged then exchanges c @ [now] else exchanges c)\<rparr>)"
| periodic_write: "phase c t = Exchanged now \<Longrightarrow>
    periodic_step w c (c\<lparr>process := write_snapshot w (process c), phase := (phase c)(t := Outside),
      snapshots := snapshots c @ [now]\<rparr>)"
| periodic_other: "next_snapshot_monotonic_ns st = next_snapshot_monotonic_ns (process c) \<Longrightarrow>
    periodic_step w c (c\<lparr>process := st\<rparr>)"

text \<open>
  The constructor after \<open>resolve_real_allocators\<close>, and the destructor. \<open>cmdline_match\<close> is the
  answer of \<open>raw_cmdline_contains\<close>, \<open>configured_dir\<close> that of \<open>getenv\<close>.
\<close>

definition initialize_hook :: "world \<Rightarrow> bool \<Rightarrow> string option \<Rightarrow> hole_state \<Rightarrow> hole_state" where
  "initialize_hook w cmdline_match configured_dir st =
    (let (st, pid) = raw_getpid w st;
         st = st\<lparr>initial_process_pid := pid, initial_process_is_appspawndf := cmdline_match\<rparr>;
         st = copy_output_dir (case configured_dir of Some dir \<Rightarrow> dir | None \<Rightarrow> MINI_HOLE_OUTPUT_DIR) st;
         st = st\<lparr>initialization_enabled := True\<rparr>
     in fst (ensure_current_process w st))"

definition finalize_hook :: "world \<Rightarrow> hole_state \<Rightarrow> hole_state" where
  "finalize_hook w st =
    (let (st, pid) = raw_getpid w st
     in if owner_pid st \<noteq> pid then st
        else close_log (write_snapshot w st))"

text \<open>\<open>raw_cmdline_contains\<close>: the search for the needle in the bytes read.\<close>

fun match_at :: "string \<Rightarrow> string \<Rightarrow> nat \<Rightarrow> bool" where
  "match_at [] buffer i = True"
| "match_at (c # needle) buffer i \<longleftrightarrow> buffer ! i = c \<and> match_at needle buffer (i + 1)"

definition raw_cmdline_contains :: "string option \<Rightarrow> string \<Rightarrow> bool" where
  "raw_cmdline_contains cmdline needle =
    (case cmdline of
       None \<Rightarrow> False
     | Some buffer \<Rightarrow>
         let n = length (take 2048 buffer) in
         if n = 0 then False
         else if length needle = 0 \<or> n < length needle then False
         else \<exists>i<n - length needle + 1. match_at needle (take 2048 buffer) i)"

subsection \<open>System calls and the log\<close>

lemma system_call_eq:
  "system_call w f st = (st\<lparr>tick := tick st + 1, errno := w_errno w (tick st)\<rparr>, f w (tick st))"
  by (simp add: system_call_def)

lemmas calls = raw_getpid_def realtime_ns_def monotonic_ns_def system_call_eq

text \<open>A complete write wrote the buffer, an incomplete one a prefix of it.\<close>

lemma raw_write_all_prefix:
  "raw_write_all answers buffer = (written, ok) \<Longrightarrow>
    (if ok then written = buffer else \<exists>rest. buffer = written @ rest)"
proof (induction answers buffer arbitrary: written ok rule: raw_write_all.induct)
  case (3 n answers c buffer)
  show ?case
  proof (cases "n > 0")
    case True
    obtain w' ok' where r: "raw_write_all answers (drop n (c # buffer)) = (w', ok')" by fastforce
    with 3(2) True have eq: "written = take n (c # buffer) @ w'" "ok = ok'" by auto
    from 3(1) [OF True r] show ?thesis
      unfolding eq by (auto split: if_splits) (metis append_assoc append_take_drop_id)+
  next
    case False
    with 3(2) show ?thesis by auto
  qed
qed auto

text \<open>The row a snapshot writes, when the process owns an open log.\<close>

record csv_row =
  row_start :: u64
  row_end :: u64
  row_period :: hole_snapshot
  row_total :: hole_snapshot
  row_live_period :: live_snapshot
  row_live :: live_snapshot

definition row_text :: "csv_row \<Rightarrow> string" where
  "row_text r = append_csv_row (row_start r) (row_end r) (row_period r) (row_total r)
    (row_live_period r) (row_live r)"

definition snapshot_row :: "world \<Rightarrow> hole_state \<Rightarrow> csv_row" where
  "snapshot_row w st =
    (let tot = load_statistics (statistics st); live = load_live_statistics st in
     \<lparr>row_start = previous_snapshot_realtime_ns st, row_end = w_realtime w (tick st + 1),
      row_period = snapshot_delta tot (previous_snapshot st), row_total = tot,
      row_live_period = live_event_delta live (previous_live_snapshot st), row_live = live\<rparr>)"

definition snapshot_answers :: "world \<Rightarrow> hole_state \<Rightarrow> write_answer list" where
  "snapshot_answers w st = w_write w (tick st + 2)"

definition owns_log :: "world \<Rightarrow> hole_state \<Rightarrow> bool" where
  "owns_log w st \<longleftrightarrow> owner_pid st = w_pid w (tick st) \<and> log_is_open st"

lemma load_live_statistics_frame [simp]:
  "load_live_statistics (st\<lparr>tick := a, errno := b\<rparr>) = load_live_statistics (st :: hole_state)"
  by (simp add: load_live_statistics_def)

lemma write_snapshot_cases:
  "write_snapshot w st =
    (if \<not> owns_log w st then st\<lparr>tick := tick st + 1, errno := w_errno w (tick st)\<rparr>
     else
       let r = snapshot_row w st; (written, ok) = raw_write_all (snapshot_answers w st) (row_text r);
           st' = st\<lparr>tick := tick st + 3, errno := w_errno w (tick st + 2), log_content := log_content st @ written\<rparr>
       in if ok then st'\<lparr>previous_snapshot := row_total r, previous_live_snapshot := row_live r,
                        previous_snapshot_realtime_ns := row_end r\<rparr>
          else st')"
  by (simp add: write_snapshot_def calls owns_log_def snapshot_row_def row_text_def snapshot_answers_def
      Let_def numeral_3_eq_3 numeral_2_eq_2 split: prod.splits)

text \<open>
  Runs between two initialisations: the statistics change in any way (by the events of any
  threads), snapshots are written completely, skipped, or cut off by a failing write. The run is
  indexed by what the snapshots put into the log: a row, or the part of a row that was written.
\<close>

datatype log_part = Row csv_row | Cut csv_row string

fun part_text :: "log_part \<Rightarrow> string" where
  "part_text (Row r) = row_text r"
| "part_text (Cut r s) = s"

fun complete_rows :: "log_part list \<Rightarrow> csv_row list" where
  "complete_rows [] = []"
| "complete_rows (Row r # ps) = r # complete_rows ps"
| "complete_rows (Cut r s # ps) = complete_rows ps"

inductive log_run :: "world \<Rightarrow> hole_state \<Rightarrow> log_part list \<Rightarrow> hole_state \<Rightarrow> bool" for w st where
  start: "log_run w st [] st"
| update: "log_run w st parts st' \<Longrightarrow>
    log_run w st parts (st'\<lparr>statistics := s, live_tab := t, live_statistics := l, tick := k, errno := e\<rparr>)"
| written: "log_run w st parts st' \<Longrightarrow> owns_log w st' \<Longrightarrow>
    raw_write_all (snapshot_answers w st') (row_text (snapshot_row w st')) = (s, ok) \<Longrightarrow>
    log_run w st (parts @ [if ok then Row (snapshot_row w st') else Cut (snapshot_row w st') s]) (write_snapshot w st')"
| skipped: "log_run w st parts st' \<Longrightarrow> \<not> owns_log w st' \<Longrightarrow> log_run w st parts (write_snapshot w st')"

lemma complete_rows_append [simp]: "complete_rows (ps @ qs) = complete_rows ps @ complete_rows qs"
  by (induction ps rule: complete_rows.induct) auto

text \<open>
  A row is the difference to the last row that was written completely, and begins where that one ended:
  \<open>t\<close>, \<open>s\<close> and \<open>l\<close> are the end and the totals of the row before.
\<close>

fun rows_chain :: "u64 \<Rightarrow> hole_snapshot \<Rightarrow> live_snapshot \<Rightarrow> csv_row list \<Rightarrow> bool" where
  "rows_chain t s l [] \<longleftrightarrow> True"
| "rows_chain t s l (r # rs) \<longleftrightarrow>
    row_start r = t \<and> row_period r = snapshot_delta (row_total r) s \<and>
    row_live_period r = live_event_delta (row_live r) l \<and> rows_chain (row_end r) (row_total r) (row_live r) rs"

lemma rows_chain_snoc:
  "rows_chain t s l (rs @ [r]) \<longleftrightarrow> rows_chain t s l rs \<and>
    (if rs = [] then rows_chain t s l [r] else rows_chain (row_end (last rs)) (row_total (last rs)) (row_live (last rs)) [r])"
  by (induction rs arbitrary: t s l) auto

lemma log_run_chain:
  "log_run w st parts st' \<Longrightarrow>
    rows_chain (previous_snapshot_realtime_ns st) (previous_snapshot st) (previous_live_snapshot st) (complete_rows parts) \<and>
    (if complete_rows parts = []
     then previous_snapshot_realtime_ns st' = previous_snapshot_realtime_ns st \<and>
       previous_snapshot st' = previous_snapshot st \<and> previous_live_snapshot st' = previous_live_snapshot st
     else previous_snapshot_realtime_ns st' = row_end (last (complete_rows parts)) \<and>
       previous_snapshot st' = row_total (last (complete_rows parts)) \<and>
       previous_live_snapshot st' = row_live (last (complete_rows parts))) \<and>
    log_content st' = log_content st @ concat (map part_text parts) \<and>
    (\<forall>r s. Cut r s \<in> set parts \<longrightarrow> (\<exists>rest. row_text r = s @ rest))"
proof (induction rule: log_run.induct)
  case (written parts st' s ok)
  have cut: "if ok then s = row_text (snapshot_row w st') else \<exists>rest. row_text (snapshot_row w st') = s @ rest"
    using raw_write_all_prefix [OF written(3)] by simp
  have new: "row_start (snapshot_row w st') = previous_snapshot_realtime_ns st'"
    "row_period (snapshot_row w st') = snapshot_delta (row_total (snapshot_row w st')) (previous_snapshot st')"
    "row_live_period (snapshot_row w st') = live_event_delta (row_live (snapshot_row w st')) (previous_live_snapshot st')"
    by (simp_all add: snapshot_row_def Let_def)
  show ?case
    using written.IH written(2,3) cut new
    by (cases ok) (auto simp: write_snapshot_cases Let_def rows_chain_snoc split: if_splits)
qed (simp_all add: write_snapshot_cases)

definition snapshot_shape :: "hole_snapshot \<Rightarrow> bool" where
  "snapshot_shape s \<longleftrightarrow> length (bucket_allocations s) = SIZE_BUCKET_COUNT \<and>
    length (bucket_hole_bytes s) = SIZE_BUCKET_COUNT"

lemma load_statistics_shape: "snapshot_shape (load_statistics st)"
  unfolding load_statistics_def
  by (subst load_shards) (simp_all add: snapshot_shape_def zero_hole_snapshot_def Let_def)

lemma log_run_shape: "log_run w st parts st' \<Longrightarrow> r \<in> set (complete_rows parts) \<Longrightarrow> snapshot_shape (row_total r)"
  by (induction rule: log_run.induct) (auto simp: snapshot_row_def Let_def load_statistics_shape split: if_splits)

lemma rows_chain_sum:
  fixes f :: "hole_snapshot \<Rightarrow> u64"
  assumes "\<And>a b. snapshot_shape a \<Longrightarrow> snapshot_shape b \<Longrightarrow> f (snapshot_delta a b) = f a - f b"
  shows "rows_chain t s l rs \<Longrightarrow> snapshot_shape s \<Longrightarrow> \<forall>r\<in>set rs. snapshot_shape (row_total r) \<Longrightarrow> rs \<noteq> [] \<Longrightarrow>
    (\<Sum>r\<leftarrow>rs. f (row_period r)) = f (row_total (last rs)) - f s"
  by (induction rs arbitrary: t s l) (auto simp: assms)

lemma rows_chain_live_sum:
  fixes f :: "live_snapshot \<Rightarrow> u64"
  assumes "\<And>a b. f (live_event_delta a b) = f a - f b"
  shows "rows_chain t s l rs \<Longrightarrow> rs \<noteq> [] \<Longrightarrow> (\<Sum>r\<leftarrow>rs. f (row_live_period r)) = f (row_live (last rs)) - f l"
  by (induction rs arbitrary: t s l) (auto simp: assms)

text \<open>The counters a row reports per period and in total.\<close>

definition hole_counters :: "(hole_snapshot \<Rightarrow> u64) set" where
  "hole_counters = {allocations, measured_allocations, requested_bytes, hole_bytes, failed_allocations,
      measurement_errors} \<union>
    (\<Union>i<SIZE_BUCKET_COUNT. {\<lambda>s. bucket_allocations s ! i, \<lambda>s. bucket_hole_bytes s ! i})"

lemma hole_counters_delta:
  "f \<in> hole_counters \<Longrightarrow> snapshot_shape a \<Longrightarrow> snapshot_shape b \<Longrightarrow> f (snapshot_delta a b) = f a - f b"
  by (auto simp: hole_counters_def snapshot_delta_def snapshot_shape_def)

definition live_counters :: "(live_snapshot \<Rightarrow> u64) set" where
  "live_counters = {live_free_events, live_untracked_frees, live_tracking_failures}"

lemma live_counters_delta: "f \<in> live_counters \<Longrightarrow> f (live_event_delta a b) = f a - f b"
  by (auto simp: live_counters_def live_event_delta_def)

subsection \<open>Initialisation\<close>

lemma initialize_live_frame [simp]:
  "live_statistics (initialize_live w st) = live_statistics st"
  "live_sample_rate (initialize_live w st) = live_sample_rate st"
  "statistics (initialize_live w st) = statistics st"
  "previous_snapshot (initialize_live w st) = previous_snapshot st"
  "previous_live_snapshot (initialize_live w st) = previous_live_snapshot st"
  "initial_process_pid (initialize_live w st) = initial_process_pid st"
  "initial_process_is_appspawndf (initialize_live w st) = initial_process_is_appspawndf st"
  "initialization_enabled (initialize_live w st) = initialization_enabled st"
  "statistics_suppression (initialize_live w st) = statistics_suppression st"
  "live_tab (initialize_live w st) = initialize_live_table live_table_capacity (w_mmap w (tick st)) (live_tab st)"
  by (simp_all add: initialize_live_def calls)

lemma open_log_frame:
  "\<exists>k e c op. open_log w pid st = st\<lparr>tick := k, errno := e, log_content := c, log_is_open := op\<rparr>"
  by (cases st) (auto simp: open_log_def calls close_log_def Let_def split: prod.splits)

lemma live_table_capacity_eq: "live_table_capacity = 256 * 2 ^ 18"
  by (simp add: live_table_capacity_def)

text \<open>What initialisation establishes: clean, consistent statistics owned by the process.\<close>

definition fresh_statistics :: "hole_state \<Rightarrow> bool" where
  "fresh_statistics st \<longleftrightarrow>
    live_consistent st \<and> live_entries (live_tab st) = {#} \<and>
    live_statistics st = replicate ATOMIC_STATISTICS_SHARD_COUNT zero_live_snapshot \<and>
    statistics st = clear_statistics \<and> previous_snapshot st = zero_hole_snapshot \<and>
    previous_live_snapshot st = zero_live_snapshot \<and>
    previous_snapshot_realtime_ns st = process_start_realtime_ns st"

lemma initialize_process_fresh:
  "fresh_statistics (initialize_process w pid st) \<and> owner_pid (initialize_process w pid st) = pid \<and>
   statistics_ready (initialize_process w pid st) \<and>
   initial_process_pid (initialize_process w pid st) = initial_process_pid st \<and>
   initial_process_is_appspawndf (initialize_process w pid st) = initial_process_is_appspawndf st \<and>
   initialization_enabled (initialize_process w pid st) = initialization_enabled st \<and>
   statistics_suppression (initialize_process w pid st) = statistics_suppression st \<and>
   live_sample_rate (initialize_process w pid st) = live_sample_rate st"
proof -
  define st1 where "st1 = (clear_live_statistics ((close_log (st\<lparr>statistics_ready := False\<rparr>))
      \<lparr>statistics := clear_statistics\<rparr>))
      \<lparr>previous_snapshot := zero_hole_snapshot, previous_live_snapshot := zero_live_snapshot\<rparr>"
  define st2 where "st2 = (if initial_process_is_appspawndf st1 \<and> pid = initial_process_pid st1
      then st1\<lparr>live_tab := release_live_table (live_tab st1)\<rparr> else initialize_live w st1)"
  define st3 where "st3 = prepare_output_path pid (st2
    \<lparr>process_start_realtime_ns := w_realtime w (tick st2),
     previous_snapshot_realtime_ns := w_realtime w (tick st2),
     tick := tick st2 + 2, errno := w_errno w (tick st2 + 1),
     next_snapshot_monotonic_ns := w_monotonic w (tick st2 + 1)\<rparr>)"
  have init: "initialize_process w pid st = (open_log w pid (st3\<lparr>owner_pid := pid\<rparr>))\<lparr>statistics_ready := True\<rparr>"
    unfolding initialize_process_def calls Let_def prod.case
    unfolding st1_def [symmetric]
    unfolding st2_def [symmetric]
    by (simp add: st3_def)
  obtain k e c op' where op: "open_log w pid (st3\<lparr>owner_pid := pid\<rparr>) =
      st3\<lparr>owner_pid := pid, tick := k, errno := e, log_content := c, log_is_open := op'\<rparr>"
    using open_log_frame [of w pid "st3\<lparr>owner_pid := pid\<rparr>"] by auto
  have tab: "wf_live_table (live_tab st2) \<and> live_entries (live_tab st2) = {#}"
    using initialize_live_table_wf [of 18] by (simp add: st2_def live_table_capacity_eq)
  have s2: "live_statistics st2 = replicate ATOMIC_STATISTICS_SHARD_COUNT zero_live_snapshot"
    "statistics st2 = clear_statistics" "previous_snapshot st2 = zero_hole_snapshot"
    "previous_live_snapshot st2 = zero_live_snapshot" "initial_process_pid st2 = initial_process_pid st"
    "initial_process_is_appspawndf st2 = initial_process_is_appspawndf st"
    "initialization_enabled st2 = initialization_enabled st"
    "statistics_suppression st2 = statistics_suppression st" "live_sample_rate st2 = live_sample_rate st"
    by (simp_all add: st2_def st1_def close_log_def clear_live_statistics_def)
  have s3: "live_tab st3 = live_tab st2" "live_statistics st3 = live_statistics st2"
    "statistics st3 = statistics st2" "previous_snapshot st3 = previous_snapshot st2"
    "previous_live_snapshot st3 = previous_live_snapshot st2"
    "initial_process_pid st3 = initial_process_pid st2"
    "initial_process_is_appspawndf st3 = initial_process_is_appspawndf st2"
    "initialization_enabled st3 = initialization_enabled st2"
    "statistics_suppression st3 = statistics_suppression st2" "live_sample_rate st3 = live_sample_rate st2"
    "previous_snapshot_realtime_ns st3 = process_start_realtime_ns st3"
    by (simp_all add: st3_def prepare_output_path_def Let_def)
  have fin: "initialize_process w pid st = st3\<lparr>owner_pid := pid, tick := k, errno := e, log_content := c,
      log_is_open := op', statistics_ready := True\<rparr>"
    by (simp add: init op)
  have "live_consistent (initialize_process w pid st)"
    using tab by (simp add: fin live_consistent_def s3 s2 shard_counts_zero)
  then show ?thesis
    using tab by (simp add: fin fresh_statistics_def s3 s2)
qed

lemma ensure_current_process_spec:
  assumes "ensure_current_process w st = (st', ok)"
  shows "(\<exists>k e. st' = st\<lparr>tick := k, errno := e\<rparr>) \<or>
    fresh_statistics st' \<and> ok \<and> owner_pid st' = w_pid w (tick st) \<and> statistics_ready st' \<and>
      initial_process_pid st' = initial_process_pid st \<and>
      initial_process_is_appspawndf st' = initial_process_is_appspawndf st \<and>
      initialization_enabled st' = initialization_enabled st \<and>
      statistics_suppression st' = statistics_suppression st \<and> live_sample_rate st' = live_sample_rate st"
proof (cases "owner_pid st = w_pid w (tick st) \<and> statistics_ready st \<or> process_init_lock st")
  case True
  then show ?thesis
    using assms by (auto simp: ensure_current_process_def calls Let_def split: if_splits)
next
  case False
  let ?st = "st\<lparr>tick := tick st + 1, errno := w_errno w (tick st), process_init_lock := True\<rparr>"
  have "st' = (initialize_process w (w_pid w (tick st)) ?st)\<lparr>process_init_lock := False\<rparr>"
    "ok = statistics_ready (initialize_process w (w_pid w (tick st)) ?st)"
    using assms False by (auto simp: ensure_current_process_def calls Let_def split: if_splits)
  then show ?thesis
    using initialize_process_fresh [of w "w_pid w (tick st)" ?st]
    by (simp add: fresh_statistics_def live_consistent_def shard_counts_zero)
qed

lemma write_snapshot_frame [simp]:
  "next_snapshot_monotonic_ns (write_snapshot w st) = next_snapshot_monotonic_ns st"
  "live_tab (write_snapshot w st) = live_tab st"
  "live_statistics (write_snapshot w st) = live_statistics st"
  "live_sample_rate (write_snapshot w st) = live_sample_rate st"
  "statistics (write_snapshot w st) = statistics st"
  "owner_pid (write_snapshot w st) = owner_pid st"
  "statistics_ready (write_snapshot w st) = statistics_ready st"
  "initialization_enabled (write_snapshot w st) = initialization_enabled st"
  "statistics_suppression (write_snapshot w st) = statistics_suppression st"
  "initial_process_pid (write_snapshot w st) = initial_process_pid st"
  "initial_process_is_appspawndf (write_snapshot w st) = initial_process_is_appspawndf st"
  by (simp_all add: write_snapshot_cases Let_def split: prod.splits)

lemma live_consistent_cong:
  "live_tab st = live_tab st' \<Longrightarrow> live_statistics st = live_statistics st' \<Longrightarrow>
    live_consistent st = live_consistent st'"
  by (simp add: live_consistent_def)

subsection \<open>Properties\<close>

text \<open>C12: The rows of a log are a complete account: over any run after an initialisation, with snapshots
  that are written, skipped or cut off by a failing write, the log grows by exactly the rows and the cut-off
  parts, the interval of each complete row begins where that of the complete row before ended, and for every
  counter that rows report per period (those of the allocations with every bucket, and the three of the
  live statistics) the periods of the complete rows add up to the total in the last of them.\<close>

theorem periods_add_up:
  assumes "log_run w st parts st'" and "previous_snapshot st = zero_hole_snapshot"
    and "previous_live_snapshot st = zero_live_snapshot"
  shows "let rows = complete_rows parts in
    log_content st' = log_content st @ concat (map part_text parts) \<and>
    (\<forall>r s. Cut r s \<in> set parts \<longrightarrow> (\<exists>rest. row_text r = s @ rest)) \<and>
    rows_chain (previous_snapshot_realtime_ns st) zero_hole_snapshot zero_live_snapshot rows \<and>
    (rows \<noteq> [] \<longrightarrow>
      (\<forall>f\<in>hole_counters. (\<Sum>r\<leftarrow>rows. f (row_period r)) = f (row_total (last rows))) \<and>
      (\<forall>f\<in>live_counters. (\<Sum>r\<leftarrow>rows. f (row_live_period r)) = f (row_live (last rows))))"
proof -
  note chain = log_run_chain [OF assms(1), unfolded assms(2,3)]
  have zero: "f \<in> hole_counters \<Longrightarrow> f zero_hole_snapshot = 0" "g \<in> live_counters \<Longrightarrow> g zero_live_snapshot = 0" for f g
    by (auto simp: hole_counters_def zero_hole_snapshot_def live_counters_def zero_live_snapshot_def)
  have shape: "snapshot_shape zero_hole_snapshot" "\<forall>r\<in>set (complete_rows parts). snapshot_shape (row_total r)"
    using log_run_shape [OF assms(1)] by (auto simp: snapshot_shape_def zero_hole_snapshot_def)
  have "(\<Sum>r\<leftarrow>complete_rows parts. f (row_period r)) = f (row_total (last (complete_rows parts)))"
    if "f \<in> hole_counters" "complete_rows parts \<noteq> []" for f
    using rows_chain_sum [OF hole_counters_delta [OF that(1)] conjunct1 [OF chain] shape that(2)] zero(1) [OF that(1)]
    by simp
  moreover have "(\<Sum>r\<leftarrow>complete_rows parts. f (row_live_period r)) = f (row_live (last (complete_rows parts)))"
    if "f \<in> live_counters" "complete_rows parts \<noteq> []" for f
    using rows_chain_live_sum [OF live_counters_delta [OF that(1)] conjunct1 [OF chain] that(2)] zero(2) [OF that(1)]
    by simp
  ultimately show ?thesis
    using chain by (simp add: Let_def)
qed

definition sample_world :: world where
  "sample_world = \<lparr>w_pid = (\<lambda>_. 7), w_realtime = (\<lambda>n. of_nat n), w_monotonic = (\<lambda>n. of_nat n + 1),
    w_mmap = (\<lambda>_. True), w_open = (\<lambda>_. True), w_write = (\<lambda>_. [Wrote 16384]), w_errno = (\<lambda>_. 0)\<rparr>"

definition sample_process :: hole_state where
  "sample_process = \<lparr>live_tab = release_live_table \<lparr>slots = [], live_table_ready = False\<rparr>,
    live_statistics = [], live_sample_rate = 1, tick = 0, errno = 0, statistics = [],
    statistics_suppression = 0, owner_pid = 0, initialization_enabled = False, statistics_ready = False,
    process_init_lock = False, next_snapshot_monotonic_ns = 0, log_is_open = False, log_content = [],
    output_dir = [], output_path = [], process_start_realtime_ns = 0, previous_snapshot_realtime_ns = 0,
    previous_snapshot = zero_hole_snapshot, previous_live_snapshot = zero_live_snapshot,
    initial_process_pid = 0, initial_process_is_appspawndf = False\<rparr>"

lemma comma_join_longer: "ss \<noteq> [] \<Longrightarrow> length ss \<le> length (comma_join ss) + 1"
  by (induction ss rule: comma_join.induct) auto

lemma row_text_short: "length (row_text r) \<le> 16384"
  by (simp add: row_text_def append_csv_row_take OUTPUT_BUFFER_CAPACITY_def)

lemma raw_write_all_once: "length buffer \<le> n \<Longrightarrow> 0 < n \<Longrightarrow> raw_write_all [Wrote n] buffer = (buffer, True)"
  by (cases buffer) (simp_all add: Let_def)

definition sample_log :: hole_state where
  "sample_log = sample_process\<lparr>log_is_open := True, owner_pid := 7\<rparr>"

definition sample_full_world :: world where
  "sample_full_world = sample_world\<lparr>w_write := (\<lambda>n. if n < 3 then [Wrote 3, Write_error] else [Wrote 16384])\<rparr>"

lemma sample_log_run:
  "log_run sample_full_world sample_log
    [Cut (snapshot_row sample_full_world sample_log) (take 3 (row_text (snapshot_row sample_full_world sample_log))),
     Row (snapshot_row sample_full_world (write_snapshot sample_full_world sample_log))]
    (write_snapshot sample_full_world (write_snapshot sample_full_world sample_log))"
proof -
  let ?w = sample_full_world and ?t = "row_text (snapshot_row sample_full_world sample_log)"
  have own: "owns_log ?w sample_log"
    by (simp add: owns_log_def sample_log_def sample_full_world_def sample_world_def sample_process_def)
  have "?t = comma_join (map decimal (row_values (row_start (snapshot_row ?w sample_log))
      (row_end (snapshot_row ?w sample_log)) (row_period (snapshot_row ?w sample_log))
      (row_total (snapshot_row ?w sample_log)) (row_live_period (snapshot_row ?w sample_log))
      (row_live (snapshot_row ?w sample_log)))) @ ''\<newline>''" (is "_ = comma_join (map decimal ?vs) @ _")
    by (simp add: row_text_def row_fits)
  moreover have "713 \<le> length (comma_join (map decimal ?vs)) + 1"
  proof -
    have "map decimal ?vs \<noteq> []" "length (map decimal ?vs) = 713"
      using row_values_length by (metis length_map list.size(3) zero_neq_numeral)+
    then show ?thesis
      using comma_join_longer [of "map decimal ?vs"] by simp
  qed
  ultimately have long: "3 < length ?t"
    by simp
  have "\<exists>a b c d rest. xs = a # b # c # d # rest" if "3 < length xs" for xs :: string
    using that by (cases xs; cases "tl xs"; cases "tl (tl xs)"; cases "tl (tl (tl xs))") auto
  then obtain a b c d rest where t: "?t = a # b # c # d # rest"
    using long by blast
  have "snapshot_answers ?w sample_log = [Wrote 3, Write_error]"
    by (simp add: snapshot_answers_def sample_full_world_def sample_log_def sample_process_def)
  then have cut: "raw_write_all (snapshot_answers ?w sample_log) ?t = (take 3 ?t, False)"
    by (simp add: t)
  have tick: "tick (write_snapshot ?w sample_log) = 3" "log_is_open (write_snapshot ?w sample_log)"
    using cut own by (simp_all add: write_snapshot_cases sample_log_def sample_process_def Let_def)
  then have "snapshot_answers ?w (write_snapshot ?w sample_log) = [Wrote 16384]"
    by (simp add: snapshot_answers_def sample_full_world_def)
  then have full: "raw_write_all (snapshot_answers ?w (write_snapshot ?w sample_log))
      (row_text (snapshot_row ?w (write_snapshot ?w sample_log))) =
      (row_text (snapshot_row ?w (write_snapshot ?w sample_log)), True)"
    using raw_write_all_once [OF row_text_short] by simp
  have "owns_log ?w (write_snapshot ?w sample_log)"
    using tick(2) by (simp add: owns_log_def sample_full_world_def sample_world_def sample_log_def sample_process_def)
  from log_run.written [OF log_run.written [OF log_run.start own cut] this full] show ?thesis
    by simp
qed

theorem periods_add_up_witness:
  "log_content (write_snapshot sample_full_world (write_snapshot sample_full_world sample_log)) =
     take 3 (row_text (snapshot_row sample_full_world sample_log)) @
     row_text (snapshot_row sample_full_world (write_snapshot sample_full_world sample_log)) \<and>
   allocations (row_period (snapshot_row sample_full_world (write_snapshot sample_full_world sample_log))) =
     allocations (row_total (snapshot_row sample_full_world (write_snapshot sample_full_world sample_log)))"
proof -
  have "previous_snapshot sample_log = zero_hole_snapshot" "previous_live_snapshot sample_log = zero_live_snapshot"
    "log_content sample_log = []" "allocations \<in> hole_counters"
    by (simp_all add: sample_log_def sample_process_def hole_counters_def)
  note p = periods_add_up [OF sample_log_run this(1,2), unfolded Let_def] and a = this(3,4)
  define r where "r = snapshot_row sample_full_world (write_snapshot sample_full_world sample_log)"
  have "\<forall>f\<in>hole_counters. f (row_period r) = f (row_total r)"
    using conjunct2 [OF conjunct2 [OF conjunct2 [OF p]]] unfolding r_def [symmetric] by simp
  then have "allocations (row_period r) = allocations (row_total r)"
    using a(2) by blast
  moreover have "log_content (write_snapshot sample_full_world (write_snapshot sample_full_world sample_log)) =
     take 3 (row_text (snapshot_row sample_full_world sample_log)) @ row_text r"
    using conjunct1 [OF p] a(1) unfolding r_def [symmetric] by simp
  ultimately show ?thesis
    unfolding r_def by blast
qed

text \<open>C13: The \<open>appspawndf\<close> server itself is never measured, and a child forked from it starts from
  nothing at its first event: it is initialised under its own process id with clean statistics
  and an empty live table, whatever was copied from the parent, and from then on records
  without asking for its process id again.\<close>

theorem appspawndf_child_starts_clean:
  assumes "initialization_enabled st" and "statistics_suppression st = 0"
    and "initial_process_is_appspawndf st" and "owner_pid st = initial_process_pid st"
    and "\<not> process_init_lock st" and "w_pid w (tick st + 1) = w_pid w (tick st)"
  shows "if w_pid w (tick st) = initial_process_pid st
    then prepare_recording w st = (st\<lparr>tick := tick st + 1, errno := w_errno w (tick st)\<rparr>, False)
    else \<exists>st'. prepare_recording w st = (st', True) \<and> fresh_statistics st' \<and>
      owner_pid st' = w_pid w (tick st) \<and> prepare_recording w st' = (st', True)"
proof (cases "w_pid w (tick st) = initial_process_pid st")
  case True
  then show ?thesis
    using assms by (simp add: prepare_recording_def calls Let_def)
next
  case False
  let ?st = "st\<lparr>tick := tick st + 1, errno := w_errno w (tick st)\<rparr>"
  obtain st' ok where e: "ensure_current_process w ?st = (st', ok)" by fastforce
  have p: "prepare_recording w st = (st', ok)"
    using assms False e by (simp add: prepare_recording_def calls Let_def)
  have "w_pid w (tick ?st) \<noteq> owner_pid ?st" "\<not> process_init_lock ?st"
    using assms False by simp_all
  then have "st' = (initialize_process w (w_pid w (tick ?st))
      (?st\<lparr>tick := tick ?st + 1, errno := w_errno w (tick ?st), process_init_lock := True\<rparr>))\<lparr>process_init_lock := False\<rparr>"
      "ok = statistics_ready st'"
    using e by (auto simp: ensure_current_process_def calls Let_def split: if_splits)
  then have f: "fresh_statistics st'" "ok" "owner_pid st' = w_pid w (tick st)" "statistics_ready st'"
    "initial_process_pid st' = initial_process_pid st" "initialization_enabled st'" "statistics_suppression st' = 0"
    using initialize_process_fresh [of w "w_pid w (tick ?st)"
        "?st\<lparr>tick := tick ?st + 1, errno := w_errno w (tick ?st), process_init_lock := True\<rparr>"] assms
    by (simp_all add: fresh_statistics_def live_consistent_def shard_counts_zero)
  have "prepare_recording w st' = (st', True)"
    using f False by (simp add: prepare_recording_def)
  with p f False show ?thesis by simp
qed

theorem appspawndf_child_starts_clean_witness:
  "\<exists>st'. prepare_recording sample_world (sample_process\<lparr>initialization_enabled := True,
      initial_process_is_appspawndf := True, initial_process_pid := 3, owner_pid := 3\<rparr>) = (st', True) \<and>
    fresh_statistics st' \<and> owner_pid st' = 7 \<and> prepare_recording sample_world st' = (st', True)"
  using appspawndf_child_starts_clean [of "sample_process\<lparr>initialization_enabled := True,
      initial_process_is_appspawndf := True, initial_process_pid := 3, owner_pid := 3\<rparr>" sample_world]
  by (simp add: sample_world_def sample_process_def)

text \<open>
  The invariant of the threads that check the deadline: after an exchange the deadline is an interval later
  than the clock reading of that exchange, and the exchanges that have not written yet are of one thread each.
\<close>

definition periodic_init :: "hole_state \<Rightarrow> periodic_run" where
  "periodic_init st = \<lparr>process = st, phase = (\<lambda>_. Outside), exchanges = [], snapshots = []\<rparr>"

definition periodic_ok :: "periodic_run \<Rightarrow> bool" where
  "periodic_ok c \<longleftrightarrow>
    sorted_wrt (\<lambda>a b. unat a + 10000000000 \<le> unat b) (exchanges c) \<and>
    (exchanges c \<noteq> [] \<longrightarrow> unat (next_snapshot_monotonic_ns (process c)) = unat (last (exchanges c)) + 10000000000) \<and>
    (\<forall>t now. phase c t = Clock_read now \<longrightarrow> unat now + 10000000000 < 2 ^ 64) \<and>
    (\<forall>t now d. phase c t = Deadline_loaded now d \<longrightarrow> unat now + 10000000000 < 2 ^ 64 \<and> unat d \<le> unat now) \<and>
    distinct (snapshots c) \<and> set (snapshots c) \<subseteq> set (exchanges c) \<and>
    (\<forall>t now. phase c t = Exchanged now \<longrightarrow> now \<in> set (exchanges c) \<and> now \<notin> set (snapshots c)) \<and>
    (\<forall>t t' now. phase c t = Exchanged now \<longrightarrow> phase c t' = Exchanged now \<longrightarrow> t = t')"

lemma sorted_last: "sorted_wrt (\<lambda>a b. unat a + n \<le> unat b) xs \<Longrightarrow> x \<in> set xs \<Longrightarrow> unat x \<le> unat (last xs)"
  for xs :: "u64 list"
  by (induction xs) (auto, metis add_leD1 last_in_set)

lemma periodic_exchange_ok:
  assumes ok: "periodic_ok c" and ph: "phase c t = Deadline_loaded now deadline"
    and cas: "deadline_compare_exchange deadline now (process c) = (st, exchanged)"
  shows "periodic_ok (c\<lparr>process := st, phase := (phase c)(t := if exchanged then Exchanged now else Outside),
    exchanges := (if exchanged then exchanges c @ [now] else exchanges c)\<rparr>)"
proof (cases exchanged)
  case False
  then have "next_snapshot_monotonic_ns st = next_snapshot_monotonic_ns (process c)"
    using cas by (auto simp: deadline_compare_exchange_def Let_def split: if_splits)
  then show ?thesis
    using ok False by (simp add: periodic_ok_def)
next
  case True
  then have cas: "next_snapshot_monotonic_ns (process c) = deadline" "next_snapshot_monotonic_ns st = now + 10000000000"
    using cas by (auto simp: deadline_compare_exchange_def interval_seconds_def Let_def split: if_splits)
  have now: "unat now + 10000000000 < 2 ^ 64" "unat deadline \<le> unat now"
    using ok ph unfolding periodic_ok_def by blast+
  then have new: "unat (now + 10000000000) = unat now + 10000000000"
    by (subst unat_add_no_wrap) simp_all
  have later: "unat x + 10000000000 \<le> unat now" if "x \<in> set (exchanges c)" for x
  proof -
    have "exchanges c \<noteq> []"
      using that by auto
    moreover from this have "unat deadline = unat (last (exchanges c)) + 10000000000"
      using ok cas(1) unfolding periodic_ok_def by blast
    moreover have "unat x \<le> unat (last (exchanges c))"
      using ok that sorted_last unfolding periodic_ok_def by blast
    ultimately show ?thesis
      using now(2) by linarith
  qed
  then have "now \<notin> set (exchanges c)"
    by fastforce
  then show ?thesis
    using ok True cas new later unfolding periodic_ok_def
    by (auto simp: sorted_wrt_append)
qed

lemma periodic_step_ok:
  assumes "periodic_step w c c'" and "periodic_ok c" and "\<And>n. unat (w_monotonic w n) + 10000000000 < 2 ^ 64"
  shows "periodic_ok c'"
  using assms(1)
proof cases
  case (periodic_clock t st now)
  then have "now = w_monotonic w (tick (process c))" "next_snapshot_monotonic_ns st = next_snapshot_monotonic_ns (process c)"
    by (auto simp: calls)
  then show ?thesis
    using periodic_clock(1) assms(2) assms(3) [of "tick (process c)"] by (auto simp: periodic_ok_def)
next
  case (periodic_load t now deadline)
  then have "unat now + 10000000000 < 2 ^ 64"
    using assms(2) unfolding periodic_ok_def by blast
  then show ?thesis
    using periodic_load(1) assms(2) by (auto simp: periodic_ok_def snapshot_is_due_def word_less_nat_alt not_less)
next
  case (periodic_exchange t now deadline st exchanged)
  then show ?thesis
    using periodic_exchange_ok [OF assms(2)] by simp
next
  case (periodic_write t now)
  then show ?thesis
    using assms(2) unfolding periodic_ok_def by (auto; metis)
next
  case (periodic_other st)
  then show ?thesis
    using assms(2) by (simp add: periodic_ok_def)
qed

lemma periodic_run_ok:
  assumes "(periodic_step w)\<^sup>*\<^sup>* (periodic_init st) c" and "\<And>n. unat (w_monotonic w n) + 10000000000 < 2 ^ 64"
  shows "periodic_ok c"
  using assms(1)
proof (induction rule: rtranclp_induct)
  case (step c c')
  then show ?case
    using periodic_step_ok assms(2) by blast
qed (simp add: periodic_init_def periodic_ok_def)

text \<open>C14: Periodic snapshots keep the configured interval, however many threads check the deadline at
  the same time and however their accesses interleave: the clock readings whose compare-and-swap
  succeeds are at least ten seconds apart, in the order of the exchanges, and each of them leads to at most one
  snapshot; a thread whose compare-and-swap fails writes none. (The clock may fail or jump as long as ten
  seconds can be added to its readings.)\<close>

theorem periodic_snapshot_interval:
  assumes "(periodic_step w)\<^sup>*\<^sup>* (periodic_init st) c" and "\<And>n. unat (w_monotonic w n) + 10000000000 < 2 ^ 64"
  shows "sorted_wrt (\<lambda>a b. unat a + 10000000000 \<le> unat b) (exchanges c) \<and>
    distinct (snapshots c) \<and> set (snapshots c) \<subseteq> set (exchanges c)"
  using periodic_run_ok [OF assms] by (simp add: periodic_ok_def)

text \<open>Two threads load the same deadline; one exchanges it, the other fails.\<close>

definition two_threads_world :: world where
  "two_threads_world = sample_world\<lparr>w_monotonic := (\<lambda>n. of_nat (min n 1000) + 1)\<rparr>"

definition due_log :: hole_state where
  "due_log = sample_log\<lparr>tick := 4, next_snapshot_monotonic_ns := 5\<rparr>"

lemma two_threads_run:
  "\<exists>c. (periodic_step two_threads_world)\<^sup>*\<^sup>* (periodic_init due_log) c \<and> exchanges c = [6] \<and> snapshots c = [6]"
proof -
  let ?w = two_threads_world
  define st where "st n = due_log\<lparr>tick := 4 + n, errno := 0\<rparr>" for n
  have clock: "monotonic_ns ?w (due_log) = (st 1, 5)" "monotonic_ns ?w (st 1) = (st 2, 6)"
    by (simp_all add: st_def calls two_threads_world_def sample_world_def due_log_def)
  define c1 where "c1 = (periodic_init due_log)\<lparr>process := st 1, phase := (\<lambda>_. Outside)(0 := Clock_read 5)\<rparr>"
  define c2 where "c2 = c1\<lparr>process := st 2, phase := (phase c1)(1 := Clock_read 6)\<rparr>"
  define c3 where "c3 = c2\<lparr>phase := (phase c2)(0 := Deadline_loaded 5 5)\<rparr>"
  define c4 where "c4 = c3\<lparr>phase := (phase c3)(1 := Deadline_loaded 6 5)\<rparr>"
  define c5 where "c5 = c4\<lparr>process := (st 2)\<lparr>next_snapshot_monotonic_ns := 10000000006\<rparr>,
    phase := (phase c4)(1 := Exchanged 6), exchanges := [6]\<rparr>"
  define c6 where "c6 = c5\<lparr>phase := (phase c5)(0 := Outside)\<rparr>"
  define c7 where "c7 = c6\<lparr>process := write_snapshot ?w (process c6), phase := (phase c6)(1 := Outside), snapshots := [6]\<rparr>"
  have s1: "periodic_step ?w (periodic_init due_log) c1"
    using periodic_step.periodic_clock [of "periodic_init due_log" 0 ?w "st 1" 5] clock(1)
    by (simp add: periodic_init_def c1_def)
  have s2: "periodic_step ?w c1 c2"
    using periodic_step.periodic_clock [of c1 1 ?w "st 2" 6] clock(2) by (simp add: c1_def c2_def)
  have s3: "periodic_step ?w c2 c3"
  proof -
    have "phase c2 0 = Clock_read 5" "next_snapshot_monotonic_ns (process c2) = 5" "snapshot_is_due 5 5"
      by (simp_all add: c1_def c2_def st_def due_log_def snapshot_is_due_def)
    from periodic_step.periodic_load [OF this(1) this(2) [symmetric], of ?w] this(3) show ?thesis
      unfolding c3_def by (simp only: if_True)
  qed
  have s4: "periodic_step ?w c3 c4"
  proof -
    have "phase c3 1 = Clock_read 6" "next_snapshot_monotonic_ns (process c3) = 5" "snapshot_is_due 6 5"
      by (simp_all add: c1_def c2_def c3_def st_def due_log_def snapshot_is_due_def)
    from periodic_step.periodic_load [OF this(1) this(2) [symmetric], of ?w] this(3) show ?thesis
      unfolding c4_def by (simp only: if_True)
  qed
  have s5: "periodic_step ?w c4 c5"
  proof -
    have "deadline_compare_exchange 5 6 (st 2) = ((st 2)\<lparr>next_snapshot_monotonic_ns := 10000000006\<rparr>, True)"
      by (simp add: deadline_compare_exchange_def interval_seconds_def st_def due_log_def)
    moreover have "process c4 = st 2" "phase c4 1 = Deadline_loaded 6 5" "exchanges c4 = []"
      by (simp_all add: c1_def c2_def c3_def c4_def periodic_init_def)
    ultimately show ?thesis
      using periodic_step.periodic_exchange [of c4 1 6 5 "(st 2)\<lparr>next_snapshot_monotonic_ns := 10000000006\<rparr>" True ?w]
      by (simp add: c5_def)
  qed
  have s6: "periodic_step ?w c5 c6"
  proof -
    have "deadline_compare_exchange 5 5 (process c5) = (process c5, False)"
      by (simp add: deadline_compare_exchange_def c5_def)
    moreover have "phase c5 0 = Deadline_loaded 5 5"
      by (simp add: c1_def c2_def c3_def c4_def c5_def)
    ultimately show ?thesis
      using periodic_step.periodic_exchange [of c5 0 5 5 "process c5" False ?w]
      by (simp add: c6_def)
  qed
  have s7: "periodic_step ?w c6 c7"
    using periodic_step.periodic_write [of c6 1 6 ?w]
    by (simp add: c1_def c2_def c3_def c4_def c5_def c6_def c7_def periodic_init_def)
  let ?reached = "(periodic_step ?w)\<^sup>*\<^sup>* (periodic_init due_log)"
  have "?reached c1"
    using s1 by (rule r_into_rtranclp)
  then have "?reached c2"
    using s2 by (rule rtranclp.rtrancl_into_rtrancl)
  then have "?reached c3"
    using s3 by (rule rtranclp.rtrancl_into_rtrancl)
  then have "?reached c4"
    using s4 by (rule rtranclp.rtrancl_into_rtrancl)
  then have "?reached c5"
    using s5 by (rule rtranclp.rtrancl_into_rtrancl)
  then have "?reached c6"
    using s6 by (rule rtranclp.rtrancl_into_rtrancl)
  then have "?reached c7"
    using s7 by (rule rtranclp.rtrancl_into_rtrancl)
  moreover have "exchanges c7 = [6]" "snapshots c7 = [6]"
    by (simp_all add: c5_def c6_def c7_def)
  ultimately show ?thesis by blast
qed

theorem periodic_snapshot_interval_witness:
  "\<exists>c. (periodic_step two_threads_world)\<^sup>*\<^sup>* (periodic_init due_log) c \<and> exchanges c = [6] \<and>
    sorted_wrt (\<lambda>a b. unat a + 10000000000 \<le> unat b) (exchanges c) \<and> distinct (snapshots c) \<and>
    set (snapshots c) \<subseteq> set (exchanges c)"
proof -
  have "unat (w_monotonic two_threads_world n) + 10000000000 < 2 ^ 64" for n
  proof -
    have "unat (of_nat (min n 1000) + 1 :: u64) = min n 1000 + 1"
      by (subst unat_add_no_wrap) (simp_all add: unat_of_nat_u64)
    then show ?thesis
      by (simp add: two_threads_world_def)
  qed
  then show ?thesis
    using two_threads_run periodic_snapshot_interval [of two_threads_world due_log] by blast
qed

text \<open>The path of the log is never cut off: for any configured directory, process id and start
  time it is the directory (at most 255 characters of it), a separator if it needs one, and
  \<open>mini_hole_<start>_<pid>.csv\<close>.\<close>

theorem output_path_complete:
  "output_path (prepare_output_path pid (copy_output_dir source st)) =
    (let dir = take 255 source in
     dir @ (if dir \<noteq> [] \<and> last dir \<noteq> CHR ''/'' then ''/'' else []) @ ''mini_hole_'' @
     decimal (process_start_realtime_ns st) @ ''_'' @ decimal pid @ ''.csv'')"
proof -
  define dir where "dir = take 255 source"
  have start: "append_text 383 [] t = take 383 t" for t
    using append_text_take [of 383 "[]" t] by simp
  have short: "length dir \<le> 255"
    by (simp add: dir_def)
  then have whole: "take 383 dir = dir"
    by simp
  note len = decimal_length [of "process_start_realtime_ns st"] decimal_length [of pid]
  have fits: "take 383 (dir @ sep @ ''mini_hole_'' @ decimal (process_start_realtime_ns st) @ ''_'' @
      decimal pid @ ''.csv'') = dir @ sep @ ''mini_hole_'' @
      decimal (process_start_realtime_ns st) @ ''_'' @ decimal pid @ ''.csv''" if "length sep \<le> 1" for sep
    using len short that by (intro take_all) simp
  have sep: "(if dir \<noteq> [] \<and> last dir \<noteq> CHR ''/'' then append_text 383 (take 383 dir) ''/'' else take 383 dir) =
      take 383 (dir @ (if dir \<noteq> [] \<and> last dir \<noteq> CHR ''/'' then ''/'' else []))"
    by (simp add: append_text_take del: take_append append_text.simps)
  have "output_path (prepare_output_path pid (copy_output_dir source st)) =
    append_text 383 (append_u64 383 (append_text 383 (append_u64 383 (append_text 383
      (if dir \<noteq> [] \<and> last dir \<noteq> CHR ''/'' then append_text 383 (take 383 dir) ''/'' else take 383 dir)
      ''mini_hole_'') (process_start_realtime_ns st)) ''_'') pid) ''.csv''"
    by (simp add: prepare_output_path_def copy_output_dir_def Let_def OUTPUT_PATH_CAPACITY_def
        OUTPUT_DIR_CAPACITY_def start whole dir_def [symmetric] del: append_text.simps)
  also have "\<dots> = take 383 (dir @ (if dir \<noteq> [] \<and> last dir \<noteq> CHR ''/'' then ''/'' else []) @
     ''mini_hole_'' @ decimal (process_start_realtime_ns st) @ ''_'' @ decimal pid @ ''.csv'')"
    by (subst sep) (simp only: append_text_take append_u64_take append_assoc)
  finally show ?thesis
    unfolding Let_def dir_def [symmetric] by (subst (asm) fits) simp_all
qed

end
