(* ===== verification/Bootstrap.thy ===== *)
theory Bootstrap
  imports Prelude
begin

text \<open>
  The bootstrap heaps: the 1 MiB static arenas that serve allocations made before the real
  allocator is resolved. \<open>malloc_hole_hook.c\<close> (and, in the same words, \<open>malloc_free_hook.c\<close> and
  \<open>malloc_hole_all_api_passthrough.c\<close>) bumps an offset with a compare-and-swap after checking the
  capacity and stores the size in a header in front of the block, in the bytes of the same arena;
  \<open>malloc_hole_passthrough.c\<close> bumps with a fetch-and-add before the check. The
  compare-and-swap only succeeds on the offset the check was made for, so a call is one atomic
  step on the offset. Addresses are those of the arena, which starts at \<open>base\<close>;
  \<open>_Alignof(max_align_t)\<close> is 16 and the header takes 32 bytes on the 64-bit targets.
\<close>

definition BOOTSTRAP_HEAP_CAPACITY :: u64 where "BOOTSTRAP_HEAP_CAPACITY = 1024 * 1024"
definition max_align :: u64 where "max_align = 16"
definition bootstrap_header_bytes :: u64 where "bootstrap_header_bytes = 32"

lemmas bootstrap_constants = BOOTSTRAP_HEAP_CAPACITY_def max_align_def bootstrap_header_bytes_def

text \<open>The offset, and the bytes of the address space, headers and blocks alike.\<close>

record bootstrap_state =
  bootstrap_offset :: u64
  heap_byte :: "u64 \<Rightarrow> u8"

text \<open>
  \<open>metadata.size\<close>, the first eight bytes of a header, as the 64-bit little-endian targets store it; the
  other 24 bytes of a header are not written.
\<close>

definition size_byte :: "u64 \<Rightarrow> nat \<Rightarrow> u8" where
  "size_byte sz i = ucast (drop_bit (8 * i) sz)"

definition store_header_size :: "u64 \<Rightarrow> u64 \<Rightarrow> (u64 \<Rightarrow> u8) \<Rightarrow> (u64 \<Rightarrow> u8)" where
  "store_header_size header sz m = foldl (\<lambda>m i. m(header + of_nat i := size_byte sz i)) m [0..<8]"

definition load_header_size :: "u64 \<Rightarrow> (u64 \<Rightarrow> u8) \<Rightarrow> u64" where
  "load_header_size header m = foldr (\<lambda>i w. push_bit 8 w OR ucast (m (header + of_nat i))) [0..<8] 0"

definition copy_bytes :: "u64 \<Rightarrow> u64 \<Rightarrow> nat \<Rightarrow> (u64 \<Rightarrow> u8) \<Rightarrow> (u64 \<Rightarrow> u8)" where
  "copy_bytes destination source n m =
    foldl (\<lambda>m i. m(destination + of_nat i := m (source + of_nat i))) m [0..<n]"

definition zero_bytes :: "u64 \<Rightarrow> nat \<Rightarrow> (u64 \<Rightarrow> u8) \<Rightarrow> (u64 \<Rightarrow> u8)" where
  "zero_bytes destination n m = foldl (\<lambda>m i. m(destination + of_nat i := 0)) m [0..<n]"

text \<open>\<open>bootstrap_malloc\<close>; the result \<open>0\<close> is \<open>NULL\<close>.\<close>

definition bootstrap_malloc :: "u64 \<Rightarrow> u64 \<Rightarrow> bootstrap_state \<Rightarrow> bootstrap_state \<times> u64" where
  "bootstrap_malloc base sz st =
    (let alignment = max_align;
         allocation_size = (if sz = 0 then 1 else sz)
     in if allocation_size > SIZE_MAX - (alignment - 1) \<or>
           allocation_size + alignment - 1 > SIZE_MAX - bootstrap_header_bytes
        then (st, 0)
        else
          let allocation_size = ((allocation_size + alignment - 1) div alignment) * alignment;
              allocation_size = allocation_size + bootstrap_header_bytes;
              offset = bootstrap_offset st
          in if offset > BOOTSTRAP_HEAP_CAPACITY \<or> allocation_size > BOOTSTRAP_HEAP_CAPACITY - offset
             then (st, 0)
             else (st\<lparr>bootstrap_offset := offset + allocation_size,
                       heap_byte := store_header_size (base + offset) sz (heap_byte st)\<rparr>,
                   base + offset + bootstrap_header_bytes))"

definition is_bootstrap_pointer :: "u64 \<Rightarrow> u64 \<Rightarrow> bool" where
  "is_bootstrap_pointer base ptr =
    (if ptr = 0 then False
     else base \<le> ptr \<and> ptr < base + BOOTSTRAP_HEAP_CAPACITY)"

definition bootstrap_pointer_size :: "u64 \<Rightarrow> bootstrap_state \<Rightarrow> u64" where
  "bootstrap_pointer_size ptr st = load_header_size (ptr - bootstrap_header_bytes) (heap_byte st)"

definition bootstrap_calloc :: "u64 \<Rightarrow> u64 \<Rightarrow> u64 \<Rightarrow> bootstrap_state \<Rightarrow> bootstrap_state \<times> u64" where
  "bootstrap_calloc base nmemb sz st =
    (if sz \<noteq> 0 \<and> nmemb > SIZE_MAX div sz then (st, 0)
     else
       let total = nmemb * sz;
           (st, ptr) = bootstrap_malloc base total st
       in if ptr \<noteq> 0 then (st\<lparr>heap_byte := zero_bytes ptr (unat total) (heap_byte st)\<rparr>, ptr)
          else (st, ptr))"

definition bootstrap_realloc :: "u64 \<Rightarrow> u64 \<Rightarrow> u64 \<Rightarrow> bootstrap_state \<Rightarrow> bootstrap_state \<times> u64" where
  "bootstrap_realloc base ptr sz st =
    (if ptr = 0 then bootstrap_malloc base sz st
     else if \<not> is_bootstrap_pointer base ptr \<or> sz = 0 then (st, 0)
     else
       let (st, new_ptr) = bootstrap_malloc base sz st
       in if new_ptr \<noteq> 0
          then
            let old_size = bootstrap_pointer_size ptr st
            in (st\<lparr>heap_byte := copy_bytes new_ptr ptr (unat (if old_size < sz then old_size else sz))
                      (heap_byte st)\<rparr>, new_ptr)
          else (st, new_ptr))"

text \<open>The variant of \<open>malloc_hole_passthrough.c\<close>: the offset moves before the check.\<close>

definition passthrough_bootstrap_malloc :: "u64 \<Rightarrow> u64 \<Rightarrow> u64 \<Rightarrow> u64 \<times> u64" where
  "passthrough_bootstrap_malloc base sz current =
    (let alignment = max_align;
         amount = (if sz = 0 then 1 else sz)
     in if amount > SIZE_MAX - (alignment - 1) then (current, 0)
        else
          let amount = ((amount + alignment - 1) div alignment) * alignment;
              offset = current;
              current = current + amount
          in if offset > BOOTSTRAP_HEAP_CAPACITY \<or> amount > BOOTSTRAP_HEAP_CAPACITY - offset
             then (current, 0)
             else (current, base + offset))"

subsection \<open>Blocks\<close>

text \<open>An arena lies in the address space without wrapping and is aligned.\<close>

definition arena :: "u64 \<Rightarrow> bool" where
  "arena base \<longleftrightarrow> 0 < unat base \<and> 16 dvd unat base \<and> unat base + 1048576 < 2 ^ 64"

definition footprint :: "u64 \<Rightarrow> nat" where
  "footprint sz = ceil_to 16 (max 1 (unat sz)) + 32"

lemma footprint_ge: "unat sz + 32 \<le> footprint sz" "33 \<le> footprint sz" "16 dvd footprint sz"
  using ceil_to_ge [of 16 "max 1 (unat sz)"] ceil_to_dvd [of 16 "max 1 (unat sz)"]
  by (auto simp: footprint_def dvd_add)

lemma aligned_amount:
  assumes "a = (if sz = 0 then 1 else sz)"
  shows "a > SIZE_MAX - (max_align - 1) \<or> a + max_align - 1 > SIZE_MAX - bootstrap_header_bytes \<longleftrightarrow>
      2 ^ 64 - 48 < unat a"
    and "unat a \<le> 2 ^ 64 - 48 \<Longrightarrow>
      unat (((a + max_align - 1) div max_align) * max_align + bootstrap_header_bytes) = footprint sz"
proof -
  have u: "unat a = max 1 (unat sz)"
    using assms by (auto simp: max_def unat_gt_0 Suc_le_eq)
  have m: "unat (SIZE_MAX - (max_align - 1)) = 2 ^ 64 - 16" "unat (SIZE_MAX - bootstrap_header_bytes) = 2 ^ 64 - 33"
    by (simp_all add: bootstrap_constants unat_sub_no_wrap)
  have s: "unat (a + max_align - 1) = unat a + 15" if "unat a \<le> 2 ^ 64 - 16"
  proof -
    have e: "a + max_align - 1 = a + 15" by (simp add: bootstrap_constants)
    show ?thesis using that unfolding e by (simp add: unat_add_no_wrap)
  qed
  show "a > SIZE_MAX - (max_align - 1) \<or> a + max_align - 1 > SIZE_MAX - bootstrap_header_bytes \<longleftrightarrow>
      2 ^ 64 - 48 < unat a"
    using s m by (cases "unat a \<le> 2 ^ 64 - 16") (simp_all add: word_less_nat_alt)
  assume "unat a \<le> 2 ^ 64 - 48"
  then have le: "unat a \<le> 18446744073709551568" by simp
  have c: "unat (((a + max_align - 1) div max_align) * max_align) = (unat a + 15) div 16 * 16"
  proof -
    have "(unat a + 15) div 16 * 16 < 18446744073709551616"
      using le div_times_less_eq_dividend [of "unat a + 15" 16] by linarith
    then show ?thesis
      using s le by (subst unat_mult_lem [THEN iffD1])
        (simp_all add: unat_div bootstrap_constants)
  qed
  moreover have "(unat a + 15) div 16 * 16 + 32 < 18446744073709551616"
    using le div_times_less_eq_dividend [of "unat a + 15" 16] by linarith
  moreover have "footprint sz = (unat a + 15) div 16 * 16 + 32"
    by (simp add: footprint_def ceil_to_def u)
  moreover have "unat bootstrap_header_bytes = 32"
    by (simp add: bootstrap_constants)
  ultimately show "unat (((a + max_align - 1) div max_align) * max_align + bootstrap_header_bytes) = footprint sz"
    by (subst unat_add_no_wrap) simp_all
qed

lemma bootstrap_malloc_cases:
  assumes "arena base"
  shows "if footprint sz \<le> 1048576 - unat (bootstrap_offset st) \<and> unat (bootstrap_offset st) \<le> 1048576
    then bootstrap_malloc base sz st =
        (st\<lparr>bootstrap_offset := bootstrap_offset st + of_nat (footprint sz),
            heap_byte := store_header_size (base + bootstrap_offset st) sz (heap_byte st)\<rparr>,
         base + bootstrap_offset st + 32) \<and>
      unat (base + bootstrap_offset st + 32) = unat base + unat (bootstrap_offset st) + 32 \<and>
      unat (bootstrap_offset st + of_nat (footprint sz)) = unat (bootstrap_offset st) + footprint sz
    else bootstrap_malloc base sz st = (st, 0)"
proof -
  define a where "a = (if sz = 0 then 1 else sz)"
  define n where "n = ((a + max_align - 1) div max_align) * max_align + bootstrap_header_bytes"
  note amount = aligned_amount [OF a_def]
  have m: "bootstrap_malloc base sz st =
      (if 2 ^ 64 - 48 < unat a then (st, 0)
       else if bootstrap_offset st > BOOTSTRAP_HEAP_CAPACITY \<or> n > BOOTSTRAP_HEAP_CAPACITY - bootstrap_offset st
         then (st, 0)
         else (st\<lparr>bootstrap_offset := bootstrap_offset st + n,
                  heap_byte := store_header_size (base + bootstrap_offset st) sz (heap_byte st)\<rparr>,
              base + bootstrap_offset st + bootstrap_header_bytes))"
    unfolding bootstrap_malloc_def Let_def a_def [symmetric] n_def [symmetric] amount(1) ..
  show ?thesis
  proof (cases "2 ^ 64 - 48 < unat a")
    case True
    then have "footprint sz > 1048576"
      using footprint_ge(1) [of sz] by (auto simp: a_def split: if_splits)
    with True m show ?thesis by auto
  next
    case False
    have n: "unat n = footprint sz"
      using amount(2) False by (simp add: n_def)
    have n': "n = of_nat (footprint sz)"
      by (simp add: n [symmetric])
    have cond: "bootstrap_offset st > BOOTSTRAP_HEAP_CAPACITY \<or> n > BOOTSTRAP_HEAP_CAPACITY - bootstrap_offset st
        \<longleftrightarrow> \<not> (footprint sz \<le> 1048576 - unat (bootstrap_offset st) \<and> unat (bootstrap_offset st) \<le> 1048576)"
      using n unat_sub_no_wrap [of "bootstrap_offset st" "1048576 :: u64"]
      by (cases "unat (bootstrap_offset st) \<le> 1048576")
        (auto simp: word_less_nat_alt BOOTSTRAP_HEAP_CAPACITY_def)
    show ?thesis
    proof (cases "footprint sz \<le> 1048576 - unat (bootstrap_offset st) \<and> unat (bootstrap_offset st) \<le> 1048576")
      case True
      then have "unat (base + bootstrap_offset st) = unat base + unat (bootstrap_offset st)"
        using assms footprint_ge by (intro unat_add_no_wrap) (auto simp: arena_def)
      moreover have "unat (base + bootstrap_offset st + 32) = unat (base + bootstrap_offset st) + 32"
        using True assms footprint_ge(2) [of sz] calculation by (subst unat_add_no_wrap) (auto simp: arena_def)
      moreover have "unat (bootstrap_offset st + n) = unat (bootstrap_offset st) + footprint sz"
        using True n by (subst unat_add_no_wrap) auto
      ultimately show ?thesis
        using True False m cond n' by (simp add: bootstrap_header_bytes_def)
    next
      case nofit: False
      then show ?thesis
        using False m cond by (simp only: if_False if_True not_False_eq_True)
    qed
  qed
qed

text \<open>A sequence of calls, with the results in order.\<close>

fun bootstrap_run :: "u64 \<Rightarrow> u64 list \<Rightarrow> bootstrap_state \<Rightarrow> bootstrap_state \<times> (u64 \<times> u64) list" where
  "bootstrap_run base [] st = (st, [])"
| "bootstrap_run base (sz # szs) st =
    (let (st, ptr) = bootstrap_malloc base sz st;
         (st, blocks) = bootstrap_run base szs st
     in (st, if ptr = 0 then blocks else (ptr, sz) # blocks))"

text \<open>A block in the arena part from offset \<open>lo\<close> to offset \<open>hi\<close>, with its header.\<close>

definition block_between :: "u64 \<Rightarrow> nat \<Rightarrow> nat \<Rightarrow> u64 \<times> u64 \<Rightarrow> bool" where
  "block_between base lo hi = (\<lambda>(ptr, sz). 16 dvd unat ptr \<and> unat base + lo + 32 \<le> unat ptr \<and>
     unat ptr + max 1 (unat sz) \<le> unat base + hi)"

text \<open>One block ends before the header of the other begins.\<close>

definition block_before :: "u64 \<times> u64 \<Rightarrow> u64 \<times> u64 \<Rightarrow> bool" where
  "block_before = (\<lambda>(p, m) (q, n). unat p + max 1 (unat m) \<le> unat q - 32)"

definition heap_ok :: "bootstrap_state \<Rightarrow> bool" where
  "heap_ok st \<longleftrightarrow> unat (bootstrap_offset st) \<le> 1048576 \<and> 16 dvd unat (bootstrap_offset st)"

lemma bootstrap_malloc_spec:
  assumes "arena base" and "heap_ok st" and "bootstrap_malloc base sz st = (st', ptr)"
  shows "heap_ok st' \<and> unat (bootstrap_offset st) \<le> unat (bootstrap_offset st') \<and>
    (if ptr = 0 then st' = st
     else block_between base (unat (bootstrap_offset st)) (unat (bootstrap_offset st')) (ptr, sz) \<and>
       heap_byte st' = store_header_size (ptr - 32) sz (heap_byte st))"
proof (cases "footprint sz \<le> 1048576 - unat (bootstrap_offset st)")
  case True
  then have m: "st' = st\<lparr>bootstrap_offset := bootstrap_offset st + of_nat (footprint sz),
            heap_byte := store_header_size (base + bootstrap_offset st) sz (heap_byte st)\<rparr>"
      "ptr = base + bootstrap_offset st + 32"
      "unat ptr = unat base + unat (bootstrap_offset st) + 32"
      "unat (bootstrap_offset st') = unat (bootstrap_offset st) + footprint sz"
    using bootstrap_malloc_cases [OF assms(1), of sz st] assms(2,3) by (auto simp: heap_ok_def)
  have "ptr \<noteq> 0"
    using m(3) by auto
  moreover have "max 1 (unat sz) + 32 \<le> footprint sz"
    using footprint_ge [of sz] by simp
  moreover have "16 dvd unat base + (unat (bootstrap_offset st) + 32)"
    using assms(1,2) by (intro dvd_add) (simp_all add: arena_def heap_ok_def)
  moreover have "heap_byte st' = store_header_size (ptr - 32) sz (heap_byte st)"
    using m(1,2) by simp_all
  ultimately show ?thesis
    using True m(3,4) assms(2) footprint_ge(3) [of sz]
    by (auto simp: heap_ok_def block_between_def dvd_add add.assoc)
next
  case False
  then have "st' = st \<and> ptr = 0"
    using bootstrap_malloc_cases [OF assms(1), of sz st] assms(2,3) by (auto simp: heap_ok_def)
  then show ?thesis
    using assms(2) by simp
qed

lemma block_between_mono:
  "block_between base lo hi b \<Longrightarrow> lo' \<le> lo \<Longrightarrow> hi \<le> hi' \<Longrightarrow> block_between base lo' hi' b"
  by (auto simp: block_between_def)

lemma bootstrap_run_spec:
  assumes "arena base" and "heap_ok st" and "bootstrap_run base szs st = (st', blocks)"
  shows "heap_ok st' \<and> unat (bootstrap_offset st) \<le> unat (bootstrap_offset st') \<and>
    (\<forall>b\<in>set blocks. block_between base (unat (bootstrap_offset st)) (unat (bootstrap_offset st')) b) \<and>
    sorted_wrt block_before blocks"
  using assms(2,3)
proof (induction szs arbitrary: st st' blocks)
  case (Cons sz szs)
  obtain st1 ptr where m: "bootstrap_malloc base sz st = (st1, ptr)" by fastforce
  obtain st2 bs where r: "bootstrap_run base szs st1 = (st2, bs)" by fastforce
  note spec = bootstrap_malloc_spec [OF assms(1) Cons.prems(1) m]
  then have ih: "heap_ok st2" "unat (bootstrap_offset st1) \<le> unat (bootstrap_offset st2)"
    "\<forall>b\<in>set bs. block_between base (unat (bootstrap_offset st1)) (unat (bootstrap_offset st2)) b"
    "sorted_wrt block_before bs"
    using Cons.IH [OF _ r] by auto
  have res: "st' = st2" "blocks = (if ptr = 0 then bs else (ptr, sz) # bs)"
    using Cons.prems(2) m r by (auto split: if_splits)
  have rest: "\<forall>b\<in>set bs. block_between base (unat (bootstrap_offset st)) (unat (bootstrap_offset st2)) b"
    using ih(3) spec by (auto intro: block_between_mono)
  have first: "block_before (ptr, sz) b" if "b \<in> set bs" "ptr \<noteq> 0" for b
    using that ih(3) spec by (fastforce simp: block_before_def block_between_def)
  show ?case
    using res ih rest first spec by (auto intro: block_between_mono)
qed (auto simp: Let_def)

text \<open>The byte loops.\<close>

lemma zero_bytes_nth:
  assumes "unat d + n < 2 ^ 64"
  shows "zero_bytes d n m a = (if unat d \<le> unat a \<and> unat a < unat d + n then 0 else m a)"
  using assms
proof (induction n)
  case (Suc n)
  then have "unat (d + of_nat n) = unat d + n"
    by (subst unat_add_no_wrap) (simp_all add: unat_of_nat_u64)
  then have "a = d + of_nat n \<longleftrightarrow> unat a = unat d + n"
    by (metis word_unat_eq_iff)
  with Suc show ?case by (auto simp: zero_bytes_def)
qed (auto simp: zero_bytes_def)

lemma copy_bytes_nth:
  assumes "unat s + n \<le> unat d" and "unat d + n < 2 ^ 64"
  shows "copy_bytes d s n m a =
    (if unat d \<le> unat a \<and> unat a < unat d + n then m (s + of_nat (unat a - unat d)) else m a)"
  using assms
proof (induction n arbitrary: a)
  case (Suc n)
  then have "unat (d + of_nat n) = unat d + n" "unat (s + of_nat n) = unat s + n"
    by (subst unat_add_no_wrap; simp add: unat_of_nat_u64)+
  moreover from this have "a = d + of_nat n \<longleftrightarrow> unat a = unat d + n"
    by (metis word_unat_eq_iff)
  moreover have "copy_bytes d s (Suc n) m =
      (copy_bytes d s n m)(d + of_nat n := copy_bytes d s n m (s + of_nat n))"
    by (simp add: copy_bytes_def)
  ultimately show ?case
    using Suc.prems Suc.IH [of a] Suc.IH [of "s + of_nat n"] by auto
qed (auto simp: copy_bytes_def)

lemma block_is_bootstrap_pointer:
  assumes "arena base" and "block_between base lo hi (ptr, sz)" and "hi \<le> 1048576"
  shows "is_bootstrap_pointer base ptr"
proof -
  have "unat (base + BOOTSTRAP_HEAP_CAPACITY) = unat base + 1048576"
    using assms(1) by (subst unat_add_no_wrap) (simp_all add: arena_def BOOTSTRAP_HEAP_CAPACITY_def)
  moreover have "ptr \<noteq> 0"
    using assms(2) by (auto simp: block_between_def)
  ultimately show ?thesis
    using assms(2,3) by (auto simp: is_bootstrap_pointer_def word_le_nat_alt word_less_nat_alt block_between_def)
qed

subsection \<open>Properties\<close>

text \<open>C9: Whatever sizes are requested of a bootstrap heap, the blocks it hands out are 16-aligned,
  lie with their header inside the arena, are recognised by \<open>is_bootstrap_pointer\<close>, and no
  block reaches the header of a later one; a request that does not fit fails and changes
  nothing.\<close>

theorem bootstrap_blocks_disjoint:
  assumes "arena base" and "heap_ok st" and "bootstrap_run base szs st = (st', blocks)"
  shows "(\<forall>(ptr, sz)\<in>set blocks. 16 dvd unat ptr \<and> is_bootstrap_pointer base ptr \<and>
      unat base + unat (bootstrap_offset st) + 32 \<le> unat ptr \<and>
      unat ptr + max 1 (unat sz) \<le> unat base + unat BOOTSTRAP_HEAP_CAPACITY) \<and>
    sorted_wrt block_before blocks"
proof -
  note run = bootstrap_run_spec [OF assms]
  have "is_bootstrap_pointer base ptr" if "(ptr, sz) \<in> set blocks" for ptr sz
    using that run block_is_bootstrap_pointer [OF assms(1)] by (fastforce simp: heap_ok_def)
  moreover have "unat BOOTSTRAP_HEAP_CAPACITY = 1048576"
    by (simp add: BOOTSTRAP_HEAP_CAPACITY_def)
  ultimately show ?thesis
    using run by (fastforce simp: block_between_def heap_ok_def)
qed

definition empty_bootstrap :: bootstrap_state where
  "empty_bootstrap = \<lparr>bootstrap_offset = 0, heap_byte = (\<lambda>_. 0)\<rparr>"

theorem bootstrap_blocks_disjoint_witness:
  "snd (bootstrap_run 4096 [100, 0, 2000000, 8] empty_bootstrap) =
     [(4128, 100), (4272, 0), (4320, 8)] \<and>
   sorted_wrt block_before [(4128, 100), (4272, 0), (4320, 8)]"
proof -
  have run: "snd (bootstrap_run 4096 [100, 0, 2000000, 8] empty_bootstrap) =
     [(4128, 100), (4272, 0), (4320, 8)]"
    by (simp add: bootstrap_malloc_def bootstrap_constants Let_def empty_bootstrap_def)
  then obtain st' where "bootstrap_run 4096 [100, 0, 2000000, 8] empty_bootstrap =
     (st', [(4128, 100), (4272, 0), (4320, 8)])"
    by (metis prod.collapse)
  from bootstrap_blocks_disjoint [OF _ _ this] run show ?thesis
    by (simp add: arena_def heap_ok_def empty_bootstrap_def)
qed

text \<open>The size in a header.\<close>

lemma store_header_nth:
  assumes "unat h + 8 < 2 ^ 64"
  shows "store_header_size h sz m a = (if unat h \<le> unat a \<and> unat a < unat h + 8 then size_byte sz (unat a - unat h) else m a)"
proof -
  have "foldl (\<lambda>m i. m(h + of_nat i := size_byte sz i)) m [0..<n] a =
      (if unat h \<le> unat a \<and> unat a < unat h + n then size_byte sz (unat a - unat h) else m a)" if "n \<le> 8" for n
    using that
  proof (induction n)
    case (Suc n)
    then have "unat (h + of_nat n) = unat h + n"
      using assms by (subst unat_add_no_wrap) (simp_all add: unat_of_nat_u64)
    then have "a = h + of_nat n \<longleftrightarrow> unat a = unat h + n"
      by (metis word_unat_eq_iff)
    with Suc show ?case by auto
  qed auto
  from this [of 8] show ?thesis
    unfolding store_header_size_def by simp
qed

lemma load_store_header: "unat h + 8 < 2 ^ 64 \<Longrightarrow> load_header_size h (store_header_size h sz m) = sz"
  unfolding load_header_size_def
  by (intro le_value) (simp_all add: store_header_nth unat_add_no_wrap unat_of_nat_u64 size_byte_def)

lemma load_header_cong:
  "(\<And>i. i < 8 \<Longrightarrow> m (h + of_nat i) = m' (h + of_nat i)) \<Longrightarrow> load_header_size h m = load_header_size h m'"
  unfolding load_header_size_def by (intro foldr_cong) auto

text \<open>Where a copied block and its header lie, and what the bytes in front of them keep.\<close>

lemma bootstrap_realloc_spec:
  assumes "arena base" and "heap_ok st"
    and "block_between base 0 (unat (bootstrap_offset st)) (ptr, old)" and "bootstrap_pointer_size ptr st = old"
    and "sz \<noteq> 0" and "bootstrap_realloc base ptr sz st = (st', new_ptr)" and "new_ptr \<noteq> 0"
  shows "heap_byte st' = copy_bytes new_ptr ptr (min (unat old) (unat sz)) (store_header_size (new_ptr - 32) sz (heap_byte st))"
    and "unat ptr + max 1 (unat old) \<le> unat new_ptr - 32" and "32 \<le> unat new_ptr" and "unat new_ptr + unat sz < 2 ^ 64"
proof -
  obtain st1 p where m: "bootstrap_malloc base sz st = (st1, p)" by fastforce
  note spec = bootstrap_malloc_spec [OF assms(1,2) m]
  have "is_bootstrap_pointer base ptr"
    using block_is_bootstrap_pointer [OF assms(1,3)] assms(2) by (simp add: heap_ok_def)
  moreover have "ptr \<noteq> 0"
    using assms(3) by (auto simp: block_between_def)
  ultimately have re: "p \<noteq> 0" "new_ptr = p" "st' = st1\<lparr>heap_byte := copy_bytes p ptr
      (unat (if bootstrap_pointer_size ptr st1 < sz then bootstrap_pointer_size ptr st1 else sz)) (heap_byte st1)\<rparr>"
    using assms(5-7) m by (auto simp: bootstrap_realloc_def Let_def split: if_splits)
  have pos: "unat ptr + max 1 (unat old) + 32 \<le> unat p" "unat p + unat sz < 2 ^ 64" "32 \<le> unat ptr"
    using spec re(1) assms(1,3) by (auto simp: block_between_def arena_def heap_ok_def)
  have sub: "unat (p - 32) = unat p - 32" "unat (ptr - 32) = unat ptr - 32"
    using pos by (simp_all add: unat_sub_no_wrap)
  have "heap_byte st1 (ptr - 32 + of_nat i) = heap_byte st (ptr - 32 + of_nat i)" if "i < 8" for i
  proof -
    have "unat (ptr - 32 + of_nat i) = unat ptr - 32 + i"
      using that pos sub by (subst unat_add_no_wrap) (simp_all add: unat_of_nat_u64)
    then show ?thesis
      using spec re(1) pos sub that by (auto simp: store_header_nth)
  qed
  then have "bootstrap_pointer_size ptr st1 = old"
    using assms(4) load_header_cong [of "heap_byte st1" "ptr - 32" "heap_byte st"]
    by (simp add: bootstrap_pointer_size_def bootstrap_header_bytes_def)
  then have "unat (if bootstrap_pointer_size ptr st1 < sz then bootstrap_pointer_size ptr st1 else sz) =
      min (unat old) (unat sz)"
    by (auto simp: word_less_nat_alt)
  then show "heap_byte st' = copy_bytes new_ptr ptr (min (unat old) (unat sz)) (store_header_size (new_ptr - 32) sz (heap_byte st))"
    using re spec by simp
  show "unat ptr + max 1 (unat old) \<le> unat new_ptr - 32" "32 \<le> unat new_ptr" "unat new_ptr + unat sz < 2 ^ 64"
    using pos re(2) by auto
qed

text \<open>C10: \<open>bootstrap_realloc\<close> of a block keeps its contents: when it succeeds, the new header holds the
  new size, the first \<open>min(old size, new size)\<close> bytes of the new block are those of the old block,
  and no other byte of memory changes than those and the eight bytes of the size in the new header; in
  particular the old block and its header stay as they are.\<close>

theorem bootstrap_realloc_contents:
  assumes "arena base" and "heap_ok st"
    and "block_between base 0 (unat (bootstrap_offset st)) (ptr, old)" and "bootstrap_pointer_size ptr st = old"
    and "sz \<noteq> 0" and "bootstrap_realloc base ptr sz st = (st', new_ptr)" and "new_ptr \<noteq> 0"
  shows "bootstrap_pointer_size new_ptr st' = sz \<and> unat ptr + max 1 (unat old) \<le> unat new_ptr - 32 \<and>
    (\<forall>a. heap_byte st' a =
      (if unat new_ptr \<le> unat a \<and> unat a < unat new_ptr + min (unat old) (unat sz)
       then heap_byte st (ptr + of_nat (unat a - unat new_ptr))
       else if unat new_ptr - 32 \<le> unat a \<and> unat a < unat new_ptr - 24 then size_byte sz (unat a - (unat new_ptr - 32))
       else heap_byte st a))"
proof -
  note spec = bootstrap_realloc_spec [OF assms]
  have h: "unat (new_ptr - 32) = unat new_ptr - 32"
    using spec(3) by (simp add: unat_sub_no_wrap)
  have src: "unat (ptr + of_nat i) < unat new_ptr - 32" if "i < min (unat old) (unat sz)" for i
    using that spec(2-4) unsigned_less [of new_ptr, where ?'a = nat]
    by (subst unat_add_no_wrap) (auto simp: unat_of_nat_u64)
  have bytes: "heap_byte st' a =
      (if unat new_ptr \<le> unat a \<and> unat a < unat new_ptr + min (unat old) (unat sz)
       then heap_byte st (ptr + of_nat (unat a - unat new_ptr))
       else if unat new_ptr - 32 \<le> unat a \<and> unat a < unat new_ptr - 24 then size_byte sz (unat a - (unat new_ptr - 32))
       else heap_byte st a)" for a
  proof (cases "unat new_ptr \<le> unat a \<and> unat a < unat new_ptr + min (unat old) (unat sz)")
    case True
    define b where "b = ptr + of_nat (unat a - unat new_ptr)"
    have "unat b < unat new_ptr - 32"
      unfolding b_def using True by (intro src) auto
    then have "store_header_size (new_ptr - 32) sz (heap_byte st) b = heap_byte st b"
      using h spec(4) by (simp add: store_header_nth)
    moreover have "heap_byte st' a = store_header_size (new_ptr - 32) sz (heap_byte st) b"
      unfolding spec(1) b_def using True spec(2,4) by (subst copy_bytes_nth) auto
    ultimately show ?thesis
      using True by (simp add: b_def)
  next
    case False
    then have "heap_byte st' a = store_header_size (new_ptr - 32) sz (heap_byte st) a"
      unfolding spec(1) using spec(2,4) by (subst copy_bytes_nth) auto
    then show ?thesis
      unfolding if_not_P [OF False] using h spec(3,4) by (simp add: store_header_nth)
  qed
  have "load_header_size (new_ptr - 32) (heap_byte st') = load_header_size (new_ptr - 32) (store_header_size (new_ptr - 32) sz (heap_byte st))"
  proof (rule load_header_cong)
    fix i :: nat
    assume "i < 8"
    then have "unat (new_ptr - 32 + of_nat i) = unat new_ptr - 32 + i"
      using h spec(3,4) by (subst unat_add_no_wrap) (simp_all add: unat_of_nat_u64)
    then show "heap_byte st' (new_ptr - 32 + of_nat i) = store_header_size (new_ptr - 32) sz (heap_byte st) (new_ptr - 32 + of_nat i)"
      using \<open>i < 8\<close> spec(3,4) h by (auto simp: bytes store_header_nth)
  qed
  then have "bootstrap_pointer_size new_ptr st' = sz"
    using h spec(3,4) by (simp add: bootstrap_pointer_size_def bootstrap_header_bytes_def load_store_header)
  with bytes spec(2) show ?thesis by blast
qed

definition sample_bootstrap :: bootstrap_state where
  "sample_bootstrap = (let st = fst (bootstrap_malloc 4096 1 empty_bootstrap) in st\<lparr>heap_byte := (heap_byte st)(4128 := 7)\<rparr>)"

theorem bootstrap_realloc_contents_witness:
  "heap_byte (fst (bootstrap_realloc 4096 4128 100 sample_bootstrap)) 4176 = 7 \<and>
   heap_byte (fst (bootstrap_realloc 4096 4128 100 sample_bootstrap)) 4144 = 100 \<and>
   heap_byte (fst (bootstrap_realloc 4096 4128 100 sample_bootstrap)) 4128 = 7"
proof -
  have off: "bootstrap_offset sample_bootstrap = 48" "bootstrap_pointer_size 4128 sample_bootstrap = 1"
    "heap_byte sample_bootstrap 4128 = 7"
    by code_simp+
  have re: "snd (bootstrap_realloc 4096 4128 100 sample_bootstrap) = 4176"
    by code_simp
  have "size_byte 100 0 = 100"
    by code_simp
  with bootstrap_realloc_contents [of 4096 sample_bootstrap 4128 1 100
      "fst (bootstrap_realloc 4096 4128 100 sample_bootstrap)" 4176] re off show ?thesis
    by (simp add: arena_def heap_ok_def block_between_def prod_eq_iff)
qed

text \<open>\<open>bootstrap_calloc\<close> refuses a product that wraps, and otherwise returns zeroed bytes.\<close>

lemma bootstrap_calloc_spec:
  assumes "arena base" and "heap_ok st" and "bootstrap_calloc base nmemb sz st = (st', ptr)"
  shows "(unat nmemb * unat sz \<ge> 2 ^ 64 \<longrightarrow> ptr = 0 \<and> st' = st) \<and>
    (ptr \<noteq> 0 \<longrightarrow> (\<forall>a. unat ptr \<le> unat a \<and> unat a < unat ptr + unat nmemb * unat sz \<longrightarrow> heap_byte st' a = 0))"
proof (cases "sz \<noteq> 0 \<and> nmemb > SIZE_MAX div sz")
  case True
  then show ?thesis
    using assms(3) by (auto simp: bootstrap_calloc_def)
next
  case False
  have total: "unat nmemb * unat sz < 2 ^ 64"
  proof (cases "sz = 0")
    case False
    with \<open>\<not> (sz \<noteq> 0 \<and> nmemb > SIZE_MAX div sz)\<close> have "unat nmemb \<le> 18446744073709551615 div unat sz"
      by (simp add: word_less_nat_alt unat_div unat_size_max)
    then have "unat nmemb * unat sz \<le> 18446744073709551615"
      using False by (simp add: less_eq_div_iff_mult_less_eq unat_gt_0)
    then show ?thesis by simp
  qed simp
  then have t: "unat (nmemb * sz) = unat nmemb * unat sz"
    by (simp add: unat_word_ariths)
  obtain st1 p where m: "bootstrap_malloc base (nmemb * sz) st = (st1, p)" by fastforce
  note spec = bootstrap_malloc_spec [OF assms(1,2) m]
  have "unat p + unat nmemb * unat sz < 2 ^ 64" if "p \<noteq> 0"
    using spec that assms(1) t by (auto simp: block_between_def arena_def heap_ok_def)
  then show ?thesis
    using total assms(3) m False zero_bytes_nth [of p "unat nmemb * unat sz" "heap_byte st1"] t
    by (auto simp: bootstrap_calloc_def Let_def split: if_splits)
qed

text \<open>The variant of \<open>malloc_hole_passthrough.c\<close> is not safe: after a block of 16 bytes, a
  request for \<open>2 ^ 64 - 16\<close> bytes fails, as it must, but leaves the offset at \<open>0\<close>, and the next
  request gets the address of the first block again.\<close>

theorem passthrough_blocks_overlap:
  "let (offset1, first) = passthrough_bootstrap_malloc 4096 16 0;
       (offset2, failed) = passthrough_bootstrap_malloc 4096 (2 ^ 64 - 16) offset1;
       (offset3, second) = passthrough_bootstrap_malloc 4096 16 offset2
   in failed = 0 \<and> first \<noteq> 0 \<and> second = first"
  by (simp add: passthrough_bootstrap_malloc_def bootstrap_constants Let_def)

end
