(* ===== verification/RealAllocator.thy ===== *)
theory RealAllocator
  imports Bootstrap
begin

text \<open>
  The real allocator below the hooks, as a parameter: for each function the transformer of its
  heap and \<open>errno\<close> that \<open>dlsym(RTLD_NEXT, ...)\<close> found, or none. The theory also holds what the
  hooks without statistics (\<open>malloc_free_hook.c\<close>, \<open>malloc_hole_all_api_passthrough.c\<close>,
  \<open>malloc_hole_passthrough.c\<close>) share: the process they run in and the way each entry point loads
  and calls a real function.
\<close>

subsection \<open>The real functions\<close>

text \<open>A real function maps heap, \<open>errno\<close> and arguments to the new heap, \<open>errno\<close> and result.\<close>

type_synonym ('h, 'r) real_call = "'h \<Rightarrow> int \<Rightarrow> 'h \<times> int \<times> 'r"

record 'h allocator =
  dl_malloc :: "(u64 \<Rightarrow> ('h, u64) real_call) option"
  dl_free :: "(u64 \<Rightarrow> ('h, unit) real_call) option"
  dl_calloc :: "(u64 \<Rightarrow> u64 \<Rightarrow> ('h, u64) real_call) option"
  dl_realloc :: "(u64 \<Rightarrow> u64 \<Rightarrow> ('h, u64) real_call) option"
  dl_free_sized :: "(u64 \<Rightarrow> u64 \<Rightarrow> ('h, unit) real_call) option"
  dl_posix_memalign :: "(u64 \<Rightarrow> u64 \<Rightarrow> ('h, int \<times> u64) real_call) option"
  dl_aligned_alloc :: "(u64 \<Rightarrow> u64 \<Rightarrow> ('h, u64) real_call) option"
  dl_valloc :: "(u64 \<Rightarrow> ('h, u64) real_call) option"
  dl_memalign :: "(u64 \<Rightarrow> u64 \<Rightarrow> ('h, u64) real_call) option"
  dl_pvalloc :: "(u64 \<Rightarrow> ('h, u64) real_call) option"

definition ENOMEM :: int where "ENOMEM = 12"

subsection \<open>The process of a hook without statistics\<close>

text \<open>
  The bootstrap heap, the real heap, \<open>errno\<close> of the calling thread and the resolver.
  \<open>resolving\<close> is true while the resolver lock is held by another thread, or by the caller
  itself inside \<open>dlsym\<close>.
\<close>

record 'h process =
  arena_state :: bootstrap_state
  arena_base :: u64
  real_heap :: 'h
  thread_errno :: int
  resolved :: bool
  resolving :: bool

definition resolve_functions :: "('h, 'z) process_scheme \<Rightarrow> ('h, 'z) process_scheme" where
  "resolve_functions st =
    (if resolved st then st
     else if resolving st then st
     else st\<lparr>resolved := True\<rparr>)"

definition loaded :: "'f option \<Rightarrow> ('h, 'z) process_scheme \<Rightarrow> 'f option" where
  "loaded f st = (if resolved st then f else None)"

text \<open>The load of a \<open>real_\<close> pointer, resolving once when it is \<open>NULL\<close>.\<close>

definition load_function :: "'f option \<Rightarrow> ('h, 'z) process_scheme \<Rightarrow> ('h, 'z) process_scheme \<times> 'f option" where
  "load_function f st =
    (case loaded f st of
       Some g \<Rightarrow> (st, Some g)
     | None \<Rightarrow> let st = resolve_functions st in (st, loaded f st))"

definition call_function :: "('h, 'r) real_call \<Rightarrow> ('h, 'z) process_scheme \<Rightarrow> ('h, 'z) process_scheme \<times> 'r" where
  "call_function f st =
    (let (h, e, r) = f (real_heap st) (thread_errno st)
     in (st\<lparr>real_heap := h, thread_errno := e\<rparr>, r))"

definition call_arena ::
  "(bootstrap_state \<Rightarrow> bootstrap_state \<times> 'r) \<Rightarrow> ('h, 'z) process_scheme \<Rightarrow> ('h, 'z) process_scheme \<times> 'r" where
  "call_arena f st = (let (b, r) = f (arena_state st) in (st\<lparr>arena_state := b\<rparr>, r))"

subsection \<open>Frames\<close>

lemma load_function_resolved [simp]: "resolved st \<Longrightarrow> load_function f st = (st, f)"
  by (cases f) (simp_all add: load_function_def loaded_def resolve_functions_def Let_def)

lemma load_function_cases:
  "load_function f st = (resolve_functions st, if resolved (resolve_functions st) then f else None)"
  by (cases f) (auto simp: load_function_def loaded_def resolve_functions_def Let_def)

lemma resolve_functions_frame [frame]:
  "real_heap (resolve_functions st) = real_heap st" "thread_errno (resolve_functions st) = thread_errno st"
  "arena_state (resolve_functions st) = arena_state st" "arena_base (resolve_functions st) = arena_base st"
  "process.more (resolve_functions st) = process.more st"
  "resolved (resolve_functions st) \<longleftrightarrow> resolved st \<or> \<not> resolving st"
  by (simp_all add: resolve_functions_def)

lemma call_function_frame [frame]:
  "real_heap (fst (call_function f st)) = fst (f (real_heap st) (thread_errno st))"
  "thread_errno (fst (call_function f st)) = fst (snd (f (real_heap st) (thread_errno st)))"
  "snd (call_function f st) = snd (snd (f (real_heap st) (thread_errno st)))"
  "arena_state (fst (call_function f st)) = arena_state st"
  "arena_base (fst (call_function f st)) = arena_base st"
  "resolved (fst (call_function f st)) = resolved st"
  "process.more (fst (call_function f st)) = process.more st"
  by (simp_all add: call_function_def split: prod.split)

lemma call_arena_frame [frame]:
  "real_heap (fst (call_arena g st)) = real_heap st" "thread_errno (fst (call_arena g st)) = thread_errno st"
  "arena_base (fst (call_arena g st)) = arena_base st" "resolved (fst (call_arena g st)) = resolved st"
  "process.more (fst (call_arena g st)) = process.more st"
  "arena_state (fst (call_arena g st)) = fst (g (arena_state st))" "snd (call_arena g st) = snd (g (arena_state st))"
  by (simp_all add: call_arena_def split: prod.split)

end
