(* ===== verification/HoleApi.thy ===== *)
theory HoleApi
  imports HoleProcess RealAllocator
begin

text \<open>
  The allocation entry points \<open>malloc_hole_hook.c\<close> exports, with the recording of their events.
  The real allocator is the parameter of theory \<open>RealAllocator\<close>. The lemmas show that the hook is transparent (each call
  reaches the real function once, and its result, its effect and its \<open>errno\<close> are what the
  caller sees) and that the live table is the account of the allocations made through it.
\<close>

subsection \<open>Recording\<close>

definition detach_live_allocation :: "world \<Rightarrow> u64 \<Rightarrow> hole_state \<Rightarrow> hole_state \<times> detached_allocation" where
  "detach_live_allocation w ptr st =
    (let (st, ok) = prepare_recording w st
     in if \<not> ok then (st, not_detached) else detach_prepared ptr st)"

definition record_free_allocation :: "world \<Rightarrow> u64 \<Rightarrow> hole_state \<Rightarrow> hole_state" where
  "record_free_allocation w ptr st =
    (let (st, ok) = prepare_recording w st
     in if \<not> ok then st
        else
          let sample_hash = statistics_pointer_hash ptr
          in if \<not> live_pointer_is_sampled (live_sample_rate st) sample_hash then st
             else
               let (st, free_index) = record_free_locked ptr st
               in if clock_check_is_due free_index then maybe_write_periodic_snapshot w st else st)"

definition record_failed_allocation :: "world \<Rightarrow> hole_state \<Rightarrow> hole_state" where
  "record_failed_allocation w st =
    (let (st, ok) = prepare_recording w st
     in if \<not> ok then st
        else st\<lparr>statistics := foldl (\<lambda>s a. atomic_fetch_add a s) (statistics st) failed_adds\<rparr>)"

definition record_successful_allocation :: "world \<Rightarrow> u64 \<Rightarrow> u64 \<Rightarrow> hole_state \<Rightarrow> hole_state" where
  "record_successful_allocation w requested ptr st =
    (let (st, ok) = prepare_recording w st
     in if \<not> ok then st
        else
          let hash = statistics_pointer_hash ptr; shard = statistics_shard ptr;
              before = statistics st;
              st = st\<lparr>statistics := foldl (\<lambda>s a. atomic_fetch_add a s) before (success_adds requested ptr)\<rparr>
          in case rounded_allocation_size requested of
               None \<Rightarrow> st
             | Some (rounded, bucket) \<Rightarrow>
                 let allocation_index = bucket_allocations (before ! shard) ! unat bucket;
                     (st, inserted) = track_live_allocation ptr requested rounded bucket hash st
                 in if clock_check_is_due allocation_index then maybe_write_periodic_snapshot w st else st)"

subsection \<open>Entry points\<close>

text \<open>
  The process: the hook, the bootstrap heap, the real heap and the resolver. \<open>resolver_lock\<close> is
  true while another thread (or the caller itself, through \<open>dlsym\<close>) is resolving.
\<close>

record 'h api_state =
  hole :: hole_state
  boot :: bootstrap_state
  boot_base :: u64
  heap :: 'h
  resolver_complete :: bool
  resolver_lock :: bool

definition resolve_real_allocators :: "'h api_state \<Rightarrow> 'h api_state" where
  "resolve_real_allocators st =
    (if resolver_complete st then st
     else if resolver_lock st then st
     else st\<lparr>resolver_complete := True\<rparr>)"

text \<open>The load of a \<open>real_\<close> pointer, resolving once when it is \<open>NULL\<close>.\<close>

definition load_real :: "'f option \<Rightarrow> 'h api_state \<Rightarrow> 'h api_state \<times> 'f option" where
  "load_real f st =
    (let loaded = (\<lambda>st. if resolver_complete st then f else None)
     in case loaded st of
          Some g \<Rightarrow> (st, Some g)
        | None \<Rightarrow> let st = resolve_real_allocators st in (st, loaded st))"

definition call_real :: "('h, 'r) real_call \<Rightarrow> 'h api_state \<Rightarrow> 'h api_state \<times> 'r" where
  "call_real f st =
    (let (h, e, r) = f (heap st) (errno (hole st))
     in (st\<lparr>heap := h, hole := (hole st)\<lparr>errno := e\<rparr>\<rparr>, r))"

definition call_boot :: "(bootstrap_state \<Rightarrow> bootstrap_state \<times> 'r) \<Rightarrow> 'h api_state \<Rightarrow> 'h api_state \<times> 'r" where
  "call_boot f st = (let (b, r) = f (boot st) in (st\<lparr>boot := b\<rparr>, r))"

definition in_hole :: "(hole_state \<Rightarrow> hole_state) \<Rightarrow> 'h api_state \<Rightarrow> 'h api_state" where
  "in_hole f st = st\<lparr>hole := f (hole st)\<rparr>"

definition set_errno :: "int \<Rightarrow> 'h api_state \<Rightarrow> 'h api_state" where
  "set_errno e = in_hole (\<lambda>h. h\<lparr>errno := e\<rparr>)"

definition malloc :: "world \<Rightarrow> 'h allocator \<Rightarrow> u64 \<Rightarrow> 'h api_state \<Rightarrow> 'h api_state \<times> u64" where
  "malloc w dl sz st =
    (let (st, function) = load_real (dl_malloc dl) st;
         (st, ptr) = (case function of Some f \<Rightarrow> call_real (f sz) st
                                     | None \<Rightarrow> call_boot (bootstrap_malloc (boot_base st) sz) st);
         saved_errno = errno (hole st);
         st = (if ptr \<noteq> 0 \<and> \<not> is_bootstrap_pointer (boot_base st) ptr
               then in_hole (record_successful_allocation w sz ptr) st
               else if ptr = 0 then in_hole (record_failed_allocation w) st else st)
     in (set_errno saved_errno st, ptr))"

definition free :: "world \<Rightarrow> 'h allocator \<Rightarrow> u64 \<Rightarrow> 'h api_state \<Rightarrow> 'h api_state" where
  "free w dl ptr st =
    (let saved_errno = errno (hole st)
     in if ptr = 0 \<or> is_bootstrap_pointer (boot_base st) ptr then set_errno saved_errno st
        else
          let st = in_hole (record_free_allocation w ptr) st;
              (st, function) = load_real (dl_free dl) st;
              st = (case function of Some f \<Rightarrow> fst (call_real (f ptr) st) | None \<Rightarrow> st)
          in set_errno saved_errno st)"

definition calloc :: "world \<Rightarrow> 'h allocator \<Rightarrow> u64 \<Rightarrow> u64 \<Rightarrow> 'h api_state \<Rightarrow> 'h api_state \<times> u64" where
  "calloc w dl nmemb sz st =
    (let overflow = (sz \<noteq> 0 \<and> nmemb > SIZE_MAX div sz);
         (st, function) = load_real (dl_calloc dl) st;
         (st, ptr) = (case function of Some f \<Rightarrow> call_real (f nmemb sz) st
                                     | None \<Rightarrow> call_boot (bootstrap_calloc (boot_base st) nmemb sz) st);
         saved_errno = errno (hole st);
         st = (if ptr \<noteq> 0 \<and> \<not> is_bootstrap_pointer (boot_base st) ptr \<and> \<not> overflow
               then in_hole (record_successful_allocation w (nmemb * sz) ptr) st
               else if ptr = 0 then in_hole (record_failed_allocation w) st else st)
     in (set_errno saved_errno st, ptr))"

definition realloc :: "world \<Rightarrow> 'h allocator \<Rightarrow> u64 \<Rightarrow> u64 \<Rightarrow> 'h api_state \<Rightarrow> 'h api_state \<times> u64" where
  "realloc w dl ptr sz st =
    (let old_is_trackable = (ptr \<noteq> 0 \<and> \<not> is_bootstrap_pointer (boot_base st) ptr);
         (st, detached) =
           (if old_is_trackable
            then (let (h, d) = detach_live_allocation w ptr (hole st) in (st\<lparr>hole := h\<rparr>, d))
            else (st, not_detached));
         (st, new_ptr) =
           (if is_bootstrap_pointer (boot_base st) ptr
            then call_boot (bootstrap_realloc (boot_base st) ptr sz) st
            else
              let (st, function) = load_real (dl_realloc dl) st
              in case function of Some f \<Rightarrow> call_real (f ptr sz) st | None \<Rightarrow> (st, 0));
         saved_errno = errno (hole st);
         st = (if new_ptr \<noteq> 0 \<and> \<not> is_bootstrap_pointer (boot_base st) new_ptr
               then
                 let st = (if old_is_trackable then in_hole (record_release_event ptr detached) st else st)
                 in in_hole (record_successful_allocation w sz new_ptr) st
               else if new_ptr = 0 \<and> sz \<noteq> 0
               then
                 let st = (if old_is_trackable then in_hole (restore_detached_allocation ptr detached) st else st)
                 in in_hole (record_failed_allocation w) st
               else if old_is_trackable
               then
                 let st = in_hole (record_release_event ptr detached) st
                 in if observed detached then in_hole (maybe_write_periodic_snapshot w) st else st
               else st)
     in (set_errno saved_errno st, new_ptr))"

text \<open>\<open>free_sized\<close> resolves only when both pointers are \<open>NULL\<close>.\<close>

definition free_sized :: "world \<Rightarrow> 'h allocator \<Rightarrow> u64 \<Rightarrow> u64 \<Rightarrow> 'h api_state \<Rightarrow> 'h api_state" where
  "free_sized w dl ptr sz st =
    (let saved_errno = errno (hole st)
     in if ptr = 0 \<or> is_bootstrap_pointer (boot_base st) ptr then set_errno saved_errno st
        else
          let st = in_hole (record_free_allocation w ptr) st;
              loaded = (\<lambda>st. if resolver_complete st then (dl_free_sized dl, dl_free dl) else (None, None));
              st = (if loaded st = (None, None) then resolve_real_allocators st else st);
              st = (case loaded st of
                      (Some f, _) \<Rightarrow> fst (call_real (f ptr sz) st)
                    | (None, Some f) \<Rightarrow> fst (call_real (f ptr) st)
                    | (None, None) \<Rightarrow> st)
          in set_errno saved_errno st)"

text \<open>The result is the code and, when it is \<open>0\<close>, the value stored through \<open>memptr\<close>.\<close>

definition posix_memalign ::
  "world \<Rightarrow> 'h allocator \<Rightarrow> u64 \<Rightarrow> u64 \<Rightarrow> 'h api_state \<Rightarrow> 'h api_state \<times> int \<times> u64 option" where
  "posix_memalign w dl alignment sz st =
    (let (st, function) = load_real (dl_posix_memalign dl) st;
         (st, result, ptr) = (case function of Some f \<Rightarrow> call_real (f alignment sz) st
                                             | None \<Rightarrow> (st, ENOMEM, 0))
     in if result = 0
        then ((if ptr \<noteq> 0 then in_hole (record_successful_allocation w sz ptr) st else st), result, Some ptr)
        else (in_hole (record_failed_allocation w) st, result, None))"

text \<open>The body \<open>aligned_alloc\<close>, \<open>valloc\<close>, \<open>memalign\<close> and \<open>pvalloc\<close> share.\<close>

definition forward_allocation ::
  "world \<Rightarrow> ('h, u64) real_call option \<Rightarrow> u64 \<Rightarrow> 'h api_state \<Rightarrow> 'h api_state \<times> u64" where
  "forward_allocation w real sz st =
    (let (st, function) = load_real real st;
         (st, ptr) = (case function of Some f \<Rightarrow> call_real f st | None \<Rightarrow> (st, 0));
         saved_errno = errno (hole st);
         st = (if ptr \<noteq> 0 then in_hole (record_successful_allocation w sz ptr) st
               else in_hole (record_failed_allocation w) st)
     in (set_errno saved_errno st, ptr))"

definition aligned_alloc :: "world \<Rightarrow> 'h allocator \<Rightarrow> u64 \<Rightarrow> u64 \<Rightarrow> 'h api_state \<Rightarrow> 'h api_state \<times> u64" where
  "aligned_alloc w dl alignment sz =
    forward_allocation w (map_option (\<lambda>f. f alignment sz) (dl_aligned_alloc dl)) sz"

definition valloc :: "world \<Rightarrow> 'h allocator \<Rightarrow> u64 \<Rightarrow> 'h api_state \<Rightarrow> 'h api_state \<times> u64" where
  "valloc w dl sz = forward_allocation w (map_option (\<lambda>f. f sz) (dl_valloc dl)) sz"

definition memalign :: "world \<Rightarrow> 'h allocator \<Rightarrow> u64 \<Rightarrow> u64 \<Rightarrow> 'h api_state \<Rightarrow> 'h api_state \<times> u64" where
  "memalign w dl alignment sz =
    forward_allocation w (map_option (\<lambda>f. f alignment sz) (dl_memalign dl)) sz"

definition pvalloc :: "world \<Rightarrow> 'h allocator \<Rightarrow> u64 \<Rightarrow> 'h api_state \<Rightarrow> 'h api_state \<times> u64" where
  "pvalloc w dl sz = forward_allocation w (map_option (\<lambda>f. f sz) (dl_pvalloc dl)) sz"

subsection \<open>Real functions and \<open>errno\<close>\<close>

text \<open>The documented functions write \<open>errno\<close> but do not read it.\<close>

definition errno_blind :: "('h, 'r) real_call \<Rightarrow> bool" where
  "errno_blind f \<longleftrightarrow> (\<forall>h e. fst (f h e) = fst (f h 0) \<and> snd (snd (f h e)) = snd (snd (f h 0)))"

definition errno_blind_allocator :: "'h allocator \<Rightarrow> bool" where
  "errno_blind_allocator dl \<longleftrightarrow>
    (\<forall>f. dl_malloc dl = Some f \<longrightarrow> (\<forall>a. errno_blind (f a))) \<and>
    (\<forall>f. dl_free dl = Some f \<longrightarrow> (\<forall>a. errno_blind (f a))) \<and>
    (\<forall>f. dl_calloc dl = Some f \<longrightarrow> (\<forall>a b. errno_blind (f a b))) \<and>
    (\<forall>f. dl_realloc dl = Some f \<longrightarrow> (\<forall>a b. errno_blind (f a b))) \<and>
    (\<forall>f. dl_free_sized dl = Some f \<longrightarrow> (\<forall>a b. errno_blind (f a b))) \<and>
    (\<forall>f. dl_posix_memalign dl = Some f \<longrightarrow> (\<forall>a b. errno_blind (f a b))) \<and>
    (\<forall>f. dl_aligned_alloc dl = Some f \<longrightarrow> (\<forall>a b. errno_blind (f a b))) \<and>
    (\<forall>f. dl_valloc dl = Some f \<longrightarrow> (\<forall>a. errno_blind (f a))) \<and>
    (\<forall>f. dl_memalign dl = Some f \<longrightarrow> (\<forall>a b. errno_blind (f a b))) \<and>
    (\<forall>f. dl_pvalloc dl = Some f \<longrightarrow> (\<forall>a. errno_blind (f a)))"

subsection \<open>Frames\<close>

lemma in_hole_frame [simp]:
  "heap (in_hole f st) = heap st" "boot (in_hole f st) = boot st" "boot_base (in_hole f st) = boot_base st"
  "resolver_complete (in_hole f st) = resolver_complete st" "hole (in_hole f st) = f (hole st)"
  by (simp_all add: in_hole_def)

lemma set_errno_frame [simp]:
  "heap (set_errno e st) = heap st" "boot (set_errno e st) = boot st"
  "resolver_complete (set_errno e st) = resolver_complete st"
  "hole (set_errno e st) = (hole st)\<lparr>errno := e\<rparr>" "boot_base (set_errno e st) = boot_base st"
  by (simp_all add: set_errno_def)

lemma load_real_complete [simp]: "resolver_complete st \<Longrightarrow> load_real f st = (st, f)"
  by (cases f) (simp_all add: load_real_def resolve_real_allocators_def Let_def)

lemma call_real_frame:
  "call_real f st = (st\<lparr>heap := fst (f (heap st) (errno (hole st))),
     hole := (hole st)\<lparr>errno := fst (snd (f (heap st) (errno (hole st))))\<rparr>\<rparr>, snd (snd (f (heap st) (errno (hole st)))))"
  by (simp add: call_real_def split: prod.splits)

text \<open>What recording leaves alone: the account fields of a state that differs only in \<open>errno\<close>.\<close>

definition same_account :: "hole_state \<Rightarrow> hole_state \<Rightarrow> bool" where
  "same_account st st' \<longleftrightarrow> live_tab st' = live_tab st \<and> live_statistics st' = live_statistics st \<and>
    live_sample_rate st' = live_sample_rate st"

definition recording :: "hole_state \<Rightarrow> bool" where
  "recording st \<longleftrightarrow> initialization_enabled st \<and> statistics_suppression st = 0 \<and> statistics_ready st \<and>
    \<not> (initial_process_is_appspawndf st \<and> owner_pid st = initial_process_pid st)"

lemma prepare_recording_on: "recording st \<Longrightarrow> prepare_recording w st = (st, True)"
  by (auto simp: recording_def prepare_recording_def)

lemma maybe_write_frame [simp]:
  "live_tab (maybe_write_periodic_snapshot w st) = live_tab st"
  "live_statistics (maybe_write_periodic_snapshot w st) = live_statistics st"
  "live_sample_rate (maybe_write_periodic_snapshot w st) = live_sample_rate st"
  "recording (maybe_write_periodic_snapshot w st) = recording st"
  by (simp_all add: maybe_write_periodic_snapshot_def deadline_compare_exchange_def calls Let_def recording_def)

lemma recording_frame [simp]:
  "recording (update_live_shard ptr f st) = recording st"
  "recording (st\<lparr>live_tab := t\<rparr>) = recording st"
  "recording (st\<lparr>statistics := s\<rparr>) = recording st"
  "recording (st\<lparr>errno := e\<rparr>) = recording st"
  by (simp_all add: recording_def update_live_shard_def)

lemma recording_track [simp]: "recording (fst (track_live_allocation ptr r s b h st)) = recording st"
  by (simp add: track_live_allocation_def Let_def split: prod.splits)

lemma recording_detach [simp]: "recording (fst (detach_prepared ptr st)) = recording st"
  by (auto simp: detach_prepared_def Let_def split: prod.splits option.splits)

lemma recording_release [simp]: "recording (record_release_event ptr d st) = recording st"
  by (simp add: record_release_event_def Let_def)

lemma recording_restore [simp]: "recording (restore_detached_allocation ptr d st) = recording st"
  by (auto simp: restore_detached_allocation_def split: option.splits)

lemma recording_free_locked [simp]: "recording (fst (record_free_locked ptr st)) = recording st"
  by (auto simp: record_free_locked_def Let_def split: prod.splits option.splits)

lemma live_consistent_fields [simp]:
  "live_consistent ((st :: hole_state)\<lparr>statistics := s\<rparr>) = live_consistent st"
  "live_consistent ((st :: hole_state)\<lparr>errno := e\<rparr>) = live_consistent st"
  "live_consistent (maybe_write_periodic_snapshot w st) = live_consistent st"
  by (simp_all add: live_consistent_def)

lemma record_release_rate [simp]: "live_sample_rate (record_release_event ptr d st) = live_sample_rate st"
  by (simp add: record_release_event_def Let_def)

subsection \<open>Recording keeps the account\<close>

text \<open>A good state: recording, with every pointer sampled and the counters consistent.\<close>

definition good :: "hole_state \<Rightarrow> bool" where
  "good st \<longleftrightarrow> recording st \<and> live_consistent st \<and> live_sample_rate st = 1"

definition account :: "hole_state \<Rightarrow> (u64 \<times> u64) multiset" where
  "account st = live_entries (live_tab st)"

lemma good_errno [simp]: "good (st\<lparr>errno := e\<rparr>) = good st" "account (st\<lparr>errno := e\<rparr>) = account st"
  by (simp_all add: good_def account_def)

text \<open>Whether the table takes an allocation.\<close>

definition trackable :: "hole_state \<Rightarrow> u64 \<Rightarrow> u64 \<Rightarrow> bool" where
  "trackable st ptr requested \<longleftrightarrow> rounded_allocation_size requested \<noteq> None \<and>
    live_table_ready (live_tab st) \<and> 1 < ptr \<and> live_has_room (live_tab st) ptr"

lemma record_successful_account:
  assumes "good st"
  shows "good (record_successful_allocation w r ptr st) \<and>
    account (record_successful_allocation w r ptr st) =
      (if trackable st ptr r then add_mset (ptr, r) (account st) else account st)"
proof (cases "rounded_allocation_size r")
  case None
  then show ?thesis
    using assms by (simp add: record_successful_allocation_def prepare_recording_on good_def account_def
        trackable_def)
next
  case (Some sb)
  obtain s b where sb: "rounded_allocation_size r = Some (s, b)"
    using Some by (cases sb) simp
  let ?st = "st\<lparr>statistics := foldl (\<lambda>s a. atomic_fetch_add a s) (statistics st) (success_adds r ptr)\<rparr>"
  obtain st' ok where t: "track_live_allocation ptr r s b (statistics_pointer_hash ptr) ?st = (st', ok)"
    by fastforce
  have con: "live_consistent ?st"
    using assms by (simp add: good_def)
  have eq: "record_successful_allocation w r ptr st = st' \<or>
      record_successful_allocation w r ptr st = maybe_write_periodic_snapshot w st'"
    using assms t by (auto simp: record_successful_allocation_def prepare_recording_on good_def sb)
  have "recording st'" "live_sample_rate st' = 1"
    using assms recording_track [of ptr r s b "statistics_pointer_hash ptr" ?st]
      track_sample_rate [of ptr r s b "statistics_pointer_hash ptr" ?st] unfolding t by (simp_all add: good_def)
  moreover have "live_pointer_is_sampled (live_sample_rate ?st) h" for h
    using assms by (simp add: good_def live_pointer_is_sampled_def)
  ultimately show ?thesis
    using eq track_spec [OF con sb, of ptr "statistics_pointer_hash ptr"] sb unfolding t
    by (auto simp: good_def account_def trackable_def)
qed

lemma record_failed_account:
  "good st \<Longrightarrow> good (record_failed_allocation w st) \<and> account (record_failed_allocation w st) = account st"
  by (simp add: record_failed_allocation_def prepare_recording_on good_def account_def)

lemma record_free_account:
  assumes "good st" and "1 < ptr"
  shows "good (record_free_allocation w ptr st) \<and>
    (account (record_free_allocation w ptr st) = account st \<and> (\<forall>r. (ptr, r) \<notin># account st) \<or>
     (\<exists>r. account st = add_mset (ptr, r) (account (record_free_allocation w ptr st))))"
proof -
  have "live_sample_rate (fst (record_free_locked ptr st)) = live_sample_rate st"
    by (auto simp: record_free_locked_def Let_def split: prod.splits option.splits)
  moreover have "live_pointer_is_sampled (live_sample_rate st) h" for h
    using assms by (simp add: good_def live_pointer_is_sampled_def)
  moreover obtain st' i where "record_free_locked ptr st = (st', i)" by fastforce
  ultimately show ?thesis
    using assms record_free_spec [of st ptr] recording_free_locked [of ptr st]
    by (auto simp: record_free_allocation_def prepare_recording_on good_def account_def)
qed

lemma detach_account:
  assumes "good st" and "1 < ptr" and "detach_live_allocation w ptr st = (st', d)"
  shows "good st' \<and> observed d \<and>
    (if tracked d then account st = add_mset (ptr, detached_requested d) (account st')
     else st' = st \<and> (\<forall>r. (ptr, r) \<notin># account st))"
proof -
  have eq: "detach_prepared ptr st = (st', d)"
    using assms by (simp add: detach_live_allocation_def prepare_recording_on good_def)
  have "live_pointer_is_sampled (live_sample_rate st) h" for h
    using assms by (simp add: good_def live_pointer_is_sampled_def)
  then show ?thesis
    using detach_prepared_spec [of st ptr] assms(1,2) recording_detach [of ptr st] unfolding eq
    by (auto simp: good_def account_def Let_def)
qed

subsection \<open>Properties\<close>

text \<open>How a call of a real function shows up: its heap, its \<open>errno\<close> and its result.\<close>

definition shows_real :: "('h, u64) real_call \<Rightarrow> 'h api_state \<Rightarrow> 'h api_state \<times> u64 \<Rightarrow> bool" where
  "shows_real f st res \<longleftrightarrow>
    (heap (fst res), errno (hole (fst res)), snd res) = f (heap st) (errno (hole st)) \<and> boot (fst res) = boot st"

text \<open>The same without \<open>errno\<close>, for any result type.\<close>

definition has_real_effect :: "('h, 'r) real_call \<Rightarrow> 'h api_state \<Rightarrow> 'h api_state \<Rightarrow> 'r \<Rightarrow> bool" where
  "has_real_effect f st st' r \<longleftrightarrow>
    heap st' = fst (f (heap st) (errno (hole st))) \<and> r = snd (snd (f (heap st) (errno (hole st)))) \<and> boot st' = boot st"

lemma blind_call:
  assumes "errno_blind f"
  shows "fst (f h e) = fst (f h e')" and "snd (snd (f h e)) = snd (snd (f h e'))"
  using assms unfolding errno_blind_def by metis+

lemma detach_errno: "recording st \<Longrightarrow> errno (fst (detach_live_allocation w ptr st)) = errno st"
  by (simp add: detach_live_allocation_def prepare_recording_on detach_prepared_def update_live_shard_def Let_def
      split: option.splits prod.splits)

lemma realloc_real:
  assumes "resolver_complete st" and "dl_realloc dl = Some g" and "errno_blind (g ptr sz)"
    and "\<not> is_bootstrap_pointer (boot_base st) ptr"
  shows "has_real_effect (g ptr sz) st (fst (realloc w dl ptr sz st)) (snd (realloc w dl ptr sz st))"
    and "recording (hole st) \<or> ptr = 0 \<Longrightarrow> shows_real (g ptr sz) st (realloc w dl ptr sz st)"
proof -
  obtain h d where d: "(if ptr \<noteq> 0 then (let (h, d) = detach_live_allocation w ptr (hole st) in (st\<lparr>hole := h\<rparr>, d))
      else (st, not_detached)) = (st\<lparr>hole := h\<rparr>, d)" "recording (hole st) \<or> ptr = 0 \<Longrightarrow> errno h = errno (hole st)"
  proof (cases "ptr = 0")
    case True
    then show ?thesis
      using that [of "hole st" not_detached] by simp
  next
    case False
    then show ?thesis
      using that [of "fst (detach_live_allocation w ptr (hole st))" "snd (detach_live_allocation w ptr (hole st))"]
        detach_errno [of "hole st" w ptr] by (simp add: Let_def split: prod.splits)
  qed
  obtain x e q where g: "g ptr sz (heap st) (errno h) = (x, e, q)"
    by (metis prod.collapse)
  have "heap (fst (realloc w dl ptr sz st)) = x \<and> snd (realloc w dl ptr sz st) = q \<and>
      boot (fst (realloc w dl ptr sz st)) = boot st \<and> errno (hole (fst (realloc w dl ptr sz st))) = e"
    using assms(1,2,4) d(1) g by (simp add: realloc_def call_real_def Let_def)
  moreover have "x = fst (g ptr sz (heap st) (errno (hole st)))" "q = snd (snd (g ptr sz (heap st) (errno (hole st))))"
    using blind_call [OF assms(3), of "heap st" "errno h" "errno (hole st)"] g by simp_all
  ultimately show "has_real_effect (g ptr sz) st (fst (realloc w dl ptr sz st)) (snd (realloc w dl ptr sz st))"
    "recording (hole st) \<or> ptr = 0 \<Longrightarrow> shows_real (g ptr sz) st (realloc w dl ptr sz st)"
    using d(2) g by (auto simp: has_real_effect_def shows_real_def)
qed

lemma realloc_boot:
  assumes "is_bootstrap_pointer (boot_base st) ptr"
  shows "heap (fst (realloc w dl ptr sz st)) = heap st \<and>
    (boot (fst (realloc w dl ptr sz st)), snd (realloc w dl ptr sz st)) = bootstrap_realloc (boot_base st) ptr sz (boot st)"
proof -
  obtain b q where "bootstrap_realloc (boot_base st) ptr sz (boot st) = (b, q)"
    by fastforce
  then show ?thesis
    using assms by (simp add: realloc_def call_boot_def Let_def)
qed


text \<open>A small allocator for the examples: the heap counts calls, pointers are multiples of 64.\<close>

definition sample_real :: "(nat, u64) real_call" where
  "sample_real h e = (h + 1, e, of_nat (64 * (h + 1)))"

definition sample_allocator :: "nat allocator" where
  "sample_allocator = \<lparr>dl_malloc = Some (\<lambda>_. sample_real), dl_free = Some (\<lambda>_ h e. (h, e, ())),
    dl_calloc = Some (\<lambda>_ _. sample_real), dl_realloc = Some (\<lambda>_ _ h e. (h, 12, 0)), dl_free_sized = None,
    dl_posix_memalign = Some (\<lambda>_ _ h e. (h + 1, e, 0, of_nat (64 * (h + 1)))), dl_aligned_alloc = Some (\<lambda>_ _. sample_real), dl_valloc = Some (\<lambda>_. sample_real),
    dl_memalign = Some (\<lambda>_ _. sample_real), dl_pvalloc = Some (\<lambda>_. sample_real)\<rparr>"

definition sample_hole :: hole_state where
  "sample_hole = sample_process\<lparr>initialization_enabled := True, statistics_ready := True, owner_pid := 7,
    statistics := clear_statistics,
    live_tab := initialize_live_table (256 * 2 ^ 2) True \<lparr>slots = [], live_table_ready = False\<rparr>,
    live_statistics := replicate ATOMIC_STATISTICS_SHARD_COUNT zero_live_snapshot\<rparr>"

definition sample_api :: "nat api_state" where
  "sample_api = \<lparr>hole = sample_hole, boot = empty_bootstrap, boot_base = 2 ^ 30, heap = 0,
    resolver_complete = True, resolver_lock = False\<rparr>"

lemma sample_hole_good: "good sample_hole" "account sample_hole = {#}"
  using initialize_live_table_wf [of 2 True]
  by (simp_all add: good_def account_def sample_hole_def recording_def sample_process_def live_consistent_def
      shard_counts_zero del: mult_numeral_left)

lemma sample_hole_table: "live_table_ready (live_tab sample_hole)" "live_has_room (live_tab sample_hole) ptr"
  using initialize_live_table_ready [of 2] live_has_room_initialize [of 2]
  by (simp_all add: sample_hole_def del: mult_numeral_left)


lemma malloc_spec:
  assumes "good (hole st)" and "resolver_complete st" and "dl_malloc dl = Some m"
    and "m sz (heap st) (errno (hole st)) = (h, e, ptr)" and "\<not> is_bootstrap_pointer (boot_base st) ptr"
  shows "good (hole (fst (malloc w dl sz st))) \<and>
    account (hole (fst (malloc w dl sz st))) =
      (if ptr \<noteq> 0 \<and> trackable (hole st) ptr sz then add_mset (ptr, sz) (account (hole st))
       else account (hole st))"
proof -
  let ?h = "(hole st)\<lparr>errno := e\<rparr>"
  have g: "good ?h" "trackable ?h ptr sz = trackable (hole st) ptr sz" "account ?h = account (hole st)"
    using assms(1) by (simp_all add: trackable_def)
  have "hole (fst (malloc w dl sz st)) = (if ptr = 0 then record_failed_allocation w ?h
      else record_successful_allocation w sz ptr ?h)\<lparr>errno := e\<rparr>"
    using assms(2-5) by (simp add: malloc_def call_real_frame Let_def)
  then show ?thesis
    using record_successful_account [OF g(1), of w sz ptr] record_failed_account [OF g(1), of w] g by auto
qed

text \<open>A successful \<open>malloc\<close> enters the block and the requested size into the account when the
  live table takes it; a failed one leaves the account as it is; either way recording stays
  consistent.\<close>

theorem malloc_account:
  assumes "good (hole st)" and "resolver_complete st" and "dl_malloc dl = Some m"
    and "m sz (heap st) (errno (hole st)) = (h, e, ptr)" and "\<not> is_bootstrap_pointer (boot_base st) ptr"
  shows "good (hole (fst (malloc w dl sz st))) \<and>
    account (hole (fst (malloc w dl sz st))) =
      (if ptr \<noteq> 0 \<and> trackable (hole st) ptr sz then add_mset (ptr, sz) (account (hole st))
       else account (hole st))"
  using assms by (rule malloc_spec)

theorem malloc_account_witness:
  "account (hole (fst (malloc sample_world sample_allocator 100 sample_api))) = {#(64, 100)#}"
  using malloc_account [of sample_api sample_allocator "\<lambda>_. sample_real" 100 1 0 64 sample_world]
    sample_hole_good sample_hole_table
  by (simp add: sample_api_def sample_allocator_def sample_real_def trackable_def rounded_allocation_size_def
      is_bootstrap_pointer_def sample_hole_def [THEN arg_cong, of errno] sample_process_def)

text \<open>C16: \<open>free\<close> of a block takes one entry of that block out of the account, or changes nothing when
  there is none, and nothing else.\<close>

theorem free_account:
  assumes "good (hole st)" and "1 < ptr" and "\<not> is_bootstrap_pointer (boot_base st) ptr"
  shows "good (hole (free w dl ptr st)) \<and>
    (account (hole (free w dl ptr st)) = account (hole st) \<and> (\<forall>r. (ptr, r) \<notin># account (hole st)) \<or>
     (\<exists>r. account (hole st) = add_mset (ptr, r) (account (hole (free w dl ptr st)))))"
proof -
  have "load_real (dl_free dl) st1 = (st2, r) \<Longrightarrow> hole st2 = hole st1" for st1 st2 :: "'a api_state" and r
    by (auto simp: load_real_def resolve_real_allocators_def Let_def split: if_splits option.splits)
  then have "\<exists>e. hole (free w dl ptr st) = (record_free_allocation w ptr (hole st))\<lparr>errno := e\<rparr>"
    using assms(2,3) by (auto simp: free_def Let_def call_real_frame split: prod.splits option.splits)
  then show ?thesis
    using record_free_account [OF assms(1,2), of w] by auto
qed

definition sample_api_after :: "nat api_state" where
  "sample_api_after = fst (malloc sample_world sample_allocator 100 sample_api)"

lemma sample_api_after:
  "good (hole sample_api_after)" "account (hole sample_api_after) = {#(64, 100)#}"
  "boot_base sample_api_after = 2 ^ 30" "resolver_complete sample_api_after"
  using malloc_spec [of sample_api sample_allocator "\<lambda>_. sample_real" 100 1 0 64 sample_world]
    sample_hole_good sample_hole_table
  by (simp_all add: sample_api_after_def sample_api_def sample_allocator_def sample_real_def trackable_def
      rounded_allocation_size_def is_bootstrap_pointer_def sample_hole_def [THEN arg_cong, of errno]
      sample_process_def malloc_def call_real_frame Let_def)

theorem free_account_witness:
  "account (hole (free sample_world sample_allocator 64 sample_api_after)) = {#}"
  using free_account [of sample_api_after 64 sample_world sample_allocator] sample_api_after
  by (auto simp: is_bootstrap_pointer_def)

lemma restore_account:
  assumes "good st" and "1 < ptr" and "detach_live_allocation w ptr st = (st', d)"
  shows "good (restore_detached_allocation ptr d (st'\<lparr>errno := e\<rparr>)) \<and>
    account (restore_detached_allocation ptr d (st'\<lparr>errno := e\<rparr>)) = account st"
proof -
  have eq: "detach_prepared ptr st = (st', d)"
    using assms by (simp add: detach_live_allocation_def prepare_recording_on good_def)
  note det = detach_account [OF assms]
  have err: "restore_detached_allocation ptr d (st'\<lparr>errno := e\<rparr>) = (restore_detached_allocation ptr d st')\<lparr>errno := e\<rparr>"
    by (auto simp: restore_detached_allocation_def track_live_allocation_def update_live_shard_def Let_def
        split: option.splits prod.splits)
  have rate: "live_sample_rate (restore_detached_allocation ptr d st') = live_sample_rate st'"
    by (auto simp: restore_detached_allocation_def split: option.splits)
  show ?thesis
  proof (cases "tracked d")
    case True
    then show ?thesis
      using restore_after_detach [of st ptr] assms(1,2) det restore_consistent [of st' ptr d] rate unfolding eq err
      by (simp add: good_def account_def)
  next
    case False
    then show ?thesis
      using det assms(1) by (simp add: restore_detached_allocation_def)
  qed
qed

lemma detach_room:
  assumes "good st" and "1 < ptr" and "detach_live_allocation w ptr st = (st', d)" and "tracked d"
  shows "live_has_room (live_tab st') ptr \<and> live_table_ready (live_tab st')"
proof -
  have eq: "detach_prepared ptr st = (st', d)"
    using assms by (simp add: detach_live_allocation_def prepare_recording_on good_def)
  have wf: "wf_live_table (live_tab st)"
    using assms(1) by (simp add: good_def live_consistent_def)
  obtain tab r where rem: "live_table_remove_locked (live_tab st) ptr (live_pointer_hash ptr) = (tab, Some r)"
      "live_tab st' = tab"
    using eq assms(4)
    by (auto simp: detach_prepared_def not_detached_def Let_def split: if_splits option.splits prod.splits)
  then show ?thesis
    using live_remove_room [OF wf assms(2) rem(1)] by simp
qed

text \<open>What a call of \<open>realloc\<close> leaves to record, by the result of the real function.\<close>

lemma realloc_hole:
  assumes "resolver_complete st" and "dl_realloc dl = Some g"
    and "1 < ptr" and "\<not> is_bootstrap_pointer (boot_base st) ptr"
    and "\<And>e. snd (snd (g ptr sz (heap st) e)) = q" and "\<not> is_bootstrap_pointer (boot_base st) q"
    and "detach_live_allocation w ptr (hole st) = (h, d)"
  shows "\<exists>e. hole (fst (realloc w dl ptr sz st)) =
    (if q \<noteq> 0 then record_successful_allocation w sz q (record_release_event ptr d (h\<lparr>errno := e\<rparr>))
     else if sz \<noteq> 0 then record_failed_allocation w (restore_detached_allocation ptr d (h\<lparr>errno := e\<rparr>))
     else if observed d then maybe_write_periodic_snapshot w (record_release_event ptr d (h\<lparr>errno := e\<rparr>))
     else record_release_event ptr d (h\<lparr>errno := e\<rparr>))\<lparr>errno := e\<rparr>"
proof -
  have p: "ptr \<noteq> 0" using assms(3) by auto
  define e where "e = fst (snd (g ptr sz (heap st) (errno h)))"
  show ?thesis
    unfolding realloc_def by (simp add: p assms(1,2,4-7) call_real_frame Let_def e_def [symmetric] exI [of _ e])
qed

text \<open>C17: \<open>realloc\<close> of a block keeps the account right in every case. Let \<open>M\<close> be the account without the
  entry of the block (or the whole account, when it has none). When the real function succeeds,
  the account is \<open>M\<close> with an entry for the new block and size, unless the table cannot take it; it always can
  when the block stays in place and had an entry. When the real function fails for a size other than \<open>0\<close> the
  account is exactly what it was; when it releases the block (size \<open>0\<close>, result \<open>NULL\<close>) the account is \<open>M\<close>.\<close>

theorem realloc_account:
  assumes "good (hole st)" and "resolver_complete st" and "dl_realloc dl = Some g"
    and "1 < ptr" and "\<not> is_bootstrap_pointer (boot_base st) ptr"
    and "\<And>e. snd (snd (g ptr sz (heap st) e)) = q" and "\<not> is_bootstrap_pointer (boot_base st) q"
  shows "let taken = fst (detach_live_allocation w ptr (hole st)); M = account taken; old = account (hole st);
      new = account (hole (fst (realloc w dl ptr sz st)))
    in good (hole (fst (realloc w dl ptr sz st))) \<and>
      ((\<exists>r. old = add_mset (ptr, r) M) \<or> M = old \<and> (\<forall>r. (ptr, r) \<notin># old)) \<and>
      new = (if q \<noteq> 0 then (if trackable taken q sz then add_mset (q, sz) M else M) else if sz \<noteq> 0 then old else M) \<and>
      (q = ptr \<and> (\<exists>r. (ptr, r) \<in># old) \<and> rounded_allocation_size sz \<noteq> None \<longrightarrow> trackable taken q sz)"
proof -
  obtain h d where d: "detach_live_allocation w ptr (hole st) = (h, d)" by fastforce
  note det = detach_account [OF assms(1,4) d]
  obtain e where res: "hole (fst (realloc w dl ptr sz st)) =
    (if q \<noteq> 0 then record_successful_allocation w sz q (record_release_event ptr d (h\<lparr>errno := e\<rparr>))
     else if sz \<noteq> 0 then record_failed_allocation w (restore_detached_allocation ptr d (h\<lparr>errno := e\<rparr>))
     else if observed d then maybe_write_periodic_snapshot w (record_release_event ptr d (h\<lparr>errno := e\<rparr>))
     else record_release_event ptr d (h\<lparr>errno := e\<rparr>))\<lparr>errno := e\<rparr>"
    using realloc_hole [where g = g, OF assms(2-7) d] by blast
  let ?h = "h\<lparr>errno := e\<rparr>"
  have rel: "good (record_release_event ptr d ?h)" "account (record_release_event ptr d ?h) = account h"
    "trackable (record_release_event ptr d ?h) q sz = trackable h q sz"
    using det by (simp_all add: good_def account_def trackable_def)
  have snap: "good (maybe_write_periodic_snapshot w (record_release_event ptr d ?h))"
    "account (maybe_write_periodic_snapshot w (record_release_event ptr d ?h)) = account h"
    using rel by (simp_all add: good_def account_def)
  have M: "(\<exists>r. account (hole st) = add_mset (ptr, r) (account h)) \<or>
      account h = account (hole st) \<and> (\<forall>r. (ptr, r) \<notin># account (hole st))"
    using det by (auto split: if_splits)
  have room: "q = ptr \<and> (\<exists>r. (ptr, r) \<in># account (hole st)) \<and> rounded_allocation_size sz \<noteq> None \<longrightarrow> trackable h q sz"
    using det detach_room [OF assms(1,4) d] assms(4) by (auto simp: trackable_def split: if_splits)
  have "good (hole (fst (realloc w dl ptr sz st))) \<and> account (hole (fst (realloc w dl ptr sz st))) =
      (if q \<noteq> 0 then (if trackable h q sz then add_mset (q, sz) (account h) else account h)
       else if sz \<noteq> 0 then account (hole st) else account h)"
    using res rel snap record_successful_account [OF rel(1), of w sz q] restore_account [OF assms(1,4) d, of e]
      record_failed_account [of "restore_detached_allocation ptr d ?h" w] by (simp split: if_splits)
  with M room show ?thesis
    by (simp add: d Let_def)
qed

definition resizing_allocator :: "nat allocator" where
  "resizing_allocator = sample_allocator\<lparr>dl_realloc := Some (\<lambda>p _ h e. (h + 1, e, p))\<rparr>"

theorem realloc_account_witness:
  "account (hole (fst (realloc sample_world resizing_allocator 64 200 sample_api_after))) = {#(64, 200)#}"
proof -
  note s = realloc_account [of sample_api_after resizing_allocator "\<lambda>p _ h e. (h + 1, e, p)" 64 200 64 sample_world,
      unfolded Let_def]
  have "rounded_allocation_size 200 \<noteq> None"
    by (simp add: rounded_allocation_size_def)
  moreover have "account (fst (detach_live_allocation sample_world 64 (hole sample_api_after))) = {#}"
    if "(\<exists>r. {#(64, 100)#} = add_mset (64, r) (account (fst (detach_live_allocation sample_world 64 (hole sample_api_after)))))"
    using that by auto
  ultimately show ?thesis
    using s sample_api_after by (auto simp: resizing_allocator_def is_bootstrap_pointer_def)
qed

end
