(* ===== verification/ThreadMap.thy ===== *)
theory ThreadMap
  imports OpenAddressing
begin

text \<open>
  The thread map of \<open>malloc_free_hook.c\<close>: an open-addressing table from \<open>pthread_t\<close> to thread
  instances, probed linearly over all its 65536 slots, with tombstones. Each operation runs
  under \<open>thread_map_lock\<close> and is one step. The lemmas show that the three operations implement
  a finite map as long as an insertion finds room, and say exactly when it does not; the locale
  \<open>finite_map\<close> is the contract the thread wrappers rely on.
\<close>

subsection \<open>The model\<close>

definition THREAD_MAP_CAPACITY :: nat where "THREAD_MAP_CAPACITY = 65536"

datatype thread_map_state = THREAD_MAP_EMPTY | THREAD_MAP_USED | THREAD_MAP_DELETED

record thread_map_entry =
  entry_state :: thread_map_state
  pthread_key :: u64
  entry_instance :: u32

type_synonym thread_map = "thread_map_entry list"

definition mix_uint64 :: "u64 \<Rightarrow> u64" where
  "mix_uint64 v =
    (let v = v XOR drop_bit 33 v;
         v = v * 0xff51afd7ed558ccd;
         v = v XOR drop_bit 33 v;
         v = v * 0xc4ceb9fe1a85ec53
     in v XOR drop_bit 33 v)"

definition pthread_hash :: "u64 \<Rightarrow> u64" where
  "pthread_hash thread = mix_uint64 thread AND (of_nat THREAD_MAP_CAPACITY - 1)"

definition thread_slot :: "u64 \<Rightarrow> nat \<Rightarrow> nat" where
  "thread_slot thread probe =
    unat ((pthread_hash thread + of_nat probe) AND (of_nat THREAD_MAP_CAPACITY - 1))"

definition used_by :: "thread_map_entry \<Rightarrow> u64 \<Rightarrow> bool" where
  "used_by e thread \<longleftrightarrow> entry_state e = THREAD_MAP_USED \<and> pthread_key e = thread"

text \<open>The loop of \<open>thread_map_put\<close> from probe number \<open>probe\<close>; \<open>None\<close> is \<open>SIZE_MAX\<close>.\<close>

function put_probe :: "u64 \<Rightarrow> u32 \<Rightarrow> nat \<Rightarrow> nat option \<Rightarrow> thread_map \<Rightarrow> thread_map \<times> bool" where
  "put_probe thread inst probe first_deleted m =
    (if probe < THREAD_MAP_CAPACITY then
       let index = thread_slot thread probe; e = m ! index in
       if used_by e thread then (m[index := e\<lparr>entry_instance := inst\<rparr>], True)
       else
         let first_deleted = (if entry_state e = THREAD_MAP_DELETED \<and> first_deleted = None
                              then Some index else first_deleted)
         in if entry_state e = THREAD_MAP_EMPTY
            then (m[(case first_deleted of Some i \<Rightarrow> i | None \<Rightarrow> index) :=
                    \<lparr>entry_state = THREAD_MAP_USED, pthread_key = thread, entry_instance = inst\<rparr>], True)
            else put_probe thread inst (probe + 1) first_deleted m
     else (m, False))"
  by pat_completeness auto
termination
  by (relation "measure (\<lambda>(t, i, probe, d, m). THREAD_MAP_CAPACITY - probe)") auto

declare put_probe.simps [simp del]

definition thread_map_put :: "u64 \<Rightarrow> u32 \<Rightarrow> thread_map \<Rightarrow> thread_map \<times> bool" where
  "thread_map_put thread inst m = put_probe thread inst 0 None m"

function get_probe :: "u64 \<Rightarrow> nat \<Rightarrow> thread_map \<Rightarrow> u32" where
  "get_probe thread probe m =
    (if probe < THREAD_MAP_CAPACITY then
       let e = m ! thread_slot thread probe in
       if entry_state e = THREAD_MAP_EMPTY then 0
       else if used_by e thread then entry_instance e
       else get_probe thread (probe + 1) m
     else 0)"
  by pat_completeness auto
termination
  by (relation "measure (\<lambda>(t, probe, m). THREAD_MAP_CAPACITY - probe)") auto

declare get_probe.simps [simp del]

definition thread_map_get :: "u64 \<Rightarrow> thread_map \<Rightarrow> u32" where
  "thread_map_get thread m = get_probe thread 0 m"

function remove_probe :: "u64 \<Rightarrow> nat \<Rightarrow> thread_map \<Rightarrow> thread_map" where
  "remove_probe thread probe m =
    (if probe < THREAD_MAP_CAPACITY then
       let index = thread_slot thread probe; e = m ! index in
       if entry_state e = THREAD_MAP_EMPTY then m
       else if used_by e thread
       then m[index := e\<lparr>entry_state := THREAD_MAP_DELETED, entry_instance := 0\<rparr>]
       else remove_probe thread (probe + 1) m
     else m)"
  by pat_completeness auto
termination
  by (relation "measure (\<lambda>(t, probe, m). THREAD_MAP_CAPACITY - probe)") auto

declare remove_probe.simps [simp del]

definition thread_map_remove :: "u64 \<Rightarrow> thread_map \<Rightarrow> thread_map" where
  "thread_map_remove thread m = remove_probe thread 0 m"

text \<open>The map of a fresh process: zeroed memory.\<close>

definition empty_thread_map :: thread_map where
  "empty_thread_map = replicate THREAD_MAP_CAPACITY
    \<lparr>entry_state = THREAD_MAP_EMPTY, pthread_key = 0, entry_instance = 0\<rparr>"

subsection \<open>The abstract map\<close>

definition thread_state :: "thread_map_entry \<Rightarrow> (u64 \<times> u32) slot_state" where
  "thread_state e = (case entry_state e of
     THREAD_MAP_EMPTY \<Rightarrow> Empty
   | THREAD_MAP_USED \<Rightarrow> Used (pthread_key e, entry_instance e)
   | THREAD_MAP_DELETED \<Rightarrow> Deleted)"

definition thread_position :: "u64 \<Rightarrow> nat \<Rightarrow> nat" where
  "thread_position thread j = (unat (pthread_hash thread) + j) mod 65536"

text \<open>Well-formed: probe chains intact and one entry per thread.\<close>

definition wf_thread_map :: "thread_map \<Rightarrow> bool" where
  "wf_thread_map m \<longleftrightarrow> length m = 65536 \<and> chained thread_state fst thread_position 65536 m \<and>
    (\<forall>k. count (image_mset fst (entries thread_state m)) k \<le> 1)"

definition thread_bindings :: "thread_map \<Rightarrow> (u64 \<times> u32) list" where
  "thread_bindings m = map entry (filter is_Used (map thread_state m))"

definition thread_lookup :: "thread_map \<Rightarrow> u64 \<rightharpoonup> u32" where
  "thread_lookup m = map_of (thread_bindings m)"

interpretation threads: probing thread_state fst thread_position 65536 65536
  by unfold_locales (simp add: thread_position_def)

lemma thread_slot_position: "j < 65536 \<Longrightarrow> thread_slot thread j = thread_position thread j"
proof -
  assume j: "j < 65536"
  have m: "(of_nat THREAD_MAP_CAPACITY - 1 :: u64) = mask 16"
    by (simp add: THREAD_MAP_CAPACITY_def mask_eq_exp_minus_1)
  have h: "unat (pthread_hash thread) < 65536"
    using unat_and_mask [of "mix_uint64 thread" 16] by (simp add: pthread_hash_def m)
  with j have "unat (pthread_hash thread + of_nat j) = unat (pthread_hash thread) + j"
    by (subst unat_add_no_wrap) (simp_all add: unat_of_nat_u64)
  then show ?thesis
    by (simp add: thread_slot_def thread_position_def m unat_and_mask del: mask_numeral)
qed

lemma thread_state_simps:
  "used_by e thread \<longleftrightarrow> (\<exists>i. thread_state e = Used (thread, i))"
  "entry_state e = THREAD_MAP_EMPTY \<longleftrightarrow> thread_state e = Empty"
  "entry_state e = THREAD_MAP_DELETED \<longleftrightarrow> thread_state e = Deleted"
  by (auto simp: used_by_def thread_state_def split: thread_map_state.splits)

lemma thread_bindings_mset: "mset (thread_bindings m) = entries thread_state m"
  by (simp add: thread_bindings_def entries_def)

lemma thread_lookup_iff:
  assumes "\<forall>k. count (image_mset fst (entries thread_state m)) k \<le> 1"
  shows "thread_lookup m k = Some v \<longleftrightarrow> (k, v) \<in># entries thread_state m"
  using single_by_map_of [of fst "thread_bindings m" snd k v] assms
  by (simp add: single_by_def thread_lookup_def thread_bindings_mset [symmetric])

lemma thread_lookup_None:
  assumes "\<forall>k. count (image_mset fst (entries thread_state m)) k \<le> 1"
  shows "thread_lookup m k = None \<longleftrightarrow> (\<forall>v. (k, v) \<notin># entries thread_state m)"
  using thread_lookup_iff [OF assms, of k] by (metis not_None_eq)

text \<open>The loops stop where \<open>first_from\<close> stops.\<close>

definition stops_at :: "thread_map \<Rightarrow> u64 \<Rightarrow> nat \<Rightarrow> bool" where
  "stops_at m thread i \<longleftrightarrow> thread_state (m ! i) = Empty \<or>
    (\<exists>e. thread_state (m ! i) = Used e \<and> fst e = thread)"

lemma stops_at_eq:
  "stops_at m thread i \<longleftrightarrow> entry_state (m ! i) = THREAD_MAP_EMPTY \<or> used_by (m ! i) thread"
  by (auto simp: stops_at_def thread_state_simps)

lemma get_probe_eq:
  "get_probe thread j m =
    (case first_from (\<lambda>j. stops_at m thread (thread_position thread j)) j 65536 of
       None \<Rightarrow> 0
     | Some i \<Rightarrow> (case thread_state (m ! thread_position thread i) of Used e \<Rightarrow> snd e | _ \<Rightarrow> 0))"
proof (induction thread j m rule: get_probe.induct)
  case (1 thread j m)
  show ?case
    unfolding get_probe.simps [of thread j m] first_from.simps [of _ j]
    using 1 thread_slot_position [of j thread]
    by (auto simp: Let_def stops_at_eq THREAD_MAP_CAPACITY_def thread_state_def used_by_def)
qed

lemma remove_probe_eq:
  "remove_probe thread j m =
    (case first_from (\<lambda>j. stops_at m thread (thread_position thread j)) j 65536 of
       None \<Rightarrow> m
     | Some i \<Rightarrow> (case thread_state (m ! thread_position thread i) of
         Used e \<Rightarrow> m[thread_position thread i := (m ! thread_position thread i)
           \<lparr>entry_state := THREAD_MAP_DELETED, entry_instance := 0\<rparr>]
       | _ \<Rightarrow> m))"
proof (induction thread j m rule: remove_probe.induct)
  case (1 thread j m)
  show ?case
    unfolding remove_probe.simps [of thread j m] first_from.simps [of _ j]
    using 1 thread_slot_position [of j thread]
    by (auto simp: Let_def stops_at_eq THREAD_MAP_CAPACITY_def thread_state_def used_by_def)
qed

text \<open>Where an insertion of a new thread goes: the first tombstone before the stop, or the stop.\<close>

definition insert_slot :: "u64 \<Rightarrow> thread_map \<Rightarrow> nat \<Rightarrow> nat \<Rightarrow> nat" where
  "insert_slot thread m j i =
    (case first_from (\<lambda>j. thread_state (m ! thread_position thread j) = Deleted) j i of
       Some d \<Rightarrow> thread_position thread d | None \<Rightarrow> thread_position thread i)"

lemma put_probe_eq:
  "put_probe thread inst j d m =
    (case first_from (\<lambda>j. stops_at m thread (thread_position thread j)) j 65536 of
       None \<Rightarrow> (m, False)
     | Some i \<Rightarrow> (case thread_state (m ! thread_position thread i) of
         Used e \<Rightarrow> (m[thread_position thread i := (m ! thread_position thread i)\<lparr>entry_instance := inst\<rparr>], True)
       | _ \<Rightarrow> (m[(case d of Some k \<Rightarrow> k | None \<Rightarrow> insert_slot thread m j i) :=
           \<lparr>entry_state = THREAD_MAP_USED, pthread_key = thread, entry_instance = inst\<rparr>], True)))"
proof (induction thread inst j d m rule: put_probe.induct)
  case (1 thread inst j d m)
  let ?P = "\<lambda>j. stops_at m thread (thread_position thread j)"
  show ?case
  proof (cases "j < 65536 \<and> \<not> ?P j")
    case True
    then have p: "thread_slot thread j = thread_position thread j"
      using thread_slot_position by simp
    let ?d = "if entry_state (m ! thread_position thread j) = THREAD_MAP_DELETED \<and> d = None
      then Some (thread_position thread j) else d"
    have step: "put_probe thread inst j d m = put_probe thread inst (j + 1) ?d m"
      using True by (simp add: put_probe.simps [of thread inst j d m] p Let_def stops_at_eq THREAD_MAP_CAPACITY_def)
    have f: "first_from ?P j 65536 = first_from ?P (j + 1) 65536"
      using True by (simp add: first_from.simps [of _ j])
    have ih: "put_probe thread inst (j + 1) ?d m =
      (case first_from ?P (j + 1) 65536 of
       None \<Rightarrow> (m, False)
     | Some i \<Rightarrow> (case thread_state (m ! thread_position thread i) of
         Used e \<Rightarrow> (m[thread_position thread i := (m ! thread_position thread i)\<lparr>entry_instance := inst\<rparr>], True)
       | _ \<Rightarrow> (m[(case ?d of Some k \<Rightarrow> k | None \<Rightarrow> insert_slot thread m (j + 1) i) :=
           \<lparr>entry_state = THREAD_MAP_USED, pthread_key = thread, entry_instance = inst\<rparr>], True)))"
      using 1 True p by (simp add: Let_def stops_at_eq THREAD_MAP_CAPACITY_def)
    have "insert_slot thread m j i = (if entry_state (m ! thread_position thread j) = THREAD_MAP_DELETED
        then thread_position thread j else insert_slot thread m (j + 1) i)" if "j < i" for i
      using that by (simp add: insert_slot_def first_from.simps [of _ j i] thread_state_simps)
    moreover have "j < i" if "first_from ?P (j + 1) 65536 = Some i" for i
      using first_from_SomeD [OF that] by simp
    ultimately show ?thesis
      unfolding step f ih by (auto split: option.splits slot_state.splits)
  next
    case False
    show ?thesis
    proof (cases "j < 65536")
      case True
      with False have stop: "?P j" by simp
      have f: "first_from ?P j 65536 = Some j"
        using True stop by (simp add: first_from.simps [of ?P j])
      have i: "insert_slot thread m j j = thread_position thread j"
        by (simp add: insert_slot_def first_from.simps [of _ j j])
      show ?thesis
        unfolding f put_probe.simps [of thread inst j d m]
        using stop thread_slot_position [OF True, of thread]
        by (auto simp: stops_at_eq Let_def THREAD_MAP_CAPACITY_def i True thread_state_def used_by_def
            split: option.splits thread_map_state.splits)
    next
      case False
      then show ?thesis
        by (simp add: put_probe.simps [of thread inst j d m] first_from.simps [of ?P j] THREAD_MAP_CAPACITY_def)
    qed
  qed
qed

subsection \<open>The operations implement the map\<close>

abbreviation single_keys :: "(u64 \<times> u32) multiset \<Rightarrow> bool" where
  "single_keys \<equiv> single_by fst"

lemma wf_thread_map_alt: "wf_thread_map m \<longleftrightarrow> length m = 65536 \<and>
    chained thread_state fst thread_position 65536 m \<and> single_keys (entries thread_state m)"
  by (simp add: wf_thread_map_def single_by_def)

lemma single_keys_add: "single_keys (add_mset (k, v) E) \<longleftrightarrow> single_keys E \<and> (\<forall>v. (k, v) \<notin># E)"
  by (auto simp: single_by_add)

lemma thread_lookup_eqI:
  assumes "single_keys (entries thread_state m)"
    and "\<And>k v. (k, v) \<in># entries thread_state m \<longleftrightarrow> f k = Some v"
  shows "thread_lookup m = f"
proof
  fix k
  show "thread_lookup m k = f k"
    using thread_lookup_iff [of m k] assms unfolding single_by_def by (metis not_None_eq)
qed

lemma thread_lookup_in:
  "wf_thread_map m \<Longrightarrow> thread_lookup m k = Some v \<longleftrightarrow> (k, v) \<in># entries thread_state m"
  using thread_lookup_iff [of m] by (simp add: wf_thread_map_def)

lemma thread_lookup_none:
  "wf_thread_map m \<Longrightarrow> thread_lookup m k = None \<longleftrightarrow> (\<forall>v. (k, v) \<notin># entries thread_state m)"
  using thread_lookup_None [of m] by (simp add: wf_thread_map_def)

text \<open>Replacing the entries of one key.\<close>

lemma wf_add_entry:
  assumes "wf_thread_map m" and "length m' = 65536" and "chained thread_state fst thread_position 65536 m'"
    and "entries thread_state m' = add_mset (k, v) E"
    and "entries thread_state m = E \<and> (\<forall>v. (k, v) \<notin># E) \<or> (\<exists>old. entries thread_state m = add_mset (k, old) E)"
  shows "wf_thread_map m' \<and> thread_lookup m' = (thread_lookup m)(k \<mapsto> v)"
proof -
  have "single_keys (entries thread_state m)"
    using assms(1) by (simp add: wf_thread_map_alt)
  then have E: "single_keys E" "\<forall>v. (k, v) \<notin># E"
    using assms(5) by (auto simp: single_keys_add)
  then have wf: "wf_thread_map m'"
    using assms(2-4) by (simp add: wf_thread_map_alt single_keys_add)
  then have "thread_lookup m' = (thread_lookup m)(k \<mapsto> v)"
    using thread_lookup_in [OF assms(1)] assms(4,5) E
    by (intro thread_lookup_eqI) (auto simp: wf_thread_map_alt)
  with wf show ?thesis by simp
qed

lemma wf_remove_entry:
  assumes "wf_thread_map m" and "length m' = 65536" and "chained thread_state fst thread_position 65536 m'"
    and "entries thread_state m = add_mset (k, v) (entries thread_state m')"
  shows "wf_thread_map m' \<and> thread_lookup m' = (thread_lookup m)(k := None)"
proof -
  have E: "single_keys (entries thread_state m')" "\<forall>v. (k, v) \<notin># entries thread_state m'"
    using assms(1,4) by (auto simp: wf_thread_map_alt single_keys_add)
  then have wf: "wf_thread_map m'"
    using assms(2,3) by (simp add: wf_thread_map_alt)
  then have "thread_lookup m' = (thread_lookup m)(k := None)"
    using thread_lookup_in [OF assms(1)] assms(4) E
    by (intro thread_lookup_eqI) auto
  with wf show ?thesis by simp
qed

text \<open>The three outcomes of a search.\<close>

lemma search_cases:
  assumes "wf_thread_map m"
  obtains (full) "first_from (\<lambda>j. stops_at m k (thread_position k j)) 0 65536 = None" "thread_lookup m k = None"
  | (absent) j where "first_from (\<lambda>j. stops_at m k (thread_position k j)) 0 65536 = Some j" "j < 65536"
      "thread_state (m ! thread_position k j) = Empty" "thread_lookup m k = None"
  | (found) j v where "first_from (\<lambda>j. stops_at m k (thread_position k j)) 0 65536 = Some j" "j < 65536"
      "thread_state (m ! thread_position k j) = Used (k, v)" "thread_lookup m k = Some v"
proof (cases "first_from (\<lambda>j. stops_at m k (thread_position k j)) 0 65536")
  case None
  moreover have "thread_lookup m k = None"
    using threads.search_none [of m k] None assms thread_lookup_none [OF assms]
    by (auto simp: wf_thread_map_def stops_at_def)
  ultimately show ?thesis using full by blast
next
  case (Some j)
  then have j: "j < 65536" "stops_at m k (thread_position k j)"
    using first_from_SomeD [OF Some] by auto
  show ?thesis
  proof (cases "thread_state (m ! thread_position k j) = Empty")
    case True
    moreover have "thread_lookup m k = None"
      using threads.search_empty [of m k j] Some True assms thread_lookup_none [OF assms]
      by (auto simp: wf_thread_map_def stops_at_def)
    ultimately show ?thesis using absent Some j by blast
  next
    case False
    then obtain v where v: "thread_state (m ! thread_position k j) = Used (k, v)"
      using j(2) by (auto simp: stops_at_def)
    have "thread_position k j < length m"
      using assms by (simp add: wf_thread_map_def thread_position_def)
    then have "thread_lookup m k = Some v"
      using v thread_lookup_in [OF assms] by (auto simp: entries_iff)
    then show ?thesis using found Some j v by blast
  qed
qed

lemma thread_map_get_spec:
  assumes "wf_thread_map m"
  shows "thread_map_get k m = (case thread_lookup m k of Some v \<Rightarrow> v | None \<Rightarrow> 0)"
  by (rule search_cases [OF assms, of k]) (simp_all add: thread_map_get_def get_probe_eq)

lemma thread_map_remove_spec:
  assumes "wf_thread_map m"
  shows "wf_thread_map (thread_map_remove k m) \<and>
    thread_lookup (thread_map_remove k m) = (thread_lookup m)(k := None)"
proof (rule search_cases [OF assms, of k])
  fix j v
  assume s: "first_from (\<lambda>j. stops_at m k (thread_position k j)) 0 65536 = Some j" "j < 65536"
    and u: "thread_state (m ! thread_position k j) = Used (k, v)" and "thread_lookup m k = Some v"
  let ?e = "(m ! thread_position k j)\<lparr>entry_state := THREAD_MAP_DELETED, entry_instance := 0\<rparr>"
  have "thread_state ?e = Deleted" by (simp add: thread_state_def)
  note threads.delete_found [OF _ _ s(2) u this]
  then show ?thesis
    using assms s u wf_remove_entry [OF assms, of "m[thread_position k j := ?e]" k v]
    by (simp add: thread_map_remove_def remove_probe_eq wf_thread_map_def)
qed (use assms in \<open>auto simp: thread_map_remove_def remove_probe_eq fun_upd_idem\<close>)

text \<open>A full cycle visits every slot.\<close>

lemma thread_position_surj:
  assumes "i < 65536"
  shows "\<exists>j<65536. thread_position k j = i"
proof -
  let ?h = "unat (pthread_hash k) mod 65536"
  let ?j = "(i + (65536 - ?h)) mod 65536"
  have "(unat (pthread_hash k) + ?j) mod 65536 = (?h + (i + (65536 - ?h))) mod 65536"
    by (simp only: mod_add_right_eq mod_add_left_eq)
  also have "?h + (i + (65536 - ?h)) = i + 65536"
    using mod_less_divisor [of 65536 "unat (pthread_hash k)"] by linarith
  also have "(i + 65536) mod 65536 = i"
    using assms by simp
  finally show ?thesis
    by (intro exI [of _ ?j]) (simp add: thread_position_def)
qed

lemma thread_map_put_full:
  assumes "first_from (\<lambda>j. stops_at m k (thread_position k j)) 0 65536 = None"
  shows "thread_map_put k v m = (m, False)" and "i < 65536 \<Longrightarrow> thread_state (m ! i) \<noteq> Empty"
proof -
  show "thread_map_put k v m = (m, False)"
    by (simp only: thread_map_put_def put_probe_eq assms option.case)
  assume "i < 65536"
  then obtain j where "j < 65536" "thread_position k j = i"
    using thread_position_surj by blast
  then show "thread_state (m ! i) \<noteq> Empty"
    using assms unfolding first_from_None_iff stops_at_def by blast
qed

lemma thread_map_put_absent:
  assumes "wf_thread_map m"
    and s: "first_from (\<lambda>j. stops_at m k (thread_position k j)) 0 65536 = Some j" "j < 65536"
    and e: "thread_state (m ! thread_position k j) = Empty"
    and none: "\<forall>v. (k, v) \<notin># entries thread_state m"
  obtains m' where "thread_map_put k v m = (m', True)"
    and "wf_thread_map m'" and "thread_lookup m' = (thread_lookup m)(k \<mapsto> v)"
proof -
  let ?v = "\<lparr>entry_state = THREAD_MAP_USED, pthread_key = k, entry_instance = v\<rparr>"
  let ?m = "m[insert_slot k m 0 j := ?v]"
  have v: "thread_state ?v = Used (k, v)" by (simp add: thread_state_def)
  have res: "thread_map_put k v m = (?m, True)"
    by (simp only: thread_map_put_def put_probe_eq s e option.case slot_state.case)
  have "\<exists>d\<le>j. insert_slot k m 0 j = thread_position k d \<and>
    \<not> is_Used (thread_state (m ! thread_position k d))"
  proof (cases "first_from (\<lambda>j. thread_state (m ! thread_position k j) = Deleted) 0 j")
    case None
    then show ?thesis
      unfolding insert_slot_def None option.case using e by (intro exI [of _ j]) simp
  next
    case (Some d)
    from first_from_SomeD [OF this] show ?thesis
      unfolding insert_slot_def Some option.case by (intro exI [of _ d]) simp
  qed
  then obtain d where d: "insert_slot k m 0 j = thread_position k d" "d \<le> j"
    "\<not> is_Used (thread_state (m ! thread_position k d))" by blast
  have before: "\<forall>i<d. thread_state (m ! thread_position k i) \<noteq> Empty"
    using first_from_SomeD [OF s(1)] d(2) unfolding stops_at_def by (metis le0 less_le_trans)
  have len: "length m = 65536" and ch: "chained thread_state fst thread_position 65536 m"
    using assms(1) by (simp_all only: wf_thread_map_def)
  have "thread_position k d < length m"
    unfolding len thread_position_def by simp
  then have ent: "entries thread_state ?m = add_mset (k, v) (entries thread_state m)"
    unfolding d(1) by (intro entries_update_free d v)
  have "d < 65536" using d(2) s(2) by simp
  have ch': "chained thread_state fst thread_position 65536 ?m"
    unfolding d(1)
  proof (rule chained_update [OF ch])
    fix e
    assume "thread_state ?v = Used e"
    then have "fst e = k" unfolding v by auto
    then show "\<exists>j'<65536. thread_position (fst e) j' = thread_position k d \<and>
        (\<forall>n<j'. thread_state (m ! thread_position (fst e) n) \<noteq> Empty)"
      using \<open>d < 65536\<close> before by blast
  qed (unfold v, rule slot_state.distinct)
  have "length ?m = 65536" unfolding length_list_update by (rule len)
  from wf_add_entry [OF assms(1) this ch' ent] none have
    "wf_thread_map ?m \<and> thread_lookup ?m = (thread_lookup m)(k \<mapsto> v)" by blast
  then show ?thesis using that [OF res] by blast
qed

lemma thread_map_put_found:
  assumes "wf_thread_map m"
    and s: "first_from (\<lambda>j. stops_at m k (thread_position k j)) 0 65536 = Some j" "j < 65536"
    and u: "thread_state (m ! thread_position k j) = Used (k, old)"
  obtains m' where "thread_map_put k v m = (m', True)"
    and "wf_thread_map m'" and "thread_lookup m' = (thread_lookup m)(k \<mapsto> v)"
proof -
  let ?i = "thread_position k j" and ?w = "(m ! thread_position k j)\<lparr>entry_instance := v\<rparr>"
  have v: "thread_state ?w = Used (k, v)"
    using u by (auto simp: thread_state_def split: thread_map_state.splits)
  have res: "thread_map_put k v m = (m[?i := ?w], True)"
    by (simp only: thread_map_put_def put_probe_eq s u option.case slot_state.case)
  have len: "length m = 65536" and ch: "chained thread_state fst thread_position 65536 m"
    using assms(1) by (simp_all only: wf_thread_map_def)
  have before: "\<forall>n<j. thread_state (m ! thread_position k n) \<noteq> Empty"
    using first_from_SomeD [OF s(1)] unfolding stops_at_def by blast
  have i: "?i < length m" unfolding len thread_position_def by simp
  from entries_update_used [where st = thread_state, OF i u v]
  obtain E where E: "entries thread_state m = add_mset (k, old) E"
    and "entries thread_state (m[?i := ?w]) = add_mset (k, v) E" by blast
  moreover have "chained thread_state fst thread_position 65536 (m[?i := ?w])"
  proof (rule chained_update [OF ch])
    fix e
    assume "thread_state ?w = Used e"
    then show "\<exists>j'<65536. thread_position (fst e) j' = ?i \<and>
        (\<forall>n<j'. thread_state (m ! thread_position (fst e) n) \<noteq> Empty)"
      using v s(2) before by auto
  qed (unfold v, rule slot_state.distinct)
  moreover have "length (m[?i := ?w]) = 65536" unfolding length_list_update by (rule len)
  ultimately have "wf_thread_map (m[?i := ?w]) \<and> thread_lookup (m[?i := ?w]) = (thread_lookup m)(k \<mapsto> v)"
    using wf_add_entry [OF assms(1), of "m[?i := ?w]" k v E] E by blast
  then show ?thesis using that [OF res] by blast
qed

lemma thread_map_put_spec:
  assumes "wf_thread_map m" and "thread_map_put k v m = (m', ok)"
  shows "if ok then wf_thread_map m' \<and> thread_lookup m' = (thread_lookup m)(k \<mapsto> v)
    else m' = m \<and> thread_lookup m k = None \<and> (\<forall>i<65536. thread_state (m ! i) \<noteq> Empty)"
proof (cases rule: search_cases [OF assms(1), of k, case_names full absent found])
  case full
  then show ?thesis
    using thread_map_put_full assms(2) by simp
next
  case (absent j)
  then show ?thesis
    using thread_map_put_absent [OF assms(1) absent(1-3), of v] thread_lookup_none [OF assms(1), of k]
      assms(2) by (metis Pair_inject)
next
  case (found j old)
  then show ?thesis
    using thread_map_put_found [OF assms(1) found(1-3), of v] assms(2) by (metis Pair_inject)
qed


lemma wf_empty_thread_map: "wf_thread_map empty_thread_map"
  and lookup_empty_thread_map: "thread_lookup empty_thread_map k = None"
proof -
  have e: "entries thread_state empty_thread_map = {#}"
    unfolding empty_thread_map_def by (rule entries_replicate) (simp add: thread_state_def)
  have c: "chained thread_state fst thread_position 65536 empty_thread_map"
    unfolding empty_thread_map_def by (rule chained_replicate) (simp add: thread_state_def)
  have "length empty_thread_map = 65536"
    by (simp add: empty_thread_map_def THREAD_MAP_CAPACITY_def)
  with e c show wf: "wf_thread_map empty_thread_map"
    by (simp add: wf_thread_map_alt single_by_def)
  show "thread_lookup empty_thread_map k = None"
    using thread_lookup_none [OF wf] by (simp add: e)
qed

subsection \<open>The contract of the map\<close>

text \<open>
  What the thread wrappers rely on: a partial map whose \<open>get\<close> answers \<open>none\<close> for an absent
  key, whose \<open>put\<close> may refuse a new key, and whose \<open>remove\<close> always succeeds.
\<close>

locale finite_map =
  fixes put :: "'k \<Rightarrow> 'v \<Rightarrow> 'm \<Rightarrow> 'm \<times> bool" and get :: "'k \<Rightarrow> 'm \<Rightarrow> 'v" and remove :: "'k \<Rightarrow> 'm \<Rightarrow> 'm"
    and inv :: "'m \<Rightarrow> bool" and lookup :: "'m \<Rightarrow> 'k \<rightharpoonup> 'v" and none :: 'v
  assumes get_law: "inv m \<Longrightarrow> get k m = (case lookup m k of Some v \<Rightarrow> v | None \<Rightarrow> none)"
    and put_law: "inv m \<Longrightarrow> put k v m = (m', True) \<Longrightarrow> inv m' \<and> lookup m' = (lookup m)(k \<mapsto> v)"
    and put_refused: "inv m \<Longrightarrow> put k v m = (m', False) \<Longrightarrow> m' = m \<and> lookup m k = None"
    and remove_law: "inv m \<Longrightarrow> inv (remove k m) \<and> lookup (remove k m) = (lookup m)(k := None)"
begin

lemma get_after_put:
  assumes "inv m" and "put k v m = (m', True)"
  shows "get k' m' = (if k' = k then v else get k' m)"
  using assms put_law [OF assms] by (simp add: get_law)

lemma get_after_remove:
  assumes "inv m"
  shows "get k' (remove k m) = (if k' = k then none else get k' m)"
  using assms remove_law [OF assms, of k] by (simp add: get_law)

lemma inv_put:
  assumes "inv m" and "put k v m = (m', ok)"
  shows "inv m'"
  using assms put_law [of m k v m'] put_refused [of m k v m'] by (cases ok) auto

lemma put_present:
  assumes "inv m" and "lookup m k \<noteq> None"
  shows "\<exists>m'. put k v m = (m', True)"
  using put_refused [OF assms(1), of k v] assms(2)
  by (metis (full_types) surj_pair)

end

interpretation tmap: finite_map thread_map_put thread_map_get thread_map_remove
  wf_thread_map thread_lookup 0
proof
  fix m :: thread_map and k v m'
  assume wf: "wf_thread_map m"
  show "thread_map_get k m = (case thread_lookup m k of Some v \<Rightarrow> v | None \<Rightarrow> 0)"
    by (rule thread_map_get_spec [OF wf])
  show "wf_thread_map (thread_map_remove k m) \<and>
      thread_lookup (thread_map_remove k m) = (thread_lookup m)(k := None)"
    by (rule thread_map_remove_spec [OF wf])
  show "thread_map_put k v m = (m', True) \<Longrightarrow>
      wf_thread_map m' \<and> thread_lookup m' = (thread_lookup m)(k \<mapsto> v)"
    using thread_map_put_spec [OF wf, of k v m' True] by simp
  show "thread_map_put k v m = (m', False) \<Longrightarrow> m' = m \<and> thread_lookup m k = None"
    using thread_map_put_spec [OF wf, of k v m' False] by simp
qed

text \<open>C18: The thread map implements a finite map from threads to instances. On a well-formed
  table, a lookup returns the instance bound to the thread and 0 when there is none; a
  successful insertion binds the thread and changes no other binding; a removal unbinds the
  thread and changes no other binding; and every operation keeps the table well formed.\<close>

theorem thread_map_refines:
  assumes "wf_thread_map m"
  shows "thread_map_get k m = (case thread_lookup m k of Some v \<Rightarrow> v | None \<Rightarrow> 0)
    \<and> wf_thread_map (thread_map_remove k m)
    \<and> thread_lookup (thread_map_remove k m) = (thread_lookup m)(k := None)
    \<and> (let (m', ok) = thread_map_put k v m in wf_thread_map m'
        \<and> thread_lookup m' = (if ok then (thread_lookup m)(k \<mapsto> v) else thread_lookup m))"
proof -
  obtain m' ok where p: "thread_map_put k v m = (m', ok)" by (cases "thread_map_put k v m")
  show ?thesis
    unfolding p using tmap.get_law [OF assms, of k] tmap.remove_law [OF assms, of k]
      tmap.inv_put [OF assms p] tmap.put_law [OF assms, of k v m'] tmap.put_refused [OF assms, of k v m'] p
    by (cases ok) simp_all
qed

theorem thread_map_refines_witness:
  "let (m, ok) = thread_map_put 7 3 empty_thread_map in
    thread_map_get 7 m = (if ok then 3 else 0) \<and> thread_map_get 5 m = 0"
proof -
  obtain m ok where p: "thread_map_put 7 3 empty_thread_map = (m, ok)"
    by (cases "thread_map_put 7 3 empty_thread_map")
  have "wf_thread_map m" and "thread_lookup m = (if ok then (thread_lookup empty_thread_map)(7 \<mapsto> 3)
      else thread_lookup empty_thread_map)"
    using thread_map_refines [OF wf_empty_thread_map, of 7 3] p by simp_all
  then show ?thesis
    using thread_map_refines [of m 7] thread_map_refines [of m 5] p
    by (simp add: lookup_empty_thread_map)
qed

text \<open>C19: An insertion into a well-formed thread map is refused exactly when the thread is not
  bound and no slot of the table is EMPTY, and the table is then unchanged: in particular
  rebinding a bound thread always succeeds.\<close>

theorem thread_map_put_refused_iff:
  assumes "wf_thread_map m"
  shows "thread_map_put k v m = (m, False) \<longleftrightarrow>
    thread_lookup m k = None \<and> (\<forall>i<65536. entry_state (m ! i) \<noteq> THREAD_MAP_EMPTY)"
proof
  assume "thread_map_put k v m = (m, False)"
  then show "thread_lookup m k = None \<and> (\<forall>i<65536. entry_state (m ! i) \<noteq> THREAD_MAP_EMPTY)"
    using thread_map_put_spec [OF assms, of k v m False] by (simp add: thread_state_simps)
next
  assume full: "thread_lookup m k = None \<and> (\<forall>i<65536. entry_state (m ! i) \<noteq> THREAD_MAP_EMPTY)"
  show "thread_map_put k v m = (m, False)"
  proof (cases rule: search_cases [OF assms, of k, case_names full absent found])
    case full
    then show ?thesis by (intro thread_map_put_full)
  next
    case (absent j)
    have "thread_position k j < 65536" by (simp add: thread_position_def)
    with absent full show ?thesis by (simp add: thread_state_simps)
  next
    case (found j v)
    with full show ?thesis by simp
  qed
qed

definition tombstones :: thread_map where
  "tombstones = replicate THREAD_MAP_CAPACITY
    \<lparr>entry_state = THREAD_MAP_DELETED, pthread_key = 0, entry_instance = 0\<rparr>"

lemma wf_tombstones: "wf_thread_map tombstones"
  and lookup_tombstones: "thread_lookup tombstones = Map.empty"
proof -
  have e: "entries thread_state tombstones = {#}"
    unfolding tombstones_def by (rule entries_replicate) (simp add: thread_state_def)
  have c: "chained thread_state fst thread_position 65536 tombstones"
    unfolding tombstones_def by (rule chained_replicate) (simp add: thread_state_def)
  have "length tombstones = 65536"
    by (simp add: tombstones_def THREAD_MAP_CAPACITY_def)
  with e c show wf: "wf_thread_map tombstones"
    by (simp add: wf_thread_map_alt single_by_def)
  show "thread_lookup tombstones = Map.empty"
    using thread_lookup_none [OF wf] by (auto simp: e)
qed

theorem thread_map_put_refused_witness:
  "thread_lookup tombstones = Map.empty \<and> thread_map_put 5 9 tombstones = (tombstones, False)"
proof -
  have "\<forall>i<65536. entry_state (tombstones ! i) \<noteq> THREAD_MAP_EMPTY"
    by (simp add: tombstones_def THREAD_MAP_CAPACITY_def)
  then show ?thesis
    using thread_map_put_refused_iff [OF wf_tombstones, of 5 9] lookup_tombstones by simp
qed

end
