(* ===== verification/Passthrough.thy ===== *)
theory Passthrough
  imports HoleApi
begin

text \<open>
  The two diagnostic hooks that forward without statistics:
  \<open>malloc_hole_all_api_passthrough.c\<close>, the control group of the hole hook with the same entry
  points, and \<open>malloc_hole_passthrough.c\<close>, which replaces \<open>malloc\<close>, \<open>free\<close> and \<open>free_sized\<close>
  only. The lemmas compare the hole hook with its control group: up to the statistics and
  \<open>errno\<close>, every entry point has the same result and the same effect on both heaps.
\<close>

subsection \<open>\<open>malloc_hole_all_api_passthrough.c\<close>\<close>

definition malloc_all_api :: "'h allocator \<Rightarrow> u64 \<Rightarrow> 'h process \<Rightarrow> 'h process \<times> u64" where
  "malloc_all_api dl sz st =
    (let (st, function) = load_function (dl_malloc dl) st
     in case function of
          Some f \<Rightarrow> call_function (f sz) st
        | None \<Rightarrow> call_arena (bootstrap_malloc (arena_base st) sz) st)"

definition free_all_api :: "'h allocator \<Rightarrow> u64 \<Rightarrow> 'h process \<Rightarrow> 'h process" where
  "free_all_api dl ptr st =
    (if ptr = 0 \<or> is_bootstrap_pointer (arena_base st) ptr then st
     else
       let (st, function) = load_function (dl_free dl) st
       in case function of Some f \<Rightarrow> fst (call_function (f ptr) st) | None \<Rightarrow> st)"

definition calloc_all_api :: "'h allocator \<Rightarrow> u64 \<Rightarrow> u64 \<Rightarrow> 'h process \<Rightarrow> 'h process \<times> u64" where
  "calloc_all_api dl nmemb sz st =
    (let (st, function) = load_function (dl_calloc dl) st
     in case function of
          Some f \<Rightarrow> call_function (f nmemb sz) st
        | None \<Rightarrow> call_arena (bootstrap_calloc (arena_base st) nmemb sz) st)"

definition realloc_all_api :: "'h allocator \<Rightarrow> u64 \<Rightarrow> u64 \<Rightarrow> 'h process \<Rightarrow> 'h process \<times> u64" where
  "realloc_all_api dl ptr sz st =
    (if is_bootstrap_pointer (arena_base st) ptr
     then call_arena (bootstrap_realloc (arena_base st) ptr sz) st
     else
       let (st, function) = load_function (dl_realloc dl) st
       in case function of Some f \<Rightarrow> call_function (f ptr sz) st | None \<Rightarrow> (st, 0))"

definition free_sized_all_api :: "'h allocator \<Rightarrow> u64 \<Rightarrow> u64 \<Rightarrow> 'h process \<Rightarrow> 'h process" where
  "free_sized_all_api dl ptr sz st =
    (if ptr = 0 \<or> is_bootstrap_pointer (arena_base st) ptr then st
     else
       let st = (if loaded (dl_free_sized dl) st = None \<and> loaded (dl_free dl) st = None
                 then resolve_functions st else st)
       in case loaded (dl_free_sized dl) st of
            Some f \<Rightarrow> fst (call_function (f ptr sz) st)
          | None \<Rightarrow> (case loaded (dl_free dl) st of
              Some f \<Rightarrow> fst (call_function (f ptr) st)
            | None \<Rightarrow> st))"

text \<open>The result is the code and, when it is \<open>0\<close>, the pointer the real function stored.\<close>

definition posix_memalign_all_api ::
  "'h allocator \<Rightarrow> u64 \<Rightarrow> u64 \<Rightarrow> 'h process \<Rightarrow> 'h process \<times> int \<times> u64 option" where
  "posix_memalign_all_api dl alignment sz st =
    (let (st, function) = load_function (dl_posix_memalign dl) st
     in case function of
          None \<Rightarrow> (st, ENOMEM, None)
        | Some f \<Rightarrow> (let (st, result, ptr) = call_function (f alignment sz) st
                     in (st, result, if result = 0 then Some ptr else None)))"

definition aligned_alloc_all_api :: "'h allocator \<Rightarrow> u64 \<Rightarrow> u64 \<Rightarrow> 'h process \<Rightarrow> 'h process \<times> u64" where
  "aligned_alloc_all_api dl alignment sz st =
    (let (st, function) = load_function (dl_aligned_alloc dl) st
     in case function of Some f \<Rightarrow> call_function (f alignment sz) st | None \<Rightarrow> (st, 0))"

definition valloc_all_api :: "'h allocator \<Rightarrow> u64 \<Rightarrow> 'h process \<Rightarrow> 'h process \<times> u64" where
  "valloc_all_api dl sz st =
    (let (st, function) = load_function (dl_valloc dl) st
     in case function of Some f \<Rightarrow> call_function (f sz) st | None \<Rightarrow> (st, 0))"

definition memalign_all_api :: "'h allocator \<Rightarrow> u64 \<Rightarrow> u64 \<Rightarrow> 'h process \<Rightarrow> 'h process \<times> u64" where
  "memalign_all_api dl alignment sz st =
    (let (st, function) = load_function (dl_memalign dl) st
     in case function of Some f \<Rightarrow> call_function (f alignment sz) st | None \<Rightarrow> (st, 0))"

definition pvalloc_all_api :: "'h allocator \<Rightarrow> u64 \<Rightarrow> 'h process \<Rightarrow> 'h process \<times> u64" where
  "pvalloc_all_api dl sz st =
    (let (st, function) = load_function (dl_pvalloc dl) st
     in case function of Some f \<Rightarrow> call_function (f sz) st | None \<Rightarrow> (st, 0))"

subsection \<open>\<open>malloc_hole_passthrough.c\<close>\<close>

definition malloc_passthrough :: "'h allocator \<Rightarrow> u64 \<Rightarrow> 'h process \<Rightarrow> 'h process \<times> u64" where
  "malloc_passthrough dl sz st =
    (let (st, function) = load_function (dl_malloc dl) st
     in case function of
          Some f \<Rightarrow> call_function (f sz) st
        | None \<Rightarrow>
            let (offset, ptr) = passthrough_bootstrap_malloc (arena_base st) sz (bootstrap_offset (arena_state st))
            in (st\<lparr>arena_state := (arena_state st)\<lparr>bootstrap_offset := offset\<rparr>\<rparr>, ptr))"

definition free_passthrough :: "'h allocator \<Rightarrow> u64 \<Rightarrow> 'h process \<Rightarrow> 'h process" where
  "free_passthrough dl ptr st =
    (if ptr = 0 \<or> is_bootstrap_pointer (arena_base st) ptr then st
     else
       let (st, function) = load_function (dl_free dl) st
       in case function of Some f \<Rightarrow> fst (call_function (f ptr) st) | None \<Rightarrow> st)"

definition free_sized_passthrough :: "'h allocator \<Rightarrow> u64 \<Rightarrow> u64 \<Rightarrow> 'h process \<Rightarrow> 'h process" where
  "free_sized_passthrough dl ptr sz st = free_passthrough dl ptr st"

definition initialize_passthrough :: "'h process \<Rightarrow> 'h process" where
  "initialize_passthrough st = resolve_functions st"

subsection \<open>The hole hook against its control group\<close>

text \<open>
  What the control group shares with the hook, without \<open>errno\<close>. The real functions do not look
  at the \<open>errno\<close> they are called with, as the C standard has it for library functions.
\<close>

definition forget :: "'h api_state \<Rightarrow> 'h process" where
  "forget st = \<lparr>arena_state = boot st, arena_base = boot_base st, real_heap = heap st, thread_errno = 0,
    resolved = resolver_complete st, resolving = resolver_lock st\<rparr>"

definition observed_by :: "'h api_state \<times> 'r \<Rightarrow> 'h process \<times> 'r" where
  "observed_by r = (forget (fst r), snd r)"

definition drop_errno :: "'h process \<Rightarrow> 'h process" where
  "drop_errno st = st\<lparr>thread_errno := 0\<rparr>"

lemma forget_hole [simp]:
  "forget (in_hole g st) = forget st" "forget (set_errno e st) = forget st"
  "forget (st\<lparr>hole := h\<rparr>) = forget st"
  by (simp_all add: forget_def in_hole_def set_errno_def)

lemma forget_fields [simp]:
  "arena_base (forget st) = boot_base st" "resolved (forget st) = resolver_complete st"
  "drop_errno (forget st) = forget st" "real_heap (forget st) = heap st" "arena_state (forget st) = boot st"
  by (simp_all add: forget_def drop_errno_def)

lemma load_forget: "load_function f (forget st) = observed_by (load_real f st)"
  by (cases f) (simp_all add: load_function_def loaded_def load_real_def resolve_functions_def
      resolve_real_allocators_def forget_def observed_by_def Let_def)

lemma call_forget:
  assumes "errno_blind f"
  shows "apfst drop_errno (call_function f (forget st)) = observed_by (call_real f st)"
proof -
  have "fst (f (heap st) (errno (hole st))) = fst (f (heap st) 0)"
    "snd (snd (f (heap st) (errno (hole st)))) = snd (snd (f (heap st) 0))"
    using assms unfolding errno_blind_def by blast+
  then show ?thesis
    by (auto simp: call_function_def call_real_def forget_def drop_errno_def observed_by_def split: prod.splits)
qed

lemma arena_forget: "apfst drop_errno (call_arena g (forget st)) = observed_by (call_boot g st)"
  by (simp add: call_arena_def call_boot_def forget_def drop_errno_def observed_by_def split: prod.splits)

lemma observed_by_pair [simp]: "observed_by (st, r) = (forget st, r)"
  by (simp add: observed_by_def)

lemma boot_base_load [simp]: "boot_base (fst (load_real f st)) = boot_base st"
  by (cases f) (simp_all add: load_real_def resolve_real_allocators_def Let_def)

text \<open>What follows the real call in the hook is forgotten.\<close>

lemma observed_by_later:
  "(\<And>st r. forget (fst (g st r)) = forget st \<and> snd (g st r) = r) \<Longrightarrow>
    observed_by (case res of (st, r) \<Rightarrow> g st r) = observed_by res"
  by (simp add: observed_by_def split: prod.split)

text \<open>One lemma for all entry points: load, call, or fall back.\<close>

lemma call_case_forget:
  assumes "\<And>g. F = Some g \<Longrightarrow> errno_blind (app g)"
    and "\<And>st1. boot_base st1 = boot_base st \<Longrightarrow> apfst drop_errno (alt (forget st1)) = observed_by (alt' st1)"
  shows "apfst drop_errno (case load_function F (forget st) of (p, function) \<Rightarrow>
      case function of None \<Rightarrow> alt p | Some g \<Rightarrow> call_function (app g) p) =
    observed_by (case load_real F st of (st1, function) \<Rightarrow>
      case function of None \<Rightarrow> alt' st1 | Some g \<Rightarrow> call_real (app g) st1)"
proof -
  obtain st1 f where l: "load_real F st = (st1, f)" by fastforce
  have "f = Some g \<Longrightarrow> errno_blind (app g)" for g
    using l assms(1) by (auto simp: load_real_def Let_def split: option.splits if_splits)
  moreover have "boot_base st1 = boot_base st"
    using boot_base_load [of F st] by (simp add: l)
  ultimately show ?thesis
    using assms(2) [of st1] call_forget by (cases f) (simp_all add: load_forget l)
qed

lemma load_real_map: "load_real (map_option g F) st = apsnd (map_option g) (load_real F st)"
  by (cases F) (simp_all add: load_real_def Let_def)

lemma forward_forget:
  assumes "\<And>g. F = Some g \<Longrightarrow> errno_blind (app g)"
  shows "apfst drop_errno (case load_function F (forget st) of (p, function) \<Rightarrow>
      case function of None \<Rightarrow> (p, 0) | Some g \<Rightarrow> call_function (app g) p) =
    observed_by (forward_allocation w (map_option app F) sz st)"
proof -
  have "observed_by (forward_allocation w (map_option app F) sz st) =
      observed_by (case load_real (map_option app F) st of (st1, f) \<Rightarrow>
        case f of Some f \<Rightarrow> call_real f st1 | None \<Rightarrow> (st1, 0))"
    unfolding forward_allocation_def Let_def
    by (cases "load_real (map_option app F) st", simp only: split, rule observed_by_later) simp
  also have "\<dots> = observed_by (case load_real F st of (st1, f) \<Rightarrow>
        case f of Some f \<Rightarrow> call_real (app f) st1 | None \<Rightarrow> (st1, 0))"
    by (auto simp: load_real_map split: prod.split option.split)
  finally show ?thesis
    using call_case_forget [of F app st "\<lambda>p. (p, 0)" "\<lambda>p. (p, 0)", OF assms] by simp
qed

lemma aligned_forget:
  assumes "errno_blind_allocator dl"
  shows "apfst drop_errno (aligned_alloc_all_api dl al sz (forget st)) = observed_by (aligned_alloc w dl al sz st)"
    and "apfst drop_errno (valloc_all_api dl sz (forget st)) = observed_by (valloc w dl sz st)"
    and "apfst drop_errno (memalign_all_api dl al sz (forget st)) = observed_by (memalign w dl al sz st)"
    and "apfst drop_errno (pvalloc_all_api dl sz (forget st)) = observed_by (pvalloc w dl sz st)"
  unfolding aligned_alloc_def valloc_def memalign_def pvalloc_def
    aligned_alloc_all_api_def valloc_all_api_def memalign_all_api_def pvalloc_all_api_def Let_def
  by (rule forward_forget; use assms in \<open>simp add: errno_blind_allocator_def\<close>)+

lemma malloc_forget:
  assumes "errno_blind_allocator dl"
  shows "apfst drop_errno (malloc_all_api dl sz (forget st)) = observed_by (malloc w dl sz st)"
proof -
  have "observed_by (malloc w dl sz st) = observed_by (case load_real (dl_malloc dl) st of (st1, f) \<Rightarrow>
      case f of Some f \<Rightarrow> call_real (f sz) st1 | None \<Rightarrow> call_boot (bootstrap_malloc (boot_base st1) sz) st1)"
    unfolding malloc_def Let_def
    by (cases "load_real (dl_malloc dl) st", simp only: split, rule observed_by_later) simp
  then show ?thesis
    unfolding malloc_all_api_def Let_def
    using assms call_case_forget [of "dl_malloc dl" "\<lambda>f. f sz" st
        "\<lambda>p. call_arena (bootstrap_malloc (arena_base p) sz) p"
        "\<lambda>p. call_boot (bootstrap_malloc (boot_base p) sz) p"]
    by (simp add: arena_forget errno_blind_allocator_def)
qed

lemma calloc_forget:
  assumes "errno_blind_allocator dl"
  shows "apfst drop_errno (calloc_all_api dl n sz (forget st)) = observed_by (calloc w dl n sz st)"
proof -
  have "observed_by (calloc w dl n sz st) = observed_by (case load_real (dl_calloc dl) st of (st1, f) \<Rightarrow>
      case f of Some f \<Rightarrow> call_real (f n sz) st1 | None \<Rightarrow> call_boot (bootstrap_calloc (boot_base st1) n sz) st1)"
    unfolding calloc_def Let_def
    by (cases "load_real (dl_calloc dl) st", simp only: split, rule observed_by_later) simp
  then show ?thesis
    unfolding calloc_all_api_def Let_def
    using assms call_case_forget [of "dl_calloc dl" "\<lambda>f. f n sz" st
        "\<lambda>p. call_arena (bootstrap_calloc (arena_base p) n sz) p"
        "\<lambda>p. call_boot (bootstrap_calloc (boot_base p) n sz) p"]
    by (simp add: arena_forget errno_blind_allocator_def)
qed

lemma free_forget:
  assumes "errno_blind_allocator dl"
  shows "drop_errno (free_all_api dl ptr (forget st)) = forget (free w dl ptr st)"
proof (cases "ptr = 0 \<or> is_bootstrap_pointer (boot_base st) ptr")
  case True
  then show ?thesis by (simp add: free_all_api_def free_def)
next
  case False
  let ?st = "in_hole (record_free_allocation w ptr) st"
  obtain st1 f where l: "load_real (dl_free dl) ?st = (st1, f)" by fastforce
  have "f = Some g \<Longrightarrow> errno_blind (g ptr)" for g
    using l assms by (auto simp: errno_blind_allocator_def load_real_def Let_def split: option.splits if_splits)
  note call = call_forget [OF this, of _ st1]
  have "load_function (dl_free dl) (forget st) = (forget st1, f)"
    using load_forget [of "dl_free dl" ?st] by (simp add: l)
  moreover have "forget (free w dl ptr st) = forget (case f of Some f \<Rightarrow> fst (call_real (f ptr) st1) | None \<Rightarrow> st1)"
    using False by (simp add: free_def Let_def l)
  ultimately show ?thesis
    using False call by (cases f) (auto simp: free_all_api_def dest: arg_cong [of _ _ fst] simp: observed_by_def)
qed

lemma call_fst_forget:
  "errno_blind f \<Longrightarrow> drop_errno (fst (call_function f (forget st))) = forget (fst (call_real f st))"
  using arg_cong [OF call_forget [of f st], of fst] by (simp add: observed_by_def)

lemma free_sized_forget:
  assumes "errno_blind_allocator dl"
  shows "drop_errno (free_sized_all_api dl ptr sz (forget st)) = forget (free_sized w dl ptr sz st)"
proof (cases "ptr = 0 \<or> is_bootstrap_pointer (boot_base st) ptr")
  case True
  then show ?thesis by (simp add: free_sized_all_api_def free_sized_def)
next
  case False
  let ?st = "in_hole (record_free_allocation w ptr) st"
  define ld where "ld st = (if resolver_complete st then (dl_free_sized dl, dl_free dl) else (None, None))"
    for st :: "'a api_state"
  define st1 where "st1 = (if ld ?st = (None, None) then resolve_real_allocators ?st else ?st)"
  have ld: "ld st = (loaded (dl_free_sized dl) (forget st), loaded (dl_free dl) (forget st))" for st
    by (simp add: ld_def loaded_def)
  have st1: "forget st1 = (if loaded (dl_free_sized dl) (forget st) = None \<and> loaded (dl_free dl) (forget st) = None
      then resolve_functions (forget st) else forget st)"
    unfolding st1_def ld by (simp add: forget_def resolve_functions_def resolve_real_allocators_def in_hole_def)
  have blind: "loaded (dl_free_sized dl) p = Some f \<Longrightarrow> errno_blind (f ptr sz)"
    "loaded (dl_free dl) p = Some g \<Longrightarrow> errno_blind (g ptr)" for p :: "'a process" and f g
    using assms by (auto simp: errno_blind_allocator_def loaded_def split: if_splits)
  have "forget (free_sized w dl ptr sz st) = forget (case ld st1 of
      (Some f, _) \<Rightarrow> fst (call_real (f ptr sz) st1)
    | (None, Some f) \<Rightarrow> fst (call_real (f ptr) st1)
    | (None, None) \<Rightarrow> st1)"
    unfolding free_sized_def Let_def st1_def ld_def by (simp only: False if_False forget_hole)
  moreover have "free_sized_all_api dl ptr sz (forget st) =
    (case loaded (dl_free_sized dl) (forget st1) of
            Some f \<Rightarrow> fst (call_function (f ptr sz) (forget st1))
          | None \<Rightarrow> (case loaded (dl_free dl) (forget st1) of
              Some f \<Rightarrow> fst (call_function (f ptr) (forget st1))
            | None \<Rightarrow> forget st1))"
    unfolding free_sized_all_api_def Let_def st1 [symmetric] forget_fields by (simp only: False if_False)
  ultimately show ?thesis
    using blind [of "forget st1"] call_fst_forget [of _ st1]
    by (auto simp: ld split: option.split)
qed

lemma posix_memalign_forget:
  assumes "errno_blind_allocator dl"
  shows "apfst drop_errno (posix_memalign_all_api dl al sz (forget st)) = observed_by (posix_memalign w dl al sz st)"
proof -
  obtain st1 f where l: "load_real (dl_posix_memalign dl) st = (st1, f)" by fastforce
  have f: "f = Some g \<Longrightarrow> errno_blind (g al sz)" for g
    using l assms by (auto simp: errno_blind_allocator_def load_real_def Let_def split: option.splits if_splits)
  show ?thesis
  proof (cases f)
    case None
    then show ?thesis
      by (simp add: posix_memalign_all_api_def posix_memalign_def load_forget l ENOMEM_def)
  next
    case (Some g)
    have "apfst drop_errno (call_function (g al sz) (forget st1)) = observed_by (call_real (g al sz) st1)"
      using f Some by (intro call_forget) simp
    then show ?thesis
      using Some by (auto simp: posix_memalign_all_api_def posix_memalign_def load_forget l
          split: prod.splits)
  qed
qed

lemma realloc_forget:
  assumes "errno_blind_allocator dl"
  shows "apfst drop_errno (realloc_all_api dl ptr sz (forget st)) = observed_by (realloc w dl ptr sz st)"
proof -
  define st0 where "st0 = (if ptr \<noteq> 0 \<and> \<not> is_bootstrap_pointer (boot_base st) ptr
    then st\<lparr>hole := fst (detach_live_allocation w ptr (hole st))\<rparr> else st)"
  define res where "res = (if is_bootstrap_pointer (boot_base st) ptr
            then call_boot (bootstrap_realloc (boot_base st) ptr sz) st0
            else (case load_real (dl_realloc dl) st0 of (st, function) \<Rightarrow>
                case function of Some f \<Rightarrow> call_real (f ptr sz) st | None \<Rightarrow> (st, 0)))"
  have st0: "forget st0 = forget st" "boot_base st0 = boot_base st"
    by (simp_all add: st0_def)
  define d where "d = (if ptr \<noteq> 0 \<and> \<not> is_bootstrap_pointer (boot_base st) ptr
    then snd (detach_live_allocation w ptr (hole st)) else not_detached)"
  have det: "(if ptr \<noteq> 0 \<and> \<not> is_bootstrap_pointer (boot_base st) ptr
      then case detach_live_allocation w ptr (hole st) of (h, d) \<Rightarrow> (st\<lparr>hole := h\<rparr>, d)
      else (st, not_detached)) = (st0, d)"
    by (simp add: st0_def d_def split: prod.split)
  have "observed_by (realloc w dl ptr sz st) = observed_by res"
    unfolding realloc_def Let_def det split st0(2) res_def [symmetric] by (rule observed_by_later) simp
  moreover have "apfst drop_errno (realloc_all_api dl ptr sz (forget st0)) = observed_by res"
    using assms call_case_forget [of "dl_realloc dl" "\<lambda>f. f ptr sz" st0 "\<lambda>p. (p, 0)" "\<lambda>p. (p, 0)"]
    by (simp add: realloc_all_api_def res_def st0 arena_forget errno_blind_allocator_def st0(1) [symmetric]
        del: st0(1))
  ultimately show ?thesis by (simp add: st0)
qed

text \<open>The second hook agrees with the first once the functions are resolved.\<close>

lemma passthrough_resolved:
  assumes "resolved st" and "dl_malloc dl \<noteq> None"
  shows "malloc_passthrough dl sz st = malloc_all_api dl sz st"
  using assms by (auto simp: malloc_passthrough_def malloc_all_api_def)

subsection \<open>Properties\<close>

text \<open>C20: The hole hook is observably equivalent to its control group. Whatever its statistics
  are, and whether or not the real functions are resolved yet, every one of the ten entry points
  of \<open>malloc_hole_hook.c\<close> gives the caller the result, the effect on the real heap, the effect
  on the bootstrap heap and the resolver state that the same entry point of
  \<open>malloc_hole_all_api_passthrough.c\<close> gives, \<open>errno\<close> excepted.\<close>

theorem hook_equals_control_group:
  assumes "errno_blind_allocator dl"
  shows "apfst drop_errno (malloc_all_api dl sz (forget st)) = observed_by (malloc w dl sz st)
    \<and> drop_errno (free_all_api dl ptr (forget st)) = forget (free w dl ptr st)
    \<and> apfst drop_errno (calloc_all_api dl n sz (forget st)) = observed_by (calloc w dl n sz st)
    \<and> apfst drop_errno (realloc_all_api dl ptr sz (forget st)) = observed_by (realloc w dl ptr sz st)
    \<and> drop_errno (free_sized_all_api dl ptr sz (forget st)) = forget (free_sized w dl ptr sz st)
    \<and> apfst drop_errno (posix_memalign_all_api dl al sz (forget st)) = observed_by (posix_memalign w dl al sz st)
    \<and> apfst drop_errno (aligned_alloc_all_api dl al sz (forget st)) = observed_by (aligned_alloc w dl al sz st)
    \<and> apfst drop_errno (valloc_all_api dl sz (forget st)) = observed_by (valloc w dl sz st)
    \<and> apfst drop_errno (memalign_all_api dl al sz (forget st)) = observed_by (memalign w dl al sz st)
    \<and> apfst drop_errno (pvalloc_all_api dl sz (forget st)) = observed_by (pvalloc w dl sz st)"
  by (intro conjI malloc_forget calloc_forget free_forget realloc_forget free_sized_forget
      posix_memalign_forget aligned_forget assms)

theorem hook_equals_control_group_witness:
  "observed_by (realloc sample_world sample_allocator 64 200 sample_api) =
    (forget sample_api, 0)"
proof -
  have "errno_blind_allocator sample_allocator"
    by (simp add: errno_blind_allocator_def errno_blind_def sample_allocator_def sample_real_def)
  from hook_equals_control_group [OF this, of 200 sample_api sample_world 64 0 0]
  have "observed_by (realloc sample_world sample_allocator 64 200 sample_api) =
      apfst drop_errno (realloc_all_api sample_allocator 64 200 (forget sample_api))"
    by (elim conjE) (rule sym)
  then show ?thesis
    by (simp add: realloc_all_api_def sample_api_def sample_allocator_def is_bootstrap_pointer_def
        call_function_def forget_def drop_errno_def)
qed

end
