(* ===== verification/ReplayLog.thy ===== *)
theory ReplayLog
  imports ThreadMap CsvText
begin

text \<open>
  The replay log of \<open>malloc_free_hook.c\<close>: a memory-mapped file of a 64-byte header and 48-byte
  events (\<open>replay_format.h\<close>), to which all threads of all processes of the mapping append by
  reserving an index with one atomic addition, filling the slot and publishing it by a release
  store of its sequence number. The lemmas show which mappings are accepted, and that under any
  interleaving of the threads a published slot holds exactly one completely written event.
\<close>

subsection \<open>The format\<close>

definition MINI_REPLAY_MAGIC :: string where "MINI_REPLAY_MAGIC = ''MNRPLY03''"
definition MINI_REPLAY_VERSION :: u16 where "MINI_REPLAY_VERSION = 3"
definition MINI_REPLAY_ENDIAN_LITTLE :: u8 where "MINI_REPLAY_ENDIAN_LITTLE = 1"
definition MINI_REPLAY_INIT_EMPTY :: u32 where "MINI_REPLAY_INIT_EMPTY = 0"
definition MINI_REPLAY_INIT_BUSY :: u32 where "MINI_REPLAY_INIT_BUSY = 1"
definition MINI_REPLAY_INIT_READY :: u32 where "MINI_REPLAY_INIT_READY = 2"
definition MINI_REPLAY_FLAG_OVERFLOW :: u32 where "MINI_REPLAY_FLAG_OVERFLOW = 1"
definition MINI_REPLAY_EVENT_FAILED :: u16 where "MINI_REPLAY_EVENT_FAILED = 1"

definition MINI_REPLAY_MALLOC :: u16 where "MINI_REPLAY_MALLOC = 0"
definition MINI_REPLAY_FREE :: u16 where "MINI_REPLAY_FREE = 1"
definition MINI_REPLAY_CALLOC :: u16 where "MINI_REPLAY_CALLOC = 2"
definition MINI_REPLAY_REALLOC :: u16 where "MINI_REPLAY_REALLOC = 3"
definition MINI_REPLAY_FREE_SIZED :: u16 where "MINI_REPLAY_FREE_SIZED = 4"
definition MINI_REPLAY_POSIX_MEMALIGN :: u16 where "MINI_REPLAY_POSIX_MEMALIGN = 5"
definition MINI_REPLAY_ALIGNED_ALLOC :: u16 where "MINI_REPLAY_ALIGNED_ALLOC = 6"
definition MINI_REPLAY_VALLOC :: u16 where "MINI_REPLAY_VALLOC = 7"
definition MINI_REPLAY_MEMALIGN :: u16 where "MINI_REPLAY_MEMALIGN = 8"
definition MINI_REPLAY_PVALLOC :: u16 where "MINI_REPLAY_PVALLOC = 9"
definition MINI_REPLAY_THREAD_CREATE :: u16 where "MINI_REPLAY_THREAD_CREATE = 100"
definition MINI_REPLAY_THREAD_START :: u16 where "MINI_REPLAY_THREAD_START = 101"
definition MINI_REPLAY_THREAD_END :: u16 where "MINI_REPLAY_THREAD_END = 102"
definition MINI_REPLAY_THREAD_JOIN :: u16 where "MINI_REPLAY_THREAD_JOIN = 103"
definition MINI_REPLAY_THREAD_DETACH :: u16 where "MINI_REPLAY_THREAD_DETACH = 104"
definition MINI_REPLAY_PROCESS_START :: u16 where "MINI_REPLAY_PROCESS_START = 1000"

lemmas event_types = MINI_REPLAY_MALLOC_def MINI_REPLAY_FREE_def MINI_REPLAY_CALLOC_def
  MINI_REPLAY_REALLOC_def MINI_REPLAY_FREE_SIZED_def MINI_REPLAY_POSIX_MEMALIGN_def
  MINI_REPLAY_ALIGNED_ALLOC_def MINI_REPLAY_VALLOC_def MINI_REPLAY_MEMALIGN_def
  MINI_REPLAY_PVALLOC_def MINI_REPLAY_THREAD_CREATE_def MINI_REPLAY_THREAD_START_def
  MINI_REPLAY_THREAD_END_def MINI_REPLAY_THREAD_JOIN_def MINI_REPLAY_THREAD_DETACH_def
  MINI_REPLAY_PROCESS_START_def

record replay_header =
  magic :: string
  capacity :: u64
  next_index :: u64
  version :: u16
  header_size :: u16
  event_size :: u16
  pointer_size :: u8
  endian :: u8
  header_flags :: u32
  init_state :: u32
  runtime_flags :: u32
  reserved0 :: u32
  reserved1 :: "u64 list"

record replay_event =
  timestamp_ns :: u64
  address :: u64
  event_result :: u64
  event_bytes :: u64
  event_pid :: u32
  event_tid :: u32
  event_type :: u16
  event_flags :: u16
  sequence :: u32

definition sizeof_header :: u64 where "sizeof_header = 64"
definition sizeof_event :: u64 where "sizeof_event = 48"

text \<open>What a fresh file holds: zeros.\<close>

definition zero_header :: replay_header where
  "zero_header = \<lparr>magic = replicate 8 (CHR 0x00), capacity = 0, next_index = 0, version = 0, header_size = 0,
    event_size = 0, pointer_size = 0, endian = 0, header_flags = 0, init_state = 0, runtime_flags = 0,
    reserved0 = 0, reserved1 = [0, 0]\<rparr>"

definition zero_event :: replay_event where
  "zero_event = \<lparr>timestamp_ns = 0, address = 0, event_result = 0, event_bytes = 0, event_pid = 0,
    event_tid = 0, event_type = 0, event_flags = 0, sequence = 0\<rparr>"

subsection \<open>State\<close>

text \<open>
  What the system calls answer. The clock is numbered by the reads of it; the file is described
  by the answers of \<open>openat\<close> (with or without \<open>O_EXCL\<close>), \<open>lseek\<close>, \<open>ftruncate\<close> and \<open>mmap\<close>, whose
  result is the header and the events of the mapped file.
\<close>

record capture_env =
  env_path :: "string option"
  env_mapping_size :: u64
  env_log_path :: "string option"
  env_clock :: "nat \<Rightarrow> u64"
  env_realtime :: u64
  env_pid :: u32
  env_openat :: "string \<Rightarrow> bool \<Rightarrow> bool"
  env_old_size :: int
  env_truncated :: bool
  env_mapped :: "(replay_header \<times> (u64 \<Rightarrow> replay_event)) option"

record capture_state =
  replay_header :: "replay_header option"
  replay_events :: "u64 \<Rightarrow> replay_event"
  replay_log_path :: string
  replay_path_exclusive :: bool
  next_thread_instance :: u32
  current_thread_instance :: "u64 \<Rightarrow> u32"
  thread_map :: thread_map
  clock_reads :: nat

text \<open>An operation returns, or ends the process with exit code 75 in the state it leaves.\<close>

type_synonym 'a capture = "capture_state \<Rightarrow> capture_state + capture_state \<times> 'a"

definition and_then :: "'s + 's \<times> 'a \<Rightarrow> ('s \<Rightarrow> 'a \<Rightarrow> 's + 's \<times> 'b) \<Rightarrow> 's + 's \<times> 'b" where
  "and_then r f = (case r of Inl st \<Rightarrow> Inl st | Inr (st, a) \<Rightarrow> f st a)"

lemma and_then_simps [simp]:
  "and_then (Inl st) f = Inl st" "and_then (Inr (st, a)) f = f st a"
  by (simp_all add: and_then_def)

subsection \<open>Initialisation\<close>

definition REPLAY_PATH_CAPACITY :: nat where "REPLAY_PATH_CAPACITY = 192"
definition REPLAY_OUTPUT_DIR :: string where "REPLAY_OUTPUT_DIR = ''/data/local/tmp''"

fun append_path_text :: "nat \<Rightarrow> string \<Rightarrow> string \<Rightarrow> string \<times> bool" where
  "append_path_text cap destination [] = (destination, True)"
| "append_path_text cap destination (c # cs) =
    (if length destination + 1 \<ge> cap then (destination, False)
     else append_path_text cap (destination @ [c]) cs)"

definition append_path_uint64 :: "nat \<Rightarrow> string \<Rightarrow> u64 \<Rightarrow> string \<times> bool" where
  "append_path_uint64 cap destination v = append_path_text cap destination (rev (digits v))"

definition append_parts :: "nat \<Rightarrow> (string \<Rightarrow> string \<times> bool) list \<Rightarrow> string \<Rightarrow> string \<times> bool" where
  "append_parts cap parts destination =
    foldl (\<lambda>(d, ok) part. if ok then part d else (d, ok)) (destination, True) parts"

definition build_replay_log_path :: "capture_env \<Rightarrow> capture_state \<Rightarrow> capture_state \<times> bool" where
  "build_replay_log_path env st =
    (let cap = REPLAY_PATH_CAPACITY;
         (exclusive, (path, ok)) =
           (case env_path env of
              Some (c # cs) \<Rightarrow> (True, append_path_text cap [] (c # cs))
            | _ \<Rightarrow> (case env_log_path env of
                Some p \<Rightarrow> (False, append_path_text cap [] p)
              | None \<Rightarrow> (True, append_parts cap
                  [\<lambda>d. append_path_text cap d (REPLAY_OUTPUT_DIR @ ''/mini_replay_''),
                   \<lambda>d. append_path_uint64 cap d (env_realtime env),
                   \<lambda>d. append_path_text cap d ''_'',
                   \<lambda>d. append_path_uint64 cap d (ucast (env_pid env)),
                   \<lambda>d. append_path_text cap d ''.bin''] [])))
     in (st\<lparr>replay_log_path := path, replay_path_exclusive := exclusive\<rparr>, ok))"

fun magic_matches_from :: "nat \<Rightarrow> nat \<Rightarrow> string \<Rightarrow> bool" where
  "magic_matches_from 0 i m = True"
| "magic_matches_from (Suc n) i m =
    (if m ! i \<noteq> MINI_REPLAY_MAGIC ! i then False else magic_matches_from n (i + 1) m)"

definition magic_matches :: "string \<Rightarrow> bool" where
  "magic_matches m = magic_matches_from 8 0 m"

definition copy_magic :: "string \<Rightarrow> string" where
  "copy_magic destination = foldl (\<lambda>d i. d[i := MINI_REPLAY_MAGIC ! i]) destination [0..<8]"

definition event_capacity :: "u64 \<Rightarrow> u64" where
  "event_capacity mapping_size = (mapping_size - sizeof_header) div sizeof_event"

definition initialize_new_mapping :: "capture_env \<Rightarrow> replay_header \<Rightarrow> replay_header \<times> bool" where
  "initialize_new_mapping env h =
    (let cap = event_capacity (env_mapping_size env)
     in if cap > ucast UINT32_MAX then (h, False)
        else if init_state h \<noteq> MINI_REPLAY_INIT_EMPTY then (h, False)
        else (h\<lparr>init_state := MINI_REPLAY_INIT_BUSY\<rparr>
               \<lparr>capacity := cap, next_index := 0, version := MINI_REPLAY_VERSION,
                header_size := ucast sizeof_header, event_size := ucast sizeof_event, pointer_size := 8,
                endian := MINI_REPLAY_ENDIAN_LITTLE, header_flags := 0, runtime_flags := 0,
                reserved0 := 0, reserved1 := [0, 0], magic := copy_magic (magic h)\<rparr>
               \<lparr>init_state := MINI_REPLAY_INIT_READY\<rparr>, True))"

definition mapping_is_valid :: "capture_env \<Rightarrow> replay_header \<Rightarrow> bool" where
  "mapping_is_valid env h \<longleftrightarrow>
    init_state h = MINI_REPLAY_INIT_READY \<and>
    magic_matches (magic h) \<and>
    version h = MINI_REPLAY_VERSION \<and>
    header_size h = ucast sizeof_header \<and>
    event_size h = ucast sizeof_event \<and>
    capacity h \<le> ucast UINT32_MAX \<and>
    capacity h = event_capacity (env_mapping_size env)"

definition initialize_replay_mapping :: "capture_env \<Rightarrow> capture_state \<Rightarrow> capture_state \<times> bool" where
  "initialize_replay_mapping env st =
    (let (st, ok) = build_replay_log_path env st
     in if \<not> ok then (st, False)
        else if \<not> env_openat env (replay_log_path st) (replay_path_exclusive st) then (st, False)
        else if env_old_size env < 0 \<or> \<not> env_truncated env then (st, False)
        else case env_mapped env of
               None \<Rightarrow> (st, False)
             | Some (h, events) \<Rightarrow>
                 let h = (if env_old_size env = 0 then fst (initialize_new_mapping env h) else h)
                 in if \<not> mapping_is_valid env h
                    then (st\<lparr>replay_header := None\<rparr>, False)
                    else (st\<lparr>replay_header := Some h, replay_events := events\<rparr>, True))"

subsection \<open>Appending events\<close>

definition monotonic_time_ns :: "capture_env \<Rightarrow> capture_state \<Rightarrow> capture_state \<times> u64" where
  "monotonic_time_ns env st = (st\<lparr>clock_reads := clock_reads st + 1\<rparr>, env_clock env (clock_reads st))"

definition or_overflow :: "replay_header \<Rightarrow> replay_header" where
  "or_overflow h = h\<lparr>runtime_flags := runtime_flags h OR MINI_REPLAY_FLAG_OVERFLOW\<rparr>"

definition capture_fatal :: "'a capture" where
  "capture_fatal st = Inl (st\<lparr>replay_header := map_option or_overflow (replay_header st)\<rparr>)"

definition allocate_thread_instance :: "u32 capture" where
  "allocate_thread_instance st =
    (let inst = next_thread_instance st;
         st = st\<lparr>next_thread_instance := inst + 1\<rparr>
     in if inst = 0 \<or> inst = UINT32_MAX then capture_fatal st else Inr (st, inst))"

definition get_thread_instance :: "u64 \<Rightarrow> u32 capture" where
  "get_thread_instance self st =
    (if current_thread_instance st self = 0
     then and_then (allocate_thread_instance st) (\<lambda>st inst.
       Inr (st\<lparr>current_thread_instance := (current_thread_instance st)(self := inst)\<rparr>, inst))
     else Inr (st, current_thread_instance st self))"

definition UINT64_MAX :: u64 where "UINT64_MAX = - 1"

definition reserve_event_slot :: "u64 capture" where
  "reserve_event_slot st =
    (case replay_header st of
       None \<Rightarrow> Inr (st, UINT64_MAX)
     | Some h \<Rightarrow>
         let index = next_index h; h = h\<lparr>next_index := index + 1\<rparr>
         in if index < capacity h then Inr (st\<lparr>replay_header := Some h\<rparr>, index)
            else Inl (st\<lparr>replay_header := Some (or_overflow h)\<rparr>))"

text \<open>
  \<open>commit_event\<close> in two parts: the plain stores of the fields, which only the owner of the slot
  does, and the release store of the sequence number.
\<close>

record event_args =
  arg_type :: u16
  arg_address :: u64
  arg_result :: u64
  arg_size :: u64
  arg_flags :: u16

definition fill_event :: "capture_env \<Rightarrow> u64 \<Rightarrow> u64 \<Rightarrow> event_args \<Rightarrow> unit capture" where
  "fill_event env self index a st =
    (let (st, now) = monotonic_time_ns env st;
         e = (replay_events st index)
           \<lparr>timestamp_ns := now, address := arg_address a, event_result := arg_result a,
            event_bytes := arg_size a, event_pid := env_pid env\<rparr>;
         st = st\<lparr>replay_events := (replay_events st)(index := e)\<rparr>
     in and_then (get_thread_instance self st) (\<lambda>st tid.
          Inr (st\<lparr>replay_events := (replay_events st)(index := (replay_events st index)
                 \<lparr>event_tid := tid, event_type := arg_type a, event_flags := arg_flags a\<rparr>)\<rparr>, ())))"

definition publish_event :: "u64 \<Rightarrow> capture_state \<Rightarrow> capture_state" where
  "publish_event index st =
    st\<lparr>replay_events := (replay_events st)(index := (replay_events st index)\<lparr>sequence := ucast (index + 1)\<rparr>)\<rparr>"

definition commit_event :: "capture_env \<Rightarrow> u64 \<Rightarrow> u64 \<Rightarrow> event_args \<Rightarrow> unit capture" where
  "commit_event env self index a st =
    and_then (fill_event env self index a st) (\<lambda>st _. Inr (publish_event index st, ()))"

definition log_event :: "capture_env \<Rightarrow> u64 \<Rightarrow> event_args \<Rightarrow> unit capture" where
  "log_event env self a st =
    and_then (reserve_event_slot st) (\<lambda>st index.
      if index \<noteq> UINT64_MAX then commit_event env self index a st else Inr (st, ()))"

definition write_process_start :: "capture_env \<Rightarrow> u64 \<Rightarrow> unit capture" where
  "write_process_start env self st = log_event env self
    \<lparr>arg_type = MINI_REPLAY_PROCESS_START, arg_address = 0, arg_result = 0, arg_size = 0, arg_flags = 0\<rparr> st"

definition write_thread_event :: "capture_env \<Rightarrow> u64 \<Rightarrow> u16 \<Rightarrow> u64 \<Rightarrow> u32 \<Rightarrow> unit capture" where
  "write_thread_event env self ty addr inst st = log_event env self
    \<lparr>arg_type = ty, arg_address = addr, arg_result = ucast inst, arg_size = 0, arg_flags = 0\<rparr> st"


subsection \<open>Frames\<close>

lemma monotonic_time_frame [simp]:
  "snd (monotonic_time_ns env st) = env_clock env (clock_reads st)"
  "fst (monotonic_time_ns env st) = st\<lparr>clock_reads := clock_reads st + 1\<rparr>"
  by (simp_all add: monotonic_time_ns_def)

text \<open>The instances handed out so far: below the counter and pairwise different.\<close>

definition instances_ok :: "capture_state \<Rightarrow> bool" where
  "instances_ok st \<longleftrightarrow> 0 < next_thread_instance st \<and>
    (\<forall>t. current_thread_instance st t \<noteq> 0 \<longrightarrow> current_thread_instance st t < next_thread_instance st) \<and>
    (\<forall>t u. current_thread_instance st t \<noteq> 0 \<and> current_thread_instance st t = current_thread_instance st u
      \<longrightarrow> t = u)"

lemma instances_ok_frame [simp]:
  "instances_ok (st\<lparr>replay_header := h\<rparr>) = instances_ok st"
  "instances_ok (st\<lparr>replay_events := e\<rparr>) = instances_ok st"
  "instances_ok (st\<lparr>clock_reads := n\<rparr>) = instances_ok st"
  unfolding instances_ok_def by simp_all

lemma get_thread_instance_Inr:
  assumes "get_thread_instance self st = Inr (st', inst)"
  shows "replay_header st' = replay_header st" "replay_events st' = replay_events st"
    "inst = current_thread_instance st' self" "thread_map st' = thread_map st"
    "current_thread_instance st' = (current_thread_instance st)(self := inst)"
    "current_thread_instance st self \<noteq> 0 \<longrightarrow> inst = current_thread_instance st self"
    "inst \<noteq> 0" "clock_reads st' = clock_reads st"
    "next_thread_instance st' = next_thread_instance st \<or> next_thread_instance st' = next_thread_instance st + 1"
  using assms by (auto simp: get_thread_instance_def allocate_thread_instance_def capture_fatal_def Let_def
      split: if_splits)

lemma unat_plus_one: "n \<noteq> - 1 \<Longrightarrow> unat (n + 1) = unat n + 1" for n :: "'a::len word"
  using unatSuc [of n] by (simp add: eq_neg_iff_add_eq_0 add.commute)

lemma word_less_plus_one: "n \<noteq> - 1 \<Longrightarrow> a < n + 1 \<longleftrightarrow> a < n \<or> a = n" for n :: "'a::len word"
  by (simp add: word_less_nat_alt unat_plus_one less_Suc_eq word_unat_eq_iff)

lemma instances_get:
  assumes "get_thread_instance self st = Inr (st', inst)" and "instances_ok st"
  shows "instances_ok st'"
proof (cases "current_thread_instance st self = 0")
  case False
  then show ?thesis using assms by (simp add: get_thread_instance_def)
next
  case True
  let ?n = "next_thread_instance st"
  have n: "?n \<noteq> UINT32_MAX"
    and st': "st' = st\<lparr>next_thread_instance := ?n + 1,
      current_thread_instance := (current_thread_instance st)(self := ?n)\<rparr>"
    using assms(1) True by (auto simp: get_thread_instance_def allocate_thread_instance_def
        capture_fatal_def Let_def split: if_splits)
  have "0 < ?n + 1"
    using n assms(2) by (simp add: word_less_plus_one instances_ok_def)
  with n assms(2) show ?thesis
    unfolding st' instances_ok_def by (simp add: word_less_plus_one) (metis less_irrefl)
qed

subsection \<open>Interleaved writers\<close>

text \<open>
  The threads of the process, each with the events it still has to log. A thread is between
  events, holds a reserved slot, or has filled it. The three steps of an event interleave with
  those of the other threads; a step that ends the process has no successor.
\<close>

datatype writer = Between | Reserved u64 event_args | Filled u64 event_args

fun writer_slot :: "writer \<Rightarrow> u64 option" where
  "writer_slot Between = None"
| "writer_slot (Reserved i a) = Some i"
| "writer_slot (Filled i a) = Some i"

record log_system =
  log :: capture_state
  writers :: "u64 \<Rightarrow> writer"
  todo :: "u64 \<Rightarrow> event_args list"

inductive log_step :: "capture_env \<Rightarrow> log_system \<Rightarrow> log_system \<Rightarrow> bool" for env where
  reserve: "writers c t = Between \<Longrightarrow> todo c t = a # as \<Longrightarrow> reserve_event_slot (log c) = Inr (st, i) \<Longrightarrow>
    i \<noteq> UINT64_MAX \<Longrightarrow>
    log_step env c (c\<lparr>log := st, writers := (writers c)(t := Reserved i a), todo := (todo c)(t := as)\<rparr>)"
| fill: "writers c t = Reserved i a \<Longrightarrow> fill_event env t i a (log c) = Inr (st, u) \<Longrightarrow>
    log_step env c (c\<lparr>log := st, writers := (writers c)(t := Filled i a)\<rparr>)"
| publish: "writers c t = Filled i a \<Longrightarrow>
    log_step env c (c\<lparr>log := publish_event i (log c), writers := (writers c)(t := Between)\<rparr>)"

inductive_cases log_stepE: "log_step env c c'"

definition log_start :: "(u64 \<Rightarrow> event_args list) \<Rightarrow> log_system \<Rightarrow> bool" where
  "log_start progs c \<longleftrightarrow>
    (\<exists>h. replay_header (log c) = Some h \<and> next_index h = 0 \<and> capacity h \<le> ucast UINT32_MAX) \<and>
    (\<forall>i. sequence (replay_events (log c) i) = 0) \<and> instances_ok (log c) \<and>
    writers c = (\<lambda>_. Between) \<and> todo c = progs"

text \<open>An event describes a call: its arguments, the process and the thread's instance.\<close>

definition describes :: "capture_env \<Rightarrow> capture_state \<Rightarrow> replay_event \<Rightarrow> u64 \<times> event_args \<Rightarrow> bool" where
  "describes env st e = (\<lambda>(t, a). event_type e = arg_type a \<and> address e = arg_address a \<and>
    event_result e = arg_result a \<and> event_bytes e = arg_size a \<and> event_flags e = arg_flags a \<and>
    event_pid e = env_pid env \<and> event_tid e = current_thread_instance st t \<and> event_tid e \<noteq> 0)"

text \<open>A slot belongs to one thread: reserved, filled, or published with its sequence number.\<close>

definition slot_ok :: "capture_env \<Rightarrow> log_system \<Rightarrow> u64 \<Rightarrow> u64 \<times> event_args \<Rightarrow> bool" where
  "slot_ok env c i = (\<lambda>(t, a). let e = replay_events (log c) i in
    sequence e = 0 \<and> writers c t = Reserved i a \<or>
    sequence e = 0 \<and> writers c t = Filled i a \<and> describes env (log c) e (t, a) \<or>
    sequence e = ucast (i + 1) \<and> describes env (log c) e (t, a) \<and> writer_slot (writers c t) \<noteq> Some i)"

definition log_inv ::
  "capture_env \<Rightarrow> (u64 \<Rightarrow> event_args list) \<Rightarrow> log_system \<Rightarrow> (u64 \<times> event_args) list \<Rightarrow> bool" where
  "log_inv env progs c hist \<longleftrightarrow>
    (\<exists>h. replay_header (log c) = Some h \<and> next_index h = of_nat (length hist) \<and>
      length hist \<le> unat (capacity h) \<and> capacity h \<le> ucast UINT32_MAX) \<and>
    (\<forall>t. map snd (filter (\<lambda>x. fst x = t) hist) @ todo c t = progs t) \<and>
    (\<forall>i. if unat i < length hist then slot_ok env c i (hist ! unat i)
         else sequence (replay_events (log c) i) = 0) \<and>
    (\<forall>t i a. writers c t = Reserved i a \<or> writers c t = Filled i a \<longrightarrow>
      unat i < length hist \<and> hist ! unat i = (t, a)) \<and>
    instances_ok (log c)"

lemma log_inv_start: "log_start progs c \<Longrightarrow> log_inv env progs c []"
  by (auto simp: log_start_def log_inv_def)

lemma u32_max_u64: "unat (ucast UINT32_MAX :: u64) = 4294967295"
  by (simp add: unsigned_ucast_eq unsigned_minus_1_eq_mask mask_eq_exp_minus_1)

lemma describes_cong: "current_thread_instance st t = current_thread_instance st' t \<Longrightarrow>
    describes env st e (t, a) = describes env st' e (t, a)"
  by (simp add: describes_def)

lemma log_inv_reserve:
  assumes inv: "log_inv env progs c hist" and t: "writers c t = Between" "todo c t = a # as"
    and r: "reserve_event_slot (log c) = Inr (st, i)"
  shows "log_inv env progs (c\<lparr>log := st, writers := (writers c)(t := Reserved i a), todo := (todo c)(t := as)\<rparr>)
    (hist @ [(t, a)])"
proof -
  from inv obtain h where h: "replay_header (log c) = Some h" "next_index h = of_nat (length hist)"
      "length hist \<le> unat (capacity h)" "capacity h \<le> ucast UINT32_MAX"
    and todo: "\<forall>t. map snd (filter (\<lambda>x. fst x = t) hist) @ todo c t = progs t"
    and slots: "\<forall>i. if unat i < length hist then slot_ok env c i (hist ! unat i)
         else sequence (replay_events (log c) i) = 0"
    and busy: "\<forall>t i a. writers c t = Reserved i a \<or> writers c t = Filled i a \<longrightarrow>
      unat i < length hist \<and> hist ! unat i = (t, a)" and ins: "instances_ok (log c)"
    unfolding log_inv_def by blast
  have cap: "unat (capacity h) \<le> 4294967295"
    using h(4) by (simp add: word_le_nat_alt u32_max_u64)
  have st: "st = (log c)\<lparr>replay_header := Some (h\<lparr>next_index := next_index h + 1\<rparr>)\<rparr>"
    and i: "i = next_index h" "i < capacity h"
    using r h(1) by (auto simp: reserve_event_slot_def Let_def split: if_splits)
  have ui: "unat i = length hist"
    using cap h(2,3) unfolding i(1) by (simp add: unat_of_nat_u64)
  have lt: "length hist < unat (capacity h)"
    using i(2) ui by (simp add: word_less_nat_alt)
  let ?c = "c\<lparr>log := st, writers := (writers c)(t := Reserved i a), todo := (todo c)(t := as)\<rparr>"
  have "if unat j < length (hist @ [(t, a)]) then slot_ok env ?c j ((hist @ [(t, a)]) ! unat j)
         else sequence (replay_events (log ?c) j) = 0" for j
  proof (cases "unat j < length hist")
    case True
    have "slot_ok env c j (hist ! unat j)" using slots True by presburger
    then have "slot_ok env ?c j (hist ! unat j)"
      using t(1) True ui by (cases "hist ! unat j") (auto simp: slot_ok_def st describes_def Let_def)
    with True show ?thesis by (simp add: nth_append)
  next
    case False
    then have z: "sequence (replay_events (log c) j) = 0" using slots by presburger
    show ?thesis
    proof (cases "j = i")
      case True
      then show ?thesis using z ui by (simp add: slot_ok_def st)
    next
      case neq: False
      then have "unat j \<noteq> length hist" using ui by (metis word_unat_eq_iff)
      then show ?thesis using z False by (simp add: st)
    qed
  qed
  moreover have "map snd (filter (\<lambda>x. fst x = u) (hist @ [(t, a)])) @ todo ?c u = progs u" for u
    using todo [rule_format, of u] t(2) by auto
  moreover have "writers ?c u = Reserved j b \<or> writers ?c u = Filled j b \<longrightarrow>
      unat j < length (hist @ [(t, a)]) \<and> (hist @ [(t, a)]) ! unat j = (u, b)" for u j b
    using busy [rule_format, of u j b] ui by (auto simp: nth_append)
  moreover have "instances_ok (log ?c)"
    using ins by (simp add: st)
  moreover have "\<exists>h. replay_header (log ?c) = Some h \<and> next_index h = of_nat (length (hist @ [(t, a)])) \<and>
      length (hist @ [(t, a)]) \<le> unat (capacity h) \<and> capacity h \<le> ucast UINT32_MAX"
    using h(2,4) lt by (simp add: st)
  ultimately show ?thesis
    unfolding log_inv_def by blast
qed

text \<open>A write to a slot by its owner, with the other threads' instances unchanged.\<close>

lemma log_inv_write:
  assumes inv: "log_inv env progs c hist" and t: "writers c t = Reserved i a \<or> writers c t = Filled i a"
    and st: "replay_header st = replay_header (log c)" "instances_ok st"
      "\<And>j. j \<noteq> i \<Longrightarrow> replay_events st j = replay_events (log c) j"
      "\<And>u. current_thread_instance (log c) u \<noteq> 0 \<Longrightarrow> current_thread_instance st u = current_thread_instance (log c) u"
    and w: "w = Between \<or> w = Filled i a"
    and ok: "slot_ok env (c\<lparr>log := st, writers := (writers c)(t := w)\<rparr>) i (t, a)"
  shows "log_inv env progs (c\<lparr>log := st, writers := (writers c)(t := w)\<rparr>) hist"
proof -
  let ?c = "c\<lparr>log := st, writers := (writers c)(t := w)\<rparr>"
  have i: "unat i < length hist" "hist ! unat i = (t, a)"
    using inv t unfolding log_inv_def by blast+
  have "if unat j < length hist then slot_ok env ?c j (hist ! unat j)
         else sequence (replay_events (log ?c) j) = 0" for j
  proof (cases "j = i")
    case True
    then show ?thesis using i ok by simp
  next
    case False
    have slot: "if unat j < length hist then slot_ok env c j (hist ! unat j)
         else sequence (replay_events (log c) j) = 0"
      using inv unfolding log_inv_def by blast
    obtain u b where ub: "hist ! unat j = (u, b)" by fastforce
    have "u = t \<Longrightarrow> \<not> (writers c u = Reserved j b \<or> writers c u = Filled j b)"
      using False t by auto
    moreover have "writer_slot w \<noteq> Some j" using w False by auto
    ultimately have "slot_ok env c j (u, b) \<Longrightarrow> slot_ok env ?c j (u, b)"
      using st(3) [OF False] st(4) [of u] by (auto simp: slot_ok_def describes_def Let_def)
    with slot ub show ?thesis
      using st(3) [OF False] by (simp split: if_splits)
  qed
  moreover have "writers ?c u = Reserved j b \<or> writers ?c u = Filled j b \<longrightarrow>
      unat j < length hist \<and> hist ! unat j = (u, b)" for u j b
    using inv i w unfolding log_inv_def by (cases "u = t") auto
  moreover have "\<exists>h. replay_header (log ?c) = Some h \<and> next_index h = of_nat (length hist) \<and>
      length hist \<le> unat (capacity h) \<and> capacity h \<le> ucast UINT32_MAX"
    using inv st(1) unfolding log_inv_def by simp
  moreover have "map snd (filter (\<lambda>x. fst x = u) hist) @ todo ?c u = progs u" for u
    using inv unfolding log_inv_def by simp
  moreover have "instances_ok (log ?c)"
    using st(2) by simp
  ultimately show ?thesis
    unfolding log_inv_def by blast
qed

lemma fill_event_Inr:
  assumes "fill_event env t i a st = Inr (st', u)" and "instances_ok st"
  shows "replay_header st' = replay_header st" and "instances_ok st'"
    and "j \<noteq> i \<Longrightarrow> replay_events st' j = replay_events st j"
    and "current_thread_instance st v \<noteq> 0 \<Longrightarrow> current_thread_instance st' v = current_thread_instance st v"
    and "sequence (replay_events st' i) = sequence (replay_events st i)"
    and "describes env st' (replay_events st' i) (t, a)"
    and "thread_map st' = thread_map st"
    and "next_thread_instance st' = next_thread_instance st \<or> next_thread_instance st' = next_thread_instance st + 1"
proof -
  let ?st = "st\<lparr>clock_reads := clock_reads st + 1,
        replay_events := (replay_events st)(i := (replay_events st i)
           \<lparr>timestamp_ns := env_clock env (clock_reads st), address := arg_address a, event_result := arg_result a,
            event_bytes := arg_size a, event_pid := env_pid env\<rparr>)\<rparr>"
  obtain st1 tid where g: "get_thread_instance t ?st = Inr (st1, tid)"
    and st': "st' = st1\<lparr>replay_events := (replay_events st1)(i := (replay_events st1 i)
                 \<lparr>event_tid := tid, event_type := arg_type a, event_flags := arg_flags a\<rparr>)\<rparr>"
    using assms(1) by (auto simp: fill_event_def Let_def and_then_def monotonic_time_ns_def split: sum.splits)
  note get = get_thread_instance_Inr [OF g]
  show "replay_header st' = replay_header st" "j \<noteq> i \<Longrightarrow> replay_events st' j = replay_events st j"
    "sequence (replay_events st' i) = sequence (replay_events st i)" "thread_map st' = thread_map st"
    "next_thread_instance st' = next_thread_instance st \<or> next_thread_instance st' = next_thread_instance st + 1"
    using get by (simp_all add: st')
  show "instances_ok st'"
    using instances_get [OF g] assms(2) by (simp add: st')
  show "current_thread_instance st v \<noteq> 0 \<Longrightarrow> current_thread_instance st' v = current_thread_instance st v"
    using get(5,6) by (auto simp: st')
  show "describes env st' (replay_events st' i) (t, a)"
    using get(2,3,7) by (simp add: st' describes_def)
qed

lemma log_inv_step:
  assumes "log_step env c c'" and inv: "log_inv env progs c hist"
  shows "\<exists>hist'. log_inv env progs c' hist'"
  using assms(1)
proof (cases rule: log_step.cases)
  case (reserve t a as st i)
  then show ?thesis using log_inv_reserve [OF inv] by blast
next
  case (fill t i a st u)
  have ins: "instances_ok (log c)" using inv unfolding log_inv_def by blast
  have "unat i < length hist" "hist ! unat i = (t, a)"
    using inv fill(2) unfolding log_inv_def by blast+
  then have "slot_ok env c i (t, a)"
    using inv unfolding log_inv_def by (metis (no_types, lifting))
  then have seq: "sequence (replay_events (log c) i) = 0"
    using fill(2) by (auto simp: slot_ok_def Let_def)
  note f = fill_event_Inr [OF fill(3) ins]
  show ?thesis
    unfolding fill(1)
    by (rule exI, rule log_inv_write [OF inv _ f(1,2,3,4)])
      (use fill(2) f(5,6) seq in \<open>auto simp: slot_ok_def\<close>)
next
  case (publish t i a)
  have "unat i < length hist" "hist ! unat i = (t, a)"
    using inv publish(2) unfolding log_inv_def by blast+
  then have "slot_ok env c i (t, a)"
    using inv unfolding log_inv_def by (metis (no_types, lifting))
  then have "describes env (log c) (replay_events (log c) i) (t, a)"
    using publish(2) by (auto simp: slot_ok_def Let_def)
  then have ok: "slot_ok env (c\<lparr>log := publish_event i (log c), writers := (writers c)(t := Between)\<rparr>) i (t, a)"
    by (auto simp: slot_ok_def publish_event_def describes_def)
  have "instances_ok (log c)" using inv unfolding log_inv_def by blast
  with publish(2) ok show ?thesis
    unfolding publish(1)
    by (intro exI [of _ hist] log_inv_write [OF inv, of t i a]) (auto simp: publish_event_def)
qed

lemma log_inv_steps:
  assumes "(log_step env)\<^sup>*\<^sup>* c c'" and "log_inv env progs c hist"
  shows "\<exists>hist'. log_inv env progs c' hist'"
  using assms
proof (induction arbitrary: hist rule: converse_rtranclp_induct)
  case (step c c1)
  then show ?case using log_inv_step by blast
qed blast

lemma sequence_nonzero:
  assumes "unat (i :: u64) < 4294967295"
  shows "(ucast (i + 1) :: u32) \<noteq> 0"
proof -
  have "unat (i + 1) = unat i + 1"
    using assms by (subst unat_add_no_wrap) simp_all
  with assms have "unat (ucast (i + 1) :: u32) = unat i + 1"
    by (simp add: unsigned_ucast_eq take_bit_nat_eq_self)
  then show ?thesis by auto
qed

subsection \<open>Properties\<close>

text \<open>C21: Under every interleaving of the writing threads the log is an interleaving of the
  threads' event sequences: the reserved slots are assigned to the events so that each thread's
  events keep their order and none is lost or duplicated; a slot whose writer has finished
  carries the sequence number index + 1 and describes its event with the process and the thread
  instance of its writer; every other slot still has sequence number 0, so a reader that checks
  the sequence never sees a partly written event; and no two threads share an instance.\<close>

theorem log_is_interleaving:
  assumes "log_start progs c0" and "(log_step env)\<^sup>*\<^sup>* c0 c"
  shows "\<exists>hist. (\<forall>t. map snd (filter (\<lambda>x. fst x = t) hist) @ todo c t = progs t) \<and>
    next_index (the (replay_header (log c))) = of_nat (length hist) \<and>
    (\<forall>i. let e = replay_events (log c) i in
      if unat i < length hist \<and> writer_slot (writers c (fst (hist ! unat i))) \<noteq> Some i
      then sequence e = ucast (i + 1) \<and> sequence e \<noteq> 0 \<and> describes env (log c) e (hist ! unat i)
      else sequence e = 0) \<and>
    instances_ok (log c)"
proof -
  obtain hist where inv: "log_inv env progs c hist"
    using log_inv_steps [OF assms(2) log_inv_start [OF assms(1)]] by blast
  then obtain h where h: "replay_header (log c) = Some h" "next_index h = of_nat (length hist)"
      "length hist \<le> unat (capacity h)" "capacity h \<le> ucast UINT32_MAX"
    unfolding log_inv_def by blast
  have len: "length hist \<le> 4294967295"
    using h(3,4) by (simp add: word_le_nat_alt u32_max_u64)
  have "let e = replay_events (log c) i in
      if unat i < length hist \<and> writer_slot (writers c (fst (hist ! unat i))) \<noteq> Some i
      then sequence e = ucast (i + 1) \<and> sequence e \<noteq> 0 \<and> describes env (log c) e (hist ! unat i)
      else sequence e = 0" for i
  proof (cases "unat i < length hist")
    case True
    then have "slot_ok env c i (hist ! unat i)"
      using inv unfolding log_inv_def by (metis (no_types, lifting))
    then show ?thesis
      using True len sequence_nonzero [of i]
      by (cases "hist ! unat i") (auto simp: slot_ok_def Let_def)
  next
    case False
    then show ?thesis
      using inv unfolding log_inv_def Let_def by (metis (no_types, lifting))
  qed
  then show ?thesis
    using inv h(1,2) unfolding log_inv_def by (intro exI [of _ hist]) simp
qed

definition sample_env :: capture_env where
  "sample_env = \<lparr>env_path = None, env_mapping_size = 3221225472, env_log_path = Some ''/tmp/mini_replay.bin'',
    env_clock = of_nat, env_realtime = 5, env_pid = 7, env_openat = (\<lambda>_ _. True), env_old_size = 0,
    env_truncated = True, env_mapped = Some (zero_header, \<lambda>_. zero_event)\<rparr>"

definition sample_capture :: capture_state where
  "sample_capture = \<lparr>replay_header = Some (zero_header\<lparr>capacity := 3\<rparr>), replay_events = (\<lambda>_. zero_event),
    replay_log_path = '''', replay_path_exclusive = False, next_thread_instance = 1,
    current_thread_instance = (\<lambda>_. 0), thread_map = empty_thread_map, clock_reads = 0\<rparr>"

definition sample_args :: event_args where
  "sample_args = \<lparr>arg_type = MINI_REPLAY_MALLOC, arg_address = 0, arg_result = 64, arg_size = 10, arg_flags = 0\<rparr>"

theorem log_is_interleaving_witness:
  "\<exists>hist. (\<forall>t. map snd (filter (\<lambda>x. fst x = t) hist) = (if t = (5::u64) then [sample_args] else [])) \<and>
    of_nat (length hist) = (1::u64)"
proof -
  define progs where "progs t = (if t = 5 then [sample_args] else [])" for t :: u64
  let ?start = "\<lparr>log = sample_capture, writers = \<lambda>_. Between, todo = progs\<rparr>"
  have start: "log_start progs ?start"
    by (simp add: log_start_def sample_capture_def zero_header_def zero_event_def instances_ok_def word_le_nat_alt
        u32_max_u64)
  let ?st = "sample_capture\<lparr>replay_header := Some (zero_header\<lparr>capacity := 3, next_index := 1\<rparr>)\<rparr>"
  let ?c = "?start\<lparr>log := ?st, writers := (writers ?start)(5 := Reserved 0 sample_args), todo := (todo ?start)(5 := [])\<rparr>"
  have "log_step sample_env ?start ?c"
    by (rule log_step.reserve)
      (simp_all add: progs_def reserve_event_slot_def sample_capture_def zero_header_def UINT64_MAX_def)
  then have "(log_step sample_env)\<^sup>*\<^sup>* ?start ?c" by (rule r_into_rtranclp)
  from log_is_interleaving [OF start this] obtain hist
    where t: "\<forall>t. map snd (filter (\<lambda>x. fst x = t) hist) @ todo ?c t = progs t"
      and n: "next_index (the (replay_header (log ?c))) = of_nat (length hist)" by blast
  from t have "\<forall>t. map snd (filter (\<lambda>x. fst x = t) hist) = (if t = 5 then [sample_args] else [])"
    by (auto simp: progs_def split: if_splits)
  moreover from n have "of_nat (length hist) = (1 :: u64)" by simp
  ultimately show ?thesis by blast
qed

subsection \<open>The path and the mapping\<close>

lemma append_path_text_spec:
  "length d < cap \<Longrightarrow> append_path_text cap d s =
    (if length d + length s < cap then (d @ s, True) else (take (cap - 1) (d @ s), False))"
proof (induction s arbitrary: d)
  case (Cons c s)
  show ?case
  proof (cases "length d + 1 < cap")
    case True
    then show ?thesis using Cons.IH [of "d @ [c]"] by simp
  next
    case False
    then have "cap - 1 = length d" using Cons.prems by simp
    then show ?thesis using False by simp
  qed
qed simp

lemma append_path_uint64_spec:
  "length d + 20 < cap \<Longrightarrow> append_path_uint64 cap d v = (d @ decimal v, True)"
  using decimal_length [of v]
  by (simp add: append_path_uint64_def append_path_text_spec decimal_def)

text \<open>The path the log should have.\<close>

definition wanted_path :: "capture_env \<Rightarrow> string" where
  "wanted_path env =
    (case env_path env of
       Some (c # cs) \<Rightarrow> c # cs
     | _ \<Rightarrow> (case env_log_path env of
         Some p \<Rightarrow> p
       | None \<Rightarrow> REPLAY_OUTPUT_DIR @ ''/mini_replay_'' @ decimal (env_realtime env) @ ''_'' @
           decimal (ucast (env_pid env)) @ ''.bin''))"

definition default_path :: "capture_env \<Rightarrow> bool" where
  "default_path env \<longleftrightarrow> (env_path env = None \<or> env_path env = Some []) \<and> env_log_path env = None"

lemma default_path_built:
  "append_parts REPLAY_PATH_CAPACITY
    [\<lambda>d. append_path_text REPLAY_PATH_CAPACITY d (REPLAY_OUTPUT_DIR @ ''/mini_replay_''),
     \<lambda>d. append_path_uint64 REPLAY_PATH_CAPACITY d r,
     \<lambda>d. append_path_text REPLAY_PATH_CAPACITY d ''_'',
     \<lambda>d. append_path_uint64 REPLAY_PATH_CAPACITY d p,
     \<lambda>d. append_path_text REPLAY_PATH_CAPACITY d ''.bin''] [] =
   (REPLAY_OUTPUT_DIR @ ''/mini_replay_'' @ decimal r @ ''_'' @ decimal p @ ''.bin'', True)"
  using decimal_length [of r] decimal_length [of p]
  by (simp add: append_parts_def append_path_text_spec append_path_uint64_spec REPLAY_PATH_CAPACITY_def
      REPLAY_OUTPUT_DIR_def del: append_path_text.simps)

lemma build_path_spec:
  assumes "build_replay_log_path env st = (st', ok)"
  shows "(ok \<longleftrightarrow> length (wanted_path env) < 192 \<or> default_path env)"
    and "ok \<Longrightarrow> replay_log_path st' = wanted_path env"
    and "replay_header st' = replay_header st"
    and "replay_path_exclusive st' \<longleftrightarrow> default_path env \<or> (env_path env \<noteq> None \<and> env_path env \<noteq> Some [])"
  using assms default_path_built [of "env_realtime env" "ucast (env_pid env)"]
  by (auto simp: build_replay_log_path_def Let_def wanted_path_def default_path_def append_path_text_spec
      REPLAY_PATH_CAPACITY_def simp del: append_path_text.simps split: option.splits list.splits if_splits)

lemma magic_copied: "length m = 8 \<Longrightarrow> magic_matches (copy_magic m)"
proof -
  assume "length m = 8"
  moreover have "[0..<8] = [0, 1, 2, 3, 4, 5, 6, 7 :: nat]" by (simp add: upt_rec)
  ultimately show ?thesis
    by (simp add: magic_matches_def copy_magic_def numeral_eq_Suc del: upt_rec_numeral)
qed

lemma copy_magic_length: "length (copy_magic m) = length m"
  by (simp add: copy_magic_def upt_rec)

lemma initialize_new_mapping_valid:
  assumes "length (magic h) = 8" and "initialize_new_mapping env h = (h', ok)"
  shows "ok \<longleftrightarrow> event_capacity (env_mapping_size env) \<le> ucast UINT32_MAX \<and> init_state h = MINI_REPLAY_INIT_EMPTY"
    and "ok \<Longrightarrow> mapping_is_valid env h' \<and> next_index h' = 0 \<and> runtime_flags h' = 0 \<and> length (magic h') = 8"
    and "\<not> ok \<Longrightarrow> h' = h"
  using assms magic_copied [OF assms(1)] copy_magic_length
  by (auto simp: initialize_new_mapping_def mapping_is_valid_def Let_def sizeof_header_def sizeof_event_def
      split: if_splits)

text \<open>When a mapping is accepted, in terms of the checks of the code.\<close>

definition accepted :: "capture_env \<Rightarrow> bool" where
  "accepted env \<longleftrightarrow> (length (wanted_path env) < 192 \<or> default_path env) \<and>
    env_openat env (wanted_path env) (default_path env \<or> (env_path env \<noteq> None \<and> env_path env \<noteq> Some [])) \<and>
    0 \<le> env_old_size env \<and> env_truncated env \<and>
    (case env_mapped env of
       None \<Rightarrow> False
     | Some (h, events) \<Rightarrow>
         (if env_old_size env = 0 \<and> init_state h = MINI_REPLAY_INIT_EMPTY
          then event_capacity (env_mapping_size env) \<le> ucast UINT32_MAX
          else mapping_is_valid env h))"

lemma replay_mapping_spec:
  assumes "initialize_replay_mapping env st = (st', ok)" and "replay_header st = None"
    and "pred_option (\<lambda>(h, events). length (magic h) = 8) (env_mapped env)"
  shows "(ok \<longleftrightarrow> accepted env) \<and>
    (if ok then \<exists>h0 h events. env_mapped env = Some (h0, events) \<and> replay_header st' = Some h \<and>
         replay_events st' = events \<and> mapping_is_valid env h \<and> length (magic h) = 8 \<and> replay_log_path st' = wanted_path env \<and>
         (if env_old_size env = 0 \<and> init_state h0 = MINI_REPLAY_INIT_EMPTY
          then next_index h = 0 \<and> runtime_flags h = 0 else h = h0)
     else replay_header st' = None)"
proof -
  obtain st1 ok1 where b: "build_replay_log_path env st = (st1, ok1)" by fastforce
  note path = build_path_spec [OF b]
  show ?thesis
  proof (cases "ok1 \<and> env_openat env (replay_log_path st1) (replay_path_exclusive st1) \<and>
      0 \<le> env_old_size env \<and> env_truncated env \<and> env_mapped env \<noteq> None")
    case False
    then have "initialize_replay_mapping env st = (st1, False)"
      by (auto simp: initialize_replay_mapping_def b split: option.split)
    moreover have "\<not> accepted env"
      using False path by (cases "env_mapped env") (auto simp: accepted_def)
    ultimately show ?thesis
      using assms(1,2) path(3) by simp
  next
    case True
    then obtain h events where m: "env_mapped env = Some (h, events)" by auto
    obtain h' k where i: "initialize_new_mapping env h = (h', k)" by fastforce
    have len: "length (magic h) = 8" using assms(3) m by simp
    note new = initialize_new_mapping_valid [OF len i]
    have acc: "accepted env \<longleftrightarrow> (if env_old_size env = 0 \<and> init_state h = MINI_REPLAY_INIT_EMPTY
        then event_capacity (env_mapping_size env) \<le> ucast UINT32_MAX else mapping_is_valid env h)"
      using True path by (simp add: accepted_def m)
    have init: "initialize_replay_mapping env st =
        (let h2 = if env_old_size env = 0 then h' else h in
          if mapping_is_valid env h2 then (st1\<lparr>replay_header := Some h2, replay_events := events\<rparr>, True)
          else (st1\<lparr>replay_header := None\<rparr>, False))"
      using True by (simp add: initialize_replay_mapping_def b m i Let_def)
    have empty: "init_state h = MINI_REPLAY_INIT_EMPTY \<Longrightarrow> \<not> mapping_is_valid env h"
      by (simp add: mapping_is_valid_def MINI_REPLAY_INIT_EMPTY_def MINI_REPLAY_INIT_READY_def)
    show ?thesis
    proof (cases "env_old_size env = 0 \<and> k")
      case True
      then show ?thesis
        using assms(1) init acc new path(1,2) \<open>ok1 \<and> _\<close> by (auto simp: m)
    next
      case False
      then have "(if env_old_size env = 0 then h' else h) = h"
        using new(3) by auto
      then have "initialize_replay_mapping env st =
          (if mapping_is_valid env h then (st1\<lparr>replay_header := Some h, replay_events := events\<rparr>, True)
           else (st1\<lparr>replay_header := None\<rparr>, False))"
        using init by simp
      then show ?thesis
        using assms(1) acc new(1) empty path(1,2) True False len by (auto simp: m split: if_splits)
    qed
  qed
qed

text \<open>
  The format itself: a header of 64 bytes and then as many 48-byte events as the file holds, fewer than
  \<open>2 ^ 32\<close>, with the magic, the version and the state of a header that has been initialised.
\<close>

definition fits_log :: "u64 \<Rightarrow> bool" where
  "fits_log mapping_size \<longleftrightarrow> 64 \<le> unat mapping_size \<and> (unat mapping_size - 64) div 48 < 4294967296"

definition log_format :: "u64 \<Rightarrow> replay_header \<Rightarrow> bool" where
  "log_format mapping_size h \<longleftrightarrow> fits_log mapping_size \<and> magic h = ''MNRPLY03'' \<and> version h = 3 \<and> header_size h = 64 \<and>
    event_size h = 48 \<and> init_state h = 2 \<and> unat (capacity h) = (unat mapping_size - 64) div 48"

lemma event_capacity_fits: "event_capacity n \<le> ucast UINT32_MAX \<longleftrightarrow> fits_log n"
  and event_capacity_nat: "64 \<le> unat n \<Longrightarrow> unat (event_capacity n) = (unat n - 64) div 48"
proof -
  show eq: "64 \<le> unat n \<Longrightarrow> unat (event_capacity n) = (unat n - 64) div 48" for n :: u64
    by (simp add: event_capacity_def sizeof_header_def sizeof_event_def unat_div unat_sub_no_wrap)
  have "4294967295 < unat (event_capacity n)" if "unat n < 64"
  proof -
    have "unat (n - 64) = 18446744073709551616 + unat n - 64"
      using that by (simp add: unat_sub_if' not_le)
    then have "18446744073709551552 div 48 \<le> unat (event_capacity n)"
      unfolding event_capacity_def sizeof_header_def sizeof_event_def
      using div_le_mono [of 18446744073709551552 "unat (n - 64)" 48] by (simp add: unat_div)
    then show ?thesis by simp
  qed
  then show "event_capacity n \<le> ucast UINT32_MAX \<longleftrightarrow> fits_log n"
    using eq [of n] by (cases "64 \<le> unat n") (auto simp: fits_log_def word_le_nat_alt u32_max_u64)
qed

lemma magic_matches_iff: "length m = 8 \<Longrightarrow> magic_matches m \<longleftrightarrow> m = ''MNRPLY03''"
  by (auto simp: magic_matches_def MINI_REPLAY_MAGIC_def numeral_eq_Suc length_Suc_conv)

lemma mapping_is_valid_iff:
  assumes "length (magic h) = 8"
  shows "mapping_is_valid env h \<longleftrightarrow> log_format (env_mapping_size env) h"
proof -
  have "capacity h = event_capacity (env_mapping_size env) \<longleftrightarrow> unat (capacity h) = unat (event_capacity (env_mapping_size env))"
    by (simp add: word_unat_eq_iff)
  then show ?thesis
    using magic_matches_iff [OF assms] event_capacity_fits [of "env_mapping_size env"] event_capacity_nat [of "env_mapping_size env"]
    by (auto simp: mapping_is_valid_def log_format_def MINI_REPLAY_INIT_READY_def MINI_REPLAY_VERSION_def
        sizeof_header_def sizeof_event_def fits_log_def)
qed

text \<open>When the hook may record, and where.\<close>

definition accepts :: "capture_env \<Rightarrow> bool" where
  "accepts env \<longleftrightarrow> (length (wanted_path env) < 192 \<or> default_path env) \<and>
    env_openat env (wanted_path env) (default_path env \<or> (env_path env \<noteq> None \<and> env_path env \<noteq> Some [])) \<and>
    0 \<le> env_old_size env \<and> env_truncated env \<and>
    (case env_mapped env of
       None \<Rightarrow> False
     | Some (h, events) \<Rightarrow>
         if env_old_size env = 0 \<and> init_state h = 0 then fits_log (env_mapping_size env)
         else log_format (env_mapping_size env) h)"

text \<open>C22: The hook starts recording exactly when it may. \<open>initialize_replay_mapping\<close> succeeds if
  and only if the log path fits its buffer, the file is opened, measured, extended and mapped,
  and the mapping is either a fresh one whose number of events fits 32 bits or an initialised one
  of this format (magic, version, sizes of header and events) and exactly this capacity; then the
  header has this format, is left as it is when the file was initialised before, and is empty for a fresh file. On
  every failure the hook is left without a log.\<close>

theorem replay_mapping_accepted:
  assumes "initialize_replay_mapping env st = (st', ok)" and "replay_header st = None"
    and "pred_option (\<lambda>(h, events). length (magic h) = 8) (env_mapped env)"
  shows "(ok \<longleftrightarrow> accepts env) \<and>
    (if ok then \<exists>h0 h events. env_mapped env = Some (h0, events) \<and> replay_header st' = Some h \<and>
         replay_events st' = events \<and> log_format (env_mapping_size env) h \<and> replay_log_path st' = wanted_path env \<and>
         (if env_old_size env = 0 \<and> init_state h0 = 0 then next_index h = 0 \<and> runtime_flags h = 0 else h = h0)
     else replay_header st' = None)"
proof -
  note spec = replay_mapping_spec [OF assms]
  have "accepted env \<longleftrightarrow> accepts env"
    using assms(3) unfolding accepted_def accepts_def
    by (auto simp: mapping_is_valid_iff event_capacity_fits MINI_REPLAY_INIT_EMPTY_def split: option.splits)
  with spec show ?thesis
    by (auto simp: mapping_is_valid_iff MINI_REPLAY_INIT_EMPTY_def split: if_splits)
qed

theorem replay_mapping_accepted_witness:
  "let st = sample_capture\<lparr>replay_header := None\<rparr>; (st', ok) = initialize_replay_mapping sample_env st in
    ok \<and> capacity (the (replay_header st')) = 67108862"
proof -
  obtain st' ok where i: "initialize_replay_mapping sample_env (sample_capture\<lparr>replay_header := None\<rparr>) = (st', ok)"
    by fastforce
  have pre: "pred_option (\<lambda>(h, events). length (magic h) = 8) (env_mapped sample_env)"
    by (simp add: sample_env_def zero_header_def)
  have none: "replay_header (sample_capture\<lparr>replay_header := None\<rparr>) = None" by simp
  note r = replay_mapping_accepted [OF i none pre]
  have "accepts sample_env"
    by (simp add: accepts_def sample_env_def wanted_path_def zero_header_def fits_log_def)
  with r have "ok" by blast
  with r have "log_format (env_mapping_size sample_env) (the (replay_header st'))" by auto
  then have "unat (capacity (the (replay_header st'))) = 67108862"
    by (simp add: log_format_def sample_env_def)
  then have "capacity (the (replay_header st')) = of_nat 67108862"
    by (simp add: word_unat_eq_iff)
  then show ?thesis
    using i \<open>ok\<close> by simp
qed

subsection \<open>Logging by one thread\<close>

text \<open>A log in use: mapped, within 32 bits, and the instances consistent.\<close>

definition log_ok :: "capture_state \<Rightarrow> bool" where
  "log_ok st \<longleftrightarrow> (\<exists>h. replay_header st = Some h \<and> capacity h \<le> ucast UINT32_MAX) \<and> instances_ok st \<and>
    next_thread_instance st \<noteq> UINT32_MAX"

definition log_full :: "capture_state \<Rightarrow> bool" where
  "log_full st \<longleftrightarrow> capacity (the (replay_header st)) \<le> next_index (the (replay_header st))"

lemma log_event_full:
  assumes "replay_header st = Some h" and "log_full st"
  shows "log_event env self a st =
    Inl (st\<lparr>replay_header := Some (or_overflow (h\<lparr>next_index := next_index h + 1\<rparr>))\<rparr>)"
proof -
  have "\<not> next_index h < capacity h"
    using assms by (simp add: log_full_def not_less)
  then show ?thesis
    using assms(1) by (simp add: log_event_def reserve_event_slot_def)
qed

lemma get_thread_instance_total:
  assumes "next_thread_instance st \<noteq> 0" and "next_thread_instance st \<noteq> UINT32_MAX"
  obtains st' inst where "get_thread_instance self st = Inr (st', inst)"
proof (cases "get_thread_instance self st")
  case (Inl st')
  then show ?thesis
    using assms by (auto simp: get_thread_instance_def allocate_thread_instance_def Let_def split: if_splits)
next
  case (Inr r)
  then show ?thesis using that by (cases r) simp
qed

text \<open>One event appended: at the next index, complete, and nothing else changed.\<close>

definition appended :: "capture_env \<Rightarrow> u64 \<Rightarrow> event_args \<Rightarrow> capture_state \<Rightarrow> capture_state \<Rightarrow> bool" where
  "appended env self a st st' \<longleftrightarrow>
    (let h = the (replay_header st); i = next_index h; e = replay_events st' i in
      replay_header st' = Some (h\<lparr>next_index := i + 1\<rparr>) \<and>
      describes env st' e (self, a) \<and> sequence e = ucast (i + 1) \<and>
      (\<forall>j. j \<noteq> i \<longrightarrow> replay_events st' j = replay_events st j)) \<and>
    thread_map st' = thread_map st \<and> instances_ok st' \<and>
    (\<forall>v. current_thread_instance st v \<noteq> 0 \<longrightarrow> current_thread_instance st' v = current_thread_instance st v) \<and>
    (next_thread_instance st' = next_thread_instance st \<or> next_thread_instance st' = next_thread_instance st + 1)"

lemma log_event_appends:
  assumes "log_ok st" and "\<not> log_full st"
  obtains st' where "log_event env self a st = Inr (st', ())" and "appended env self a st st'"
proof -
  from assms obtain h where h: "replay_header st = Some h" "next_index h < capacity h" "capacity h \<le> ucast UINT32_MAX"
    and ins: "instances_ok st" "next_thread_instance st \<noteq> UINT32_MAX"
    by (auto simp: log_ok_def log_full_def)
  let ?st = "st\<lparr>replay_header := Some (h\<lparr>next_index := next_index h + 1\<rparr>)\<rparr>" and ?i = "next_index h"
  have r: "reserve_event_slot st = Inr (?st, ?i)"
    using h by (simp add: reserve_event_slot_def Let_def)
  have "unat ?i < 4294967295"
    using h(2,3) by (simp add: word_less_nat_alt word_le_nat_alt u32_max_u64)
  then have i: "?i \<noteq> UINT64_MAX"
    by (auto simp: UINT64_MAX_def unat_size_max)
  let ?st1 = "?st\<lparr>clock_reads := clock_reads st + 1,
        replay_events := (replay_events st)(?i := (replay_events st ?i)
           \<lparr>timestamp_ns := env_clock env (clock_reads st), address := arg_address a, event_result := arg_result a,
            event_bytes := arg_size a, event_pid := env_pid env\<rparr>)\<rparr>"
  have "next_thread_instance ?st1 \<noteq> 0" "next_thread_instance ?st1 \<noteq> UINT32_MAX"
    using ins by (auto simp: instances_ok_def)
  then obtain st2 inst where g: "get_thread_instance self ?st1 = Inr (st2, inst)"
    using get_thread_instance_total by blast
  then have f: "fill_event env self ?i a ?st = Inr (st2\<lparr>replay_events := (replay_events st2)(?i := (replay_events st2 ?i)
                 \<lparr>event_tid := inst, event_type := arg_type a, event_flags := arg_flags a\<rparr>)\<rparr>, ())"
    by (simp add: fill_event_def Let_def monotonic_time_ns_def)
  define st3 where "st3 = st2\<lparr>replay_events := (replay_events st2)(?i := (replay_events st2 ?i)
                 \<lparr>event_tid := inst, event_type := arg_type a, event_flags := arg_flags a\<rparr>)\<rparr>"
  note f = f [folded st3_def]
  note fill = fill_event_Inr [OF f]
  have "instances_ok ?st" using ins(1) by simp
  note fill = fill [OF this]
  have "log_event env self a st = Inr (publish_event ?i st3, ())"
    using i by (simp add: log_event_def r commit_event_def f)
  moreover have "describes env (publish_event ?i st3) (replay_events (publish_event ?i st3) ?i) (self, a)"
    using fill(6) by (auto simp: describes_def publish_event_def)
  ultimately show ?thesis
    using that [of "publish_event ?i st3"] fill(1-5) fill(7,8) h(1)
    by (simp add: appended_def publish_event_def Let_def)
qed

end
