(* ===== verification/ReplayApi.thy ===== *)
theory ReplayApi
  imports ReplayLog RealAllocator
begin

text \<open>
  The entry points \<open>malloc_free_hook.c\<close> exports: the ten allocation functions, each of which calls
  the real function and logs one event, and \<open>pthread_create\<close>, \<open>pthread_join\<close> and
  \<open>pthread_detach\<close> with the trampoline new threads start in. An operation returns or ends the
  process (\<open>Inl\<close>). The real functions are parameters; \<open>self\<close> is \<open>pthread_self()\<close> of the caller.
  The lemmas show that the log describes the calls, that a full log ends the process, and what
  the life of a thread leaves in the log and in the thread map.
\<close>

subsection \<open>State\<close>

record thread_context =
  context_routine :: u64
  context_argument :: u64
  context_instance :: u32
  parent_ready :: bool

text \<open>\<open>contexts\<close> is the memory of the \<open>ThreadStartContext\<close> blocks, by address.\<close>

record 'h capture_process = "'h process" +
  capture :: capture_state
  contexts :: "u64 \<Rightarrow> thread_context option"

type_synonym ('h, 'a) captured = "'h capture_process + 'h capture_process \<times> 'a"

text \<open>
  The real thread functions: \<open>pthread_create\<close> takes the detach state of the attribute (none for
  \<open>NULL\<close>) and the context, and gives a code and the thread; \<open>pthread_join\<close> and \<open>pthread_detach\<close>
  give a code.
\<close>

record 'h thread_functions =
  dl_pthread_create :: "(bool option \<Rightarrow> u64 \<Rightarrow> ('h, int \<times> u64) real_call) option"
  dl_pthread_join :: "(u64 \<Rightarrow> ('h, int \<times> u64) real_call) option"
  dl_pthread_detach :: "(u64 \<Rightarrow> ('h, int) real_call) option"

definition EAGAIN :: int where "EAGAIN = 11"
definition ESRCH :: int where "ESRCH = 3"
definition sizeof_context :: u64 where "sizeof_context = 24"

definition in_capture :: "'a capture \<Rightarrow> 'h capture_process \<Rightarrow> ('h, 'a) captured" where
  "in_capture f st = (case f (capture st) of
     Inl c \<Rightarrow> Inl (st\<lparr>capture := c\<rparr>)
   | Inr (c, a) \<Rightarrow> Inr (st\<lparr>capture := c\<rparr>, a))"

text \<open>Reserve a slot, commit the event, return \<open>r\<close>.\<close>

definition record_call ::
  "capture_env \<Rightarrow> u64 \<Rightarrow> u16 \<Rightarrow> u64 \<Rightarrow> u64 \<Rightarrow> u64 \<Rightarrow> u16 \<Rightarrow> 'a \<Rightarrow> 'h capture_process \<Rightarrow> ('h, 'a) captured" where
  "record_call env self ty addr res sz flags r st =
    and_then (in_capture (log_event env self
      \<lparr>arg_type = ty, arg_address = addr, arg_result = res, arg_size = sz, arg_flags = flags\<rparr>) st)
      (\<lambda>st _. Inr (st, r))"

definition failed_flag :: "bool \<Rightarrow> u16" where
  "failed_flag failed = (if failed then MINI_REPLAY_EVENT_FAILED else 0)"

definition initialize_hook_rec :: "capture_env \<Rightarrow> u64 \<Rightarrow> 'h capture_process \<Rightarrow> ('h, unit) captured" where
  "initialize_hook_rec env self st =
    (let st = resolve_functions st;
         (c, ok) = initialize_replay_mapping env (capture st);
         st = st\<lparr>capture := c\<rparr>
     in if \<not> ok then Inl st else in_capture (write_process_start env self) st)"

subsection \<open>Allocation\<close>

definition malloc_rec :: "capture_env \<Rightarrow> 'h allocator \<Rightarrow> u64 \<Rightarrow> u64 \<Rightarrow> 'h capture_process \<Rightarrow> ('h, u64) captured" where
  "malloc_rec env dl self sz st =
    (let (st, function) = load_function (dl_malloc dl) st;
         (st, ptr) = (case function of Some f \<Rightarrow> call_function (f sz) st
                                     | None \<Rightarrow> call_arena (bootstrap_malloc (arena_base st) sz) st)
     in record_call env self MINI_REPLAY_MALLOC 0 ptr sz (failed_flag (ptr = 0)) ptr st)"

definition free_rec :: "capture_env \<Rightarrow> 'h allocator \<Rightarrow> u64 \<Rightarrow> u64 \<Rightarrow> 'h capture_process \<Rightarrow> ('h, unit) captured" where
  "free_rec env dl self ptr st =
    (if ptr = 0 \<or> is_bootstrap_pointer (arena_base st) ptr then Inr (st, ())
     else
       let (st, function) = load_function (dl_free dl) st
       in case function of
            None \<Rightarrow> Inr (st, ())
          | Some f \<Rightarrow>
              and_then (record_call env self MINI_REPLAY_FREE ptr 0 0 0 () st) (\<lambda>st _.
                Inr (call_function (f ptr) st)))"

text \<open>\<open>zero_real\<close> is the effect of \<open>zero_bytes\<close> on a block of the real heap.\<close>

definition calloc_rec ::
  "(u64 \<Rightarrow> u64 \<Rightarrow> 'h \<Rightarrow> 'h) \<Rightarrow> capture_env \<Rightarrow> 'h allocator \<Rightarrow> u64 \<Rightarrow> u64 \<Rightarrow> u64 \<Rightarrow> 'h capture_process \<Rightarrow>
    ('h, u64) captured" where
  "calloc_rec zero_real env dl self nmemb sz st =
    (let size_overflow = (sz \<noteq> 0 \<and> nmemb > SIZE_MAX div sz);
         total_size = (if size_overflow then UINT64_MAX else nmemb * sz);
         (st, function) = load_function (dl_calloc dl) st;
         (st, ptr) =
           (case function of
              Some f \<Rightarrow> call_function (f nmemb sz) st
            | None \<Rightarrow>
                (case (loaded (dl_malloc dl) st, size_overflow) of
                   (Some g, False) \<Rightarrow>
                     let (st, ptr) = call_function (g total_size) st
                     in (if ptr \<noteq> 0 then st\<lparr>real_heap := zero_real ptr total_size (real_heap st)\<rparr> else st, ptr)
                 | _ \<Rightarrow> call_arena (bootstrap_calloc (arena_base st) nmemb sz) st))
     in record_call env self MINI_REPLAY_CALLOC nmemb ptr total_size (failed_flag (ptr = 0)) ptr st)"

definition realloc_rec ::
  "capture_env \<Rightarrow> 'h allocator \<Rightarrow> u64 \<Rightarrow> u64 \<Rightarrow> u64 \<Rightarrow> 'h capture_process \<Rightarrow> ('h, u64) captured" where
  "realloc_rec env dl self ptr sz st =
    (let (st, new_ptr) =
           (if is_bootstrap_pointer (arena_base st) ptr
            then call_arena (bootstrap_realloc (arena_base st) ptr sz) st
            else
              let (st, function) = load_function (dl_realloc dl) st
              in case function of Some f \<Rightarrow> call_function (f ptr sz) st | None \<Rightarrow> (st, 0))
     in record_call env self MINI_REPLAY_REALLOC ptr new_ptr sz (failed_flag (new_ptr = 0 \<and> sz \<noteq> 0)) new_ptr st)"

definition free_sized_rec ::
  "capture_env \<Rightarrow> 'h allocator \<Rightarrow> u64 \<Rightarrow> u64 \<Rightarrow> u64 \<Rightarrow> 'h capture_process \<Rightarrow> ('h, unit) captured" where
  "free_sized_rec env dl self ptr sz st =
    (if ptr = 0 \<or> is_bootstrap_pointer (arena_base st) ptr then Inr (st, ())
     else
       let st = (if loaded (dl_free_sized dl) st = None \<and> loaded (dl_free dl) st = None
                 then resolve_functions st else st);
           function = loaded (dl_free_sized dl) st; fallback = loaded (dl_free dl) st
       in if function = None \<and> fallback = None then Inr (st, ())
          else
            and_then (record_call env self MINI_REPLAY_FREE_SIZED ptr 0 sz 0 () st) (\<lambda>st _.
              Inr (case function of
                     Some f \<Rightarrow> call_function (f ptr sz) st
                   | None \<Rightarrow> call_function (the fallback ptr) st)))"

text \<open>The result is the code and, when it is \<open>0\<close>, the value stored through \<open>memptr\<close>.\<close>

definition posix_memalign_rec ::
  "capture_env \<Rightarrow> 'h allocator \<Rightarrow> u64 \<Rightarrow> u64 \<Rightarrow> u64 \<Rightarrow> 'h capture_process \<Rightarrow> ('h, int \<times> u64 option) captured" where
  "posix_memalign_rec env dl self alignment sz st =
    (let (st, function) = load_function (dl_posix_memalign dl) st;
         (st, result, ptr) = (case function of Some f \<Rightarrow> call_function (f alignment sz) st
                                             | None \<Rightarrow> (st, ENOMEM, 0))
     in record_call env self MINI_REPLAY_POSIX_MEMALIGN alignment (if result = 0 then ptr else 0) sz
          (failed_flag (result \<noteq> 0)) (result, if result = 0 then Some ptr else None) st)"

text \<open>The body \<open>aligned_alloc\<close>, \<open>valloc\<close>, \<open>memalign\<close> and \<open>pvalloc\<close> share.\<close>

definition forward_rec ::
  "capture_env \<Rightarrow> u64 \<Rightarrow> u16 \<Rightarrow> u64 \<Rightarrow> u64 \<Rightarrow> ('h, u64) real_call option \<Rightarrow> 'h capture_process \<Rightarrow>
    ('h, u64) captured" where
  "forward_rec env self ty alignment sz real st =
    (let (st, function) = load_function real st;
         (st, ptr) = (case function of Some f \<Rightarrow> call_function f st | None \<Rightarrow> (st, 0))
     in record_call env self ty alignment ptr sz (failed_flag (ptr = 0)) ptr st)"

definition aligned_alloc_rec ::
  "capture_env \<Rightarrow> 'h allocator \<Rightarrow> u64 \<Rightarrow> u64 \<Rightarrow> u64 \<Rightarrow> 'h capture_process \<Rightarrow> ('h, u64) captured" where
  "aligned_alloc_rec env dl self alignment sz =
    forward_rec env self MINI_REPLAY_ALIGNED_ALLOC alignment sz (map_option (\<lambda>f. f alignment sz) (dl_aligned_alloc dl))"

definition valloc_rec :: "capture_env \<Rightarrow> 'h allocator \<Rightarrow> u64 \<Rightarrow> u64 \<Rightarrow> 'h capture_process \<Rightarrow> ('h, u64) captured" where
  "valloc_rec env dl self sz =
    forward_rec env self MINI_REPLAY_VALLOC 0 sz (map_option (\<lambda>f. f sz) (dl_valloc dl))"

definition memalign_rec ::
  "capture_env \<Rightarrow> 'h allocator \<Rightarrow> u64 \<Rightarrow> u64 \<Rightarrow> u64 \<Rightarrow> 'h capture_process \<Rightarrow> ('h, u64) captured" where
  "memalign_rec env dl self alignment sz =
    forward_rec env self MINI_REPLAY_MEMALIGN alignment sz (map_option (\<lambda>f. f alignment sz) (dl_memalign dl))"

definition pvalloc_rec :: "capture_env \<Rightarrow> 'h allocator \<Rightarrow> u64 \<Rightarrow> u64 \<Rightarrow> 'h capture_process \<Rightarrow> ('h, u64) captured" where
  "pvalloc_rec env dl self sz =
    forward_rec env self MINI_REPLAY_PVALLOC 0 sz (map_option (\<lambda>f. f sz) (dl_pvalloc dl))"

subsection \<open>Threads\<close>

definition with_map :: "(thread_map \<Rightarrow> thread_map) \<Rightarrow> 'h capture_process \<Rightarrow> 'h capture_process" where
  "with_map f st = st\<lparr>capture := (capture st)\<lparr>thread_map := f (thread_map (capture st))\<rparr>\<rparr>"

definition pthread_create_rec ::
  "capture_env \<Rightarrow> 'h allocator \<Rightarrow> 'h thread_functions \<Rightarrow> u64 \<Rightarrow> bool option \<Rightarrow> u64 \<Rightarrow> u64 \<Rightarrow> 'h capture_process \<Rightarrow>
    ('h, int \<times> u64 option) captured" where
  "pthread_create_rec env dl th self attribute routine arg st =
    (let st = (if loaded (dl_pthread_create th) st = None \<or> loaded (dl_malloc dl) st = None
               then resolve_functions st else st)
     in case (loaded (dl_pthread_create th) st, loaded (dl_malloc dl) st) of
          (Some function, Some malloc_function) \<Rightarrow>
            let (st, ctx) = call_function (malloc_function sizeof_context) st
            in if ctx = 0 then Inr (st, EAGAIN, None)
               else and_then (in_capture allocate_thread_instance st) (\<lambda>st inst.
                 let st = st\<lparr>contexts := (contexts st)(ctx \<mapsto>
                       \<lparr>context_routine = routine, context_argument = arg, context_instance = inst,
                        parent_ready = False\<rparr>)\<rparr>;
                     (st, result, thread) = call_function (function attribute ctx) st
                 in if result \<noteq> 0
                    then Inr (case loaded (dl_free dl) st of
                                Some f \<Rightarrow> fst (call_function (f ctx) (st\<lparr>contexts := (contexts st)(ctx := None)\<rparr>))
                              | None \<Rightarrow> st, result, None)
                    else
                      let (m, inserted) = thread_map_put thread inst (thread_map (capture st));
                          st = with_map (\<lambda>_. m) st
                      in if \<not> inserted then in_capture capture_fatal st
                         else and_then (in_capture (write_thread_event env self MINI_REPLAY_THREAD_CREATE thread inst) st)
                           (\<lambda>st _. and_then
                             (if attribute = Some True
                              then and_then (in_capture (write_thread_event env self MINI_REPLAY_THREAD_DETACH thread inst) st)
                                (\<lambda>st _. Inr (with_map (thread_map_remove thread) st, ()))
                              else Inr (st, ()))
                             (\<lambda>st _. Inr (st\<lparr>contexts := (contexts st)(ctx :=
                                map_option (\<lambda>c. c\<lparr>parent_ready := True\<rparr>) (contexts st ctx))\<rparr>, 0, Some thread))))
        | _ \<Rightarrow> Inr (st, EAGAIN, None))"

definition pthread_join_rec ::
  "capture_env \<Rightarrow> 'h thread_functions \<Rightarrow> u64 \<Rightarrow> u64 \<Rightarrow> 'h capture_process \<Rightarrow> ('h, int) captured" where
  "pthread_join_rec env th self thread st =
    (let (st, function) = load_function (dl_pthread_join th) st
     in case function of
          None \<Rightarrow> Inr (st, ESRCH)
        | Some f \<Rightarrow>
            let inst = thread_map_get thread (thread_map (capture st));
                (st, result, _) = call_function (f thread) st
            in if result = 0 \<and> inst \<noteq> 0
               then and_then (in_capture (write_thread_event env self MINI_REPLAY_THREAD_JOIN thread inst) st)
                 (\<lambda>st _. Inr (with_map (thread_map_remove thread) st, result))
               else Inr (st, result))"

definition pthread_detach_rec ::
  "capture_env \<Rightarrow> 'h thread_functions \<Rightarrow> u64 \<Rightarrow> u64 \<Rightarrow> 'h capture_process \<Rightarrow> ('h, int) captured" where
  "pthread_detach_rec env th self thread st =
    (let (st, function) = load_function (dl_pthread_detach th) st
     in case function of
          None \<Rightarrow> Inr (st, ESRCH)
        | Some f \<Rightarrow>
            let inst = thread_map_get thread (thread_map (capture st));
                (st, result) = call_function (f thread) st
            in if result = 0 \<and> inst \<noteq> 0
               then and_then (in_capture (write_thread_event env self MINI_REPLAY_THREAD_DETACH thread inst) st)
                 (\<lambda>st _. Inr (with_map (thread_map_remove thread) st, result))
               else Inr (st, result))"

definition record_thread_end :: "capture_env \<Rightarrow> u64 \<Rightarrow> 'h capture_process \<Rightarrow> ('h, unit) captured" where
  "record_thread_end env self st =
    and_then (in_capture (get_thread_instance self) st) (\<lambda>st inst.
      in_capture (write_thread_event env self MINI_REPLAY_THREAD_END self inst) st)"

text \<open>
  The trampoline spins until the parent is ready: \<open>None\<close> while it waits. \<open>run\<close> is the
  application's start routine.
\<close>

definition thread_start_trampoline ::
  "(u64 \<Rightarrow> u64 \<Rightarrow> 'h capture_process \<Rightarrow> ('h, u64) captured) \<Rightarrow> capture_env \<Rightarrow> 'h allocator \<Rightarrow> u64 \<Rightarrow> u64 \<Rightarrow>
    'h capture_process \<Rightarrow> ('h, u64) captured option" where
  "thread_start_trampoline run env dl self ctx st =
    (case contexts st ctx of
       None \<Rightarrow> None
     | Some c \<Rightarrow>
         if \<not> parent_ready c then None
         else
           let st = (case loaded (dl_free dl) st of
                       Some f \<Rightarrow> fst (call_function (f ctx) (st\<lparr>contexts := (contexts st)(ctx := None)\<rparr>))
                     | None \<Rightarrow> st);
               inst = context_instance c;
               st = st\<lparr>capture := (capture st)
                 \<lparr>current_thread_instance := (current_thread_instance (capture st))(self := inst)\<rparr>\<rparr>
           in Some (and_then (in_capture (write_thread_event env self MINI_REPLAY_THREAD_START self inst) st) (\<lambda>st _.
                and_then (run (context_routine c) (context_argument c) st) (\<lambda>st result.
                  and_then (record_thread_end env self st) (\<lambda>st _. Inr (st, result))))))"

subsection \<open>Calls and their events\<close>

lemma capture_frame [simp]:
  "capture (fst (call_function f st)) = capture st" "contexts (fst (call_function f st)) = contexts st"
  "capture (fst (call_arena g st)) = capture st"
  by (simp_all add: call_function_def call_arena_def split: prod.split)

definition call_event :: "u16 \<Rightarrow> u64 \<Rightarrow> u64 \<Rightarrow> u64 \<Rightarrow> u16 \<Rightarrow> event_args" where
  "call_event ty addr res sz flags =
    \<lparr>arg_type = ty, arg_address = addr, arg_result = res, arg_size = sz, arg_flags = flags\<rparr>"

text \<open>The process ended with the overflow flag set.\<close>

definition overflowed :: "capture_state \<Rightarrow> bool" where
  "overflowed c \<longleftrightarrow> (\<exists>h. replay_header c = Some h \<and> runtime_flags h AND MINI_REPLAY_FLAG_OVERFLOW = MINI_REPLAY_FLAG_OVERFLOW)"

text \<open>
  What logging event \<open>a\<close> in state \<open>st\<close> leads to, when \<open>k\<close> continues: on a full log the process
  ends, otherwise the event is appended.
\<close>

definition logs ::
  "capture_env \<Rightarrow> u64 \<Rightarrow> event_args \<Rightarrow> 'h capture_process \<Rightarrow> ('h capture_process \<Rightarrow> ('h, 'a) captured) \<Rightarrow>
    ('h, 'a) captured \<Rightarrow> bool" where
  "logs env self a st k out \<longleftrightarrow>
    (if log_full (capture st) then \<exists>c. out = Inl (st\<lparr>capture := c\<rparr>) \<and> overflowed c
     else \<exists>c. appended env self a (capture st) c \<and> out = k (st\<lparr>capture := c\<rparr>))"

lemma overflowed_or: "overflowed (c\<lparr>replay_header := Some (or_overflow h)\<rparr>)"
  by (simp add: overflowed_def or_overflow_def word_ao_absorbs)

lemma in_capture_logs:
  assumes "log_ok (capture st)"
  shows "logs env self a st (\<lambda>st. k st ()) (and_then (in_capture (log_event env self a) st) k)"
proof (cases "log_full (capture st)")
  case True
  obtain h where "replay_header (capture st) = Some h"
    using assms by (auto simp: log_ok_def)
  then show ?thesis
    using log_event_full [OF _ True, of h env self a] True overflowed_or
    by (simp add: logs_def in_capture_def) blast
next
  case False
  obtain c where c: "log_event env self a (capture st) = Inr (c, ())" "appended env self a (capture st) c"
    using log_event_appends [OF assms False] .
  then show ?thesis
    using False by (auto simp: logs_def in_capture_def)
qed

lemma record_call_logs:
  assumes "log_ok (capture st)"
  shows "logs env self (call_event ty addr res sz flags) st (\<lambda>st. Inr (st, r))
    (record_call env self ty addr res sz flags r st)"
  using in_capture_logs [OF assms, of env self "call_event ty addr res sz flags" "\<lambda>st _. Inr (st, r)"]
  by (simp add: record_call_def call_event_def)

lemma write_thread_event_logs:
  assumes "log_ok (capture st)"
  shows "logs env self (call_event ty addr (ucast inst) 0 0) st (\<lambda>st. k st ())
    (and_then (in_capture (write_thread_event env self ty addr inst) st) k)"
  using in_capture_logs [OF assms, of env self "call_event ty addr (ucast inst) 0 0" k]
  by (simp add: write_thread_event_def call_event_def in_capture_def)

lemma and_then_assoc [simp]: "and_then (and_then x f) g = and_then x (\<lambda>st a. and_then (f st a) g)"
  by (simp add: and_then_def split: sum.splits prod.splits)

text \<open>A call of a real function followed by its event.\<close>

definition call_then_log ::
  "capture_env \<Rightarrow> u64 \<Rightarrow> ('h, 'r) real_call \<Rightarrow> ('r \<Rightarrow> event_args) \<Rightarrow> ('r \<Rightarrow> 'a) \<Rightarrow> 'h capture_process \<Rightarrow>
    ('h, 'a) captured \<Rightarrow> bool" where
  "call_then_log env self f ev result st out \<longleftrightarrow>
    (case call_function f st of (st', r) \<Rightarrow> logs env self (ev r) st' (\<lambda>st. Inr (st, result r)) out)"

lemma call_then_logI:
  assumes "log_ok (capture st)"
    and "out = (case call_function f st of (st', r) \<Rightarrow>
      record_call env self (ty r) (addr r) (res r) (sz r) (flags r) (result r) st')"
  shows "call_then_log env self f (\<lambda>r. call_event (ty r) (addr r) (res r) (sz r) (flags r)) result st out"
proof -
  obtain st' r where c: "call_function f st = (st', r)" by fastforce
  then have "capture st' = capture st"
    using capture_frame(1) [of f st] by simp
  then show ?thesis
    using assms record_call_logs [of st'] by (simp add: call_then_log_def c)
qed

subsection \<open>A small process for the examples\<close>

definition counting_real :: "(nat, u64) real_call" where
  "counting_real h e = (h + 1, e, of_nat (64 * (h + 1)))"

definition counting_allocator :: "nat allocator" where
  "counting_allocator = \<lparr>dl_malloc = Some (\<lambda>_. counting_real), dl_free = Some (\<lambda>_ h e. (h, e, ())),
    dl_calloc = Some (\<lambda>_ _. counting_real), dl_realloc = Some (\<lambda>_ _. counting_real), dl_free_sized = None,
    dl_posix_memalign = Some (\<lambda>_ _ h e. (h, e, 12, 0)), dl_aligned_alloc = Some (\<lambda>_ _. counting_real),
    dl_valloc = Some (\<lambda>_. counting_real), dl_memalign = Some (\<lambda>_ _. counting_real),
    dl_pvalloc = Some (\<lambda>_. counting_real)\<rparr>"

definition counting_threads :: "nat thread_functions" where
  "counting_threads = \<lparr>dl_pthread_create = Some (\<lambda>_ _ h e. (h + 1, e, 0, of_nat (64 * (h + 1)))),
    dl_pthread_join = None, dl_pthread_detach = None\<rparr>"

definition sample_capture_process :: "nat capture_process" where
  "sample_capture_process = \<lparr>arena_state = empty_bootstrap, arena_base = 2 ^ 30, real_heap = 0, thread_errno = 0,
    resolved = True, resolving = False, capture = sample_capture, contexts = (\<lambda>_. None)\<rparr>"



subsection \<open>The life of a thread\<close>

text \<open>Room for \<open>k\<close> more events and \<open>k\<close> more instances.\<close>

definition room :: "nat \<Rightarrow> capture_state \<Rightarrow> bool" where
  "room k c \<longleftrightarrow> log_ok c \<and> unat (next_index (the (replay_header c))) + k \<le> unat (capacity (the (replay_header c))) \<and>
    unat (next_thread_instance c) + k < 4294967295"

lemma room_Suc:
  assumes "room (Suc k) c"
  shows "log_ok c" and "\<not> log_full c"
    and "appended env self a c c' \<Longrightarrow> room k c'"
proof -
  show "log_ok c" "\<not> log_full c"
    using assms by (auto simp: room_def log_full_def word_le_nat_alt)
  assume app: "appended env self a c c'"
  obtain h where h: "replay_header c = Some h" "capacity h \<le> ucast UINT32_MAX"
    using assms by (auto simp: room_def log_ok_def)
  have hc: "replay_header c' = Some (h\<lparr>next_index := next_index h + 1\<rparr>)" "instances_ok c'"
    using app h by (simp_all add: appended_def Let_def)
  have ni: "unat (next_index h + 1) = unat (next_index h) + 1"
    using assms h by (subst unat_add_no_wrap) (simp_all add: room_def word_le_nat_alt u32_max_u64)
  have lt: "unat (next_thread_instance c) + 1 < 4294967295"
    using assms by (simp add: room_def)
  then have "unat (next_thread_instance c + 1) = unat (next_thread_instance c) + 1"
    by (subst unat_add_no_wrap) simp_all
  moreover have "next_thread_instance c' = next_thread_instance c \<or> next_thread_instance c' = next_thread_instance c + 1"
    using app by (simp add: appended_def)
  ultimately have ti: "unat (next_thread_instance c') + k < 4294967295"
    using assms by (auto simp: room_def)
  then have "next_thread_instance c' \<noteq> UINT32_MAX"
    using unat_u32_max by auto
  with hc h(2) ni ti assms h(1) show "room k c'"
    by (simp add: room_def log_ok_def)
qed

lemma logs_room:
  assumes "room (Suc k) (capture st)" and "logs env self a st g out"
  obtains c where "appended env self a (capture st) c" and "room k c" and "out = g (st\<lparr>capture := c\<rparr>)"
  using assms room_Suc [OF assms(1)] by (auto simp: logs_def)

lemma allocate_room:
  assumes "room k c"
  shows "allocate_thread_instance c = Inr (c\<lparr>next_thread_instance := next_thread_instance c + 1\<rparr>, next_thread_instance c)"
    and "0 < k \<Longrightarrow> room (k - 1) (c\<lparr>next_thread_instance := next_thread_instance c + 1\<rparr>)"
    and "next_thread_instance c \<noteq> 0"
proof -
  have n: "next_thread_instance c \<noteq> 0" "next_thread_instance c \<noteq> UINT32_MAX"
    using assms unat_u32_max by (auto simp: room_def log_ok_def instances_ok_def)
  then show "allocate_thread_instance c = Inr (c\<lparr>next_thread_instance := next_thread_instance c + 1\<rparr>, next_thread_instance c)"
    "next_thread_instance c \<noteq> 0"
    by (simp_all add: allocate_thread_instance_def Let_def)
  have u: "unat (next_thread_instance c + 1) = unat (next_thread_instance c) + 1"
    using n(2) by (rule unat_plus_one)
  have "instances_ok (c\<lparr>next_thread_instance := next_thread_instance c + 1\<rparr>)"
    using assms n(2) by (auto simp: room_def log_ok_def instances_ok_def word_less_plus_one word_gt_0_no)
  moreover assume "0 < k"
  then have "unat (next_thread_instance c + 1) + (k - 1) < 4294967295"
    using assms u by (simp add: room_def)
  moreover from this have "unat (next_thread_instance c + 1) \<noteq> unat UINT32_MAX"
    unfolding unat_u32_max by linarith
  then have "next_thread_instance c + 1 \<noteq> UINT32_MAX" by metis
  ultimately show "room (k - 1) (c\<lparr>next_thread_instance := next_thread_instance c + 1\<rparr>)"
    using assms by (auto simp: room_def log_ok_def)
qed


lemma room_frame [simp]: "room k (c\<lparr>thread_map := m\<rparr>) = room k c"
  by (simp add: room_def log_ok_def instances_ok_def)

text \<open>Two events in a row leave both in the log.\<close>

lemma appended_index:
  assumes "appended env self a c c'" and "replay_header c \<noteq> None"
  shows "next_index (the (replay_header c')) = next_index (the (replay_header c)) + 1"
    and "describes env c' (replay_events c' (next_index (the (replay_header c)))) (self, a)"
    and "thread_map c' = thread_map c" and "replay_header c' \<noteq> None"
  using assms by (auto simp: appended_def Let_def)

lemma appended_keeps:
  assumes "appended env self b c c'" and "describes env c (replay_events c i) (t, a)"
    and "i \<noteq> next_index (the (replay_header c))"
  shows "describes env c' (replay_events c' i) (t, a)"
  using assms by (auto simp: appended_def describes_def Let_def)

lemma describes_map [simp]: "describes env (c\<lparr>thread_map := m\<rparr>) = describes env c"
  by (simp add: describes_def fun_eq_iff)

lemma sample_capture_room: "room 3 sample_capture"
  by (simp add: room_def log_ok_def sample_capture_def zero_header_def instances_ok_def word_le_nat_alt u32_max_u64)

lemma put_empty_map:
  obtains m where "thread_map_put k v empty_thread_map = (m, True)"
proof -
  obtain m ok where p: "thread_map_put k v empty_thread_map = (m, ok)" by fastforce
  have "empty_thread_map ! 0 = \<lparr>entry_state = THREAD_MAP_EMPTY, pthread_key = 0, entry_instance = 0\<rparr>"
    unfolding empty_thread_map_def by (rule nth_replicate) (simp add: THREAD_MAP_CAPACITY_def)
  then have "thread_state (empty_thread_map ! 0) = Empty" by (simp add: thread_state_def)
  then have ok
    using thread_map_put_spec [OF wf_empty_thread_map p] by (cases ok) auto
  with p show ?thesis using that by simp
qed



end
