(* ===== verification/ReplayTools.thy ===== *)
theory ReplayTools
  imports ReplayLog
begin

text \<open>
  The tools that read a replay log: \<open>bin_to_rply.c\<close>, which converts the events of one process to
  an RPLY trace, \<open>rply_to_txt.c\<close>, which prints a trace, and \<open>replay_dump.c\<close>, which prints a log.
  A BIN file is its header, when it has the 64 bytes of one, and its complete 48-byte events; an
  RPLY file is its first word and its complete 48-byte entries. What the C library answers for
  the files is a parameter.
\<close>

subsection \<open>The formats\<close>

definition MINI_RPLY_ENTRY_WORDS :: u64 where "MINI_RPLY_ENTRY_WORDS = 6"
definition MINI_RPLY_FUNCTION_COUNT :: nat where "MINI_RPLY_FUNCTION_COUNT = 10"
definition MINI_RPLY_THREAD_CREATE :: nat where "MINI_RPLY_THREAD_CREATE = 100"
definition MINI_RPLY_THREAD_START :: nat where "MINI_RPLY_THREAD_START = 101"
definition MINI_RPLY_THREAD_END :: nat where "MINI_RPLY_THREAD_END = 102"
definition MINI_RPLY_THREAD_JOIN :: nat where "MINI_RPLY_THREAD_JOIN = 103"
definition MINI_RPLY_THREAD_DETACH :: nat where "MINI_RPLY_THREAD_DETACH = 104"

record rply_entry =
  timestamp :: u64
  func_and_cpu :: u64
  thread_id :: u64
  entry_address :: u64
  entry_result :: u64
  entry_size :: u64

record bin_file =
  bin_header :: "replay_header option"
  bin_events :: "replay_event list"

record rply_file =
  index_words :: "u64 option"
  rply_entries :: "rply_entry list"

subsection \<open>\<open>bin_to_rply.c\<close>\<close>

text \<open>\<open>strtoul(text, &end, 10)\<close>: the value, the rest of the text, and \<open>errno = ERANGE\<close>.\<close>

definition is_space :: "char \<Rightarrow> bool" where
  "is_space c \<longleftrightarrow> of_char c = (32 :: nat) \<or> (9 \<le> (of_char c :: nat) \<and> (of_char c :: nat) \<le> 13)"

definition is_digit :: "char \<Rightarrow> bool" where
  "is_digit c \<longleftrightarrow> 48 \<le> (of_char c :: nat) \<and> (of_char c :: nat) \<le> 57"

definition strtoul10 :: "string \<Rightarrow> u64 \<times> string \<times> bool" where
  "strtoul10 s =
    (let s1 = dropWhile is_space s;
         neg = (s1 \<noteq> [] \<and> hd s1 = CHR ''-'');
         s2 = (if s1 \<noteq> [] \<and> (hd s1 = CHR ''-'' \<or> hd s1 = CHR ''+'') then tl s1 else s1);
         ds = takeWhile is_digit s2; n = read_decimal ds
     in if ds = [] then (0, s, False)
        else if 2 ^ 64 \<le> n then (- 1, dropWhile is_digit s2, True)
        else (if neg then - of_nat n else of_nat n, dropWhile is_digit s2, False))"

definition parse_pid :: "string \<Rightarrow> u32 option" where
  "parse_pid s =
    (let (v, rest, erange) = strtoul10 s
     in if erange \<or> rest = s \<or> rest \<noteq> [] \<or> v = 0 \<or> v > ucast UINT32_MAX then None
        else Some (ucast v))"

definition header_is_valid :: "replay_header \<Rightarrow> bool" where
  "header_is_valid h \<longleftrightarrow>
    magic h = MINI_REPLAY_MAGIC \<and>
    version h = MINI_REPLAY_VERSION \<and>
    header_size h = ucast sizeof_header \<and>
    event_size h = ucast sizeof_event \<and>
    pointer_size h = 8 \<and>
    endian h = MINI_REPLAY_ENDIAN_LITTLE \<and>
    init_state h = MINI_REPLAY_INIT_READY"

definition convert_event :: "replay_event \<Rightarrow> rply_entry option" where
  "convert_event e =
    (if unat (event_type e) \<ge> MINI_RPLY_FUNCTION_COUNT \<and>
        (unat (event_type e) < MINI_RPLY_THREAD_CREATE \<or> unat (event_type e) > MINI_RPLY_THREAD_DETACH)
     then None
     else Some \<lparr>timestamp = timestamp_ns e, func_and_cpu = push_bit 32 (ucast (event_type e)),
       thread_id = ucast (event_tid e), entry_address = address e, entry_result = event_result e,
       entry_size = event_bytes e\<rparr>)"

text \<open>
  The file operations: whether they succeed. \<open>wrote n\<close> is the answer of the write of entry \<open>n\<close>.
\<close>

record tool_io =
  open_input :: bool
  open_output :: bool
  wrote_header :: bool
  wrote :: "nat \<Rightarrow> bool"
  wrote_index :: bool
  closed_output :: bool
  closed_input :: bool

text \<open>What becomes of the file at the output path.\<close>

datatype output_file = Untouched | Removed | Complete rply_file

record conversion =
  target_pid :: u32
  converted :: "rply_entry list"
  skipped_pid :: nat
  skipped_metadata :: nat
  skipped_incomplete :: nat
  skipped_unknown :: nat

definition start_conversion :: "u32 \<Rightarrow> conversion" where
  "start_conversion pid = \<lparr>target_pid = pid, converted = [], skipped_pid = 0, skipped_metadata = 0,
    skipped_incomplete = 0, skipped_unknown = 0\<rparr>"

text \<open>One round of the loop; \<open>None\<close> when the write fails.\<close>

definition convert_step :: "tool_io \<Rightarrow> bool \<Rightarrow> u64 \<Rightarrow> replay_event \<Rightarrow> conversion \<Rightarrow> conversion option" where
  "convert_step io auto_pid index e c =
    (if sequence e \<noteq> ucast (index + 1) then Some (c\<lparr>skipped_incomplete := skipped_incomplete c + 1\<rparr>)
     else
       let c = (if auto_pid \<and> target_pid c = 0 \<and> event_type e = MINI_REPLAY_PROCESS_START
                then c\<lparr>target_pid := event_pid e\<rparr> else c)
       in if target_pid c = 0 \<or> event_pid e \<noteq> target_pid c
          then Some (c\<lparr>skipped_pid := skipped_pid c + 1\<rparr>)
          else if event_type e = MINI_REPLAY_PROCESS_START
          then Some (c\<lparr>skipped_metadata := skipped_metadata c + 1\<rparr>)
          else case convert_event e of
                 None \<Rightarrow> Some (c\<lparr>skipped_unknown := skipped_unknown c + 1\<rparr>)
               | Some r \<Rightarrow>
                   if wrote io (length (converted c)) then Some (c\<lparr>converted := converted c @ [r]\<rparr>)
                   else None)"

text \<open>The loop over \<open>n\<close> more events; \<open>None\<close> for a truncated file or a failed write.\<close>

fun convert_events :: "tool_io \<Rightarrow> bool \<Rightarrow> nat \<Rightarrow> u64 \<Rightarrow> replay_event list \<Rightarrow> conversion \<Rightarrow> conversion option" where
  "convert_events io auto_pid 0 index es c = Some c"
| "convert_events io auto_pid (Suc n) index [] c = None"
| "convert_events io auto_pid (Suc n) index (e # es) c =
    (case convert_step io auto_pid index e c of
       None \<Rightarrow> None
     | Some c \<Rightarrow> convert_events io auto_pid n (index + 1) es c)"

text \<open>\<open>fail_conversion\<close>: exit code 1, and the output removed when its path is given.\<close>

definition fail_conversion :: "bool \<Rightarrow> nat \<times> output_file" where
  "fail_conversion has_output_path = (1, if has_output_path then Removed else Untouched)"

text \<open>The part of \<open>main\<close> after the output is opened.\<close>

definition convert_to_output :: "tool_io \<Rightarrow> bool \<Rightarrow> u32 \<Rightarrow> bin_file \<Rightarrow> u64 \<Rightarrow> nat \<times> output_file" where
  "convert_to_output io auto_pid pid f next =
    (if \<not> wrote_header io then fail_conversion True
     else case convert_events io auto_pid (unat next) 0 (bin_events f) (start_conversion pid) of
            None \<Rightarrow> fail_conversion True
          | Some c \<Rightarrow>
              let n = (of_nat (length (converted c)) :: u64)
              in if n = 0 then fail_conversion True
                 else if n > UINT64_MAX div MINI_RPLY_ENTRY_WORDS then fail_conversion True
                 else if \<not> wrote_index io then fail_conversion True
                 else if \<not> closed_output io then fail_conversion True
                 else if \<not> closed_input io then fail_conversion True
                 else (0, Complete \<lparr>index_words = Some (n * MINI_RPLY_ENTRY_WORDS), rply_entries = converted c\<rparr>))"

definition bin_to_rply_main :: "tool_io \<Rightarrow> string list \<Rightarrow> bin_file \<Rightarrow> nat \<times> output_file" where
  "bin_to_rply_main io argv f =
    (if length argv \<noteq> 4 then (2, Untouched)
     else if argv ! 1 = argv ! 3 then (2, Untouched)
     else
       let auto_pid = (argv ! 2 = ''auto''); parsed = (if auto_pid then Some 0 else parse_pid (argv ! 2))
       in case parsed of
            None \<Rightarrow> (2, Untouched)
          | Some pid \<Rightarrow>
              if \<not> open_input io then (1, Untouched)
              else case bin_header f of
                     None \<Rightarrow> fail_conversion False
                   | Some h \<Rightarrow>
                       if \<not> header_is_valid h then fail_conversion False
                       else if runtime_flags h AND MINI_REPLAY_FLAG_OVERFLOW \<noteq> 0 then fail_conversion False
                       else if next_index h > capacity h \<or> next_index h > ucast UINT32_MAX then fail_conversion False
                       else if \<not> open_output io then (1, Untouched)
                       else convert_to_output io auto_pid pid f (next_index h))"

subsection \<open>\<open>rply_to_txt.c\<close>\<close>

definition function_name :: "nat \<Rightarrow> string" where
  "function_name function =
    (if function < MINI_RPLY_FUNCTION_COUNT
     then [''malloc'', ''free'', ''calloc'', ''realloc'', ''free_sized'', ''posix_memalign'', ''aligned_alloc'',
       ''valloc'', ''memalign'', ''pvalloc''] ! function
     else if function = MINI_RPLY_THREAD_CREATE then ''thread_create''
     else if function = MINI_RPLY_THREAD_START then ''thread_start''
     else if function = MINI_RPLY_THREAD_END then ''thread_end''
     else if function = MINI_RPLY_THREAD_JOIN then ''thread_join''
     else if function = MINI_RPLY_THREAD_DETACH then ''thread_detach''
     else ''unknown'')"

function hex_digits :: "nat \<Rightarrow> string" where
  "hex_digits v = (let d = ''0123456789abcdef'' ! (v mod 16) in if v div 16 = 0 then [d] else hex_digits (v div 16) @ [d])"
  by pat_completeness auto
termination by (relation "measure id") auto

declare hex_digits.simps [simp del]

definition hex :: "u64 \<Rightarrow> string" where
  "hex v = ''0x'' @ hex_digits (unat v)"

record text_counts =
  function_counts :: "nat list"
  thread_events :: nat
  unknown_events :: nat

definition count_function :: "nat \<Rightarrow> text_counts \<Rightarrow> text_counts" where
  "count_function function c =
    (if function < MINI_RPLY_FUNCTION_COUNT
     then c\<lparr>function_counts := update_at function Suc (function_counts c)\<rparr>
     else if MINI_RPLY_THREAD_CREATE \<le> function \<and> function \<le> MINI_RPLY_THREAD_DETACH
     then c\<lparr>thread_events := thread_events c + 1\<rparr>
     else c\<lparr>unknown_events := unknown_events c + 1\<rparr>)"

definition entry_function :: "rply_entry \<Rightarrow> nat" where
  "entry_function e = unat (ucast (drop_bit 32 (func_and_cpu e)) :: u32)"

definition record_line :: "u64 \<Rightarrow> rply_entry \<Rightarrow> string" where
  "record_line index e =
    ''record='' @ decimal index @ '' function='' @ function_name (entry_function e) @
    '' function_id='' @ decimal (of_nat (entry_function e)) @
    '' cpu='' @ decimal (ucast (ucast (func_and_cpu e) :: u32)) @
    '' thread_id='' @ decimal (thread_id e) @ '' time_ns='' @ decimal (timestamp e) @
    '' address='' @ hex (entry_address e) @ '' result='' @ hex (entry_result e) @
    '' size='' @ decimal (entry_size e) @ ''\<newline>''"

text \<open>The loop over \<open>n\<close> more records: the text and the counts, and whether the file sufficed.\<close>

fun print_records :: "nat \<Rightarrow> u64 \<Rightarrow> rply_entry list \<Rightarrow> string \<times> text_counts \<Rightarrow> (string \<times> text_counts) \<times> bool" where
  "print_records 0 index es acc = (acc, True)"
| "print_records (Suc n) index [] acc = (acc, False)"
| "print_records (Suc n) index (e # es) (text, c) =
    print_records n (index + 1) es (text @ record_line index e, count_function (entry_function e) c)"

definition summary_line :: "text_counts \<Rightarrow> string" where
  "summary_line c = ''summary'' @
    concat (map (\<lambda>f. '' '' @ function_name f @ ''='' @ decimal (of_nat (function_counts c ! f)))
      [0..<MINI_RPLY_FUNCTION_COUNT]) @
    '' thread_events='' @ decimal (of_nat (thread_events c)) @
    '' unknown='' @ decimal (of_nat (unknown_events c)) @ ''\<newline>''"

text \<open>
  Exit code and text written. The output is \<open>stdout\<close> with two arguments and a file with three.
\<close>

definition rply_to_txt_main :: "tool_io \<Rightarrow> string list \<Rightarrow> rply_file \<Rightarrow> nat \<times> string" where
  "rply_to_txt_main io argv f =
    (if length argv \<noteq> 2 \<and> length argv \<noteq> 3 then (2, [])
     else if length argv = 3 \<and> argv ! 1 = argv ! 2 then (2, [])
     else if \<not> open_input io then (1, [])
     else if length argv = 3 \<and> \<not> open_output io then (1, [])
     else case index_words f of
            None \<Rightarrow> (1, [])
          | Some words \<Rightarrow>
              if words mod MINI_RPLY_ENTRY_WORDS \<noteq> 0 then (1, [])
              else
                let record_count = words div MINI_RPLY_ENTRY_WORDS;
                    text = ''idx_words='' @ decimal words @ '' records='' @ decimal record_count @
                      '' entry_size=48\<newline>'';
                    ((text, c), all_read) = print_records (unat record_count) 0 (rply_entries f)
                      (text, \<lparr>function_counts = replicate MINI_RPLY_FUNCTION_COUNT 0, thread_events = 0,
                        unknown_events = 0\<rparr>)
                in if \<not> all_read then (1, text)
                   else
                     let text = text @ summary_line c
                     in if length argv = 3 \<and> \<not> closed_output io then (1, text)
                        else if \<not> closed_input io then (1, text)
                        else (0, text))"

subsection \<open>\<open>replay_dump.c\<close>\<close>

definition event_name :: "u16 \<Rightarrow> string" where
  "event_name ty =
    (if ty = MINI_REPLAY_PROCESS_START then ''PROCESS_START''
     else if ty = MINI_REPLAY_MALLOC then ''MALLOC''
     else if ty = MINI_REPLAY_FREE then ''FREE''
     else if ty = MINI_REPLAY_CALLOC then ''CALLOC''
     else if ty = MINI_REPLAY_REALLOC then ''REALLOC''
     else if ty = MINI_REPLAY_FREE_SIZED then ''FREE_SIZED''
     else if ty = MINI_REPLAY_POSIX_MEMALIGN then ''POSIX_MEMALIGN''
     else if ty = MINI_REPLAY_ALIGNED_ALLOC then ''ALIGNED_ALLOC''
     else if ty = MINI_REPLAY_VALLOC then ''VALLOC''
     else if ty = MINI_REPLAY_MEMALIGN then ''MEMALIGN''
     else if ty = MINI_REPLAY_PVALLOC then ''PVALLOC''
     else if ty = MINI_REPLAY_THREAD_CREATE then ''THREAD_CREATE''
     else if ty = MINI_REPLAY_THREAD_START then ''THREAD_START''
     else if ty = MINI_REPLAY_THREAD_END then ''THREAD_END''
     else if ty = MINI_REPLAY_THREAD_JOIN then ''THREAD_JOIN''
     else if ty = MINI_REPLAY_THREAD_DETACH then ''THREAD_DETACH''
     else ''UNKNOWN'')"

definition event_line :: "u64 \<Rightarrow> replay_event \<Rightarrow> string" where
  "event_line index e =
    (if sequence e \<noteq> ucast (index + 1)
     then ''event='' @ decimal index @ '' type=INCOMPLETE expected_seq='' @ decimal (index + 1) @
       '' stored_seq='' @ decimal (ucast (sequence e)) @ ''\<newline>''
     else ''event='' @ decimal index @ '' type='' @ event_name (event_type e) @
       '' pid='' @ decimal (ucast (event_pid e)) @ '' tid='' @ decimal (ucast (event_tid e)) @
       '' seq='' @ decimal (ucast (sequence e)) @ '' time_ns='' @ decimal (timestamp_ns e) @
       '' address='' @ hex (address e) @ '' result='' @ hex (event_result e) @
       '' size='' @ decimal (event_bytes e) @ '' flags='' @ hex (ucast (event_flags e)) @ ''\<newline>'')"

record dump_counts =
  committed :: nat
  incomplete :: nat

fun dump_events :: "nat \<Rightarrow> u64 \<Rightarrow> replay_event list \<Rightarrow> string \<times> dump_counts \<Rightarrow> (string \<times> dump_counts) \<times> bool" where
  "dump_events 0 index es acc = (acc, True)"
| "dump_events (Suc n) index [] acc = (acc, False)"
| "dump_events (Suc n) index (e # es) (text, c) =
    dump_events n (index + 1) es
      (text @ event_line index e,
       if sequence e \<noteq> ucast (index + 1) then c\<lparr>incomplete := incomplete c + 1\<rparr>
       else c\<lparr>committed := committed c + 1\<rparr>)"

definition dump_header_ok :: "replay_header \<Rightarrow> bool" where
  "dump_header_ok h \<longleftrightarrow> \<not> (magic h \<noteq> MINI_REPLAY_MAGIC \<or> version h \<noteq> MINI_REPLAY_VERSION \<or>
    header_size h \<noteq> ucast sizeof_header \<or> event_size h \<noteq> ucast sizeof_event \<or>
    init_state h \<noteq> MINI_REPLAY_INIT_READY)"

definition dump_header_line :: "replay_header \<Rightarrow> string" where
  "dump_header_line h = ''version='' @ decimal (ucast (version h)) @ '' header_size='' @ decimal (ucast (header_size h)) @
    '' event_size='' @ decimal (ucast (event_size h)) @ '' pointer_size='' @ decimal (ucast (pointer_size h)) @
    '' endian='' @ decimal (ucast (endian h)) @ '' capacity='' @ decimal (capacity h) @
    '' next_index='' @ decimal (next_index h) @ '' runtime_flags='' @ hex (ucast (runtime_flags h)) @ ''\<newline>''"

definition replay_dump_main :: "tool_io \<Rightarrow> string list \<Rightarrow> bin_file \<Rightarrow> nat \<times> string" where
  "replay_dump_main io argv f =
    (if length argv \<noteq> 2 \<and> length argv \<noteq> 3 then (2, [])
     else if \<not> open_input io then (1, [])
     else if length argv = 3 \<and> \<not> open_output io then (1, [])
     else case bin_header f of
            None \<Rightarrow> (1, [])
          | Some h \<Rightarrow>
              if \<not> dump_header_ok h then (1, [])
              else
                let readable_events = (if next_index h < capacity h then next_index h else capacity h);
                    ((text, c), all_read) = dump_events (unat readable_events) 0 (bin_events f)
                      (dump_header_line h, \<lparr>committed = 0, incomplete = 0\<rparr>);
                    overflow = (runtime_flags h AND MINI_REPLAY_FLAG_OVERFLOW \<noteq> 0)
                in if \<not> all_read then (1, text)
                   else
                     let text = text @ ''summary committed='' @ decimal (of_nat (committed c)) @
                           '' incomplete='' @ decimal (of_nat (incomplete c)) @ '' overflow='' @
                           (if overflow then ''yes'' else ''no'') @ ''\<newline>''
                     in if length argv = 3 \<and> \<not> closed_output io then (1, text)
                        else (if overflow then 1 else 0, text))"

subsection \<open>What a conversion selects\<close>

definition complete_at :: "replay_event list \<Rightarrow> nat \<Rightarrow> bool" where
  "complete_at es i \<longleftrightarrow> sequence (es ! i) = ucast (of_nat i + 1 :: u64)"

text \<open>The process whose events are converted, after the first \<open>n\<close> events.\<close>

definition chosen_pid :: "bool \<Rightarrow> u32 \<Rightarrow> replay_event list \<Rightarrow> nat \<Rightarrow> u32" where
  "chosen_pid auto_pid pid es n =
    (if \<not> auto_pid \<or> pid \<noteq> 0 then pid
     else case filter (\<lambda>i. complete_at es i \<and> event_type (es ! i) = MINI_REPLAY_PROCESS_START \<and> event_pid (es ! i) \<noteq> 0)
            [0..<n] of [] \<Rightarrow> 0 | i # _ \<Rightarrow> event_pid (es ! i))"

definition selected :: "bool \<Rightarrow> u32 \<Rightarrow> replay_event list \<Rightarrow> nat \<Rightarrow> bool" where
  "selected auto_pid pid es i \<longleftrightarrow> complete_at es i \<and> event_pid (es ! i) = chosen_pid auto_pid pid es (i + 1) \<and>
    event_pid (es ! i) \<noteq> 0 \<and> event_type (es ! i) \<noteq> MINI_REPLAY_PROCESS_START \<and> convert_event (es ! i) \<noteq> None"

definition conversion_of :: "bool \<Rightarrow> u32 \<Rightarrow> replay_event list \<Rightarrow> nat \<Rightarrow> rply_entry list" where
  "conversion_of auto_pid pid es n =
    map (\<lambda>i. the (convert_event (es ! i))) (filter (selected auto_pid pid es) [0..<n])"

definition conversion_inv :: "tool_io \<Rightarrow> bool \<Rightarrow> u32 \<Rightarrow> replay_event list \<Rightarrow> nat \<Rightarrow> conversion \<Rightarrow> bool" where
  "conversion_inv io auto_pid pid es n c \<longleftrightarrow>
    target_pid c = chosen_pid auto_pid pid es n \<and>
    converted c = conversion_of auto_pid pid es n \<and>
    (\<forall>k < length (converted c). wrote io k) \<and>
    length (converted c) + skipped_pid c + skipped_metadata c + skipped_incomplete c + skipped_unknown c = n"

lemma conversion_inv_start: "conversion_inv io auto_pid pid es 0 (start_conversion pid)"
  by (simp add: conversion_inv_def start_conversion_def chosen_pid_def conversion_of_def)

lemma chosen_pid_Suc:
  "chosen_pid auto_pid pid es (Suc n) =
    (if auto_pid \<and> chosen_pid auto_pid pid es n = 0 \<and> complete_at es n \<and>
        event_type (es ! n) = MINI_REPLAY_PROCESS_START
     then event_pid (es ! n) else chosen_pid auto_pid pid es n)"
proof (cases "auto_pid \<and> pid = 0")
  case True
  let ?P = "\<lambda>i. complete_at es i \<and> event_type (es ! i) = MINI_REPLAY_PROCESS_START \<and> event_pid (es ! i) \<noteq> 0"
  define L where "L = filter ?P [0..<n]"
  have Suc: "filter ?P [0..<Suc n] = L @ (if ?P n then [n] else [])"
    by (simp add: L_def)
  have "\<forall>i\<in>set L. event_pid (es ! i) \<noteq> 0"
    by (simp add: L_def)
  with True show ?thesis
    unfolding chosen_pid_def Suc L_def [symmetric] by (cases L) auto
qed (auto simp: chosen_pid_def)

lemma conversion_of_Suc:
  "conversion_of auto_pid pid es (Suc n) = conversion_of auto_pid pid es n @
    (if selected auto_pid pid es n then [the (convert_event (es ! n))] else [])"
  by (simp add: conversion_of_def)

lemma convert_step_inv:
  assumes "conversion_inv io auto_pid pid es n c"
  shows "(case convert_step io auto_pid (of_nat n) (es ! n) c of
      None \<Rightarrow> selected auto_pid pid es n \<and> \<not> wrote io (length (conversion_of auto_pid pid es n))
    | Some c' \<Rightarrow> conversion_inv io auto_pid pid es (Suc n) c')"
  using assms
  by (auto simp: convert_step_def conversion_inv_def conversion_of_Suc chosen_pid_Suc Let_def selected_def
      complete_at_def less_Suc_eq split: option.splits)

text \<open>The loop: it stops exactly at the end of the file or at a failed write.\<close>

definition all_written :: "tool_io \<Rightarrow> bool \<Rightarrow> u32 \<Rightarrow> replay_event list \<Rightarrow> nat \<Rightarrow> bool" where
  "all_written io auto_pid pid es n \<longleftrightarrow> (\<forall>k < length (conversion_of auto_pid pid es n). wrote io k)"

lemma conversion_of_mono: "i \<le> n \<Longrightarrow> length (conversion_of a p es i) \<le> length (conversion_of a p es n)"
proof (induction n)
  case (Suc n)
  then show ?case by (cases "i = Suc n") (auto simp: conversion_of_Suc)
qed simp

lemma convert_events_inv:
  assumes "conversion_inv io auto_pid pid es i c" and "i \<le> length es"
  shows "case convert_events io auto_pid n (of_nat i) (drop i es) c of
      None \<Rightarrow> length es < i + n \<or> \<not> all_written io auto_pid pid es (i + n)
    | Some c' \<Rightarrow> i + n \<le> length es \<and> conversion_inv io auto_pid pid es (i + n) c'"
  using assms
proof (induction n arbitrary: i c)
  case (Suc n)
  show ?case
  proof (cases "i < length es")
    case False
    then show ?thesis using Suc.prems by simp
  next
    case True
    then have d: "drop i es = es ! i # drop (Suc i) es" by (simp add: Cons_nth_drop_Suc)
    note step = convert_step_inv [OF Suc.prems(1)]
    show ?thesis
    proof (cases "convert_step io auto_pid (of_nat i) (es ! i) c")
      case None
      then have "length (conversion_of auto_pid pid es i) < length (conversion_of auto_pid pid es (Suc i))"
        "\<not> wrote io (length (conversion_of auto_pid pid es i))"
        using step by (simp_all add: conversion_of_Suc)
      then have "\<not> all_written io auto_pid pid es (i + Suc n)"
        using conversion_of_mono [of "Suc i" "i + Suc n" auto_pid pid es] unfolding all_written_def
        by (metis add_Suc_right le_add1 less_le_trans add_Suc)
      then show ?thesis using d None by simp
    next
      case (Some c')
      have "i + Suc n = Suc i + n" and w: "(of_nat i + 1 :: u64) = of_nat (Suc i)" by simp_all
      then show ?thesis
        using Suc.IH [of "Suc i" c'] step True d Some by (simp only: w convert_events.simps option.case)
    qed
  qed
qed simp

subsection \<open>Properties\<close>

text \<open>A run of the converter that has what it needs.\<close>

definition conversion_ok :: "tool_io \<Rightarrow> string list \<Rightarrow> bin_file \<Rightarrow> replay_header \<Rightarrow> u32 \<Rightarrow> bool" where
  "conversion_ok io argv f h pid \<longleftrightarrow>
    length argv = 4 \<and> argv ! 1 \<noteq> argv ! 3 \<and>
    (if argv ! 2 = ''auto'' then pid = 0 else parse_pid (argv ! 2) = Some pid) \<and>
    bin_header f = Some h \<and> header_is_valid h \<and> runtime_flags h AND MINI_REPLAY_FLAG_OVERFLOW = 0 \<and>
    next_index h \<le> capacity h \<and> next_index h \<le> ucast UINT32_MAX \<and> unat (next_index h) \<le> length (bin_events f) \<and>
    (let a = (argv ! 2 = ''auto''); n = unat (next_index h) in
      conversion_of a pid (bin_events f) n \<noteq> [] \<and> all_written io a pid (bin_events f) n) \<and>
    open_input io \<and> open_output io \<and> wrote_header io \<and> wrote_index io \<and> closed_output io \<and> closed_input io"

lemma conversion_length: "length (conversion_of a p es n) \<le> n"
  by (simp add: conversion_of_def) (metis length_filter_le length_upt diff_zero)

lemma convert_all:
  "case convert_events io a n 0 es (start_conversion pid) of
      None \<Rightarrow> length es < n \<or> \<not> all_written io a pid es n
    | Some c \<Rightarrow> n \<le> length es \<and> conversion_inv io a pid es n c"
  using convert_events_inv [where i = 0 and n = n, OF conversion_inv_start le0, of es io a pid]
  by (simp only: add_0 drop_0 semiring_1_class.of_nat_0)

lemma convert_to_output_spec:
  assumes "next \<le> ucast UINT32_MAX"
  shows "convert_to_output io a pid f next =
    (if wrote_header io \<and> unat next \<le> length (bin_events f) \<and> all_written io a pid (bin_events f) (unat next) \<and>
        conversion_of a pid (bin_events f) (unat next) \<noteq> [] \<and> wrote_index io \<and> closed_output io \<and> closed_input io
     then (0, Complete \<lparr>index_words = Some (of_nat (length (conversion_of a pid (bin_events f) (unat next))) * 6),
       rply_entries = conversion_of a pid (bin_events f) (unat next)\<rparr>)
     else (1, Removed))"
proof (cases "convert_events io a (unat next) 0 (bin_events f) (start_conversion pid)")
  case None
  then show ?thesis
    using convert_all [where io = io and a = a and n = "unat next" and es = "bin_events f" and pid = pid]
    by (auto simp: convert_to_output_def fail_conversion_def)
next
  case (Some c)
  let ?C = "conversion_of a pid (bin_events f) (unat next)"
  have c: "unat next \<le> length (bin_events f)" "converted c = ?C" "all_written io a pid (bin_events f) (unat next)"
    using convert_all [where io = io and a = a and n = "unat next" and es = "bin_events f" and pid = pid] Some
    by (simp_all add: conversion_inv_def all_written_def)
  have "length ?C \<le> 4294967295"
    using conversion_length [of a pid "bin_events f" "unat next"] assms by (simp add: word_le_nat_alt u32_max_u64)
  then have u: "unat (of_nat (length ?C) :: u64) = length ?C" by (simp add: unat_of_nat_u64)
  have "(of_nat (length ?C) :: u64) = 0 \<longleftrightarrow> ?C = []"
    using u by (metis length_0_conv unat_eq_zero)
  moreover have "\<not> of_nat (length ?C) > UINT64_MAX div MINI_RPLY_ENTRY_WORDS"
    using \<open>length ?C \<le> _\<close>
    by (simp add: not_less word_le_nat_alt u unat_div UINT64_MAX_def MINI_RPLY_ENTRY_WORDS_def unat_size_max
        del: unat_of_nat)
  ultimately show ?thesis
    using c Some by (simp add: convert_to_output_def fail_conversion_def Let_def MINI_RPLY_ENTRY_WORDS_def)
qed

text \<open>C25: The converter is exact or leaves nothing. It exits with 0 exactly when the arguments,
  the log and every file operation are right and some event matches; the output then holds, in
  order, precisely the converted events of the chosen process that are complete and of a known
  type (with \<open>auto\<close>, the process of the first complete PROCESS_START and only from there on), and
  its first word counts six words for each. In every other case it exits with another code and
  leaves no output: the path is untouched or the partial file is removed.\<close>

theorem bin_to_rply_exact:
  "bin_to_rply_main io argv f = (code, out) \<Longrightarrow>
    (code = 0 \<longleftrightarrow> (\<exists>h pid. conversion_ok io argv f h pid)) \<and>
    (\<forall>h pid. conversion_ok io argv f h pid \<longrightarrow>
      (let entries = conversion_of (argv ! 2 = ''auto'') pid (bin_events f) (unat (next_index h)) in
        out = Complete \<lparr>index_words = Some (of_nat (length entries) * MINI_RPLY_ENTRY_WORDS),
          rply_entries = entries\<rparr>)) \<and>
    (code \<noteq> 0 \<longrightarrow> out = Untouched \<or> out = Removed)"
  by (auto simp: bin_to_rply_main_def conversion_ok_def convert_to_output_spec fail_conversion_def Let_def not_less
      MINI_RPLY_ENTRY_WORDS_def split: option.splits if_splits)

definition perfect_io :: tool_io where
  "perfect_io = \<lparr>open_input = True, open_output = True, wrote_header = True, wrote = (\<lambda>_. True),
    wrote_index = True, closed_output = True, closed_input = True\<rparr>"

definition sample_event :: replay_event where
  "sample_event = zero_event\<lparr>event_pid := 7, event_tid := 1, event_result := 64, event_bytes := 10, sequence := 2\<rparr>"

definition sample_bin :: bin_file where
  "sample_bin = \<lparr>bin_header = Some \<lparr>magic = MINI_REPLAY_MAGIC, capacity = 3, next_index = 2, version = 3,
      header_size = 64, event_size = 48, pointer_size = 8, endian = 1, header_flags = 0, init_state = 2,
      runtime_flags = 0, reserved0 = 0, reserved1 = [0, 0]\<rparr>,
    bin_events = [sample_event\<lparr>event_type := MINI_REPLAY_PROCESS_START, sequence := 1\<rparr>, sample_event]\<rparr>"

theorem bin_to_rply_exact_witness:
  "\<exists>e. bin_to_rply_main perfect_io [''b'', ''in'', ''auto'', ''out''] sample_bin =
    (0, Complete \<lparr>index_words = Some 6, rply_entries = [e]\<rparr>) \<and> entry_result e = 64"
proof -
  let ?argv = "[''b'', ''in'', ''auto'', ''out'']"
  obtain code out where m: "bin_to_rply_main perfect_io ?argv sample_bin = (code, out)" by fastforce
  have sel: "selected True 0 (bin_events sample_bin) 1" "\<not> selected True 0 (bin_events sample_bin) 0"
    by (simp_all add: selected_def complete_at_def chosen_pid_def sample_bin_def sample_event_def zero_event_def
        event_types convert_event_def MINI_RPLY_FUNCTION_COUNT_def)
  obtain h where h: "bin_header sample_bin = Some h" "next_index h = 2"
    by (simp add: sample_bin_def)
  have c: "conversion_of True 0 (bin_events sample_bin) 2 = [the (convert_event sample_event)]"
    using sel by (simp add: conversion_of_def numeral_2_eq_2) (simp add: sample_bin_def)
  have "conversion_ok perfect_io ?argv sample_bin h 0"
    using c h by (auto simp: conversion_ok_def perfect_io_def all_written_def sample_bin_def header_is_valid_def
        MINI_REPLAY_VERSION_def sizeof_header_def sizeof_event_def MINI_REPLAY_ENDIAN_LITTLE_def
        MINI_REPLAY_INIT_READY_def word_le_nat_alt u32_max_u64)
  with bin_to_rply_exact [OF m] have "code = 0"
    "out = Complete \<lparr>index_words = Some (of_nat (length [the (convert_event sample_event)]) * MINI_RPLY_ENTRY_WORDS),
      rply_entries = [the (convert_event sample_event)]\<rparr>"
    unfolding Let_def using c h by auto
  then show ?thesis
    by (simp add: m MINI_RPLY_ENTRY_WORDS_def convert_event_def sample_event_def zero_event_def
        MINI_RPLY_FUNCTION_COUNT_def)
qed

subsection \<open>From the hook to the trace\<close>

lemma of_char_less_digit: "c \<in> set ''0123456789'' \<Longrightarrow> is_digit c \<and> \<not> is_space c \<and> c \<noteq> CHR ''-'' \<and> c \<noteq> CHR ''+''"
  by (auto simp: is_digit_def is_space_def)

lemma strtoul10_decimal: "strtoul10 (decimal v) = (v, [], False)"
proof -
  have chars: "\<forall>c\<in>set (decimal v). c \<in> set ''0123456789''" and ne: "decimal v \<noteq> []"
    using digits_chars [of v] by (auto simp: decimal_def simp del: set_simps)
  have d: "\<forall>c\<in>set (decimal v). is_digit c \<and> \<not> is_space c \<and> c \<noteq> CHR ''-'' \<and> c \<noteq> CHR ''+''"
    using chars of_char_less_digit by blast
  then have sp: "dropWhile is_space (decimal v) = decimal v"
    using ne by (cases "decimal v") simp_all
  have hd: "hd (decimal v) \<noteq> CHR ''-''" "hd (decimal v) \<noteq> CHR ''+''"
    using d ne by (cases "decimal v"; simp)+
  have tw: "takeWhile is_digit (decimal v) = decimal v" "dropWhile is_digit (decimal v) = []"
    using d by simp_all
  have s2: "(if decimal v \<noteq> [] \<and> (hd (decimal v) = CHR ''-'' \<or> hd (decimal v) = CHR ''+'') then tl (decimal v)
      else decimal v) = decimal v"
    using hd by simp
  have "read_decimal (decimal v) < 2 ^ 64"
    using unsigned_less [where 'a = nat, of v] by (simp add: read_decimal_decimal)
  then show ?thesis
    unfolding strtoul10_def Let_def sp s2 tw using hd ne by (simp add: read_decimal_decimal)
qed

lemma parse_pid_decimal:
  assumes "pid \<noteq> (0 :: u32)"
  shows "parse_pid (decimal (ucast pid)) = Some pid"
proof -
  have u: "unat (ucast pid :: u64) = unat pid"
    using unsigned_less [where 'a = nat, of pid] by (simp add: unsigned_ucast_eq take_bit_nat_eq_self)
  have "(ucast pid :: u64) \<noteq> 0"
    using assms u by (metis unat_eq_zero)
  moreover have "\<not> (ucast pid :: u64) > ucast UINT32_MAX"
    using unsigned_less [where 'a = nat, of pid] by (simp add: not_less word_le_nat_alt u u32_max_u64)
  moreover have "decimal (ucast pid) \<noteq> []"
    using digits_chars [of "ucast pid"] by (simp add: decimal_def)
  moreover have "ucast (ucast pid :: u64) = pid"
    by (rule bit_word_eqI) (auto simp: bit_simps)
  ultimately show ?thesis
    unfolding parse_pid_def strtoul10_decimal by (simp add: Let_def)
qed

lemma log_step_header:
  assumes "log_step env c c'" and "log_inv env progs c hist" and "replay_header (log c) = Some h"
  shows "\<exists>i. replay_header (log c') = Some (h\<lparr>next_index := i\<rparr>)"
  using assms(1)
proof (cases rule: log_step.cases)
  case (reserve t a as st i)
  then show ?thesis
    using assms(3) by (auto simp: reserve_event_slot_def Let_def split: if_splits)
next
  case (fill t i a st u)
  have "instances_ok (log c)" using assms(2) unfolding log_inv_def by blast
  then show ?thesis
    using fill_event_Inr(1) [OF fill(3)] assms(3) fill(1) by (intro exI [of _ "next_index h"]) simp
next
  case (publish t i a)
  then show ?thesis
    using assms(3) by (intro exI [of _ "next_index h"]) (simp add: publish_event_def)
qed

lemma log_steps_header:
  assumes "(log_step env)\<^sup>*\<^sup>* c c'" and "log_inv env progs c hist" and "replay_header (log c) = Some h"
  shows "\<exists>i. replay_header (log c') = Some (h\<lparr>next_index := i\<rparr>)"
  using assms
proof (induction arbitrary: hist h rule: converse_rtranclp_induct)
  case base
  then show ?case by (intro exI [of _ "next_index h"]) simp
next
  case (step c c1)
  obtain i where i: "replay_header (log c1) = Some (h\<lparr>next_index := i\<rparr>)"
    using log_step_header [OF step(1,4,5)] by blast
  obtain hist1 where "log_inv env progs c1 hist1"
    using log_inv_step [OF step(1,4)] by blast
  from step.IH [OF this i] show ?case by simp
qed

text \<open>The file a finished log leaves.\<close>

definition bin_of :: "capture_state \<Rightarrow> bin_file" where
  "bin_of st = \<lparr>bin_header = replay_header st,
    bin_events = map (\<lambda>i. replay_events st (of_nat i)) [0..<unat (next_index (the (replay_header st)))]\<rparr>"

text \<open>What a trace entry says of the call, its time excepted.\<close>

definition entry_view :: "rply_entry \<Rightarrow> u64 \<times> u64 \<times> u64 \<times> u64 \<times> u64" where
  "entry_view r = (func_and_cpu r, thread_id r, entry_address r, entry_result r, entry_size r)"

definition call_view :: "capture_state \<Rightarrow> u64 \<times> event_args \<Rightarrow> u64 \<times> u64 \<times> u64 \<times> u64 \<times> u64" where
  "call_view st = (\<lambda>(t, a). (push_bit 32 (ucast (arg_type a)), ucast (current_thread_instance st t),
    arg_address a, arg_result a, arg_size a))"

text \<open>The calls a trace keeps: all but PROCESS_START.\<close>

definition traced :: "event_args \<Rightarrow> bool" where
  "traced a \<longleftrightarrow> unat (arg_type a) < MINI_RPLY_FUNCTION_COUNT \<or>
    MINI_RPLY_THREAD_CREATE \<le> unat (arg_type a) \<and> unat (arg_type a) \<le> MINI_RPLY_THREAD_DETACH"

lemma conversion_of_log:
  assumes "length es = length hist" and "pid \<noteq> 0"
    and "\<And>i. i < length hist \<Longrightarrow> sequence (es ! i) = ucast (of_nat i + 1 :: u64) \<and> describes env st (es ! i) (hist ! i)"
    and "env_pid env = pid" and "n = length hist"
  shows "map entry_view (conversion_of False pid es n) = map (call_view st) (filter (\<lambda>(t, a). traced a) hist)"
proof -
  have sel: "selected False pid es i \<longleftrightarrow> traced (snd (hist ! i))" and view: "traced (snd (hist ! i)) \<Longrightarrow>
      entry_view (the (convert_event (es ! i))) = call_view st (hist ! i)" if "i < length hist" for i
  proof -
    obtain t a where h: "hist ! i = (t, a)" by fastforce
    have e: "event_type (es ! i) = arg_type a" "event_pid (es ! i) = pid" "address (es ! i) = arg_address a"
        "event_result (es ! i) = arg_result a" "event_bytes (es ! i) = arg_size a"
        "event_tid (es ! i) = current_thread_instance st t" "complete_at es i"
      using assms(3) [OF that] assms(4) h by (simp_all add: describes_def complete_at_def)
    have ps: "traced a \<Longrightarrow> arg_type a \<noteq> MINI_REPLAY_PROCESS_START"
      by (auto simp: traced_def MINI_REPLAY_PROCESS_START_def MINI_RPLY_FUNCTION_COUNT_def MINI_RPLY_THREAD_DETACH_def)
    have cv: "convert_event (es ! i) \<noteq> None \<longleftrightarrow> traced a"
      by (auto simp: convert_event_def traced_def e)
    show "selected False pid es i \<longleftrightarrow> traced (snd (hist ! i))"
      unfolding selected_def cv h using e ps assms(2) by (auto simp: chosen_pid_def)
    show "entry_view (the (convert_event (es ! i))) = call_view st (hist ! i)" if "traced (snd (hist ! i))"
      using that cv e by (auto simp: convert_event_def entry_view_def call_view_def h split: if_splits)
  qed
  have "map entry_view (conversion_of False pid es n) =
      map (\<lambda>i. call_view st (hist ! i)) (filter (\<lambda>i. traced (snd (hist ! i))) [0..<length hist])"
    using sel view by (auto simp: conversion_of_def assms(5) intro!: map_cong filter_cong)
  also have "\<dots> = map (call_view st) (filter (\<lambda>x. traced (snd x)) (map ((!) hist) [0..<length hist]))"
    by (simp add: filter_map comp_def)
  finally show ?thesis
    by (simp add: map_nth case_prod_beta')
qed

text \<open>A finished run of the writers.\<close>

definition finished :: "log_system \<Rightarrow> bool" where
  "finished c \<longleftrightarrow> writers c = (\<lambda>_. Between) \<and> todo c = (\<lambda>_. [])"

lemma finished_log:
  assumes "log_start progs c0" and "(log_step env)\<^sup>*\<^sup>* c0 c" and "finished c"
    and "replay_header (log c0) = Some h0"
  obtains hist where "replay_header (log c) = Some (h0\<lparr>next_index := of_nat (length hist)\<rparr>)"
    and "\<forall>t. map snd (filter (\<lambda>x. fst x = t) hist) = progs t"
    and "length hist \<le> unat (capacity h0)" and "capacity h0 \<le> ucast UINT32_MAX"
    and "\<forall>i<length hist. sequence (replay_events (log c) (of_nat i)) = ucast (of_nat i + 1 :: u64) \<and>
      describes env (log c) (replay_events (log c) (of_nat i)) (hist ! i)"
proof -
  obtain hist where inv: "log_inv env progs c hist"
    using log_inv_steps [OF assms(2) log_inv_start [OF assms(1)]] by blast
  obtain k where k: "replay_header (log c) = Some (h0\<lparr>next_index := k\<rparr>)"
    using log_steps_header [OF assms(2) log_inv_start [OF assms(1)] assms(4)] by blast
  have h: "k = of_nat (length hist)" "length hist \<le> unat (capacity h0)" "capacity h0 \<le> ucast UINT32_MAX"
    using inv unfolding log_inv_def by (auto simp: k)
  have len: "length hist \<le> 4294967295"
    using h(2,3) by (simp add: word_le_nat_alt u32_max_u64)
  have "sequence (replay_events (log c) (of_nat i)) = ucast (of_nat i + 1 :: u64) \<and>
      describes env (log c) (replay_events (log c) (of_nat i)) (hist ! i)" if "i < length hist" for i
  proof -
    have u: "unat (of_nat i :: u64) = i" using that len by (simp add: unat_of_nat_u64)
    have "if unat (of_nat i :: u64) < length hist then slot_ok env c (of_nat i) (hist ! unat (of_nat i :: u64))
        else sequence (replay_events (log c) (of_nat i)) = 0"
      using inv unfolding log_inv_def by blast
    then have "slot_ok env c (of_nat i) (hist ! i)"
      unfolding u using that by simp
    then show ?thesis
      using assms(3) by (cases "hist ! i") (auto simp: slot_ok_def finished_def Let_def)
  qed
  moreover have "\<forall>t. map snd (filter (\<lambda>x. fst x = t) hist) = progs t"
    using inv assms(3) unfolding log_inv_def finished_def by simp
  ultimately show ?thesis
    using that k h by simp
qed

text \<open>C26: From the hook to the trace nothing is lost. When every writer has finished, the file the
  log leaves is converted, for the process that wrote it, to a trace that lists exactly the calls
  the threads made, other than process starts: some interleaving of the threads' call sequences,
  each with its function, thread instance, address, result and size.\<close>

theorem capture_to_trace:
  assumes "log_start progs c0" and "(log_step env)\<^sup>*\<^sup>* c0 c" and "finished c"
    and "replay_header (log c0) = Some h0" and "header_is_valid h0" and "runtime_flags h0 = 0"
    and "env_pid env \<noteq> 0" and "\<exists>t. \<exists>a\<in>set (progs t). traced a"
    and "input \<noteq> output"
  shows "\<exists>hist entries. (\<forall>t. map snd (filter (\<lambda>x. fst x = t) hist) = progs t) \<and>
    bin_to_rply_main perfect_io [tool, input, decimal (ucast (env_pid env)), output] (bin_of (log c)) =
      (0, Complete \<lparr>index_words = Some (of_nat (length entries) * MINI_RPLY_ENTRY_WORDS), rply_entries = entries\<rparr>) \<and>
    map entry_view entries = map (call_view (log c)) (filter (\<lambda>(t, a). traced a) hist)"
proof -
  obtain hist where hist: "replay_header (log c) = Some (h0\<lparr>next_index := of_nat (length hist)\<rparr>)"
    "\<forall>t. map snd (filter (\<lambda>x. fst x = t) hist) = progs t"
    "length hist \<le> unat (capacity h0)" "capacity h0 \<le> ucast UINT32_MAX"
    and ev: "\<forall>i<length hist. sequence (replay_events (log c) (of_nat i)) = ucast (of_nat i + 1 :: u64) \<and>
      describes env (log c) (replay_events (log c) (of_nat i)) (hist ! i)"
    using finished_log [OF assms(1-4)] .
  let ?f = "bin_of (log c)" and ?pid = "env_pid env" and ?argv = "[tool, input, decimal (ucast (env_pid env)), output]"
  have len: "length hist \<le> 4294967295"
    using hist(3,4) by (simp add: word_le_nat_alt u32_max_u64)
  then have n: "unat (of_nat (length hist) :: u64) = length hist" by (simp add: unat_of_nat_u64)
  have events: "length (bin_events ?f) = length hist"
    "\<And>i. i < length hist \<Longrightarrow> bin_events ?f ! i = replay_events (log c) (of_nat i)"
    by (simp_all add: bin_of_def hist(1) n)
  define C where "C = conversion_of False ?pid (bin_events ?f) (length hist)"
  have view: "map entry_view C = map (call_view (log c)) (filter (\<lambda>(t, a). traced a) hist)"
    unfolding C_def using ev by (intro conversion_of_log events(1) assms(7)) (simp_all add: events)
  have "\<exists>x\<in>set hist. traced (snd x)"
    using assms(8) hist(2) by (metis (no_types, lifting) filter_is_subset imageE list.set_map subsetD)
  then have "filter (\<lambda>(t, a). traced a) hist \<noteq> []"
    by (auto simp: filter_empty_conv)
  then have ne: "C \<noteq> []"
    using view by auto
  have auto: "decimal (ucast ?pid) \<noteq> ''auto''"
    using digits_chars [of "ucast ?pid"] by (auto simp: decimal_def rev_swap)
  have le: "\<not> capacity h0 < of_nat (length hist)" "\<not> ucast UINT32_MAX < (of_nat (length hist) :: u64)"
    unfolding word_less_nat_alt n u32_max_u64 using hist(3) len by simp_all
  have "bin_to_rply_main perfect_io ?argv ?f = convert_to_output perfect_io False ?pid ?f (of_nat (length hist))"
    using assms(5,6,9) auto n le
    by (simp add: bin_to_rply_main_def parse_pid_decimal [OF assms(7)] perfect_io_def bin_of_def hist(1)
        header_is_valid_def)
  also have "\<dots> = (0, Complete \<lparr>index_words = Some (of_nat (length C) * MINI_RPLY_ENTRY_WORDS), rply_entries = C\<rparr>)"
    using ne n len events(1)
    by (subst convert_to_output_spec) (simp_all add: word_le_nat_alt u32_max_u64 C_def perfect_io_def all_written_def
        MINI_RPLY_ENTRY_WORDS_def)
  finally show ?thesis
    using hist(2) view by blast
qed

definition ready_header :: replay_header where
  "ready_header = \<lparr>magic = MINI_REPLAY_MAGIC, capacity = 3, next_index = 0, version = 3,
      header_size = 64, event_size = 48, pointer_size = 8, endian = 1, header_flags = 0, init_state = 2,
      runtime_flags = 0, reserved0 = 0, reserved1 = [0, 0]\<rparr>"

theorem capture_to_trace_witness:
  "\<exists>c entries. finished c \<and>
    bin_to_rply_main perfect_io [''bin_to_rply'', ''a.bin'', decimal 7, ''a.rply''] (bin_of (log c)) =
      (0, Complete \<lparr>index_words = Some (of_nat (length entries) * MINI_RPLY_ENTRY_WORDS), rply_entries = entries\<rparr>)"
proof -
  define progs where "progs t = (if t = 5 then [sample_args] else [])" for t :: u64
  define st0 where "st0 = sample_capture\<lparr>replay_header := Some ready_header\<rparr>"
  let ?start = "\<lparr>log = st0, writers = \<lambda>_. Between, todo = progs\<rparr>"
  have start: "log_start progs ?start"
    by (simp add: log_start_def st0_def ready_header_def sample_capture_def zero_event_def instances_ok_def
        word_le_nat_alt u32_max_u64)
  define st1 where "st1 = st0\<lparr>replay_header := Some (ready_header\<lparr>next_index := 1\<rparr>)\<rparr>"
  have "reserve_event_slot st0 = Inr (st1, 0)"
    by (simp add: reserve_event_slot_def st0_def st1_def ready_header_def)
  note reserved = this
  define c1 where "c1 = ?start\<lparr>log := st1, writers := (writers ?start)(5 := Reserved 0 sample_args),
      todo := (todo ?start)(5 := [])\<rparr>"
  have s1: "log_step sample_env ?start c1"
    unfolding c1_def using reserved
    by (intro log_step.reserve [where a = sample_args and as = "[]"]) (simp_all add: progs_def UINT64_MAX_def)
  have "\<exists>st2. fill_event sample_env 5 0 sample_args st1 = Inr (st2, ())"
    by (simp add: fill_event_def get_thread_instance_def allocate_thread_instance_def Let_def st1_def st0_def
        sample_capture_def monotonic_time_ns_def)
  then obtain st2 where f: "fill_event sample_env 5 0 sample_args st1 = Inr (st2, ())" ..
  define c2 where "c2 = c1\<lparr>log := st2, writers := (writers c1)(5 := Filled 0 sample_args)\<rparr>"
  have s2: "log_step sample_env c1 c2"
    unfolding c2_def by (rule log_step.fill [where u = "()"]) (simp_all add: f c1_def)
  define c3 where "c3 = c2\<lparr>log := publish_event 0 (log c2), writers := (writers c2)(5 := Between)\<rparr>"
  have s3: "log_step sample_env c2 c3"
    unfolding c3_def by (rule log_step.publish [where a = sample_args]) (simp add: c2_def)
  have steps: "(log_step sample_env)\<^sup>*\<^sup>* ?start c3"
    by (rule converse_rtranclp_into_rtranclp, rule s1, rule converse_rtranclp_into_rtranclp, rule s2,
      rule r_into_rtranclp, rule s3)
  have fin: "finished c3"
    by (auto simp: finished_def progs_def c1_def c2_def c3_def)
  have h0: "replay_header (log ?start) = Some ready_header" by (simp add: st0_def)
  have valid: "header_is_valid ready_header" "runtime_flags ready_header = 0"
    by (simp_all add: header_is_valid_def ready_header_def MINI_REPLAY_VERSION_def sizeof_header_def sizeof_event_def
        MINI_REPLAY_ENDIAN_LITTLE_def MINI_REPLAY_INIT_READY_def)
  have call: "\<exists>t. \<exists>a\<in>set (progs t). traced a"
    by (intro exI [of _ 5]) (simp add: progs_def sample_args_def traced_def MINI_REPLAY_MALLOC_def
        MINI_RPLY_FUNCTION_COUNT_def)
  have "env_pid sample_env \<noteq> 0" "(''a.bin'' :: string) \<noteq> ''a.rply''" "ucast (env_pid sample_env) = (7 :: u64)"
    by (simp_all add: sample_env_def)
  note env = this
  obtain entries where "bin_to_rply_main perfect_io [''bin_to_rply'', ''a.bin'', decimal (ucast (env_pid sample_env)),
        ''a.rply''] (bin_of (log c3)) =
      (0, Complete \<lparr>index_words = Some (of_nat (length entries) * MINI_RPLY_ENTRY_WORDS), rply_entries = entries\<rparr>)"
    using capture_to_trace [OF start steps fin h0 valid env(1) call env(2), of "''bin_to_rply''"] by blast
  note this [unfolded env(3)]
  then show ?thesis using fin by blast
qed

subsection \<open>The printers\<close>

lemma dump_events_all:
  assumes "i + n \<le> length es"
  shows "dump_events n (of_nat i) (drop i es) (out, c) =
    ((out @ concat (map (\<lambda>j. event_line (of_nat j) (es ! j)) [i..<i + n]),
      c\<lparr>committed := committed c + length (filter (complete_at es) [i..<i + n]),
        incomplete := incomplete c + length (filter (\<lambda>j. \<not> complete_at es j) [i..<i + n])\<rparr>), True)"
  using assms
proof (induction n arbitrary: i out c)
  case (Suc n)
  then have d: "drop i es = es ! i # drop (Suc i) es" by (simp add: Cons_nth_drop_Suc)
  have w: "(of_nat i + 1 :: u64) = of_nat (Suc i)" by simp
  have u: "[i..<i + Suc n] = i # [Suc i..<Suc i + n]" by (simp add: upt_conv_Cons)
  have ce: "sequence (es ! i) \<noteq> ucast (of_nat (Suc i) :: u64) \<longleftrightarrow> \<not> complete_at es i"
    by (simp add: complete_at_def add.commute)
  have "Suc i + n \<le> length es" using Suc.prems by simp
  note ih = Suc.IH [OF this]
  show ?case
    unfolding d dump_events.simps w ih u ce by simp
qed simp

lemma dump_events_short: "length es < n \<Longrightarrow> \<not> snd (dump_events n i es acc)"
  by (induction n i es acc rule: dump_events.induct) auto

definition count_entries :: "rply_entry list \<Rightarrow> text_counts \<Rightarrow> text_counts" where
  "count_entries rs c = foldl (\<lambda>c r. count_function (entry_function r) c) c rs"

lemma print_records_all:
  assumes "i + n \<le> length rs"
  shows "print_records n (of_nat i) (drop i rs) (out, c) =
    ((out @ concat (map (\<lambda>j. record_line (of_nat j) (rs ! j)) [i..<i + n]),
      count_entries (take n (drop i rs)) c), True)"
  using assms
proof (induction n arbitrary: i out c)
  case (Suc n)
  then have d: "drop i rs = rs ! i # drop (Suc i) rs" by (simp add: Cons_nth_drop_Suc)
  have w: "(of_nat i + 1 :: u64) = of_nat (Suc i)" by simp
  have u: "[i..<i + Suc n] = i # [Suc i..<Suc i + n]" by (simp add: upt_conv_Cons)
  have "Suc i + n \<le> length rs" using Suc.prems by simp
  note ih = Suc.IH [OF this]
  show ?case
    unfolding d print_records.simps w ih u by (simp add: count_entries_def)
qed (simp add: count_entries_def)

lemma print_records_short: "length rs < n \<Longrightarrow> \<not> snd (print_records n i rs acc)"
  by (induction n i rs acc rule: print_records.induct) auto

lemma count_entries_snoc: "count_entries (rs @ [r]) c = count_function (entry_function r) (count_entries rs c)"
  by (simp add: count_entries_def)

definition no_counts :: text_counts where
  "no_counts = \<lparr>function_counts = replicate MINI_RPLY_FUNCTION_COUNT 0, thread_events = 0, unknown_events = 0\<rparr>"

lemma sum_list_update_Suc: "f < length xs \<Longrightarrow> sum_list (update_at f Suc xs) = Suc (sum_list (xs :: nat list))"
  by (induction xs arbitrary: f) (auto simp: update_at_def nth_Cons split: nat.splits)

lemma count_entries_exact:
  "length (function_counts (count_entries rs no_counts)) = MINI_RPLY_FUNCTION_COUNT \<and>
    (\<forall>f < MINI_RPLY_FUNCTION_COUNT. function_counts (count_entries rs no_counts) ! f =
      length (filter (\<lambda>r. entry_function r = f) rs)) \<and>
    sum_list (function_counts (count_entries rs no_counts)) + thread_events (count_entries rs no_counts) +
      unknown_events (count_entries rs no_counts) = length rs"
proof (induction rs rule: rev_induct)
  case Nil
  then show ?case by (simp add: count_entries_def no_counts_def)
next
  case (snoc r rs)
  then show ?case
    unfolding count_entries_snoc
    by (auto simp: count_function_def sum_list_update_Suc)
qed

text \<open>Both printers account for every record. A dump of a file that holds the readable events
  prints one line for each in order and counts each as committed or as incomplete by its sequence
  number; a printed trace has one line for each record in order, the counts of its summary are,
  function by function, those of its records, and every record is counted exactly once. A file
  that ends early is reported as truncated.\<close>

theorem printers_account_for_all:
  assumes "dump_events n 0 es (out, \<lparr>committed = 0, incomplete = 0\<rparr>) = ((out1, c), all1)"
    and "print_records k 0 rs (out, no_counts) = ((out2, d), all2)"
  shows "(all1 \<longleftrightarrow> n \<le> length es) \<and> (all2 \<longleftrightarrow> k \<le> length rs) \<and>
    (all1 \<longrightarrow> out1 = out @ concat (map (\<lambda>i. event_line (of_nat i) (es ! i)) [0..<n]) \<and>
      committed c = length (filter (complete_at es) [0..<n]) \<and>
      incomplete c = length (filter (\<lambda>i. \<not> complete_at es i) [0..<n])) \<and>
    (all2 \<longrightarrow> out2 = out @ concat (map (\<lambda>i. record_line (of_nat i) (rs ! i)) [0..<k]) \<and>
      (\<forall>f < MINI_RPLY_FUNCTION_COUNT. function_counts d ! f =
        length (filter (\<lambda>r. entry_function r = f) (take k rs))) \<and>
      sum_list (function_counts d) + thread_events d + unknown_events d = k)"
proof -
  have 1: "n \<le> length es \<Longrightarrow> dump_events n 0 es (out, \<lparr>committed = 0, incomplete = 0\<rparr>) =
      ((out @ concat (map (\<lambda>j. event_line (of_nat j) (es ! j)) [0..<n]),
      \<lparr>committed = length (filter (complete_at es) [0..<n]),
        incomplete = length (filter (\<lambda>j. \<not> complete_at es j) [0..<n])\<rparr>), True)"
    using dump_events_all [of 0 n es out "\<lparr>committed = 0, incomplete = 0\<rparr>"] by simp
  have 2: "k \<le> length rs \<Longrightarrow> print_records k 0 rs (out, no_counts) =
      ((out @ concat (map (\<lambda>j. record_line (of_nat j) (rs ! j)) [0..<k]), count_entries (take k rs) no_counts), True)"
    using print_records_all [of 0 k rs out no_counts] by simp
  have "length es < n \<Longrightarrow> \<not> all1" "length rs < k \<Longrightarrow> \<not> all2"
    using dump_events_short [of es n 0] print_records_short [of rs k 0] assms by (metis snd_conv)+
  then show ?thesis
    using assms 1 2 count_entries_exact [of "take k rs"]
    by (cases "n \<le> length es"; cases "k \<le> length rs") (simp_all add: not_le)
qed

theorem printers_account_for_all_witness:
  "committed (snd (fst (dump_events 2 0 [sample_event, sample_event] ([], \<lparr>committed = 0, incomplete = 0\<rparr>)))) = 1"
proof -
  obtain t1 c a1 where d: "dump_events 2 0 [sample_event, sample_event] ([], \<lparr>committed = 0, incomplete = 0\<rparr>) = ((t1, c), a1)"
    by (metis surj_pair)
  obtain t2 e a2 where p: "print_records 0 0 [] ([], no_counts) = ((t2, e), a2)"
    by (metis surj_pair)
  have "filter (complete_at [sample_event, sample_event]) [0..<2] = [1]"
    using upt_rec [of 0 2] by (simp add: upt_rec complete_at_def sample_event_def zero_event_def)
  then show ?thesis
    using printers_account_for_all [OF d p] by (simp add: d)
qed

end
