(* ===== verification/Schedules.thy ===== *)
theory Schedules
  imports Prelude
begin

text \<open>
  A schedule lists the operations of several workers in one order, each with its worker. Each worker
  does its own operations in that order; how far each of them is says which operations are done.
\<close>

definition ops_of :: "('k \<times> 'a) list \<Rightarrow> 'k \<Rightarrow> 'a list" where
  "ops_of s w = map snd (filter (\<lambda>x. fst x = w) s)"

lemma ops_of_snoc [simp]:
  "ops_of [] w = []" "ops_of (s @ [(v, o1)]) w = ops_of s w @ (if v = w then [o1] else [])"
  by (simp_all add: ops_of_def)

text \<open>The positions in the schedule of the operations of \<open>w\<close>; \<open>pos w\<close> of them are done.\<close>

definition idxs :: "(nat \<times> 'a) list \<Rightarrow> nat \<Rightarrow> nat list" where
  "idxs s w = filter (\<lambda>k. fst (s ! k) = w) [0..<length s]"

definition fin :: "(nat \<times> 'a) list \<Rightarrow> (nat \<Rightarrow> nat) \<Rightarrow> nat \<Rightarrow> bool" where
  "fin s pos k \<longleftrightarrow> k < length s \<and> k \<in> set (take (pos (fst (s ! k))) (idxs s (fst (s ! k))))"

definition cur :: "(nat \<times> 'a) list \<Rightarrow> (nat \<Rightarrow> nat) \<Rightarrow> nat \<Rightarrow> nat" where
  "cur s pos w = idxs s w ! pos w"

lemma idxs_props:
  "distinct (idxs s w)" "sorted (idxs s w)" "set (idxs s w) = {k. k < length s \<and> fst (s ! k) = w}"
  by (auto simp: idxs_def sorted_wrt_filter)

lemma ops_of_idxs: "ops_of s w = map (\<lambda>k. snd (s ! k)) (idxs s w)"
proof -
  have "filter (\<lambda>x. fst x = w) s = map (\<lambda>k. s ! k) (idxs s w)"
  proof -
    have "filter (\<lambda>x. fst x = w) (map (\<lambda>k. s ! k) [0..<length s]) = map (\<lambda>k. s ! k) (idxs s w)"
      unfolding idxs_def filter_map by (simp add: comp_def)
    then show ?thesis by (simp only: map_nth)
  qed
  then show ?thesis by (simp add: ops_of_def)
qed

definition busy :: "(nat \<times> 'a) list \<Rightarrow> (nat \<Rightarrow> nat) \<Rightarrow> nat \<Rightarrow> bool" where
  "busy s pos w \<longleftrightarrow> pos w < length (idxs s w)"

lemma cur_props:
  assumes "busy s pos w"
  shows "cur s pos w < length s" and "fst (s ! cur s pos w) = w" and "\<not> fin s pos (cur s pos w)"
    and "fin s (pos(w := pos w + 1)) k \<longleftrightarrow> fin s pos k \<or> k = cur s pos w"
proof -
  have "cur s pos w \<in> set (idxs s w)"
    using assms by (simp add: cur_def busy_def)
  then show c: "cur s pos w < length s" "fst (s ! cur s pos w) = w"
    by (auto simp: idxs_props)
  have "cur s pos w \<notin> set (take (pos w) (idxs s w))"
    using assms [unfolded busy_def] idxs_props(1) [of s w]
    by (metis cur_def distinct.simps(2) id_take_nth_drop in_set_conv_decomp not_distinct_conv_prefix
        distinct_append disjoint_iff list.set_intros(1))
  with c show "\<not> fin s pos (cur s pos w)"
    by (simp add: fin_def)
  show "fin s (pos(w := pos w + 1)) k \<longleftrightarrow> fin s pos k \<or> k = cur s pos w"
    using assms c by (auto simp: fin_def take_Suc_conv_app_nth cur_def busy_def)
qed

text \<open>The first operation that is not done is the one its worker is at.\<close>

lemma first_open_is_cur:
  assumes "k < length s" and "\<not> fin s pos k" and "\<forall>j<k. fin s pos j"
  shows "busy s pos (fst (s ! k))" and "cur s pos (fst (s ! k)) = k"
proof -
  define w where "w = fst (s ! k)"
  have k: "k \<in> set (idxs s w)" "k \<notin> set (take (pos w) (idxs s w))"
    using assms(1,2) by (auto simp: idxs_props fin_def w_def)
  then have lt: "pos w < length (idxs s w)"
    by (metis not_le take_all)
  then show b: "busy s pos w"
    by (simp add: busy_def)
  obtain j where j: "j < length (idxs s w)" "idxs s w ! j = k"
    using k(1) by (auto simp: in_set_conv_nth)
  have "\<not> j < pos w"
    using k(2) j lt by (metis in_set_conv_nth length_take min.absorb2 less_imp_le nth_take)
  moreover have "\<not> pos w < j"
  proof
    assume "pos w < j"
    then have "cur s pos w < k"
      using idxs_props(1,2) [of s w] j unfolding cur_def
      by (metis le_neq_implies_less less_imp_le lt nth_eq_iff_index_eq sorted_nth_mono nat_neq_iff)
    then have "fin s pos (cur s pos w)"
      using assms(3) by blast
    with cur_props(3) [OF b] show False by blast
  qed
  ultimately show "cur s pos w = k"
    using j(2) by (simp add: cur_def)
qed

end
