(* ===== verification/ReplayMap.thy ===== *)
theory ReplayMap
  imports OpenAddressing
begin

text \<open>
  The two hash tables of the trace replayer (\<open>replay_main.c\<close>): the map \<open>omap\<close> from the
  addresses that are live in the trace to the slot, generation, owner, size and time of the
  object there, and the table that numbers the threads of the trace. Both probe linearly
  without tombstones; \<open>omap_take\<close> repairs the probe chains by inserting again every entry up to
  the next empty slot, and \<open>omap_put\<close> doubles the table at a load of 70 percent. A loop that
  searches a table without an empty slot does not end, so the loops are partial functions and
  the lemmas show that on every table the program builds they return, and that the operations
  are those of a finite map.

  The six parallel arrays of \<open>omap\<close> are one list of rows. Capacities and counts are naturals:
  \<open>cap\<close> elements of each array exist in memory, so no size computed from them wraps; only the
  loop of \<open>omap_init\<close>, which runs before any memory is there, is on \<open>size_t\<close>. A failing
  \<open>mmap\<close> ends the program in \<open>xmap\<close>: the model is of the runs in which memory is there.
\<close>

subsection \<open>The model\<close>

definition mix64 :: "u64 \<Rightarrow> u64" where
  "mix64 k =
    (let k = k XOR drop_bit 33 k;
         k = k * 0xff51afd7ed558ccd;
         k = k XOR drop_bit 33 k;
         k = k * 0xc4ceb9fe1a85ec53
     in k XOR drop_bit 33 k)"

record omap_row =
  okey :: u64
  oslot :: u32
  ogen :: u32
  oowner :: u32
  osize :: u64
  olast_ts :: u64

record omap =
  rows :: "omap_row list"
  ocap :: nat
  omask :: u64
  ocount :: nat

definition zero_row :: omap_row where
  "zero_row = \<lparr>okey = 0, oslot = 0, ogen = 0, oowner = 0, osize = 0, olast_ts = 0\<rparr>"

definition omap_alloc :: "nat \<Rightarrow> omap" where
  "omap_alloc cap =
    (let cap = if cap < 1024 then 1024 else cap
     in \<lparr>rows = replicate cap zero_row, ocap = cap, omask = of_nat cap - 1, ocount = 0\<rparr>)"

text \<open>The loop \<open>while (cap < max_live * 2) cap <<= 1\<close>.\<close>

partial_function (option) init_capacity :: "u64 \<Rightarrow> u64 \<Rightarrow> u64 option" where
  "init_capacity max_live cap =
    (if cap < max_live * 2 then init_capacity max_live (push_bit 1 cap) else Some cap)"

definition omap_init :: "u64 \<Rightarrow> omap option" where
  "omap_init max_live = map_option (\<lambda>cap. omap_alloc (unat cap)) (init_capacity max_live 1)"

text \<open>Linear probing: from \<open>h\<close> on, the first index where the loop stops.\<close>

partial_function (option) probe_from :: "(nat \<Rightarrow> bool) \<Rightarrow> u64 \<Rightarrow> u64 \<Rightarrow> u64 option" where
  "probe_from stop m h =
    (if stop (unat h) then Some h else probe_from stop m ((h + 1) AND m))"

definition row_found :: "omap_row list \<Rightarrow> u64 \<Rightarrow> nat \<Rightarrow> bool" where
  "row_found rs a h \<longleftrightarrow> okey (rs ! h) = 0 \<or> okey (rs ! h) = a"

definition omap_put_raw :: "omap \<Rightarrow> omap_row \<Rightarrow> omap option" where
  "omap_put_raw m r =
    (case probe_from (row_found (rows m) (okey r)) (omask m) (mix64 (okey r) AND omask m) of
       None \<Rightarrow> None
     | Some h \<Rightarrow> Some (if okey (rows m ! unat h) \<noteq> 0
                      then m\<lparr>rows := (rows m)[unat h := r]\<rparr>
                      else m\<lparr>rows := (rows m)[unat h := r], ocount := ocount m + 1\<rparr>))"

text \<open>The copying loop of \<open>omap_resize\<close> over the rows of the old table.\<close>

fun omap_copy :: "omap_row list \<Rightarrow> omap \<Rightarrow> omap option" where
  "omap_copy [] nm = Some nm"
| "omap_copy (r # rs) nm =
    (if okey r \<noteq> 0
     then case omap_put_raw nm r of None \<Rightarrow> None | Some nm' \<Rightarrow> omap_copy rs nm'
     else omap_copy rs nm)"

definition omap_resize :: "omap \<Rightarrow> nat \<Rightarrow> omap option" where
  "omap_resize m ncap = omap_copy (rows m) (omap_alloc ncap)"

definition omap_put :: "omap \<Rightarrow> omap_row \<Rightarrow> omap option" where
  "omap_put m r =
    (case (if ocap m * 7 \<le> (ocount m + 1) * 10 then omap_resize m (ocap m * 2) else Some m) of
       None \<Rightarrow> None
     | Some m' \<Rightarrow> omap_put_raw m' r)"

definition omap_clear :: "omap \<Rightarrow> nat \<Rightarrow> omap" where
  "omap_clear m j = m\<lparr>rows := (rows m)[j := (rows m ! j)\<lparr>okey := 0\<rparr>], ocount := ocount m - 1\<rparr>"

partial_function (option) omap_reinsert :: "u64 \<Rightarrow> omap \<Rightarrow> omap option" where
  "omap_reinsert j m =
    (if okey (rows m ! unat j) \<noteq> 0 then
       case omap_put_raw (omap_clear m (unat j)) (rows m ! unat j) of
         None \<Rightarrow> None
       | Some m' \<Rightarrow> omap_reinsert ((j + 1) AND omask m) m'
     else Some m)"

definition omap_take :: "omap \<Rightarrow> u64 \<Rightarrow> (omap \<times> omap_row option) option" where
  "omap_take m a =
    (case probe_from (row_found (rows m) a) (omask m) (mix64 a AND omask m) of
       None \<Rightarrow> None
     | Some h \<Rightarrow>
         if okey (rows m ! unat h) \<noteq> 0
         then map_option (\<lambda>m'. (m', Some (rows m ! unat h)))
                (omap_reinsert ((h + 1) AND omask m) (omap_clear m (unat h)))
         else Some (m, None))"

subsection \<open>The abstract map\<close>

definition row_state :: "omap_row \<Rightarrow> omap_row slot_state" where
  "row_state r = (if okey r = 0 then Empty else Used r)"

definition omap_position :: "nat \<Rightarrow> u64 \<Rightarrow> nat \<Rightarrow> nat" where
  "omap_position n a j = (unat (mix64 a) + j) mod n"

interpretation live_rows: probing row_state okey "omap_position n" n n for n
  by unfold_locales (simp add: omap_position_def)

lemma row_state_simps [simp]:
  "row_state r = Empty \<longleftrightarrow> okey r = 0" "row_state r \<noteq> Deleted"
  "row_state r = Used e \<longleftrightarrow> r = e \<and> okey e \<noteq> 0" "is_Used (row_state r) \<longleftrightarrow> okey r \<noteq> 0"
  by (auto simp: row_state_def)

definition omap_entries :: "omap_row list \<Rightarrow> omap_row multiset" where
  "omap_entries = entries row_state"

abbreviation single_rows :: "omap_row multiset \<Rightarrow> bool" where
  "single_rows \<equiv> single_by okey"

definition omap_lookup :: "omap \<Rightarrow> u64 \<rightharpoonup> omap_row" where
  "omap_lookup m = map_of (map (\<lambda>r. (okey r, r)) (filter (\<lambda>r. okey r \<noteq> 0) (rows m)))"

text \<open>Sized: a power of two, with the matching mask; well-formed: chains, keys, count, load.\<close>

definition sized :: "omap \<Rightarrow> bool" where
  "sized m \<longleftrightarrow> length (rows m) = ocap m \<and> (\<exists>k<64. ocap m = 2 ^ k) \<and> omask m = of_nat (ocap m) - 1"

definition rows_ok :: "omap_row list \<Rightarrow> bool" where
  "rows_ok rs \<longleftrightarrow> chained row_state okey (omap_position (length rs)) (length rs) rs \<and>
    single_rows (omap_entries rs)"

definition wf_omap :: "omap \<Rightarrow> bool" where
  "wf_omap m \<longleftrightarrow> sized m \<and> 1024 \<le> ocap m \<and> rows_ok (rows m) \<and>
    ocount m = size (omap_entries (rows m)) \<and> ocount m * 10 < ocap m * 7"

lemma omap_entries_iff: "r \<in># omap_entries rs \<longleftrightarrow> r \<in> set rs \<and> okey r \<noteq> 0"
  by (auto simp: omap_entries_def entries_iff in_set_conv_nth)

lemma omap_entries_mset: "omap_entries rs = mset (filter (\<lambda>r. okey r \<noteq> 0) rs)"
  by (induction rs) (simp_all add: omap_entries_def entries_def row_state_def)

lemma omap_lookup_iff:
  assumes "single_rows (omap_entries (rows m))"
  shows "omap_lookup m a = Some r \<longleftrightarrow> r \<in># omap_entries (rows m) \<and> okey r = a"
  using single_by_map_of [of okey "filter (\<lambda>r. okey r \<noteq> 0) (rows m)" id a r] assms
  by (auto simp: omap_lookup_def omap_entries_mset)

lemma omap_lookup_none:
  assumes "single_rows (omap_entries (rows m))"
  shows "omap_lookup m a = None \<longleftrightarrow> (\<forall>r. r \<in># omap_entries (rows m) \<longrightarrow> okey r \<noteq> a)"
  using omap_lookup_iff [OF assms, of a] by (metis not_None_eq)

subsection \<open>Searching\<close>

lemma ring_mask:
  assumes "k < 64"
  shows "unat (x AND (of_nat (2 ^ k) - 1)) = unat (x::u64) mod 2 ^ k"
  using assms unat_and_mask [of x k] by (simp add: mask_eq_exp_minus_1)

lemma ring_next:
  assumes "k < 64" and "unat (h::u64) < 2 ^ k"
  shows "unat ((h + 1) AND (of_nat (2 ^ k) - 1)) = (unat h + 1) mod 2 ^ k"
proof -
  have "(2::nat) ^ k \<le> 2 ^ 63"
    using assms(1) by (intro power_increasing) auto
  then have "unat (h + 1) = unat h + 1"
    using assms(2) by (subst unat_add_no_wrap) auto
  with ring_mask [OF assms(1), of "h + 1"] show ?thesis by simp
qed

lemma probe_from_ring:
  assumes "k < 64" and "unat h < 2 ^ k"
    and "stop ((unat h + d) mod 2 ^ k)" and "\<forall>i<d. \<not> stop ((unat h + i) mod 2 ^ k)"
  shows "\<exists>w. probe_from stop (of_nat (2 ^ k) - 1) h = Some w \<and> unat w = (unat h + d) mod 2 ^ k"
  using assms(2-)
proof (induction d arbitrary: h)
  case 0
  then show ?case
    by (subst probe_from.simps) simp
next
  case (Suc d)
  let ?h = "(h + 1) AND (of_nat (2 ^ k) - 1)"
  have h: "unat ?h = (unat h + 1) mod 2 ^ k"
    using ring_next [OF assms(1) Suc.prems(1)] .
  have sh: "(unat ?h + i) mod 2 ^ k = (unat h + Suc i) mod 2 ^ k" for i
    unfolding h by (metis Suc_eq_plus1 add.assoc add.commute mod_add_left_eq)
  have "unat ?h < 2 ^ k"
    unfolding h by simp
  moreover have "stop ((unat ?h + d) mod 2 ^ k)"
    unfolding sh using Suc.prems(2) .
  moreover have "\<forall>i<d. \<not> stop ((unat ?h + i) mod 2 ^ k)"
    unfolding sh using Suc.prems(3) by (blast intro: Suc_mono)
  ultimately have "\<exists>w. probe_from stop (of_nat (2 ^ k) - 1) ?h = Some w \<and>
      unat w = (unat ?h + d) mod 2 ^ k"
    by (rule Suc.IH)
  moreover have "\<not> stop (unat h)"
    using Suc.prems(1) spec [OF Suc.prems(3), of 0] by simp
  ultimately show ?case
    unfolding sh by (subst probe_from.simps) (simp del: of_nat_power)
qed

text \<open>A search on a sized table, from the hash of \<open>a\<close>.\<close>

lemma probe_rows:
  assumes "sized m" and "stop (omap_position (ocap m) a d)"
    and "\<forall>i<d. \<not> stop (omap_position (ocap m) a i)"
  shows "\<exists>w. probe_from stop (omask m) (mix64 a AND omask m) = Some w \<and>
    unat w = omap_position (ocap m) a d"
proof -
  obtain k where k: "k < 64" "ocap m = 2 ^ k" "omask m = of_nat (2 ^ k) - 1"
    using assms(1) by (auto simp: sized_def)
  let ?h = "mix64 a AND (of_nat (2 ^ k) - 1)"
  have h: "unat ?h = unat (mix64 a) mod 2 ^ k"
    by (rule ring_mask [OF k(1)])
  have p: "omap_position (2 ^ k) a i = (unat ?h + i) mod 2 ^ k" for i
    unfolding h omap_position_def by (simp add: mod_add_left_eq)
  have "unat ?h < 2 ^ k"
    unfolding h by simp
  then show ?thesis
    using assms(2,3) unfolding k(2,3) p by (rule probe_from_ring [OF k(1)])
qed

subsection \<open>Insertion\<close>

abbreviation row_at :: "omap \<Rightarrow> u64 \<Rightarrow> nat \<Rightarrow> omap_row" where
  "row_at m a d \<equiv> rows m ! omap_position (ocap m) a d"

lemma probe_row_found:
  assumes "sized m" and "row_found (rows m) a (omap_position (ocap m) a d)"
    and "\<forall>i<d. \<not> row_found (rows m) a (omap_position (ocap m) a i)"
  obtains w where "probe_from (row_found (rows m) a) (omask m) (mix64 a AND omask m) = Some w"
    and "unat w = omap_position (ocap m) a d"
  using probe_rows [OF assms] by blast

lemma omap_put_raw_eq:
  assumes "sized m" and "row_found (rows m) (okey r) (omap_position (ocap m) (okey r) d)"
    and "\<forall>i<d. \<not> row_found (rows m) (okey r) (omap_position (ocap m) (okey r) i)"
  shows "omap_put_raw m r = Some (m\<lparr>rows := (rows m)[omap_position (ocap m) (okey r) d := r],
    ocount := (if okey (row_at m (okey r) d) = 0 then ocount m + 1 else ocount m)\<rparr>)"
proof (rule probe_row_found [OF assms])
  fix w
  assume "probe_from (row_found (rows m) (okey r)) (omask m) (mix64 (okey r) AND omask m) = Some w"
    and "unat w = omap_position (ocap m) (okey r) d"
  then show ?thesis
    by (simp add: omap_put_raw_def)
qed

text \<open>The outcome of a search for \<open>a\<close>: the first row that is empty or has this key.\<close>

lemma row_search:
  assumes "length rs = n" and "rows_ok rs" and "i < n" and "okey (rs ! i) = 0" and "a \<noteq> 0"
  obtains (absent) d where "d < n" "okey (rs ! omap_position n a d) = 0"
      "\<forall>i<d. \<not> row_found rs a (omap_position n a i)" "\<forall>r. r \<in># omap_entries rs \<longrightarrow> okey r \<noteq> a"
  | (found) d where "d < n" "okey (rs ! omap_position n a d) = a"
      "\<forall>i<d. \<not> row_found rs a (omap_position n a i)"
proof -
  have ch: "chained row_state okey (omap_position n) n rs"
    using assms(1,2) by (simp add: rows_ok_def)
  obtain j0 where j0: "j0 < n" "row_state (rs ! omap_position n a j0) = Empty"
    using linear_reaches [OF assms(3), of "unat (mix64 a)"] assms(4) by (auto simp: omap_position_def)
  show ?thesis
  proof (rule live_rows.search_outcome [OF ch assms(1) j0])
    fix d
    assume d: "d < n" "row_state (rs ! omap_position n a d) = Empty"
      and prefix: "\<forall>i<d. row_state (rs ! omap_position n a i) \<noteq> Empty \<and>
        (\<forall>e. row_state (rs ! omap_position n a i) = Used e \<longrightarrow> okey e \<noteq> a)"
      and fresh: "\<forall>e. e \<in># entries row_state rs \<longrightarrow> okey e \<noteq> a"
    have "\<forall>i<d. \<not> row_found rs a (omap_position n a i)"
      using prefix by (simp add: row_found_def)
    with d fresh show thesis by (intro absent) (simp_all add: omap_entries_def)
  next
    fix d e
    assume d: "d < n" "row_state (rs ! omap_position n a d) = Used e" "okey e = a"
      and prefix: "\<forall>i<d. row_state (rs ! omap_position n a i) \<noteq> Empty \<and>
        (\<forall>e. row_state (rs ! omap_position n a i) = Used e \<longrightarrow> okey e \<noteq> a)"
    have "\<forall>i<d. \<not> row_found rs a (omap_position n a i)"
      using prefix by (simp add: row_found_def)
    with d show thesis by (intro found) simp_all
  qed
qed

definition wf_rows :: "omap \<Rightarrow> bool" where
  "wf_rows m \<longleftrightarrow> sized m \<and> rows_ok (rows m) \<and> ocount m = size (omap_entries (rows m))"

lemma wf_omap_alt: "wf_omap m \<longleftrightarrow> wf_rows m \<and> 1024 \<le> ocap m \<and> ocount m * 10 < ocap m * 7"
  by (auto simp: wf_omap_def wf_rows_def)

lemma some_row_empty:
  assumes "wf_rows m" and "ocount m < ocap m"
  obtains i where "i < ocap m" and "okey (rows m ! i) = 0"
proof -
  have "ocount m = length (filter (\<lambda>r. okey r \<noteq> 0) (rows m))"
    using assms(1) unfolding wf_rows_def omap_entries_mset size_mset by blast
  then have "length (filter (\<lambda>r. okey r \<noteq> 0) (rows m)) < length (rows m)"
    using assms by (simp add: wf_rows_def sized_def)
  then have "\<exists>r\<in>set (rows m). okey r = 0"
    by (metis (mono_tags, lifting) filter_True less_irrefl)
  then show ?thesis
    using that assms(1) by (auto simp: in_set_conv_nth wf_rows_def sized_def)
qed

lemma sized_update [simp]: "sized (m\<lparr>rows := (rows m)[i := r], ocount := c\<rparr>) = sized m"
  by (simp add: sized_def)

lemma chained_put:
  assumes "chained row_state okey (omap_position n) n rs" and "okey r \<noteq> 0" and "d < n"
    and "\<forall>i<d. \<not> row_found rs (okey r) (omap_position n (okey r) i)"
  shows "chained row_state okey (omap_position n) n (rs[omap_position n (okey r) d := r])"
proof (rule chained_update)
  fix e
  assume "row_state r = Used e"
  then show "\<exists>j<n. omap_position n (okey e) j = omap_position n (okey r) d \<and>
      (\<forall>i<j. row_state (rs ! omap_position n (okey e) i) \<noteq> Empty)"
    using assms(3,4) by (intro exI [of _ d]) (auto simp: row_found_def)
qed (use assms in auto)

lemma omap_put_raw_new:
  assumes "wf_rows m" and "okey r \<noteq> 0" and d: "d < ocap m" "okey (row_at m (okey r) d) = 0"
    and prefix: "\<forall>i<d. \<not> row_found (rows m) (okey r) (omap_position (ocap m) (okey r) i)"
    and new: "\<forall>r'. r' \<in># omap_entries (rows m) \<longrightarrow> okey r' \<noteq> okey r"
  shows "\<exists>m'. omap_put_raw m r = Some m' \<and> wf_rows m' \<and> ocap m' = ocap m \<and>
    omap_entries (rows m') = add_mset r (omap_entries (rows m))"
proof -
  let ?i = "omap_position (ocap m) (okey r) d"
  let ?rs = "(rows m)[?i := r]"
  have m: "sized m" "length (rows m) = ocap m" "rows_ok (rows m)"
    "ocount m = size (omap_entries (rows m))"
    using assms(1) by (auto simp: wf_rows_def sized_def)
  have i: "?i < length (rows m)"
    using live_rows.pos_less d(1) m(2) by metis
  have put: "omap_put_raw m r = Some (m\<lparr>rows := ?rs, ocount := ocount m + 1\<rparr>)"
    using omap_put_raw_eq [OF m(1) _ prefix] d(2) by (simp add: row_found_def)
  have "chained row_state okey (omap_position (ocap m)) (ocap m) ?rs"
    using m(2,3) assms(2) d(1) prefix by (intro chained_put) (simp_all add: rows_ok_def)
  moreover have en: "omap_entries ?rs = add_mset r (omap_entries (rows m))"
    unfolding omap_entries_def using i d(2) assms(2) by (intro entries_update_free) simp_all
  ultimately have "rows_ok ?rs"
    using m(2,3) new by (simp add: rows_ok_def single_by_add)
  with put en m show ?thesis
    by (simp add: wf_rows_def)
qed

lemma omap_put_raw_old:
  assumes "wf_rows m" and "okey r \<noteq> 0" and d: "d < ocap m" "okey (row_at m (okey r) d) = okey r"
    and prefix: "\<forall>i<d. \<not> row_found (rows m) (okey r) (omap_position (ocap m) (okey r) i)"
  shows "\<exists>m' E old. omap_put_raw m r = Some m' \<and> wf_rows m' \<and> ocap m' = ocap m \<and> okey old = okey r \<and>
    omap_entries (rows m) = add_mset old E \<and> omap_entries (rows m') = add_mset r E"
proof -
  let ?i = "omap_position (ocap m) (okey r) d"
  let ?rs = "(rows m)[?i := r]"
  have m: "sized m" "length (rows m) = ocap m" "rows_ok (rows m)"
    "ocount m = size (omap_entries (rows m))"
    using assms(1) by (auto simp: wf_rows_def sized_def)
  have i: "?i < length (rows m)"
    using live_rows.pos_less d(1) m(2) by metis
  have put: "omap_put_raw m r = Some (m\<lparr>rows := ?rs, ocount := ocount m\<rparr>)"
    using omap_put_raw_eq [OF m(1) _ prefix] d(2) assms(2) by (simp add: row_found_def)
  obtain E where E: "omap_entries (rows m) = add_mset (row_at m (okey r) d) E"
      "omap_entries ?rs = add_mset r E"
    using entries_update_used [of ?i "rows m" row_state "row_at m (okey r) d" r r] i d(2) assms(2)
    by (auto simp: omap_entries_def)
  have "chained row_state okey (omap_position (ocap m)) (ocap m) ?rs"
    using m(2,3) assms(2) d(1) prefix by (intro chained_put) (simp_all add: rows_ok_def)
  moreover have "single_rows (add_mset r E)"
    using m(3) d(2) unfolding rows_ok_def E by (simp add: single_by_add)
  ultimately have "rows_ok ?rs"
    using m(2) E(2) by (simp add: rows_ok_def)
  with put E m d(2) show ?thesis
    by (intro exI [of _ "m\<lparr>rows := ?rs, ocount := ocount m\<rparr>"] exI [of _ E]
        exI [of _ "row_at m (okey r) d"]) (simp add: wf_rows_def)
qed

lemma wf_lookup_iff:
  "wf_rows m \<Longrightarrow> omap_lookup m a = Some r \<longleftrightarrow> r \<in># omap_entries (rows m) \<and> okey r = a"
  by (intro omap_lookup_iff) (simp add: wf_rows_def rows_ok_def)

lemma omap_lookup_eqI:
  assumes "wf_rows m" and "\<And>a r. r \<in># omap_entries (rows m) \<and> okey r = a \<longleftrightarrow> f a = Some r"
  shows "omap_lookup m = f"
proof
  fix a
  show "omap_lookup m a = f a"
    using wf_lookup_iff [OF assms(1), of a] assms(2) [of _ a] by (metis not_None_eq)
qed

lemma single_entries: "wf_rows m \<Longrightarrow> single_rows (omap_entries (rows m))"
  by (simp add: wf_rows_def rows_ok_def)

lemma lookup_put:
  assumes "wf_rows m" and "wf_rows m'" and "omap_entries (rows m') = add_mset r E"
    and "omap_entries (rows m) = E \<or> (\<exists>old. okey old = okey r \<and> omap_entries (rows m) = add_mset old E)"
  shows "omap_lookup m' = (omap_lookup m)(okey r \<mapsto> r)"
proof (rule omap_lookup_eqI [OF assms(2)])
  fix a x
  have "\<forall>r'. r' \<in># E \<longrightarrow> okey r' \<noteq> okey r"
    using single_entries [OF assms(2)] assms(3) by (simp add: single_by_add)
  then have "x \<in># E \<and> okey x = a \<longleftrightarrow> a \<noteq> okey r \<and> x \<in># omap_entries (rows m) \<and> okey x = a"
    using assms(4) by auto
  then show "x \<in># omap_entries (rows m') \<and> okey x = a \<longleftrightarrow> ((omap_lookup m)(okey r \<mapsto> r)) a = Some x"
    using wf_lookup_iff [OF assms(1), of a x] assms(3) by auto
qed

lemma omap_put_raw_spec:
  assumes "wf_rows m" and "ocount m < ocap m" and "okey r \<noteq> 0"
  shows "\<exists>m'. omap_put_raw m r = Some m' \<and> wf_rows m' \<and> ocap m' = ocap m \<and>
    ocount m' \<le> ocount m + 1 \<and> omap_lookup m' = (omap_lookup m)(okey r \<mapsto> r)"
proof -
  have l: "length (rows m) = ocap m" and ok: "rows_ok (rows m)"
    using assms(1) by (auto simp: wf_rows_def sized_def)
  obtain i where i: "i < ocap m" "okey (rows m ! i) = 0"
    using some_row_empty [OF assms(1,2)] .
  show ?thesis
  proof (rule row_search [OF l ok i assms(3)])
    fix d
    assume "d < ocap m" "okey (row_at m (okey r) d) = 0"
      "\<forall>i<d. \<not> row_found (rows m) (okey r) (omap_position (ocap m) (okey r) i)"
      "\<forall>r'. r' \<in># omap_entries (rows m) \<longrightarrow> okey r' \<noteq> okey r"
    from omap_put_raw_new [OF assms(1,3) this] obtain m' where m': "omap_put_raw m r = Some m'"
      "wf_rows m'" "ocap m' = ocap m" "omap_entries (rows m') = add_mset r (omap_entries (rows m))"
      by blast
    then have "ocount m' = ocount m + 1"
      using assms(1) by (simp add: wf_rows_def)
    with m' show ?thesis
      using lookup_put [OF assms(1) m'(2,4)] by auto
  next
    fix d
    assume "d < ocap m" "okey (row_at m (okey r) d) = okey r"
      "\<forall>i<d. \<not> row_found (rows m) (okey r) (omap_position (ocap m) (okey r) i)"
    from omap_put_raw_old [OF assms(1,3) this] obtain m' E old where m': "omap_put_raw m r = Some m'"
      "wf_rows m'" "ocap m' = ocap m" "okey old = okey r" "omap_entries (rows m) = add_mset old E"
      "omap_entries (rows m') = add_mset r E"
      by blast
    then have "ocount m' = ocount m"
      using assms(1) by (simp add: wf_rows_def)
    with m' show ?thesis
      using lookup_put [OF assms(1) m'(2,6)] by auto
  qed
qed

text \<open>Growing: every row is copied into a table twice as large.\<close>

lemma wf_alloc:
  assumes "1024 \<le> cap" and "cap = 2 ^ k" and "k < 64"
  shows "wf_rows (omap_alloc cap) \<and> ocap (omap_alloc cap) = cap \<and> ocount (omap_alloc cap) = 0 \<and>
    omap_entries (rows (omap_alloc cap)) = {#}"
proof -
  have z: "okey zero_row = 0"
    by (simp add: zero_row_def)
  have a: "omap_alloc cap = \<lparr>rows = replicate cap zero_row, ocap = cap, omask = of_nat cap - 1, ocount = 0\<rparr>"
    using assms(1) by (simp add: omap_alloc_def)
  have "sized (omap_alloc cap)"
    using assms(2,3) unfolding a sized_def by auto
  then show ?thesis
    unfolding wf_rows_def by (simp add: a rows_ok_def omap_entries_def z entries_replicate chained_replicate)
qed

lemma omap_copy_spec:
  assumes "wf_rows nm" and "ocount nm + length (filter (\<lambda>r. okey r \<noteq> 0) rs) < ocap nm"
    and "single_rows (omap_entries (rows nm) + omap_entries rs)"
  shows "\<exists>nm'. omap_copy rs nm = Some nm' \<and> wf_rows nm' \<and> ocap nm' = ocap nm \<and>
    omap_entries (rows nm') = omap_entries (rows nm) + omap_entries rs"
  using assms
proof (induction rs arbitrary: nm)
  case Nil
  then show ?case by (simp add: omap_entries_mset)
next
  case (Cons r rs)
  show ?case
  proof (cases "okey r = 0")
    case True
    then show ?thesis
      using Cons.IH [OF Cons.prems(1)] Cons.prems(2,3) by (simp add: omap_entries_mset)
  next
    case False
    have l: "length (rows nm) = ocap nm" and ok: "rows_ok (rows nm)"
      using Cons.prems(1) by (auto simp: wf_rows_def sized_def)
    have "ocount nm < ocap nm"
      using Cons.prems(2) by simp
    from some_row_empty [OF Cons.prems(1) this] obtain i where i: "i < ocap nm" "okey (rows nm ! i) = 0" .
    have single: "single_rows (add_mset r (omap_entries (rows nm) + omap_entries rs))"
      using Cons.prems(3) False by (simp add: omap_entries_mset)
    then have new: "\<forall>r'. r' \<in># omap_entries (rows nm) \<longrightarrow> okey r' \<noteq> okey r"
      by (simp add: single_by_add)
    obtain d where d: "d < ocap nm" "okey (row_at nm (okey r) d) = 0"
        "\<forall>i<d. \<not> row_found (rows nm) (okey r) (omap_position (ocap nm) (okey r) i)"
    proof (rule row_search [OF l ok i False])
      fix d
      assume "d < ocap nm" and k: "okey (row_at nm (okey r) d) = okey r"
      then have "row_at nm (okey r) d \<in># omap_entries (rows nm)"
        using False live_rows.pos_less [of d "ocap nm" "okey r"] l by (simp add: omap_entries_iff)
      with k new show thesis by blast
    qed (rule that)
    from omap_put_raw_new [OF Cons.prems(1) False d new] obtain m1 where m1:
      "omap_put_raw nm r = Some m1" "wf_rows m1" "ocap m1 = ocap nm"
      "omap_entries (rows m1) = add_mset r (omap_entries (rows nm))" by blast
    then have "ocount m1 = ocount nm + 1"
      using Cons.prems(1) by (simp add: wf_rows_def)
    then have "\<exists>nm'. omap_copy rs m1 = Some nm' \<and> wf_rows nm' \<and> ocap nm' = ocap m1 \<and>
        omap_entries (rows nm') = omap_entries (rows m1) + omap_entries rs"
      using Cons.prems(2) False m1(3,4) single by (intro Cons.IH m1(2)) simp_all
    then show ?thesis
      using m1 False by (simp add: omap_entries_mset)
  qed
qed

lemma wf_omap_size:
  assumes "wf_omap m"
  obtains k where "k < 64" and "ocap m = 2 ^ k" and "1024 \<le> ocap m" and "length (rows m) = ocap m"
  using assms by (auto simp: wf_omap_def sized_def)

lemma omap_resize_spec:
  assumes "wf_omap m" and "ocap m < 2 ^ 63"
  shows "\<exists>m'. omap_resize m (ocap m * 2) = Some m' \<and> wf_rows m' \<and> ocap m' = ocap m * 2 \<and>
    omap_entries (rows m') = omap_entries (rows m)"
proof -
  obtain k where k: "k < 64" "ocap m = 2 ^ k" "1024 \<le> ocap m" "length (rows m) = ocap m"
    using assms(1) by (rule wf_omap_size)
  then have "k < 63"
    using assms(2) by (metis one_less_numeral_iff power_less_imp_less_exp semiring_norm(76))
  then have "wf_rows (omap_alloc (ocap m * 2)) \<and> ocap (omap_alloc (ocap m * 2)) = ocap m * 2 \<and>
      ocount (omap_alloc (ocap m * 2)) = 0 \<and> omap_entries (rows (omap_alloc (ocap m * 2))) = {#}"
    using k by (intro wf_alloc [of _ "k + 1"]) simp_all
  moreover have "length (filter (\<lambda>r. okey r \<noteq> 0) (rows m)) < ocap m * 2"
    using length_filter_le [of "\<lambda>r. okey r \<noteq> 0" "rows m"] k(3,4) by linarith
  moreover have "single_rows (omap_entries (rows m))"
    using assms(1) by (simp add: wf_omap_def rows_ok_def)
  ultimately show ?thesis
    using omap_copy_spec [of "omap_alloc (ocap m * 2)" "rows m"] by (simp add: omap_resize_def)
qed

lemma lookup_cong:
  assumes "wf_rows m" and "wf_rows m'" and "omap_entries (rows m') = omap_entries (rows m)"
  shows "omap_lookup m' = omap_lookup m"
  using assms by (intro omap_lookup_eqI) (auto simp: wf_lookup_iff)

lemma omap_put_spec:
  assumes "wf_omap m" and "okey r \<noteq> 0" and "ocount m < 2 ^ 60"
  shows "\<exists>m'. omap_put m r = Some m' \<and> wf_omap m' \<and> ocount m' \<le> ocount m + 1 \<and>
    omap_lookup m' = (omap_lookup m)(okey r \<mapsto> r)"
proof -
  have m: "wf_rows m" "1024 \<le> ocap m" "ocount m * 10 < ocap m * 7"
    using assms(1) by (auto simp: wf_omap_alt)
  define big where "big \<longleftrightarrow> ocap m * 7 \<le> (ocount m + 1) * 10"
  obtain m1 where m1: "(if big then omap_resize m (ocap m * 2) else Some m) = Some m1"
    "wf_rows m1" "omap_entries (rows m1) = omap_entries (rows m)" "1024 \<le> ocap m1"
    "(ocount m + 1) * 10 < ocap m1 * 7"
  proof (cases big)
    case True
    then have "ocap m < 2 ^ 63"
      using assms(3) by (simp add: big_def)
    with omap_resize_spec [OF assms(1)] obtain m1 where "omap_resize m (ocap m * 2) = Some m1"
      "wf_rows m1" "ocap m1 = ocap m * 2" "omap_entries (rows m1) = omap_entries (rows m)" by blast
    with True m that [of m1] show thesis by simp
  next
    case False
    with m that [of m] show thesis by (simp add: big_def)
  qed
  have c: "ocount m1 = ocount m"
    using m(1) m1(2,3) by (simp add: wf_rows_def)
  have "ocount m1 < ocap m1"
    using m1(5) unfolding c [symmetric] by simp
  from omap_put_raw_spec [OF m1(2) this assms(2)] obtain m' where m': "omap_put_raw m1 r = Some m'"
    "wf_rows m'" "ocap m' = ocap m1" "ocount m' \<le> ocount m1 + 1"
    "omap_lookup m' = (omap_lookup m1)(okey r \<mapsto> r)" by blast
  have "omap_put m r = Some m'"
    using m1(1) m'(1) by (simp add: omap_put_def big_def)
  moreover have "wf_omap m'"
    using m' m1(4,5) c by (simp add: wf_omap_alt)
  ultimately show ?thesis
    using m' c lookup_cong [OF m(1) m1(2,3)] by auto
qed

subsection \<open>Removal\<close>

text \<open>
  Let \<open>E\<close> be an empty slot. The ring is cut behind it: \<open>x\<close> stands for the slot
  \<open>(E + 1 + x) mod n\<close>, and \<open>E\<close> is \<open>n - 1\<close>. No probe chain crosses the cut, so in these
  coordinates chains are intervals: an entry with home \<open>home c n a\<close> is at or behind it.
\<close>

definition ring :: "nat \<Rightarrow> nat \<Rightarrow> nat \<Rightarrow> nat" where
  "ring c n x = (c + x) mod n"

definition home :: "nat \<Rightarrow> nat \<Rightarrow> u64 \<Rightarrow> nat" where
  "home c n a = (unat (mix64 a) + (n - c)) mod n"

lemma ring_less: "0 < n \<Longrightarrow> ring c n x < n"
  by (simp add: ring_def)

lemma ring_inj: "x < n \<Longrightarrow> y < n \<Longrightarrow> ring c n x = ring c n y \<longleftrightarrow> x = y"
proof -
  have *: "x = y" if "x < n" "y < n" "x \<le> y" "(c + x) mod n = (c + y) mod n" for x y
  proof -
    have "n dvd (c + y) - (c + x)"
      using that(3,4) by (metis add_le_cancel_left mod_eq_dvd_iff_nat)
    then have "n dvd y - x" by simp
    with that show "x = y"
      by (metis diff_is_0_eq dvd_imp_le le_antisym less_imp_diff_less not_le zero_less_iff_neq_zero)
  qed
  assume "x < n" "y < n"
  with * [of x y] * [of y x] show ?thesis
    by (auto simp: ring_def) (metis nat_le_linear)
qed

lemma ring_surj:
  assumes "i < n" and "c < n"
  obtains x where "x < n" and "ring c n x = i"
proof
  show "(i + (n - c)) mod n < n" using assms by simp
  have "ring c n ((i + (n - c)) mod n) = (c + (i + (n - c))) mod n"
    unfolding ring_def by (rule mod_add_right_eq)
  also have "c + (i + (n - c)) = i + n" using assms by simp
  finally show "ring c n ((i + (n - c)) mod n) = i" using assms by simp
qed

lemma position_home:
  assumes "c < n"
  shows "omap_position n a j = ring c n (home c n a + j)"
proof -
  have "ring c n (home c n a + j) = (c + j + (unat (mix64 a) + (n - c)) mod n) mod n"
    by (simp add: ring_def home_def ac_simps)
  also have "\<dots> = (c + j + (unat (mix64 a) + (n - c))) mod n"
    by (rule mod_add_right_eq)
  also have "c + j + (unat (mix64 a) + (n - c)) = unat (mix64 a) + j + n"
    using assms by simp
  finally show ?thesis by (simp add: omap_position_def)
qed

definition lin_ok :: "nat \<Rightarrow> nat \<Rightarrow> omap_row list \<Rightarrow> nat \<Rightarrow> bool" where
  "lin_ok c n rs x \<longleftrightarrow> (okey (rs ! ring c n x) \<noteq> 0 \<longrightarrow> home c n (okey (rs ! ring c n x)) \<le> x \<and>
    (\<forall>y. home c n (okey (rs ! ring c n x)) \<le> y \<and> y < x \<longrightarrow> okey (rs ! ring c n y) \<noteq> 0))"

lemma chained_lin:
  assumes "c < n" and "length rs = n" and "okey (rs ! ring c n (n - 1)) = 0"
  shows "chained row_state okey (omap_position n) n rs \<longleftrightarrow> (\<forall>x<n. lin_ok c n rs x)"
proof
  assume ch: "chained row_state okey (omap_position n) n rs"
  show "\<forall>x<n. lin_ok c n rs x"
  proof (intro allI impI)
    fix x
    assume x: "x < n"
    show "lin_ok c n rs x"
      unfolding lin_ok_def
    proof (rule impI)
      assume k: "okey (rs ! ring c n x) \<noteq> 0"
      define h where "h = home c n (okey (rs ! ring c n x))"
      have h: "h < n"
        using assms(1) by (simp add: h_def home_def)
      obtain j where j: "j < n" "ring c n (h + j) = ring c n x"
          "\<And>i. i < j \<Longrightarrow> okey (rs ! ring c n (h + i)) \<noteq> 0"
        using ch k x ring_less [of n c x] assms(1,2)
        by (auto simp: chained_def position_home [OF assms(1)] h_def)
      have "h + j < n"
      proof (rule ccontr)
        assume "\<not> h + j < n"
        then have "okey (rs ! ring c n (h + (n - 1 - h))) \<noteq> 0"
          using h by (intro j(3)) linarith
        with h assms(3) show False by simp
      qed
      with j(2) x have "x = h + j"
        using ring_inj [of "h + j" n x c] by simp
      then show "h \<le> x \<and> (\<forall>y. h \<le> y \<and> y < x \<longrightarrow> okey (rs ! ring c n y) \<noteq> 0)"
        using j(3) by (metis add_less_cancel_left le_add1 le_add_diff_inverse)
    qed
  qed
next
  assume lin: "\<forall>x<n. lin_ok c n rs x"
  show "chained row_state okey (omap_position n) n rs"
    unfolding chained_def
  proof (intro allI impI)
    fix i e
    assume i: "i < length rs" and e: "row_state (rs ! i) = Used e"
    obtain x where x: "x < n" "ring c n x = i"
      using ring_surj [of i n c] i assms(1,2) by blast
    define h where "h = home c n (okey e)"
    have "h \<le> x \<and> (\<forall>y. h \<le> y \<and> y < x \<longrightarrow> okey (rs ! ring c n y) \<noteq> 0)"
      using lin x e by (auto simp: lin_ok_def h_def)
    then show "\<exists>j<n. omap_position n (okey e) j = i \<and>
        (\<forall>m<j. row_state (rs ! omap_position n (okey e) m) \<noteq> Empty)"
      using x by (intro exI [of _ "x - h"]) (auto simp: position_home [OF assms(1)] h_def [symmetric])
  qed
qed

text \<open>
  While the loop of \<open>omap_take\<close> is at \<open>x\<close>, the entries before \<open>x\<close> have their chains, those from
  \<open>x\<close> to the next empty slot are where they were.
\<close>

definition repairing :: "nat \<Rightarrow> nat \<Rightarrow> omap \<Rightarrow> bool" where
  "repairing c x m \<longleftrightarrow> sized m \<and> c < ocap m \<and> x < ocap m \<and>
    okey (rows m ! ring c (ocap m) (ocap m - 1)) = 0 \<and>
    (\<forall>y. x \<le> y \<and> y < ocap m - 1 \<longrightarrow> okey (rows m ! ring c (ocap m) y) \<noteq> 0 \<and>
      home c (ocap m) (okey (rows m ! ring c (ocap m) y)) \<le> y) \<and>
    (\<forall>y<x. lin_ok c (ocap m) (rows m) y) \<and>
    single_rows (omap_entries (rows m)) \<and> ocount m = size (omap_entries (rows m))"

lemma repairing_done:
  assumes "repairing c (ocap m - 1) m"
  shows "wf_rows m"
proof -
  have "\<forall>x<ocap m. lin_ok c (ocap m) (rows m) x"
    using assms by (simp add: repairing_def lin_ok_def)
      (metis One_nat_def Suc_pred less_SucE less_nat_zero_code not_gr_zero)
  then have "chained row_state okey (omap_position (ocap m)) (ocap m) (rows m)"
    using assms by (subst chained_lin) (auto simp: repairing_def sized_def)
  then show ?thesis
    using assms by (auto simp: repairing_def wf_rows_def rows_ok_def sized_def)
qed

text \<open>
  One turn of the loop: the row at \<open>x\<close> is taken out and put back at or before \<open>x\<close>, in the first
  empty slot from its home on.
\<close>

lemma first_gap:
  assumes "h \<le> x" and "\<not> P (x::nat)"
  obtains d where "h + d \<le> x" and "\<not> P (h + d)" and "\<forall>e<d. P (h + e)"
proof -
  define d where "d = (LEAST d. \<not> P (h + d))"
  have z: "\<not> P (h + (x - h))"
    using assms by simp
  show thesis
  proof
    have "d \<le> x - h"
      using Least_le [of "\<lambda>d. \<not> P (h + d)", OF z] by (simp add: d_def)
    then show "h + d \<le> x" using assms(1) by simp
    show "\<not> P (h + d)"
      using LeastI [of "\<lambda>d. \<not> P (h + d)", OF z] by (simp add: d_def)
    show "\<forall>e<d. P (h + e)"
      using not_less_Least [of _ "\<lambda>d. \<not> P (h + d)"] by (simp add: d_def)
  qed
qed

lemma lin_ok_moved:
  assumes before: "\<forall>y<x. lin_ok c n rs y" and "x < n" and "h + d \<le> x"
    and rs': "\<forall>y<n. rs' ! ring c n y =
      (if y = h + d then r else if y = x then z else rs ! ring c n y)"
    and "okey r \<noteq> 0" and "home c n (okey r) = h" and "okey z = 0"
    and gap: "\<forall>e<d. okey (rs ! ring c n (h + e)) \<noteq> 0"
    and "y < x + 1"
  shows "lin_ok c n rs' y"
proof (cases "y = h + d")
  case True
  have "okey (rs' ! ring c n e) \<noteq> 0" if "h \<le> e" "e < h + d" for e
  proof -
    have "okey (rs ! ring c n e) \<noteq> 0"
      using gap that by (metis add_diff_inverse_nat add_less_cancel_left not_le)
    with that assms(2,3) rs' show ?thesis by simp
  qed
  moreover have "rs' ! ring c n y = r"
    using True assms(2,3) rs' by simp
  ultimately show ?thesis
    using True assms(6) by (simp add: lin_ok_def)
next
  case False
  show ?thesis
  proof (cases "y = x")
    case True
    then show ?thesis
      using False assms(2,7) rs' by (simp add: lin_ok_def)
  next
    case neq: False
    then have yx: "y < x" "y < n"
      using assms(2,9) by auto
    have e: "rs' ! ring c n y = rs ! ring c n y"
      using False neq yx rs' by simp
    have "okey (rs' ! ring c n e) \<noteq> 0" if "okey (rs ! ring c n e) \<noteq> 0" "e < y" for e
      using that yx assms(2,5) rs' by simp
    then show ?thesis
      using before [rule_format, OF yx(1)] unfolding lin_ok_def e by blast
  qed
qed

lemma put_back:
  assumes "sized m" and "length (rows m) = n" and "ocap m = n" and "c < n" and "i < n"
    and "single_rows (omap_entries (rows m))" and "ocount m = size (omap_entries (rows m))"
    and r: "r = rows m ! i" "okey r \<noteq> 0"
    and d: "okey ((rows m)[i := r\<lparr>okey := 0\<rparr>] ! ring c n (home c n (okey r) + d)) = 0"
      "\<forall>e<d. okey ((rows m)[i := r\<lparr>okey := 0\<rparr>] ! ring c n (home c n (okey r) + e)) \<noteq> 0"
  defines "m' \<equiv> m\<lparr>rows := (rows m)[i := r\<lparr>okey := 0\<rparr>, ring c n (home c n (okey r) + d) := r]\<rparr>"
  shows "omap_put_raw (omap_clear m i) r = Some m'" and "omap_entries (rows m') = omap_entries (rows m)"
proof -
  define rs where "rs = (rows m)[i := r\<lparr>okey := 0\<rparr>]"
  have pos: "omap_position n (okey r) e = ring c n (home c n (okey r) + e)" for e
    by (simp add: position_home [OF assms(4)])
  have en: "omap_entries (rows m) = add_mset r (omap_entries rs)"
    unfolding omap_entries_def rs_def using assms(2,5) r by (intro entries_update_unused) simp_all
  have fresh: "\<forall>r'. r' \<in># omap_entries rs \<longrightarrow> okey r' \<noteq> okey r"
    using assms(6) by (simp add: en single_by_add)
  have prefix: "\<not> row_found rs (okey r) (omap_position n (okey r) e)" if "e < d" for e
  proof -
    have z: "okey (rs ! ring c n (home c n (okey r) + e)) \<noteq> 0"
      using d(2) that by (simp add: rs_def)
    moreover have "ring c n (home c n (okey r) + e) < length rs"
      using assms(2,4) by (simp add: rs_def ring_less)
    ultimately have "rs ! ring c n (home c n (okey r) + e) \<in># omap_entries rs"
      by (simp add: omap_entries_iff)
    with fresh z show ?thesis
      by (auto simp: row_found_def pos)
  qed
  have cl: "omap_clear m i = m\<lparr>rows := rs, ocount := ocount m - 1\<rparr>"
    by (simp add: omap_clear_def rs_def r(1))
  have "ocount m - 1 + 1 = ocount m"
    using assms(7) by (simp add: en)
  then show "omap_put_raw (omap_clear m i) r = Some m'"
    using omap_put_raw_eq [of "omap_clear m i" r d] prefix d(1) assms(1,3)
    by (simp add: cl m'_def sized_def pos row_found_def rs_def)
  show "omap_entries (rows m') = omap_entries (rows m)"
    using entries_update_free [of "ring c n (home c n (okey r) + d)" rs row_state r r] d(1) r(2) assms(2,4)
    by (simp add: en) (simp add: m'_def rs_def ring_less omap_entries_def)
qed

lemma repairing_step:
  assumes "repairing c x m" and "x < ocap m - 1"
  defines "i \<equiv> ring c (ocap m) x"
  shows "\<exists>m'. omap_put_raw (omap_clear m i) (rows m ! i) = Some m' \<and> repairing c (x + 1) m' \<and>
    ocap m' = ocap m \<and> omap_entries (rows m') = omap_entries (rows m)"
proof -
  define n where "n = ocap m"
  define r where "r = rows m ! i"
  define h where "h = home c n (okey r)"
  define z where "z = r\<lparr>okey := 0\<rparr>"
  define rs where "rs = (rows m)[i := z]"
  have m: "sized m" "ocap m = n" "c < n" "x < n" "length (rows m) = n" "okey (rows m ! ring c n (n - 1)) = 0"
    "\<forall>y<x. lin_ok c n (rows m) y" "single_rows (omap_entries (rows m))"
    "ocount m = size (omap_entries (rows m))" "omask m = of_nat n - 1" "\<exists>k<64. n = 2 ^ k"
    and behind: "\<And>y. x \<le> y \<Longrightarrow> y < n - 1 \<Longrightarrow> okey (rows m ! ring c n y) \<noteq> 0 \<and>
      home c n (okey (rows m ! ring c n y)) \<le> y"
    using assms(1) by (auto simp: repairing_def sized_def n_def)
  have r: "okey r \<noteq> 0" "h \<le> x"
    using behind [of x] assms(2) by (simp_all add: r_def h_def i_def n_def)
  have i: "i < n"
    using m(3) by (simp add: i_def n_def [symmetric] ring_less)
  have rs: "rs ! ring c n y = (if y = x then z else rows m ! ring c n y)" if "y < n" for y
    using that m(4) i ring_inj [of y n x c] m(5)
    by (auto simp: rs_def i_def n_def [symmetric] nth_list_update)
  obtain d where d: "h + d \<le> x" "\<not> okey (rs ! ring c n (h + d)) \<noteq> 0"
      "\<forall>e<d. okey (rs ! ring c n (h + e)) \<noteq> 0"
  proof (rule first_gap [OF r(2), of "\<lambda>y. okey (rs ! ring c n y) \<noteq> 0"])
    show "\<not> okey (rs ! ring c n x) \<noteq> 0"
      using m(4) by (simp add: rs z_def)
  qed (rule that)
  define m' where "m' = m\<lparr>rows := rs[ring c n (h + d) := r]\<rparr>"
  have put: "omap_put_raw (omap_clear m i) r = Some m'" "omap_entries (rows m') = omap_entries (rows m)"
    using put_back [OF m(1,5,2,3) i m(8,9) r_def r(1), of d] d(2,3)
    by (simp_all add: m'_def rs_def z_def h_def)
  have rows': "\<forall>y<n. rows m' ! ring c n y =
      (if y = h + d then r else if y = x then z else rows m ! ring c n y)"
  proof (intro allI impI)
    fix y
    assume y: "y < n"
    have "length rs = n"
      using m(5) by (simp add: rs_def)
    then have "rows m' ! ring c n y = (if y = h + d then r else rs ! ring c n y)"
      using d(1) m(4) y ring_inj [of y n "h + d" c] ring_less [of n c "h + d"]
      by (auto simp: m'_def nth_list_update)
    with rs [OF y] show "rows m' ! ring c n y =
        (if y = h + d then r else if y = x then z else rows m ! ring c n y)" by simp
  qed
  have lin: "\<forall>y<x + 1. lin_ok c n (rows m') y"
    using lin_ok_moved [OF m(7,4) d(1) rows' r(1)] d rs m(4) by (simp add: h_def z_def)
  have m': "ocap m' = n" "sized m'" "ocount m' = ocount m"
    using m by (simp_all add: m'_def sized_def rs_def)
  have "x + 1 < n" "okey (rows m' ! ring c n (n - 1)) = 0"
    using assms(2) m(6) rows' d(1) by (auto simp: n_def)
  moreover have "okey (rows m' ! ring c n y) \<noteq> 0 \<and> home c n (okey (rows m' ! ring c n y)) \<le> y"
    if "x + 1 \<le> y" "y < n - 1" for y
    using behind [of y] rows' d(1) that by simp
  ultimately have "repairing c (x + 1) m'"
    using m' put(2) m(3,8,9) lin by (simp add: repairing_def)
  with put m' show ?thesis
    by (auto simp: r_def n_def)
qed

lemma omap_reinsert_spec:
  assumes "repairing c x m" and "unat j = ring c (ocap m) x"
  shows "\<exists>m'. omap_reinsert j m = Some m' \<and> wf_rows m' \<and> ocap m' = ocap m \<and>
    omap_entries (rows m') = omap_entries (rows m)"
  using assms
proof (induction "ocap m - 1 - x" arbitrary: x m j rule: less_induct)
  case less
  have x: "x < ocap m" "c < ocap m" "sized m"
    using less.prems(1) by (auto simp: repairing_def)
  show ?case
  proof (cases "x = ocap m - 1")
    case True
    then have "okey (rows m ! unat j) = 0" "wf_rows m"
      using less.prems repairing_done by (auto simp: repairing_def)
    then show ?thesis
      by (subst omap_reinsert.simps) simp
  next
    case False
    then have lt: "x < ocap m - 1"
      using x(1) by simp
    have ne: "okey (rows m ! unat j) \<noteq> 0"
      using less.prems lt by (simp add: repairing_def)
    obtain m1 where m1: "omap_put_raw (omap_clear m (unat j)) (rows m ! unat j) = Some m1"
      "repairing c (x + 1) m1" "ocap m1 = ocap m" "omap_entries (rows m1) = omap_entries (rows m)"
      using repairing_step [OF less.prems(1) lt] less.prems(2) by auto
    obtain k where k: "k < 64" "ocap m = 2 ^ k" "omask m = of_nat (2 ^ k) - 1"
      using x(3) by (auto simp: sized_def)
    have "unat j < 2 ^ k"
      using less.prems(2) x ring_less [of "ocap m" c x] k(2) by simp
    then have "unat ((j + 1) AND omask m) = (unat j + 1) mod 2 ^ k"
      unfolding k(3) by (rule ring_next [OF k(1)])
    then have j: "unat ((j + 1) AND omask m) = ring c (ocap m1) (x + 1)"
      using less.prems(2) k(2) m1(3) by (simp add: ring_def mod_Suc_eq)
    have "\<exists>m'. omap_reinsert ((j + 1) AND omask m) m1 = Some m' \<and> wf_rows m' \<and> ocap m' = ocap m1 \<and>
        omap_entries (rows m') = omap_entries (rows m1)"
      using m1(3) lt by (intro less.hyps [OF _ m1(2) j]) simp
    with m1 ne show ?thesis
      by (subst omap_reinsert.simps) auto
  qed
qed

text \<open>Taking the row at slot \<open>i\<close> out starts the repair behind it.\<close>

lemma repairing_start:
  assumes "wf_rows m" and "i < ocap m" and "okey (rows m ! i) \<noteq> 0"
    and "i0 < ocap m" and "okey (rows m ! i0) = 0"
  shows "\<exists>c x. repairing c (x + 1) (omap_clear m i) \<and> ring c (ocap m) x = i \<and>
    omap_entries (rows m) = add_mset (rows m ! i) (omap_entries (rows (omap_clear m i)))"
proof -
  define n where "n = ocap m"
  define rs where "rs = rows m"
  define z where "z = (rs ! i)\<lparr>okey := 0\<rparr>"
  have m: "sized m" "length rs = n" "i < n" "okey (rs ! i) \<noteq> 0" "rows_ok rs"
      "ocount m = size (omap_entries rs)"
    using assms by (auto simp: wf_rows_def sized_def n_def rs_def)
  obtain t where t: "t < n" "ring i n t = i0"
    using ring_surj [of i0 n i] assms(4) m(3) by (metis n_def)
  obtain e where e: "0 + e \<le> t" "\<not> okey (rs ! ring i n (0 + e)) \<noteq> 0" "\<forall>s<e. okey (rs ! ring i n (0 + s)) \<noteq> 0"
    using first_gap [of 0 t "\<lambda>y. okey (rs ! ring i n y) \<noteq> 0"] t assms(5) by (auto simp: rs_def)
  have "e \<noteq> 0"
    using e(2) m(3,4) by (auto simp: ring_def intro: ccontr)
  define c where "c = ring i n (e + 1)"
  define x where "x = n - 1 - e"
  have x: "x + 1 < n" "x < n" and c: "c < n"
    using \<open>e \<noteq> 0\<close> e(1) t(1) by (auto simp: x_def c_def ring_less)
  have shift: "ring c n y = ring i n (e + 1 + y)" for y
    unfolding c_def ring_def by (metis add.assoc mod_add_left_eq)
  have xi: "ring c n x = i"
    using e(1) t(1) m(3) unfolding shift by (simp add: x_def ring_def)
  have last: "ring c n (n - 1) = ring i n e"
  proof -
    have "i + (e + 1 + (n - 1)) = i + e + n"
      using x by simp
    then show ?thesis
      unfolding shift by (simp only: ring_def mod_add_self2)
  qed
  have between: "ring c n (x + s) = ring i n s" for s
  proof -
    have "i + (e + 1 + (x + s)) = i + s + n"
      using e(1) t(1) by (simp add: x_def)
    then show ?thesis
      unfolding shift by (simp only: ring_def mod_add_self2)
  qed
  have lin: "\<forall>y<n. lin_ok c n rs y"
    using m(2,5) e(2) last chained_lin [OF c m(2)] by (simp add: rows_ok_def)
  define rs' where "rs' = rs[i := z]"
  have rs': "rs' ! ring c n y = (if y = x then z else rs ! ring c n y)" if "y < n" for y
    using that m(2,3) ring_inj [OF that x(2), of c] by (auto simp: rs'_def xi nth_list_update)
  have "okey (rs' ! ring c n (n - 1)) = 0"
    using rs' [of "n - 1"] x e(2) last by (simp add: z_def)
  moreover have "okey (rs' ! ring c n y) \<noteq> 0 \<and> home c n (okey (rs' ! ring c n y)) \<le> y"
    if "x + 1 \<le> y" "y < n - 1" for y
  proof -
    have "okey (rs ! ring c n (x + (y - x))) \<noteq> 0"
      using that e(1,3) t(1) by (subst between) (auto simp: x_def)
    with that lin rs' show ?thesis
      by (auto simp: lin_ok_def)
  qed
  moreover have "lin_ok c n rs' y" if "y < x + 1" for y
  proof (cases "y = x")
    case False
    then have y: "y < x" "y < n" using that x(2) by auto
    have same: "rs' ! ring c n e = rs ! ring c n e" if "e \<le> y" for e
      using that y x(2) by (simp add: rs')
    then show ?thesis
      using lin [rule_format, OF y(2)] by (auto simp: lin_ok_def)
  qed (use rs' x(2) in \<open>simp add: lin_ok_def z_def\<close>)
  moreover have en: "omap_entries rs = add_mset (rs ! i) (omap_entries rs')"
    unfolding omap_entries_def rs'_def using m(2-4)
    by (intro entries_update_unused) (simp_all add: z_def)
  moreover have "single_rows (omap_entries rs')"
    using m(5) by (simp add: rows_ok_def en single_by_add)
  moreover have "omap_clear m i = m\<lparr>rows := rs', ocount := ocount m - 1\<rparr>"
    by (simp add: omap_clear_def rs'_def z_def rs_def)
  moreover have "sized (m\<lparr>rows := rs', ocount := ocount m - 1\<rparr>)"
    using m(1) by (simp add: sized_def rs'_def rs_def)
  ultimately have "repairing c (x + 1) (omap_clear m i)"
    using c x m(6) by (simp add: repairing_def n_def)
  with en xi show ?thesis
    by (auto simp: omap_clear_def rs'_def z_def rs_def n_def)
qed

lemma omap_take_spec:
  assumes "wf_omap m" and "a \<noteq> 0"
  shows "\<exists>m'. omap_take m a = Some (m', omap_lookup m a) \<and> wf_omap m' \<and> ocount m' \<le> ocount m \<and>
    omap_lookup m' = (omap_lookup m)(a := None)"
proof -
  have m: "wf_rows m" "sized m" "rows_ok (rows m)" "length (rows m) = ocap m" "1024 \<le> ocap m"
      "ocount m * 10 < ocap m * 7" "ocount m = size (omap_entries (rows m))"
    using assms(1) by (auto simp: wf_omap_def wf_rows_def sized_def)
  obtain i0 where i0: "i0 < ocap m" "okey (rows m ! i0) = 0"
    using some_row_empty [OF m(1)] m(6) by auto
  show ?thesis
  proof (rule row_search [OF m(4,3) i0 assms(2)])
    fix d
    assume d: "d < ocap m" "okey (row_at m a d) = 0"
      "\<forall>i<d. \<not> row_found (rows m) a (omap_position (ocap m) a i)"
      "\<forall>r. r \<in># omap_entries (rows m) \<longrightarrow> okey r \<noteq> a"
    then have none: "omap_lookup m a = None"
      using wf_lookup_iff [OF m(1), of a] by (metis not_None_eq)
    have "row_found (rows m) a (omap_position (ocap m) a d)"
      using d(2) by (simp add: row_found_def)
    from probe_rows [OF m(2) this d(3)] have "omap_take m a = Some (m, None)"
      using d(2) by (auto simp: omap_take_def)
    with none assms(1) show ?thesis
      by (auto simp: fun_upd_idem)
  next
    fix d
    assume d: "d < ocap m" "okey (row_at m a d) = a"
      "\<forall>i<d. \<not> row_found (rows m) a (omap_position (ocap m) a i)"
    define i where "i = omap_position (ocap m) a d"
    define r where "r = rows m ! i"
    have i: "i < ocap m" "okey (rows m ! i) \<noteq> 0" "okey r = a"
      using d(1,2) assms(2) live_rows.pos_less by (auto simp: i_def r_def)
    obtain h where h: "probe_from (row_found (rows m) a) (omask m) (mix64 a AND omask m) = Some h" "unat h = i"
      using probe_rows [OF m(2) _ d(3)] d(2) unfolding i_def row_found_def by blast
    obtain c x where cx: "repairing c (x + 1) (omap_clear m i)" "ring c (ocap m) x = i"
      "omap_entries (rows m) = add_mset r (omap_entries (rows (omap_clear m i)))"
      using repairing_start [OF m(1) i(1,2) i0] unfolding r_def by blast
    obtain k where k: "k < 64" "ocap m = 2 ^ k" "omask m = of_nat (2 ^ k) - 1"
      using m(2) by (auto simp: sized_def)
    have cap: "ocap (omap_clear m i) = ocap m"
      by (simp add: omap_clear_def)
    have "unat ((h + 1) AND omask m) = ring c (ocap (omap_clear m i)) (x + 1)"
    proof -
      have "unat ((h + 1) AND omask m) = (i + 1) mod ocap m"
        using ring_next [OF k(1), of h] h(2) i(1) unfolding k by simp
      also have "\<dots> = ring c (ocap m) (x + 1)"
        unfolding cx(2) [symmetric] by (simp add: ring_def mod_Suc_eq)
      finally show ?thesis
        unfolding cap .
    qed
    from omap_reinsert_spec [OF cx(1) this] obtain m' where m':
      "omap_reinsert ((h + 1) AND omask m) (omap_clear m i) = Some m'" "wf_rows m'"
      "ocap m' = ocap m" "omap_entries (rows m) = add_mset r (omap_entries (rows m'))"
      using cx(3) cap by auto
    have "omap_lookup m a = Some r"
      using wf_lookup_iff [OF m(1)] m'(4) i(3) by simp
    moreover have "omap_take m a = Some (m', Some r)"
      using h m'(1) i(2) by (simp add: omap_take_def r_def)
    moreover have "omap_lookup m' = (omap_lookup m)(a := None)"
    proof (rule omap_lookup_eqI [OF m'(2)])
      fix b x
      have "\<forall>x. x \<in># omap_entries (rows m') \<longrightarrow> okey x \<noteq> a"
        using single_entries [OF m(1)] m'(4) i(3) by (simp add: single_by_add)
      then show "x \<in># omap_entries (rows m') \<and> okey x = b \<longleftrightarrow> ((omap_lookup m)(a := None)) b = Some x"
        using wf_lookup_iff [OF m(1), of b x] m'(4) i(3) by auto
    qed
    moreover have "ocount m' + 1 = ocount m"
      using m'(2,4) m(7) by (simp add: wf_rows_def)
    ultimately show ?thesis
      using m'(2,3) m(5,6) by (simp add: wf_omap_alt)
  qed
qed

subsection \<open>The first table\<close>

lemma init_capacity_doubles:
  assumes "j \<le> 63" and "unat (max_live * 2) \<le> 2 ^ 63"
  shows "\<exists>k\<le>63. init_capacity max_live (of_nat (2 ^ j)) = Some (of_nat (2 ^ k))"
  using assms(1)
proof (induction "63 - j" arbitrary: j rule: less_induct)
  case less
  have u: "unat (of_nat (2 ^ j) :: u64) = 2 ^ j"
    using power_increasing [OF less.prems, of "2::nat"] by (intro unat_of_nat_u64) simp
  show ?case
  proof (cases "(of_nat (2 ^ j) :: u64) < max_live * 2")
    case True
    then have "2 ^ j < unat (max_live * 2)"
      unfolding word_less_nat_alt u .
    with assms(2) have "(2::nat) ^ j < 2 ^ 63" by linarith
    then have j: "j < 63"
      by (rule power_less_imp_less_exp [rotated]) simp
    have "push_bit 1 (of_nat (2 ^ j) :: u64) = of_nat (2 ^ (j + 1))"
      by (simp add: push_bit_eq_mult mult.commute)
    then have "init_capacity max_live (of_nat (2 ^ j)) = init_capacity max_live (of_nat (2 ^ (j + 1)))"
      using True by (subst init_capacity.simps) (simp only: if_True)
    moreover have "\<exists>k\<le>63. init_capacity max_live (of_nat (2 ^ (j + 1))) = Some (of_nat (2 ^ k))"
      using j by (intro less.hyps) simp_all
    ultimately show ?thesis by presburger
  next
    case False
    then have "init_capacity max_live (of_nat (2 ^ j)) = Some (of_nat (2 ^ j))"
      by (subst init_capacity.simps) (simp del: of_nat_power)
    with less.prems show ?thesis by blast
  qed
qed

text \<open>Past \<open>2^63\<close> the shift gives 0, and 0 stays below the bound for ever.\<close>

lemma init_capacity_diverges:
  assumes "2 ^ 63 < unat (max_live * 2)" and "c = 0 \<or> (\<exists>j\<le>63. c = of_nat (2 ^ j))"
  shows "init_capacity max_live c = None"
proof -
  have "2 ^ 63 < unat (max_live * 2) \<longrightarrow> (c = 0 \<or> (\<exists>j\<le>63. c = of_nat (2 ^ j))) \<longrightarrow> False"
    if "init_capacity max_live c = Some y" for y
    using that
  proof (rule init_capacity.raw_induct [rotated])
    fix f :: "u64 \<Rightarrow> u64 \<Rightarrow> u64 option" and max_live c y :: u64
    assume IH: "\<And>max_live c y. f max_live c = Some y \<Longrightarrow> 2 ^ 63 < unat (max_live * 2) \<longrightarrow>
        (c = 0 \<or> (\<exists>j\<le>63. c = of_nat (2 ^ j))) \<longrightarrow> False"
      and s: "(if c < max_live * 2 then f max_live (push_bit 1 c) else Some c) = Some y"
    show "2 ^ 63 < unat (max_live * 2) \<longrightarrow> (c = 0 \<or> (\<exists>j\<le>63. c = of_nat (2 ^ j))) \<longrightarrow> False"
    proof (intro impI)
      assume big: "2 ^ 63 < unat (max_live * 2)" and c: "c = 0 \<or> (\<exists>j\<le>63. c = of_nat (2 ^ j))"
      have "unat c \<le> 2 ^ 63"
      proof (cases "c = 0")
        case False
        then obtain j where j: "j \<le> 63" "c = of_nat (2 ^ j)" using c by blast
        then have "(2::nat) ^ j \<le> 2 ^ 63" by (intro power_increasing) simp_all
        then show ?thesis unfolding j(2) by (subst unat_of_nat_u64) simp_all
      qed simp
      then have less: "c < max_live * 2"
        using big unfolding word_less_nat_alt by linarith
      have "push_bit 1 c = 0 \<or> (\<exists>j\<le>63. push_bit 1 c = of_nat (2 ^ j))"
        using c
      proof (elim disjE exE conjE)
        fix j
        assume j: "j \<le> 63" "c = of_nat (2 ^ j)"
        have p: "push_bit 1 c = (of_nat (2 ^ (j + 1)) :: u64)"
          unfolding j(2) by (simp add: push_bit_eq_mult)
        show ?thesis
        proof (cases "j = 63")
          case True
          then show ?thesis unfolding p by simp
        next
          case False
          with j(1) have "j + 1 \<le> 63" by simp
          with p show ?thesis by blast
        qed
      qed simp
      with IH s less big show False by auto
    qed
  qed
  with assms show ?thesis by (cases "init_capacity max_live c") auto
qed

lemma omap_init_spec:
  "(omap_init max_live \<noteq> None \<longleftrightarrow> unat (max_live * 2) \<le> 2 ^ 63) \<and>
    (\<forall>m. omap_init max_live = Some m \<longrightarrow> wf_omap m \<and> ocount m = 0 \<and> omap_lookup m = Map.empty)"
proof (cases "unat (max_live * 2) \<le> 2 ^ 63")
  case True
  then obtain k where k: "k \<le> 63" "init_capacity max_live 1 = Some (of_nat (2 ^ k))"
    using init_capacity_doubles [of 0 max_live] by auto
  define cap where "cap = max (2 ^ k) (1024::nat)"
  have "(2::nat) ^ k \<le> 2 ^ 63"
    using k(1) by (intro power_increasing) simp_all
  then have "unat (of_nat (2 ^ k) :: u64) = 2 ^ k"
    by (intro unat_of_nat_u64) simp
  then have i: "omap_init max_live = Some (omap_alloc cap)"
    using k(2) by (simp add: omap_init_def omap_alloc_def cap_def max_def Let_def)
  have "cap = 2 ^ max k 10"
    using power_increasing_iff [of "2::nat" k 10] power_increasing_iff [of "2::nat" 10 k]
    by (auto simp: cap_def max_def)
  then have "wf_rows (omap_alloc cap) \<and> ocap (omap_alloc cap) = cap \<and> ocount (omap_alloc cap) = 0 \<and>
      omap_entries (rows (omap_alloc cap)) = {#}"
    using k(1) by (intro wf_alloc [of _ "max k 10"]) (auto simp: cap_def)
  then have "wf_omap (omap_alloc cap)" "ocount (omap_alloc cap) = 0"
    "omap_lookup (omap_alloc cap) = Map.empty"
    by (simp_all add: wf_omap_alt cap_def omap_lookup_eqI)
  with i True show ?thesis by simp
next
  case False
  then have "init_capacity max_live 1 = None"
    by (intro init_capacity_diverges) (auto intro: exI [of _ 0])
  with False show ?thesis by (simp add: omap_init_def)
qed

subsection \<open>The contract of the map\<close>

text \<open>
  What the pass over the trace relies on: a map of bounded size from keys other than \<open>null\<close>,
  whose entries are put in and taken out, and whose operations return.
\<close>

locale take_map =
  fixes put :: "'m \<Rightarrow> 'v \<Rightarrow> 'm option" and take :: "'m \<Rightarrow> 'k \<Rightarrow> ('m \<times> 'v option) option"
    and inv :: "'m \<Rightarrow> bool" and held :: "'m \<Rightarrow> nat" and lookup :: "'m \<Rightarrow> 'k \<rightharpoonup> 'v"
    and key :: "'v \<Rightarrow> 'k" and null :: 'k and room :: nat
  assumes put_law: "inv m \<Longrightarrow> key v \<noteq> null \<Longrightarrow> held m < room \<Longrightarrow>
      \<exists>m'. put m v = Some m' \<and> inv m' \<and> held m' \<le> held m + 1 \<and> lookup m' = (lookup m)(key v \<mapsto> v)"
    and take_law: "inv m \<Longrightarrow> k \<noteq> null \<Longrightarrow>
      \<exists>m'. take m k = Some (m', lookup m k) \<and> inv m' \<and> held m' \<le> held m \<and> lookup m' = (lookup m)(k := None)"
begin

text \<open>Taking an entry and putting it back leaves the map as it was.\<close>

lemma take_put:
  assumes "inv m" and "k \<noteq> null" and "lookup m k = Some v" and "key v = k" and "held m < room"
  shows "\<exists>m1 m2. take m k = Some (m1, Some v) \<and> put m1 v = Some m2 \<and> inv m2 \<and> lookup m2 = lookup m"
proof -
  obtain m1 where m1: "take m k = Some (m1, Some v)" "inv m1" "held m1 \<le> held m"
    "lookup m1 = (lookup m)(k := None)"
    using take_law [OF assms(1,2)] assms(3) by auto
  obtain m2 where "put m1 v = Some m2" "inv m2" "lookup m2 = (lookup m1)(k \<mapsto> v)"
    using put_law [OF m1(2), of v] assms(2,4,5) m1(3) by auto
  with m1 assms(3) show ?thesis
    by (auto simp: fun_upd_idem)
qed

text \<open>What was put in last under a key is what comes out.\<close>

lemma put_take:
  assumes "inv m" and "key v \<noteq> null" and "held m < room"
  shows "\<exists>m1 m2. put m v = Some m1 \<and> take m1 (key v) = Some (m2, Some v) \<and> inv m2 \<and>
    lookup m2 = (lookup m)(key v := None)"
proof -
  obtain m1 where m1: "put m v = Some m1" "inv m1" "lookup m1 = (lookup m)(key v \<mapsto> v)"
    using put_law [OF assms] by auto
  obtain m2 where "take m1 (key v) = Some (m2, Some v)" "inv m2" "lookup m2 = (lookup m1)(key v := None)"
    using take_law [OF m1(2) assms(2)] m1(3) by auto
  with m1 show ?thesis by auto
qed

end

interpretation live: take_map omap_put omap_take wf_omap ocount omap_lookup okey 0 "2 ^ 60"
proof unfold_locales
  fix m :: omap and v :: omap_row and k :: u64
  show "wf_omap m \<Longrightarrow> okey v \<noteq> 0 \<Longrightarrow> ocount m < 2 ^ 60 \<Longrightarrow> \<exists>m'. omap_put m v = Some m' \<and> wf_omap m' \<and>
      ocount m' \<le> ocount m + 1 \<and> omap_lookup m' = (omap_lookup m)(okey v \<mapsto> v)"
    by (rule omap_put_spec)
  show "wf_omap m \<Longrightarrow> k \<noteq> 0 \<Longrightarrow> \<exists>m'. omap_take m k = Some (m', omap_lookup m k) \<and> wf_omap m' \<and>
      ocount m' \<le> ocount m \<and> omap_lookup m' = (omap_lookup m)(k := None)"
    by (rule omap_take_spec)
qed

text \<open>C27: The live-object map of the replayer is a finite map and its loops end: \<open>omap_init\<close>
  returns exactly when twice the requested size (in 64 bits) is at most \<open>2^63\<close>, with an empty
  table; on every table that follows, \<open>omap_put\<close> and \<open>omap_take\<close> return (with fewer than
  \<open>2^60\<close> entries in it) and bind or unbind exactly the one address, which includes that
  \<open>omap_take\<close> leaves every other entry reachable after moving the entries of its cluster.\<close>

theorem live_map_refines:
  "(omap_init max_live \<noteq> None \<longleftrightarrow> unat (max_live * 2) \<le> 2 ^ 63) \<and>
   (\<forall>m. omap_init max_live = Some m \<longrightarrow> wf_omap m \<and> ocount m = 0 \<and> omap_lookup m = Map.empty) \<and>
   (\<forall>m r. wf_omap m \<and> okey r \<noteq> 0 \<and> ocount m < 2 ^ 60 \<longrightarrow>
     (\<exists>m'. omap_put m r = Some m' \<and> wf_omap m' \<and> ocount m' \<le> ocount m + 1 \<and>
       omap_lookup m' = (omap_lookup m)(okey r \<mapsto> r))) \<and>
   (\<forall>m a. wf_omap m \<and> a \<noteq> 0 \<longrightarrow>
     (\<exists>m'. omap_take m a = Some (m', omap_lookup m a) \<and> wf_omap m' \<and> ocount m' \<le> ocount m \<and>
       omap_lookup m' = (omap_lookup m)(a := None)))"
  using omap_init_spec [of max_live] live.put_law live.take_law by blast

lemma live_map_refines_witness:
  "\<exists>m m1 m2. omap_init 600 = Some m \<and>
    omap_put m \<lparr>okey = 4096, oslot = 7, ogen = 1, oowner = 0, osize = 32, olast_ts = 5\<rparr> = Some m1 \<and>
    omap_take m1 4096 =
      Some (m2, Some \<lparr>okey = 4096, oslot = 7, ogen = 1, oowner = 0, osize = 32, olast_ts = 5\<rparr>) \<and>
    omap_lookup m2 = Map.empty"
proof -
  define r where "r = \<lparr>okey = 4096, oslot = 7, ogen = 1, oowner = 0, osize = 32, olast_ts = 5\<rparr>"
  have r: "okey r \<noteq> 0" "okey r = 4096" by (simp_all add: r_def)
  obtain m where m: "omap_init 600 = Some m" "wf_omap m" "ocount m = 0" "omap_lookup m = Map.empty"
    using conjunct1 [OF live_map_refines [of 600]]
      conjunct1 [OF conjunct2 [OF live_map_refines [of 600]]] by auto
  have "ocount m < 2 ^ 60" by (simp add: m(3))
  then have "\<exists>m1. omap_put m r = Some m1 \<and> wf_omap m1 \<and> ocount m1 \<le> ocount m + 1 \<and>
      omap_lookup m1 = (omap_lookup m)(okey r \<mapsto> r)"
    using conjunct1 [OF conjunct2 [OF conjunct2 [OF live_map_refines [of 600]]]] m(2) r(1) by blast
  then obtain m1 where m1: "omap_put m r = Some m1" "wf_omap m1" "omap_lookup m1 = [4096 \<mapsto> r]"
    using m(4) r(2) by auto
  have "\<exists>m2. omap_take m1 4096 = Some (m2, omap_lookup m1 4096) \<and> wf_omap m2 \<and> ocount m2 \<le> ocount m1 \<and>
      omap_lookup m2 = (omap_lookup m1)(4096 := None)"
    by (rule conjunct2 [OF conjunct2 [OF conjunct2 [OF live_map_refines [of 600]]],
          THEN spec, THEN spec, THEN mp]) (simp add: m1(2))
  then obtain m2 where "omap_take m1 4096 = Some (m2, Some r)" "omap_lookup m2 = Map.empty"
    unfolding m1(3) by auto
  with m(1) m1(1) show ?thesis
    unfolding r_def by blast
qed

end
