(* ===== verification/ReplayPlan.thy ===== *)
theory ReplayPlan
  imports Schedules ReplayMap ReplayTools "HOL-Library.Sublist"
begin

text \<open>
  The pass of \<open>replay_main.c\<close> over a trace, before anything is replayed: it numbers the threads
  of the trace as workers, gives every object a slot, turns the records into operations on
  slots and generations, and appends each operation to the vector of its worker. A free or a
  reallocation names the generation it waits for, an allocation or a reallocation the one it
  publishes. The lemmas show what the replay relies on: along the trace every generation is
  made before it is waited for, made once and waited for at most once.

  The records of a trace are those \<open>bin_to_rply\<close> writes (\<open>rply_entry\<close>, six words). A pass ends in
  a plan, in an exit of the program, or not at all.
\<close>

subsection \<open>The model\<close>

datatype 'a run = Diverges | Exits nat | Returns (returned: 'a)

fun run_bind :: "'a run \<Rightarrow> ('a \<Rightarrow> 'b run) \<Rightarrow> 'b run" where
  "run_bind Diverges f = Diverges"
| "run_bind (Exits c) f = Exits c"
| "run_bind (Returns x) f = f x"

definition of_loop :: "'a option \<Rightarrow> 'a run" where
  "of_loop x = (case x of None \<Rightarrow> Diverges | Some y \<Rightarrow> Returns y)"

definition NUM_FUNCS :: u16 where "NUM_FUNCS = 10"
definition MAX_THREADS :: nat where "MAX_THREADS = 65536"
definition TIDCAP :: nat where "TIDCAP = 1048576"
definition ACCESS_DESC_NONE :: u32 where "ACCESS_DESC_NONE = UINT32_MAX"

definition MALLOC_I :: u16 where "MALLOC_I = 0"
definition FREE_I :: u16 where "FREE_I = 1"
definition CALLOC_I :: u16 where "CALLOC_I = 2"
definition REALLOC_I :: u16 where "REALLOC_I = 3"
definition FREE_SIZED_I :: u16 where "FREE_SIZED_I = 4"
definition POSIX_MEMALIGN_I :: u16 where "POSIX_MEMALIGN_I = 5"
definition ALIGNED_ALLOC_I :: u16 where "ALIGNED_ALLOC_I = 6"
definition VALLOC_I :: u16 where "VALLOC_I = 7"
definition MEMALIGN_I :: u16 where "MEMALIGN_I = 8"
definition PVALLOC_I :: u16 where "PVALLOC_I = 9"
definition REPLAY_THREAD_CREATE_I :: u16 where "REPLAY_THREAD_CREATE_I = 100"
definition REPLAY_THREAD_START_I :: u16 where "REPLAY_THREAD_START_I = 101"
definition REPLAY_THREAD_END_I :: u16 where "REPLAY_THREAD_END_I = 102"
definition REPLAY_THREAD_JOIN_I :: u16 where "REPLAY_THREAD_JOIN_I = 103"

datatype op_kind = OP_ALLOC | OP_FREE | OP_REALLOC | OP_REALLOC_NULL | OP_UNKNOWN_FREE

datatype unknown_policy = UNKNOWN_SKIP | UNKNOWN_ERROR | UNKNOWN_SYNTHETIC

record replay_op =
  op_ts :: u64
  op_size :: u64
  op_aux :: u64
  op_slot :: u32
  op_wait_gen :: u32
  op_out_gen :: u32
  op_func :: u16
  op_kind :: op_kind
  op_access_desc_idx :: u32

text \<open>An operation vector: its first \<open>len\<close> elements, and the capacity of its mapping.\<close>

record opvec =
  ov_data :: "replay_op list"
  ov_cap :: nat

definition opvec_push :: "opvec \<Rightarrow> replay_op \<Rightarrow> opvec" where
  "opvec_push v o1 =
    (let v = (if length (ov_data v) = ov_cap v
              then v\<lparr>ov_cap := (if ov_cap v \<noteq> 0 then ov_cap v * 2 else 1024)\<rparr> else v)
     in v\<lparr>ov_data := ov_data v @ [o1]\<rparr>)"

text \<open>The part of \<open>worker_t\<close> the pass writes.\<close>

record worker =
  tid_trace :: u64
  start_ts :: u64
  end_ts :: u64
  first_op_ts :: u64
  last_op_ts :: u64
  has_start :: bool
  has_end :: bool
  recorded_cpu :: int
  access_prng :: u64
  w_ops :: opvec

record tid_row =
  tk :: u64
  tv :: nat

text \<open>The counters of the pass.\<close>

record plan_counts =
  g_total_allocs :: u64
  g_total_frees :: u64
  g_total_reallocs :: u64
  g_failed_allocs :: u64
  g_failed_reallocs :: u64
  g_unknown_frees :: u64
  g_unknown_reallocs :: u64
  g_remote_frees :: u64
  g_local_frees :: u64
  g_remote_reallocs :: u64
  g_local_reallocs :: u64
  g_thread_create_events :: u64
  g_thread_start_events :: u64
  g_thread_end_events :: u64
  g_thread_join_events :: u64

record plan =
  g_ws :: "worker list"
  g_tids :: "tid_row list"
  p_live :: omap
  p_next_slot :: u64
  g_min_ts :: u64
  g_max_ts :: u64
  p_counts :: plan_counts

text \<open>The options the pass reads.\<close>

record replay_options =
  g_unknown_policy :: unknown_policy
  g_synthetic_size :: u64
  g_access_desc_count :: u32

abbreviation bump :: "((u64 \<Rightarrow> u64) \<Rightarrow> plan_counts \<Rightarrow> plan_counts) \<Rightarrow> plan \<Rightarrow> plan" where
  "bump counter \<equiv> p_counts_update (counter (\<lambda>n. n + 1))"

definition new_worker :: "u64 \<Rightarrow> worker" where
  "new_worker tid =
    \<lparr>tid_trace = tid, start_ts = - 1, end_ts = 0, first_op_ts = - 1, last_op_ts = 0,
     has_start = False, has_end = False, recorded_cpu = - 1,
     access_prng = (let x = mix64 (tid XOR 0x9e3779b97f4a7c15) in if x = 0 then 1 else x),
     w_ops = \<lparr>ov_data = [], ov_cap = 0\<rparr>\<rparr>"

definition tid_found :: "tid_row list \<Rightarrow> u64 \<Rightarrow> nat \<Rightarrow> bool" where
  "tid_found rs tid h \<longleftrightarrow> tk (rs ! h) = - 1 \<or> tk (rs ! h) = tid + 1"

definition worker_register :: "u64 \<Rightarrow> plan \<Rightarrow> (nat \<times> plan) run" where
  "worker_register tid p =
    run_bind (of_loop (probe_from (tid_found (g_tids p) tid) (of_nat TIDCAP - 1)
                        (mix64 tid AND (of_nat TIDCAP - 1))))
     (\<lambda>h. if tk (g_tids p ! unat h) = - 1 then
            if MAX_THREADS \<le> length (g_ws p) then Exits 1
            else Returns (length (g_ws p),
              p\<lparr>g_ws := g_ws p @ [new_worker tid],
                g_tids := (g_tids p)[unat h := \<lparr>tk = tid + 1, tv = length (g_ws p)\<rparr>]\<rparr>)
          else Returns (tv (g_tids p ! unat h), p))"

definition worker_note_op :: "u64 \<Rightarrow> worker \<Rightarrow> worker" where
  "worker_note_op ts w =
    (let w = (if ts < first_op_ts w then w\<lparr>first_op_ts := ts\<rparr> else w)
     in if last_op_ts w < ts then w\<lparr>last_op_ts := ts\<rparr> else w)"

definition note_cpu :: "rply_entry \<Rightarrow> worker \<Rightarrow> worker" where
  "note_cpu e w =
    (if recorded_cpu w < 0
     then w\<lparr>recorded_cpu := sint (ucast (func_and_cpu e AND 0xFFFFFFFF) :: u32)\<rparr> else w)"

definition on_worker :: "nat \<Rightarrow> (worker \<Rightarrow> worker) \<Rightarrow> plan \<Rightarrow> plan" where
  "on_worker wi f p = p\<lparr>g_ws := update_at wi f (g_ws p)\<rparr>"

definition push_op :: "nat \<Rightarrow> replay_op \<Rightarrow> plan \<Rightarrow> plan" where
  "push_op wi o1 = on_worker wi (\<lambda>w. w\<lparr>w_ops := opvec_push (w_ops w) o1\<rparr>)"

definition max_u64 :: "u64 \<Rightarrow> u64 \<Rightarrow> u64" where
  "max_u64 a b = (if b < a then a else b)"

text \<open>\<open>worker_register\<close> with the two updates that follow it for an operation.\<close>

definition register_for_op :: "rply_entry \<Rightarrow> plan \<Rightarrow> (nat \<times> plan) run" where
  "register_for_op e p =
    run_bind (worker_register (thread_id e) p)
      (\<lambda>(wi, p). Returns (wi, on_worker wi (note_cpu e \<circ> worker_note_op (timestamp e)) p))"

definition access_desc :: "replay_options \<Rightarrow> u32 \<Rightarrow> u32" where
  "access_desc opts slot = (if slot < g_access_desc_count opts then slot else ACCESS_DESC_NONE)"

definition live_put :: "omap_row \<Rightarrow> plan \<Rightarrow> plan run" where
  "live_put r p = run_bind (of_loop (omap_put (p_live p) r)) (\<lambda>m. Returns (p\<lparr>p_live := m\<rparr>))"

text \<open>A new object: the next slot, with generation 1, made by \<open>kind\<close> and live at \<open>result\<close>.\<close>

definition plan_new :: "replay_options \<Rightarrow> rply_entry \<Rightarrow> u16 \<Rightarrow> op_kind \<Rightarrow> nat \<Rightarrow> plan \<Rightarrow> plan run" where
  "plan_new opts e func kind wi p =
    (let slot = ucast (p_next_slot p);
         o1 = \<lparr>op_ts = timestamp e, op_size = entry_size e, op_aux = 0, op_slot = slot,
               op_wait_gen = 0, op_out_gen = 1, op_func = func, op_kind = kind,
               op_access_desc_idx = access_desc opts slot\<rparr>
     in live_put \<lparr>okey = entry_result e, oslot = slot, ogen = 1, oowner = of_nat wi,
                  osize = entry_size e, olast_ts = op_ts o1\<rparr>
          (push_op wi o1 (p\<lparr>p_next_slot := p_next_slot p + 1\<rparr>)))"

definition plan_thread_event :: "rply_entry \<Rightarrow> u16 \<Rightarrow> plan \<Rightarrow> plan run" where
  "plan_thread_event e func p =
    run_bind (worker_register (thread_id e) p) (\<lambda>(wi, p). Returns
      (if func = REPLAY_THREAD_CREATE_I then bump g_thread_create_events_update p
       else if func = REPLAY_THREAD_START_I then
         on_worker wi (\<lambda>w. w\<lparr>has_start := True,
             start_ts := (if timestamp e < start_ts w then timestamp e else start_ts w)\<rparr>)
           (bump g_thread_start_events_update p)
       else if func = REPLAY_THREAD_END_I then
         on_worker wi (\<lambda>w. w\<lparr>has_end := True,
             end_ts := (if end_ts w < timestamp e then timestamp e else end_ts w)\<rparr>)
           (bump g_thread_end_events_update p)
       else if func = REPLAY_THREAD_JOIN_I then bump g_thread_join_events_update p
       else p))"

definition plan_alloc :: "replay_options \<Rightarrow> rply_entry \<Rightarrow> u16 \<Rightarrow> plan \<Rightarrow> plan run" where
  "plan_alloc opts e func p =
    (let p = bump g_total_allocs_update p in
     if entry_result e = 0 then Returns (bump g_failed_allocs_update p)
     else if ucast UINT32_MAX < p_next_slot p then Exits 1
     else run_bind (register_for_op e p) (\<lambda>(wi, p). plan_new opts e func OP_ALLOC wi p))"

definition plan_free :: "replay_options \<Rightarrow> rply_entry \<Rightarrow> plan \<Rightarrow> plan run" where
  "plan_free opts e p =
    (let p = bump g_total_frees_update p in
     if entry_address e = 0 then Returns p
     else run_bind (register_for_op e p) (\<lambda>(fw, p).
       run_bind (of_loop (omap_take (p_live p) (entry_address e))) (\<lambda>(m, found).
         let p = p\<lparr>p_live := m\<rparr> in
         case found of
           None \<Rightarrow> Returns (push_op fw
               \<lparr>op_ts = timestamp e, op_size = g_synthetic_size opts, op_aux = 0, op_slot = 0,
                op_wait_gen = 0, op_out_gen = 0, op_func = FREE_I, op_kind = OP_UNKNOWN_FREE,
                op_access_desc_idx = ACCESS_DESC_NONE\<rparr> (bump g_unknown_frees_update p))
         | Some r \<Rightarrow> Returns (push_op fw
               \<lparr>op_ts = max_u64 (timestamp e) (olast_ts r), op_size = osize r, op_aux = 0,
                op_slot = oslot r, op_wait_gen = ogen r, op_out_gen = 0, op_func = FREE_I,
                op_kind = OP_FREE, op_access_desc_idx = access_desc opts (oslot r)\<rparr>
               (if of_nat fw = oowner r then bump g_local_frees_update p
                else bump g_remote_frees_update p)))))"

text \<open>\<open>realloc\<close> of an address that is live: a failed one puts the row back.\<close>

definition plan_realloc_known :: "replay_options \<Rightarrow> rply_entry \<Rightarrow> nat \<Rightarrow> omap_row \<Rightarrow> plan \<Rightarrow> plan run" where
  "plan_realloc_known opts e rw r p =
    (let p = (if of_nat rw = oowner r then bump g_local_reallocs_update p
              else bump g_remote_reallocs_update p) in
     if entry_result e = 0 \<and> entry_size e \<noteq> 0
     then live_put (r\<lparr>okey := entry_address e\<rparr>) (bump g_failed_reallocs_update p)
     else
       let new_gen = ogen r + 1;
           o1 = \<lparr>op_ts = max_u64 (timestamp e) (olast_ts r), op_size = entry_size e, op_aux = 0,
                 op_slot = oslot r, op_wait_gen = ogen r, op_out_gen = new_gen,
                 op_func = REALLOC_I, op_kind = OP_REALLOC,
                 op_access_desc_idx = access_desc opts (oslot r)\<rparr>;
           p = push_op rw o1 p
       in if entry_result e \<noteq> 0
          then live_put \<lparr>okey = entry_result e, oslot = oslot r, ogen = new_gen, oowner = of_nat rw,
                         osize = entry_size e, olast_ts = op_ts o1\<rparr> p
          else Returns p)"

definition plan_realloc :: "replay_options \<Rightarrow> rply_entry \<Rightarrow> plan \<Rightarrow> plan run" where
  "plan_realloc opts e p =
    run_bind (register_for_op e (bump g_total_reallocs_update p)) (\<lambda>(rw, p).
      if entry_address e = 0 then
        if entry_result e = 0 then Returns (bump g_failed_reallocs_update p)
        else if ucast UINT32_MAX < p_next_slot p then Exits 1
        else plan_new opts e REALLOC_I OP_REALLOC_NULL rw p
      else run_bind (of_loop (omap_take (p_live p) (entry_address e))) (\<lambda>(m, found).
        let p = p\<lparr>p_live := m\<rparr> in
        case found of
          None \<Rightarrow>
            let p = bump g_unknown_reallocs_update p in
            if entry_result e \<noteq> 0 then
              if ucast UINT32_MAX < p_next_slot p then Exits 1
              else plan_new opts e MALLOC_I OP_ALLOC rw p
            else Returns p
        | Some r \<Rightarrow> plan_realloc_known opts e rw r p))"

definition record_func :: "rply_entry \<Rightarrow> u16" where
  "record_func e = ucast (drop_bit 32 (func_and_cpu e))"

definition plan_record :: "replay_options \<Rightarrow> rply_entry \<Rightarrow> plan \<Rightarrow> plan run" where
  "plan_record opts e p =
    (let func = record_func e;
         p = (if timestamp e < g_min_ts p then p\<lparr>g_min_ts := timestamp e\<rparr> else p);
         p = (if g_max_ts p < timestamp e then p\<lparr>g_max_ts := timestamp e\<rparr> else p)
     in if REPLAY_THREAD_CREATE_I \<le> func then plan_thread_event e func p
        else if NUM_FUNCS \<le> func then Returns p
        else if func = FREE_I \<or> func = FREE_SIZED_I then plan_free opts e p
        else if func = REALLOC_I then plan_realloc opts e p
        else plan_alloc opts e func p)"

fun plan_records :: "replay_options \<Rightarrow> rply_entry list \<Rightarrow> plan \<Rightarrow> plan run" where
  "plan_records opts [] p = Returns p"
| "plan_records opts (e # es) p = run_bind (plan_record opts e p) (plan_records opts es)"

definition zero_counts :: plan_counts where
  "zero_counts = \<lparr>g_total_allocs = 0, g_total_frees = 0, g_total_reallocs = 0, g_failed_allocs = 0,
    g_failed_reallocs = 0, g_unknown_frees = 0, g_unknown_reallocs = 0, g_remote_frees = 0,
    g_local_frees = 0, g_remote_reallocs = 0, g_local_reallocs = 0, g_thread_create_events = 0,
    g_thread_start_events = 0, g_thread_end_events = 0, g_thread_join_events = 0\<rparr>"

definition initial_plan :: "omap \<Rightarrow> plan" where
  "initial_plan m = \<lparr>g_ws = [], g_tids = replicate TIDCAP \<lparr>tk = - 1, tv = 0\<rparr>, p_live = m,
    p_next_slot = 0, g_min_ts = - 1, g_max_ts = 0, p_counts = zero_counts\<rparr>"

subsection \<open>Lifetimes\<close>

definition worker_has_ops_or_lifecycle :: "worker \<Rightarrow> bool" where
  "worker_has_ops_or_lifecycle w \<longleftrightarrow> ov_data (w_ops w) \<noteq> [] \<or> has_start w \<or> has_end w"

definition finalize_worker :: "u64 \<Rightarrow> u64 \<Rightarrow> worker \<Rightarrow> worker" where
  "finalize_worker min_ts max_ts w =
    (if \<not> worker_has_ops_or_lifecycle w then w
     else
       let w = (if has_start w then w
                else w\<lparr>start_ts := (if first_op_ts w \<noteq> - 1 then first_op_ts w else min_ts)\<rparr>);
           w = (if has_end w then w
                else w\<lparr>end_ts := (if last_op_ts w \<noteq> 0 then last_op_ts w else max_ts)\<rparr>);
           w = (if start_ts w = - 1 then w\<lparr>start_ts := min_ts\<rparr> else w)
       in if end_ts w < start_ts w then w\<lparr>end_ts := start_ts w\<rparr> else w)"

definition inferred_threads :: "worker list \<Rightarrow> nat" where
  "inferred_threads ws = length (filter (\<lambda>w. worker_has_ops_or_lifecycle w \<and> \<not> has_start w) ws)"

definition finalize_worker_lifetimes :: "u64 \<Rightarrow> u64 \<Rightarrow> worker list \<Rightarrow> worker list \<times> u64" where
  "finalize_worker_lifetimes min_ts max_ts ws =
    (map (finalize_worker min_ts max_ts) ws, of_nat (inferred_threads ws))"

text \<open>What the pass hands to the replay.\<close>

record replay_plan =
  rp_workers :: "worker list"
  rp_total_slots :: u32
  rp_total_ops :: u64
  rp_min_ts :: u64
  rp_max_ts :: u64
  rp_live_left_at_end :: nat
  rp_inferred_threads :: u64
  rp_counts :: plan_counts

definition finish_plan :: "replay_options \<Rightarrow> plan \<Rightarrow> replay_plan run" where
  "finish_plan opts p =
    (if g_unknown_policy opts = UNKNOWN_ERROR \<and>
        (g_unknown_frees (p_counts p) \<noteq> 0 \<or> g_unknown_reallocs (p_counts p) \<noteq> 0)
     then Exits 3
     else
       let min_ts = (if g_min_ts p = - 1 then 0 else g_min_ts p);
           (ws, inferred) = finalize_worker_lifetimes min_ts (g_max_ts p) (g_ws p)
       in Returns \<lparr>rp_workers = ws, rp_total_slots = ucast (p_next_slot p),
            rp_total_ops = (\<Sum>w\<leftarrow>g_ws p. of_nat (length (ov_data (w_ops w)))),
            rp_min_ts = min_ts, rp_max_ts = g_max_ts p,
            rp_live_left_at_end = ocount (p_live p), rp_inferred_threads = inferred,
            rp_counts = p_counts p\<rparr>)"

text \<open>
  The trace: \<open>idx\<close> is the first word of the file, if it could be read, \<open>st_size\<close> the size \<open>fstat\<close>
  gives. The number of records, or \<open>None\<close> where \<open>main\<close> returns 1.
\<close>

definition trace_records :: "u64 option \<Rightarrow> int option \<Rightarrow> u64 option" where
  "trace_records idx st_size =
    (case idx of None \<Rightarrow> None
     | Some idx_val \<Rightarrow>
         if idx_val mod 6 \<noteq> 0 then None
         else
           let records = idx_val div 6 in
           if (SIZE_MAX - 8) div 48 < records then None
           else
             let map_len = 8 + records * 48 in
             case st_size of None \<Rightarrow> None
             | Some n \<Rightarrow> if n < 0 \<or> (of_int n :: u64) < map_len then None else Some records)"

definition plan_trace :: "replay_options \<Rightarrow> u64 \<Rightarrow> rply_entry list \<Rightarrow> replay_plan run" where
  "plan_trace opts map_live es =
    run_bind (of_loop (omap_init map_live)) (\<lambda>m.
      run_bind (plan_records opts es (initial_plan m)) (finish_plan opts))"

subsection \<open>The table of the threads\<close>

definition tid_state :: "tid_row \<Rightarrow> tid_row slot_state" where
  "tid_state r = (if tk r = - 1 then Empty else Used r)"

definition tid_position :: "u64 \<Rightarrow> nat \<Rightarrow> nat" where
  "tid_position k j = (unat (mix64 (k - 1)) + j) mod TIDCAP"

interpretation tids: probing tid_state tk tid_position TIDCAP TIDCAP
  by unfold_locales (simp add: tid_position_def TIDCAP_def)

lemma tid_state_simps [simp]:
  "tid_state r = Empty \<longleftrightarrow> tk r = - 1" "tid_state r \<noteq> Deleted"
  "tid_state r = Used e \<longleftrightarrow> r = e \<and> tk e \<noteq> - 1" "is_Used (tid_state r) \<longleftrightarrow> tk r \<noteq> - 1"
  by (auto simp: tid_state_def)

definition tids_ok :: "plan \<Rightarrow> bool" where
  "tids_ok p \<longleftrightarrow> length (g_tids p) = TIDCAP \<and> chained tid_state tk tid_position TIDCAP (g_tids p) \<and>
    length (g_ws p) \<le> MAX_THREADS \<and> size (entries tid_state (g_tids p)) \<le> length (g_ws p) \<and>
    (\<forall>r. r \<in># entries tid_state (g_tids p) \<longrightarrow>
      tv r < length (g_ws p) \<and> tid_trace (g_ws p ! tv r) + 1 = tk r) \<and>
    (\<forall>i<length (g_ws p). tid_trace (g_ws p ! i) + 1 \<noteq> - 1 \<longrightarrow>
      (\<exists>r. r \<in># entries tid_state (g_tids p) \<and> tk r = tid_trace (g_ws p ! i) + 1 \<and> tv r = i))"

lemma tid_mask: "(of_nat TIDCAP - 1 :: u64) = of_nat (2 ^ 20) - 1"
  by (simp add: TIDCAP_def)

lemma tid_probe:
  assumes "stop (tid_position (tid + 1) d)" and "\<forall>i<d. \<not> stop (tid_position (tid + 1) i)"
  shows "\<exists>h. probe_from stop (of_nat TIDCAP - 1) (mix64 tid AND (of_nat TIDCAP - 1)) = Some h \<and>
    unat h = tid_position (tid + 1) d"
proof -
  let ?h = "mix64 tid AND (of_nat (2 ^ 20) - 1)"
  have h: "unat ?h = unat (mix64 tid) mod 2 ^ 20"
    by (rule ring_mask) simp
  have p: "tid_position (tid + 1) i = (unat ?h + i) mod 2 ^ 20" for i
    unfolding h tid_position_def TIDCAP_def by (simp add: mod_add_left_eq)
  have "unat ?h < 2 ^ 20"
    unfolding h by simp
  then show ?thesis
    using assms unfolding tid_mask p by (intro probe_from_ring) simp_all
qed

lemma tid_row_free:
  assumes "tids_ok p"
  obtains i where "i < TIDCAP" and "tk (g_tids p ! i) = - 1"
proof -
  have "size (entries tid_state (g_tids p)) < TIDCAP"
    using assms by (simp add: tids_ok_def MAX_THREADS_def TIDCAP_def)
  moreover have "entries tid_state rs = mset (filter (\<lambda>r. tk r \<noteq> - 1) rs)" for rs
    by (induction rs) (simp_all add: entries_def tid_state_def)
  ultimately have "length (filter (\<lambda>r. tk r \<noteq> - 1) (g_tids p)) < length (g_tids p)"
    using assms by (metis size_mset tids_ok_def)
  then have "\<exists>r\<in>set (g_tids p). tk r = - 1"
    by (metis (mono_tags, lifting) filter_True less_irrefl)
  then show ?thesis
    using that assms by (auto simp: in_set_conv_nth tids_ok_def)
qed

text \<open>
  A thread id is found, or becomes a new worker. The id \<open>2^64 - 2\<close> has the key that marks an
  empty slot: its row is written but stays empty, so it is new at every record.
\<close>

lemma tids_ok_extend:
  assumes "tids_ok p" and "length (g_ws p) < MAX_THREADS"
    and "length rs = TIDCAP" and "chained tid_state tk tid_position TIDCAP rs"
    and "entries tid_state rs = (if k = - 1 then entries tid_state (g_tids p)
      else add_mset \<lparr>tk = k, tv = length (g_ws p)\<rparr> (entries tid_state (g_tids p)))"
    and "k = tid + 1"
  shows "tids_ok (p\<lparr>g_ws := g_ws p @ [new_worker tid], g_tids := rs\<rparr>)"
proof -
  have ws: "tid_trace ((g_ws p @ [new_worker tid]) ! j) =
      (if j < length (g_ws p) then tid_trace (g_ws p ! j) else tid)" if "j < length (g_ws p) + 1" for j
    using that by (auto simp: nth_append new_worker_def)
  have old: "size (entries tid_state (g_tids p)) \<le> length (g_ws p)"
    "\<And>r. r \<in># entries tid_state (g_tids p) \<Longrightarrow>
      tv r < length (g_ws p) \<and> tid_trace (g_ws p ! tv r) + 1 = tk r"
    "\<And>i. i < length (g_ws p) \<Longrightarrow> tid_trace (g_ws p ! i) + 1 \<noteq> - 1 \<Longrightarrow>
      \<exists>r. r \<in># entries tid_state (g_tids p) \<and> tk r = tid_trace (g_ws p ! i) + 1 \<and> tv r = i"
    using assms(1) by (auto simp: tids_ok_def)
  have "size (entries tid_state rs) \<le> length (g_ws p) + 1"
    using old(1) assms(5) by simp
  moreover have "tv r < length (g_ws p) + 1 \<and> tid_trace ((g_ws p @ [new_worker tid]) ! tv r) + 1 = tk r"
    if "r \<in># entries tid_state rs" for r
  proof (cases "r \<in># entries tid_state (g_tids p)")
    case True
    with old(2) [of r] ws [of "tv r"] show ?thesis by simp
  next
    case False
    then have "r = \<lparr>tk = k, tv = length (g_ws p)\<rparr>"
      using that assms(5) by (auto split: if_splits)
    then show ?thesis
      using ws [of "length (g_ws p)"] assms(6) by simp
  qed
  moreover have "\<exists>r. r \<in># entries tid_state rs \<and>
      tk r = tid_trace ((g_ws p @ [new_worker tid]) ! i) + 1 \<and> tv r = i"
    if lt: "i < length (g_ws p) + 1" and ne: "tid_trace ((g_ws p @ [new_worker tid]) ! i) + 1 \<noteq> - 1" for i
  proof (cases "i < length (g_ws p)")
    case True
    then obtain r where "r \<in># entries tid_state (g_tids p)" "tk r = tid_trace (g_ws p ! i) + 1" "tv r = i"
      using old(3) [of i] ne unfolding ws [OF lt] if_P [OF True] by blast
    moreover from this have "r \<in># entries tid_state rs"
      using assms(5) by (metis add_mset_remove_trivial diff_union_single_conv insert_iff set_mset_add_mset_insert)
    ultimately show ?thesis
      unfolding ws [OF lt] if_P [OF True] by blast
  next
    case False
    then have i: "i = length (g_ws p)" using lt by simp
    have w: "tid_trace ((g_ws p @ [new_worker tid]) ! i) + 1 = k"
      using ws [OF lt] i assms(6) by simp
    with ne have "k \<noteq> - 1" by simp
    then show ?thesis
      using assms(5) unfolding w
      by (intro exI [of _ "\<lparr>tk = k, tv = length (g_ws p)\<rparr>"]) (simp add: i)
  qed
  ultimately show ?thesis
    using assms(1-4) by (simp add: tids_ok_def)
qed

lemma tids_ok_new:
  assumes "tids_ok p" and "length (g_ws p) < MAX_THREADS" and "d < TIDCAP"
    and "tk (g_tids p ! tid_position (tid + 1) d) = - 1"
    and "\<forall>i<d. tk (g_tids p ! tid_position (tid + 1) i) \<noteq> - 1"
  shows "tids_ok (p\<lparr>g_ws := g_ws p @ [new_worker tid],
    g_tids := (g_tids p)[tid_position (tid + 1) d := \<lparr>tk = tid + 1, tv = length (g_ws p)\<rparr>]\<rparr>)"
proof -
  let ?i = "tid_position (tid + 1) d" and ?r = "\<lparr>tk = tid + 1, tv = length (g_ws p)\<rparr>"
  have i: "?i < length (g_tids p)" "length (g_tids p) = TIDCAP"
    using assms(1,3) tids.pos_less by (auto simp: tids_ok_def)
  have len: "length ((g_tids p)[?i := ?r]) = TIDCAP"
    using i(2) by simp
  have old: "chained tid_state tk tid_position TIDCAP (g_tids p)"
    using assms(1) by (simp add: tids_ok_def)
  show ?thesis
  proof (cases "tid + 1 = - 1")
    case True
    have st: "map tid_state ((g_tids p)[?i := ?r]) = map tid_state (g_tids p)"
    proof -
      have "tid_state ?r = tid_state (g_tids p ! ?i)"
        unfolding tid_state_def assms(4) using True by simp
      then show ?thesis
        unfolding map_update by (metis i(1) list_update_id map_update)
    qed
    then have en: "entries tid_state ((g_tids p)[?i := ?r]) = entries tid_state (g_tids p)"
      unfolding entries_def by (metis mset_map)
    have "chained tid_state tk tid_position TIDCAP ((g_tids p)[?i := ?r])"
    proof (rule chained_same [OF old])
      fix j
      assume "j < length (g_tids p)"
      then show "tid_state ((g_tids p)[?i := ?r] ! j) = tid_state (g_tids p ! j)"
        using st by (metis length_list_update nth_map)
    qed (simp_all add: i(2) tids.pos_less)
    with en True show ?thesis
      by (intro tids_ok_extend [OF assms(1,2) len, of "tid + 1"]) (simp_all only: if_True refl)
  next
    case False
    have en: "entries tid_state ((g_tids p)[?i := ?r]) = add_mset ?r (entries tid_state (g_tids p))"
      using i(1) assms(4) False by (intro entries_update_free) simp_all
    have "chained tid_state tk tid_position TIDCAP ((g_tids p)[?i := ?r])"
    proof (rule chained_update [OF old])
      fix e
      assume "tid_state ?r = Used e"
      then show "\<exists>j<TIDCAP. tid_position (tk e) j = ?i \<and>
          (\<forall>m<j. tid_state (g_tids p ! tid_position (tk e) m) \<noteq> Empty)"
        using assms(3,5) by (intro exI [of _ d]) auto
    qed (use False in simp)
    with en False show ?thesis
      by (intro tids_ok_extend [OF assms(1,2) len, of "tid + 1"]) (simp_all only: if_False refl)
  qed
qed

definition registered :: "u64 \<Rightarrow> plan \<Rightarrow> nat \<Rightarrow> plan \<Rightarrow> bool" where
  "registered tid p wi p' \<longleftrightarrow> tids_ok p' \<and> wi < length (g_ws p') \<and> tid_trace (g_ws p' ! wi) = tid \<and>
    (p' = p \<or> (\<exists>rs. p' = p\<lparr>g_ws := g_ws p @ [new_worker tid], g_tids := rs\<rparr> \<and>
      (tid \<noteq> - 2 \<longrightarrow> tid \<notin> tid_trace ` set (g_ws p))))"

lemma worker_register_spec:
  assumes "tids_ok p"
  obtains (full) "worker_register tid p = Exits 1" "length (g_ws p) = MAX_THREADS"
      "tid \<noteq> - 2 \<longrightarrow> tid \<notin> tid_trace ` set (g_ws p)"
  | (found) wi p' where "worker_register tid p = Returns (wi, p')" "registered tid p wi p'"
proof -
  have len: "length (g_tids p) = TIDCAP" and ch: "chained tid_state tk tid_position TIDCAP (g_tids p)"
    using assms by (auto simp: tids_ok_def)
  obtain i0 where i0: "i0 < TIDCAP" "tk (g_tids p ! i0) = - 1"
    using tid_row_free [OF assms] .
  obtain j0 where j0: "j0 < TIDCAP" "tid_state (g_tids p ! tid_position (tid + 1) j0) = Empty"
    using linear_reaches [OF i0(1), of "unat (mix64 (tid + 1 - 1))"] i0(2)
    unfolding tid_position_def by auto
  show thesis
  proof (rule tids.search_outcome [OF ch len j0])
    fix d
    assume d: "d < TIDCAP" "tid_state (g_tids p ! tid_position (tid + 1) d) = Empty"
      and prefix: "\<forall>i<d. tid_state (g_tids p ! tid_position (tid + 1) i) \<noteq> Empty \<and>
        (\<forall>e. tid_state (g_tids p ! tid_position (tid + 1) i) = Used e \<longrightarrow> tk e \<noteq> tid + 1)"
      and fresh: "\<forall>e. e \<in># entries tid_state (g_tids p) \<longrightarrow> tk e \<noteq> tid + 1"
    have pr: "\<forall>i<d. \<not> tid_found (g_tids p) tid (tid_position (tid + 1) i)"
      using prefix by (simp add: tid_found_def)
    have "tid_found (g_tids p) tid (tid_position (tid + 1) d)"
      using d(2) by (simp add: tid_found_def)
    from tid_probe [OF this pr] obtain h where h:
      "probe_from (tid_found (g_tids p) tid) (of_nat TIDCAP - 1) (mix64 tid AND (of_nat TIDCAP - 1)) = Some h"
      "unat h = tid_position (tid + 1) d" by blast
    have new: "tid \<noteq> - 2 \<longrightarrow> tid \<notin> tid_trace ` set (g_ws p)"
    proof (intro impI notI)
      assume "tid \<noteq> - 2" and "tid \<in> tid_trace ` set (g_ws p)"
      then obtain i where "i < length (g_ws p)" "tid_trace (g_ws p ! i) = tid"
        by (auto simp: in_set_conv_nth)
      moreover from \<open>tid \<noteq> - 2\<close> have "tid + 1 \<noteq> - 1"
        by (metis add_diff_cancel_right' diff_minus_eq_add minus_diff_commute one_add_one uminus_add_conv_diff)
      ultimately show False
        using assms fresh by (auto simp: tids_ok_def)
    qed
    show thesis
    proof (cases "MAX_THREADS \<le> length (g_ws p)")
      case True
      then show thesis
        using h d(2) assms new by (intro full) (simp_all add: worker_register_def of_loop_def tids_ok_def)
    next
      case False
      have "tids_ok (p\<lparr>g_ws := g_ws p @ [new_worker tid],
          g_tids := (g_tids p)[tid_position (tid + 1) d := \<lparr>tk = tid + 1, tv = length (g_ws p)\<rparr>]\<rparr>)"
        using False d prefix by (intro tids_ok_new [OF assms]) simp_all
      with False show thesis
        using h d(2) new
        by (intro found) (auto simp: worker_register_def of_loop_def registered_def new_worker_def)
    qed
  next
    fix d e
    assume d: "d < TIDCAP" "tid_state (g_tids p ! tid_position (tid + 1) d) = Used e" "tk e = tid + 1"
      and prefix: "\<forall>i<d. tid_state (g_tids p ! tid_position (tid + 1) i) \<noteq> Empty \<and>
        (\<forall>e. tid_state (g_tids p ! tid_position (tid + 1) i) = Used e \<longrightarrow> tk e \<noteq> tid + 1)"
    have pr: "\<forall>i<d. \<not> tid_found (g_tids p) tid (tid_position (tid + 1) i)"
      using prefix by (simp add: tid_found_def)
    have "tid_found (g_tids p) tid (tid_position (tid + 1) d)"
      using d(2,3) by (simp add: tid_found_def)
    from tid_probe [OF this pr] obtain h where h:
      "probe_from (tid_found (g_tids p) tid) (of_nat TIDCAP - 1) (mix64 tid AND (of_nat TIDCAP - 1)) = Some h"
      "unat h = tid_position (tid + 1) d" by blast
    have "e \<in># entries tid_state (g_tids p)"
      using d(1,2) len tids.pos_less [OF d(1)] unfolding entries_iff by metis
    then have "tv e < length (g_ws p)" "tid_trace (g_ws p ! tv e) = tid"
      using assms d(3) by (auto simp: tids_ok_def)
    then show thesis
      using h d(2) assms by (intro found) (auto simp: worker_register_def of_loop_def registered_def)
  qed
qed

subsection \<open>Schedules\<close>

text \<open>
  The operations of all workers in the order of the trace, each with its worker; the
  generation an operation waits for, and the one it publishes.
\<close>

type_synonym schedule = "(nat \<times> replay_op) list"

definition op_needs :: "replay_op \<Rightarrow> (u32 \<times> u32) option" where
  "op_needs o1 = (if op_kind o1 = OP_FREE \<or> op_kind o1 = OP_REALLOC
    then Some (op_slot o1, op_wait_gen o1) else None)"

definition op_makes :: "replay_op \<Rightarrow> (u32 \<times> u32) option" where
  "op_makes o1 = (if op_kind o1 = OP_ALLOC \<or> op_kind o1 = OP_REALLOC_NULL \<or> op_kind o1 = OP_REALLOC
    then Some (op_slot o1, op_out_gen o1) else None)"

definition made :: "schedule \<Rightarrow> (u32 \<times> u32) set" where
  "made s = {y. \<exists>x\<in>set s. op_makes (snd x) = Some y}"

definition needed :: "schedule \<Rightarrow> (u32 \<times> u32) set" where
  "needed s = {y. \<exists>x\<in>set s. op_needs (snd x) = Some y}"

text \<open>What the plan promises of the next operation.\<close>

definition fits :: "schedule \<Rightarrow> replay_op \<Rightarrow> bool" where
  "fits s o1 \<longleftrightarrow>
    (\<forall>x. op_needs o1 = Some x \<longrightarrow> x \<in> made s \<and> x \<notin> needed s) \<and>
    (\<forall>y. op_makes o1 = Some y \<longrightarrow> y \<notin> made s) \<and>
    (op_kind o1 = OP_REALLOC \<longrightarrow> unat (op_out_gen o1) = unat (op_wait_gen o1) + 1) \<and>
    (op_kind o1 = OP_ALLOC \<or> op_kind o1 = OP_REALLOC_NULL \<longrightarrow> op_out_gen o1 = 1)"

definition scheduled :: "schedule \<Rightarrow> bool" where
  "scheduled s \<longleftrightarrow> (\<forall>i<length s. fits (take i s) (snd (s ! i)))"

lemma made_simps [simp]:
  "made [] = {}" "made (s @ [(w, o1)]) = made s \<union> {y. op_makes o1 = Some y}"
  by (auto simp: made_def)

lemma needed_simps [simp]:
  "needed [] = {}" "needed (s @ [(w, o1)]) = needed s \<union> {y. op_needs o1 = Some y}"
  by (auto simp: needed_def)

lemma scheduled_Nil [simp]: "scheduled []"
  by (simp add: scheduled_def)

lemma scheduled_snoc [simp]: "scheduled (s @ [x]) \<longleftrightarrow> scheduled s \<and> fits s (snd x)"
  by (auto simp: scheduled_def less_Suc_eq nth_append)

lemma needed_made: "scheduled s \<Longrightarrow> needed s \<subseteq> made s"
  by (induction s rule: rev_induct) (auto simp: fits_def)

subsection \<open>The live objects of the pass\<close>

definition live_inv :: "schedule \<Rightarrow> (u64 \<rightharpoonup> omap_row) \<Rightarrow> bool" where
  "live_inv s L \<longleftrightarrow>
    (\<forall>a r. L a = Some r \<longrightarrow> okey r = a \<and> (oslot r, ogen r) \<in> made s \<and> (oslot r, ogen r) \<notin> needed s \<and>
      (\<forall>g. (oslot r, g) \<in> made s \<longrightarrow> g \<le> ogen r) \<and> unat (ogen r) \<le> length s) \<and>
    (\<forall>a b r r'. L a = Some r \<longrightarrow> L b = Some r' \<longrightarrow> oslot r = oslot r' \<longrightarrow> a = b)"

lemma live_inv_empty [simp]: "live_inv s Map.empty"
  by (simp add: live_inv_def)

lemma live_inv_row:
  assumes "live_inv s L" and "L a = Some r"
  shows "okey r = a" and "(oslot r, ogen r) \<in> made s" and "(oslot r, ogen r) \<notin> needed s"
    and "unat (ogen r) \<le> length s" and "(oslot r, g) \<in> made s \<Longrightarrow> g \<le> ogen r"
    and "\<forall>b r'. (L(a := None)) b = Some r' \<longrightarrow> oslot r' \<noteq> oslot r"
proof -
  have "okey r = a \<and> (oslot r, ogen r) \<in> made s \<and> (oslot r, ogen r) \<notin> needed s \<and>
      (\<forall>g. (oslot r, g) \<in> made s \<longrightarrow> g \<le> ogen r) \<and> unat (ogen r) \<le> length s"
    using conjunct1 [OF assms(1) [unfolded live_inv_def]] assms(2) by blast
  then show "okey r = a" and "(oslot r, ogen r) \<in> made s" and "(oslot r, ogen r) \<notin> needed s"
    and "unat (ogen r) \<le> length s" and "(oslot r, g) \<in> made s \<Longrightarrow> g \<le> ogen r"
    by simp_all
  have "\<And>b r'. L b = Some r' \<Longrightarrow> oslot r' = oslot r \<Longrightarrow> b = a"
    using assms unfolding live_inv_def by blast
  then show "\<forall>b r'. (L(a := None)) b = Some r' \<longrightarrow> oslot r' \<noteq> oslot r"
    by (metis fun_upd_apply option.distinct(1))
qed

lemma live_inv_forget: "live_inv s L \<Longrightarrow> live_inv s (L(a := None))"
  by (auto simp: live_inv_def split: if_splits)

text \<open>An operation on a slot no live object has.\<close>

lemma live_inv_op:
  assumes "live_inv s L" and "\<forall>b r. L b = Some r \<longrightarrow> oslot r \<noteq> slot"
    and "\<forall>y. op_needs o1 = Some y \<or> op_makes o1 = Some y \<longrightarrow> fst y = slot"
  shows "live_inv (s @ [(w, o1)]) L"
  using assms unfolding live_inv_def by (fastforce simp: le_Suc_eq)

lemma live_inv_put:
  assumes "live_inv s L" and "\<forall>b x. L b = Some x \<longrightarrow> oslot x \<noteq> oslot r"
    and "(oslot r, ogen r) \<in> made s" and "(oslot r, ogen r) \<notin> needed s"
    and "\<forall>g. (oslot r, g) \<in> made s \<longrightarrow> g \<le> ogen r" and "unat (ogen r) \<le> length s"
  shows "live_inv s (L(okey r \<mapsto> r))"
proof -
  have "a = b" if "(L(okey r \<mapsto> r)) a = Some x" "(L(okey r \<mapsto> r)) b = Some y" "oslot x = oslot y" for a b x y
    using that assms(1,2) unfolding live_inv_def by (auto split: if_splits)
  moreover have "okey x = a \<and> (oslot x, ogen x) \<in> made s \<and> (oslot x, ogen x) \<notin> needed s \<and>
      (\<forall>g. (oslot x, g) \<in> made s \<longrightarrow> g \<le> ogen x) \<and> unat (ogen x) \<le> length s"
    if "(L(okey r \<mapsto> r)) a = Some x" for a x
    using that assms(1,3-6) by (cases "a = okey r") (auto simp: live_inv_def)
  ultimately show ?thesis
    unfolding live_inv_def by blast
qed

subsection \<open>The invariant of the pass\<close>

text \<open>The threads of the workers; a step only adds to them.\<close>

definition tids_of :: "plan \<Rightarrow> u64 list" where
  "tids_of p = map tid_trace (g_ws p)"

lemma tids_of_simps [simp]:
  "tids_of (p_counts_update f p) = tids_of p" "tids_of (p\<lparr>p_live := m\<rparr>) = tids_of p"
  "tids_of (p\<lparr>p_next_slot := n\<rparr>) = tids_of p"
  "tids_of (g_min_ts_update g p) = tids_of p" "tids_of (g_max_ts_update g p) = tids_of p"
  by (simp_all add: tids_of_def)

definition plan_inv :: "nat \<Rightarrow> nat \<Rightarrow> schedule \<Rightarrow> plan \<Rightarrow> bool" where
  "plan_inv n c s p \<longleftrightarrow> tids_ok p \<and> wf_omap (p_live p) \<and> length s \<le> n \<and> ocount (p_live p) \<le> c \<and>
    unat (p_next_slot p) \<le> n \<and> (\<forall>w<length (g_ws p). ov_data (w_ops (g_ws p ! w)) = ops_of s w) \<and>
    (\<forall>x\<in>set s. fst x < length (g_ws p)) \<and> scheduled s \<and>
    distinct (filter (\<lambda>t. t \<noteq> - 2) (tids_of p)) \<and>
    (\<forall>y\<in>made s. unat (fst y) < unat (p_next_slot p)) \<and> live_inv s (omap_lookup (p_live p))"

lemma tids_ok_cong:
  assumes "g_tids p' = g_tids p" and "map tid_trace (g_ws p') = map tid_trace (g_ws p)"
  shows "tids_ok p' = tids_ok p"
proof -
  have l: "length (g_ws p') = length (g_ws p)"
    using assms(2) by (metis length_map)
  have t: "tid_trace (g_ws p' ! i) = tid_trace (g_ws p ! i)" if "i < length (g_ws p)" for i
    using assms(2) that l by (metis nth_map)
  show ?thesis
    unfolding tids_ok_def assms(1) l using t by (smt (verit))
qed

lemma plan_inv_frame [simp]:
  "plan_inv n c s (p_counts_update f p) = plan_inv n c s p"
  "plan_inv n c s (g_min_ts_update g p) = plan_inv n c s p"
  "plan_inv n c s (g_max_ts_update g p) = plan_inv n c s p"
  by (simp_all add: plan_inv_def tids_ok_def)

lemma plan_inv_mono: "plan_inv n c s p \<Longrightarrow> n \<le> m \<Longrightarrow> c \<le> d \<Longrightarrow> plan_inv m d s p"
  by (auto simp: plan_inv_def)

lemma on_worker_nth:
  "w < length (g_ws p) \<Longrightarrow> g_ws (on_worker wi f p) ! w = (if w = wi then f (g_ws p ! w) else g_ws p ! w)"
  "length (g_ws (on_worker wi f p)) = length (g_ws p)"
  by (simp_all add: on_worker_def)

lemma tids_ok_on_worker:
  assumes "\<And>w. tid_trace (f w) = tid_trace w"
  shows "tids_ok (on_worker wi f p) = tids_ok p"
proof (rule tids_ok_cong)
  show "map tid_trace (g_ws (on_worker wi f p)) = map tid_trace (g_ws p)"
    by (rule nth_equalityI) (simp_all add: on_worker_nth assms)
qed (simp add: on_worker_def)

lemma tids_of_on_worker: "(\<And>w. tid_trace (f w) = tid_trace w) \<Longrightarrow> tids_of (on_worker wi f p) = tids_of p"
  by (rule nth_equalityI) (simp_all add: tids_of_def on_worker_nth)

lemma plan_inv_on_worker:
  assumes "\<And>w. tid_trace (f w) = tid_trace w" and "\<And>w. w_ops (f w) = w_ops w" and "plan_inv n c s p"
  shows "plan_inv n c s (on_worker wi f p)"
proof -
  have "tids_ok (on_worker wi f p)"
    using assms(3) by (simp add: tids_ok_on_worker [OF assms(1)] plan_inv_def)
  then show ?thesis
    using assms(2,3)
    by (simp add: plan_inv_def on_worker_nth tids_of_on_worker [OF assms(1)]) (simp add: on_worker_def)
qed

lemma plan_inv_registered:
  assumes "plan_inv n c s p" and "registered tid p wi p'"
  shows "plan_inv n c s p'"
proof (cases "p' = p")
  case False
  then obtain rs where p': "p' = p\<lparr>g_ws := g_ws p @ [new_worker tid], g_tids := rs\<rparr>"
    using assms(2) by (auto simp: registered_def)
  have "ops_of s (length (g_ws p)) = []"
    using assms(1) by (auto simp: plan_inv_def ops_of_def filter_empty_conv)
  then have "\<forall>w<length (g_ws p'). ov_data (w_ops (g_ws p' ! w)) = ops_of s w"
    using assms(1) by (simp add: p' plan_inv_def nth_append less_Suc_eq new_worker_def)
  moreover have "tids_ok p'"
    using assms(2) by (simp add: registered_def)
  moreover have "tid \<noteq> - 2 \<longrightarrow> tid \<notin> set (tids_of p)"
    using assms(2) False by (auto simp: registered_def tids_of_def)
  then have "distinct (filter (\<lambda>t. t \<noteq> - 2) (tids_of p'))"
    using assms(1) by (simp add: p' plan_inv_def tids_of_def new_worker_def)
  ultimately show ?thesis
    using assms(1) by (auto simp: plan_inv_def p' less_SucI)
qed (use assms(1) in simp)

lemma push_op_fields [simp]:
  "p_live (push_op wi o1 p) = p_live p" "p_next_slot (push_op wi o1 p) = p_next_slot p"
  "length (g_ws (push_op wi o1 p)) = length (g_ws p)"
  by (simp_all add: push_op_def on_worker_def)

lemma tids_of_push [simp]: "tids_of (push_op wi o1 p) = tids_of p"
  unfolding push_op_def by (rule tids_of_on_worker) simp

lemma plan_inv_push_slot:
  assumes "plan_inv n c s p" and "wi < length (g_ws p)" and "fits s o1"
    and "unat (p_next_slot p) \<le> unat k" and "unat k \<le> n + 1"
    and "\<forall>y. op_makes o1 = Some y \<longrightarrow> unat (fst y) < unat k"
    and "live_inv (s @ [(wi, o1)]) (omap_lookup (p_live p))"
  shows "plan_inv (n + 1) c (s @ [(wi, o1)]) (push_op wi o1 (p\<lparr>p_next_slot := k\<rparr>))"
proof -
  have "tids_ok (push_op wi o1 (p\<lparr>p_next_slot := k\<rparr>))"
    using assms(1) unfolding push_op_def
    by (subst tids_ok_on_worker) (simp_all add: plan_inv_def tids_ok_def)
  moreover have "ov_data (w_ops (g_ws (push_op wi o1 (p\<lparr>p_next_slot := k\<rparr>)) ! w)) = ops_of (s @ [(wi, o1)]) w"
    if "w < length (g_ws p)" for w
    using assms(1) that by (simp add: push_op_def on_worker_nth plan_inv_def opvec_push_def Let_def)
  moreover have "unat (fst y) < unat k" if "y \<in> made s" for y
    using assms(1,4) that by (auto simp: plan_inv_def dest: bspec)
  ultimately show ?thesis
    using assms by (auto simp: plan_inv_def)
qed

lemma plan_inv_push:
  assumes "plan_inv n c s p" and "wi < length (g_ws p)" and "fits s o1"
    and "\<forall>y. op_makes o1 = Some y \<longrightarrow> unat (fst y) < unat (p_next_slot p)"
    and "live_inv (s @ [(wi, o1)]) (omap_lookup (p_live p))"
  shows "plan_inv (n + 1) c (s @ [(wi, o1)]) (push_op wi o1 p)"
  using plan_inv_push_slot [OF assms(1-3) order_refl _ assms(4,5)] assms(1) by (simp add: plan_inv_def)

lemma plan_inv_live:
  assumes "plan_inv n c s p" and "wf_omap m" and "ocount m \<le> d" and "live_inv s (omap_lookup m)"
  shows "plan_inv n d s (p\<lparr>p_live := m\<rparr>)"
  using assms by (simp add: plan_inv_def tids_ok_def)

lemma plan_take:
  assumes "plan_inv n c s p" and "a \<noteq> 0"
  obtains m where "omap_take (p_live p) a = Some (m, omap_lookup (p_live p) a)"
    and "plan_inv n c s (p\<lparr>p_live := m\<rparr>)" and "omap_lookup m = (omap_lookup (p_live p))(a := None)"
proof -
  obtain m where m: "omap_take (p_live p) a = Some (m, omap_lookup (p_live p) a)" "wf_omap m"
    "ocount m \<le> ocount (p_live p)" "omap_lookup m = (omap_lookup (p_live p))(a := None)"
    using live.take_law [of "p_live p" a] assms by (auto simp: plan_inv_def)
  moreover have "plan_inv n c s (p\<lparr>p_live := m\<rparr>)"
    using assms(1) m by (intro plan_inv_live [OF assms(1) m(2)]) (auto simp: plan_inv_def live_inv_forget)
  ultimately show thesis by (intro that)
qed

lemma plan_put:
  assumes "plan_inv n c s p" and "okey r \<noteq> 0" and "c < 2 ^ 60"
    and "live_inv s ((omap_lookup (p_live p))(okey r \<mapsto> r))"
  obtains m where "live_put r p = Returns (p\<lparr>p_live := m\<rparr>)" and "plan_inv n (c + 1) s (p\<lparr>p_live := m\<rparr>)"
proof -
  have "ocount (p_live p) < 2 ^ 60" "wf_omap (p_live p)"
    using assms(1,3) by (auto simp: plan_inv_def)
  then obtain m where m: "omap_put (p_live p) r = Some m" "wf_omap m" "ocount m \<le> ocount (p_live p) + 1"
    "omap_lookup m = (omap_lookup (p_live p))(okey r \<mapsto> r)"
    using live.put_law assms(2) by blast
  then have "ocount m \<le> c + 1"
    using assms(1) by (auto simp: plan_inv_def)
  then have "plan_inv n (c + 1) s (p\<lparr>p_live := m\<rparr>)"
    using assms(4) m by (intro plan_inv_live [OF assms(1)]) simp_all
  with m(1) show thesis
    by (intro that) (simp_all add: live_put_def of_loop_def)
qed

definition grows :: "rply_entry \<Rightarrow> u64 list \<Rightarrow> u64 list \<Rightarrow> bool" where
  "grows e ts ts' \<longleftrightarrow> prefix ts ts' \<and> set ts' \<subseteq> insert (thread_id e) (set ts)"

lemma grows_same [simp]: "grows e ts ts"
  by (auto simp: grows_def)

lemma grows_trans: "grows e ts us \<Longrightarrow> grows e us vs \<Longrightarrow> grows e ts vs"
  by (auto simp: grows_def intro: prefix_order.trans)

text \<open>What one record does: at most one operation, of the worker of its thread.\<close>

definition record_step :: "rply_entry \<Rightarrow> nat \<Rightarrow> nat \<Rightarrow> schedule \<Rightarrow> plan \<Rightarrow> plan \<Rightarrow> bool" where
  "record_step e n c s p p' \<longleftrightarrow> grows e (tids_of p) (tids_of p') \<and>
    (plan_inv n (c + 1) s p' \<or>
     (\<exists>wi o1. plan_inv (n + 1) (c + 1) (s @ [(wi, o1)]) p' \<and> wi < length (g_ws p') \<and>
       tids_of p' ! wi = thread_id e))"

lemma record_step_none: "plan_inv n c s p' \<Longrightarrow> grows e (tids_of p) (tids_of p') \<Longrightarrow> record_step e n c s p p'"
  using plan_inv_mono [of n c s p' n "c + 1"] by (auto simp: record_step_def)

lemma record_step_op:
  assumes "plan_inv (n + 1) d (s @ [(wi, o1)]) p'" and "d \<le> c + 1"
    and "grows e (tids_of p) (tids_of p')" and "wi < length (g_ws p')" and "tids_of p' ! wi = thread_id e"
  shows "record_step e n c s p p'"
  using plan_inv_mono [OF assms(1) order_refl assms(2)] assms(3-) by (auto simp: record_step_def)

lemma register_for_op_spec:
  assumes "plan_inv n c s p"
  obtains (full) "register_for_op e p = Exits 1" "length (g_ws p) = MAX_THREADS"
      "thread_id e \<noteq> - 2 \<longrightarrow> thread_id e \<notin> set (tids_of p)"
  | (found) wi p' where "register_for_op e p = Returns (wi, p')" "plan_inv n c s p'"
      "wi < length (g_ws p')" "tids_of p' ! wi = thread_id e" "grows e (tids_of p) (tids_of p')"
      "p_live p' = p_live p" "p_next_slot p' = p_next_slot p"
proof -
  have ok: "tids_ok p" using assms by (simp add: plan_inv_def)
  show thesis
  proof (cases rule: worker_register_spec [OF ok, of "thread_id e", case_names f r])
    case f
    then show thesis by (intro full) (simp_all add: register_for_op_def tids_of_def)
  next
    case (r wi p')
    define f where "f = note_cpu e \<circ> worker_note_op (timestamp e)"
    have f: "tid_trace (f w) = tid_trace w" "w_ops (f w) = w_ops w" for w
      by (simp_all add: f_def note_cpu_def worker_note_op_def Let_def)
    have "plan_inv n c s (on_worker wi f p')"
      using plan_inv_registered [OF assms r(2)] f by (intro plan_inv_on_worker)
    moreover have "register_for_op e p = Returns (wi, on_worker wi f p')"
      using r(1) by (simp add: register_for_op_def f_def)
    moreover have "p_live p' = p_live p" "p_next_slot p' = p_next_slot p" "wi < length (g_ws p')"
      "tids_of p' ! wi = thread_id e" "grows e (tids_of p) (tids_of p')"
      using r(2) by (auto simp: registered_def tids_of_def grows_def new_worker_def)
    ultimately show thesis
      by (intro found [of wi "on_worker wi f p'"])
        (simp_all add: on_worker_nth f tids_of_on_worker, simp_all add: on_worker_def)
  qed
qed

text \<open>A new object takes the slot after all slots so far.\<close>

lemma plan_new_spec:
  assumes inv: "plan_inv n c s p" and wi: "wi < length (g_ws p)" and "n < 2 ^ 32" and "c < 2 ^ 60"
    and "entry_result e \<noteq> 0" and kind: "kind = OP_ALLOC \<or> kind = OP_REALLOC_NULL"
    and tid: "tids_of p ! wi = thread_id e"
  shows "\<exists>p'. plan_new opts e func kind wi p = Returns p' \<and> record_step e n c s p p'"
proof -
  define slot :: u32 where "slot = ucast (p_next_slot p)"
  define o1 where "o1 = \<lparr>op_ts = timestamp e, op_size = entry_size e, op_aux = 0, op_slot = slot,
    op_wait_gen = 0, op_out_gen = 1, op_func = func, op_kind = kind,
    op_access_desc_idx = access_desc opts slot\<rparr>"
  define r where "r = \<lparr>okey = entry_result e, oslot = slot, ogen = 1, oowner = of_nat wi,
    osize = entry_size e, olast_ts = op_ts o1\<rparr>"
  define p1 where "p1 = p\<lparr>p_next_slot := p_next_slot p + 1\<rparr>"
  define L where "L = omap_lookup (p_live p)"
  have next_le: "unat (p_next_slot p) < 2 ^ 32"
    using inv assms(3) by (auto simp: plan_inv_def)
  then have slot: "unat slot = unat (p_next_slot p)"
    unfolding slot_def by (simp add: unsigned_ucast_eq take_bit_nat_eq_self)
  have next1: "unat (p_next_slot p + 1) = unat (p_next_slot p) + 1"
    using next_le by (subst unat_add_no_wrap) simp_all
  have below: "\<forall>y\<in>made s. unat (fst y) < unat slot"
    using inv unfolding slot by (simp add: plan_inv_def)
  then have fresh: "(slot, g) \<notin> made s" "(slot, g) \<notin> needed s" for g
    using needed_made [of s] inv by (force simp: plan_inv_def)+
  have L: "live_inv s L"
    using inv by (simp add: plan_inv_def L_def)
  have free: "\<forall>b r. L b = Some r \<longrightarrow> oslot r \<noteq> slot"
    using live_inv_row(2) [OF L] fresh(1) by blast
  have touches: "op_needs o1 = None" "op_makes o1 = Some (slot, 1)"
    using kind by (auto simp: o1_def op_needs_def op_makes_def)
  have live1: "live_inv (s @ [(wi, o1)]) L"
    using touches by (intro live_inv_op [OF L free]) simp
  have "fits s o1"
    using touches fresh kind by (auto simp: fits_def o1_def)
  then have p2: "plan_inv (n + 1) c (s @ [(wi, o1)]) (push_op wi o1 p1)"
    unfolding p1_def using inv wi next1 slot live1 touches(2)
    by (intro plan_inv_push_slot) (auto simp: plan_inv_def L_def)
  have "live_inv (s @ [(wi, o1)]) (L(okey r \<mapsto> r))"
    using free fresh touches
    by (intro live_inv_put [OF live1]) (auto simp: r_def)
  then obtain m where m: "live_put r (push_op wi o1 p1) = Returns ((push_op wi o1 p1)\<lparr>p_live := m\<rparr>)"
    "plan_inv (n + 1) (c + 1) (s @ [(wi, o1)]) ((push_op wi o1 p1)\<lparr>p_live := m\<rparr>)"
    using plan_put [OF p2, of r] assms(4,5) by (auto simp: r_def p1_def L_def)
  have "record_step e n c s p ((push_op wi o1 p1)\<lparr>p_live := m\<rparr>)"
    using wi tid by (intro record_step_op [OF m(2)]) (simp_all add: p1_def)
  moreover have "plan_new opts e func kind wi p = Returns ((push_op wi o1 p1)\<lparr>p_live := m\<rparr>)"
    using m(1) by (simp add: plan_new_def Let_def slot_def o1_def r_def p1_def)
  ultimately show ?thesis by blast
qed

text \<open>The operations that consume: of nothing, of the object just taken out of the map.\<close>

lemma push_unknown:
  assumes "plan_inv n c s p" and "wi < length (g_ws p)" and "op_kind o1 = OP_UNKNOWN_FREE"
  shows "plan_inv (n + 1) c (s @ [(wi, o1)]) (push_op wi o1 p)"
proof -
  have t: "op_needs o1 = None" "op_makes o1 = None"
    using assms(3) by (simp_all add: op_needs_def op_makes_def)
  have "live_inv (s @ [(wi, o1)]) (omap_lookup (p_live p))"
    using assms(1) t by (fastforce simp: plan_inv_def live_inv_def)
  then show ?thesis
    using t assms(3) by (intro plan_inv_push [OF assms(1,2)]) (simp_all add: fits_def)
qed

lemma push_taking:
  assumes "plan_inv n c s p" and "wi < length (g_ws p)"
    and L: "live_inv s L" "L a = Some x" "omap_lookup (p_live p) = L(a := None)"
    and needs: "op_needs o1 = Some (oslot x, ogen x)"
    and makes: "op_kind o1 = OP_FREE \<or>
      op_kind o1 = OP_REALLOC \<and> op_out_gen o1 = ogen x + 1 \<and> n + 1 < 2 ^ 32"
  shows "plan_inv (n + 1) c (s @ [(wi, o1)]) (push_op wi o1 p)"
    and "op_kind o1 = OP_REALLOC \<Longrightarrow> unat (ogen x + 1) = unat (ogen x) + 1"
proof -
  have row: "(oslot x, ogen x) \<in> made s" "(oslot x, ogen x) \<notin> needed s" "unat (ogen x) \<le> length s"
    "\<And>g. (oslot x, g) \<in> made s \<Longrightarrow> g \<le> ogen x"
    using live_inv_row [OF L(1,2)] by auto
  have slot: "op_slot o1 = oslot x" "op_wait_gen o1 = ogen x"
    using needs by (auto simp: op_needs_def split: if_splits)
  show suc: "unat (ogen x + 1) = unat (ogen x) + 1" if "op_kind o1 = OP_REALLOC"
    using makes that row(3) assms(1) by (subst unat_add_no_wrap) (auto simp: plan_inv_def)
  then have "(oslot x, ogen x + 1) \<notin> made s" if "op_kind o1 = OP_REALLOC"
    using row(4) [of "ogen x + 1"] that by (auto simp: word_le_nat_alt)
  then have "fits s o1"
    using makes row slot suc needs by (auto simp: fits_def op_makes_def)
  moreover have "unat (fst y) < unat (p_next_slot p)" if "op_makes o1 = Some y" for y
    using that row(1) assms(1) slot by (auto simp: plan_inv_def op_makes_def split: if_splits)
  moreover have "\<forall>y. op_needs o1 = Some y \<or> op_makes o1 = Some y \<longrightarrow> fst y = oslot x"
    using slot by (auto simp: op_makes_def op_needs_def)
  then have "live_inv (s @ [(wi, o1)]) (L(a := None))"
    using live_inv_row(6) [OF L(1,2)] live_inv_forget [OF L(1)] by (intro live_inv_op)
  ultimately show "plan_inv (n + 1) c (s @ [(wi, o1)]) (push_op wi o1 p)"
    by (intro plan_inv_push [OF assms(1,2)]) (simp_all add: L(3))
qed

text \<open>The outcome of a record: the step, or the exit for want of a free worker.\<close>

definition record_outcome :: "rply_entry \<Rightarrow> nat \<Rightarrow> nat \<Rightarrow> schedule \<Rightarrow> plan \<Rightarrow> plan run \<Rightarrow> bool" where
  "record_outcome e n c s p r \<longleftrightarrow> (r = Exits 1 \<and> length (g_ws p) = MAX_THREADS \<and>
      (thread_id e \<noteq> - 2 \<longrightarrow> thread_id e \<notin> set (tids_of p))) \<or>
    (\<exists>p'. r = Returns p' \<and> record_step e n c s p p')"

lemma record_outcome_step: "record_step e n c s p p' \<Longrightarrow> record_outcome e n c s p (Returns p')"
  by (simp add: record_outcome_def)

lemma record_outcome_from:
  assumes "\<exists>p'. r = Returns p' \<and> record_step e n c s p1 p'" and "grows e (tids_of p) (tids_of p1)"
  shows "record_outcome e n c s p r"
  using assms by (auto simp: record_outcome_def record_step_def intro: grows_trans)

lemma length_bump [simp]: "length (g_ws (p_counts_update f p)) = length (g_ws p)"
  by simp

lemma slot_free: "unat k < 2 ^ 32 \<Longrightarrow> \<not> ucast UINT32_MAX < (k::u64)"
  by (simp add: word_less_nat_alt u32_max_u64)

lemma plan_alloc_spec:
  assumes "plan_inv n c s p" and "n < 2 ^ 32" and "c < 2 ^ 60"
  shows "record_outcome e n c s p (plan_alloc opts e func p)"
proof -
  let ?p = "bump g_total_allocs_update p"
  have inv: "plan_inv n c s ?p"
    using assms(1) by simp
  have slots: "\<not> ucast UINT32_MAX < p_next_slot p"
    using assms(1,2) by (intro slot_free) (simp add: plan_inv_def)
  show ?thesis
  proof (cases "entry_result e = 0")
    case True
    have "record_step e n c s p (bump g_failed_allocs_update ?p)"
      using assms(1) by (intro record_step_none) simp_all
    with True show ?thesis
      by (simp add: plan_alloc_def Let_def record_outcome_step)
  next
    case False
    show ?thesis
    proof (cases rule: register_for_op_spec [OF inv, of e, case_names f r])
      case f
      then show ?thesis
        using False slots by (simp add: plan_alloc_def Let_def record_outcome_def)
    next
      case (r wi p1)
      have "\<exists>p'. plan_new opts e func OP_ALLOC wi p1 = Returns p' \<and> record_step e n c s p1 p'"
        using plan_new_spec [OF r(2,3) assms(2,3) False _ r(4), of OP_ALLOC opts func] by simp
      moreover have "plan_alloc opts e func p = plan_new opts e func OP_ALLOC wi p1"
        using False slots r(1) by (simp add: plan_alloc_def Let_def)
      ultimately show ?thesis
        using r(5) by (intro record_outcome_from) auto
    qed
  qed
qed

lemma plan_free_spec:
  assumes "plan_inv n c s p" and "n < 2 ^ 32"
  shows "record_outcome e n c s p (plan_free opts e p)"
proof -
  let ?p = "bump g_total_frees_update p"
  have inv: "plan_inv n c s ?p"
    using assms(1) by simp
  show ?thesis
  proof (cases "entry_address e = 0")
    case True
    then show ?thesis
      using record_step_none [of n c s ?p e p] inv by (simp add: plan_free_def Let_def record_outcome_step)
  next
    case False
    show ?thesis
    proof (cases rule: register_for_op_spec [OF inv, of e, case_names f r])
      case f
      then show ?thesis
        using False by (simp add: plan_free_def Let_def record_outcome_def)
    next
      case (r wi p1)
      obtain m where m: "omap_take (p_live p1) (entry_address e) = Some (m, omap_lookup (p_live p1) (entry_address e))"
        "plan_inv n c s (p1\<lparr>p_live := m\<rparr>)"
        "omap_lookup m = (omap_lookup (p_live p1))(entry_address e := None)"
        using plan_take [OF r(2) False] .
      define L where "L = omap_lookup (p_live p1)"
      have L: "live_inv s L" using r(2) by (simp add: plan_inv_def L_def)
      let ?f = "\<lambda>found. (case found of
           None \<Rightarrow> Returns (push_op wi
               \<lparr>op_ts = timestamp e, op_size = g_synthetic_size opts, op_aux = 0, op_slot = 0,
                op_wait_gen = 0, op_out_gen = 0, op_func = FREE_I, op_kind = OP_UNKNOWN_FREE,
                op_access_desc_idx = ACCESS_DESC_NONE\<rparr> (bump g_unknown_frees_update (p1\<lparr>p_live := m\<rparr>)))
         | Some r \<Rightarrow> Returns (push_op wi
               \<lparr>op_ts = max_u64 (timestamp e) (olast_ts r), op_size = osize r, op_aux = 0,
                op_slot = oslot r, op_wait_gen = ogen r, op_out_gen = 0, op_func = FREE_I,
                op_kind = OP_FREE, op_access_desc_idx = access_desc opts (oslot r)\<rparr>
               (if of_nat wi = oowner r then bump g_local_frees_update (p1\<lparr>p_live := m\<rparr>)
                else bump g_remote_frees_update (p1\<lparr>p_live := m\<rparr>))))"
      have eq: "plan_free opts e p = ?f (L (entry_address e))"
        using False r(1) m(1) by (simp add: plan_free_def Let_def of_loop_def L_def)
      have "\<exists>p'. ?f (L (entry_address e)) = Returns p' \<and> record_step e n c s p1 p'"
      proof (cases "L (entry_address e)")
        case None
        have step: "record_step e n c s p1 (push_op wi o1 (bump f (p1\<lparr>p_live := m\<rparr>)))"
          if "op_kind o1 = OP_UNKNOWN_FREE" for o1 f
          using m(2) r(3,4) push_unknown [of n c s "bump f (p1\<lparr>p_live := m\<rparr>)" wi o1] that
          by (intro record_step_op [where d = c]) simp_all
        show ?thesis
          unfolding None option.case by (rule exI, rule conjI, rule refl, rule step) simp
      next
        case (Some x)
        let ?o = "\<lparr>op_ts = max_u64 (timestamp e) (olast_ts x), op_size = osize x, op_aux = 0,
          op_slot = oslot x, op_wait_gen = ogen x, op_out_gen = 0, op_func = FREE_I,
          op_kind = OP_FREE, op_access_desc_idx = access_desc opts (oslot x)\<rparr>"
        have step: "record_step e n c s p1 (push_op wi ?o (bump f (p1\<lparr>p_live := m\<rparr>)))" for f
          using m(2,3) r(3,4) push_taking(1) [OF _ _ L Some, of n c "bump f (p1\<lparr>p_live := m\<rparr>)" wi ?o]
          by (intro record_step_op [where d = c]) (simp_all add: op_needs_def L_def)
        have step2: "record_step e n c s p1 (push_op wi ?o
            (if b then bump f (p1\<lparr>p_live := m\<rparr>) else bump g (p1\<lparr>p_live := m\<rparr>)))" for b f g
          by (cases b) (simp_all only: if_True if_False, (rule step)+)
        show ?thesis
          unfolding Some option.case by (rule exI, rule conjI, rule refl, rule step2)
      qed
      then show ?thesis
        unfolding eq using r(5) by (intro record_outcome_from) simp_all
    qed
  qed
qed

lemma plan_realloc_known_spec:
  assumes inv: "plan_inv n c s q" and wi: "wi < length (g_ws q)" and tid: "tids_of q ! wi = thread_id e"
    and "n + 1 < 2 ^ 32" and "c < 2 ^ 60" and "entry_address e \<noteq> 0"
    and L: "live_inv s L" "L (entry_address e) = Some x" "omap_lookup (p_live q) = L(entry_address e := None)"
  shows "\<exists>p'. plan_realloc_known opts e wi x q = Returns p' \<and> record_step e n c s q p'"
proof -
  define f :: "(u64 \<Rightarrow> u64) \<Rightarrow> plan_counts \<Rightarrow> plan_counts" where "f = (if of_nat wi = oowner x then g_local_reallocs_update else g_remote_reallocs_update)"
  define p1 where "p1 = bump f q"
  have p1: "plan_inv n c s p1" "wi < length (g_ws p1)" "tids_of p1 = tids_of q" "p_live p1 = p_live q"
    "p_next_slot p1 = p_next_slot q"
    using inv wi by (simp_all add: p1_def)
  have if_p1: "(if of_nat wi = oowner x then bump g_local_reallocs_update q
      else bump g_remote_reallocs_update q) = p1"
    by (simp add: p1_def f_def)
  have row: "okey x = entry_address e" "(oslot x, ogen x) \<in> made s" "(oslot x, ogen x) \<notin> needed s"
    "unat (ogen x) \<le> length s" "\<forall>b r. (L(entry_address e := None)) b = Some r \<longrightarrow> oslot r \<noteq> oslot x"
    using live_inv_row [OF L(1,2)] by auto
  show ?thesis
  proof (cases "entry_result e = 0 \<and> entry_size e \<noteq> 0")
    case True
    let ?r = "x\<lparr>okey := entry_address e\<rparr>" and ?p = "bump g_failed_reallocs_update p1"
    have "L(entry_address e := None, entry_address e \<mapsto> ?r) = L"
      using L(2) row(1) by (simp add: fun_upd_idem)
    then have "live_inv s ((omap_lookup (p_live ?p))(okey ?r \<mapsto> ?r))"
      using L(1,3) p1(4) by simp
    then obtain m where "live_put ?r ?p = Returns (?p\<lparr>p_live := m\<rparr>)" "plan_inv n (c + 1) s (?p\<lparr>p_live := m\<rparr>)"
      using plan_put [of n c s ?p ?r] p1(1) assms(5,6) by auto
    then show ?thesis
      using True p1(3) by (simp add: plan_realloc_known_def if_p1 record_step_def)
  next
    case False
    define o1 where "o1 = \<lparr>op_ts = max_u64 (timestamp e) (olast_ts x), op_size = entry_size e, op_aux = 0,
      op_slot = oslot x, op_wait_gen = ogen x, op_out_gen = ogen x + 1, op_func = REALLOC_I,
      op_kind = OP_REALLOC, op_access_desc_idx = access_desc opts (oslot x)\<rparr>"
    define p2 where "p2 = push_op wi o1 p1"
    have needs: "op_needs o1 = Some (oslot x, ogen x)" and makes: "op_makes o1 = Some (oslot x, ogen x + 1)"
      and kind: "op_kind o1 = OP_REALLOC" "op_out_gen o1 = ogen x + 1"
      by (simp_all add: o1_def op_needs_def op_makes_def)
    have p2: "plan_inv (n + 1) c (s @ [(wi, o1)]) p2" "unat (ogen x + 1) = unat (ogen x) + 1"
      using push_taking [OF p1(1,2) L(1,2) _ needs] p1(4) L(3) kind assms(4) by (simp_all add: p2_def)
    have p2': "wi < length (g_ws p2)" "tids_of p2 = tids_of q" "p_live p2 = p_live q"
      using p1 by (simp_all add: p2_def)
    show ?thesis
    proof (cases "entry_result e = 0")
      case True
      have "record_step e n c s q p2"
        using p2(1) p2' tid by (intro record_step_op [where d = c]) simp_all
      moreover have "plan_realloc_known opts e wi x q = Returns p2"
        using False True unfolding plan_realloc_known_def if_p1 by (simp add: Let_def p2_def o1_def)
      ultimately show ?thesis by blast
    next
      case nz: False
      define r where "r = \<lparr>okey = entry_result e, oslot = oslot x, ogen = ogen x + 1, oowner = of_nat wi,
        osize = entry_size e, olast_ts = op_ts o1\<rparr>"
      have r: "okey r = entry_result e" "oslot r = oslot x" "ogen r = ogen x + 1"
        by (simp_all add: r_def)
      have unmade: "(oslot x, ogen x + 1) \<notin> made s"
        using live_inv_row(5) [OF L(1,2), of "ogen x + 1"] p2(2) by (auto simp: word_le_nat_alt)
      have "live_inv (s @ [(wi, o1)]) ((L(entry_address e := None))(okey r \<mapsto> r))"
      proof (rule live_inv_put)
        show "live_inv (s @ [(wi, o1)]) (L(entry_address e := None))"
          using p2(1) p2'(3) L(3) by (simp add: plan_inv_def)
        show "\<forall>b y. (L(entry_address e := None)) b = Some y \<longrightarrow> oslot y \<noteq> oslot r"
          using row(5) by (simp add: r(2))
        show "(oslot r, ogen r) \<in> made (s @ [(wi, o1)])"
          using makes by (simp add: r)
        have "(oslot x, ogen x + 1) \<noteq> (oslot x, ogen x)"
          using p2(2) by auto
        moreover have "needed s \<subseteq> made s"
          using inv by (intro needed_made) (simp add: plan_inv_def)
        ultimately show "(oslot r, ogen r) \<notin> needed (s @ [(wi, o1)])"
          using needs unmade by (auto simp: r)
        show "\<forall>g. (oslot r, g) \<in> made (s @ [(wi, o1)]) \<longrightarrow> g \<le> ogen r"
          using live_inv_row(5) [OF L(1,2)] makes p2(2) by (force simp: r word_le_nat_alt)
        show "unat (ogen r) \<le> length (s @ [(wi, o1)])"
          using row(4) p2(2) by (simp add: r)
      qed
      then have "live_inv (s @ [(wi, o1)]) ((omap_lookup (p_live p2))(okey r \<mapsto> r))"
        using L(3) p2'(3) by simp
      then obtain m where m: "live_put r p2 = Returns (p2\<lparr>p_live := m\<rparr>)"
        "plan_inv (n + 1) (c + 1) (s @ [(wi, o1)]) (p2\<lparr>p_live := m\<rparr>)"
        using plan_put [OF p2(1), of r] nz assms(5) r(1) by auto
      have "record_step e n c s q (p2\<lparr>p_live := m\<rparr>)"
        using p2' tid by (intro record_step_op [OF m(2)]) simp_all
      moreover have "plan_realloc_known opts e wi x q = Returns (p2\<lparr>p_live := m\<rparr>)"
        using False nz m(1) unfolding plan_realloc_known_def if_p1
        by (simp add: Let_def p2_def o1_def r_def)
      ultimately show ?thesis by blast
    qed
  qed
qed

lemma plan_realloc_spec:
  assumes "plan_inv n c s p" and "n + 1 < 2 ^ 32" and "c < 2 ^ 60"
  shows "record_outcome e n c s p (plan_realloc opts e p)"
proof -
  let ?p = "bump g_total_reallocs_update p"
  have inv: "plan_inv n c s ?p"
    using assms(1) by simp
  show ?thesis
  proof (cases rule: register_for_op_spec [OF inv, of e, case_names f r])
    case f
    then show ?thesis
      by (simp add: plan_realloc_def record_outcome_def)
  next
    case (r wi p1)
    have slots: "\<not> ucast UINT32_MAX < p_next_slot p1"
      using r(2) assms(2) by (intro slot_free) (simp add: plan_inv_def)
    have "\<exists>p'. plan_realloc opts e p = Returns p' \<and> record_step e n c s p1 p'"
    proof (cases "entry_address e = 0")
      case True
      show ?thesis
      proof (cases "entry_result e = 0")
        case res: True
        have "record_step e n c s p1 (bump g_failed_reallocs_update p1)"
          using r(2) by (intro record_step_none) simp_all
        then show ?thesis
          using r(1) True res by (simp add: plan_realloc_def)
      next
        case False
        show ?thesis
          using plan_new_spec [OF r(2,3) _ assms(3) False _ r(4), of OP_REALLOC_NULL opts REALLOC_I]
            r(1) True False slots assms(2) by (simp add: plan_realloc_def)
      qed
    next
      case addr: False
      obtain m where m: "omap_take (p_live p1) (entry_address e) = Some (m, omap_lookup (p_live p1) (entry_address e))"
        "plan_inv n c s (p1\<lparr>p_live := m\<rparr>)"
        "omap_lookup m = (omap_lookup (p_live p1))(entry_address e := None)"
        using plan_take [OF r(2) addr] .
      define L where "L = omap_lookup (p_live p1)"
      define q where "q = p1\<lparr>p_live := m\<rparr>"
      have L: "live_inv s L" using r(2) by (simp add: plan_inv_def L_def)
      have q: "plan_inv n c s q" "wi < length (g_ws q)" "tids_of q = tids_of p1" "p_next_slot q = p_next_slot p1"
        "tids_of q ! wi = thread_id e" "omap_lookup (p_live q) = L(entry_address e := None)"
        using m(2,3) r(3,4) by (simp_all add: q_def L_def)
      show ?thesis
      proof (cases "L (entry_address e)")
        case (Some x)
        have "plan_realloc opts e p = plan_realloc_known opts e wi x q"
          using r(1) addr m(1) Some by (simp add: plan_realloc_def of_loop_def q_def L_def)
        then show ?thesis
          using plan_realloc_known_spec [OF q(1,2,5) assms(2,3) addr L Some q(6), of opts] q(3)
          by (simp add: record_step_def)
      next
        case None
        let ?q = "bump g_unknown_reallocs_update q"
        show ?thesis
        proof (cases "entry_result e = 0")
          case True
          have "plan_realloc opts e p = Returns ?q"
            using r(1) addr m(1) None True by (simp add: plan_realloc_def of_loop_def q_def L_def)
          moreover have "record_step e n c s p1 ?q"
            using q(1,3) by (intro record_step_none) simp_all
          ultimately show ?thesis by blast
        next
          case False
          have "plan_realloc opts e p = plan_new opts e MALLOC_I OP_ALLOC wi ?q"
            using r(1) addr m(1) None False slots by (simp add: plan_realloc_def of_loop_def q_def L_def)
          moreover have "\<exists>p'. plan_new opts e MALLOC_I OP_ALLOC wi ?q = Returns p' \<and> record_step e n c s ?q p'"
            using q(1,2,5) assms(2,3) False by (intro plan_new_spec) simp_all
          ultimately show ?thesis
            using q(3) by (simp add: record_step_def)
        qed
      qed
    qed
    then show ?thesis
      using r(5) by (intro record_outcome_from) simp_all
  qed
qed

lemma plan_thread_event_spec:
  assumes "plan_inv n c s p"
  shows "record_outcome e n c s p (plan_thread_event e func p)"
proof -
  have ok: "tids_ok p" using assms by (simp add: plan_inv_def)
  show ?thesis
  proof (cases rule: worker_register_spec [OF ok, of "thread_id e", case_names f r])
    case f
    then show ?thesis
      by (simp add: plan_thread_event_def record_outcome_def tids_of_def)
  next
    case (r wi p1)
    have p1: "plan_inv n c s p1" "grows e (tids_of p) (tids_of p1)"
      using plan_inv_registered [OF assms r(2)] r(2) by (auto simp: registered_def tids_of_def grows_def new_worker_def)
    have "\<exists>p'. plan_thread_event e func p = Returns p' \<and> plan_inv n c s p' \<and> grows e (tids_of p) (tids_of p')"
      unfolding plan_thread_event_def r(1) run_bind.simps prod.case
      by (rule exI, rule conjI, rule refl) (simp add: p1 plan_inv_on_worker tids_of_on_worker)
    then obtain p' where p': "plan_thread_event e func p = Returns p'" "plan_inv n c s p'"
      "grows e (tids_of p) (tids_of p')" by blast
    show ?thesis
      unfolding p'(1) by (intro record_outcome_step record_step_none p'(2,3))
  qed
qed

lemma plan_record_spec:
  assumes "plan_inv n c s p" and "n + 1 < 2 ^ 32" and "c < 2 ^ 60"
  shows "record_outcome e n c s p (plan_record opts e p)"
proof -
  define q where "q = (let p = (if timestamp e < g_min_ts p then p\<lparr>g_min_ts := timestamp e\<rparr> else p)
    in (if g_max_ts p < timestamp e then p\<lparr>g_max_ts := timestamp e\<rparr> else p))"
  have q: "plan_inv n c s q" "tids_of q = tids_of p" "length (g_ws q) = length (g_ws p)"
    using assms(1) by (simp_all add: q_def Let_def)
  have eq: "plan_record opts e p =
      (if REPLAY_THREAD_CREATE_I \<le> record_func e then plan_thread_event e (record_func e) q
       else if NUM_FUNCS \<le> record_func e then Returns q
       else if record_func e = FREE_I \<or> record_func e = FREE_SIZED_I then plan_free opts e q
       else if record_func e = REALLOC_I then plan_realloc opts e q
       else plan_alloc opts e (record_func e) q)"
    by (simp add: plan_record_def q_def Let_def)
  have "n < 2 ^ 32" using assms(2) by simp
  have "record_outcome e n c s q (plan_record opts e p)"
    unfolding eq using q(1) assms(2,3) \<open>n < 2 ^ 32\<close>
    by (simp add: plan_thread_event_spec plan_free_spec plan_realloc_spec plan_alloc_spec
        record_outcome_step record_step_none)
  then show ?thesis
    using q(2,3) by (simp add: record_outcome_def record_step_def)
qed

subsection \<open>The whole trace\<close>

text \<open>
  The schedule \<open>s2\<close> a list of records adds; its workers are those of a subsequence of the
  records' threads. The pass exits only when a worker is missing.
\<close>

definition records_outcome :: "rply_entry list \<Rightarrow> nat \<Rightarrow> schedule \<Rightarrow> plan \<Rightarrow> plan run \<Rightarrow> bool" where
  "records_outcome es n s p r \<longleftrightarrow>
    (r = Exits 1 \<and> (- 2 \<notin> thread_id ` set es \<union> set (tids_of p) \<longrightarrow>
      MAX_THREADS < card (thread_id ` set es \<union> set (tids_of p)))) \<or>
    (\<exists>p' s2. r = Returns p' \<and> plan_inv (n + length es) (n + length es) (s @ s2) p' \<and>
      prefix (tids_of p) (tids_of p') \<and> set (tids_of p') \<subseteq> thread_id ` set es \<union> set (tids_of p) \<and>
      subseq (map (\<lambda>x. tids_of p' ! fst x) s2) (map thread_id es))"

lemma too_many_threads:
  assumes "plan_inv n c s p" and "length (g_ws p) = MAX_THREADS" and "t \<notin> set (tids_of p)"
    and "- 2 \<notin> insert t (set (tids_of p))" and "insert t (set (tids_of p)) \<subseteq> T" and "finite T"
  shows "MAX_THREADS < card T"
proof -
  have "filter (\<lambda>t. t \<noteq> - 2) (tids_of p) = tids_of p"
    using assms(4) by (auto simp: filter_id_conv)
  then have "distinct (tids_of p)"
    using assms(1) by (simp add: plan_inv_def)
  then have "card (set (tids_of p)) = MAX_THREADS"
    using assms(2) by (metis distinct_card length_map tids_of_def)
  then have "card (insert t (set (tids_of p))) = MAX_THREADS + 1"
    using assms(3) by simp
  then show ?thesis
    using card_mono [OF assms(6,5)] by simp
qed

lemma plan_records_spec:
  assumes "plan_inv n n s p" and "n + length es < 2 ^ 32"
  shows "records_outcome es n s p (plan_records opts es p)"
  using assms
proof (induction es arbitrary: n s p)
  case Nil
  then show ?case
    by (auto simp: records_outcome_def intro!: exI [of _ "[]"])
next
  case (Cons e es)
  let ?T = "thread_id ` set (e # es) \<union> set (tids_of p)"
  have "n < (2::nat) ^ 60"
    using Cons.prems(2) by simp
  then have "record_outcome e n n s p (plan_record opts e p)"
    using Cons.prems by (intro plan_record_spec) simp_all
  then show ?case
    unfolding record_outcome_def
  proof (elim disjE conjE exE)
    assume x: "plan_record opts e p = Exits 1" "length (g_ws p) = MAX_THREADS"
      "thread_id e \<noteq> - 2 \<longrightarrow> thread_id e \<notin> set (tids_of p)"
    have "MAX_THREADS < card ?T" if "- 2 \<notin> ?T"
    proof (rule too_many_threads [OF Cons.prems(1) x(2)])
      show "thread_id e \<notin> set (tids_of p)" "- 2 \<notin> insert (thread_id e) (set (tids_of p))"
        using that x(3) by (metis Un_iff image_eqI list.set_intros(1), auto)
    qed auto
    then show ?thesis
      using x(1) by (simp add: records_outcome_def)
  next
    fix p1
    assume p1: "plan_record opts e p = Returns p1" "record_step e n n s p p1"
    have grow: "prefix (tids_of p) (tids_of p1)" "set (tids_of p1) \<subseteq> insert (thread_id e) (set (tids_of p))"
      using p1(2) by (auto simp: record_step_def grows_def)
    obtain s1 where s1: "plan_inv (n + 1) (n + 1) (s @ s1) p1"
      "s1 = [] \<or> (\<exists>wi o1. s1 = [(wi, o1)] \<and> wi < length (tids_of p1) \<and> tids_of p1 ! wi = thread_id e)"
    proof -
      from p1(2) consider "plan_inv n (n + 1) s p1"
        | wi o1 where "plan_inv (n + 1) (n + 1) (s @ [(wi, o1)]) p1" "wi < length (g_ws p1)"
            "tids_of p1 ! wi = thread_id e"
        unfolding record_step_def by blast
      then show thesis
      proof cases
        case 1
        then show thesis
          using that [of "[]"] plan_inv_mono [of n "n + 1" s p1 "n + 1" "n + 1"] by simp
      next
        case (2 wi o1)
        then show thesis
          using that [of "[(wi, o1)]"] by (simp add: tids_of_def)
      qed
    qed
    have "records_outcome es (n + 1) (s @ s1) p1 (plan_records opts es p1)"
      using Cons.prems(2) by (intro Cons.IH s1(1)) simp
    from this [unfolded records_outcome_def] show ?thesis
    proof (elim disjE conjE exE)
      assume x: "plan_records opts es p1 = Exits 1"
        "- 2 \<notin> thread_id ` set es \<union> set (tids_of p1) \<longrightarrow>
          MAX_THREADS < card (thread_id ` set es \<union> set (tids_of p1))"
      have sub: "thread_id ` set es \<union> set (tids_of p1) \<subseteq> ?T"
        using grow(2) by auto
      then have "card (thread_id ` set es \<union> set (tids_of p1)) \<le> card ?T"
        by (intro card_mono) simp_all
      then have "- 2 \<notin> ?T \<longrightarrow> MAX_THREADS < card ?T"
        using x(2) sub by (meson less_le_trans subsetD)
      then show ?thesis
        using x(1) p1(1) by (simp add: records_outcome_def)
    next
      fix p' s2
      assume r: "plan_records opts es p1 = Returns p'"
        "plan_inv (n + 1 + length es) (n + 1 + length es) ((s @ s1) @ s2) p'"
        "prefix (tids_of p1) (tids_of p')" "set (tids_of p') \<subseteq> thread_id ` set es \<union> set (tids_of p1)"
        "subseq (map (\<lambda>x. tids_of p' ! fst x) s2) (map thread_id es)"
      have "subseq (map (\<lambda>x. tids_of p' ! fst x) (s1 @ s2)) (map thread_id (e # es))"
        using s1(2) r(3,5) by (auto simp: prefix_def nth_append)
      moreover have "set (tids_of p') \<subseteq> ?T"
        using r(4) grow(2) by auto
      ultimately show ?thesis
        using r(1-3) p1(1) grow(1)
        by (auto simp: records_outcome_def intro!: exI [of _ "s1 @ s2"] intro: prefix_order.trans)
    qed
  qed
qed

lemma initial_plan_inv:
  assumes "wf_omap m" and "ocount m = 0" and "omap_lookup m = Map.empty"
  shows "plan_inv 0 0 [] (initial_plan m)"
proof -
  have u: "\<not> is_Used (tid_state \<lparr>tk = - 1, tv = 0\<rparr>)"
    by (simp add: tid_state_def)
  have "entries tid_state (replicate TIDCAP \<lparr>tk = - 1, tv = 0\<rparr>) = {#}"
    using u by (rule entries_replicate)
  moreover have "chained tid_state tk tid_position TIDCAP (replicate TIDCAP \<lparr>tk = - 1, tv = 0\<rparr>)"
    using u by (rule chained_replicate)
  ultimately have "tids_ok (initial_plan m)"
    by (simp add: tids_ok_def initial_plan_def)
  with assms show ?thesis
    by (simp add: plan_inv_def initial_plan_def tids_of_def)
qed

subsection \<open>What the replay is given\<close>

definition plan_ops :: "replay_plan \<Rightarrow> nat \<Rightarrow> replay_op list" where
  "plan_ops rp w = ov_data (w_ops (rp_workers rp ! w))"

text \<open>
  A plan is well-formed with the schedule \<open>s\<close>: the vectors are the parts of \<open>s\<close>, in its order,
  \<open>s\<close> is scheduled, and its slots exist.
\<close>

definition well_planned :: "replay_plan \<Rightarrow> schedule \<Rightarrow> bool" where
  "well_planned rp s \<longleftrightarrow> (\<forall>w<length (rp_workers rp). plan_ops rp w = ops_of s w) \<and>
    (\<forall>x\<in>set s. fst x < length (rp_workers rp)) \<and> scheduled s \<and>
    (\<forall>y\<in>made s. unat (fst y) < unat (rp_total_slots rp))"

lemma finalize_worker_keeps [simp]:
  "w_ops (finalize_worker a b w) = w_ops w" "tid_trace (finalize_worker a b w) = tid_trace w"
  by (simp_all add: finalize_worker_def Let_def)

lemma finalize_worker_lifetime:
  "worker_has_ops_or_lifecycle (finalize_worker a b w) \<Longrightarrow>
    start_ts (finalize_worker a b w) \<le> end_ts (finalize_worker a b w)"
  by (auto simp: finalize_worker_def Let_def worker_has_ops_or_lifecycle_def)

lemma ops_of_total:
  assumes "\<forall>x\<in>set s. fst x < n"
  shows "(\<Sum>w\<leftarrow>[0..<n]. length (ops_of s w)) = length s"
  using assms
proof (induction s rule: rev_induct)
  case Nil
  then show ?case by (induction n) simp_all
next
  case (snoc x s)
  obtain v o1 where x: "x = (v, o1)" by (cases x)
  have "(\<Sum>w\<leftarrow>[0..<m]. length (ops_of (s @ [x]) w)) =
      (\<Sum>w\<leftarrow>[0..<m]. length (ops_of s w)) + (if v < m then 1 else 0)" for m
    by (induction m) (auto simp: x)
  then show ?case
    using snoc by (simp add: x)
qed

lemma plan_total_ops:
  assumes "\<forall>w<length ws. ov_data (w_ops (ws ! w)) = ops_of s w" and "\<forall>x\<in>set s. fst x < length ws"
  shows "(\<Sum>w\<leftarrow>ws. of_nat (length (ov_data (w_ops w))) :: u64) = of_nat (length s)"
proof -
  have "map (\<lambda>w. length (ov_data (w_ops w))) ws = map (\<lambda>w. length (ops_of s w)) [0..<length ws]"
    using assms(1) by (intro nth_equalityI) simp_all
  then have "(\<Sum>w\<leftarrow>ws. length (ov_data (w_ops w))) = length s"
    using ops_of_total [OF assms(2)] by simp
  moreover have "(\<Sum>w\<leftarrow>ws. of_nat (length (ov_data (w_ops w))) :: u64) =
      of_nat (\<Sum>w\<leftarrow>ws. length (ov_data (w_ops w)))"
    by (induction ws) simp_all
  ultimately show ?thesis by simp
qed

definition plan_outcome :: "replay_options \<Rightarrow> rply_entry list \<Rightarrow> replay_plan run \<Rightarrow> bool" where
  "plan_outcome opts es r \<longleftrightarrow>
    r = Exits 1 \<and> (- 2 \<notin> thread_id ` set es \<longrightarrow> MAX_THREADS < card (thread_id ` set es)) \<or>
    r = Exits 3 \<and> g_unknown_policy opts = UNKNOWN_ERROR \<or>
    (\<exists>rp s. r = Returns rp \<and> well_planned rp s \<and> rp_total_ops rp = of_nat (length s) \<and>
      subseq (map (\<lambda>x. tid_trace (rp_workers rp ! fst x)) s) (map thread_id es) \<and>
      distinct (filter (\<lambda>t. t \<noteq> - 2) (map tid_trace (rp_workers rp))) \<and>
      (\<forall>w\<in>set (rp_workers rp). worker_has_ops_or_lifecycle w \<longrightarrow> start_ts w \<le> end_ts w))"

lemma finish_plan_spec:
  assumes "plan_inv n n s p" and "n < 2 ^ 32" and "subseq (map (\<lambda>x. tids_of p ! fst x) s) (map thread_id es)"
  shows "plan_outcome opts es (finish_plan opts p)"
proof (cases "g_unknown_policy opts = UNKNOWN_ERROR \<and>
    (g_unknown_frees (p_counts p) \<noteq> 0 \<or> g_unknown_reallocs (p_counts p) \<noteq> 0)")
  case True
  then show ?thesis
    by (simp add: finish_plan_def plan_outcome_def)
next
  case False
  define min_ts where "min_ts = (if g_min_ts p = - 1 then 0 else g_min_ts p)"
  define ws where "ws = map (finalize_worker min_ts (g_max_ts p)) (g_ws p)"
  define rp where "rp = \<lparr>rp_workers = ws, rp_total_slots = ucast (p_next_slot p),
    rp_total_ops = (\<Sum>w\<leftarrow>g_ws p. of_nat (length (ov_data (w_ops w)))), rp_min_ts = min_ts,
    rp_max_ts = g_max_ts p, rp_live_left_at_end = ocount (p_live p),
    rp_inferred_threads = of_nat (inferred_threads (g_ws p)), rp_counts = p_counts p\<rparr>"
  have r: "finish_plan opts p = Returns rp"
    unfolding finish_plan_def if_not_P [OF False] finalize_worker_lifetimes_def Let_def prod.case
    by (simp add: rp_def ws_def min_ts_def)
  have inv: "\<forall>w<length (g_ws p). ov_data (w_ops (g_ws p ! w)) = ops_of s w"
    "\<forall>x\<in>set s. fst x < length (g_ws p)" "scheduled s" "unat (p_next_slot p) \<le> n"
    "\<forall>y\<in>made s. unat (fst y) < unat (p_next_slot p)" "distinct (filter (\<lambda>t. t \<noteq> - 2) (tids_of p))"
    using assms(1) by (auto simp: plan_inv_def)
  have tids: "map tid_trace ws = tids_of p"
    by (simp add: ws_def tids_of_def comp_def)
  have "unat (ucast (p_next_slot p) :: u32) = unat (p_next_slot p)"
    using inv(4) assms(2) by (simp add: unsigned_ucast_eq take_bit_nat_eq_self)
  then have "well_planned rp s"
    using inv by (simp add: well_planned_def plan_ops_def rp_def ws_def)
  moreover have "rp_total_ops rp = of_nat (length s)"
    using plan_total_ops [OF inv(1,2)] by (simp add: rp_def)
  moreover have m: "map (\<lambda>x. tid_trace (rp_workers rp ! fst x)) s = map (\<lambda>x. tids_of p ! fst x) s"
    using inv(2) by (simp add: rp_def ws_def tids_of_def)
  have "subseq (map (\<lambda>x. tid_trace (rp_workers rp ! fst x)) s) (map thread_id es)"
    unfolding m by (rule assms(3))
  moreover have "\<forall>w\<in>set ws. worker_has_ops_or_lifecycle w \<longrightarrow> start_ts w \<le> end_ts w"
    by (auto simp: ws_def finalize_worker_lifetime)
  ultimately show ?thesis
    unfolding plan_outcome_def r using inv(6) tids
    by (intro disjI2 exI [of _ rp] exI [of _ s]) (simp add: rp_def)
qed

lemma plan_trace_spec:
  assumes "length es < 2 ^ 32" and "unat (map_live * 2) \<le> 2 ^ 63"
  shows "plan_outcome opts es (plan_trace opts map_live es)"
proof -
  obtain m where m: "omap_init map_live = Some m" "wf_omap m" "ocount m = 0" "omap_lookup m = Map.empty"
    using omap_init_spec [of map_live] assms(2) by auto
  have t: "plan_trace opts map_live es =
      run_bind (plan_records opts es (initial_plan m)) (finish_plan opts)"
    by (simp add: plan_trace_def of_loop_def m(1))
  have e: "tids_of (initial_plan m) = []"
    by (simp add: tids_of_def initial_plan_def)
  have "records_outcome es 0 [] (initial_plan m) (plan_records opts es (initial_plan m))"
    using assms(1) by (intro plan_records_spec initial_plan_inv m) simp
  from this [unfolded records_outcome_def] show ?thesis
  proof (elim disjE conjE exE)
    fix p' s2
    assume r: "plan_records opts es (initial_plan m) = Returns p'"
      "plan_inv (0 + length es) (0 + length es) ([] @ s2) p'"
      "subseq (map (\<lambda>x. tids_of p' ! fst x) s2) (map thread_id es)"
    then show ?thesis
      unfolding t using finish_plan_spec [of "length es" s2 p' es opts] assms(1) by simp
  qed (simp add: t plan_outcome_def e)
qed

text \<open>C28: For every trace of fewer than \<open>2^32\<close> records, the pass over it ends, and unless it exits
  (status 1 for more than 65536 threads, 3 for unknown frees under the error policy) its plan is
  well-formed: the operations of the workers, put together in the order of the trace, form a
  schedule in which each operation that waits for a generation of a slot comes after the one
  that makes it, no generation is made or waited for twice, a reallocation makes the
  generation after the one it waits for, and every slot exists; each operation belongs to the
  one worker of its record's thread, no operation is lost from the total, and no worker ends
  before it starts.\<close>

theorem plan_is_well_formed:
  assumes "length es < 2 ^ 32" and "unat (map_live * 2) \<le> 2 ^ 63"
  shows "plan_trace opts map_live es = Exits 1 \<and>
      (- 2 \<notin> thread_id ` set es \<longrightarrow> MAX_THREADS < card (thread_id ` set es)) \<or>
    plan_trace opts map_live es = Exits 3 \<and> g_unknown_policy opts = UNKNOWN_ERROR \<or>
    (\<exists>rp s. plan_trace opts map_live es = Returns rp \<and> well_planned rp s \<and>
      rp_total_ops rp = of_nat (length s) \<and>
      subseq (map (\<lambda>x. tid_trace (rp_workers rp ! fst x)) s) (map thread_id es) \<and>
      distinct (filter (\<lambda>t. t \<noteq> - 2) (map tid_trace (rp_workers rp))) \<and>
      (\<forall>w\<in>set (rp_workers rp). worker_has_ops_or_lifecycle w \<longrightarrow> start_ts w \<le> end_ts w))"
  using plan_trace_spec [OF assms, of opts] unfolding plan_outcome_def .

definition sample_records :: "rply_entry list" where
  "sample_records =
    [\<lparr>timestamp = 10, func_and_cpu = 0, thread_id = 7, entry_address = 0,
      entry_result = 4096, entry_size = 32\<rparr>,
     \<lparr>timestamp = 12, func_and_cpu = push_bit 32 1, thread_id = 8, entry_address = 4096,
      entry_result = 0, entry_size = 0\<rparr>]"

definition sample_options :: replay_options where
  "sample_options = \<lparr>g_unknown_policy = UNKNOWN_SKIP, g_synthetic_size = 64, g_access_desc_count = 0\<rparr>"

lemma plan_is_well_formed_witness:
  "\<exists>rp s. plan_trace sample_options 1000 sample_records = Returns rp \<and> well_planned rp s"
proof -
  have "length sample_records < 2 ^ 32" "unat ((1000::u64) * 2) \<le> 2 ^ 63"
    by (simp_all add: sample_records_def)
  note p = plan_is_well_formed [OF this, of sample_options]
  have "- 2 \<notin> thread_id ` set sample_records" "\<not> MAX_THREADS < card (thread_id ` set sample_records)"
    "g_unknown_policy sample_options \<noteq> UNKNOWN_ERROR"
    by (simp_all add: sample_records_def sample_options_def MAX_THREADS_def)
  with p show ?thesis by blast
qed

end
