(* ===== verification/HeapCalls.thy ===== *)
theory HeapCalls
  imports Prelude
begin

text \<open>
  Calls of the allocator that is measured, as the replay and workload programs make them. The
  allocator is outside the programs; what a call may return is what its documentation allows
  (\<open>heap_result\<close>), over the set of the pointers that are live. \<open>owned\<close> states that every pointer
  that is held somewhere is live and held once; the lemmas say how it follows the calls.
\<close>

subsection \<open>Calls and their results\<close>

datatype rt_call = Malloc u64 | Calloc u64 u64 | Posix_memalign u64 u64 | Aligned_alloc u64 u64
  | Memalign u64 u64 | Valloc u64 | Pvalloc u64 | Realloc u64 u64 | Free u64 | Free_sized u64 u64

text \<open>
  What a call may return and leave live: an allocation gives NULL or a pointer that is not
  live; a failed \<open>realloc\<close> keeps the block, except that \<open>realloc(p, 0)\<close> may free it and still
  return NULL; a call with a pointer that is not live may do anything.
\<close>

definition fresh_result :: "u64 set \<Rightarrow> u64 \<Rightarrow> u64 set \<Rightarrow> bool" where
  "fresh_result live r live' \<longleftrightarrow> (if r = 0 then live' = live else r \<notin> live \<and> live' = insert r live)"

fun misused :: "rt_call \<Rightarrow> u64 set \<Rightarrow> bool" where
  "misused (Realloc p sz) live = (p \<noteq> 0 \<and> p \<notin> live)"
| "misused (Free p) live = (p \<noteq> 0 \<and> p \<notin> live)"
| "misused (Free_sized p sz) live = (p \<noteq> 0 \<and> p \<notin> live)"
| "misused _ live = False"

fun heap_result :: "rt_call \<Rightarrow> u64 set \<Rightarrow> u64 \<Rightarrow> u64 set \<Rightarrow> bool" where
  "heap_result (Realloc p sz) live r live' =
    (if p = 0 then fresh_result live r live'
     else if p \<notin> live then True
     else if r = 0 then live' = live \<or> sz = 0 \<and> live' = live - {p}
     else r \<notin> live - {p} \<and> live' = insert r (live - {p}))"
| "heap_result (Free p) live r live' = (if p \<noteq> 0 \<and> p \<notin> live then True else live' = live - {p})"
| "heap_result (Free_sized p sz) live r live' = (if p \<noteq> 0 \<and> p \<notin> live then True else live' = live - {p})"
| "heap_result _ live r live' = fresh_result live r live'"

subsection \<open>Who holds which pointer\<close>

text \<open>\<open>H\<close> gives the pointer a place holds.\<close>

definition owned :: "('t \<Rightarrow> u64 option) \<Rightarrow> u64 set \<Rightarrow> bool" where
  "owned H live \<longleftrightarrow> 0 \<notin> live \<and> (\<forall>t p. H t = Some p \<longrightarrow> p \<noteq> 0 \<longrightarrow> p \<in> live) \<and>
    (\<forall>t t' p. H t = Some p \<longrightarrow> H t' = Some p \<longrightarrow> p \<noteq> 0 \<longrightarrow> t = t')"

lemma owned_drop: "owned H live \<Longrightarrow> owned (H(t := None)) live"
  by (auto simp: owned_def split: if_splits)

lemma owned_move:
  assumes "owned H live" and "H t = Some p" and "t \<noteq> t'"
  shows "owned (H(t := None, t' \<mapsto> p)) live"
proof -
  have "q \<noteq> p" if "H t'' = Some q" "t'' \<noteq> t" "q \<noteq> 0" for t'' q
    using that assms(1,2) by (auto simp: owned_def)
  then show ?thesis
    using assms unfolding owned_def by (auto split: if_splits)
qed

lemma owned_fresh:
  assumes "owned H live" and "fresh_result live r live'"
  shows "owned (H(t \<mapsto> r)) live'"
  using assms unfolding owned_def fresh_result_def by (cases "r = 0") auto

lemma owned_misuse:
  assumes "owned H live" and "H t = Some p"
  shows "\<not> misused (Free p) live" and "\<not> misused (Realloc p sz) live" and "\<not> misused (Free_sized p sz) live"
  using assms by (auto simp: owned_def)

lemma owned_free:
  assumes "owned H live" and "H t = Some p" and "heap_result (Free p) live r live'"
  shows "owned (H(t := None)) live'" and "owned (H(t \<mapsto> 0)) live'"
proof -
  have l: "live' = live - {p}" "0 \<notin> live" "p \<noteq> 0 \<longrightarrow> p \<in> live"
    using assms by (auto simp: owned_def split: if_splits)
  have "q \<noteq> p" if "H t' = Some q" "t' \<noteq> t" "q \<noteq> 0" for t' q
    using that assms(1,2) by (auto simp: owned_def)
  then show "owned (H(t := None)) live'" "owned (H(t \<mapsto> 0)) live'"
    using assms(1) l unfolding owned_def by (auto split: if_splits)
qed

lemma owned_realloc:
  assumes "owned H live" and "H t = Some p" and "heap_result (Realloc p sz) live r live'"
  shows "sz \<noteq> 0 \<Longrightarrow> owned (H(t \<mapsto> (if r = 0 then p else r))) live'" and "owned (H(t \<mapsto> r)) live'"
proof -
  have other: "q \<noteq> p" if "H t' = Some q" "t' \<noteq> t" "q \<noteq> 0" for t' q
    using that assms(1,2) by (auto simp: owned_def)
  have p: "p = 0 \<or> p \<in> live" "0 \<notin> live"
    using assms(1,2) by (auto simp: owned_def)
  have "owned (H(t \<mapsto> (if r = 0 then p else r))) live'" if "sz \<noteq> 0"
  proof (cases "p = 0")
    case True
    then show ?thesis
      using assms(1,3) owned_fresh [of H live r live' t] by auto
  next
    case False
    then show ?thesis
      using assms p that other by (cases "r = 0") (auto simp: owned_def split: if_splits)
  qed
  then show "sz \<noteq> 0 \<Longrightarrow> owned (H(t \<mapsto> (if r = 0 then p else r))) live'" .
  show "owned (H(t \<mapsto> r)) live'"
  proof (cases "p = 0")
    case True
    then show ?thesis
      using assms(1,3) owned_fresh [of H live r live' t] by auto
  next
    case False
    then consider "r = 0" "live' = live \<or> live' = live - {p}"
      | "r \<noteq> 0" "r \<notin> live - {p}" "live' = insert r (live - {p})"
      using assms(3) p by (auto split: if_splits)
    then show ?thesis
    proof cases
      case 1
      then show ?thesis
        using assms(1) p other unfolding owned_def by (auto split: if_splits)
    next
      case 2
      then show ?thesis
        using assms(1) p other unfolding owned_def by (auto split: if_splits)
    qed
  qed
qed

end
