(* ===== verification/ReplayOps.thy ===== *)
theory ReplayOps
  imports ReplayPlan HeapCalls
begin

text \<open>
  What a worker of the replay does for one operation (\<open>execute_op_inner\<close> and what it calls in
  \<open>replay_main.c\<close>), access by access to the shared slots. The allocator that is measured is
  outside the program: a call of it may give any result its documentation allows. Threads
  interleave at every access to shared memory and at every call of the allocator; stores
  become visible in the order of the program, as the release and acquire orders of
  \<open>publish_slot\<close> and \<open>wait_slot_gen\<close> require.

  The lemmas: for operations that fit a schedule (as those of a planned trace do), the
  generation a worker waits for stays in its slot until the worker itself publishes the next
  (\<open>gens_inv\<close>), every pointer the replay got is held in one place (\<open>own_inv\<close>), so the
  allocator is never given one that is not live, and the first operation that is not done
  can go on (\<open>op_step_possible\<close>).

  Not in the model: the contents of the blocks (touch modes, access simulation), time (latency
  samples, time limits of the waits, the progress and watchdog threads), the counters of a
  worker, CPU affinity. A spin of \<open>wait_slot_gen\<close> is no step: a worker that waits has none until
  the generation is there.
\<close>

subsection \<open>Calls of the allocator\<close>

definition round_up :: "u64 \<Rightarrow> u64 \<Rightarrow> u64" where
  "round_up x a = (if a = 0 then x else (x + a - 1) AND NOT (a - 1))"

definition portable_memalign :: "u64 \<Rightarrow> u64 \<Rightarrow> rt_call" where
  "portable_memalign alignment sz = Memalign (if alignment < 8 then 8 else alignment) sz"

text \<open>\<open>ps\<close> is what \<open>sysconf(_SC_PAGESIZE)\<close> gives.\<close>

definition page_size :: "int \<Rightarrow> u64" where
  "page_size ps = (if 0 < ps then of_int ps else 4096)"

definition portable_valloc :: "int \<Rightarrow> u64 \<Rightarrow> rt_call" where
  "portable_valloc ps sz = portable_memalign (page_size ps) sz"

definition portable_pvalloc :: "int \<Rightarrow> u64 \<Rightarrow> rt_call" where
  "portable_pvalloc ps sz = portable_memalign (page_size ps) (round_up sz (page_size ps))"

definition do_alloc_func :: "int \<Rightarrow> u16 \<Rightarrow> u64 \<Rightarrow> rt_call" where
  "do_alloc_func ps func sz =
    (if func = MALLOC_I then Malloc sz
     else if func = CALLOC_I then Calloc 1 sz
     else if func = POSIX_MEMALIGN_I then Posix_memalign 64 sz
     else if func = ALIGNED_ALLOC_I then Aligned_alloc 64 (round_up (if sz \<noteq> 0 then sz else 1) 64)
     else if func = VALLOC_I then portable_valloc ps sz
     else if func = MEMALIGN_I then portable_memalign 64 sz
     else if func = PVALLOC_I then portable_pvalloc ps sz
     else Malloc sz)"

subsection \<open>One operation of a worker\<close>

record slot_cell =
  slot_gen :: u64
  slot_ptr :: u64

record shared =
  g_slots :: "u32 \<Rightarrow> slot_cell"
  sh_live :: "u64 set"
  sh_misuse :: bool
  sh_calls :: "(nat \<times> rt_call) list"

inductive rt_step :: "nat \<Rightarrow> rt_call \<Rightarrow> shared \<Rightarrow> u64 \<Rightarrow> shared \<Rightarrow> bool" for w c sh r where
  "heap_result c (sh_live sh) r live' \<Longrightarrow>
   rt_step w c sh r (sh\<lparr>sh_live := live', sh_misuse := sh_misuse sh \<or> misused c (sh_live sh),
     sh_calls := sh_calls sh @ [(w, c)]\<rparr>)"

inductive_simps rt_step_simps: "rt_step w c sh r sh'"

text \<open>
  Where a worker is in an operation: before it; behind the loop of \<open>wait_slot_gen\<close>; with the
  pointer it loaded; with one it has to release; with one it has to publish; between the two
  stores of \<open>publish_slot\<close>.
\<close>

datatype op_phase = Ready | Waited | Loaded u64 | Discard u64 | Publish u64 | Stored u64

definition store_ptr :: "u32 \<Rightarrow> u64 \<Rightarrow> shared \<Rightarrow> shared" where
  "store_ptr slot p sh = sh\<lparr>g_slots := (g_slots sh)(slot := (g_slots sh slot)\<lparr>slot_ptr := p\<rparr>)\<rparr>"

definition store_gen :: "u32 \<Rightarrow> u32 \<Rightarrow> shared \<Rightarrow> shared" where
  "store_gen slot gen sh = sh\<lparr>g_slots := (g_slots sh)(slot := (g_slots sh slot)\<lparr>slot_gen := ucast gen\<rparr>)\<rparr>"

text \<open>The condition under which the loop of \<open>wait_slot_gen\<close> ends.\<close>

definition wait_slot_gen :: "shared \<Rightarrow> u32 \<Rightarrow> u32 \<Rightarrow> bool" where
  "wait_slot_gen sh slot gen \<longleftrightarrow> ucast gen \<le> slot_gen (g_slots sh slot)"

lemma wait_slot_gen_nat: "wait_slot_gen sh slot gen \<longleftrightarrow> unat gen \<le> unat (slot_gen (g_slots sh slot))"
  by (simp add: wait_slot_gen_def word_le_nat_alt unsigned_ucast_eq take_bit_nat_eq_self
    order_less_trans [OF unsigned_less [of gen, where ?'a = nat]])

text \<open>The steps of \<open>execute_op_inner\<close>; \<open>None\<close> is its return.\<close>

inductive op_step :: "replay_options \<Rightarrow> int \<Rightarrow> nat \<Rightarrow> replay_op \<Rightarrow> shared \<Rightarrow> op_phase \<Rightarrow>
    shared \<Rightarrow> op_phase option \<Rightarrow> bool" for opts ps w o1 sh where
  op_alloc: "op_kind o1 = OP_ALLOC \<Longrightarrow> rt_step w (do_alloc_func ps (op_func o1) (op_size o1)) sh p sh' \<Longrightarrow>
    op_step opts ps w o1 sh Ready sh' (Some (Publish p))"
| op_realloc_null: "op_kind o1 = OP_REALLOC_NULL \<Longrightarrow> rt_step w (Realloc 0 (op_size o1)) sh p sh' \<Longrightarrow>
    op_step opts ps w o1 sh Ready sh' (Some (Publish p))"
| op_wait: "op_kind o1 = OP_FREE \<or> op_kind o1 = OP_REALLOC \<Longrightarrow>
    wait_slot_gen sh (op_slot o1) (op_wait_gen o1) \<Longrightarrow>
    op_step opts ps w o1 sh Ready sh (Some Waited)"
| op_load: "op_step opts ps w o1 sh Waited sh (Some (Loaded (slot_ptr (g_slots sh (op_slot o1)))))"
| op_free: "op_kind o1 = OP_FREE \<Longrightarrow> rt_step w (Free p) sh r sh' \<Longrightarrow>
    op_step opts ps w o1 sh (Loaded p) sh' None"
| op_realloc: "op_kind o1 = OP_REALLOC \<Longrightarrow> op_size o1 \<noteq> 0 \<Longrightarrow> rt_step w (Realloc p (op_size o1)) sh r sh' \<Longrightarrow>
    op_step opts ps w o1 sh (Loaded p) sh' (Some (Publish (if r = 0 then p else r)))"
| op_realloc_zero: "op_kind o1 = OP_REALLOC \<Longrightarrow> op_size o1 = 0 \<Longrightarrow> rt_step w (Realloc p 0) sh r sh' \<Longrightarrow>
    op_step opts ps w o1 sh (Loaded p) sh' (Some (if r \<noteq> 0 then Discard r else Publish 0))"
| op_discard: "rt_step w (Free q) sh r sh' \<Longrightarrow> op_step opts ps w o1 sh (Discard q) sh' (Some (Publish 0))"
| op_store_ptr: "op_step opts ps w o1 sh (Publish p) (store_ptr (op_slot o1) p sh) (Some (Stored p))"
| op_store_gen: "op_step opts ps w o1 sh (Stored p) (store_gen (op_slot o1) (op_out_gen o1) sh) None"
| op_unknown: "op_kind o1 = OP_UNKNOWN_FREE \<Longrightarrow> g_unknown_policy opts = UNKNOWN_SYNTHETIC \<Longrightarrow>
    op_aux o1 \<noteq> 0 \<Longrightarrow> rt_step w (Free (op_aux o1)) sh r sh' \<Longrightarrow> op_step opts ps w o1 sh Ready sh' None"
| op_unknown_skip: "op_kind o1 = OP_UNKNOWN_FREE \<Longrightarrow>
    g_unknown_policy opts \<noteq> UNKNOWN_SYNTHETIC \<or> op_aux o1 = 0 \<Longrightarrow> op_step opts ps w o1 sh Ready sh None"

subsection \<open>Objects for unknown frees\<close>

text \<open>The loop of \<open>prepare_synthetic_unknowns\<close>, at index \<open>i\<close>.\<close>

definition synthetic_size :: "replay_options \<Rightarrow> replay_op \<Rightarrow> u64" where
  "synthetic_size opts o1 = (if op_size o1 \<noteq> 0 then op_size o1 else g_synthetic_size opts)"

inductive prepare_step :: "replay_options \<Rightarrow> nat \<Rightarrow> nat \<Rightarrow> replay_op list \<Rightarrow> shared \<Rightarrow>
    replay_op list \<Rightarrow> shared \<Rightarrow> bool" for opts w i os sh where
  prepare_alloc: "i < length os \<Longrightarrow> op_kind (os ! i) = OP_UNKNOWN_FREE \<Longrightarrow>
    rt_step w (Malloc (synthetic_size opts (os ! i))) sh p sh' \<Longrightarrow>
    prepare_step opts w i os sh (os[i := (os ! i)\<lparr>op_size := synthetic_size opts (os ! i), op_aux := p\<rparr>]) sh'"
| prepare_other: "i < length os \<Longrightarrow> op_kind (os ! i) \<noteq> OP_UNKNOWN_FREE \<Longrightarrow> prepare_step opts w i os sh os sh"

subsection \<open>Facts on schedules\<close>

abbreviation needs_at :: "schedule \<Rightarrow> nat \<Rightarrow> (u32 \<times> u32) option" where
  "needs_at s k \<equiv> op_needs (snd (s ! k))"

abbreviation makes_at :: "schedule \<Rightarrow> nat \<Rightarrow> (u32 \<times> u32) option" where
  "makes_at s k \<equiv> op_makes (snd (s ! k))"

lemma made_take: "k \<le> length s \<Longrightarrow> y \<in> made (take k s) \<longleftrightarrow> (\<exists>j<k. makes_at s j = Some y)"
  by (auto simp: made_def nth_image [symmetric])

lemma needed_take: "k \<le> length s \<Longrightarrow> y \<in> needed (take k s) \<longleftrightarrow> (\<exists>j<k. needs_at s j = Some y)"
  by (auto simp: needed_def nth_image [symmetric])

lemma schedule_fits:
  assumes "scheduled s" and "k < length s"
  shows "needs_at s k = Some y \<Longrightarrow> \<exists>j<k. makes_at s j = Some y"
    and "needs_at s k = Some y \<Longrightarrow> j < k \<Longrightarrow> needs_at s j \<noteq> Some y"
    and "makes_at s k = Some y \<Longrightarrow> j < k \<Longrightarrow> makes_at s j \<noteq> Some y"
    and "op_kind (snd (s ! k)) = OP_REALLOC \<Longrightarrow>
      unat (op_out_gen (snd (s ! k))) = unat (op_wait_gen (snd (s ! k))) + 1"
    and "op_kind (snd (s ! k)) = OP_ALLOC \<or> op_kind (snd (s ! k)) = OP_REALLOC_NULL \<Longrightarrow>
      op_out_gen (snd (s ! k)) = 1"
proof -
  have f: "fits (take k s) (snd (s ! k))"
    using assms by (simp add: scheduled_def)
  show "needs_at s k = Some y \<Longrightarrow> \<exists>j<k. makes_at s j = Some y"
    using f assms(2) made_take [of k s y] by (auto simp: fits_def)
  show "needs_at s k = Some y \<Longrightarrow> j < k \<Longrightarrow> needs_at s j \<noteq> Some y"
    using f assms(2) needed_take [of k s y] by (auto simp: fits_def)
  show "makes_at s k = Some y \<Longrightarrow> j < k \<Longrightarrow> makes_at s j \<noteq> Some y"
    using f assms(2) made_take [of k s y] by (auto simp: fits_def)
qed (use assms in \<open>auto simp: scheduled_def fits_def\<close>)

lemma needs_unique:
  "scheduled s \<Longrightarrow> j < length s \<Longrightarrow> k < length s \<Longrightarrow> needs_at s j = Some y \<Longrightarrow> needs_at s k = Some y \<Longrightarrow> j = k"
  using schedule_fits(2) by (metis nat_neq_iff)

lemma makes_unique:
  "scheduled s \<Longrightarrow> j < length s \<Longrightarrow> k < length s \<Longrightarrow> makes_at s j = Some y \<Longrightarrow> makes_at s k = Some y \<Longrightarrow> j = k"
  using schedule_fits(3) by (metis nat_neq_iff)

lemma makes_pos:
  assumes "scheduled s" and "k < length s" and "makes_at s k = Some (slot, g)"
  shows "1 \<le> unat g"
  using schedule_fits(4,5) [OF assms(1,2)] assms(3) by (auto simp: op_makes_def split: if_splits)

text \<open>
  The operation a vector holds at a position: that of the schedule, or an unknown free whose
  size and object \<open>prepare_synthetic_unknowns\<close> has set.
\<close>

definition same_op :: "replay_op \<Rightarrow> replay_op \<Rightarrow> bool" where
  "same_op o1 o2 \<longleftrightarrow> o1 = o2 \<or> op_kind o1 = OP_UNKNOWN_FREE \<and> op_kind o2 = OP_UNKNOWN_FREE"

lemma same_op_props:
  assumes "same_op o1 o2"
  shows "op_kind o1 = op_kind o2" "op_needs o1 = op_needs o2" "op_makes o1 = op_makes o2"
  using assms by (auto simp: same_op_def op_needs_def op_makes_def)

definition vectors_ok :: "schedule \<Rightarrow> (nat \<Rightarrow> replay_op list) \<Rightarrow> bool" where
  "vectors_ok s os \<longleftrightarrow> (\<forall>w. length (os w) = length (idxs s w) \<and>
    (\<forall>j<length (idxs s w). same_op (os w ! j) (snd (s ! (idxs s w ! j)))))"

subsection \<open>The invariant of the slots\<close>

abbreviation gen_at :: "shared \<Rightarrow> u32 \<Rightarrow> nat" where
  "gen_at sh slot \<equiv> unat (slot_gen (g_slots sh slot))"

fun phase_fits :: "op_kind \<Rightarrow> op_phase \<Rightarrow> bool" where
  "phase_fits k Ready = True"
| "phase_fits k Waited = (k = OP_FREE \<or> k = OP_REALLOC)"
| "phase_fits k (Loaded p) = (k = OP_FREE \<or> k = OP_REALLOC)"
| "phase_fits k (Discard p) = (k = OP_REALLOC)"
| "phase_fits k (Publish p) = (k = OP_ALLOC \<or> k = OP_REALLOC_NULL \<or> k = OP_REALLOC)"
| "phase_fits k (Stored p) = (k = OP_ALLOC \<or> k = OP_REALLOC_NULL \<or> k = OP_REALLOC)"

text \<open>
  The generations of a slot that are out are those of the operations done; what waited for an
  earlier one is done; a worker that has waited for a generation finds it there until it
  publishes the next.
\<close>

definition gens_inv :: "schedule \<Rightarrow> (nat \<Rightarrow> nat) \<Rightarrow> (nat \<Rightarrow> op_phase) \<Rightarrow> shared \<Rightarrow> bool" where
  "gens_inv s pos ph sh \<longleftrightarrow>
    (\<forall>k slot g. fin s pos k \<longrightarrow> makes_at s k = Some (slot, g) \<longrightarrow> unat g \<le> gen_at sh slot) \<and>
    (\<forall>slot g. 1 \<le> unat g \<longrightarrow> unat g \<le> gen_at sh slot \<longrightarrow>
      (\<exists>k. fin s pos k \<and> makes_at s k = Some (slot, g))) \<and>
    (\<forall>slot. gen_at sh slot < 2 ^ 32) \<and>
    (\<forall>k slot g. k < length s \<longrightarrow> needs_at s k = Some (slot, g) \<longrightarrow> unat g < gen_at sh slot \<longrightarrow> fin s pos k) \<and>
    (\<forall>w. busy s pos w \<longrightarrow> phase_fits (op_kind (snd (s ! cur s pos w))) (ph w) \<and>
      (\<forall>slot g. ph w \<noteq> Ready \<longrightarrow> needs_at s (cur s pos w) = Some (slot, g) \<longrightarrow> gen_at sh slot = unat g)) \<and>
    (\<forall>w. \<not> busy s pos w \<longrightarrow> ph w = Ready)"

lemma gens_invD:
  assumes "gens_inv s pos ph sh"
  shows "fin s pos k \<Longrightarrow> makes_at s k = Some (slot, g) \<Longrightarrow> unat g \<le> gen_at sh slot"
    and "1 \<le> unat g \<Longrightarrow> unat g \<le> gen_at sh slot \<Longrightarrow> \<exists>k. fin s pos k \<and> makes_at s k = Some (slot, g)"
    and "gen_at sh slot < 2 ^ 32"
    and "k < length s \<Longrightarrow> needs_at s k = Some (slot, g) \<Longrightarrow> unat g < gen_at sh slot \<Longrightarrow> fin s pos k"
    and "busy s pos w \<Longrightarrow> phase_fits (op_kind (snd (s ! cur s pos w))) (ph w)"
    and "busy s pos w \<Longrightarrow> ph w \<noteq> Ready \<Longrightarrow> needs_at s (cur s pos w) = Some (slot, g) \<Longrightarrow>
      gen_at sh slot = unat g"
    and "\<not> busy s pos w \<Longrightarrow> ph w = Ready"
  using assms unfolding gens_inv_def by blast+

lemma gens_inv_phase:
  assumes "gens_inv s pos ph sh" and "g_slots sh' = g_slots sh" and "busy s pos w"
    and "phase_fits (op_kind (snd (s ! cur s pos w))) ph'"
    and "\<And>slot g. ph' \<noteq> Ready \<Longrightarrow> needs_at s (cur s pos w) = Some (slot, g) \<Longrightarrow> gen_at sh slot = unat g"
  shows "gens_inv s pos (ph(w := ph')) sh'"
  using assms unfolding gens_inv_def by (simp add: assms(2))

text \<open>A worker passes the loop of \<open>wait_slot_gen\<close> with exactly the generation it waits for.\<close>

lemma waited_gen:
  assumes "gens_inv s pos ph sh" and "scheduled s" and "busy s pos w"
    and "needs_at s (cur s pos w) = Some (slot, g)" and "unat g \<le> gen_at sh slot"
  shows "gen_at sh slot = unat g"
proof (rule ccontr)
  assume "gen_at sh slot \<noteq> unat g"
  then have "fin s pos (cur s pos w)"
    using assms cur_props(1) [OF assms(3)] by (auto simp: gens_inv_def)
  then show False
    using cur_props(3) [OF assms(3)] by blast
qed

text \<open>Before its store of the generation, the slot of a worker has the one before.\<close>

lemma gen_before_store:
  assumes "gens_inv s pos ph sh" and "scheduled s" and "busy s pos w"
    and "makes_at s (cur s pos w) = Some (slot, g)" and "ph w \<noteq> Ready"
  shows "gen_at sh slot + 1 = unat g"
    and "needs_at s k = Some (slot, h) \<Longrightarrow> k < length s \<Longrightarrow> unat h = gen_at sh slot \<Longrightarrow> k = cur s pos w"
proof -
  define o1 where "o1 = snd (s ! cur s pos w)"
  note c = cur_props(1,3) [OF assms(3)]
  note fit = schedule_fits(4,5) [OF assms(2) c(1)]
  have slot: "op_slot o1 = slot" "op_out_gen o1 = g"
    using assms(4) by (auto simp: op_makes_def o1_def split: if_splits)
  consider (re) "op_kind o1 = OP_REALLOC" | (new) "op_kind o1 = OP_ALLOC \<or> op_kind o1 = OP_REALLOC_NULL"
    using assms(4) by (auto simp: op_makes_def o1_def split: if_splits)
  then have "gen_at sh slot + 1 = unat g \<and> (\<forall>k h. needs_at s k = Some (slot, h) \<longrightarrow> k < length s \<longrightarrow>
      unat h = gen_at sh slot \<longrightarrow> k = cur s pos w)"
  proof cases
    case re
    then have n: "needs_at s (cur s pos w) = Some (slot, op_wait_gen o1)"
      using slot by (simp add: op_needs_def o1_def)
    then have "gen_at sh slot = unat (op_wait_gen o1)"
      using assms(1,3,5) by (auto simp: gens_inv_def)
    moreover have "unat g = unat (op_wait_gen o1) + 1"
      using fit(1) re slot(2) by (simp add: o1_def)
    moreover have "k = cur s pos w" if "needs_at s k = Some (slot, h)" "k < length s"
      "unat h = unat (op_wait_gen o1)" for k h
    proof -
      from that(3) have "h = op_wait_gen o1" by (simp add: word_unat_eq_iff)
      with that(1,2) show ?thesis by (intro needs_unique [OF assms(2) _ c(1) _ n]) simp_all
    qed
    ultimately show ?thesis by simp
  next
    case new
    then have g: "g = 1"
      using fit(2) slot(2) by (simp add: o1_def)
    have zero: "gen_at sh slot = 0"
    proof (rule ccontr)
      assume "gen_at sh slot \<noteq> 0"
      then obtain k where "fin s pos k" "makes_at s k = Some (slot, 1)"
        using gens_invD(2) [OF assms(1), of 1 slot] by auto
      then show False
        using makes_unique [OF assms(2) _ c(1) _ assms(4)] g c(2) by (auto simp: fin_def)
    qed
    have pos: "unat h \<noteq> 0" if n: "needs_at s k = Some (slot, h)" and k: "k < length s" for k h
    proof -
      obtain j where "j < k" "makes_at s j = Some (slot, h)"
        using schedule_fits(1) [OF assms(2) k n] by blast
      then show ?thesis
        using makes_pos [OF assms(2), of j slot h] k by simp
    qed
    show ?thesis
      unfolding zero g by (intro conjI allI impI) (simp, use pos in blast)
  qed
  note both = this
  show "gen_at sh slot + 1 = unat g"
    using both by (rule conjunct1)
  show "k = cur s pos w" if "needs_at s k = Some (slot, h)" "k < length s" "unat h = gen_at sh slot"
    using conjunct2 [OF both] that by blast
qed

text \<open>A worker that has done its operation: the generation it makes, if any, is out.\<close>

lemma gens_inv_done:
  assumes inv: "gens_inv s pos ph sh" and "busy s pos w"
    and none: "makes_at s (cur s pos w) = None" and same: "g_slots sh' = g_slots sh"
  shows "gens_inv s (pos(w := pos w + 1)) (ph(w := Ready)) sh'"
proof -
  note fin' = cur_props(4) [OF assms(2)]
  have other: "cur s (pos(w := pos w + 1)) v = cur s pos v" "busy s (pos(w := pos w + 1)) v = busy s pos v"
    if "v \<noteq> w" for v
    using that by (simp_all add: cur_def busy_def)
  show ?thesis
    unfolding gens_inv_def same fin'
  proof (intro conjI allI impI)
    fix k slot g
    assume "fin s pos k \<or> k = cur s pos w" and "makes_at s k = Some (slot, g)"
    then show "unat g \<le> gen_at sh slot"
      using inv none by (auto simp: gens_inv_def)
  next
    fix v
    assume b: "busy s (pos(w := pos w + 1)) v"
    show "phase_fits (op_kind (snd (s ! cur s (pos(w := pos w + 1)) v))) ((ph(w := Ready)) v)"
      using inv b other [of v] by (cases "v = w") (auto simp: gens_inv_def)
    fix slot g
    assume "(ph(w := Ready)) v \<noteq> Ready" and "needs_at s (cur s (pos(w := pos w + 1)) v) = Some (slot, g)"
    then show "gen_at sh slot = unat g"
      using inv b other [of v] by (cases "v = w") (auto simp: gens_inv_def)
  next
    fix v
    assume "\<not> busy s (pos(w := pos w + 1)) v"
    then show "(ph(w := Ready)) v = Ready"
      using inv other [of v] by (cases "v = w") (auto simp: gens_inv_def)
  next
    fix slot g
    assume "1 \<le> unat (g::u32)" and "unat g \<le> gen_at sh slot"
    then show "\<exists>k. (fin s pos k \<or> k = cur s pos w) \<and> makes_at s k = Some (slot, g)"
      using gens_invD(2) [OF inv] by blast
  next
    fix slot
    show "gen_at sh slot < 2 ^ 32"
      by (rule gens_invD(3) [OF inv])
  next
    fix k slot g
    assume "k < length s" and "needs_at s k = Some (slot, g)" and "unat g < gen_at sh slot"
    then show "fin s pos k \<or> k = cur s pos w"
      using gens_invD(4) [OF inv] by blast
  qed
qed

lemma gens_inv_store:
  assumes inv: "gens_inv s pos ph sh" and sched: "scheduled s" and b: "busy s pos w"
    and makes: "makes_at s (cur s pos w) = Some (slot, g)" and "ph w \<noteq> Ready"
    and slots: "\<And>\<sigma>. gen_at sh' \<sigma> = (if \<sigma> = slot then unat g else gen_at sh \<sigma>)"
  shows "gens_inv s (pos(w := pos w + 1)) (ph(w := Ready)) sh'"
proof -
  note fin' = cur_props(4) [OF b]
  have other: "cur s (pos(w := pos w + 1)) v = cur s pos v" "busy s (pos(w := pos w + 1)) v = busy s pos v"
    if "v \<noteq> w" for v
    using that by (simp_all add: cur_def busy_def)
  have before: "gen_at sh slot + 1 = unat g"
    and only: "\<And>k h. needs_at s k = Some (slot, h) \<Longrightarrow> k < length s \<Longrightarrow> unat h = gen_at sh slot \<Longrightarrow>
      k = cur s pos w"
    using gen_before_store [OF inv sched b makes assms(5)] by blast+
  show ?thesis
    unfolding gens_inv_def fin' slots
  proof (intro conjI allI impI)
    fix k \<sigma> h
    assume f: "fin s pos k \<or> k = cur s pos w" and m: "makes_at s k = Some (\<sigma>, h)"
    show "unat h \<le> (if \<sigma> = slot then unat g else gen_at sh \<sigma>)"
    proof (cases "k = cur s pos w")
      case False
      then have "unat h \<le> gen_at sh \<sigma>"
        using f m inv by (auto simp: gens_inv_def)
      then show ?thesis using before by auto
    qed (use m makes in simp)
  next
    fix \<sigma> h
    assume h: "1 \<le> unat (h::u32)" "unat h \<le> (if \<sigma> = slot then unat g else gen_at sh \<sigma>)"
    show "\<exists>k. (fin s pos k \<or> k = cur s pos w) \<and> makes_at s k = Some (\<sigma>, h)"
    proof (cases "\<sigma> = slot \<and> unat h = unat g")
      case True
      then have "(\<sigma>, h) = (slot, g)" by (simp add: word_unat_eq_iff)
      with makes show ?thesis by blast
    next
      case False
      then have "unat h \<le> gen_at sh \<sigma>" using h(2) before by (auto split: if_splits)
      with h(1) inv show ?thesis unfolding gens_inv_def by blast
    qed
  next
    fix \<sigma>
    show "(if \<sigma> = slot then unat g else gen_at sh \<sigma>) < 2 ^ 32"
      using gens_invD(3) [OF inv, of \<sigma>] unsigned_less [of g, where ?'a = nat] by simp
  next
    fix k \<sigma> h
    assume k: "k < length s" "needs_at s k = Some (\<sigma>, h)" "unat h < (if \<sigma> = slot then unat g else gen_at sh \<sigma>)"
    then consider "unat h < gen_at sh \<sigma>" | "\<sigma> = slot" "unat h = gen_at sh slot"
      using before by (cases "\<sigma> = slot"; cases "unat h = gen_at sh slot") simp_all
    then show "fin s pos k \<or> k = cur s pos w"
      using k(1,2) only gens_invD(4) [OF inv] by cases blast+
  next
    fix v
    assume bv: "busy s (pos(w := pos w + 1)) v"
    show "phase_fits (op_kind (snd (s ! cur s (pos(w := pos w + 1)) v))) ((ph(w := Ready)) v)"
      using inv bv other [of v] by (cases "v = w") (auto simp: gens_inv_def)
    fix \<sigma> h
    assume p: "(ph(w := Ready)) v \<noteq> Ready" and n: "needs_at s (cur s (pos(w := pos w + 1)) v) = Some (\<sigma>, h)"
    then have v: "v \<noteq> w" by auto
    then have bv': "busy s pos v" and n': "needs_at s (cur s pos v) = Some (\<sigma>, h)"
      using bv n other by simp_all
    then have e: "gen_at sh \<sigma> = unat h"
      using inv p v by (auto simp: gens_inv_def)
    have "\<sigma> \<noteq> slot"
    proof
      assume "\<sigma> = slot"
      then have "cur s pos v = cur s pos w"
        using only [of "cur s pos v" h] n' e cur_props(1) [OF bv'] by simp
      then show False
        using cur_props(2) [OF bv'] cur_props(2) [OF b] v by simp
    qed
    with e show "(if \<sigma> = slot then unat g else gen_at sh \<sigma>) = unat h" by simp
  next
    fix v
    assume "\<not> busy s (pos(w := pos w + 1)) v"
    then show "(ph(w := Ready)) v = Ready"
      using inv other [of v] by (cases "v = w") (auto simp: gens_inv_def)
  qed
qed

subsection \<open>Who holds which pointer\<close>

text \<open>
  A pointer the replay got is held in one place: in a slot whose current generation nobody has
  taken yet, by a worker on its way through an operation, or in an unknown free that is still
  to come. The non-null pointers held are live and pairwise different.
\<close>

datatype token = OfSlot u32 | OfWorker nat | OfAux nat nat

fun carried :: "op_phase \<Rightarrow> u64 option" where
  "carried Ready = None"
| "carried Waited = None"
| "carried (Loaded p) = Some p"
| "carried (Discard p) = Some p"
| "carried (Publish p) = Some p"
| "carried (Stored p) = Some p"

text \<open>The operation at \<open>k\<close> has loaded its pointer.\<close>

definition past_load :: "schedule \<Rightarrow> (nat \<Rightarrow> nat) \<Rightarrow> (nat \<Rightarrow> op_phase) \<Rightarrow> nat \<Rightarrow> bool" where
  "past_load s pos ph k \<longleftrightarrow> fin s pos k \<or>
    (busy s pos (fst (s ! k)) \<and> cur s pos (fst (s ! k)) = k \<and> carried (ph (fst (s ! k))) \<noteq> None)"

definition taken :: "schedule \<Rightarrow> (nat \<Rightarrow> nat) \<Rightarrow> (nat \<Rightarrow> op_phase) \<Rightarrow> u32 \<times> u32 \<Rightarrow> bool" where
  "taken s pos ph y \<longleftrightarrow> (\<exists>k<length s. needs_at s k = Some y \<and> past_load s pos ph k)"

fun holds :: "schedule \<Rightarrow> replay_options \<Rightarrow> (nat \<Rightarrow> replay_op list) \<Rightarrow> (nat \<Rightarrow> nat) \<Rightarrow> (nat \<Rightarrow> op_phase) \<Rightarrow>
    shared \<Rightarrow> token \<Rightarrow> u64 option" where
  "holds s opts os pos ph sh (OfSlot slot) =
    (if 1 \<le> gen_at sh slot \<and> \<not> taken s pos ph (slot, of_nat (gen_at sh slot))
     then Some (slot_ptr (g_slots sh slot)) else None)"
| "holds s opts os pos ph sh (OfWorker w) = (if busy s pos w then carried (ph w) else None)"
| "holds s opts os pos ph sh (OfAux w j) =
    (if g_unknown_policy opts = UNKNOWN_SYNTHETIC \<and> pos w \<le> j \<and> j < length (os w) \<and>
       op_kind (os w ! j) = OP_UNKNOWN_FREE then Some (op_aux (os w ! j)) else None)"

definition own_inv :: "schedule \<Rightarrow> replay_options \<Rightarrow> (nat \<Rightarrow> replay_op list) \<Rightarrow> (nat \<Rightarrow> nat) \<Rightarrow>
    (nat \<Rightarrow> op_phase) \<Rightarrow> shared \<Rightarrow> bool" where
  "own_inv s opts os pos ph sh \<longleftrightarrow>
    (\<forall>k slot g. fin s pos k \<longrightarrow> needs_at s k = Some (slot, g) \<longrightarrow> unat g \<le> gen_at sh slot) \<and>
    (\<forall>w p. busy s pos w \<longrightarrow> ph w = Stored p \<longrightarrow>
      slot_ptr (g_slots sh (op_slot (snd (s ! cur s pos w)))) = p) \<and>
    owned (holds s opts os pos ph sh) (sh_live sh) \<and> \<not> sh_misuse sh"

lemma own_invD:
  assumes "own_inv s opts os pos ph sh"
  shows "fin s pos k \<Longrightarrow> needs_at s k = Some (slot, g) \<Longrightarrow> unat g \<le> gen_at sh slot"
    and "busy s pos w \<Longrightarrow> ph w = Stored p \<Longrightarrow> slot_ptr (g_slots sh (op_slot (snd (s ! cur s pos w)))) = p"
    and "owned (holds s opts os pos ph sh) (sh_live sh)" and "\<not> sh_misuse sh"
  using assms unfolding own_inv_def by blast+

lemma past_load_phase:
  assumes "busy s pos w"
  shows "past_load s pos (ph(w := ph')) k =
    (if k = cur s pos w then carried ph' \<noteq> None else past_load s pos ph k)"
  using cur_props(2,3) [OF assms] assms by (auto simp: past_load_def)

lemma past_load_done:
  assumes "busy s pos w"
  shows "past_load s (pos(w := pos w + 1)) (ph(w := Ready)) k = (k = cur s pos w \<or> past_load s pos ph k)"
proof -
  have other: "cur s (pos(w := pos w + 1)) v = cur s pos v" "busy s (pos(w := pos w + 1)) v = busy s pos v"
    if "v \<noteq> w" for v
    using that by (simp_all add: cur_def busy_def)
  show ?thesis
    unfolding past_load_def cur_props(4) [OF assms]
    using other [of "fst (s ! k)"] by (cases "fst (s ! k) = w") auto
qed

lemma taken_phase_same:
  assumes "busy s pos w" and "needs_at s (cur s pos w) = None \<or> (carried ph' = None \<longleftrightarrow> carried (ph w) = None)"
  shows "taken s pos (ph(w := ph')) y = taken s pos ph y"
proof -
  have p: "past_load s pos ph (cur s pos w) = (carried (ph w) \<noteq> None)"
    using cur_props(2,3) [OF assms(1)] assms(1) by (simp add: past_load_def)
  have "(needs_at s k = Some y \<and> past_load s pos (ph(w := ph')) k) =
      (needs_at s k = Some y \<and> past_load s pos ph k)" for k
    using assms(2) p by (cases "k = cur s pos w") (auto simp: past_load_phase [OF assms(1)])
  then show ?thesis
    unfolding taken_def by blast
qed

lemma taken_done_same:
  assumes "busy s pos w" and "needs_at s (cur s pos w) = None \<or> carried (ph w) \<noteq> None"
  shows "taken s (pos(w := pos w + 1)) (ph(w := Ready)) y = taken s pos ph y"
proof -
  have "past_load s pos ph (cur s pos w) = (carried (ph w) \<noteq> None)"
    using cur_props(2,3) [OF assms(1)] assms(1) by (simp add: past_load_def)
  then show ?thesis
    unfolding taken_def past_load_done [OF assms(1)] using assms(2) by auto
qed

lemma taken_load:
  assumes "scheduled s" and "busy s pos w" and "needs_at s (cur s pos w) = Some y0"
    and "carried (ph w) = None" and "carried ph' \<noteq> None"
  shows "\<not> taken s pos ph y0" and "taken s pos (ph(w := ph')) y \<longleftrightarrow> taken s pos ph y \<or> y = y0"
proof -
  have c: "\<not> past_load s pos ph (cur s pos w)"
    using cur_props(2,3) [OF assms(2)] assms(4) by (simp add: past_load_def)
  have u: "k = cur s pos w" if "k < length s" "needs_at s k = Some y0" for k
    using needs_unique [OF assms(1) that(1) cur_props(1) [OF assms(2)] that(2) assms(3)] .
  show "\<not> taken s pos ph y0"
    using c u by (auto simp: taken_def)
  show "taken s pos (ph(w := ph')) y \<longleftrightarrow> taken s pos ph y \<or> y = y0"
  proof -
    have "past_load s pos (ph(w := ph')) k \<longleftrightarrow> past_load s pos ph k \<or> k = cur s pos w" for k
      using assms(5) c by (simp add: past_load_phase [OF assms(2)])
    then show ?thesis
      unfolding taken_def using assms(3) cur_props(1) [OF assms(2)] by (metis option.inject)
  qed
qed

text \<open>Nobody has taken a generation that is not out.\<close>

lemma future_not_taken:
  assumes "gens_inv s pos ph sh" and "own_inv s opts os pos ph sh" and "gen_at sh slot < unat g"
  shows "\<not> taken s pos ph (slot, g)"
proof
  assume "taken s pos ph (slot, g)"
  then obtain k where k: "k < length s" "needs_at s k = Some (slot, g)" "past_load s pos ph k"
    by (auto simp: taken_def)
  show False
  proof (cases "fin s pos k")
    case True
    then show False
      using own_invD(1) [OF assms(2) _ k(2)] assms(3) by auto
  next
    case False
    then have "busy s pos (fst (s ! k))" "cur s pos (fst (s ! k)) = k" "ph (fst (s ! k)) \<noteq> Ready"
      using k(3) by (auto simp: past_load_def)
    then show False
      using gens_invD(6) [OF assms(1), of "fst (s ! k)" slot g] k(2) assms(3) by simp
  qed
qed

subsection \<open>What a step does to the holders\<close>

lemma holds_phase:
  assumes "busy s pos w" and "g_slots sh' = g_slots sh"
    and "needs_at s (cur s pos w) = None \<or> (carried ph' = None \<longleftrightarrow> carried (ph w) = None)"
  shows "holds s opts os pos (ph(w := ph')) sh' = (holds s opts os pos ph sh)(OfWorker w := carried ph')"
proof
  fix t
  show "holds s opts os pos (ph(w := ph')) sh' t = ((holds s opts os pos ph sh)(OfWorker w := carried ph')) t"
    using assms(1,2) taken_phase_same [where ph = ph, OF assms(1,3)] by (cases t) auto
qed

lemma holds_load:
  assumes "scheduled s" and "busy s pos w" and "needs_at s (cur s pos w) = Some (slot, g)"
    and "carried (ph w) = None" and "gen_at sh slot = unat g" and "carried ph' = Some p"
  shows "holds s opts os pos (ph(w := ph')) sh =
    (holds s opts os pos ph sh)(OfSlot slot := None, OfWorker w \<mapsto> p)"
proof
  fix t
  have g: "(of_nat (gen_at sh slot) :: u32) = g"
    unfolding assms(5) by simp
  have "taken s pos (ph(w := ph')) y \<longleftrightarrow> taken s pos ph y \<or> y = (slot, g)" for y
    using taken_load(2) [where ph = ph and ph' = ph', OF assms(1-4)] assms(6) by simp
  then show "holds s opts os pos (ph(w := ph')) sh t =
      ((holds s opts os pos ph sh)(OfSlot slot := None, OfWorker w \<mapsto> p)) t"
    using assms(2,6) g by (cases t) auto
qed

lemma holds_done:
  assumes "busy s pos w" and "g_slots sh' = g_slots sh"
    and "needs_at s (cur s pos w) = None \<or> carried (ph w) \<noteq> None"
  shows "holds s opts os (pos(w := pos w + 1)) (ph(w := Ready)) sh' =
    (holds s opts os pos ph sh)(OfWorker w := None, OfAux w (pos w) := None)"
proof
  fix t
  show "holds s opts os (pos(w := pos w + 1)) (ph(w := Ready)) sh' t =
      ((holds s opts os pos ph sh)(OfWorker w := None, OfAux w (pos w) := None)) t"
    using assms(2) taken_done_same [where ph = ph, OF assms(1,3)] by (cases t) (auto simp: busy_def)
qed


text \<open>Between the load of the old pointer and the store of the new generation a slot is nobody's.\<close>

lemma slot_held_by_none:
  assumes "gens_inv s pos ph sh" and "scheduled s" and "busy s pos w"
    and "makes_at s (cur s pos w) = Some (slot, g)" and "carried (ph w) \<noteq> None"
  shows "holds s opts os pos ph sh (OfSlot slot) = None"
proof (cases "gen_at sh slot = 0")
  case False
  have r: "ph w \<noteq> Ready" using assms(5) by auto
  note before = gen_before_store(1) [OF assms(1-4) r]
  define o1 where "o1 = snd (s ! cur s pos w)"
  note fit = schedule_fits(4,5) [OF assms(2) cur_props(1) [OF assms(3)], folded o1_def]
  have slot: "op_slot o1 = slot" "op_out_gen o1 = g"
    using assms(4) by (auto simp: op_makes_def o1_def split: if_splits)
  have re: "op_kind o1 = OP_REALLOC"
  proof (rule ccontr)
    assume "op_kind o1 \<noteq> OP_REALLOC"
    then have "op_kind o1 = OP_ALLOC \<or> op_kind o1 = OP_REALLOC_NULL"
      using assms(4) by (auto simp: op_makes_def o1_def split: if_splits)
    then have "g = 1" using fit(2) slot(2) by simp
    with before False show False by simp
  qed
  then have n: "needs_at s (cur s pos w) = Some (slot, op_wait_gen o1)"
    using slot by (simp add: op_needs_def o1_def)
  have "gen_at sh slot = unat (op_wait_gen o1)"
    by (rule gens_invD(6) [OF assms(1,3) r n])
  then have "(of_nat (gen_at sh slot) :: u32) = op_wait_gen o1"
    by simp
  moreover have "past_load s pos ph (cur s pos w)"
    using assms(3,5) cur_props(2) [OF assms(3)] by (simp add: past_load_def)
  ultimately have "taken s pos ph (slot, of_nat (gen_at sh slot))"
    unfolding taken_def using n cur_props(1) [OF assms(3)] by auto
  then show ?thesis by simp
qed simp

lemma store_slot [simp]:
  "g_slots (store_ptr slot p sh) \<sigma> = (if \<sigma> = slot then (g_slots sh \<sigma>)\<lparr>slot_ptr := p\<rparr> else g_slots sh \<sigma>)"
  "g_slots (store_gen slot g sh) \<sigma> = (if \<sigma> = slot then (g_slots sh \<sigma>)\<lparr>slot_gen := ucast g\<rparr> else g_slots sh \<sigma>)"
  "sh_live (store_ptr slot p sh) = sh_live sh" "sh_misuse (store_ptr slot p sh) = sh_misuse sh"
  "sh_live (store_gen slot g sh) = sh_live sh" "sh_misuse (store_gen slot g sh) = sh_misuse sh"
  by (simp_all add: store_ptr_def store_gen_def)

lemma gen_store: "gen_at (store_gen slot g sh) \<sigma> = (if \<sigma> = slot then unat g else gen_at sh \<sigma>)"
proof -
  have "unat g < 2 ^ 64" using unsigned_less [of g, where ?'a = nat] by simp
  then show ?thesis by (simp add: unsigned_ucast_eq take_bit_nat_eq_self)
qed

lemma gens_inv_store_ptr: "gens_inv s pos ph (store_ptr slot p sh) = gens_inv s pos ph sh"
proof -
  have "gen_at (store_ptr slot p sh) \<sigma> = gen_at sh \<sigma>" for \<sigma> by simp
  then show ?thesis unfolding gens_inv_def by presburger
qed

text \<open>Only one worker is about to publish a slot.\<close>

lemma one_publisher:
  assumes "gens_inv s pos ph sh" and "scheduled s" and "busy s pos w" and "busy s pos v"
    and "makes_at s (cur s pos w) = Some (slot, g)" and "makes_at s (cur s pos v) = Some (slot, h)"
    and "ph w \<noteq> Ready" and "ph v \<noteq> Ready"
  shows "v = w"
proof -
  have "unat g = unat h"
    using gen_before_store(1) [OF assms(1-3,5,7)] gen_before_store(1) [OF assms(1,2,4,6,8)] by simp
  then have "g = h" by (simp add: word_unat_eq_iff)
  then have "cur s pos w = cur s pos v"
    using makes_unique [OF assms(2) cur_props(1) [OF assms(3)] cur_props(1) [OF assms(4)] assms(5)] assms(6)
    by simp
  then show ?thesis
    using cur_props(2) [OF assms(3)] cur_props(2) [OF assms(4)] by metis
qed

lemma stored_makes:
  assumes "gens_inv s pos ph sh" and "busy s pos v" and "ph v = Stored q"
  shows "makes_at s (cur s pos v) =
    Some (op_slot (snd (s ! cur s pos v)), op_out_gen (snd (s ! cur s pos v)))"
  using gens_invD(5) [OF assms(1,2)] assms(3) by (auto simp: op_makes_def)

lemma holds_store_ptr:
  assumes "gens_inv s pos ph sh" and "scheduled s" and "busy s pos w"
    and "makes_at s (cur s pos w) = Some (slot, g)" and "ph w = Publish p"
  shows "holds s opts os pos (ph(w := Stored p)) (store_ptr slot p sh) = holds s opts os pos ph sh"
proof
  fix t
  have t: "taken s pos (ph(w := Stored p)) y = taken s pos ph y" for y
    by (rule taken_phase_same) (use assms(3,5) in simp_all)
  have n: "holds s opts os pos ph sh (OfSlot slot) = None"
    by (rule slot_held_by_none [OF assms(1-4)]) (simp add: assms(5))
  have g: "gen_at (store_ptr slot p sh) \<sigma> = gen_at sh \<sigma>" for \<sigma>
    by simp
  show "holds s opts os pos (ph(w := Stored p)) (store_ptr slot p sh) t = holds s opts os pos ph sh t"
  proof (cases t)
    case (OfSlot \<sigma>)
    have q: "slot_ptr (g_slots (store_ptr slot p sh) \<sigma>) = slot_ptr (g_slots sh \<sigma>)" if "\<sigma> \<noteq> slot"
      using that by simp
    show ?thesis
    proof (cases "\<sigma> = slot")
      case True
      then show ?thesis
        using n unfolding OfSlot holds.simps t g by (metis option.distinct(1))
    next
      case False
      show ?thesis unfolding OfSlot holds.simps t g q [OF False] ..
    qed
  qed (use assms(3,5) in auto)
qed

lemma holds_store_gen:
  assumes "gens_inv s pos ph sh" and "own_inv s opts os pos ph sh" and "scheduled s" and "busy s pos w"
    and "makes_at s (cur s pos w) = Some (slot, g)" and "ph w = Stored p"
  shows "holds s opts os (pos(w := pos w + 1)) (ph(w := Ready)) (store_gen slot g sh) =
    (holds s opts os pos ph sh)(OfWorker w := None, OfSlot slot \<mapsto> p, OfAux w (pos w) := None)"
proof
  fix t
  note before = gen_before_store(1) [OF assms(1,3-5)]
  have b: "gen_at sh slot + 1 = unat g" using before assms(6) by simp
  have t: "taken s (pos(w := pos w + 1)) (ph(w := Ready)) y = taken s pos ph y" for y
    by (rule taken_done_same) (use assms(4,6) in simp_all)
  have n: "\<not> taken s pos ph (slot, g)"
    by (rule future_not_taken [OF assms(1,2)]) (use b in simp)
  note g = gen_store [of slot g sh]
  have q: "slot_ptr (g_slots (store_gen slot g sh) \<sigma>) = slot_ptr (g_slots sh \<sigma>)" for \<sigma>
    by simp
  have "op_slot (snd (s ! cur s pos w)) = slot"
    using assms(5) by (auto simp: op_makes_def split: if_splits)
  then have p: "slot_ptr (g_slots sh slot) = p"
    using own_invD(2) [OF assms(2,4,6)] by simp
  show "holds s opts os (pos(w := pos w + 1)) (ph(w := Ready)) (store_gen slot g sh) t =
    ((holds s opts os pos ph sh)(OfWorker w := None, OfSlot slot \<mapsto> p, OfAux w (pos w) := None)) t"
  proof (cases t)
    case (OfSlot \<sigma>)
    have "(of_nat (unat g) :: u32) = g" "1 \<le> unat g" using b by simp_all
    then show ?thesis
      unfolding OfSlot holds.simps t g q using n p by (cases "\<sigma> = slot") (simp_all only: if_True if_False
        simp_thms fun_upd_apply token.inject token.distinct holds.simps)
  qed (auto simp: busy_def)
qed

subsection \<open>A step of an operation keeps the invariants\<close>

lemma own_inv_phase:
  assumes "own_inv s opts os pos ph sh" and "busy s pos w" and "g_slots sh' = g_slots sh"
    and "needs_at s (cur s pos w) = None \<or> (carried ph' = None \<longleftrightarrow> carried (ph w) = None)"
    and "\<forall>p. ph' \<noteq> Stored p"
    and "owned ((holds s opts os pos ph sh)(OfWorker w := carried ph')) (sh_live sh')" and "\<not> sh_misuse sh'"
  shows "own_inv s opts os pos (ph(w := ph')) sh'"
  unfolding own_inv_def holds_phase [where ph = ph, OF assms(2-4)] unfolding assms(3)
  using assms(5-7) own_invD(1,2) [OF assms(1)] by auto

lemma own_inv_done:
  assumes "gens_inv s pos ph sh" and "own_inv s opts os pos ph sh" and "busy s pos w"
    and "g_slots sh' = g_slots sh" and "needs_at s (cur s pos w) = None \<or> carried (ph w) \<noteq> None"
    and "owned ((holds s opts os pos ph sh)(OfWorker w := None, OfAux w (pos w) := None)) (sh_live sh')"
    and "\<not> sh_misuse sh'"
  shows "own_inv s opts os (pos(w := pos w + 1)) (ph(w := Ready)) sh'"
proof -
  have other: "cur s (pos(w := pos w + 1)) v = cur s pos v" "busy s (pos(w := pos w + 1)) v = busy s pos v"
    if "v \<noteq> w" for v
    using that by (simp_all add: cur_def busy_def)
  show ?thesis
    unfolding own_inv_def holds_done [where ph = ph, OF assms(3-5)] cur_props(4) [OF assms(3)]
    unfolding assms(4)
  proof (intro conjI allI impI)
    fix k slot g
    assume "fin s pos k \<or> k = cur s pos w" and n: "needs_at s k = Some (slot, g)"
    then consider "fin s pos k" | "k = cur s pos w" by blast
    then show "unat g \<le> gen_at sh slot"
    proof cases
      case 1
      then show ?thesis by (rule own_invD(1) [OF assms(2) _ n])
    next
      case 2
      then have "ph w \<noteq> Ready" using assms(5) n by auto
      then show ?thesis
        using gens_invD(6) [OF assms(1,3), of slot g] n 2 by simp
    qed
  next
    fix v p
    assume "busy s (pos(w := pos w + 1)) v" and "(ph(w := Ready)) v = Stored p"
    then have "v \<noteq> w" "busy s pos v" "ph v = Stored p"
      using other [of v] by (cases "v = w"; simp)+
    then show "slot_ptr (g_slots sh (op_slot (snd (s ! cur s (pos(w := pos w + 1)) v)))) = p"
      using own_invD(2) [OF assms(2)] other [of v] by simp
  next
    show "owned ((holds s opts os pos ph sh)(OfWorker w := None, OfAux w (pos w) := None)) (sh_live sh')"
      by (rule assms(6))
  qed (rule assms(7))
qed

lemma own_inv_load:
  assumes "gens_inv s pos ph sh" and "own_inv s opts os pos ph sh" and "scheduled s" and "busy s pos w"
    and "needs_at s (cur s pos w) = Some (slot, g)" and "ph w = Waited"
  shows "own_inv s opts os pos (ph(w := Loaded (slot_ptr (g_slots sh slot)))) sh"
proof -
  let ?p = "slot_ptr (g_slots sh slot)"
  have gen: "gen_at sh slot = unat g"
    using gens_invD(6) [OF assms(1,4) _ assms(5)] assms(6) by simp
  have h: "holds s opts os pos (ph(w := Loaded ?p)) sh =
      (holds s opts os pos ph sh)(OfSlot slot := None, OfWorker w \<mapsto> ?p)"
    by (rule holds_load [OF assms(3-5) _ gen]) (simp_all add: assms(6))
  obtain j where j: "j < cur s pos w" "makes_at s j = Some (slot, g)"
    using schedule_fits(1) [OF assms(3) cur_props(1) [OF assms(4)] assms(5)] by blast
  have "1 \<le> gen_at sh slot"
    using makes_pos [OF assms(3) _ j(2)] j(1) cur_props(1) [OF assms(4)] gen by simp
  moreover have "(of_nat (gen_at sh slot) :: u32) = g"
    unfolding gen by simp
  moreover have "\<not> taken s pos ph (slot, g)"
    by (rule taken_load(1) [where ph = ph and ph' = "Loaded 0", OF assms(3-5)]) (simp_all add: assms(6))
  ultimately have held: "holds s opts os pos ph sh (OfSlot slot) = Some ?p"
    by simp
  have "owned ((holds s opts os pos ph sh)(OfSlot slot := None, OfWorker w \<mapsto> ?p)) (sh_live sh)"
    by (rule owned_move [OF own_invD(3) [OF assms(2)] held]) simp
  then show ?thesis
    unfolding own_inv_def h using own_invD(1,2,4) [OF assms(2)] by auto
qed

lemma own_inv_store_ptr:
  assumes "gens_inv s pos ph sh" and "own_inv s opts os pos ph sh" and "scheduled s" and "busy s pos w"
    and "makes_at s (cur s pos w) = Some (slot, g)" and "ph w = Publish p"
  shows "own_inv s opts os pos (ph(w := Stored p)) (store_ptr slot p sh)"
  unfolding own_inv_def holds_store_ptr [OF assms(1,3-6)]
proof (intro conjI allI impI)
  fix k \<sigma> g
  assume "fin s pos k" and "needs_at s k = Some (\<sigma>, g)"
  then show "unat g \<le> gen_at (store_ptr slot p sh) \<sigma>"
    using own_invD(1) [OF assms(2)] by (simp add: store_ptr_def)
next
  fix v q
  assume b: "busy s pos v" and st: "(ph(w := Stored p)) v = Stored q"
  have slot: "op_slot (snd (s ! cur s pos w)) = slot"
    using assms(5) by (auto simp: op_makes_def split: if_splits)
  show "slot_ptr (g_slots (store_ptr slot p sh) (op_slot (snd (s ! cur s pos v)))) = q"
  proof (cases "v = w")
    case True
    then show ?thesis using st slot by (simp add: store_ptr_def)
  next
    case False
    then have v: "ph v = Stored q" using st by simp
    have "op_slot (snd (s ! cur s pos v)) \<noteq> slot"
    proof
      assume "op_slot (snd (s ! cur s pos v)) = slot"
      then show False
        using one_publisher [OF assms(1,3,4) b assms(5)] stored_makes [OF assms(1) b v] assms(6) v False
        by simp
    qed
    then show ?thesis
      using own_invD(2) [OF assms(2) b v] by (simp add: store_ptr_def)
  qed
qed (use own_invD(3,4) [OF assms(2)] in \<open>simp_all add: store_ptr_def\<close>)

lemma own_inv_store_gen:
  assumes "gens_inv s pos ph sh" and "own_inv s opts os pos ph sh" and "scheduled s" and "busy s pos w"
    and "makes_at s (cur s pos w) = Some (slot, g)" and "ph w = Stored p"
  shows "own_inv s opts os (pos(w := pos w + 1)) (ph(w := Ready)) (store_gen slot g sh)"
proof -
  have other: "cur s (pos(w := pos w + 1)) v = cur s pos v" "busy s (pos(w := pos w + 1)) v = busy s pos v"
    if "v \<noteq> w" for v
    using that by (simp_all add: cur_def busy_def)
  have b: "gen_at sh slot + 1 = unat g"
    using gen_before_store(1) [OF assms(1,3-5)] assms(6) by simp
  note g = gen_store [of slot g sh]
  have q: "slot_ptr (g_slots (store_gen slot g sh) \<sigma>) = slot_ptr (g_slots sh \<sigma>)" for \<sigma>
    by simp
  show ?thesis
    unfolding own_inv_def holds_store_gen [OF assms] cur_props(4) [OF assms(4)] g q
  proof (intro conjI allI impI)
    fix k \<sigma> h
    assume "fin s pos k \<or> k = cur s pos w" and n: "needs_at s k = Some (\<sigma>, h)"
    then consider "fin s pos k" | "k = cur s pos w" by blast
    then have "unat h \<le> gen_at sh \<sigma>"
    proof cases
      case 1
      then show ?thesis by (rule own_invD(1) [OF assms(2) _ n])
    next
      case 2
      then show ?thesis
        using gens_invD(6) [OF assms(1,4), of \<sigma> h] n assms(6) by simp
    qed
    then show "unat h \<le> (if \<sigma> = slot then unat g else gen_at sh \<sigma>)"
      using b by auto
  next
    fix v p'
    assume "busy s (pos(w := pos w + 1)) v" and "(ph(w := Ready)) v = Stored p'"
    then have "v \<noteq> w" "busy s pos v" "ph v = Stored p'"
      using other [of v] by (cases "v = w"; simp)+
    then show "slot_ptr (g_slots sh (op_slot (snd (s ! cur s (pos(w := pos w + 1)) v)))) = p'"
      using own_invD(2) [OF assms(2)] other [of v] by simp
  next
    have "holds s opts os pos ph sh (OfWorker w) = Some p"
      using assms(4,6) by simp
    then have "owned ((holds s opts os pos ph sh)(OfWorker w := None, OfSlot slot \<mapsto> p)) (sh_live sh)"
      by (rule owned_move [OF own_invD(3) [OF assms(2)]]) simp
    then show "owned ((holds s opts os pos ph sh)(OfWorker w := None, OfSlot slot \<mapsto> p,
        OfAux w (pos w) := None)) (sh_live (store_gen slot g sh))"
      unfolding store_gen_def by (simp add: owned_drop)
  qed (use own_invD(4) [OF assms(2)] in \<open>simp add: store_gen_def\<close>)
qed


lemma rt_stepD:
  assumes "rt_step w c sh r sh'"
  shows "heap_result c (sh_live sh) r (sh_live sh')" and "g_slots sh' = g_slots sh"
    and "sh_misuse sh' = (sh_misuse sh \<or> misused c (sh_live sh))"
  using assms by (auto simp: rt_step_simps)

lemma do_alloc_func_call [simp]:
  "heap_result (do_alloc_func ps f sz) live r live' = fresh_result live r live'"
  "\<not> misused (do_alloc_func ps f sz) live"
  by (simp_all add: do_alloc_func_def portable_valloc_def portable_pvalloc_def portable_memalign_def)

definition stepped :: "schedule \<Rightarrow> replay_options \<Rightarrow> (nat \<Rightarrow> replay_op list) \<Rightarrow> (nat \<Rightarrow> nat) \<Rightarrow>
    (nat \<Rightarrow> op_phase) \<Rightarrow> nat \<Rightarrow> shared \<Rightarrow> op_phase option \<Rightarrow> bool" where
  "stepped s opts os pos ph w sh res = (case res of
     Some ph' \<Rightarrow> gens_inv s pos (ph(w := ph')) sh \<and> own_inv s opts os pos (ph(w := ph')) sh
   | None \<Rightarrow> gens_inv s (pos(w := pos w + 1)) (ph(w := Ready)) sh \<and>
       own_inv s opts os (pos(w := pos w + 1)) (ph(w := Ready)) sh)"

lemma op_step_inv:
  assumes sched: "scheduled s" and gens: "gens_inv s pos ph sh" and own: "own_inv s opts os pos ph sh"
    and b: "busy s pos w" and "pos w < length (os w)"
    and same: "same_op (os w ! pos w) (snd (s ! cur s pos w))"
    and step: "op_step opts ps w (os w ! pos w) sh (ph w) sh' res"
  shows "stepped s opts os pos ph w sh' res"
proof -
  define o1 where "o1 = os w ! pos w"
  define H where "H = holds s opts os pos ph sh"
  note kind = same_op_props [OF same, folded o1_def]
  have fits: "phase_fits (op_kind o1) (ph w)"
    using gens_invD(5) [OF gens b] kind(1) by simp
  note o = own_invD(3) [OF own, folded H_def] and nm = own_invD(4) [OF own]
  have hw: "H (OfWorker w) = carried (ph w)"
    using b by (simp add: H_def)
  have needs: "needs_at s (cur s pos w) = Some (op_slot o1, op_wait_gen o1)"
    if "op_kind o1 = OP_FREE \<or> op_kind o1 = OP_REALLOC"
    using that unfolding kind(2) [symmetric] by (simp add: op_needs_def)
  have needs_none: "needs_at s (cur s pos w) = None" if "op_kind o1 \<noteq> OP_FREE" "op_kind o1 \<noteq> OP_REALLOC"
    using that unfolding kind(2) [symmetric] by (simp add: op_needs_def)
  have makes: "makes_at s (cur s pos w) = Some (op_slot o1, op_out_gen o1)"
    if "op_kind o1 = OP_ALLOC \<or> op_kind o1 = OP_REALLOC_NULL \<or> op_kind o1 = OP_REALLOC"
    using that unfolding kind(3) [symmetric] by (simp add: op_makes_def)
  have makes_none: "makes_at s (cur s pos w) = None" if "op_kind o1 = OP_FREE \<or> op_kind o1 = OP_UNKNOWN_FREE"
    using that unfolding kind(3) [symmetric] by (auto simp: op_makes_def)
  have go_on: "stepped s opts os pos ph w sh'' (Some ph')"
    if "g_slots sh'' = g_slots sh" "phase_fits (op_kind o1) ph'" "\<forall>p. ph' \<noteq> Stored p"
      "needs_at s (cur s pos w) = None \<or> (ph w \<noteq> Ready \<and> carried ph' = None \<longleftrightarrow> ph w \<noteq> Ready \<and> carried (ph w) = None) \<and> ph w \<noteq> Ready"
      "owned (H(OfWorker w := carried ph')) (sh_live sh'')" "\<not> sh_misuse sh''" for sh'' ph'
  proof -
    have "gens_inv s pos (ph(w := ph')) sh''"
      by (rule gens_inv_phase [OF gens that(1) b]) (use that gens_invD(6) [OF gens b] kind(1) in auto)
    moreover have "own_inv s opts os pos (ph(w := ph')) sh''"
      by (rule own_inv_phase [OF own b that(1)]) (use that in \<open>auto simp: H_def\<close>)
    ultimately show ?thesis by (simp add: stepped_def)
  qed
  have finished: "stepped s opts os pos ph w sh'' None"
    if "g_slots sh'' = g_slots sh" "makes_at s (cur s pos w) = None"
      "needs_at s (cur s pos w) = None \<or> carried (ph w) \<noteq> None"
      "owned (H(OfWorker w := None, OfAux w (pos w) := None)) (sh_live sh'')" "\<not> sh_misuse sh''" for sh''
    using gens_inv_done [OF gens b that(2,1)] own_inv_done [OF gens own b that(1,3)] that(4,5)
    by (simp add: stepped_def H_def)
  from step [folded o1_def] show ?thesis
  proof cases
    case (op_alloc p)
    note r = rt_stepD [OF op_alloc(4)]
    show ?thesis
      unfolding op_alloc(2) by (rule go_on) (use op_alloc(3) r owned_fresh [OF o] nm needs_none in simp_all)
  next
    case (op_realloc_null p)
    note r = rt_stepD [OF op_realloc_null(4)]
    show ?thesis
      unfolding op_realloc_null(2)
      by (rule go_on) (use op_realloc_null(3) r owned_fresh [OF o] nm needs_none in simp_all)
  next
    case op_wait
    note n = needs [OF op_wait(4)]
    have "unat (op_wait_gen o1) \<le> gen_at sh (op_slot o1)"
      using op_wait(5) by (simp add: wait_slot_gen_nat)
    then have g: "gen_at sh (op_slot o1) = unat (op_wait_gen o1)"
      by (rule waited_gen [OF gens sched b n])
    have "gens_inv s pos (ph(w := Waited)) sh"
      by (rule gens_inv_phase [OF gens refl b]) (use op_wait(4) n g kind(1) in auto)
    moreover have "own_inv s opts os pos (ph(w := Waited)) sh"
      by (rule own_inv_phase [OF own b refl]) (use op_wait(1) nm owned_drop [OF o] in \<open>auto simp: H_def\<close>)
    ultimately show ?thesis unfolding op_wait(2,3) by (simp add: stepped_def)
  next
    case op_load
    have k: "op_kind o1 = OP_FREE \<or> op_kind o1 = OP_REALLOC"
      using fits op_load(1) by simp
    have "gens_inv s pos (ph(w := Loaded (slot_ptr (g_slots sh (op_slot o1))))) sh"
      by (rule gens_inv_phase [OF gens refl b])
        (use k kind(1) gens_invD(6) [OF gens b] op_load(1) in auto)
    then show ?thesis
      unfolding op_load(2,3) using own_inv_load [OF gens own sched b needs [OF k] op_load(1)]
      by (simp add: stepped_def)
  next
    case (op_free p r)
    note r = rt_stepD [OF op_free(4)]
    have h: "H (OfWorker w) = Some p" using hw op_free(1) by simp
    show ?thesis
      unfolding op_free(2)
      by (rule finished) (use op_free(1,3) r owned_drop [OF owned_free(1) [OF o h r(1)]] nm
        owned_misuse(1) [OF o h] makes_none in simp_all)
  next
    case (op_realloc p r)
    note r = rt_stepD [OF op_realloc(5)]
    have h: "H (OfWorker w) = Some p" using hw op_realloc(1) by simp
    show ?thesis
      unfolding op_realloc(2)
      by (rule go_on) (use op_realloc(1,3) r owned_realloc(1) [OF o h r(1) op_realloc(4)] nm
        owned_misuse(2) [OF o h] in simp_all)
  next
    case (op_realloc_zero p r)
    note r = rt_stepD [OF op_realloc_zero(5)]
    have h: "H (OfWorker w) = Some p" using hw op_realloc_zero(1) by simp
    show ?thesis
      unfolding op_realloc_zero(2)
    proof (rule go_on)
      have "carried (if r \<noteq> 0 then Discard r else Publish 0) = Some r" by simp
      then show "owned (H(OfWorker w := carried (if r \<noteq> 0 then Discard r else Publish 0))) (sh_live sh')"
        using owned_realloc(2) [OF o h r(1)] by simp
    qed (use op_realloc_zero(1,3) r(2,3) nm owned_misuse(2) [OF o h] in \<open>simp_all\<close>)
  next
    case (op_discard q r)
    note r = rt_stepD [OF op_discard(3)]
    have h: "H (OfWorker w) = Some q" using hw op_discard(1) by simp
    show ?thesis
      unfolding op_discard(2)
      by (rule go_on) (use op_discard(1) fits r owned_free(2) [OF o h r(1)] nm
        owned_misuse(1) [OF o h] in simp_all)
  next
    case (op_store_ptr p)
    have k: "op_kind o1 = OP_ALLOC \<or> op_kind o1 = OP_REALLOC_NULL \<or> op_kind o1 = OP_REALLOC"
      using fits op_store_ptr(1) by simp
    have "gens_inv s pos (ph(w := Stored p)) (store_ptr (op_slot o1) p sh)"
      unfolding gens_inv_store_ptr
      by (rule gens_inv_phase [OF gens refl b]) (use k kind(1) gens_invD(6) [OF gens b] op_store_ptr(1) in auto)
    then show ?thesis
      unfolding op_store_ptr(2,3) using own_inv_store_ptr [OF gens own sched b makes [OF k] op_store_ptr(1)]
      by (simp add: stepped_def)
  next
    case (op_store_gen p)
    have k: "op_kind o1 = OP_ALLOC \<or> op_kind o1 = OP_REALLOC_NULL \<or> op_kind o1 = OP_REALLOC"
      using fits op_store_gen(1) by simp
    have "gens_inv s (pos(w := pos w + 1)) (ph(w := Ready)) (store_gen (op_slot o1) (op_out_gen o1) sh)"
      by (rule gens_inv_store [OF gens sched b makes [OF k] _ gen_store]) (simp add: op_store_gen(1))
    then show ?thesis
      unfolding op_store_gen(2,3) using own_inv_store_gen [OF gens own sched b makes [OF k] op_store_gen(1)]
      by (simp add: stepped_def)
  next
    case (op_unknown r)
    note r = rt_stepD [OF op_unknown(6)]
    let ?H = "H(OfWorker w := None)"
    have h: "?H (OfAux w (pos w)) = Some (op_aux o1)"
      using op_unknown(3,4) assms(5) by (simp add: H_def o1_def)
    show ?thesis
      unfolding op_unknown(2)
    proof (rule finished)
      show "owned (H(OfWorker w := None, OfAux w (pos w) := None)) (sh_live sh')"
        by (rule owned_free(1) [OF owned_drop [OF o] h r(1)])
      show "\<not> sh_misuse sh'"
        using nm r(3) owned_misuse(1) [OF owned_drop [OF o] h] by blast
    qed (use op_unknown(3) r(2) makes_none needs_none in simp_all)
  next
    case op_unknown_skip
    show ?thesis
      unfolding op_unknown_skip(2,3)
      by (rule finished) (use op_unknown_skip(4) owned_drop [OF owned_drop [OF o]] nm
        makes_none needs_none in simp_all)
  qed
qed


subsection \<open>A step is possible\<close>

lemma rt_step_possible: "\<exists>r sh'. rt_step w c sh r sh'"
proof -
  have f: "fresh_result live 0 live" for live :: "u64 set"
    by (simp add: fresh_result_def)
  have "\<exists>live'. heap_result c (sh_live sh) 0 live'"
    by (cases c) (use f in auto)
  then show ?thesis
    using rt_step.intros by blast
qed

lemma op_step_possible:
  assumes sched: "scheduled s" and gens: "gens_inv s pos ph sh" and b: "busy s pos w"
    and same: "same_op (os w ! pos w) (snd (s ! cur s pos w))" and "\<forall>j<cur s pos w. fin s pos j"
  shows "\<exists>sh' res. op_step opts ps w (os w ! pos w) sh (ph w) sh' res"
proof -
  define o1 where "o1 = os w ! pos w"
  note kind = same_op_props [OF same, folded o1_def]
  have fits: "phase_fits (op_kind o1) (ph w)"
    using gens_invD(5) [OF gens b] kind(1) by simp
  obtain r1 s1 where alloc: "rt_step w (do_alloc_func ps (op_func o1) (op_size o1)) sh r1 s1"
    using rt_step_possible by blast
  obtain r2 s2 where null: "rt_step w (Realloc 0 (op_size o1)) sh r2 s2"
    using rt_step_possible by blast
  obtain r3 s3 where aux: "rt_step w (Free (op_aux o1)) sh r3 s3"
    using rt_step_possible by blast
  have rel: "\<exists>r sh'. rt_step w (Free p) sh r sh'" and re: "\<exists>r sh'. rt_step w (Realloc p z) sh r sh'" for p z
    using rt_step_possible by blast+
  show ?thesis
    unfolding o1_def [symmetric]
  proof (cases "ph w")
    case Ready
    then consider "op_kind o1 = OP_ALLOC" | "op_kind o1 = OP_REALLOC_NULL" | "op_kind o1 = OP_UNKNOWN_FREE"
      | (wait) "op_kind o1 = OP_FREE \<or> op_kind o1 = OP_REALLOC"
      by (cases "op_kind o1") auto
    then show "\<exists>sh' res. op_step opts ps w o1 sh (ph w) sh' res"
    proof cases
      case wait
      then have "needs_at s (cur s pos w) = Some (op_slot o1, op_wait_gen o1)"
        unfolding kind(2) [symmetric] by (simp add: op_needs_def)
      then obtain j where j: "j < cur s pos w" "makes_at s j = Some (op_slot o1, op_wait_gen o1)"
        using schedule_fits(1) [OF sched cur_props(1) [OF b]] by blast
      have "unat (op_wait_gen o1) \<le> gen_at sh (op_slot o1)"
        using gens_invD(1) [OF gens _ j(2)] assms(5) j(1) by blast
      then have "wait_slot_gen sh (op_slot o1) (op_wait_gen o1)"
        by (simp add: wait_slot_gen_nat)
      then show ?thesis
        unfolding Ready using op_wait [OF wait] by blast
    next
      case 3
      then show ?thesis
        unfolding Ready using op_unknown [OF _ _ _ aux] op_unknown_skip by blast
    next
      case 1
      show ?thesis unfolding Ready by (rule exI, rule exI, rule op_alloc [OF 1 alloc])
    next
      case 2
      show ?thesis unfolding Ready by (rule exI, rule exI, rule op_realloc_null [OF 2 null])
    qed
  next
    case Waited
    then show "\<exists>sh' res. op_step opts ps w o1 sh (ph w) sh' res"
      using op_load by metis
  next
    case (Loaded p)
    then consider "op_kind o1 = OP_FREE" | "op_kind o1 = OP_REALLOC" "op_size o1 = 0"
      | "op_kind o1 = OP_REALLOC" "op_size o1 \<noteq> 0"
      using fits by auto
    then show "\<exists>sh' res. op_step opts ps w o1 sh (ph w) sh' res"
      unfolding Loaded using op_free rel op_realloc_zero op_realloc re by cases metis+
  next
    case (Discard p)
    then show "\<exists>sh' res. op_step opts ps w o1 sh (ph w) sh' res"
      using op_discard rel by metis
  next
    case (Publish p)
    then show "\<exists>sh' res. op_step opts ps w o1 sh (ph w) sh' res"
      using op_store_ptr by metis
  next
    case (Stored p)
    then show "\<exists>sh' res. op_step opts ps w o1 sh (ph w) sh' res"
      using op_store_gen by metis
  qed
qed

subsection \<open>The invariants of a preparation step\<close>

lemma vectors_okD:
  assumes "vectors_ok s os" and "busy s pos w"
  shows "pos w < length (os w)" and "same_op (os w ! pos w) (snd (s ! cur s pos w))"
  using assms by (simp_all add: vectors_ok_def busy_def cur_def)

lemma own_inv_prepare:
  assumes "own_inv s opts (os(w := take i xs)) pos ph sh" and "prepare_step opts w i xs sh xs' sh'"
    and "pos w = 0" and "g_unknown_policy opts = UNKNOWN_SYNTHETIC"
  shows "own_inv s opts (os(w := take (i + 1) xs')) pos ph sh'" and "g_slots sh' = g_slots sh"
proof -
  let ?H = "holds s opts (os(w := take i xs)) pos ph sh"
  have "own_inv s opts (os(w := take (i + 1) xs')) pos ph sh' \<and> g_slots sh' = g_slots sh"
    using assms(2)
  proof cases
    case (prepare_alloc p)
    note r = rt_stepD [OF prepare_alloc(4)]
    have "holds s opts (os(w := take (i + 1) xs')) pos ph sh' t = (?H(OfAux w i \<mapsto> p)) t" for t
    proof (cases t)
      case (OfAux v j)
      consider "v \<noteq> w" | "v = w" "j < i" | "v = w" "j = i" | "v = w" "i < j"
        by linarith
      then show ?thesis
        using OfAux prepare_alloc(2,3) assms(3,4) unfolding prepare_alloc(1)
        by cases (auto simp: nth_list_update)
    qed (simp_all add: r(2))
    then have h: "holds s opts (os(w := take (i + 1) xs')) pos ph sh' = ?H(OfAux w i \<mapsto> p)" ..
    have "owned (?H(OfAux w i \<mapsto> p)) (sh_live sh')"
      by (rule owned_fresh [OF own_invD(3) [OF assms(1)]]) (use r(1) in simp)
    then show ?thesis
      unfolding own_inv_def h unfolding r(2,3) using own_invD(1,2,4) [OF assms(1)] by auto
  next
    case prepare_other
    have "holds s opts (os(w := take (i + 1) xs)) pos ph sh t = ?H t" for t
    proof (cases t)
      case (OfAux v j)
      consider "v \<noteq> w" | "v = w" "j < i" | "v = w" "j = i" | "v = w" "i < j"
        by linarith
      then show ?thesis
        using OfAux prepare_other by cases auto
    qed simp_all
    then have h: "holds s opts (os(w := take (i + 1) xs)) pos ph sh = ?H" ..
    show ?thesis
      using assms(1) unfolding own_inv_def prepare_other(1,2) h by simp
  qed
  then show "own_inv s opts (os(w := take (i + 1) xs')) pos ph sh'" "g_slots sh' = g_slots sh"
    by blast+
qed

lemma vectors_ok_prepare:
  assumes "vectors_ok s os" and "prepare_step opts w i (os w) sh xs' sh'"
  shows "vectors_ok s (os(w := xs'))" and "length xs' = length (os w)"
proof -
  have l: "length xs' = length (os w) \<and> (\<forall>j<length (os w). same_op (xs' ! j) (snd (s ! (idxs s w ! j))))"
    using assms(2)
  proof cases
    case (prepare_alloc p)
    have all: "same_op (os w ! j) (snd (s ! (idxs s w ! j)))" if "j < length (os w)" for j
      using assms(1) that by (simp add: vectors_ok_def)
    have "op_kind (snd (s ! (idxs s w ! i))) = OP_UNKNOWN_FREE"
      using same_op_props(1) [OF all [OF prepare_alloc(2)]] prepare_alloc(3) by simp
    then have "same_op (xs' ! j) (snd (s ! (idxs s w ! j)))" if "j < length (os w)" for j
      using all [OF that] that prepare_alloc(3) unfolding prepare_alloc(1)
      by (cases "j = i") (simp_all add: same_op_def)
    then show ?thesis by (simp add: prepare_alloc(1))
  next
    case prepare_other
    then show ?thesis using assms(1) by (simp add: vectors_ok_def)
  qed
  then show "length xs' = length (os w)" by blast
  show "vectors_ok s (os(w := xs'))"
    using assms(1) l by (simp add: vectors_ok_def)
qed


subsection \<open>The calls of a worker\<close>

text \<open>The allocations among the calls of a worker, the old pointers of \<open>realloc\<close> left out.\<close>

fun alloc_part :: "rt_call \<Rightarrow> rt_call list" where
  "alloc_part (Free p) = []"
| "alloc_part (Free_sized p sz) = []"
| "alloc_part (Realloc p sz) = [Realloc 0 sz]"
| "alloc_part c = [c]"

definition alloc_calls :: "nat \<Rightarrow> shared \<Rightarrow> rt_call list" where
  "alloc_calls w sh = concat (map (\<lambda>(v, c). if v = w then alloc_part c else []) (sh_calls sh))"

text \<open>What the operations of a vector ask for, and what its preparation does.\<close>

fun op_allocs :: "int \<Rightarrow> replay_op \<Rightarrow> rt_call list" where
  "op_allocs ps o1 =
    (if op_kind o1 = OP_ALLOC then [do_alloc_func ps (op_func o1) (op_size o1)]
     else if op_kind o1 = OP_REALLOC \<or> op_kind o1 = OP_REALLOC_NULL then [Realloc 0 (op_size o1)] else [])"

definition prepare_call :: "replay_options \<Rightarrow> replay_op \<Rightarrow> rt_call list" where
  "prepare_call opts o1 = (if g_unknown_policy opts = UNKNOWN_SYNTHETIC \<and> op_kind o1 = OP_UNKNOWN_FREE
     then [Malloc (synthetic_size opts o1)] else [])"

definition prepare_allocs :: "replay_options \<Rightarrow> replay_op list \<Rightarrow> rt_call list" where
  "prepare_allocs opts os = concat (map (prepare_call opts) os)"

fun called :: "op_phase \<Rightarrow> bool" where
  "called (Discard p) = True"
| "called (Publish p) = True"
| "called (Stored p) = True"
| "called _ = False"

definition partial_allocs :: "int \<Rightarrow> op_phase \<Rightarrow> replay_op list \<Rightarrow> nat \<Rightarrow> rt_call list" where
  "partial_allocs ps ph os i = concat (map (op_allocs ps) (take i os)) @ (if called ph then op_allocs ps (os ! i) else [])"

lemma rt_step_calls:
  "rt_step w c sh r sh' \<Longrightarrow> alloc_calls v sh' = alloc_calls v sh @ (if v = w then alloc_part c else [])"
  by (auto simp: rt_step_simps alloc_calls_def)

lemma alloc_part_func: "alloc_part (do_alloc_func ps f sz) = [do_alloc_func ps f sz]"
  by (simp add: do_alloc_func_def portable_valloc_def portable_pvalloc_def portable_memalign_def)

lemma store_calls [simp]:
  "alloc_calls v (store_ptr slot p sh) = alloc_calls v sh" "alloc_calls v (store_gen slot g sh) = alloc_calls v sh"
  by (simp_all add: alloc_calls_def store_ptr_def store_gen_def)

lemma op_step_calls:
  assumes "op_step opts ps w o1 sh ph sh' res"
  shows "v \<noteq> w \<Longrightarrow> alloc_calls v sh' = alloc_calls v sh"
    and "alloc_calls w sh = xs @ (if called ph then op_allocs ps o1 else []) \<Longrightarrow>
      alloc_calls w sh' = xs @ (case res of Some ph' \<Rightarrow> if called ph' then op_allocs ps o1 else []
        | None \<Rightarrow> op_allocs ps o1)"
  using assms by (cases; auto simp: rt_step_calls alloc_part_func)+


lemma prepare_step_calls:
  assumes "prepare_step opts w i os sh xs sh'" and "g_unknown_policy opts = UNKNOWN_SYNTHETIC"
  shows "v \<noteq> w \<Longrightarrow> alloc_calls v sh' = alloc_calls v sh"
    and "alloc_calls w sh = prepare_allocs opts (take i os) \<Longrightarrow>
      alloc_calls w sh' = prepare_allocs opts (take (Suc i) xs)"
    and "map (prepare_call opts) xs = map (prepare_call opts) os"
    and "map (op_allocs ps) xs = map (op_allocs ps) os"
proof -
  have "(v \<noteq> w \<longrightarrow> alloc_calls v sh' = alloc_calls v sh) \<and>
    (alloc_calls w sh = prepare_allocs opts (take i os) \<longrightarrow>
      alloc_calls w sh' = prepare_allocs opts (take (Suc i) xs)) \<and>
    map (prepare_call opts) xs = map (prepare_call opts) os \<and> map (op_allocs ps) xs = map (op_allocs ps) os"
    using assms(1)
  proof cases
    case (prepare_alloc p)
    let ?x = "(os ! i)\<lparr>op_size := synthetic_size opts (os ! i), op_aux := p\<rparr>"
    have "synthetic_size opts ?x = synthetic_size opts (os ! i)"
      by (simp add: synthetic_size_def)
    then have x: "prepare_call opts ?x = prepare_call opts (os ! i)" "op_allocs ps ?x = op_allocs ps (os ! i)"
      "prepare_call opts (os ! i) = [Malloc (synthetic_size opts (os ! i))]"
      using prepare_alloc(3) assms(2) by (simp_all add: prepare_call_def)
    have m: "map (prepare_call opts) xs = map (prepare_call opts) os" "map (op_allocs ps) xs = map (op_allocs ps) os"
      unfolding prepare_alloc(1) map_update x(1,2) by (simp_all only: map_update [symmetric] list_update_id)
    have "prepare_allocs opts (take (Suc i) xs) = prepare_allocs opts (take i os) @ prepare_call opts (os ! i)"
      using prepare_alloc(2) unfolding prepare_allocs_def take_map [symmetric] m
      by (simp add: take_Suc_conv_app_nth)
    then show ?thesis
      using m rt_step_calls [OF prepare_alloc(4)] x(3) by simp
  next
    case prepare_other
    then show ?thesis
      by (simp add: prepare_allocs_def take_Suc_conv_app_nth prepare_call_def)
  qed
  then show "v \<noteq> w \<Longrightarrow> alloc_calls v sh' = alloc_calls v sh"
    "alloc_calls w sh = prepare_allocs opts (take i os) \<Longrightarrow>
      alloc_calls w sh' = prepare_allocs opts (take (Suc i) xs)"
    "map (prepare_call opts) xs = map (prepare_call opts) os" "map (op_allocs ps) xs = map (op_allocs ps) os"
    by blast+
qed

lemma prepare_allocs_none: "g_unknown_policy opts \<noteq> UNKNOWN_SYNTHETIC \<Longrightarrow> prepare_allocs opts os = []"
  by (simp add: prepare_allocs_def prepare_call_def)

subsection \<open>The invariant of a replay\<close>

text \<open>\<open>os\<close> are the vectors of the workers, \<open>prep\<close> the parts of them that are prepared.\<close>

definition replay_inv :: "schedule \<Rightarrow> replay_options \<Rightarrow> (nat \<Rightarrow> replay_op list) \<Rightarrow> (nat \<Rightarrow> replay_op list) \<Rightarrow>
    (nat \<Rightarrow> nat) \<Rightarrow> (nat \<Rightarrow> op_phase) \<Rightarrow> shared \<Rightarrow> bool" where
  "replay_inv s opts os prep pos ph sh \<longleftrightarrow>
    vectors_ok s os \<and> gens_inv s pos ph sh \<and> own_inv s opts prep pos ph sh"

lemma replay_invD:
  assumes "replay_inv s opts os prep pos ph sh"
  shows "vectors_ok s os" and "gens_inv s pos ph sh" and "own_inv s opts prep pos ph sh"
  using assms by (simp_all add: replay_inv_def)

lemma replay_inv_step:
  assumes inv: "replay_inv s opts os prep pos ph sh" and "scheduled s" and "pos w < length (os w)"
    and "prep w = os w" and "op_step opts ps w (os w ! pos w) sh (ph w) sh' res"
  shows "res = Some ph' \<Longrightarrow> replay_inv s opts os prep pos (ph(w := ph')) sh'"
    and "res = None \<Longrightarrow> replay_inv s opts os prep (pos(w := pos w + 1)) (ph(w := Ready)) sh'"
proof -
  note i = replay_invD [OF inv]
  have b: "busy s pos w"
    using i(1) assms(3) by (simp add: busy_def vectors_ok_def)
  have "stepped s opts prep pos ph w sh' res"
    by (rule op_step_inv [where os = prep, OF assms(2) i(2,3) b])
      (use vectors_okD(2) [OF i(1) b] assms(3-5) in simp_all)
  then show "res = Some ph' \<Longrightarrow> replay_inv s opts os prep pos (ph(w := ph')) sh'"
    "res = None \<Longrightarrow> replay_inv s opts os prep (pos(w := pos w + 1)) (ph(w := Ready)) sh'"
    using i(1) by (simp_all add: stepped_def replay_inv_def)
qed

lemma replay_inv_prepare:
  assumes inv: "replay_inv s opts os prep pos ph sh" and step: "prepare_step opts w i (os w) sh xs sh'"
    and "prep w = take i (os w)" and "pos w = 0" and "g_unknown_policy opts = UNKNOWN_SYNTHETIC"
  shows "replay_inv s opts (os(w := xs)) (prep(w := take (i + 1) xs)) pos ph sh'"
proof -
  note i = replay_invD [OF inv]
  have p: "prep(w := take i (os w)) = prep"
    using assms(3) by auto
  note own = own_inv_prepare [of s opts prep w i "os w" pos ph sh xs sh', unfolded p, OF i(3) step assms(4,5)]
  have "gens_inv s pos ph sh'"
    using i(2) unfolding gens_inv_def own(2) .
  then show ?thesis
    using vectors_ok_prepare(1) [OF i(1) step] own(1) by (simp add: replay_inv_def)
qed

lemma holds_not_synthetic:
  assumes "g_unknown_policy opts \<noteq> UNKNOWN_SYNTHETIC"
  shows "holds s opts os pos ph sh = holds s opts os' pos ph sh"
proof
  show "holds s opts os pos ph sh t = holds s opts os' pos ph sh t" for t
    using assms by (cases t) simp_all
qed

lemma replay_inv_prepared:
  assumes "replay_inv s opts os prep pos ph sh" and "prep' = prep \<or> g_unknown_policy opts \<noteq> UNKNOWN_SYNTHETIC"
  shows "replay_inv s opts os prep' pos ph sh"
proof -
  have "holds s opts prep' pos ph sh = holds s opts prep pos ph sh"
    using assms(2) holds_not_synthetic by blast
  then show ?thesis
    using assms(1) by (simp add: replay_inv_def own_inv_def)
qed

lemma idxs_length:
  assumes "well_planned rp s"
  shows "length (idxs s w) = (if w < length (rp_workers rp) then length (plan_ops rp w) else 0)"
proof (cases "w < length (rp_workers rp)")
  case True
  then show ?thesis
    using assms by (simp add: well_planned_def ops_of_idxs)
next
  case False
  have "k \<notin> set (idxs s w)" for k
    using assms False nth_mem [of k s] by (auto simp: idxs_props well_planned_def)
  then have "idxs s w = []" by (cases "idxs s w") auto
  with False show ?thesis by simp
qed

text \<open>The slots before the replay, as the mapping gives them, and the vectors of a plan.\<close>

definition fresh_shared :: shared where
  "fresh_shared = \<lparr>g_slots = (\<lambda>_. \<lparr>slot_gen = 0, slot_ptr = 0\<rparr>), sh_live = {}, sh_misuse = False, sh_calls = []\<rparr>"

definition worker_ops :: "replay_plan \<Rightarrow> nat \<Rightarrow> replay_op list" where
  "worker_ops rp w = (if w < length (rp_workers rp) then plan_ops rp w else [])"

lemma replay_inv_initial:
  assumes "well_planned rp s"
  shows "replay_inv s opts (worker_ops rp) (\<lambda>_. []) (\<lambda>_. 0) (\<lambda>_. Ready) fresh_shared"
proof -
  have nofin: "\<not> fin s (\<lambda>_. 0) k" for k
    by (simp add: fin_def)
  have "worker_ops rp w = map (\<lambda>k. snd (s ! k)) (idxs s w)" for w
  proof (cases "w < length (rp_workers rp)")
    case True
    then show ?thesis
      using assms by (simp add: worker_ops_def well_planned_def ops_of_idxs)
  next
    case False
    then show ?thesis
      using idxs_length [OF assms, of w] by (simp add: worker_ops_def)
  qed
  then have "vectors_ok s (worker_ops rp)"
    by (simp add: vectors_ok_def same_op_def)
  moreover have "gens_inv s (\<lambda>_. 0) (\<lambda>_. Ready) fresh_shared"
    by (simp add: gens_inv_def nofin fresh_shared_def)
  moreover have "own_inv s opts (\<lambda>_. []) (\<lambda>_. 0) (\<lambda>_. Ready) fresh_shared"
  proof -
    have "holds s opts (\<lambda>_. []) (\<lambda>_. 0) (\<lambda>_. Ready) fresh_shared t = None" for t
      by (cases t) (simp_all add: fresh_shared_def)
    then have "owned (holds s opts (\<lambda>_. []) (\<lambda>_. 0) (\<lambda>_. Ready) fresh_shared) (sh_live fresh_shared)"
      unfolding owned_def by (simp add: fresh_shared_def)
    then show ?thesis
      unfolding own_inv_def using nofin by (simp add: fresh_shared_def del: holds.simps)
  qed
  ultimately show ?thesis
    by (simp add: replay_inv_def)
qed

end
