(* ===== verification/FreeRun.thy ===== *)
theory FreeRun
  imports ReplayOps
begin

text \<open>
  The free-run mode (\<open>run_free_run_replay\<close> and \<open>worker_main_freerun\<close> of \<open>replay_main.c\<close>): \<open>main\<close>
  creates the workers that have something to do, releases them together and joins them one by
  one. The lemmas lift the invariants of \<open>ReplayOps\<close> to runs, show that some thread can always
  take a step, and bound the number of steps by a weight that every step lowers.

  Not in the model: the pauses of \<open>--timing-scale\<close>, the progress and watchdog threads, and a
  failing \<open>pthread_create\<close> or \<open>pthread_join\<close>, which end the program.
\<close>

subsection \<open>The free-run mode\<close>

text \<open>A worker: not created, in \<open>prepare_synthetic_unknowns\<close> at an index, at the start flag, in
  its loop at an operation, or returned.\<close>

datatype worker_state = NotStarted | Preparing nat | AtStart | Running nat op_phase | Finished

datatype main_state = Launching nat | Joining nat | Ended

record freerun =
  fr_shared :: shared
  fr_ops :: "nat \<Rightarrow> replay_op list"
  fr_ws :: "nat \<Rightarrow> worker_state"
  fr_start :: bool
  fr_main :: main_state

text \<open>The steps of \<open>main\<close> in \<open>run_free_run_replay\<close>, and those of a worker.\<close>

inductive run_free_run_replay :: "replay_plan \<Rightarrow> freerun \<Rightarrow> freerun \<Rightarrow> bool" for rp where
  main_launch: "fr_main c = Launching i \<Longrightarrow> i < length (rp_workers rp) \<Longrightarrow>
    worker_has_ops_or_lifecycle (rp_workers rp ! i) \<Longrightarrow>
    run_free_run_replay rp c (c\<lparr>fr_ws := (fr_ws c)(i := Preparing 0), fr_main := Launching (i + 1)\<rparr>)"
| main_skip: "fr_main c = Launching i \<Longrightarrow> i < length (rp_workers rp) \<Longrightarrow>
    \<not> worker_has_ops_or_lifecycle (rp_workers rp ! i) \<Longrightarrow>
    run_free_run_replay rp c (c\<lparr>fr_main := Launching (i + 1)\<rparr>)"
| main_release: "fr_main c = Launching (length (rp_workers rp)) \<Longrightarrow>
    run_free_run_replay rp c (c\<lparr>fr_start := True, fr_main := Joining 0\<rparr>)"
| main_join: "fr_main c = Joining i \<Longrightarrow> i < length (rp_workers rp) \<Longrightarrow>
    fr_ws c i = Finished \<or> fr_ws c i = NotStarted \<Longrightarrow>
    run_free_run_replay rp c (c\<lparr>fr_main := Joining (i + 1)\<rparr>)"
| main_ended: "fr_main c = Joining (length (rp_workers rp)) \<Longrightarrow> run_free_run_replay rp c (c\<lparr>fr_main := Ended\<rparr>)"

inductive worker_main_freerun :: "replay_options \<Rightarrow> int \<Rightarrow> nat \<Rightarrow> freerun \<Rightarrow> freerun \<Rightarrow> bool" for opts ps w where
  worker_prepare: "fr_ws c w = Preparing i \<Longrightarrow> g_unknown_policy opts = UNKNOWN_SYNTHETIC \<Longrightarrow>
    prepare_step opts w i (fr_ops c w) (fr_shared c) os sh \<Longrightarrow>
    worker_main_freerun opts ps w c (c\<lparr>fr_shared := sh, fr_ops := (fr_ops c)(w := os),
      fr_ws := (fr_ws c)(w := Preparing (i + 1))\<rparr>)"
| worker_prepared: "fr_ws c w = Preparing i \<Longrightarrow>
    g_unknown_policy opts \<noteq> UNKNOWN_SYNTHETIC \<or> length (fr_ops c w) \<le> i \<Longrightarrow>
    worker_main_freerun opts ps w c (c\<lparr>fr_ws := (fr_ws c)(w := AtStart)\<rparr>)"
| worker_go: "fr_ws c w = AtStart \<Longrightarrow> fr_start c \<Longrightarrow>
    worker_main_freerun opts ps w c (c\<lparr>fr_ws := (fr_ws c)(w := Running 0 Ready)\<rparr>)"
| worker_op: "fr_ws c w = Running i ph \<Longrightarrow> i < length (fr_ops c w) \<Longrightarrow>
    op_step opts ps w (fr_ops c w ! i) (fr_shared c) ph sh (Some ph') \<Longrightarrow>
    worker_main_freerun opts ps w c (c\<lparr>fr_shared := sh, fr_ws := (fr_ws c)(w := Running i ph')\<rparr>)"
| worker_op_done: "fr_ws c w = Running i ph \<Longrightarrow> i < length (fr_ops c w) \<Longrightarrow>
    op_step opts ps w (fr_ops c w ! i) (fr_shared c) ph sh None \<Longrightarrow>
    worker_main_freerun opts ps w c (c\<lparr>fr_shared := sh, fr_ws := (fr_ws c)(w := Running (i + 1) Ready)\<rparr>)"
| worker_finish: "fr_ws c w = Running i Ready \<Longrightarrow> length (fr_ops c w) \<le> i \<Longrightarrow>
    worker_main_freerun opts ps w c (c\<lparr>fr_ws := (fr_ws c)(w := Finished)\<rparr>)"

inductive fr_step :: "replay_options \<Rightarrow> int \<Rightarrow> replay_plan \<Rightarrow> freerun \<Rightarrow> freerun \<Rightarrow> bool" for opts ps rp where
  fr_main_step: "run_free_run_replay rp c c' \<Longrightarrow> fr_step opts ps rp c c'"
| fr_worker_step: "worker_main_freerun opts ps w c c' \<Longrightarrow> fr_step opts ps rp c c'"

lemmas fr_launch = fr_main_step [OF main_launch] and fr_skip = fr_main_step [OF main_skip]
  and fr_release = fr_main_step [OF main_release] and fr_join = fr_main_step [OF main_join]
  and fr_ended = fr_main_step [OF main_ended]

lemmas fr_prepare = fr_worker_step [OF worker_prepare] and fr_prepared = fr_worker_step [OF worker_prepared]
  and fr_go = fr_worker_step [OF worker_go] and fr_op = fr_worker_step [OF worker_op]
  and fr_op_done = fr_worker_step [OF worker_op_done] and fr_finish = fr_worker_step [OF worker_finish]

lemma fr_step_cases:
  assumes "fr_step opts ps rp c c'"
  obtains (fr_launch) i where "c' = (c\<lparr>fr_ws := (fr_ws c)(i := Preparing 0), fr_main := Launching (i + 1)\<rparr>)" "fr_main c = Launching i" "i < length (rp_workers rp)" "worker_has_ops_or_lifecycle (rp_workers rp ! i)"
  | (fr_skip) i where "c' = (c\<lparr>fr_main := Launching (i + 1)\<rparr>)" "fr_main c = Launching i" "i < length (rp_workers rp)" "\<not> worker_has_ops_or_lifecycle (rp_workers rp ! i)"
  | (fr_release) "c' = (c\<lparr>fr_start := True, fr_main := Joining 0\<rparr>)" "fr_main c = Launching (length (rp_workers rp))"
  | (fr_join) i where "c' = (c\<lparr>fr_main := Joining (i + 1)\<rparr>)" "fr_main c = Joining i" "i < length (rp_workers rp)" "fr_ws c i = Finished \<or> fr_ws c i = NotStarted"
  | (fr_ended) "c' = (c\<lparr>fr_main := Ended\<rparr>)" "fr_main c = Joining (length (rp_workers rp))"
  | (fr_prepare) w i os sh where "c' = (c\<lparr>fr_shared := sh, fr_ops := (fr_ops c)(w := os),
      fr_ws := (fr_ws c)(w := Preparing (i + 1))\<rparr>)" "fr_ws c w = Preparing i" "g_unknown_policy opts = UNKNOWN_SYNTHETIC" "prepare_step opts w i (fr_ops c w) (fr_shared c) os sh"
  | (fr_prepared) w i where "c' = (c\<lparr>fr_ws := (fr_ws c)(w := AtStart)\<rparr>)" "fr_ws c w = Preparing i" "g_unknown_policy opts \<noteq> UNKNOWN_SYNTHETIC \<or> length (fr_ops c w) \<le> i"
  | (fr_go) w where "c' = (c\<lparr>fr_ws := (fr_ws c)(w := Running 0 Ready)\<rparr>)" "fr_ws c w = AtStart" "fr_start c"
  | (fr_op) w i ph sh ph' where "c' = (c\<lparr>fr_shared := sh, fr_ws := (fr_ws c)(w := Running i ph')\<rparr>)" "fr_ws c w = Running i ph" "i < length (fr_ops c w)" "op_step opts ps w (fr_ops c w ! i) (fr_shared c) ph sh (Some ph')"
  | (fr_op_done) w i ph sh where "c' = (c\<lparr>fr_shared := sh, fr_ws := (fr_ws c)(w := Running (i + 1) Ready)\<rparr>)" "fr_ws c w = Running i ph" "i < length (fr_ops c w)" "op_step opts ps w (fr_ops c w ! i) (fr_shared c) ph sh None"
  | (fr_finish) w i where "c' = (c\<lparr>fr_ws := (fr_ws c)(w := Finished)\<rparr>)" "fr_ws c w = Running i Ready" "length (fr_ops c w) \<le> i"
  using assms
proof cases
  case fr_main_step
  then show thesis using that(1-5) by cases metis+
next
  case (fr_worker_step w)
  then show thesis using that(6-11) by cases metis+
qed

definition fr_initial :: "replay_plan \<Rightarrow> freerun" where
  "fr_initial rp = \<lparr>fr_shared = fresh_shared, fr_ops = worker_ops rp, fr_ws = (\<lambda>_. NotStarted),
    fr_start = False, fr_main = Launching 0\<rparr>"

subsection \<open>The invariant of a free run\<close>

fun ws_pos :: "nat \<Rightarrow> worker_state \<Rightarrow> nat" where
  "ws_pos n (Running i ph) = i"
| "ws_pos n Finished = n"
| "ws_pos n _ = 0"

fun ws_phase :: "worker_state \<Rightarrow> op_phase" where
  "ws_phase (Running i ph) = ph"
| "ws_phase _ = Ready"

fun ws_prepared :: "nat \<Rightarrow> worker_state \<Rightarrow> nat" where
  "ws_prepared n NotStarted = 0"
| "ws_prepared n (Preparing i) = i"
| "ws_prepared n _ = n"

definition fr_pos :: "freerun \<Rightarrow> nat \<Rightarrow> nat" where
  "fr_pos c w = ws_pos (length (fr_ops c w)) (fr_ws c w)"

definition fr_phase :: "freerun \<Rightarrow> nat \<Rightarrow> op_phase" where
  "fr_phase c w = ws_phase (fr_ws c w)"

text \<open>The part of a vector \<open>prepare_synthetic_unknowns\<close> is through with.\<close>

definition fr_prepared :: "freerun \<Rightarrow> nat \<Rightarrow> replay_op list" where
  "fr_prepared c w = take (ws_prepared (length (fr_ops c w)) (fr_ws c w)) (fr_ops c w)"

definition settled :: "freerun \<Rightarrow> nat \<Rightarrow> bool" where
  "settled c w \<longleftrightarrow> fr_ws c w = Finished \<or> fr_ws c w = NotStarted"

definition launched :: "freerun \<Rightarrow> nat \<Rightarrow> bool" where
  "launched c i \<longleftrightarrow> (\<forall>w. i \<le> w \<longrightarrow> fr_ws c w = NotStarted) \<and>
    (\<forall>w<i. fr_ops c w \<noteq> [] \<longrightarrow> fr_ws c w \<noteq> NotStarted)"

fun main_inv :: "nat \<Rightarrow> freerun \<Rightarrow> main_state \<Rightarrow> bool" where
  "main_inv n c (Launching i) = (i \<le> n \<and> launched c i)"
| "main_inv n c (Joining i) = (i \<le> n \<and> launched c n \<and> fr_start c \<and> (\<forall>w<i. settled c w))"
| "main_inv n c Ended = (launched c n \<and> (\<forall>w<n. settled c w))"

definition fr_inv :: "replay_options \<Rightarrow> replay_plan \<Rightarrow> schedule \<Rightarrow> freerun \<Rightarrow> bool" where
  "fr_inv opts rp s c \<longleftrightarrow> replay_inv s opts (fr_ops c) (fr_prepared c) (fr_pos c) (fr_phase c) (fr_shared c) \<and>
    main_inv (length (rp_workers rp)) c (fr_main c) \<and>
    (\<forall>w i. fr_ws c w = Preparing i \<longrightarrow> i \<le> length (fr_ops c w)) \<and> (\<forall>w. fr_pos c w \<le> length (fr_ops c w))"

lemma fr_invD:
  assumes "fr_inv opts rp s c"
  shows "vectors_ok s (fr_ops c)" and "gens_inv s (fr_pos c) (fr_phase c) (fr_shared c)"
    and "own_inv s opts (fr_prepared c) (fr_pos c) (fr_phase c) (fr_shared c)"
    and "main_inv (length (rp_workers rp)) c (fr_main c)"
    and "fr_ws c w = Preparing i \<Longrightarrow> i \<le> length (fr_ops c w)" and "fr_pos c w \<le> length (fr_ops c w)"
    and "replay_inv s opts (fr_ops c) (fr_prepared c) (fr_pos c) (fr_phase c) (fr_shared c)"
  using assms unfolding fr_inv_def replay_inv_def by blast+

text \<open>A step that changes only the control state of a worker.\<close>

lemma same_views:
  assumes "fr_ops c' = fr_ops c" and "\<And>v. v \<noteq> w \<Longrightarrow> fr_ws c' v = fr_ws c v"
    and "ws_pos (length (fr_ops c w)) (fr_ws c' w) = fr_pos c w"
    and "ws_phase (fr_ws c' w) = fr_phase c w"
  shows "fr_pos c' = fr_pos c" and "fr_phase c' = fr_phase c"
  using assms by (metis fr_pos_def fr_phase_def ext)+

lemma settledD: "settled c w \<Longrightarrow> fr_ws c w = Running i ph \<Longrightarrow> P" "settled c w \<Longrightarrow> fr_ws c w = Preparing i \<Longrightarrow> P"
  "settled c w \<Longrightarrow> fr_ws c w = AtStart \<Longrightarrow> P"
  by (auto simp: settled_def)

text \<open>A started worker may take any step but back.\<close>

lemma main_inv_worker:
  assumes "main_inv n c m" and "fr_ws c w = u" and "u \<noteq> NotStarted" and "u \<noteq> Finished" and "u' \<noteq> NotStarted"
    and "length os' = length (fr_ops c w)"
    and c': "fr_ws c' = (fr_ws c)(w := u')" "fr_ops c' = (fr_ops c)(w := os')" "fr_start c' = fr_start c"
  shows "main_inv n c' m"
proof -
  have l: "launched c i \<Longrightarrow> launched c' i" for i
    using assms(2,3,5,6) unfolding launched_def c' by auto
  have "settled c v \<Longrightarrow> settled c' v" for v
    using assms(2-4) unfolding settled_def c' by auto
  with l show ?thesis
    using assms(1) unfolding c' by (cases m) (auto simp: c')
qed

lemma fr_prepared_running:
  "fr_ws c w = Running i ph \<Longrightarrow> fr_prepared c w = fr_ops c w"
  by (simp add: fr_prepared_def)

lemma fr_prepared_frame [simp]:
  "fr_prepared (c\<lparr>fr_main := m\<rparr>) = fr_prepared c" "fr_prepared (c\<lparr>fr_start := b\<rparr>) = fr_prepared c"
  by (simp_all add: fr_prepared_def fun_eq_iff)

lemma fr_step_inv:
  assumes inv: "fr_inv opts rp s c" and sched: "scheduled s"
    and plan: "\<forall>w<length (rp_workers rp). fr_ops c w \<noteq> [] \<longrightarrow> worker_has_ops_or_lifecycle (rp_workers rp ! w)"
    and step: "fr_step opts ps rp c c'"
  shows "fr_inv opts rp s c'"
proof -
  note v = fr_invD(1) [OF inv] and r = fr_invD(7) [OF inv]
    and m = fr_invD(4) [OF inv] and p = fr_invD(5) [OF inv] and le = fr_invD(6) [OF inv]
  have control: "fr_inv opts rp s c'"
    if c1: "fr_ops c' = fr_ops c" and c2: "fr_shared c' = fr_shared c"
      and c3: "\<And>v. v \<noteq> w \<Longrightarrow> fr_ws c' v = fr_ws c v"
      and c4: "ws_pos (length (fr_ops c w)) (fr_ws c' w) = fr_pos c w"
      and c5: "ws_phase (fr_ws c' w) = fr_phase c w"
      and c6: "fr_prepared c' = fr_prepared c \<or> g_unknown_policy opts \<noteq> UNKNOWN_SYNTHETIC"
      and c7: "main_inv (length (rp_workers rp)) c' (fr_main c')"
      and c8: "\<And>i. fr_ws c' w = Preparing i \<Longrightarrow> i \<le> length (fr_ops c w)" for c' w
  proof -
    have views: "fr_pos c' = fr_pos c" "fr_phase c' = fr_phase c"
      using same_views [of c' c w, OF c1 _ c4 c5] c3 by blast+
    have "i \<le> length (fr_ops c' v)" if pr: "fr_ws c' v = Preparing i" for v i
      using pr p [of v i] c1 c3 [of v] c8 by (cases "v = w") auto
    moreover have "replay_inv s opts (fr_ops c) (fr_prepared c') (fr_pos c) (fr_phase c) (fr_shared c)"
      using replay_inv_prepared [OF r c6] .
    ultimately show ?thesis
      unfolding fr_inv_def views c2 using c1 c7 le by simp
  qed
  have running: "res = Some ph' \<Longrightarrow> replay_inv s opts (fr_ops c) (fr_prepared c) (fr_pos c) ((fr_phase c)(w := ph')) sh"
      "res = None \<Longrightarrow> replay_inv s opts (fr_ops c) (fr_prepared c) ((fr_pos c)(w := fr_pos c w + 1))
        ((fr_phase c)(w := Ready)) sh"
    if r1: "fr_ws c w = Running i ph" and r2: "i < length (fr_ops c w)"
      and r3: "op_step opts ps w (fr_ops c w ! i) (fr_shared c) ph sh res" for w i ph sh res ph'
  proof -
    have f: "fr_pos c w < length (fr_ops c w)" "fr_prepared c w = fr_ops c w"
      "op_step opts ps w (fr_ops c w ! fr_pos c w) (fr_shared c) (fr_phase c w) sh res"
      using r1 r2 r3 by (simp_all add: fr_pos_def fr_phase_def fr_prepared_def)
    show "res = Some ph' \<Longrightarrow> replay_inv s opts (fr_ops c) (fr_prepared c) (fr_pos c) ((fr_phase c)(w := ph')) sh"
      "res = None \<Longrightarrow> replay_inv s opts (fr_ops c) (fr_prepared c) ((fr_pos c)(w := fr_pos c w + 1))
        ((fr_phase c)(w := Ready)) sh"
      using replay_inv_step [where ph = "fr_phase c" and pos = "fr_pos c", OF r sched f] by blast+
  qed
  from step show ?thesis
  proof (cases rule: fr_step_cases)
    case (fr_launch i)
    have i: "fr_ws c i = NotStarted"
      using m fr_launch(2) by (auto simp: launched_def)
    show ?thesis unfolding fr_launch(1)
      by (rule control [where w = i]) (use m fr_launch(2,3) i in \<open>auto simp: fr_pos_def fr_phase_def
        launched_def fr_prepared_def fun_eq_iff\<close>)
  next
    case (fr_skip i)
    show ?thesis unfolding fr_skip(1)
      by (rule control [where w = 0]) (use m fr_skip(2-4) plan p in \<open>auto simp: fr_pos_def fr_phase_def
        launched_def less_Suc_eq\<close>)
  next
    case fr_release
    show ?thesis unfolding fr_release(1)
      by (rule control [where w = 0]) (use m fr_release(2) p in \<open>auto simp: fr_pos_def fr_phase_def
        launched_def\<close>)
  next
    case (fr_join i)
    show ?thesis unfolding fr_join(1)
      by (rule control [where w = 0]) (use m fr_join(2-4) p in \<open>auto simp: fr_pos_def fr_phase_def
        launched_def settled_def less_Suc_eq\<close>)
  next
    case fr_ended
    show ?thesis unfolding fr_ended(1)
      by (rule control [where w = 0]) (use m fr_ended(2) p in \<open>auto simp: fr_pos_def fr_phase_def
        launched_def settled_def\<close>)
  next
    case (fr_prepare w i xs sh)
    have mi: "main_inv (length (rp_workers rp)) c' (fr_main c)"
      by (rule main_inv_worker [OF m fr_prepare(2), where u' = "Preparing (i + 1)" and os' = xs])
        (use vectors_ok_prepare(2) [OF v fr_prepare(4)] in \<open>simp_all add: fr_prepare(1)\<close>)
    note vs = vectors_ok_prepare [OF v fr_prepare(4)]
    have i: "i < length (fr_ops c w)"
      using fr_prepare(4) by cases
    have views: "fr_pos c' = fr_pos c" "fr_phase c' = fr_phase c"
      "fr_prepared c' = (fr_prepared c)(w := take (i + 1) xs)" "fr_ops c' = (fr_ops c)(w := xs)" "fr_shared c' = sh"
      unfolding fr_prepare(1) using fr_prepare(2) vs(2)
      by (auto simp: fr_pos_def fr_phase_def fr_prepared_def fun_eq_iff)
    have z: "fr_pos c w = 0" "fr_prepared c w = take i (fr_ops c w)"
      using fr_prepare(2) by (simp_all add: fr_pos_def fr_prepared_def)
    from replay_inv_prepare [OF r fr_prepare(4) z(2,1) fr_prepare(3)] show ?thesis
      unfolding fr_inv_def views using mi vs i p le unfolding fr_prepare(1) by auto
  next
    case (fr_prepared w i)
    have mi: "main_inv (length (rp_workers rp)) c' (fr_main c)"
      by (rule main_inv_worker [OF m fr_prepared(2), where u' = AtStart and os' = "fr_ops c w"])
        (simp_all add: fr_prepared(1))
    show ?thesis unfolding fr_prepared(1)
      by (rule control [where w = w]) (use mi fr_prepared p [OF fr_prepared(2)] in \<open>auto simp: fr_pos_def
        fr_phase_def fr_prepared_def fun_eq_iff\<close>)
  next
    case (fr_go w)
    have mi: "main_inv (length (rp_workers rp)) c' (fr_main c)"
      by (rule main_inv_worker [OF m fr_go(2), where u' = "Running 0 Ready" and os' = "fr_ops c w"])
        (simp_all add: fr_go(1))
    show ?thesis unfolding fr_go(1)
      by (rule control [where w = w]) (use mi fr_go in \<open>auto simp: fr_pos_def fr_phase_def fr_prepared_def
        fun_eq_iff\<close>)
  next
    case (fr_op w i ph sh ph')
    have mi: "main_inv (length (rp_workers rp)) c' (fr_main c)"
      by (rule main_inv_worker [OF m fr_op(2), where u' = "Running i ph'" and os' = "fr_ops c w"])
        (simp_all add: fr_op(1))
    have views: "fr_pos c' = fr_pos c" "fr_phase c' = (fr_phase c)(w := ph')" "fr_prepared c' = fr_prepared c"
      unfolding fr_op(1) using fr_op(2) by (auto simp: fr_pos_def fr_phase_def fr_prepared_def fun_eq_iff)
    from running(1) [OF fr_op(2-4) refl] show ?thesis
      unfolding fr_inv_def views using mi p le unfolding fr_op(1) by auto
  next
    case (fr_op_done w i ph sh)
    have mi: "main_inv (length (rp_workers rp)) c' (fr_main c)"
      by (rule main_inv_worker [OF m fr_op_done(2), where u' = "Running (i + 1) Ready" and os' = "fr_ops c w"])
        (simp_all add: fr_op_done(1))
    have views: "fr_pos c' = (fr_pos c)(w := fr_pos c w + 1)" "fr_phase c' = (fr_phase c)(w := Ready)"
      "fr_prepared c' = fr_prepared c"
      unfolding fr_op_done(1) using fr_op_done(2)
      by (auto simp: fr_pos_def fr_phase_def fr_prepared_def fun_eq_iff)
    have i: "fr_pos c w = i" using fr_op_done(2) by (simp add: fr_pos_def)
    from running(2) [OF fr_op_done(2-4) refl] show ?thesis
      unfolding fr_inv_def views using mi p le i fr_op_done(3) unfolding fr_op_done(1) by auto
  next
    case (fr_finish w i)
    have i: "i = length (fr_ops c w)"
      using le [of w] fr_finish(2,3) by (simp add: fr_pos_def)
    have "main_inv (length (rp_workers rp)) c' (fr_main c)"
      by (rule main_inv_worker [OF m fr_finish(2), where u' = Finished and os' = "fr_ops c w"])
        (simp_all add: fr_finish(1))
    then show ?thesis unfolding fr_finish(1)
      by (intro control [where w = w]) (use fr_finish i in \<open>auto simp: fr_pos_def fr_phase_def
        fr_prepared_def fun_eq_iff\<close>)
  qed
qed


lemma fr_inv_plan:
  assumes "fr_inv opts rp s c" and "well_planned rp s"
  shows "length (fr_ops c w) = (if w < length (rp_workers rp) then length (plan_ops rp w) else 0)"
    and "\<forall>w<length (rp_workers rp). fr_ops c w \<noteq> [] \<longrightarrow> worker_has_ops_or_lifecycle (rp_workers rp ! w)"
proof -
  have l: "length (fr_ops c w) = (if w < length (rp_workers rp) then length (plan_ops rp w) else 0)" for w
    using fr_invD(1) [OF assms(1)] by (simp add: vectors_ok_def idxs_length [OF assms(2)])
  then show "length (fr_ops c w) = (if w < length (rp_workers rp) then length (plan_ops rp w) else 0)" .
  show "\<forall>w<length (rp_workers rp). fr_ops c w \<noteq> [] \<longrightarrow> worker_has_ops_or_lifecycle (rp_workers rp ! w)"
  proof (intro allI impI)
    fix w
    assume "w < length (rp_workers rp)" and "fr_ops c w \<noteq> []"
    then have "plan_ops rp w \<noteq> []" using l [of w] by auto
    then show "worker_has_ops_or_lifecycle (rp_workers rp ! w)"
      by (simp add: plan_ops_def worker_has_ops_or_lifecycle_def)
  qed
qed

lemma fr_initial_inv:
  assumes "well_planned rp s"
  shows "fr_inv opts rp s (fr_initial rp)"
proof -
  have views: "fr_pos (fr_initial rp) = (\<lambda>_. 0)" "fr_phase (fr_initial rp) = (\<lambda>_. Ready)"
    "fr_prepared (fr_initial rp) = (\<lambda>_. [])"
    by (simp_all add: fr_initial_def fr_pos_def fr_phase_def fr_prepared_def fun_eq_iff)
  show ?thesis
    unfolding fr_inv_def views using replay_inv_initial [OF assms]
    by (simp add: fr_initial_def launched_def)
qed

lemma fr_reach:
  assumes "well_planned rp s" and "(fr_step opts ps rp)\<^sup>*\<^sup>* (fr_initial rp) c"
  shows "fr_inv opts rp s c"
  using assms(2)
proof (induction rule: rtranclp_induct)
  case base
  show ?case by (rule fr_initial_inv [OF assms(1)])
next
  case (step c c')
  show ?case
    by (rule fr_step_inv [OF step(3) _ fr_inv_plan(2) [OF step(3) assms(1)] step(2)])
      (use assms(1) in \<open>simp add: well_planned_def\<close>)
qed

subsection \<open>A free run cannot get stuck\<close>

lemma fr_worker_possible:
  assumes inv: "fr_inv opts rp s c" and plan: "well_planned rp s" and "fr_start c"
    and "launched c (length (rp_workers rp))" and "\<not> settled c w"
  shows "\<exists>c'. fr_step opts ps rp c c'"
proof (rule ccontr)
  assume stuck: "\<not> ?thesis"
  note v = fr_invD(1) [OF inv] and g = fr_invD(2) [OF inv] and le = fr_invD(6) [OF inv]
  have busy: "\<exists>i ph. fr_ws c u = Running i ph \<and> busy s (fr_pos c) u" if u: "\<not> settled c u" for u
  proof (cases "fr_ws c u")
    case (Preparing i)
    then show ?thesis
      using stuck fr_prepare [OF Preparing] fr_prepared [OF Preparing]
        prepare_alloc prepare_other rt_step_possible not_le by metis
  next
    case AtStart
    then show ?thesis using stuck fr_go [OF AtStart assms(3)] by blast
  next
    case (Running i ph)
    have "busy s (fr_pos c) u"
    proof (rule ccontr)
      assume n: "\<not> busy s (fr_pos c) u"
      then have "fr_phase c u = Ready" by (rule gens_invD(7) [OF g])
      then have "ph = Ready" using Running by (simp add: fr_phase_def)
      moreover have "length (fr_ops c u) \<le> i"
        using n v Running by (simp add: busy_def vectors_ok_def fr_pos_def)
      ultimately show False using stuck fr_finish Running by blast
    qed
    with Running show ?thesis by blast
  qed (use u in \<open>simp_all add: settled_def\<close>)
  define k where "k = (LEAST k. k < length s \<and> \<not> fin s (fr_pos c) k)"
  have "busy s (fr_pos c) w" using busy [OF assms(5)] by blast
  then have ex: "cur s (fr_pos c) w < length s \<and> \<not> fin s (fr_pos c) (cur s (fr_pos c) w)"
    using cur_props(1,3) by blast
  have k: "k < length s" "\<not> fin s (fr_pos c) k"
    using LeastI [where P = "\<lambda>k. k < length s \<and> \<not> fin s (fr_pos c) k", OF ex] unfolding k_def by blast+
  have before: "\<forall>j<k. fin s (fr_pos c) j"
    using not_less_Least [where P = "\<lambda>k. k < length s \<and> \<not> fin s (fr_pos c) k"] k(1)
    unfolding k_def [symmetric] by (meson less_trans)
  define u where "u = fst (s ! k)"
  have b: "busy s (fr_pos c) u" and cur: "cur s (fr_pos c) u = k"
    using first_open_is_cur [OF k before] by (simp_all add: u_def)
  have un: "u < length (rp_workers rp)"
    using plan k(1) by (simp add: well_planned_def u_def)
  note l = vectors_okD [OF v b]
  have "\<not> settled c u"
    using assms(4) un l(1) unfolding settled_def launched_def by (auto simp: fr_pos_def)
  then obtain i ph where run: "fr_ws c u = Running i ph"
    using busy by blast
  then have f: "fr_pos c u = i" "fr_phase c u = ph"
    by (simp_all add: fr_pos_def fr_phase_def)
  obtain sh res where step: "op_step opts ps u (fr_ops c u ! i) (fr_shared c) ph sh res"
    using op_step_possible [where os = "fr_ops c" and opts = opts and ps = ps, OF _ g b l(2)]
      plan before cur f by (auto simp: well_planned_def)
  then show False
    using stuck fr_op [OF run] fr_op_done [OF run] l(1) f(1) by (cases res) blast+
qed

lemma fr_progress:
  assumes "fr_inv opts rp s c" and "well_planned rp s" and "fr_main c \<noteq> Ended"
  shows "\<exists>c'. fr_step opts ps rp c c'"
proof -
  note m = fr_invD(4) [OF assms(1)]
  show ?thesis
  proof (cases "fr_main c")
    case (Launching i)
    then consider "i < length (rp_workers rp)" | "i = length (rp_workers rp)"
      using m by fastforce
    then show ?thesis
      using fr_launch [OF Launching] fr_skip [OF Launching] fr_release Launching by cases blast+
  next
    case (Joining i)
    then consider "i = length (rp_workers rp)" | "i < length (rp_workers rp)" "settled c i"
      | "i < length (rp_workers rp)" "\<not> settled c i"
      using m by fastforce
    then show ?thesis
    proof cases
      case 3
      then show ?thesis using fr_worker_possible [OF assms(1,2)] m Joining by simp
    next
      case 1
      show ?thesis by (rule exI, rule fr_ended) (simp add: Joining 1)
    next
      case 2
      show ?thesis by (rule exI, rule fr_join [OF Joining 2(1)]) (use 2(2) in \<open>simp add: settled_def\<close>)
    qed
  qed (use assms(3) in simp)
qed


subsection \<open>How long a free run takes\<close>

fun advance :: "op_phase \<Rightarrow> nat" where
  "advance Ready = 0"
| "advance Waited = 1"
| "advance (Loaded p) = 2"
| "advance (Discard p) = 3"
| "advance (Publish p) = 4"
| "advance (Stored p) = 5"

fun ws_weight :: "nat \<Rightarrow> worker_state \<Rightarrow> nat" where
  "ws_weight n NotStarted = 7 * n + 4"
| "ws_weight n (Preparing i) = 7 * n + 3 - i"
| "ws_weight n AtStart = 6 * n + 2"
| "ws_weight n (Running i ph) = 6 * (n - i) + 1 - advance ph"
| "ws_weight n Finished = 0"

fun main_weight :: "nat \<Rightarrow> main_state \<Rightarrow> nat" where
  "main_weight n (Launching i) = 2 * n + 3 - i"
| "main_weight n (Joining i) = n + 1 - i"
| "main_weight n Ended = 0"

definition fr_weight :: "nat \<Rightarrow> freerun \<Rightarrow> nat" where
  "fr_weight n c = main_weight n (fr_main c) + (\<Sum>w<n. ws_weight (length (fr_ops c w)) (fr_ws c w))"

lemma op_step_advances: "op_step opts ps w o1 sh ph sh' (Some ph') \<Longrightarrow> advance ph < advance ph'"
  by (cases rule: op_step.cases) (auto split: if_splits)

lemma advance_bound: "advance ph \<le> 5"
  by (cases ph) simp_all

lemma weight_worker:
  assumes "w < n" and "ws_weight (length os) u < ws_weight (length (fr_ops c w)) (fr_ws c w)"
    and "fr_ws c' = (fr_ws c)(w := u)" and "fr_ops c' = (fr_ops c)(w := os)"
    and "main_weight n (fr_main c') \<le> main_weight n (fr_main c)"
  shows "fr_weight n c' < fr_weight n c"
proof -
  have "(\<Sum>v<n. ws_weight (length (fr_ops c' v)) (fr_ws c' v)) < (\<Sum>v<n. ws_weight (length (fr_ops c v)) (fr_ws c v))"
    by (rule sum_strict_mono_ex1) (use assms in auto)
  then show ?thesis
    using assms(5) by (simp add: fr_weight_def)
qed

lemma weight_main:
  assumes "fr_ws c' = fr_ws c" and "fr_ops c' = fr_ops c"
    and "main_weight n (fr_main c') < main_weight n (fr_main c)"
  shows "fr_weight n c' < fr_weight n c"
  using assms by (simp add: fr_weight_def)

lemma fr_step_weight:
  assumes inv: "fr_inv opts rp s c" and step: "fr_step opts ps rp c c'"
  shows "fr_weight (length (rp_workers rp)) c' < fr_weight (length (rp_workers rp)) c"
proof -
  let ?n = "length (rp_workers rp)"
  note m = fr_invD(4) [OF inv]
  have started: "w < ?n" if "fr_ws c w \<noteq> NotStarted" for w
  proof (rule ccontr)
    assume "\<not> w < ?n"
    then show False
      using m that by (cases "fr_main c") (auto simp: launched_def)
  qed
  have same: "fr_ops c = (fr_ops c)(w := fr_ops c w)" for w by simp
  from step show ?thesis
  proof (cases rule: fr_step_cases)
    case (fr_launch i)
    have "fr_ws c i = NotStarted"
      using m fr_launch(2) by (simp add: launched_def)
    then show ?thesis
      unfolding fr_launch(1)
      by (intro weight_worker [where w = i and os = "fr_ops c i"]) (use fr_launch(2,3) in simp_all)
  next
    case (fr_prepare w i os sh)
    have l: "i < length (fr_ops c w)" "length os = length (fr_ops c w)"
      using fr_prepare(4) by (cases; simp)+
    then show ?thesis
      unfolding fr_prepare(1)
      by (intro weight_worker [where w = w and os = os]) (use fr_prepare(2) started in simp_all)
  next
    case (fr_prepared w i)
    have "i \<le> length (fr_ops c w)" by (rule fr_invD(5) [OF inv fr_prepared(2)])
    then show ?thesis
      unfolding fr_prepared(1)
      by (intro weight_worker [where w = w and os = "fr_ops c w"]) (use fr_prepared(2) started in simp_all)
  next
    case (fr_go w)
    then show ?thesis
      by (intro weight_worker [where w = w and os = "fr_ops c w"]) (use started in simp_all)
  next
    case (fr_op w i ph sh ph')
    have "ws_weight (length (fr_ops c w)) (Running i ph') < ws_weight (length (fr_ops c w)) (Running i ph)"
      using op_step_advances [OF fr_op(4)] advance_bound [of ph'] fr_op(3) by simp
    then show ?thesis
      unfolding fr_op(1)
      by (intro weight_worker [where w = w and os = "fr_ops c w"]) (use fr_op(2) started in simp_all)
  next
    case (fr_op_done w i ph sh)
    have "ws_weight (length (fr_ops c w)) (Running (i + 1) Ready) < ws_weight (length (fr_ops c w)) (Running i ph)"
      using advance_bound [of ph] fr_op_done(3) by simp
    then show ?thesis
      unfolding fr_op_done(1)
      by (intro weight_worker [where w = w and os = "fr_ops c w"]) (use fr_op_done(2) started in simp_all)
  next
    case (fr_finish w i)
    then show ?thesis
      by (intro weight_worker [where w = w and os = "fr_ops c w"]) (use started in simp_all)
  qed (rule weight_main, use m in simp_all)+
qed

lemma fr_initial_weight:
  assumes "well_planned rp s"
  shows "fr_weight (length (rp_workers rp)) (fr_initial rp) = 7 * length s + 6 * length (rp_workers rp) + 3"
proof -
  let ?n = "length (rp_workers rp)"
  have "(\<Sum>w<?n. length (plan_ops rp w)) = (\<Sum>w\<leftarrow>[0..<?n]. length (ops_of s w))"
    using assms by (simp add: well_planned_def interv_sum_list_conv_sum_set_nat lessThan_atLeast0)
  also have "\<dots> = length s"
    using assms by (intro ops_of_total) (simp add: well_planned_def)
  finally have "(\<Sum>w<?n. 7 * length (plan_ops rp w) + 4) = 7 * length s + 4 * ?n"
    by (simp add: sum.distrib sum_distrib_left [symmetric])
  then show ?thesis
    by (simp add: fr_weight_def fr_initial_def worker_ops_def)
qed

lemma fr_steps_weight:
  assumes "well_planned rp s" and "(fr_step opts ps rp ^^ k) (fr_initial rp) c"
  shows "k + fr_weight (length (rp_workers rp)) c \<le> 7 * length s + 6 * length (rp_workers rp) + 3"
  using assms(2)
proof (induction k arbitrary: c)
  case 0
  then show ?case using fr_initial_weight [OF assms(1)] by simp
next
  case (Suc k)
  then obtain c1 where c1: "(fr_step opts ps rp ^^ k) (fr_initial rp) c1" "fr_step opts ps rp c1 c"
    by auto
  have "fr_inv opts rp s c1"
    by (rule fr_reach [OF assms(1)]) (rule relpowp_imp_rtranclp [OF c1(1)])
  from fr_step_weight [OF this c1(2)] Suc.IH [OF c1(1)] show ?case by simp
qed

subsection \<open>The calls a free run makes\<close>

definition calls_inv :: "replay_options \<Rightarrow> int \<Rightarrow> replay_plan \<Rightarrow> freerun \<Rightarrow> bool" where
  "calls_inv opts ps rp c \<longleftrightarrow> (\<forall>w. alloc_calls w (fr_shared c) =
      prepare_allocs opts (fr_prepared c w) @ partial_allocs ps (fr_phase c w) (fr_ops c w) (fr_pos c w) \<and>
    map (prepare_call opts) (fr_ops c w) = map (prepare_call opts) (fr_ops (fr_initial rp) w) \<and>
    map (op_allocs ps) (fr_ops c w) = map (op_allocs ps) (fr_ops (fr_initial rp) w))"

lemma calls_inv_step:
  assumes inv: "calls_inv opts ps rp c" and step: "fr_step opts ps rp c c'" and fr: "fr_inv opts rp s c"
  shows "calls_inv opts ps rp c'"
proof -
  have calls: "alloc_calls w (fr_shared c) = prepare_allocs opts (fr_prepared c w) @
      partial_allocs ps (fr_phase c w) (fr_ops c w) (fr_pos c w)"
    and kept: "map (prepare_call opts) (fr_ops c w) = map (prepare_call opts) (fr_ops (fr_initial rp) w)"
      "map (op_allocs ps) (fr_ops c w) = map (op_allocs ps) (fr_ops (fr_initial rp) w)" for w
    using inv unfolding calls_inv_def by blast+
  have control: "calls_inv opts ps rp c'"
    if "fr_ops c' = fr_ops c" "fr_shared c' = fr_shared c"
      "\<And>v. prepare_allocs opts (fr_prepared c' v) = prepare_allocs opts (fr_prepared c v)"
      "fr_phase c' = fr_phase c" "fr_pos c' = fr_pos c" for c'
    unfolding calls_inv_def that using calls kept by blast
  note m = fr_invD(4) [OF fr]
  from step show ?thesis
  proof (cases rule: fr_step_cases)
    case (fr_launch i)
    then have "fr_ws c i = NotStarted"
      using m by (simp add: launched_def)
    then show ?thesis unfolding fr_launch(1)
      by (intro control) (simp_all add: fr_prepared_def fr_phase_def fr_pos_def fun_eq_iff)
  next
    case (fr_prepare w i xs sh)
    note p = prepare_step_calls [OF fr_prepare(4,3)]
    have v: "fr_phase c w = Ready" "fr_pos c w = 0" "fr_prepared c w = take i (fr_ops c w)"
      using fr_prepare(2) by (simp_all add: fr_prepared_def fr_phase_def fr_pos_def)
    have "alloc_calls w sh = prepare_allocs opts (take (Suc i) xs)"
      by (rule p(2)) (use calls [of w] v in \<open>simp add: partial_allocs_def\<close>)
    then show ?thesis
      unfolding fr_prepare(1) calls_inv_def using calls kept p(1,3,4)
      by (auto simp: fr_prepared_def fr_phase_def fr_pos_def partial_allocs_def)
  next
    case (fr_prepared w i)
    then show ?thesis unfolding fr_prepared(1)
      by (intro control) (auto simp: fr_prepared_def fr_phase_def fr_pos_def fun_eq_iff prepare_allocs_none)
  next
    case (fr_go w)
    then show ?thesis unfolding fr_go(1)
      by (intro control) (auto simp: fr_prepared_def fr_phase_def fr_pos_def fun_eq_iff)
  next
    case (fr_op w i ph sh ph')
    have v: "fr_phase c w = ph" "fr_pos c w = i"
      using fr_op(2) by (simp_all add: fr_phase_def fr_pos_def)
    have "alloc_calls w sh = (prepare_allocs opts (fr_prepared c w) @ concat (map (op_allocs ps) (take i (fr_ops c w)))) @
        (if called ph' then op_allocs ps (fr_ops c w ! i) else [])"
      using op_step_calls(2) [OF fr_op(4)] calls [of w] unfolding v partial_allocs_def
      by (metis append.assoc option.case(2))
    moreover have "alloc_calls u sh = alloc_calls u (fr_shared c)" if "u \<noteq> w" for u
      by (rule op_step_calls(1) [OF fr_op(4) that])
    ultimately show ?thesis
      unfolding fr_op(1) calls_inv_def using calls kept fr_op(2)
      by (auto simp: fr_prepared_def fr_phase_def fr_pos_def partial_allocs_def)
  next
    case (fr_op_done w i ph sh)
    have v: "fr_phase c w = ph" "fr_pos c w = i"
      using fr_op_done(2) by (simp_all add: fr_phase_def fr_pos_def)
    have "alloc_calls w sh = (prepare_allocs opts (fr_prepared c w) @ concat (map (op_allocs ps) (take i (fr_ops c w)))) @
        op_allocs ps (fr_ops c w ! i)"
      using op_step_calls(2) [OF fr_op_done(4)] calls [of w] unfolding v partial_allocs_def
      by (metis append.assoc option.case(1))
    moreover have "alloc_calls u sh = alloc_calls u (fr_shared c)" if "u \<noteq> w" for u
      by (rule op_step_calls(1) [OF fr_op_done(4) that])
    ultimately show ?thesis
      unfolding fr_op_done(1) calls_inv_def using calls kept fr_op_done(2,3)
      by (auto simp: fr_prepared_def fr_phase_def fr_pos_def partial_allocs_def take_Suc_conv_app_nth)
  next
    case (fr_finish w i)
    have "fr_pos c w = i" "i = length (fr_ops c w)"
      using fr_invD(6) [OF fr, of w] fr_finish(2,3) by (simp_all add: fr_pos_def)
    then show ?thesis unfolding fr_finish(1)
      using fr_finish by (intro control) (auto simp: fr_prepared_def fr_phase_def fr_pos_def fun_eq_iff)
  qed (rule control; simp add: fr_phase_def fr_pos_def fr_prepared_def fun_eq_iff)+
qed

lemma calls_reach:
  assumes "well_planned rp s" and "(fr_step opts ps rp)\<^sup>*\<^sup>* (fr_initial rp) c"
  shows "calls_inv opts ps rp c"
  using assms(2)
proof (induction rule: rtranclp_induct)
  case base
  show ?case
    by (simp add: calls_inv_def alloc_calls_def prepare_allocs_def partial_allocs_def fr_prepared_def
      fr_phase_def fr_pos_def) (simp add: fr_initial_def fresh_shared_def)
next
  case (step c c')
  show ?case
    by (rule calls_inv_step [OF step(3,2) fr_reach [OF assms(1) step(1)]])
qed

lemma calls_ended:
  assumes "calls_inv opts ps rp c" and "fr_inv opts rp s c" and "fr_main c = Ended"
    and "w < length (rp_workers rp)"
  shows "alloc_calls w (fr_shared c) =
      prepare_allocs opts (plan_ops rp w) @ concat (map (op_allocs ps) (plan_ops rp w))"
    and "plan_ops rp w \<noteq> [] \<Longrightarrow> fr_ws c w = Finished"
proof -
  have ops: "fr_ops (fr_initial rp) w = plan_ops rp w"
    using assms(4) by (simp add: fr_initial_def worker_ops_def)
  have kept: "map (prepare_call opts) (fr_ops c w) = map (prepare_call opts) (plan_ops rp w)"
      "map (op_allocs ps) (fr_ops c w) = map (op_allocs ps) (plan_ops rp w)"
    and calls: "alloc_calls w (fr_shared c) = prepare_allocs opts (fr_prepared c w) @
      partial_allocs ps (fr_phase c w) (fr_ops c w) (fr_pos c w)"
    using assms(1) unfolding calls_inv_def ops [symmetric] by blast+
  have l: "length (fr_ops c w) = length (plan_ops rp w)"
    using kept(1) by (metis length_map)
  have e: "settled c w" "launched c (length (rp_workers rp))"
    using fr_invD(4) [OF assms(2)] assms(3,4) by simp_all
  then consider "fr_ws c w = Finished" | "fr_ws c w = NotStarted" "fr_ops c w = []"
    using assms(4) by (auto simp: settled_def launched_def)
  then show "alloc_calls w (fr_shared c) =
      prepare_allocs opts (plan_ops rp w) @ concat (map (op_allocs ps) (plan_ops rp w))"
  proof cases
    case 1
    then have "fr_prepared c w = fr_ops c w" "fr_phase c w = Ready" "fr_pos c w = length (fr_ops c w)"
      by (simp_all add: fr_prepared_def fr_phase_def fr_pos_def)
    then show ?thesis
      unfolding calls partial_allocs_def prepare_allocs_def by (simp add: kept del: op_allocs.simps)
  next
    case 2
    then have "plan_ops rp w = []" using l by simp
    with 2 show ?thesis
      unfolding calls by (simp add: fr_prepared_def fr_phase_def fr_pos_def partial_allocs_def prepare_allocs_def)
  qed
  show "fr_ws c w = Finished" if "plan_ops rp w \<noteq> []"
    using e assms(4) that l by (auto simp: settled_def launched_def)
qed


lemma ended_stops:
  assumes "fr_inv opts rp s c" and "fr_main c = Ended"
  shows "\<not> fr_step opts ps rp c c'"
proof
  assume step: "fr_step opts ps rp c c'"
  have "fr_ws c w = Finished \<or> fr_ws c w = NotStarted" for w
    using fr_invD(4) [OF assms(1)] assms(2) by (cases "w < length (rp_workers rp)")
      (auto simp: launched_def settled_def)
  then have "fr_ws c w \<noteq> Preparing i" "fr_ws c w \<noteq> AtStart" "fr_ws c w \<noteq> Running i ph" for w i ph
    by (metis worker_state.distinct)+
  with step assms(2) show False by (cases rule: fr_step_cases) simp_all
qed

lemma fr_run_ends:
  assumes "well_planned rp s"
  shows "\<exists>k c. (fr_step opts ps rp ^^ k) (fr_initial rp) c \<and> fr_main c = Ended"
proof -
  have "\<exists>k c. (fr_step opts ps rp ^^ k) (fr_initial rp) c \<and> fr_main c = Ended"
    if "(fr_step opts ps rp ^^ j) (fr_initial rp) c1" for j c1
    using that
  proof (induction "fr_weight (length (rp_workers rp)) c1" arbitrary: j c1 rule: less_induct)
    case less
    have inv: "fr_inv opts rp s c1"
      by (rule fr_reach [OF assms]) (rule relpowp_imp_rtranclp [OF less.prems])
    show ?case
    proof (cases "fr_main c1 = Ended")
      case False
      then obtain c2 where c2: "fr_step opts ps rp c1 c2"
        using fr_progress [OF inv assms] by blast
      show ?thesis
        by (rule less.hyps [OF fr_step_weight [OF inv c2]]) (rule relpowp_Suc_I [OF less.prems c2])
    qed (use less.prems in blast)
  qed
  from this [of 0 "fr_initial rp"] show ?thesis by simp
qed

lemma plan_trace_returns:
  assumes "length es < 2 ^ 32" and "unat (map_live * 2) \<le> 2 ^ 63" and "plan_trace opts map_live es = Returns rp"
  shows "\<exists>s. well_planned rp s \<and> length s \<le> length es"
proof -
  obtain s where "well_planned rp s" "subseq (map (\<lambda>x. tid_trace (rp_workers rp ! fst x)) s) (map thread_id es)"
    using plan_trace_spec [OF assms(1,2), of opts] assms(3) by (auto simp: plan_outcome_def)
  then show ?thesis
    using list_emb_length by fastforce
qed

subsection \<open>What a free run guarantees\<close>

lemma fr_run_spec:
  assumes "well_planned rp s" and "(fr_step opts ps rp ^^ k) (fr_initial rp) c"
  shows "k \<le> 7 * length s + 6 * length (rp_workers rp) + 3"
    and "(\<exists>c'. fr_step opts ps rp c c') \<longleftrightarrow> fr_main c \<noteq> Ended"
    and "fr_main c = Ended \<Longrightarrow> w < length (rp_workers rp) \<Longrightarrow>
      alloc_calls w (fr_shared c) = prepare_allocs opts (plan_ops rp w) @ concat (map (op_allocs ps) (plan_ops rp w))"
proof -
  have r: "(fr_step opts ps rp)\<^sup>*\<^sup>* (fr_initial rp) c"
    by (rule relpowp_imp_rtranclp [OF assms(2)])
  note inv = fr_reach [OF assms(1) r]
  show "k \<le> 7 * length s + 6 * length (rp_workers rp) + 3"
    using fr_steps_weight [OF assms] by simp
  show "(\<exists>c'. fr_step opts ps rp c c') \<longleftrightarrow> fr_main c \<noteq> Ended"
    using fr_progress [OF inv assms(1)] ended_stops [OF inv] by blast
  show "fr_main c = Ended \<Longrightarrow> w < length (rp_workers rp) \<Longrightarrow>
      alloc_calls w (fr_shared c) = prepare_allocs opts (plan_ops rp w) @ concat (map (op_allocs ps) (plan_ops rp w))"
    by (rule calls_ended(1) [OF calls_reach [OF assms(1) r] inv])
qed

lemma sample_plan: "\<exists>rp s. plan_trace sample_options 4096 sample_records = Returns rp \<and> well_planned rp s"
proof -
  have "plan_outcome sample_options sample_records (plan_trace sample_options 4096 sample_records)"
    by (rule plan_trace_spec) (simp_all add: sample_records_def)
  then show ?thesis
    by (auto simp: plan_outcome_def sample_records_def sample_options_def MAX_THREADS_def)
qed


text \<open>C29: Every free run of the plan of a trace ends. However the workers and the main thread
  interleave and whatever the allocator returns, a run of the plan of \<open>n\<close> records for \<open>m\<close> workers
  makes at most \<open>7 n + 6 m + 3\<close> steps; as long as \<open>main\<close> has not joined the last worker, some
  thread can take a step, so no wait for a generation lasts for ever; and when \<open>main\<close> has joined
  them, each worker has made, in the order of its records, exactly the allocations of its
  operations, after those of its synthetic objects.\<close>

theorem free_run_completes:
  assumes "length es < 2 ^ 32" and "unat (map_live * 2) \<le> 2 ^ 63"
    and "plan_trace opts map_live es = Returns rp" and "(fr_step opts ps rp ^^ k) (fr_initial rp) c"
  shows "k \<le> 7 * length es + 6 * length (rp_workers rp) + 3 \<and>
    ((\<exists>c'. fr_step opts ps rp c c') \<longleftrightarrow> fr_main c \<noteq> Ended) \<and>
    (fr_main c = Ended \<longrightarrow> (\<forall>w<length (rp_workers rp). alloc_calls w (fr_shared c) =
      prepare_allocs opts (plan_ops rp w) @ concat (map (op_allocs ps) (plan_ops rp w))))"
proof -
  obtain s where s: "well_planned rp s" "length s \<le> length es"
    using plan_trace_returns [OF assms(1-3)] by blast
  from fr_run_spec [OF s(1) assms(4)] s(2) show ?thesis by auto
qed

lemma free_run_completes_witness:
  "\<exists>rp k c. plan_trace sample_options 4096 sample_records = Returns rp \<and>
    (fr_step sample_options 4096 rp ^^ k) (fr_initial rp) c \<and> fr_main c = Ended \<and>
    (\<forall>w<length (rp_workers rp). alloc_calls w (fr_shared c) =
      prepare_allocs sample_options (plan_ops rp w) @ concat (map (op_allocs 4096) (plan_ops rp w)))"
proof -
  obtain rp s where p: "plan_trace sample_options 4096 sample_records = Returns rp" "well_planned rp s"
    using sample_plan by blast
  obtain k c where run: "(fr_step sample_options 4096 rp ^^ k) (fr_initial rp) c" "fr_main c = Ended"
    using fr_run_ends [OF p(2)] by blast
  have "length sample_records < 2 ^ 32" "unat ((4096::u64) * 2) \<le> 2 ^ 63"
    by (simp_all add: sample_records_def)
  from free_run_completes [OF this p(1) run(1)] p(1) run show ?thesis by blast
qed

text \<open>C30: A replay uses the allocator correctly. Whatever the order in which the workers run and
  whatever the allocator returns, no \<open>free\<close> and no \<open>realloc\<close> of a free run is given a pointer that
  is not live: the pointer a worker loads from a slot is the one the operation it waited for
  has published, and nobody else has freed it.\<close>

theorem replay_frees_only_live:
  assumes "length es < 2 ^ 32" and "unat (map_live * 2) \<le> 2 ^ 63"
    and "plan_trace opts map_live es = Returns rp" and "(fr_step opts ps rp)\<^sup>*\<^sup>* (fr_initial rp) c"
  shows "\<not> sh_misuse (fr_shared c)"
proof -
  obtain s where "well_planned rp s"
    using plan_trace_returns [OF assms(1-3)] by blast
  from fr_invD(3) [OF fr_reach [OF this assms(4)]] show ?thesis
    by (rule own_invD(4))
qed

lemma replay_frees_only_live_witness:
  "\<exists>rp c. plan_trace sample_options 4096 sample_records = Returns rp \<and>
    (fr_step sample_options 4096 rp)\<^sup>*\<^sup>* (fr_initial rp) c \<and> fr_main c = Ended \<and> \<not> sh_misuse (fr_shared c)"
proof -
  obtain rp s where p: "plan_trace sample_options 4096 sample_records = Returns rp" "well_planned rp s"
    using sample_plan by blast
  obtain k c where run: "(fr_step sample_options 4096 rp ^^ k) (fr_initial rp) c" "fr_main c = Ended"
    using fr_run_ends [OF p(2)] by blast
  have l: "length sample_records < 2 ^ 32" "unat ((4096::u64) * 2) \<le> 2 ^ 63"
    by (simp_all add: sample_records_def)
  note r = relpowp_imp_rtranclp [OF run(1)]
  from replay_frees_only_live [OF l p(1) r] p(1) r run(2) show ?thesis by blast
qed

end
