(* ===== verification/EpochRun.thy ===== *)
theory EpochRun
  imports ReplayOps
begin

text \<open>
  The epoch mode (\<open>run_application_like_replay\<close> and \<open>worker_main\<close> of \<open>replay_main.c\<close>): the time of
  the trace is cut into epochs; before an epoch the controller creates the workers that start
  in it, announces it, and waits until as many workers have arrived as are active; then it
  joins those that have finished. A critical section of \<open>g_epoch_mu\<close> is one step.

  The lemmas show the plan of the epochs, that the allocator is used correctly in every
  interleaving, and that the arrivals are not tied to an epoch: a worker created after the
  first epoch first runs through the epoch before its own, and its arrival there may count for
  the next one, so that the controller can wait for ever for a worker that has finished.

  Not in the model: the pause before a thread runs, the progress and watchdog threads (the
  watchdog ends the program when nothing is done for 30 s), a failing \<open>pthread_create\<close> or
  \<open>pthread_join\<close>, spurious wake-ups, which only repeat the test of the condition.
\<close>

subsection \<open>The plan of the epochs\<close>

definition cmp_worker_start :: "worker list \<Rightarrow> nat \<Rightarrow> nat \<Rightarrow> int" where
  "cmp_worker_start ws ia ib =
    (if start_ts (ws ! ia) < start_ts (ws ! ib) then - 1
     else if start_ts (ws ! ib) < start_ts (ws ! ia) then 1 else int ia - int ib)"

text \<open>\<open>order\<close>: what \<open>qsort\<close> makes of the workers that have something to do. The comparison is a
  linear order, so there is one result.\<close>

definition launch_order :: "worker list \<Rightarrow> nat list" where
  "launch_order ws = sort_key (\<lambda>i. start_ts (ws ! i))
    (filter (\<lambda>i. worker_has_ops_or_lifecycle (ws ! i)) [0..<length ws])"

record epoch_options =
  g_epoch_size :: u64
  g_auto_epoch_target :: u64

definition trace_span :: "replay_plan \<Rightarrow> u64" where
  "trace_span rp = (if rp_min_ts rp \<le> rp_max_ts rp then rp_max_ts rp - rp_min_ts rp + 1 else 1)"

definition compute_auto_epoch_size :: "epoch_options \<Rightarrow> replay_plan \<Rightarrow> u64" where
  "compute_auto_epoch_size eo rp =
    (let target = (if g_auto_epoch_target eo \<noteq> 0 then g_auto_epoch_target eo else 1000);
         ep = (trace_span rp + target - 1) div target
     in if ep \<noteq> 0 then ep else 1)"

definition epoch_size :: "epoch_options \<Rightarrow> replay_plan \<Rightarrow> u64" where
  "epoch_size eo rp = (if g_epoch_size eo \<noteq> 0 then g_epoch_size eo else compute_auto_epoch_size eo rp)"

definition num_epochs :: "epoch_options \<Rightarrow> replay_plan \<Rightarrow> u64" where
  "num_epochs eo rp =
    (let n = (trace_span rp + epoch_size eo rp - 1) div epoch_size eo rp in if n = 0 then 1 else n)"

definition epoch_end :: "epoch_options \<Rightarrow> replay_plan \<Rightarrow> u64 \<Rightarrow> u64" where
  "epoch_end eo rp ep = rp_min_ts rp + (ep + 1) * epoch_size eo rp"

subsection \<open>Workers and controller\<close>

text \<open>
  A worker: not created, in \<open>prepare_synthetic_unknowns\<close>, at the start flag, at the condition
  variable, in its loop over the operations before an epoch's end, before the second critical
  section, or returned.
\<close>

datatype ep_worker = NotCreated | EpPreparing nat | EpAtStart | AtBarrier
  | InEpoch u64 op_phase | Arriving u64 | Returned

text \<open>The controller: launching for an epoch, waiting for the arrivals (\<open>None\<close>: of the draining
  loop), joining at an index of \<open>order\<close>, launching the rest, draining, returned.\<close>

datatype controller = LaunchFor u64 | Waiting "u64 option" | JoiningAt "u64 option" nat
  | LaunchRest | Draining | Completed

record epochrun =
  er_shared :: shared
  er_ops :: "nat \<Rightarrow> replay_op list"
  er_ws :: "nat \<Rightarrow> ep_worker"
  er_pos :: "nat \<Rightarrow> nat"
  seen_epoch :: "nat \<Rightarrow> u64"
  finished :: "nat \<Rightarrow> bool"
  joined :: "nat \<Rightarrow> bool"
  g_epoch_id :: u64
  g_epoch_end :: u64
  g_epoch_target :: u64
  g_epoch_arrived :: u64
  g_start :: bool
  g_done :: bool
  er_next :: nat
  er_active :: int
  er_main :: controller

definition should_finish :: "replay_plan \<Rightarrow> epochrun \<Rightarrow> nat \<Rightarrow> u64 \<Rightarrow> bool" where
  "should_finish rp c w ep_end \<longleftrightarrow> length (er_ops c w) \<le> er_pos c w \<and> end_ts (rp_workers rp ! w) \<le> ep_end"

text \<open>The steps of a worker.\<close>

inductive worker_main :: "replay_options \<Rightarrow> int \<Rightarrow> replay_plan \<Rightarrow> nat \<Rightarrow> epochrun \<Rightarrow> epochrun \<Rightarrow> bool"
  for opts ps rp w where
  ep_prepare: "er_ws c w = EpPreparing i \<Longrightarrow> g_unknown_policy opts = UNKNOWN_SYNTHETIC \<Longrightarrow>
    prepare_step opts w i (er_ops c w) (er_shared c) os sh \<Longrightarrow>
    worker_main opts ps rp w c (c\<lparr>er_shared := sh, er_ops := (er_ops c)(w := os),
      er_ws := (er_ws c)(w := EpPreparing (i + 1))\<rparr>)"
| ep_prepared: "er_ws c w = EpPreparing i \<Longrightarrow>
    g_unknown_policy opts \<noteq> UNKNOWN_SYNTHETIC \<or> length (er_ops c w) \<le> i \<Longrightarrow>
    worker_main opts ps rp w c (c\<lparr>er_ws := (er_ws c)(w := EpAtStart)\<rparr>)"
| ep_go: "er_ws c w = EpAtStart \<Longrightarrow> g_start c \<Longrightarrow>
    worker_main opts ps rp w c (c\<lparr>er_ws := (er_ws c)(w := AtBarrier), er_pos := (er_pos c)(w := 0),
      seen_epoch := (seen_epoch c)(w := 0)\<rparr>)"
| ep_take: "er_ws c w = AtBarrier \<Longrightarrow> seen_epoch c w \<noteq> g_epoch_id c \<or> g_done c \<Longrightarrow>
    worker_main opts ps rp w c (c\<lparr>er_ws := (er_ws c)(w := InEpoch (g_epoch_end c) Ready),
      seen_epoch := (seen_epoch c)(w := g_epoch_id c)\<rparr>)"
| ep_op: "er_ws c w = InEpoch e ph \<Longrightarrow> er_pos c w < length (er_ops c w) \<Longrightarrow>
    op_ts (er_ops c w ! er_pos c w) < e \<Longrightarrow>
    op_step opts ps w (er_ops c w ! er_pos c w) (er_shared c) ph sh (Some ph') \<Longrightarrow>
    worker_main opts ps rp w c (c\<lparr>er_shared := sh, er_ws := (er_ws c)(w := InEpoch e ph')\<rparr>)"
| ep_op_done: "er_ws c w = InEpoch e ph \<Longrightarrow> er_pos c w < length (er_ops c w) \<Longrightarrow>
    op_ts (er_ops c w ! er_pos c w) < e \<Longrightarrow>
    op_step opts ps w (er_ops c w ! er_pos c w) (er_shared c) ph sh None \<Longrightarrow>
    worker_main opts ps rp w c (c\<lparr>er_shared := sh, er_ws := (er_ws c)(w := InEpoch e Ready),
      er_pos := (er_pos c)(w := er_pos c w + 1)\<rparr>)"
| ep_leave: "er_ws c w = InEpoch e Ready \<Longrightarrow>
    \<not> (er_pos c w < length (er_ops c w) \<and> op_ts (er_ops c w ! er_pos c w) < e) \<Longrightarrow>
    worker_main opts ps rp w c (c\<lparr>er_ws := (er_ws c)(w := Arriving e)\<rparr>)"
| ep_arrive: "er_ws c w = Arriving e \<Longrightarrow> \<not> should_finish rp c w e \<Longrightarrow>
    worker_main opts ps rp w c (c\<lparr>er_ws := (er_ws c)(w := AtBarrier), g_epoch_arrived := g_epoch_arrived c + 1\<rparr>)"
| ep_return: "er_ws c w = Arriving e \<Longrightarrow> should_finish rp c w e \<Longrightarrow>
    worker_main opts ps rp w c (c\<lparr>er_ws := (er_ws c)(w := Returned), finished := (finished c)(w := True),
      g_epoch_arrived := g_epoch_arrived c + 1\<rparr>)"

text \<open>Creation of the worker that is next in \<open>order\<close>.\<close>

definition launch_next :: "replay_plan \<Rightarrow> epochrun \<Rightarrow> epochrun" where
  "launch_next rp c =
    (let w = launch_order (rp_workers rp) ! er_next c;
         c = (if er_ws c w = NotCreated
              then c\<lparr>er_ws := (er_ws c)(w := EpPreparing 0), er_active := er_active c + 1\<rparr> else c)
     in c\<lparr>er_next := er_next c + 1\<rparr>)"

definition may_launch :: "epoch_options \<Rightarrow> replay_plan \<Rightarrow> u64 \<Rightarrow> epochrun \<Rightarrow> bool" where
  "may_launch eo rp ep c \<longleftrightarrow> er_next c < length (launch_order (rp_workers rp)) \<and>
    start_ts (rp_workers rp ! (launch_order (rp_workers rp) ! er_next c)) < epoch_end eo rp ep"

definition announce :: "u64 \<Rightarrow> epochrun \<Rightarrow> epochrun" where
  "announce e c = c\<lparr>g_epoch_end := e, g_epoch_arrived := 0, g_epoch_target := of_int (er_active c),
    g_epoch_id := g_epoch_id c + 1\<rparr>"

definition join_at :: "replay_plan \<Rightarrow> nat \<Rightarrow> epochrun \<Rightarrow> epochrun" where
  "join_at rp k c =
    (let w = launch_order (rp_workers rp) ! k
     in if er_ws c w \<noteq> NotCreated \<and> \<not> joined c w \<and> finished c w
        then c\<lparr>joined := (joined c)(w := True), er_active := er_active c - 1\<rparr> else c)"

text \<open>The steps of the controller.\<close>

inductive run_application_like_replay :: "epoch_options \<Rightarrow> replay_plan \<Rightarrow> epochrun \<Rightarrow> epochrun \<Rightarrow> bool"
  for eo rp where
  ctl_launch: "er_main c = LaunchFor ep \<Longrightarrow> ep < num_epochs eo rp \<Longrightarrow> may_launch eo rp ep c \<Longrightarrow>
    run_application_like_replay eo rp c (launch_next rp c)"
| ctl_skip: "er_main c = LaunchFor ep \<Longrightarrow> ep < num_epochs eo rp \<Longrightarrow> \<not> may_launch eo rp ep c \<Longrightarrow>
    er_active c = 0 \<Longrightarrow> run_application_like_replay eo rp c (c\<lparr>er_main := LaunchFor (ep + 1)\<rparr>)"
| ctl_announce: "er_main c = LaunchFor ep \<Longrightarrow> ep < num_epochs eo rp \<Longrightarrow> \<not> may_launch eo rp ep c \<Longrightarrow>
    er_active c \<noteq> 0 \<Longrightarrow>
    run_application_like_replay eo rp c (announce (epoch_end eo rp ep) c\<lparr>er_main := Waiting (Some ep)\<rparr>)"
| ctl_proceed: "er_main c = Waiting m \<Longrightarrow> g_epoch_target c \<le> g_epoch_arrived c \<Longrightarrow>
    run_application_like_replay eo rp c (c\<lparr>er_main := JoiningAt m 0\<rparr>)"
| ctl_join: "er_main c = JoiningAt m k \<Longrightarrow> k < (if m = None then length (launch_order (rp_workers rp)) else er_next c) \<Longrightarrow>
    run_application_like_replay eo rp c (join_at rp k c\<lparr>er_main := JoiningAt m (k + 1)\<rparr>)"
| ctl_next: "er_main c = JoiningAt (Some ep) k \<Longrightarrow> er_next c \<le> k \<Longrightarrow>
    run_application_like_replay eo rp c (c\<lparr>er_main := LaunchFor (ep + 1)\<rparr>)"
| ctl_epochs_done: "er_main c = LaunchFor ep \<Longrightarrow> num_epochs eo rp \<le> ep \<Longrightarrow>
    run_application_like_replay eo rp c (c\<lparr>er_main := LaunchRest\<rparr>)"
| ctl_launch_rest: "er_main c = LaunchRest \<Longrightarrow> er_next c < length (launch_order (rp_workers rp)) \<Longrightarrow>
    run_application_like_replay eo rp c (launch_next rp c)"
| ctl_rest_done: "er_main c = LaunchRest \<Longrightarrow> length (launch_order (rp_workers rp)) \<le> er_next c \<Longrightarrow>
    run_application_like_replay eo rp c (c\<lparr>er_main := Draining\<rparr>)"
| ctl_drain: "er_main c = Draining \<Longrightarrow> 0 < er_active c \<Longrightarrow>
    run_application_like_replay eo rp c (announce (- 1) c\<lparr>er_main := Waiting None\<rparr>)"
| ctl_drained: "er_main c = JoiningAt None k \<Longrightarrow> length (launch_order (rp_workers rp)) \<le> k \<Longrightarrow>
    run_application_like_replay eo rp c (c\<lparr>er_main := Draining\<rparr>)"
| ctl_completed: "er_main c = Draining \<Longrightarrow> er_active c \<le> 0 \<Longrightarrow>
    run_application_like_replay eo rp c (c\<lparr>g_done := True, er_main := Completed\<rparr>)"

inductive epoch_step :: "replay_options \<Rightarrow> epoch_options \<Rightarrow> int \<Rightarrow> replay_plan \<Rightarrow> epochrun \<Rightarrow> epochrun \<Rightarrow> bool"
  for opts eo ps rp where
  by_controller: "run_application_like_replay eo rp c c' \<Longrightarrow> epoch_step opts eo ps rp c c'"
| by_worker: "worker_main opts ps rp w c c' \<Longrightarrow> epoch_step opts eo ps rp c c'"

definition er_initial :: "replay_plan \<Rightarrow> epochrun" where
  "er_initial rp = \<lparr>er_shared = fresh_shared, er_ops = worker_ops rp, er_ws = (\<lambda>_. NotCreated),
    er_pos = (\<lambda>_. 0), seen_epoch = (\<lambda>_. 0), finished = (\<lambda>_. False), joined = (\<lambda>_. False),
    g_epoch_id = 0, g_epoch_end = 0, g_epoch_target = 0, g_epoch_arrived = 0, g_start = True,
    g_done = False, er_next = 0, er_active = 0, er_main = LaunchFor 0\<rparr>"


subsection \<open>The order of the workers and the cover of the trace\<close>

lemma sorted_by_blocks:
  assumes "sorted (map f xs)" and "\<And>k. sorted_wrt R (filter (\<lambda>y. f y = k) xs)"
  shows "sorted_wrt (\<lambda>a b. f a < f b \<or> f a = f b \<and> R a b) xs"
  using assms
proof (induction xs)
  case (Cons a xs)
  have "sorted_wrt R (filter (\<lambda>y. f y = k) xs)" for k
    using Cons.prems(2) [of k] by (auto split: if_splits)
  then have "sorted_wrt (\<lambda>a b. f a < f b \<or> f a = f b \<and> R a b) xs"
    using Cons by simp
  moreover have "f a < f b \<or> f a = f b \<and> R a b" if "b \<in> set xs" for b
    using Cons.prems(1) Cons.prems(2) [of "f a"] that by (auto simp: order_le_less)
  ultimately show ?case by simp
qed simp

text \<open>The order is the one \<open>qsort\<close> gives for the comparison, which decides every two workers.\<close>

lemma launch_order_sorted:
  "sorted_wrt (\<lambda>i j. cmp_worker_start ws i j < 0) (launch_order ws)"
  "set (launch_order ws) = {i. i < length ws \<and> worker_has_ops_or_lifecycle (ws ! i)}"
  "distinct (launch_order ws)"
proof -
  let ?f = "\<lambda>i. start_ts (ws ! i)"
  have "sorted_wrt (\<lambda>i j. ?f i < ?f j \<or> ?f i = ?f j \<and> i < j) (launch_order ws)"
    by (rule sorted_by_blocks) (simp_all add: launch_order_def sort_key_stable sorted_wrt_filter)
  then show "sorted_wrt (\<lambda>i j. cmp_worker_start ws i j < 0) (launch_order ws)"
    by (rule sorted_wrt_mono_rel [rotated]) (auto simp: cmp_worker_start_def)
qed (auto simp: launch_order_def)

lemma epoch_size_pos: "0 < unat (epoch_size eo rp)"
  by (simp add: epoch_size_def compute_auto_epoch_size_def Let_def unat_gt_0)

lemma epochs_cover_spec:
  assumes "rp_min_ts rp \<le> rp_max_ts rp" and "unat (rp_max_ts rp) + unat (epoch_size eo rp) < 2 ^ 64"
  shows "0 < num_epochs eo rp" and "rp_max_ts rp < epoch_end eo rp (num_epochs eo rp - 1)"
    and "ep < num_epochs eo rp \<Longrightarrow>
      unat (epoch_end eo rp ep) = unat (rp_min_ts rp) + (unat ep + 1) * unat (epoch_size eo rp)"
proof -
  define es where "es = unat (epoch_size eo rp)"
  define lo where "lo = unat (rp_min_ts rp)"
  define hi where "hi = unat (rp_max_ts rp)"
  have es: "0 < es" using epoch_size_pos by (simp add: es_def)
  have le: "lo \<le> hi" using assms(1) by (simp add: lo_def hi_def word_le_nat_alt)
  have bound: "hi + es < 2 ^ 64" using assms(2) by (simp add: hi_def es_def)
  have up: "unat (trace_span rp + epoch_size eo rp - 1) = hi - lo + es"
  proof -
    have w: "trace_span rp + epoch_size eo rp - 1 = (rp_max_ts rp - rp_min_ts rp) + epoch_size eo rp"
      using assms(1) by (simp add: trace_span_def)
    have "unat (rp_max_ts rp - rp_min_ts rp) = hi - lo"
      using assms(1) by (simp add: unat_sub hi_def lo_def)
    then show ?thesis
      unfolding w using bound by (simp add: unat_word_ariths(1) es_def [symmetric])
  qed
  define n where "n = (hi - lo + es) div es"
  have n: "unat ((trace_span rp + epoch_size eo rp - 1) div epoch_size eo rp) = n"
    by (simp add: unat_div up n_def es_def)
  have n1: "1 \<le> n" using es by (simp add: n_def div_add_self2)
  have "(trace_span rp + epoch_size eo rp - 1) div epoch_size eo rp \<noteq> 0"
    using n n1 by (metis not_one_le_zero unat_0)
  then have num: "unat (num_epochs eo rp) = n"
    using n by (simp add: num_epochs_def Let_def)
  then show pos: "0 < num_epochs eo rp"
    using n1 by (simp add: word_less_nat_alt)
  have mult: "n * es \<le> hi - lo + es"
    by (simp add: n_def)
  have more: "hi - lo < n * es"
    using es unfolding n_def by (metis add.commute dividend_less_div_times div_add_self2 mult_Suc
      add_Suc_right plus_1_eq_Suc less_Suc_eq not_less_eq)
  show e: "unat (epoch_end eo rp ep) = unat (rp_min_ts rp) + (unat ep + 1) * unat (epoch_size eo rp)"
    if "ep < num_epochs eo rp" for ep
  proof -
    have k: "unat ep + 1 \<le> n"
      using that num by (simp add: word_less_nat_alt)
    then have le': "(unat ep + 1) * es \<le> hi - lo + es"
      using mult by (meson le_trans mult_le_mono1)
    have "unat ((ep + 1) * epoch_size eo rp) = (unat ep + 1) * es"
    proof -
      have "n < 2 ^ 64" using num unsigned_less [of "num_epochs eo rp", where ?'a = nat] by simp
      then have "unat (ep + 1) = unat ep + 1"
        using k by (simp add: unat_word_ariths(1))
      then show ?thesis
        using le' bound le by (simp add: unat_word_ariths(2) es_def [symmetric] del: mult_Suc)
    qed
    then show ?thesis
      using le' bound le by (simp add: epoch_end_def unat_word_ariths(1) lo_def [symmetric] es_def [symmetric] del: mult_Suc)
  qed
  have "unat (num_epochs eo rp - 1) = n - 1"
    using unat_minus_one [of "num_epochs eo rp"] pos num by auto
  moreover have "num_epochs eo rp - 1 < num_epochs eo rp"
    using calculation n1 num by (simp add: word_less_nat_alt)
  ultimately show "rp_max_ts rp < epoch_end eo rp (num_epochs eo rp - 1)"
    using e [of "num_epochs eo rp - 1"] more n1 le
    by (simp add: word_less_nat_alt hi_def [symmetric] lo_def [symmetric] es_def [symmetric] del: mult_Suc)
qed


subsection \<open>The allocator is used correctly\<close>

fun ep_phase :: "ep_worker \<Rightarrow> op_phase" where
  "ep_phase (InEpoch e ph) = ph"
| "ep_phase _ = Ready"

fun ep_prepared_part :: "ep_worker \<Rightarrow> replay_op list \<Rightarrow> replay_op list" where
  "ep_prepared_part NotCreated os = []"
| "ep_prepared_part (EpPreparing i) os = take i os"
| "ep_prepared_part _ os = os"

fun before_loop :: "ep_worker \<Rightarrow> bool" where
  "before_loop NotCreated = True"
| "before_loop (EpPreparing i) = True"
| "before_loop EpAtStart = True"
| "before_loop _ = False"

definition er_phase :: "epochrun \<Rightarrow> nat \<Rightarrow> op_phase" where
  "er_phase c w = ep_phase (er_ws c w)"

definition er_prepared :: "epochrun \<Rightarrow> nat \<Rightarrow> replay_op list" where
  "er_prepared c w = ep_prepared_part (er_ws c w) (er_ops c w)"

definition er_inv :: "replay_options \<Rightarrow> schedule \<Rightarrow> epochrun \<Rightarrow> bool" where
  "er_inv opts s c \<longleftrightarrow> replay_inv s opts (er_ops c) (er_prepared c) (er_pos c) (er_phase c) (er_shared c) \<and>
    (\<forall>w. before_loop (er_ws c w) \<longrightarrow> er_pos c w = 0)"

text \<open>A step that leaves the operations alone.\<close>

lemma er_inv_control:
  assumes "er_inv opts s c" and "er_shared c' = er_shared c" and "er_ops c' = er_ops c" and "er_pos c' = er_pos c"
    and "\<And>w. ep_phase (er_ws c' w) = ep_phase (er_ws c w)"
    and "(\<forall>w. ep_prepared_part (er_ws c' w) (er_ops c w) = ep_prepared_part (er_ws c w) (er_ops c w)) \<or>
      g_unknown_policy opts \<noteq> UNKNOWN_SYNTHETIC"
    and "\<And>w. before_loop (er_ws c' w) \<Longrightarrow> before_loop (er_ws c w)"
  shows "er_inv opts s c'"
proof -
  have "er_phase c' = er_phase c"
    using assms(5) by (simp add: er_phase_def fun_eq_iff)
  moreover have "er_prepared c' = er_prepared c \<or> g_unknown_policy opts \<noteq> UNKNOWN_SYNTHETIC"
    using assms(3,6) by (auto simp: er_prepared_def fun_eq_iff)
  ultimately show ?thesis
    using assms(1-4,7) replay_inv_prepared unfolding er_inv_def by metis
qed

lemma er_inv_controller:
  assumes "er_inv opts s c" and "run_application_like_replay eo rp c c'"
  shows "er_inv opts s c'"
proof -
  have launch: "er_inv opts s (launch_next rp c)"
    by (rule er_inv_control [OF assms(1)]) (auto simp: launch_next_def Let_def split: if_splits)
  have join: "er_inv opts s (join_at rp k c\<lparr>er_main := m\<rparr>)" for k m
    by (rule er_inv_control [OF assms(1)]) (auto simp: join_at_def Let_def split: if_splits)
  have tell: "er_inv opts s (announce e c\<lparr>er_main := m\<rparr>)" for e m
    by (rule er_inv_control [OF assms(1)]) (auto simp: announce_def)
  have move: "er_inv opts s (c\<lparr>er_main := m\<rparr>)" "er_inv opts s (c\<lparr>g_done := True, er_main := m\<rparr>)" for m
    by (rule er_inv_control [OF assms(1)]; simp)+
  from assms(2) show ?thesis
    by cases (use launch join tell move in blast)+
qed

lemma er_inv_worker:
  assumes inv: "er_inv opts s c" and sched: "scheduled s" and step: "worker_main opts ps rp w c c'"
  shows "er_inv opts s c'"
proof -
  have r: "replay_inv s opts (er_ops c) (er_prepared c) (er_pos c) (er_phase c) (er_shared c)"
    and z: "\<And>v. before_loop (er_ws c v) \<Longrightarrow> er_pos c v = 0"
    using inv unfolding er_inv_def by blast+
  from step show ?thesis
  proof cases
    case (ep_prepare i xs sh)
    have v: "er_phase c' = er_phase c" "er_pos c' = er_pos c"
      "er_prepared c' = (er_prepared c)(w := take (i + 1) xs)" "er_ops c' = (er_ops c)(w := xs)" "er_shared c' = sh"
      unfolding ep_prepare(1) using ep_prepare(2) by (auto simp: er_phase_def er_prepared_def fun_eq_iff)
    have p: "er_prepared c w = take i (er_ops c w)" "er_pos c w = 0"
      using ep_prepare(2) z [of w] by (simp_all add: er_prepared_def)
    from replay_inv_prepare [OF r ep_prepare(4) p ep_prepare(3)] show ?thesis
      unfolding er_inv_def v using z p(2) unfolding ep_prepare(1) by auto
  next
    case (ep_go)
    have "er_pos c w = 0" using z [of w] ep_go(2) by simp
    then show ?thesis
      unfolding ep_go(1) by (intro er_inv_control [OF inv]) (use ep_go(2) in \<open>auto split: if_splits\<close>)
  next
    case (ep_op e ph sh ph')
    have v: "er_phase c' = (er_phase c)(w := ph')" "er_pos c' = er_pos c"
      "er_prepared c' = er_prepared c" "er_ops c' = er_ops c" "er_shared c' = sh"
      unfolding ep_op(1) using ep_op(2) by (auto simp: er_phase_def er_prepared_def fun_eq_iff)
    have p: "er_prepared c w = er_ops c w"
      "op_step opts ps w (er_ops c w ! er_pos c w) (er_shared c) (er_phase c w) sh (Some ph')"
      using ep_op(2,5) by (simp_all add: er_prepared_def er_phase_def)
    from replay_inv_step(1) [where ph = "er_phase c" and pos = "er_pos c", OF r sched ep_op(3) p refl] show ?thesis
      unfolding er_inv_def v using z unfolding ep_op(1) by auto
  next
    case (ep_op_done e ph sh)
    have v: "er_phase c' = (er_phase c)(w := Ready)" "er_pos c' = (er_pos c)(w := er_pos c w + 1)"
      "er_prepared c' = er_prepared c" "er_ops c' = er_ops c" "er_shared c' = sh"
      unfolding ep_op_done(1) using ep_op_done(2) by (auto simp: er_phase_def er_prepared_def fun_eq_iff)
    have p: "er_prepared c w = er_ops c w"
      "op_step opts ps w (er_ops c w ! er_pos c w) (er_shared c) (er_phase c w) sh None"
      using ep_op_done(2,5) by (simp_all add: er_prepared_def er_phase_def)
    from replay_inv_step(2) [where ph = "er_phase c" and pos = "er_pos c", OF r sched ep_op_done(3) p refl] show ?thesis
      unfolding er_inv_def v using z unfolding ep_op_done(1) by auto
  qed (rule er_inv_control [OF inv]; auto split: if_splits)+
qed

lemma er_reach:
  assumes "well_planned rp s" and "(epoch_step opts eo ps rp)\<^sup>*\<^sup>* (er_initial rp) c"
  shows "er_inv opts s c"
  using assms(2)
proof (induction rule: rtranclp_induct)
  case base
  have "er_prepared (er_initial rp) = (\<lambda>_. [])" "er_phase (er_initial rp) = (\<lambda>_. Ready)"
    by (simp_all add: er_prepared_def er_phase_def er_initial_def fun_eq_iff)
  then show ?case
    using replay_inv_initial [OF assms(1)] by (simp add: er_inv_def) (simp add: er_initial_def)
next
  case (step c c')
  have "scheduled s" using assms(1) by (simp add: well_planned_def)
  with step show ?case
    by (auto elim!: epoch_step.cases intro: er_inv_controller er_inv_worker)
qed


subsection \<open>A run that hangs\<close>

text \<open>Two threads without operations: one that lives from 0 to 15, one from 12 to 15; epochs of 10.\<close>

definition idle_thread :: "u64 \<Rightarrow> u64 \<Rightarrow> u64 \<Rightarrow> worker" where
  "idle_thread t a b = (new_worker t)\<lparr>start_ts := a, end_ts := b, has_start := True, has_end := True\<rparr>"

definition late_plan :: replay_plan where
  "late_plan = \<lparr>rp_workers = [idle_thread 1 0 15, idle_thread 2 12 15], rp_total_slots = 0, rp_total_ops = 0,
    rp_min_ts = 0, rp_max_ts = 15, rp_live_left_at_end = 0, rp_inferred_threads = 0,
    rp_counts = zero_counts\<lparr>g_thread_start_events := 2, g_thread_end_events := 2\<rparr>\<rparr>"

definition ten_units :: epoch_options where
  "ten_units = \<lparr>g_epoch_size = 10, g_auto_epoch_target = 1000\<rparr>"

text \<open>The two threads: where they are, the epoch they have seen, returned or not, joined or not.\<close>

definition duo :: "ep_worker \<times> u64 \<times> bool \<times> bool \<Rightarrow> ep_worker \<times> u64 \<times> bool \<times> bool \<Rightarrow>
    u64 \<times> u64 \<times> u64 \<times> u64 \<Rightarrow> nat \<times> int \<Rightarrow> controller \<Rightarrow> epochrun" where
  "duo a b g n m =
    \<lparr>er_shared = fresh_shared, er_ops = worker_ops late_plan,
     er_ws = (\<lambda>w. if w = 0 then fst a else if w = 1 then fst b else NotCreated), er_pos = (\<lambda>_. 0),
     seen_epoch = (\<lambda>w. if w = 0 then fst (snd a) else if w = 1 then fst (snd b) else 0),
     finished = (\<lambda>w. if w = 0 then fst (snd (snd a)) else if w = 1 then fst (snd (snd b)) else False),
     joined = (\<lambda>w. if w = 0 then snd (snd (snd a)) else if w = 1 then snd (snd (snd b)) else False),
     g_epoch_id = fst g, g_epoch_end = fst (snd g), g_epoch_target = fst (snd (snd g)),
     g_epoch_arrived = snd (snd (snd g)),
     g_start = True, g_done = False, er_next = fst n, er_active = snd n, er_main = m\<rparr>"

lemma late_plan_facts [simp]:
  "launch_order (rp_workers late_plan) = [0, 1]" "num_epochs ten_units late_plan = 2"
  "epoch_end ten_units late_plan 0 = 10" "epoch_end ten_units late_plan 1 = 20"
  "start_ts (rp_workers late_plan ! 0) = 0" "start_ts (rp_workers late_plan ! Suc 0) = 12"
  "end_ts (rp_workers late_plan ! 0) = 15" "end_ts (rp_workers late_plan ! Suc 0) = 15"
  "worker_ops late_plan w = []"
proof -
  have "worker_has_ops_or_lifecycle (idle_thread t a b)" for t a b
    by (simp add: worker_has_ops_or_lifecycle_def idle_thread_def)
  then show "launch_order (rp_workers late_plan) = [0, 1]"
    by (simp add: launch_order_def late_plan_def idle_thread_def upt_rec)
  show "worker_ops late_plan w = []"
    by (auto simp: worker_ops_def late_plan_def plan_ops_def idle_thread_def new_worker_def less_Suc_eq
      numeral_2_eq_2)
qed (simp_all add: num_epochs_def epoch_end_def epoch_size_def ten_units_def trace_span_def late_plan_def
  idle_thread_def)


lemmas late_defs = duo_def fun_eq_iff launch_next_def may_launch_def announce_def join_at_def Let_def
  sample_options_def should_finish_def

abbreviation late_step :: "epochrun \<Rightarrow> epochrun \<Rightarrow> bool" where
  "late_step \<equiv> epoch_step sample_options ten_units 4096 late_plan"

lemma late_controller_to:
  "run_application_like_replay ten_units late_plan c c1 \<Longrightarrow> c1 = c2 \<Longrightarrow> late_step c c2"
  using by_controller by blast

lemma late_worker_to: "worker_main sample_options 4096 late_plan w c c1 \<Longrightarrow> c1 = c2 \<Longrightarrow> late_step c c2"
  using by_worker by blast

lemma first_thread:
  "late_step (duo (EpPreparing 0, v) b g n m) (duo (EpAtStart, v) b g n m)"
  "late_step (duo (EpAtStart, i, f) b g n m) (duo (AtBarrier, 0, f) b g n m)"
  "i \<noteq> k \<Longrightarrow> late_step (duo (AtBarrier, i, f) b (k, e, u) n m) (duo (InEpoch e Ready, k, f) b (k, e, u) n m)"
  "late_step (duo (InEpoch x Ready, v) b g n m) (duo (Arriving x, v) b g n m)"
  "x < 15 \<Longrightarrow> late_step (duo (Arriving x, v) b (k, e, t, r) n m) (duo (AtBarrier, v) b (k, e, t, r + 1) n m)"
  "15 \<le> x \<Longrightarrow> late_step (duo (Arriving x, i, z, j) b (k, e, t, r) n m)
    (duo (Returned, i, True, j) b (k, e, t, r + 1) n m)"
  subgoal by (rule late_worker_to [where w = 0], rule ep_prepared, simp add: late_defs; auto simp: late_defs)
  subgoal by (rule late_worker_to [where w = 0], rule ep_go, simp add: late_defs; auto simp: late_defs)
  subgoal by (rule late_worker_to [where w = 0], rule ep_take, simp add: late_defs; auto simp: late_defs)
  subgoal by (rule late_worker_to [where w = 0], rule ep_leave, simp add: late_defs; auto simp: late_defs)
  subgoal by (rule late_worker_to [where w = 0], rule ep_arrive, simp add: late_defs; auto simp: late_defs)
  subgoal by (rule late_worker_to [where w = 0], rule ep_return, simp add: late_defs; auto simp: late_defs)
  done

lemma second_thread:
  "late_step (duo a (EpPreparing 0, v) g n m) (duo a (EpAtStart, v) g n m)"
  "late_step (duo a (EpAtStart, i, f) g n m) (duo a (AtBarrier, 0, f) g n m)"
  "i \<noteq> k \<Longrightarrow> late_step (duo a (AtBarrier, i, f) (k, e, u) n m) (duo a (InEpoch e Ready, k, f) (k, e, u) n m)"
  "late_step (duo a (InEpoch x Ready, v) g n m) (duo a (Arriving x, v) g n m)"
  "x < 15 \<Longrightarrow> late_step (duo a (Arriving x, v) (k, e, t, r) n m) (duo a (AtBarrier, v) (k, e, t, r + 1) n m)"
  "15 \<le> x \<Longrightarrow> late_step (duo a (Arriving x, i, z, j) (k, e, t, r) n m)
    (duo a (Returned, i, True, j) (k, e, t, r + 1) n m)"
  subgoal by (rule late_worker_to [where w = 1], rule ep_prepared, simp add: late_defs; auto simp: late_defs)
  subgoal by (rule late_worker_to [where w = 1], rule ep_go, simp add: late_defs; auto simp: late_defs)
  subgoal by (rule late_worker_to [where w = 1], rule ep_take, simp add: late_defs; auto simp: late_defs)
  subgoal by (rule late_worker_to [where w = 1], rule ep_leave, simp add: late_defs; auto simp: late_defs)
  subgoal by (rule late_worker_to [where w = 1], rule ep_arrive, simp add: late_defs; auto simp: late_defs)
  subgoal by (rule late_worker_to [where w = 1], rule ep_return, simp add: late_defs; auto simp: late_defs)
  done

lemma late_launch:
  "late_step (duo (NotCreated, v) b g (0, q) (LaunchFor 0)) (duo (EpPreparing 0, v) b g (1, q + 1) (LaunchFor 0))"
  "late_step (duo a (NotCreated, v) g (1, q) (LaunchFor 1)) (duo a (EpPreparing 0, v) g (2, q + 1) (LaunchFor 1))"
  subgoal by (rule late_controller_to, rule ctl_launch, simp add: late_defs, simp_all add: late_defs)
  subgoal by (rule late_controller_to, rule ctl_launch, simp add: late_defs, simp_all add: late_defs)
  done

lemma late_announce:
  "late_step (duo a b (k, e) (1, 1) (LaunchFor 0)) (duo a b (k + 1, 10, 1, 0) (1, 1) (Waiting (Some 0)))"
  "late_step (duo a b (k, e) (2, 2) (LaunchFor 1)) (duo a b (k + 1, 20, 2, 0) (2, 2) (Waiting (Some 1)))"
  subgoal by (rule late_controller_to, rule ctl_announce, simp add: late_defs, simp_all add: late_defs)
  subgoal by (rule late_controller_to, rule ctl_announce, simp add: late_defs, simp_all add: late_defs)
  done

lemma late_drain: "late_step (duo a b (k, e) (2, 1) Draining) (duo a b (k + 1, - 1, 1, 0) (2, 1) (Waiting None))"
  by (rule late_controller_to, rule ctl_drain; simp add: late_defs)

lemma late_proceed: "t \<le> r \<Longrightarrow> late_step (duo a b (k, e, t, r) n (Waiting m)) (duo a b (k, e, t, r) n (JoiningAt m 0))"
  by (rule late_controller_to, rule ctl_proceed, simp add: late_defs, simp_all add: late_defs)

lemma late_join:
  "0 < z \<Longrightarrow> late_step (duo (st, i, False, j) b g (z, act) (JoiningAt (Some x) 0))
    (duo (st, i, False, j) b g (z, act) (JoiningAt (Some x) 1))"
  "late_step (duo a (Returned, i, True, False) g (2, act) (JoiningAt (Some x) 1))
    (duo a (Returned, i, True, True) g (2, act - 1) (JoiningAt (Some x) 2))"
  subgoal by (rule late_controller_to, rule ctl_join, simp add: late_defs, simp_all add: late_defs)
  subgoal by (rule late_controller_to, rule ctl_join, simp add: late_defs, simp_all add: late_defs)
  done

lemma late_go_on:
  "late_step (duo a b g (z, act) (JoiningAt (Some x) z)) (duo a b g (z, act) (LaunchFor (x + 1)))"
  by (rule late_controller_to, rule ctl_next, simp add: late_defs, simp_all add: late_defs)

lemma late_finish:
  "late_step (duo a b g n (LaunchFor 2)) (duo a b g n LaunchRest)"
  "late_step (duo a b g (2, act) LaunchRest) (duo a b g (2, act) Draining)"
  subgoal by (rule late_controller_to, rule ctl_epochs_done, simp add: late_defs, simp_all add: late_defs)
  subgoal by (rule late_controller_to, rule ctl_rest_done, simp add: late_defs, simp_all add: late_defs)
  done

text \<open>The run: the second thread is still in the first epoch when the second is announced, so it
  arrives twice, and the first thread returns behind the controller's back.\<close>

lemma late_run_first:
  "late_step\<^sup>*\<^sup>* (duo (NotCreated, 0, False, False) b (0, 0, 0, 0) (0, 0) (LaunchFor 0))
    (duo (AtBarrier, 1, False, False) b (1, 10, 1, 1) (1, 1) (LaunchFor 1))"
proof -
  note go = converse_rtranclp_into_rtranclp [where r = late_step]
  have worker: "late_step\<^sup>*\<^sup>* (duo (EpPreparing 0, 0, False, False) b (1, 10, 1, 0) (1, 1) (Waiting (Some 0)))
      (duo (AtBarrier, 1, False, False) b (1, 10, 1, 1) (1, 1) (Waiting (Some 0)))"
    by (rule go [OF first_thread(1)], rule go [OF first_thread(2)], rule go [OF first_thread(3)], simp,
      rule go [OF first_thread(4)], rule go [OF first_thread(5)]) simp_all
  have "late_step\<^sup>*\<^sup>* (duo (AtBarrier, 1, False, False) b (1, 10, 1, 1) (1, 1) (Waiting (Some 0)))
      (duo (AtBarrier, 1, False, False) b (1, 10, 1, 1) (1, 1) (LaunchFor 1))"
    by (rule go [OF late_proceed], simp, rule go [OF late_join(1)], simp, rule go [OF late_go_on]) simp
  from rtranclp_trans [OF worker this] have run: "late_step\<^sup>*\<^sup>*
      (duo (EpPreparing 0, 0, False, False) b (1, 10, 1, 0) (1, 1) (Waiting (Some 0)))
      (duo (AtBarrier, 1, False, False) b (1, 10, 1, 1) (1, 1) (LaunchFor 1))" .
  show ?thesis
    by (rule go [OF late_launch(1)]) (use go [OF late_announce(1) [of _ b 0]] run in simp)
qed

lemma late_run_second:
  "late_step\<^sup>*\<^sup>* (duo (AtBarrier, 1, False, False) (NotCreated, 0, False, False) (1, 10, 1, 1) (1, 1) (LaunchFor 1))
    (duo (AtBarrier, 1, False, False) (Returned, 2, True, True) (2, 20, 2, 2) (2, 1) (LaunchFor 2))"
proof -
  note go = converse_rtranclp_into_rtranclp [where r = late_step]
  have a: "late_step\<^sup>*\<^sup>* (duo (AtBarrier, 1, False, False) (NotCreated, 0, False, False) (1, 10, 1, 1) (1, 1) (LaunchFor 1))
      (duo (AtBarrier, 1, False, False) (Arriving 10, 1, False, False) (1, 10, 1, 1) (2, 2) (LaunchFor 1))"
    by (rule go [OF late_launch(2)], rule go [OF second_thread(1)], rule go [OF second_thread(2)],
      rule go [OF second_thread(3)], simp, rule go [OF second_thread(4)]) simp
  have b: "late_step\<^sup>*\<^sup>* (duo (AtBarrier, 1, False, False) (Arriving 10, 1, False, False) (1, 10, 1, 1) (2, 2) (LaunchFor 1))
      (duo (AtBarrier, 1, False, False) (Returned, 2, True, False) (2, 20, 2, 2) (2, 2) (Waiting (Some 1)))"
    by (rule go [OF late_announce(2)], rule go [OF second_thread(5)], simp, rule go [OF second_thread(3)], simp,
      rule go [OF second_thread(4)], rule go [OF second_thread(6)]) simp_all
  have c: "late_step\<^sup>*\<^sup>* (duo (AtBarrier, 1, False, False) (Returned, 2, True, False) (2, 20, 2, 2) (2, 2) (Waiting (Some 1)))
      (duo (AtBarrier, 1, False, False) (Returned, 2, True, True) (2, 20, 2, 2) (2, 1) (LaunchFor 2))"
    by (rule go [OF late_proceed], simp, rule go [OF late_join(1)], simp, rule go [OF late_join(2)],
      rule go [OF late_go_on]) simp
  show ?thesis by (rule rtranclp_trans [OF rtranclp_trans [OF a b] c])
qed

lemma late_run_last:
  "late_step\<^sup>*\<^sup>* (duo (AtBarrier, 1, False, False) b (2, 20, 2, 2) (2, 1) (LaunchFor 2))
    (duo (Returned, 2, True, False) b (3, - 1, 1, 0) (2, 1) (Waiting None))"
proof -
  note go = converse_rtranclp_into_rtranclp [where r = late_step]
  show ?thesis
    by (rule go [OF first_thread(3)], simp, rule go [OF first_thread(4)], rule go [OF first_thread(6)], simp,
      rule go [OF late_finish(1)], rule go [OF late_finish(2)], rule go [OF late_drain]) simp
qed

text \<open>Nobody can take a step any more.\<close>

lemma late_stuck:
  "\<not> late_step (duo (Returned, 2, True, False) (Returned, 2, True, True) (3, - 1, 1, 0) (2, 1) (Waiting None)) c'"
proof
  let ?c = "duo (Returned, 2, True, False) (Returned, 2, True, True) (3, - 1, 1, 0) (2, 1) (Waiting None)"
  have ws: "er_ws ?c w = Returned \<or> er_ws ?c w = NotCreated" for w
    by (simp add: duo_def)
  assume "late_step ?c c'"
  then show False
  proof cases
    case by_controller
    then show False by cases (simp_all add: duo_def)
  next
    case (by_worker w)
    then show False using ws [of w] by cases simp_all
  qed
qed


subsection \<open>A trace with that plan\<close>

lemma register_new:
  assumes "tids_ok p" and "tid \<notin> set (tids_of p)" and "length (g_ws p) < MAX_THREADS"
  shows "\<exists>rs. worker_register tid p =
      Returns (length (g_ws p), p\<lparr>g_ws := g_ws p @ [new_worker tid], g_tids := rs\<rparr>) \<and>
    tids_ok (p\<lparr>g_ws := g_ws p @ [new_worker tid], g_tids := rs\<rparr>)"
  using assms(1)
proof (cases rule: worker_register_spec [where tid = tid, case_names full found])
  case full
  then show ?thesis using assms(3) by simp
next
  case (found wi p')
  have notin: "tid_trace (g_ws p ! i) \<noteq> tid" if "i < length (g_ws p)" for i
    using assms(2) that by (auto simp: tids_of_def)
  then have "p' \<noteq> p"
    using found(2) by (auto simp: registered_def)
  then obtain rs where rs: "p' = p\<lparr>g_ws := g_ws p @ [new_worker tid], g_tids := rs\<rparr>" "tids_ok p'"
    using found(2) unfolding registered_def by blast
  have "wi = length (g_ws p)"
    using found(2) notin [of wi] unfolding registered_def rs(1) by (auto simp: nth_append less_Suc_eq)
  with found(1) rs show ?thesis by auto
qed

lemma register_old:
  assumes "tids_ok p" and "i < length (g_ws p)" and "tid_trace (g_ws p ! i) = tid" and "tid \<noteq> - 2"
    and "distinct (tids_of p)"
  shows "worker_register tid p = Returns (i, p)"
  using assms(1)
proof (cases rule: worker_register_spec [where tid = tid, case_names full found])
  case full
  then show ?thesis using assms(2-4) nth_mem by blast
next
  case (found wi p')
  have "tid \<in> tid_trace ` set (g_ws p)"
    using assms(2,3) nth_mem by blast
  then have p: "p' = p" "wi < length (g_ws p)" "tid_trace (g_ws p ! wi) = tid"
    using found(2) assms(4) by (auto simp: registered_def)
  have "wi = i"
    using assms(2,3,5) p(2,3) by (simp add: tids_of_def distinct_conv_nth) (metis)
  with found(1) p(1) show ?thesis by simp
qed

definition events_plan :: "omap \<Rightarrow> worker list \<Rightarrow> tid_row list \<Rightarrow> u64 \<times> u64 \<Rightarrow> u64 \<times> u64 \<Rightarrow> plan" where
  "events_plan m ws rs span n = \<lparr>g_ws = ws, g_tids = rs, p_live = m, p_next_slot = 0, g_min_ts = fst span,
    g_max_ts = snd span, p_counts = zero_counts\<lparr>g_thread_start_events := fst n, g_thread_end_events := snd n\<rparr>\<rparr>"

definition thread_event :: "u64 \<Rightarrow> u64 \<Rightarrow> u64 \<Rightarrow> rply_entry" where
  "thread_event ts func t = \<lparr>timestamp = ts, func_and_cpu = push_bit 32 func, thread_id = t,
    entry_address = 0, entry_result = 0, entry_size = 0\<rparr>"

lemma start_record:
  assumes "tids_ok (events_plan m ws rs (lo, hi) (a, b))" and "t \<notin> tid_trace ` set ws" and "length ws < MAX_THREADS"
    and "ts < - 1" and "hi \<le> ts" and "lo' = (if ts < lo then ts else lo)"
  shows "\<exists>rs'. plan_record opts (thread_event ts 101 t) (events_plan m ws rs (lo, hi) (a, b)) =
      Returns (events_plan m (ws @ [(new_worker t)\<lparr>has_start := True, start_ts := ts\<rparr>]) rs' (lo', ts) (a + 1, b)) \<and>
    tids_ok (events_plan m (ws @ [(new_worker t)\<lparr>has_start := True, start_ts := ts\<rparr>]) rs' (lo', ts) (a + 1, b))"
proof -
  define p where "p = events_plan m ws rs (lo', ts) (a, b)"
  have ok: "tids_ok p" "t \<notin> set (tids_of p)" "length (g_ws p) < MAX_THREADS"
    using assms(1-3) by (simp_all add: p_def events_plan_def tids_ok_def tids_of_def)
  obtain rs' where reg: "worker_register t p = Returns (length ws, p\<lparr>g_ws := ws @ [new_worker t], g_tids := rs'\<rparr>)"
    and ok': "tids_ok (p\<lparr>g_ws := ws @ [new_worker t], g_tids := rs'\<rparr>)"
    using register_new [OF ok] by (auto simp: p_def events_plan_def)
  have func: "record_func (thread_event ts 101 t) = REPLAY_THREAD_START_I"
    by (simp add: record_func_def thread_event_def REPLAY_THREAD_START_I_def)
  have "plan_record opts (thread_event ts 101 t) (events_plan m ws rs (lo, hi) (a, b)) =
      plan_thread_event (thread_event ts 101 t) REPLAY_THREAD_START_I p"
  proof -
    have "\<not> REPLAY_THREAD_START_I < REPLAY_THREAD_CREATE_I"
      by (simp add: REPLAY_THREAD_START_I_def REPLAY_THREAD_CREATE_I_def)
    then show ?thesis
      unfolding plan_record_def Let_def func using assms(5,6)
      by (auto simp: p_def events_plan_def thread_event_def not_less)
  qed
  moreover have "plan_thread_event (thread_event ts 101 t) REPLAY_THREAD_START_I p =
      Returns (events_plan m (ws @ [(new_worker t)\<lparr>has_start := True, start_ts := ts\<rparr>]) rs' (lo', ts) (a + 1, b))"
    using reg assms(4) unfolding plan_thread_event_def
    by (simp add: thread_event_def REPLAY_THREAD_START_I_def REPLAY_THREAD_CREATE_I_def on_worker_def
      new_worker_def) (simp add: p_def events_plan_def update_at_def thread_event_def)
  moreover have "tids_ok (events_plan m (ws @ [(new_worker t)\<lparr>has_start := True, start_ts := ts\<rparr>]) rs' (lo', ts) (a + 1, b))"
    using ok' by (rule tids_ok_cong [THEN iffD2, rotated 2]) (simp_all add: events_plan_def)
  ultimately show ?thesis by auto
qed


lemma end_record:
  assumes "tids_ok (events_plan m ws rs (lo, hi) (a, b))" and "i < length ws" and "tid_trace (ws ! i) = t"
    and "t \<noteq> - 2" and "distinct (map tid_trace ws)" and "lo \<le> ts" and "hi \<le> ts" and "end_ts (ws ! i) < ts"
  shows "plan_record opts (thread_event ts 102 t) (events_plan m ws rs (lo, hi) (a, b)) =
      Returns (events_plan m (ws[i := (ws ! i)\<lparr>has_end := True, end_ts := ts\<rparr>]) rs (lo, ts) (a, b + 1))"
    and "tids_ok (events_plan m (ws[i := (ws ! i)\<lparr>has_end := True, end_ts := ts\<rparr>]) rs (lo, ts) (a, b + 1))"
proof -
  define p where "p = events_plan m ws rs (lo, ts) (a, b)"
  have ok: "tids_ok p" "distinct (tids_of p)"
    using assms(1,5) by (simp_all add: p_def events_plan_def tids_ok_def tids_of_def)
  have reg: "worker_register t p = Returns (i, p)"
    by (rule register_old [OF ok(1) _ _ assms(4) ok(2)]) (use assms(2,3) in \<open>simp_all add: p_def events_plan_def\<close>)
  have func: "record_func (thread_event ts 102 t) = REPLAY_THREAD_END_I"
    by (simp add: record_func_def thread_event_def REPLAY_THREAD_END_I_def)
  have "plan_record opts (thread_event ts 102 t) (events_plan m ws rs (lo, hi) (a, b)) =
      plan_thread_event (thread_event ts 102 t) REPLAY_THREAD_END_I p"
  proof -
    have "\<not> REPLAY_THREAD_END_I < REPLAY_THREAD_CREATE_I"
      by (simp add: REPLAY_THREAD_END_I_def REPLAY_THREAD_CREATE_I_def)
    then show ?thesis
      unfolding plan_record_def Let_def func using assms(6,7)
      by (auto simp: p_def events_plan_def thread_event_def not_less)
  qed
  also have "\<dots> = Returns (events_plan m (ws[i := (ws ! i)\<lparr>has_end := True, end_ts := ts\<rparr>]) rs (lo, ts) (a, b + 1))"
    using reg assms(8) unfolding plan_thread_event_def
    by (simp add: thread_event_def REPLAY_THREAD_START_I_def REPLAY_THREAD_CREATE_I_def REPLAY_THREAD_END_I_def
      on_worker_def) (simp add: p_def events_plan_def update_at_def thread_event_def)
  finally show "plan_record opts (thread_event ts 102 t) (events_plan m ws rs (lo, hi) (a, b)) =
      Returns (events_plan m (ws[i := (ws ! i)\<lparr>has_end := True, end_ts := ts\<rparr>]) rs (lo, ts) (a, b + 1))" .
  show "tids_ok (events_plan m (ws[i := (ws ! i)\<lparr>has_end := True, end_ts := ts\<rparr>]) rs (lo, ts) (a, b + 1))"
    using assms(1) by (rule tids_ok_cong [THEN iffD2, rotated 2])
      (use assms(2) in \<open>simp_all add: events_plan_def map_update list_update_same_conv\<close>)
qed

definition late_records :: "rply_entry list" where
  "late_records = [thread_event 0 101 1, thread_event 12 101 2, thread_event 15 102 1, thread_event 15 102 2]"

lemma late_trace: "plan_trace sample_options 4096 late_records = Returns late_plan"
proof -
  obtain m where m: "omap_init 4096 = Some m" "wf_omap m" "ocount m = 0" "omap_lookup m = Map.empty"
    using omap_init_spec [of 4096] by auto
  have t: "plan_trace sample_options 4096 late_records =
      run_bind (plan_records sample_options late_records (initial_plan m)) (finish_plan sample_options)"
    by (simp add: plan_trace_def of_loop_def m(1))
  have "zero_counts\<lparr>g_thread_start_events := 0, g_thread_end_events := 0\<rparr> = zero_counts"
    by (simp add: zero_counts_def)
  then have i: "initial_plan m = events_plan m [] (replicate TIDCAP \<lparr>tk = - 1, tv = 0\<rparr>) (- 1, 0) (0, 0)"
    by (simp add: initial_plan_def events_plan_def)
  have ok: "tids_ok (events_plan m [] (replicate TIDCAP \<lparr>tk = - 1, tv = 0\<rparr>) (- 1, 0) (0, 0))"
    using initial_plan_inv [OF m(2-4)] unfolding i plan_inv_def by blast
  define w where "w = (\<lambda>t a. (new_worker t)\<lparr>has_start := True, start_ts := a\<rparr>)"
  have w: "(new_worker t)\<lparr>has_start := True, start_ts := a\<rparr> = w t a" for t a
    by (simp add: w_def)
  have max: "(0::u64) < - 1" "(12::u64) < - 1"
    by (simp_all add: word_less_nat_alt unsigned_minus_1_eq_mask mask_eq_exp_minus_1)
  note start = start_record [where opts = sample_options, unfolded w]
  obtain r1 where 1: "plan_record sample_options (thread_event 0 101 1) (initial_plan m) =
      Returns (events_plan m [w 1 0] r1 (0, 0) (1, 0))" "tids_ok (events_plan m [w 1 0] r1 (0, 0) (1, 0))"
    using start [OF ok, of 1 0 0] max unfolding i by (auto simp: MAX_THREADS_def)
  have t1: "tid_trace (w 1 0) = 1"
    by (simp add: w_def new_worker_def)
  obtain r2 where 2: "plan_record sample_options (thread_event 12 101 2) (events_plan m [w 1 0] r1 (0, 0) (1, 0)) =
      Returns (events_plan m [w 1 0, w 2 12] r2 (0, 12) (2, 0))"
      "tids_ok (events_plan m [w 1 0, w 2 12] r2 (0, 12) (2, 0))"
    using start [OF 1(2), of 2 12 0] max t1 by (auto simp: MAX_THREADS_def)
  have e: "(w t a)\<lparr>has_end := True, end_ts := b\<rparr> = idle_thread t a b" "end_ts (w t a) = 0" "tid_trace (w t a) = t" for t a b
    by (simp_all add: w_def idle_thread_def new_worker_def)
  have 3: "plan_record sample_options (thread_event 15 102 1) (events_plan m [w 1 0, w 2 12] r2 (0, 12) (2, 0)) =
      Returns (events_plan m [idle_thread 1 0 15, w 2 12] r2 (0, 15) (2, 1))"
      "tids_ok (events_plan m [idle_thread 1 0 15, w 2 12] r2 (0, 15) (2, 1))"
    using end_record [OF 2(2), of 0 1 15] by (simp_all add: e)
  have "tid_trace (idle_thread 1 0 15) = 1"
    by (simp add: idle_thread_def new_worker_def)
  then have 4: "plan_record sample_options (thread_event 15 102 2) (events_plan m [idle_thread 1 0 15, w 2 12] r2 (0, 15) (2, 1)) =
      Returns (events_plan m [idle_thread 1 0 15, idle_thread 2 12 15] r2 (0, 15) (2, 2))"
    using end_record(1) [OF 3(2), of 1 2 15] by (simp add: e)
  have f: "finalize_worker 0 15 (idle_thread t a 15) = idle_thread t a 15" if "a \<le> 15" "a \<noteq> - 1" for t a
    using that by (auto simp: finalize_worker_def idle_thread_def worker_has_ops_or_lifecycle_def Let_def new_worker_def)
  have "plan_trace sample_options 4096 late_records =
      finish_plan sample_options (events_plan m [idle_thread 1 0 15, idle_thread 2 12 15] r2 (0, 15) (2, 2))"
    unfolding t unfolding late_records_def by (simp add: 1(1) 2(1) 3(1) 4)
  also have "\<dots> = Returns late_plan"
    by (simp add: finish_plan_def events_plan_def sample_options_def finalize_worker_lifetimes_def f m(3)
      late_plan_def) (simp add: idle_thread_def new_worker_def inferred_threads_def)
  finally show ?thesis .
qed


subsection \<open>What holds of an epoch run\<close>

lemma plan_of_trace:
  assumes "length es < 2 ^ 32" and "unat (map_live * 2) \<le> 2 ^ 63" and "plan_trace opts map_live es = Returns rp"
  shows "\<exists>s. well_planned rp s"
  using plan_trace_spec [OF assms(1,2), of opts] assms(3) by (auto simp: plan_outcome_def)

lemma start_is_duo:
  "er_initial late_plan = duo (NotCreated, 0, False, False) (NotCreated, 0, False, False) (0, 0, 0, 0) (0, 0) (LaunchFor 0)"
  by (simp add: er_initial_def duo_def fun_eq_iff)

lemma late_run:
  "late_step\<^sup>*\<^sup>* (er_initial late_plan)
    (duo (Returned, 2, True, False) (Returned, 2, True, True) (3, - 1, 1, 0) (2, 1) (Waiting None))"
  unfolding start_is_duo
  by (rule rtranclp_trans [OF rtranclp_trans [OF late_run_first late_run_second] late_run_last])

text \<open>C31: In the epoch mode, too, no \<open>free\<close> and no \<open>realloc\<close> is given a pointer that is not live,
  whatever the interleaving of the workers with the controller and with each other, whatever
  the size of the epochs, and even where the barrier of the epochs goes wrong.\<close>

theorem epoch_frees_only_live:
  assumes "length es < 2 ^ 32" and "unat (map_live * 2) \<le> 2 ^ 63"
    and "plan_trace opts map_live es = Returns rp" and "(epoch_step opts eo ps rp)\<^sup>*\<^sup>* (er_initial rp) c"
  shows "\<not> sh_misuse (er_shared c)"
proof -
  obtain s where "well_planned rp s"
    using plan_of_trace [OF assms(1-3)] by blast
  then have "er_inv opts s c"
    by (rule er_reach [OF _ assms(4)])
  then show ?thesis
    unfolding er_inv_def replay_inv_def using own_invD(4) by metis
qed

lemma epoch_frees_only_live_witness:
  "\<not> sh_misuse (er_shared (duo (Returned, 2, True, False) (Returned, 2, True, True) (3, - 1, 1, 0) (2, 1) (Waiting None)))"
  by (rule epoch_frees_only_live [OF _ _ late_trace late_run]) (simp_all add: late_records_def)


text \<open>The epochs cover the trace: unless the last timestamp is within an epoch of \<open>2^64\<close>, there is at
  least one epoch, the ends of the epochs are one epoch size apart from the first timestamp on,
  without a wrap, and the last one lies behind the last timestamp; and the workers are created
  in the order of their start, those with the same start in that of their registration, none of
  those with something to do left out.\<close>

lemma epochs_cover_trace:
  assumes "rp_min_ts rp \<le> rp_max_ts rp" and "unat (rp_max_ts rp) + unat (epoch_size eo rp) < 2 ^ 64"
    and "ep < num_epochs eo rp"
  shows "rp_max_ts rp < epoch_end eo rp (num_epochs eo rp - 1) \<and>
    unat (epoch_end eo rp ep) = unat (rp_min_ts rp) + (unat ep + 1) * unat (epoch_size eo rp) \<and>
    sorted_wrt (\<lambda>i j. cmp_worker_start (rp_workers rp) i j < 0) (launch_order (rp_workers rp)) \<and>
    set (launch_order (rp_workers rp)) =
      {i. i < length (rp_workers rp) \<and> worker_has_ops_or_lifecycle (rp_workers rp ! i)}"
  using epochs_cover_spec [OF assms(1,2)] assms(3) launch_order_sorted by blast

lemma epochs_cover_example:
  "rp_max_ts late_plan < epoch_end ten_units late_plan 1 \<and> unat (epoch_end ten_units late_plan 1) = 20 \<and>
    set (launch_order (rp_workers late_plan)) = {0, 1}"
proof -
  have "rp_min_ts late_plan \<le> rp_max_ts late_plan" "epoch_size ten_units late_plan = 10"
    "rp_max_ts late_plan = 15" "rp_min_ts late_plan = 0"
    by (simp_all add: late_plan_def epoch_size_def ten_units_def)
  with epochs_cover_trace [of late_plan ten_units 1] show ?thesis by simp
qed

end
