(* ===== verification/SynthStack.thy ===== *)
theory SynthStack
  imports Prelude
begin

text \<open>
  The lists of object descriptors of \<open>synthetic_mstress_runtime.c\<close>: \<open>stack_push\<close> and \<open>stack_pop\<close>,
  which exchange a head word of a 32-bit tag and an index plus one, each access to shared memory a
  step of its own. A stack has one consumer (\<open>recycled_head\<close> the owner of the descriptors,
  \<open>inbound_head\<close> the target of the objects) and any number of producers.

  The lemmas show that the successful exchanges, in their order, are a run of a sequential
  stack: nothing is lost, popped twice or popped by two, also when the tag wraps. Therefore
  the theories that follow use \<open>stack_push\<close> and \<open>stack_pop\<close> as single steps.
\<close>

subsection \<open>Descriptors and heads\<close>

record object =
  pointer :: u64
  object_size :: u64
  owner :: u32
  next_plus_one :: u32

definition INDEX_NONE :: u32 where "INDEX_NONE = UINT32_MAX"

definition make_head :: "u32 \<Rightarrow> u32 \<Rightarrow> u64" where
  "make_head tag plus_one = push_bit 32 (ucast tag) OR ucast plus_one"

definition head_tag :: "u64 \<Rightarrow> u32" where
  "head_tag head = ucast (drop_bit 32 head)"

definition head_top :: "u64 \<Rightarrow> u32" where
  "head_top head = ucast head"

definition set_next :: "u32 \<Rightarrow> u32 \<Rightarrow> object list \<Rightarrow> object list" where
  "set_next index n objs = update_at (unat index) (\<lambda>ob. ob\<lparr>next_plus_one := n\<rparr>) objs"

definition get_next :: "object list \<Rightarrow> u32 \<Rightarrow> u32" where
  "get_next objs index = next_plus_one (objs ! unat index)"

definition pushed_head :: "u64 \<Rightarrow> u32 \<Rightarrow> u64" where
  "pushed_head old index = make_head (head_tag old + 1) (index + 1)"

definition popped_head :: "u64 \<Rightarrow> u32 \<Rightarrow> u64" where
  "popped_head old n = make_head (head_tag old + 1) n"

lemma head_of_make [simp]: "head_top (make_head tag n) = n" "head_tag (make_head tag n) = tag"
proof -
  show "head_top (make_head tag n) = n"
    by (rule bit_word_eqI) (simp add: head_top_def make_head_def bit_simps)
  show "head_tag (make_head tag n) = tag"
  proof (rule bit_word_eqI)
    fix k
    assume "k < LENGTH(32)"
    then show "bit (head_tag (make_head tag n)) k = bit tag k"
      by (auto simp: head_tag_def make_head_def bit_simps dest: bit_imp_le_length)
  qed
qed

lemma heads_top [simp]: "head_top (pushed_head old i) = i + 1" "head_top (popped_head old n) = n"
  by (simp_all add: pushed_head_def popped_head_def)

subsection \<open>The functions, as one step\<close>

definition stack_push :: "u32 \<Rightarrow> object list \<Rightarrow> u64 \<Rightarrow> object list \<times> u64" where
  "stack_push index objs head = (set_next index (head_top head) objs, pushed_head head index)"

definition stack_pop :: "object list \<Rightarrow> u64 \<Rightarrow> u32 \<times> u64" where
  "stack_pop objs head =
    (if head_top head = 0 then (INDEX_NONE, head)
     else let index = head_top head - 1 in (index, popped_head head (get_next objs index)))"

subsection \<open>The functions, access by access\<close>

text \<open>Where a thread is: outside; with the head it loaded; with its descriptor linked to that
  head; with the successor of the head it loaded.\<close>

datatype stack_pc = Outside | PushLoaded u32 u64 | PushLinked u32 u64 | PopLoaded u64 | PopRead u64 u32

datatype stack_event = Pushed u32 | Popped u32 | FoundEmpty

record stack_system =
  ss_objects :: "object list"
  ss_head :: u64
  ss_pc :: "nat \<Rightarrow> stack_pc"
  ss_holds :: "nat \<Rightarrow> u32 set"
  ss_events :: "stack_event list"

text \<open>Thread \<open>t\<close>, where \<open>c\<close> is the consumer. A weak exchange may fail although the head is
  unchanged, and gives the head it found.\<close>

inductive stack_step :: "nat \<Rightarrow> nat \<Rightarrow> stack_system \<Rightarrow> stack_system \<Rightarrow> bool" for c t where
  push_load: "ss_pc s t = Outside \<Longrightarrow> i \<in> ss_holds s t \<Longrightarrow>
    stack_step c t s (s\<lparr>ss_pc := (ss_pc s)(t := PushLoaded i (ss_head s))\<rparr>)"
| push_link: "ss_pc s t = PushLoaded i old \<Longrightarrow>
    stack_step c t s (s\<lparr>ss_objects := set_next i (head_top old) (ss_objects s),
      ss_pc := (ss_pc s)(t := PushLinked i old)\<rparr>)"
| push_exchange: "ss_pc s t = PushLinked i old \<Longrightarrow> ss_head s = old \<Longrightarrow>
    stack_step c t s (s\<lparr>ss_head := pushed_head old i, ss_pc := (ss_pc s)(t := Outside),
      ss_holds := (ss_holds s)(t := ss_holds s t - {i}), ss_events := ss_events s @ [Pushed i]\<rparr>)"
| push_retry: "ss_pc s t = PushLinked i old \<Longrightarrow>
    stack_step c t s (s\<lparr>ss_pc := (ss_pc s)(t := PushLoaded i (ss_head s))\<rparr>)"
| pop_load: "t = c \<Longrightarrow> ss_pc s t = Outside \<Longrightarrow> head_top (ss_head s) \<noteq> 0 \<Longrightarrow>
    stack_step c t s (s\<lparr>ss_pc := (ss_pc s)(t := PopLoaded (ss_head s))\<rparr>)"
| pop_empty: "t = c \<Longrightarrow> ss_pc s t = Outside \<Longrightarrow> head_top (ss_head s) = 0 \<Longrightarrow>
    stack_step c t s (s\<lparr>ss_events := ss_events s @ [FoundEmpty]\<rparr>)"
| pop_read: "ss_pc s t = PopLoaded old \<Longrightarrow>
    stack_step c t s (s\<lparr>ss_pc := (ss_pc s)(t := PopRead old (get_next (ss_objects s) (head_top old - 1)))\<rparr>)"
| pop_exchange: "ss_pc s t = PopRead old n \<Longrightarrow> ss_head s = old \<Longrightarrow>
    stack_step c t s (s\<lparr>ss_head := popped_head old n, ss_pc := (ss_pc s)(t := Outside),
      ss_holds := (ss_holds s)(t := insert (head_top old - 1) (ss_holds s t)),
      ss_events := ss_events s @ [Popped (head_top old - 1)]\<rparr>)"
| pop_retry: "ss_pc s t = PopRead old n \<Longrightarrow> head_top (ss_head s) \<noteq> 0 \<Longrightarrow>
    stack_step c t s (s\<lparr>ss_pc := (ss_pc s)(t := PopLoaded (ss_head s))\<rparr>)"
| pop_retry_empty: "ss_pc s t = PopRead old n \<Longrightarrow> head_top (ss_head s) = 0 \<Longrightarrow>
    stack_step c t s (s\<lparr>ss_pc := (ss_pc s)(t := Outside), ss_events := ss_events s @ [FoundEmpty]\<rparr>)"

definition stack_system_step :: "nat \<Rightarrow> stack_system \<Rightarrow> stack_system \<Rightarrow> bool" where
  "stack_system_step c s s' \<longleftrightarrow> (\<exists>t. stack_step c t s s')"

subsection \<open>The sequential stack\<close>

fun sequential :: "stack_event list \<Rightarrow> u32 list \<Rightarrow> u32 list option" where
  "sequential [] xs = Some xs"
| "sequential (Pushed x # es) xs = sequential es (x # xs)"
| "sequential (Popped x # es) xs = (case xs of [] \<Rightarrow> None | y # ys \<Rightarrow> if x = y then sequential es ys else None)"
| "sequential (FoundEmpty # es) xs = (if xs = [] then sequential es xs else None)"

lemma sequential_append:
  "sequential (es @ fs) xs = (case sequential es xs of None \<Rightarrow> None | Some ys \<Rightarrow> sequential fs ys)"
  by (induction es xs rule: sequential.induct) (auto split: list.splits)

text \<open>The descriptors from \<open>n\<close> on, linked through \<open>next_plus_one\<close>.\<close>

fun chain :: "object list \<Rightarrow> u32 \<Rightarrow> u32 list \<Rightarrow> bool" where
  "chain objs n [] \<longleftrightarrow> n = 0"
| "chain objs n (x # xs) \<longleftrightarrow> n = x + 1 \<and> n \<noteq> 0 \<and> unat x < length objs \<and> chain objs (get_next objs x) xs"

lemma get_set_next:
  "unat i < length objs \<Longrightarrow> get_next (set_next i n objs) x = (if x = i then n else get_next objs x)"
  by (cases "unat x < length objs") (simp_all add: get_next_def set_next_def update_at_def word_unat_eq_iff
    nth_list_update)

lemma length_set_next [simp]: "length (set_next i n objs) = length objs"
  by (simp add: set_next_def)

lemma chain_frame:
  assumes "unat i < length objs" and "i \<notin> set xs"
  shows "chain (set_next i m objs) n xs = chain objs n xs"
  using assms by (induction xs arbitrary: n) (auto simp: get_set_next)

lemma chain_bounds: "chain objs n xs \<Longrightarrow> x \<in> set xs \<Longrightarrow> unat x < length objs \<and> x + 1 \<noteq> 0"
  by (induction xs arbitrary: n) auto

lemma chain_unique: "chain objs n xs \<Longrightarrow> chain objs n ys \<Longrightarrow> xs = ys"
proof (induction xs arbitrary: n ys)
  case Nil
  then show ?case by (cases ys) auto
next
  case (Cons x xs)
  then show ?case by (cases ys) auto
qed


subsection \<open>The invariant\<close>

definition apart :: "stack_system \<Rightarrow> u32 list \<Rightarrow> bool" where
  "apart s xs \<longleftrightarrow> distinct xs \<and>
    (\<forall>t i. i \<in> ss_holds s t \<longrightarrow> i \<notin> set xs \<and> unat i < length (ss_objects s) \<and> i + 1 \<noteq> 0) \<and>
    (\<forall>t u i. i \<in> ss_holds s t \<longrightarrow> i \<in> ss_holds s u \<longrightarrow> t = u)"

fun pc_ok :: "nat \<Rightarrow> object list \<Rightarrow> u32 list \<Rightarrow> nat \<Rightarrow> u32 set \<Rightarrow> stack_pc \<Rightarrow> bool" where
  "pc_ok c objs xs t held Outside = True"
| "pc_ok c objs xs t held (PushLoaded i old) = (i \<in> held)"
| "pc_ok c objs xs t held (PushLinked i old) = (i \<in> held \<and> get_next objs i = head_top old)"
| "pc_ok c objs xs t held (PopLoaded old) = (t = c \<and> head_top old - 1 \<in> set xs)"
| "pc_ok c objs xs t held (PopRead old n) =
    (t = c \<and> head_top old - 1 \<in> set xs \<and> get_next objs (head_top old - 1) = n)"

definition stack_inv :: "nat \<Rightarrow> u32 list \<Rightarrow> stack_system \<Rightarrow> u32 list \<Rightarrow> bool" where
  "stack_inv c xs0 s xs \<longleftrightarrow> sequential (ss_events s) xs0 = Some xs \<and>
    chain (ss_objects s) (head_top (ss_head s)) xs \<and> apart s xs \<and>
    (\<forall>t. pc_ok c (ss_objects s) xs t (ss_holds s t) (ss_pc s t))"

lemma stack_invD:
  assumes "stack_inv c xs0 s xs"
  shows "sequential (ss_events s) xs0 = Some xs" and "chain (ss_objects s) (head_top (ss_head s)) xs"
    and "apart s xs" and "pc_ok c (ss_objects s) xs t (ss_holds s t) (ss_pc s t)"
  using assms by (simp_all add: stack_inv_def)

text \<open>What another thread relies on survives.\<close>

lemma pc_ok_link:
  assumes "pc_ok c objs xs u held pc" and "unat i < length objs" and "i \<notin> set xs" and "i \<notin> held"
  shows "pc_ok c (set_next i n objs) xs u held pc"
  using assms by (cases pc) (auto simp: get_set_next)

lemma pc_ok_push: "pc_ok c objs xs u held pc \<Longrightarrow> pc_ok c objs (i # xs) u held pc"
  by (cases pc) auto

lemma pc_ok_pop: "pc_ok c objs xs u held pc \<Longrightarrow> u \<noteq> c \<Longrightarrow> pc_ok c objs ys u held pc"
  by (cases pc) auto

lemma stack_step_inv:
  assumes inv: "stack_inv c xs0 s xs" and step: "stack_step c t s s'"
  shows "\<exists>ys. stack_inv c xs0 s' ys"
proof -
  note seq = stack_invD(1) [OF inv] and ch = stack_invD(2) [OF inv] and ap = stack_invD(3) [OF inv]
    and pc = stack_invD(4) [OF inv]
  have local: "\<exists>ys. stack_inv c xs0 (s\<lparr>ss_pc := (ss_pc s)(t := q)\<rparr>) ys"
    if "pc_ok c (ss_objects s) xs t (ss_holds s t) q" for q
    by (rule exI [of _ xs]) (use seq ch ap pc that in \<open>auto simp: stack_inv_def apart_def\<close>)
  have top: "head_top (ss_head s) - 1 \<in> set xs" if "head_top (ss_head s) \<noteq> 0"
    using ch that by (cases xs) auto
  have empty: "xs = []" if "head_top (ss_head s) = 0"
    using ch that by (cases xs) auto
  from step show ?thesis
  proof cases
    case (push_load i)
    then show ?thesis using local by simp
  next
    case (push_link i old)
    have i: "i \<in> ss_holds s t" "unat i < length (ss_objects s)" "i \<notin> set xs"
      using pc [of t] push_link(2) ap by (auto simp: apart_def)
    have "i \<notin> ss_holds s u" if "u \<noteq> t" for u
      using ap i(1) that unfolding apart_def by blast
    then have "pc_ok c (set_next i (head_top old) (ss_objects s)) xs u (ss_holds s u)
        (((ss_pc s)(t := PushLinked i old)) u)" for u
      using pc_ok_link [OF pc [of u] i(2,3)] i by (cases "u = t") (simp_all add: get_set_next)
    then show ?thesis
      unfolding push_link(1) using seq ch ap chain_frame [OF i(2,3)]
      by (intro exI [of _ xs]) (simp add: stack_inv_def apart_def)
  next
    case (push_exchange i old)
    have i: "i \<in> ss_holds s t" "unat i < length (ss_objects s)" "i \<notin> set xs" "i + 1 \<noteq> 0"
      "get_next (ss_objects s) i = head_top old"
      using pc [of t] push_exchange(2) ap by (auto simp: apart_def)
    have "chain (ss_objects s) (i + 1) (i # xs)"
      using ch i push_exchange(3) by simp
    moreover have "sequential (ss_events s @ [Pushed i]) xs0 = Some (i # xs)"
      using seq by (simp add: sequential_append)
    moreover have "apart s' (i # xs)"
      using ap i unfolding push_exchange(1) apart_def by auto
    moreover have "pc_ok c (ss_objects s) (i # xs) u (ss_holds s' u) (ss_pc s' u)" for u
      using pc_ok_push [OF pc [of u]] unfolding push_exchange(1) by auto
    ultimately show ?thesis
      by (intro exI [of _ "i # xs"]) (simp add: stack_inv_def push_exchange(1))
  next
    case (push_retry i old)
    then show ?thesis using local pc [of t] by simp
  next
    case pop_load
    then show ?thesis using local top by simp
  next
    case pop_empty
    then show ?thesis
      using seq ch ap pc empty unfolding pop_empty(1)
      by (intro exI [of _ xs]) (auto simp: stack_inv_def apart_def sequential_append)
  next
    case (pop_read old)
    then show ?thesis using local pc [of t] by simp
  next
    case (pop_exchange old n)
    have p: "t = c" "head_top old - 1 \<in> set xs" "get_next (ss_objects s) (head_top old - 1) = n"
      using pc [of t] pop_exchange(2) by auto
    obtain x ys where xs: "xs = x # ys"
      using p(2) by (cases xs) auto
    have x: "head_top old - 1 = x" "unat x < length (ss_objects s)" "x + 1 \<noteq> 0" "chain (ss_objects s) n ys"
      using ch p(3) unfolding xs pop_exchange(3) by auto
    have "sequential (ss_events s @ [Popped x]) xs0 = Some ys"
      using seq xs by (simp add: sequential_append)
    moreover have "apart s' ys"
      using ap x unfolding pop_exchange(1) apart_def xs by auto
    moreover have "pc_ok c (ss_objects s) ys u (ss_holds s' u) (ss_pc s' u)" for u
      using pc_ok_pop [OF pc [of u]] p(1) unfolding pop_exchange(1) by (cases "u = t") auto
    ultimately show ?thesis
      using x by (intro exI [of _ ys]) (simp add: stack_inv_def pop_exchange(1))
  next
    case (pop_retry old n)
    then show ?thesis using local top pc [of t] by simp
  next
    case (pop_retry_empty old n)
    then show ?thesis
      using seq ch ap pc empty unfolding pop_retry_empty(1)
      by (intro exI [of _ xs]) (auto simp: stack_inv_def apart_def sequential_append)
  qed
qed

lemma stack_reach:
  assumes "stack_inv c xs0 s0 xs0" and "(stack_system_step c)\<^sup>*\<^sup>* s0 s"
  shows "\<exists>xs. stack_inv c xs0 s xs"
  using assms(2)
proof (induction rule: rtranclp_induct)
  case base
  show ?case using assms(1) by blast
next
  case (step s s')
  then show ?case
    using stack_step_inv unfolding stack_system_step_def by blast
qed

definition at_rest :: "stack_system \<Rightarrow> u32 list \<Rightarrow> bool" where
  "at_rest s xs \<longleftrightarrow> ss_events s = [] \<and> (\<forall>t. ss_pc s t = Outside) \<and>
    chain (ss_objects s) (head_top (ss_head s)) xs \<and> apart s xs"

text \<open>C33: The descriptor stacks of the workload runtime are linearizable. In every interleaving of
  any number of producers with the one consumer, at every access to the head word and to the
  links, and with exchanges that fail for no reason, the successful exchanges and the pops
  that find the stack empty are, in their order, a run of a sequential stack, and the links from the head
  are the contents of that stack: no descriptor is lost, none is in the stack twice, and none
  is in the stack and in the hands of a thread at once.\<close>

theorem stack_linearizable:
  assumes "at_rest s0 xs0" and "(stack_system_step c)\<^sup>*\<^sup>* s0 s"
  shows "\<exists>xs. sequential (ss_events s) xs0 = Some xs \<and> chain (ss_objects s) (head_top (ss_head s)) xs \<and>
    apart s xs"
proof -
  have "stack_inv c xs0 s0 xs0"
    using assms(1) by (simp add: at_rest_def stack_inv_def)
  from stack_reach [OF this assms(2)] show ?thesis
    unfolding stack_inv_def by blast
qed

definition two_descriptors :: stack_system where
  "two_descriptors = \<lparr>ss_objects = replicate 2 \<lparr>pointer = 0, object_size = 0, owner = 0, next_plus_one = 0\<rparr>,
    ss_head = pushed_head 0 1, ss_pc = (\<lambda>_. Outside), ss_holds = (\<lambda>t. if t = 1 then {0} else {}),
    ss_events = []\<rparr>"

lemma stack_linearizable_witness:
  "\<exists>s. (stack_system_step 0)\<^sup>*\<^sup>* two_descriptors s \<and> ss_events s = [Popped 1] \<and>
    (\<exists>xs. sequential [Popped 1] [1] = Some xs \<and> chain (ss_objects s) (head_top (ss_head s)) xs \<and> apart s xs)"
proof -
  let ?h = "pushed_head 0 1"
  let ?n = "get_next (ss_objects two_descriptors) (head_top ?h - 1)"
  let ?s1 = "two_descriptors\<lparr>ss_pc := (ss_pc two_descriptors)(0 := PopLoaded ?h)\<rparr>"
  let ?s2 = "?s1\<lparr>ss_pc := (ss_pc ?s1)(0 := PopRead ?h ?n)\<rparr>"
  let ?s3 = "?s2\<lparr>ss_head := popped_head ?h ?n, ss_pc := (ss_pc ?s2)(0 := Outside),
      ss_holds := (ss_holds ?s2)(0 := insert (head_top ?h - 1) (ss_holds ?s2 0)),
      ss_events := ss_events ?s2 @ [Popped (head_top ?h - 1)]\<rparr>"
  have "stack_step 0 0 two_descriptors ?s1"
    using pop_load [of 0 0 two_descriptors] by (simp add: two_descriptors_def)
  moreover have "stack_step 0 0 ?s1 ?s2"
    using pop_read [of ?s1 0 ?h 0] by simp
  moreover have "stack_step 0 0 ?s2 ?s3"
    using pop_exchange [of ?s2 0 ?h ?n 0] by (simp add: two_descriptors_def)
  ultimately have "stack_system_step 0 two_descriptors ?s1" "stack_system_step 0 ?s1 ?s2"
    "stack_system_step 0 ?s2 ?s3"
    unfolding stack_system_step_def by blast+
  then have run: "(stack_system_step 0)\<^sup>*\<^sup>* two_descriptors ?s3"
    by (rule converse_rtranclp_into_rtranclp [OF _ converse_rtranclp_into_rtranclp [OF _ r_into_rtranclp]])
  have rest: "at_rest two_descriptors [1]"
    by (simp add: at_rest_def two_descriptors_def apart_def get_next_def numeral_2_eq_2)
  have ev: "ss_events ?s3 = [Popped 1]"
    by (simp add: two_descriptors_def)
  from run ev stack_linearizable [OF rest run, unfolded ev] show ?thesis by blast
qed

end
