(* ===== verification/SynthWorkload.thy ===== *)
theory SynthWorkload
  imports SynthStack HeapCalls
begin

text \<open>
  The workload runtime \<open>synthetic_mstress_runtime.c\<close>: workers that make the calls a profile asks
  for, on objects they keep in a private array (\<open>local\<close>) or hand to each other through the stacks
  of \<open>SynthStack\<close>. A call of a worker (an allocation, a free, the publication that belongs to it)
  is one step; between the steps the workers interleave.

  The allocator is the parameter \<open>call_heap\<close> of the environment, \<open>live_of\<close> the set of the pointers
  that are live in one of its states; \<open>s_misuse\<close> records a call with a pointer that is not live.

  Not in the model: the contents of the blocks (\<open>touch_allocated\<close>, \<open>touch_before_free\<close>; the random number
  drawn for them is), the times, the options and the printed summary.
\<close>

subsection \<open>The profile\<close>

definition FUNCTION_COUNT :: nat where [simp]: "FUNCTION_COUNT = 10"
definition FUNC_MALLOC :: nat where [simp]: "FUNC_MALLOC = 0"
definition FUNC_FREE :: nat where [simp]: "FUNC_FREE = 1"
definition FUNC_CALLOC :: nat where [simp]: "FUNC_CALLOC = 2"
definition FUNC_REALLOC :: nat where [simp]: "FUNC_REALLOC = 3"
definition FUNC_FREE_SIZED :: nat where [simp]: "FUNC_FREE_SIZED = 4"
definition FUNC_POSIX_MEMALIGN :: nat where [simp]: "FUNC_POSIX_MEMALIGN = 5"
definition FUNC_ALIGNED_ALLOC :: nat where [simp]: "FUNC_ALIGNED_ALLOC = 6"
definition FUNC_VALLOC :: nat where [simp]: "FUNC_VALLOC = 7"
definition FUNC_MEMALIGN :: nat where [simp]: "FUNC_MEMALIGN = 8"
definition FUNC_PVALLOC :: nat where [simp]: "FUNC_PVALLOC = 9"

record profile_wave =
  first_phase :: u32
  wave_phase_count :: u32
  wave_operations :: u64

record profile_thread =
  pt_trace_tid :: u64
  seed :: u64
  capacity :: u32
  pt_recorded_cpu :: u32
  pt_total_ops :: u64
  model_first :: u64

record sample_range =
  sr_first :: u32
  sr_count :: u32

record profile_phase =
  pp_total_ops :: u64
  sizes :: "sample_range list"

record thread_phase_model =
  model_counts :: "u64 list"
  remote_free :: u64
  remote_publish :: u64
  realloc_null :: u64
  route_first :: u64
  route_count :: u32

record remote_route =
  target_thread :: u32
  route_share :: u64

record profile =
  waves :: "profile_wave list"
  profile_threads :: "profile_thread list"
  phases :: "profile_phase list"
  models :: "thread_phase_model list"
  routes :: "remote_route list"
  samples :: "u64 list"

subsection \<open>Workers\<close>

text \<open>\<open>local\<close> is the first \<open>local_count\<close> elements of the array of that name.\<close>

record sworker =
  windex :: u32
  object_first :: u32
  w_profile :: profile_thread
  w_random :: u64
  local_objects :: "u32 list"
  next_descriptor_offset :: u32
  local_free_plus_one :: u32
  recycled_head :: u64
  inbound_head :: u64
  function_counts :: "u64 list"
  remote_frees :: u64
  deferred_remote_frees :: u64
  local_free_underflows :: u64
  allocation_failures :: u64

record 'h synth =
  g_objects :: "object list"
  g_workers :: "sworker list"
  g_failed :: bool
  s_heap :: 'h
  s_misuse :: bool

record 'h environment =
  call_heap :: "rt_call \<Rightarrow> 'h \<Rightarrow> u64 \<times> 'h"
  live_of :: "'h \<Rightarrow> u64 set"
  has_free_sized :: bool
  env_profile :: profile

definition worker_at :: "'h synth \<Rightarrow> nat \<Rightarrow> sworker" where
  "worker_at st w = g_workers st ! w"

definition on_worker :: "nat \<Rightarrow> (sworker \<Rightarrow> sworker) \<Rightarrow> 'h synth \<Rightarrow> 'h synth" where
  "on_worker w f st = st\<lparr>g_workers := update_at w f (g_workers st)\<rparr>"

definition object_at :: "'h synth \<Rightarrow> u32 \<Rightarrow> object" where
  "object_at st i = g_objects st ! unat i"

definition on_object :: "u32 \<Rightarrow> (object \<Rightarrow> object) \<Rightarrow> 'h synth \<Rightarrow> 'h synth" where
  "on_object i f st = st\<lparr>g_objects := update_at (unat i) f (g_objects st)\<rparr>"

definition fail_run :: "'h synth \<Rightarrow> 'h synth" where
  "fail_run st = st\<lparr>g_failed := True\<rparr>"

definition heap_call :: "'h environment \<Rightarrow> rt_call \<Rightarrow> 'h synth \<Rightarrow> u64 \<times> 'h synth" where
  "heap_call env c st = (fst (call_heap env c (s_heap st)),
    st\<lparr>s_heap := snd (call_heap env c (s_heap st)),
      s_misuse := s_misuse st \<or> misused c (live_of env (s_heap st))\<rparr>)"

definition random_next :: "nat \<Rightarrow> 'h synth \<Rightarrow> u64 \<times> 'h synth" where
  "random_next w st =
    (let seed = w_random (worker_at st w) + 0x9e3779b97f4a7c15;
         x = (seed XOR drop_bit 30 seed) * 0xbf58476d1ce4e5b9;
         y = (x XOR drop_bit 27 x) * 0x94d049bb133111eb
     in (y XOR drop_bit 31 y, on_worker w (\<lambda>k. k\<lparr>w_random := seed\<rparr>) st))"

definition count_call :: "nat \<Rightarrow> nat \<Rightarrow> 'h synth \<Rightarrow> 'h synth" where
  "count_call w function = on_worker w (\<lambda>k. k\<lparr>function_counts := update_at function (\<lambda>n. n + 1) (function_counts k)\<rparr>)"

definition pop_recycled :: "nat \<Rightarrow> 'h synth \<Rightarrow> u32 \<times> 'h synth" where
  "pop_recycled w st = (let (i, head) = stack_pop (g_objects st) (recycled_head (worker_at st w))
     in (i, on_worker w (\<lambda>k. k\<lparr>recycled_head := head\<rparr>) st))"

definition pop_inbound :: "nat \<Rightarrow> 'h synth \<Rightarrow> u32 \<times> 'h synth" where
  "pop_inbound w st = (let (i, head) = stack_pop (g_objects st) (inbound_head (worker_at st w))
     in (i, on_worker w (\<lambda>k. k\<lparr>inbound_head := head\<rparr>) st))"

definition push_recycled :: "nat \<Rightarrow> u32 \<Rightarrow> 'h synth \<Rightarrow> 'h synth" where
  "push_recycled w i st = (let (objs, head) = stack_push i (g_objects st) (recycled_head (worker_at st w))
     in on_worker w (\<lambda>k. k\<lparr>recycled_head := head\<rparr>) (st\<lparr>g_objects := objs\<rparr>))"

definition publish_object :: "u32 \<Rightarrow> u32 \<Rightarrow> 'h synth \<Rightarrow> 'h synth" where
  "publish_object target i st =
    (let (objs, head) = stack_push i (g_objects st) (inbound_head (worker_at st (unat target)))
     in on_worker (unat target) (\<lambda>k. k\<lparr>inbound_head := head\<rparr>) (st\<lparr>g_objects := objs\<rparr>))"

subsection \<open>Objects\<close>

definition run_new_allocation :: "nat \<Rightarrow> u64 \<Rightarrow> rt_call option" where
  "run_new_allocation function sz =
    (if function = FUNC_MALLOC then Some (Malloc sz)
     else if function = FUNC_CALLOC then Some (Calloc 1 sz)
     else if function = FUNC_POSIX_MEMALIGN then Some (Posix_memalign 64 sz)
     else if function = FUNC_ALIGNED_ALLOC then
       (if SIZE_MAX - 63 < sz then None else Some (Aligned_alloc 64 ((sz + 63) AND NOT 63)))
     else if function = FUNC_VALLOC then Some (Valloc sz)
     else if function = FUNC_MEMALIGN then Some (Memalign 64 sz)
     else if function = FUNC_PVALLOC then Some (Pvalloc sz)
     else Some (Malloc sz))"

definition recycle_object :: "nat \<Rightarrow> u32 \<Rightarrow> 'h synth \<Rightarrow> 'h synth" where
  "recycle_object freer i st =
    (let own = owner (object_at st i);
         st = on_object i (\<lambda>ob. ob\<lparr>pointer := 0, object_size := 0\<rparr>) st
     in if own = windex (worker_at st freer)
        then on_worker freer (\<lambda>k. k\<lparr>local_free_plus_one := i + 1\<rparr>)
               (on_object i (\<lambda>ob. ob\<lparr>next_plus_one := local_free_plus_one (worker_at st freer)\<rparr>) st)
        else push_recycled (unat own) i st)"

definition run_free_call :: "'h environment \<Rightarrow> nat \<Rightarrow> nat \<Rightarrow> u32 \<Rightarrow> bool \<Rightarrow> 'h synth \<Rightarrow> 'h synth" where
  "run_free_call env w function i remote st =
    (let ob = object_at st i;
         st = snd (heap_call env (if function = FUNC_FREE_SIZED \<and> has_free_sized env
                then Free_sized (pointer ob) (object_size ob) else Free (pointer ob)) st);
         st = count_call w function st;
         st = (if remote \<and> owner ob \<noteq> windex (worker_at st w)
               then on_worker w (\<lambda>k. k\<lparr>remote_frees := remote_frees k + 1\<rparr>) st else st)
     in recycle_object w i st)"

text \<open>\<open>xs\<close> without its element at \<open>position\<close>, the last one moved there.\<close>

definition swap_remove :: "nat \<Rightarrow> u32 list \<Rightarrow> u32 list" where
  "swap_remove position xs = butlast (xs[position := last xs])"

definition local_remove :: "nat \<Rightarrow> nat \<Rightarrow> 'h synth \<Rightarrow> u32 \<times> 'h synth" where
  "local_remove w position st =
    (local_objects (worker_at st w) ! position,
     on_worker w (\<lambda>k. k\<lparr>local_objects := swap_remove position (local_objects k)\<rparr>) st)"

definition sample_size :: "'h environment \<Rightarrow> nat \<Rightarrow> u32 \<Rightarrow> nat \<Rightarrow> 'h synth \<Rightarrow> u64 \<times> 'h synth" where
  "sample_size env w phase function st =
    (let range = sizes (phases (env_profile env) ! unat phase) ! function
     in if sr_count range = 0 then (1, st)
        else let (v, st) = random_next w st
             in (samples (env_profile env) ! unat (ucast (sr_first range) + v mod ucast (sr_count range)), st))"

fun route_from :: "remote_route list \<Rightarrow> u64 \<Rightarrow> u32" where
  "route_from [] ordinal = INDEX_NONE"
| "route_from (r # rs) ordinal =
    (if ordinal < route_share r then target_thread r else route_from rs (ordinal - route_share r))"

definition route_target :: "'h environment \<Rightarrow> thread_phase_model \<Rightarrow> u64 \<Rightarrow> u32" where
  "route_target env model ordinal =
    route_from (map (\<lambda>k. routes (env_profile env) ! unat (route_first model + of_nat k))
      [0..<unat (route_count model)]) ordinal"

definition is_allocation_function :: "nat \<Rightarrow> bool" where
  "is_allocation_function function \<longleftrightarrow> function \<noteq> FUNC_FREE \<and> function \<noteq> FUNC_FREE_SIZED"

definition allocation_call_count :: "thread_phase_model \<Rightarrow> u64" where
  "allocation_call_count model =
    (\<Sum>function\<leftarrow>filter is_allocation_function [0..<FUNCTION_COUNT]. model_counts model ! function)"

text \<open>The loop of \<open>choose_function\<close> over the functions.\<close>

fun choose_from :: "nat list \<Rightarrow> u64 \<Rightarrow> u64 list \<Rightarrow> nat \<times> u64 list" where
  "choose_from [] selected remaining = (FUNC_MALLOC, remaining)"
| "choose_from (f # fs) selected remaining =
    (if selected < remaining ! f then (f, update_at f (\<lambda>n. n - 1) remaining)
     else choose_from fs (selected - remaining ! f) remaining)"

definition choose_function :: "nat \<Rightarrow> u64 list \<Rightarrow> u64 \<Rightarrow> 'h synth \<Rightarrow> (nat \<times> u64 list) \<times> 'h synth" where
  "choose_function w remaining left st =
    (let (v, st) = random_next w st in (choose_from [0..<FUNCTION_COUNT] (v mod left) remaining, st))"

definition take_descriptor :: "nat \<Rightarrow> 'h synth \<Rightarrow> u32 \<times> 'h synth" where
  "take_descriptor w st =
    (let free = local_free_plus_one (worker_at st w) in
     if free \<noteq> 0 then
       (free - 1, on_worker w (\<lambda>k. k\<lparr>local_free_plus_one := get_next (g_objects st) (free - 1)\<rparr>) st)
     else let (i, st) = pop_recycled w st in
       if i \<noteq> INDEX_NONE then (i, st)
       else if next_descriptor_offset (worker_at st w) < capacity (w_profile (worker_at st w)) then
         (object_first (worker_at st w) + next_descriptor_offset (worker_at st w),
          on_worker w (\<lambda>k. k\<lparr>next_descriptor_offset := next_descriptor_offset k + 1\<rparr>) st)
       else (INDEX_NONE, fail_run st))"

subsection \<open>Calls of a worker\<close>

text \<open>A \<open>realloc\<close> of one of the worker's objects.\<close>

definition run_realloc_local :: "'h environment \<Rightarrow> nat \<Rightarrow> u64 \<Rightarrow> bool \<Rightarrow> u32 \<Rightarrow> 'h synth \<Rightarrow> 'h synth" where
  "run_realloc_local env w sz publish target st =
    (let (v, st) = random_next w st;
         position = unat (v mod of_nat (length (local_objects (worker_at st w))));
         i = local_objects (worker_at st w) ! position;
         (result, st) = heap_call env (Realloc (pointer (object_at st i)) sz) st;
         st = count_call w FUNC_REALLOC st;
         st = (if result = 0 \<and> sz \<noteq> 0
               then on_worker w (\<lambda>k. k\<lparr>allocation_failures := allocation_failures k + 1\<rparr>) st
               else snd (random_next w (on_object i (\<lambda>ob. ob\<lparr>pointer := result, object_size := sz\<rparr>) st)))
     in if publish then publish_object target i (snd (local_remove w position st))
        else if result = 0 \<and> sz = 0 then recycle_object w i (snd (local_remove w position st))
        else st)"

text \<open>An allocation for a new object; \<open>None\<close> stands for the NULL of \<open>run_new_allocation\<close> without a call.\<close>

definition run_new_object :: "'h environment \<Rightarrow> nat \<Rightarrow> nat \<Rightarrow> u64 \<Rightarrow> bool \<Rightarrow> u32 \<Rightarrow> 'h synth \<Rightarrow> 'h synth" where
  "run_new_object env w function sz publish target st =
    (let (i, st) = take_descriptor w st in
     if i = INDEX_NONE then st
     else
       let call = (if function = FUNC_REALLOC then Some (Realloc 0 sz) else run_new_allocation function sz);
           (result, st) = (case call of None \<Rightarrow> (0, st) | Some c \<Rightarrow> heap_call env c st);
           st = count_call w function st;
           st = (if result = 0 \<and> sz \<noteq> 0
                 then on_worker w (\<lambda>k. k\<lparr>allocation_failures := allocation_failures k + 1\<rparr>) st else st);
           st = on_object i (\<lambda>ob. ob\<lparr>pointer := result, object_size := sz,
                  owner := windex (worker_at st w)\<rparr>) st;
           st = snd (random_next w st)
       in if publish then publish_object target i st
          else on_worker w (\<lambda>k. k\<lparr>local_objects := local_objects k @ [i]\<rparr>) st)"

definition run_alloc_call :: "'h environment \<Rightarrow> nat \<Rightarrow> u32 \<Rightarrow> nat \<Rightarrow> bool \<Rightarrow> u32 \<Rightarrow> bool \<Rightarrow> 'h synth \<Rightarrow> 'h synth" where
  "run_alloc_call env w phase function publish target force_realloc_null st =
    (let (sz, st) = sample_size env w phase function st
     in if function = FUNC_REALLOC \<and> \<not> force_realloc_null \<and> local_objects (worker_at st w) \<noteq> []
        then run_realloc_local env w sz publish target st
        else run_new_object env w function sz publish target st)"

definition run_local_free :: "'h environment \<Rightarrow> nat \<Rightarrow> nat \<Rightarrow> u64 list \<Rightarrow> 'h synth \<Rightarrow> u64 list \<times> 'h synth" where
  "run_local_free env w function local_debt st =
    (if local_objects (worker_at st w) = [] then (update_at function (\<lambda>n. n + 1) local_debt, st)
     else
       let (v, st) = random_next w st;
           position = unat (v mod of_nat (length (local_objects (worker_at st w))));
           (i, st) = local_remove w position st
       in (local_debt, run_free_call env w function i False st))"

definition debt_function :: "u64 list \<Rightarrow> nat option" where
  "debt_function debt =
    (if debt ! FUNC_FREE \<noteq> 0 then Some FUNC_FREE
     else if debt ! FUNC_FREE_SIZED \<noteq> 0 then Some FUNC_FREE_SIZED else None)"

text \<open>The loop of \<open>drain_local_debt\<close>: each turn takes an object from the array, so the fuel is the
  number of objects.\<close>

primrec drain_local_steps :: "'h environment \<Rightarrow> nat \<Rightarrow> nat \<Rightarrow> u64 list \<Rightarrow> 'h synth \<Rightarrow> u64 list \<times> 'h synth" where
  "drain_local_steps env w 0 debt st = (debt, st)"
| "drain_local_steps env w (Suc fuel) debt st =
    (if local_objects (worker_at st w) = [] then (debt, st)
     else case debt_function debt of None \<Rightarrow> (debt, st)
       | Some function \<Rightarrow>
           let (debt, st) = run_local_free env w function (update_at function (\<lambda>n. n - 1) debt) st
           in drain_local_steps env w fuel debt st)"

definition drain_local_debt :: "'h environment \<Rightarrow> nat \<Rightarrow> u64 list \<Rightarrow> 'h synth \<Rightarrow> u64 list \<times> 'h synth" where
  "drain_local_debt env w debt st = drain_local_steps env w (length (local_objects (worker_at st w))) debt st"

definition drain_one_remote :: "'h environment \<Rightarrow> nat \<Rightarrow> u64 list \<Rightarrow> 'h synth \<Rightarrow> bool \<times> u64 list \<times> 'h synth" where
  "drain_one_remote env w debt st =
    (case debt_function debt of None \<Rightarrow> (False, debt, st)
     | Some function \<Rightarrow>
         let (i, st) = pop_inbound w st
         in if i = INDEX_NONE then (False, debt, st)
            else (True, update_at function (\<lambda>n. n - 1) debt, run_free_call env w function i True st))"

definition run_remote_free :: "'h environment \<Rightarrow> nat \<Rightarrow> nat \<Rightarrow> u64 list \<Rightarrow> 'h synth \<Rightarrow> u64 list \<times> 'h synth" where
  "run_remote_free env w function debt st =
    (let (i, st) = pop_inbound w st
     in if i = INDEX_NONE then
          (update_at function (\<lambda>n. n + 1) debt,
           on_worker w (\<lambda>k. k\<lparr>deferred_remote_frees := deferred_remote_frees k + 1\<rparr>) st)
        else (debt, run_free_call env w function i True st))"

definition free_null :: "'h environment \<Rightarrow> nat \<Rightarrow> nat \<Rightarrow> 'h synth \<Rightarrow> 'h synth" where
  "free_null env w function st =
    on_worker w (\<lambda>k. k\<lparr>local_free_underflows := local_free_underflows k + 1\<rparr>)
      (count_call w function (snd (heap_call env (Free 0) st)))"

definition pay_local_debt :: "'h environment \<Rightarrow> nat \<Rightarrow> u64 list \<Rightarrow> 'h synth \<Rightarrow> u64 list \<times> 'h synth" where
  "pay_local_debt env w debt st =
    (debt[FUNC_FREE := 0, FUNC_FREE_SIZED := 0],
     (free_null env w FUNC_FREE_SIZED ^^ unat (debt ! FUNC_FREE_SIZED))
       ((free_null env w FUNC_FREE ^^ unat (debt ! FUNC_FREE)) st))"

subsection \<open>The loop of a worker\<close>

record phase_run =
  remaining :: "u64 list"
  calls_left :: u64
  alloc_total :: u64
  free_total :: u64
  publish_accumulator :: u64
  remote_accumulator :: u64
  realloc_null_accumulator :: u64
  publish_ordinal :: u64

definition begin_phase :: "thread_phase_model \<Rightarrow> phase_run" where
  "begin_phase model =
    \<lparr>remaining = model_counts model,
     calls_left = (\<Sum>function\<leftarrow>[0..<FUNCTION_COUNT]. model_counts model ! function),
     alloc_total = allocation_call_count model,
     free_total = model_counts model ! FUNC_FREE + model_counts model ! FUNC_FREE_SIZED,
     publish_accumulator = 0, remote_accumulator = 0, realloc_null_accumulator = 0, publish_ordinal = 0\<rparr>"

text \<open>Whether the next allocation is published, and for whom.\<close>

definition publish_choice :: "'h environment \<Rightarrow> thread_phase_model \<Rightarrow> phase_run \<Rightarrow> u32 option \<times> phase_run" where
  "publish_choice env model pr =
    (if alloc_total pr \<noteq> 0 \<and> remote_publish model \<noteq> 0 then
       let acc = publish_accumulator pr + remote_publish model
       in if alloc_total pr \<le> acc then
            (Some (route_target env model (publish_ordinal pr)),
             pr\<lparr>publish_accumulator := acc - alloc_total pr, publish_ordinal := publish_ordinal pr + 1\<rparr>)
          else (None, pr\<lparr>publish_accumulator := acc\<rparr>)
     else (None, pr))"

definition realloc_null_choice :: "thread_phase_model \<Rightarrow> nat \<Rightarrow> phase_run \<Rightarrow> bool \<times> phase_run" where
  "realloc_null_choice model function pr =
    (if function = FUNC_REALLOC \<and> realloc_null model \<noteq> 0 then
       let acc = realloc_null_accumulator pr + realloc_null model
       in if model_counts model ! FUNC_REALLOC \<le> acc
          then (True, pr\<lparr>realloc_null_accumulator := acc - model_counts model ! FUNC_REALLOC\<rparr>)
          else (False, pr\<lparr>realloc_null_accumulator := acc\<rparr>)
     else (False, pr))"

definition remote_choice :: "thread_phase_model \<Rightarrow> phase_run \<Rightarrow> bool \<times> phase_run" where
  "remote_choice model pr =
    (if free_total pr \<noteq> 0 \<and> remote_free model \<noteq> 0 then
       let acc = remote_accumulator pr + remote_free model
       in if free_total pr \<le> acc then (True, pr\<lparr>remote_accumulator := acc - free_total pr\<rparr>)
          else (False, pr\<lparr>remote_accumulator := acc\<rparr>)
     else (False, pr))"

text \<open>A worker's variables: the phase it is in, the debts.\<close>

record worker_run =
  wr_phase :: u32
  wr_run :: phase_run
  local_debt :: "u64 list"
  remote_debt :: "u64 list"

definition worker_model :: "'h environment \<Rightarrow> 'h synth \<Rightarrow> nat \<Rightarrow> u32 \<Rightarrow> thread_phase_model" where
  "worker_model env st w phase =
    models (env_profile env) ! unat (model_first (w_profile (worker_at st w)) + ucast phase)"

text \<open>The loop body up to the draining of the remote debt; the first component is false for the \<open>break\<close>.\<close>

definition generate_call :: "'h environment \<Rightarrow> nat \<Rightarrow> worker_run \<Rightarrow> 'h synth \<Rightarrow> bool \<times> worker_run \<times> 'h synth" where
  "generate_call env w wr st =
    (let model = worker_model env st w (wr_phase wr);
         ((function, rest), st) = choose_function w (remaining (wr_run wr)) (calls_left (wr_run wr)) st;
         pr = (wr_run wr)\<lparr>remaining := rest, calls_left := calls_left (wr_run wr) - 1\<rparr>
     in if is_allocation_function function then
          let (target, pr) = publish_choice env model pr in
          if (case target of None \<Rightarrow> False | Some t \<Rightarrow> length (profile_threads (env_profile env)) \<le> unat t)
          then (False, wr\<lparr>wr_run := pr\<rparr>, fail_run st)
          else
            let (force, pr) = realloc_null_choice model function pr;
                st = run_alloc_call env w (wr_phase wr) function (target \<noteq> None)
                  (case target of None \<Rightarrow> INDEX_NONE | Some t \<Rightarrow> t) force st;
                (debt, st) = drain_local_debt env w (local_debt wr) st
            in (True, wr\<lparr>wr_run := pr, local_debt := debt\<rparr>, st)
        else
          let (remote, pr) = remote_choice model pr in
          if remote then
            let (debt, st) = run_remote_free env w function (remote_debt wr) st
            in (True, wr\<lparr>wr_run := pr, remote_debt := debt\<rparr>, st)
          else
            let (debt, st) = run_local_free env w function (local_debt wr) st
            in (True, wr\<lparr>wr_run := pr, local_debt := debt\<rparr>, st))"

end
