(* ===== verification/SynthObjects.thy ===== *)
theory SynthObjects
  imports SynthWorkload
begin

text \<open>
  Where the object descriptors of the workload runtime are. Every descriptor that was handed out
  is in one place: a worker's list of free descriptors, its stack of recycled ones, its array,
  its stack of inbound objects, or in the hands of a worker between two of those. The functions
  of \<open>SynthWorkload\<close> move descriptors from one place to another; the lemmas follow the moves.
\<close>

subsection \<open>Places\<close>

text \<open>\<open>Hand\<close>: an object a worker is moving; \<open>Bare\<close>: a descriptor without an object.\<close>

datatype place = FreeList nat | Recycled nat | Inbound nat | Local nat | Hand nat | Bare nat

fun place_worker :: "place \<Rightarrow> nat" where
  "place_worker (FreeList w) = w"
| "place_worker (Recycled w) = w"
| "place_worker (Inbound w) = w"
| "place_worker (Local w) = w"
| "place_worker (Hand w) = w"
| "place_worker (Bare w) = w"

text \<open>The places whose descriptors have an object.\<close>

fun with_object :: "place \<Rightarrow> bool" where
  "with_object (Inbound w) = True"
| "with_object (Local w) = True"
| "with_object (Hand w) = True"
| "with_object _ = False"

definition separate :: "(place \<Rightarrow> u32 list) \<Rightarrow> bool" where
  "separate L \<longleftrightarrow> (\<forall>p. distinct (L p)) \<and> (\<forall>p q x. x \<in> set (L p) \<longrightarrow> x \<in> set (L q) \<longrightarrow> p = q)"

lemma separateD: "separate L \<Longrightarrow> x \<in> set (L p) \<Longrightarrow> x \<in> set (L q) \<Longrightarrow> p = q"
  by (simp add: separate_def)

lemma separate_move:
  assumes "separate L" and "p \<noteq> q" and "distinct xs" and "x \<notin> set xs" and "set (L p) = insert x (set xs)"
    and "distinct ys" and "set ys = insert x (set (L q))"
  shows "separate (L(p := xs, q := ys))"
proof -
  have x: "x \<in> set (L r) \<Longrightarrow> r = p" for r
    using assms(1,5) unfolding separate_def by blast
  show ?thesis
    unfolding separate_def
  proof (intro conjI allI impI)
    fix r
    show "distinct ((L(p := xs, q := ys)) r)"
      using assms by (auto simp: separate_def)
  next
    fix r r' y
    assume "y \<in> set ((L(p := xs, q := ys)) r)" and "y \<in> set ((L(p := xs, q := ys)) r')"
    then show "r = r'"
      using assms x unfolding separate_def by (cases "y = x") (auto split: if_splits)
  qed
qed

lemma separate_new:
  assumes "separate L" and "\<And>p. x \<notin> set (L p)"
  shows "separate (L(q := x # L q))"
  using assms unfolding separate_def by (auto split: if_splits)

subsection \<open>The invariant\<close>

definition mine :: "sworker \<Rightarrow> u32 \<Rightarrow> bool" where
  "mine k x \<longleftrightarrow> unat (object_first k) \<le> unat x \<and> unat x < unat (object_first k) + unat (next_descriptor_offset k)"

definition geometry :: "'h synth \<Rightarrow> bool" where
  "geometry st \<longleftrightarrow> length (g_objects st) < 2 ^ 32 - 1 \<and> length (g_workers st) < 2 ^ 32 \<and>
    (\<forall>w<length (g_workers st). windex (worker_at st w) = of_nat w \<and>
      unat (next_descriptor_offset (worker_at st w)) \<le> unat (capacity (w_profile (worker_at st w))) \<and>
      unat (object_first (worker_at st w)) + unat (capacity (w_profile (worker_at st w))) \<le> length (g_objects st) \<and>
      (\<forall>v<w. unat (object_first (worker_at st v)) + unat (capacity (w_profile (worker_at st v))) \<le>
        unat (object_first (worker_at st w))))"

definition shape :: "'h synth \<Rightarrow> (place \<Rightarrow> u32 list) \<Rightarrow> bool" where
  "shape st L \<longleftrightarrow> (\<forall>w<length (g_workers st).
    chain (g_objects st) (local_free_plus_one (worker_at st w)) (L (FreeList w)) \<and>
    chain (g_objects st) (head_top (recycled_head (worker_at st w))) (L (Recycled w)) \<and>
    chain (g_objects st) (head_top (inbound_head (worker_at st w))) (L (Inbound w)) \<and>
    local_objects (worker_at st w) = L (Local w))"

definition own_at :: "'h synth \<Rightarrow> u32 \<Rightarrow> nat \<Rightarrow> bool" where
  "own_at st x v \<longleftrightarrow> v < length (g_workers st) \<and> mine (worker_at st v) x"

definition placed :: "'h synth \<Rightarrow> (place \<Rightarrow> u32 list) \<Rightarrow> bool" where
  "placed st L \<longleftrightarrow> (\<forall>p x. x \<in> set (L p) \<longrightarrow> place_worker p < length (g_workers st)) \<and>
    (\<forall>p x. x \<in> set (L p) \<longrightarrow> (\<exists>v. own_at st x v)) \<and>
    (\<forall>w x. x \<in> set (L (FreeList w)) \<union> set (L (Recycled w)) \<union> set (L (Local w)) \<longrightarrow> own_at st x w) \<and>
    (\<forall>p x. with_object p \<longrightarrow> x \<in> set (L p) \<longrightarrow> (\<exists>v. owner (object_at st x) = of_nat v \<and> own_at st x v))"

lemma placedD:
  assumes "placed st L" and "x \<in> set (L p)"
  shows "place_worker p < length (g_workers st)" and "\<exists>v. own_at st x v"
    and "p \<in> {FreeList v, Recycled v, Local v} \<Longrightarrow> own_at st x v"
    and "with_object p \<Longrightarrow> \<exists>v. owner (object_at st x) = of_nat v \<and> own_at st x v"
  using assms unfolding placed_def by blast+

lemma placedI:
  assumes "\<And>p x. x \<in> set (L p) \<Longrightarrow> place_worker p < length (g_workers st)"
    and "\<And>p x. x \<in> set (L p) \<Longrightarrow> \<exists>v. own_at st x v"
    and "\<And>p x v. x \<in> set (L p) \<Longrightarrow> p \<in> {FreeList v, Recycled v, Local v} \<Longrightarrow> own_at st x v"
    and "\<And>p x. x \<in> set (L p) \<Longrightarrow> with_object p \<Longrightarrow> \<exists>v. owner (object_at st x) = of_nat v \<and> own_at st x v"
  shows "placed st L"
  using assms unfolding placed_def by blast

definition object_pointer :: "'h synth \<Rightarrow> (place \<Rightarrow> u32 list) \<Rightarrow> u32 \<Rightarrow> u64 option" where
  "object_pointer st L x =
    (if \<exists>p. with_object p \<and> x \<in> set (L p) then Some (pointer (object_at st x)) else None)"

definition synth_inv :: "'h environment \<Rightarrow> 'h synth \<Rightarrow> (place \<Rightarrow> u32 list) \<Rightarrow> bool" where
  "synth_inv env st L \<longleftrightarrow> geometry st \<and> separate L \<and> shape st L \<and> placed st L \<and>
    owned (object_pointer st L) (live_of env (s_heap st)) \<and> \<not> s_misuse st"

lemma synth_invD:
  assumes "synth_inv env st L"
  shows "geometry st" and "separate L" and "shape st L" and "placed st L"
    and "owned (object_pointer st L) (live_of env (s_heap st))" and "\<not> s_misuse st"
  using assms by (simp_all add: synth_inv_def)

lemma own_at_on [simp]:
  "own_at (on_object i g st) x v = own_at st x v" "own_at (s_heap_update hh st) x v = own_at st x v"
  "own_at (s_misuse_update hm st) x v = own_at st x v" "own_at (g_objects_update ho st) x v = own_at st x v"
  by (simp_all add: own_at_def on_object_def worker_at_def)

lemma own_at_neutral [simp]: "(\<And>k. object_first (f k) = object_first k) \<Longrightarrow>
    (\<And>k. next_descriptor_offset (f k) = next_descriptor_offset k) \<Longrightarrow>
    own_at (on_worker w f st) x v = own_at st x v"
  by (cases "w < length (g_workers st)")
    (auto simp: own_at_def on_worker_def worker_at_def mine_def update_at_def nth_list_update list_update_beyond)

lemma own_at_unique:
  assumes "geometry st" and "own_at st x v" and "own_at st x w"
  shows "v = w"
proof -
  have "\<not> a < b" if "own_at st x a" "own_at st x b" for a b
  proof
    assume "a < b"
    then have "unat (object_first (worker_at st a)) + unat (capacity (w_profile (worker_at st a))) \<le>
        unat (object_first (worker_at st b))"
      "unat (next_descriptor_offset (worker_at st a)) \<le> unat (capacity (w_profile (worker_at st a)))"
      using assms(1) that unfolding geometry_def own_at_def by auto
    then show False
      using that unfolding own_at_def mine_def by linarith
  qed
  with assms(2,3) show ?thesis by (meson linorder_neqE_nat)
qed

lemma own_at_bound:
  assumes "geometry st" and "own_at st x v"
  shows "unat x < length (g_objects st)" and "x + 1 \<noteq> 0" and "x \<noteq> INDEX_NONE"
proof -
  have "unat (next_descriptor_offset (worker_at st v)) \<le> unat (capacity (w_profile (worker_at st v)))"
    "unat (object_first (worker_at st v)) + unat (capacity (w_profile (worker_at st v))) \<le> length (g_objects st)"
    "length (g_objects st) < 2 ^ 32 - 1"
    using assms unfolding geometry_def own_at_def by auto
  then show b: "unat x < length (g_objects st)"
    using assms(2) unfolding own_at_def mine_def by linarith
  then have "unat x < 2 ^ 32 - 1"
    using \<open>length (g_objects st) < 2 ^ 32 - 1\<close> by linarith
  then have u: "unat x \<noteq> unat UINT32_MAX" by (simp add: unat_u32_max)
  then show "x \<noteq> INDEX_NONE" by (auto simp: INDEX_NONE_def)
  then have "x \<noteq> - 1" by (simp add: INDEX_NONE_def)
  then show "x + 1 \<noteq> 0" by (metis add.inverse_unique add.commute)
qed


subsection \<open>Frames\<close>

lemma worker_at_on [simp]:
  "worker_at (on_worker w f st) v = (if v = w \<and> w < length (g_workers st) then f (worker_at st w) else worker_at st v)"
  "worker_at (on_object i g st) v = worker_at st v" "worker_at (g_objects_update h st) v = worker_at st v"
  "worker_at (s_heap_update hh st) v = worker_at st v" "worker_at (s_misuse_update hm st) v = worker_at st v"
  "worker_at (g_failed_update hf st) v = worker_at st v"
  by (cases "w < length (g_workers st)")
    (auto simp: worker_at_def on_worker_def on_object_def update_at_def nth_list_update list_update_beyond)

lemma on_worker_same: "f (worker_at st w) = worker_at st w \<Longrightarrow> on_worker w f st = st"
  by (simp add: on_worker_def worker_at_def update_at_def)

lemma object_at_on [simp]:
  "object_at (on_worker w f st) x = object_at st x"
  "object_at (s_heap_update hh st) x = object_at st x" "object_at (s_misuse_update hm st) x = object_at st x"
  "object_at (g_failed_update hf st) x = object_at st x"
  "unat i < length (g_objects st) \<Longrightarrow>
    object_at (on_object i g st) x = (if x = i then g (object_at st x) else object_at st x)"
  by (auto simp: object_at_def on_worker_def on_object_def update_at_def nth_list_update word_unat_eq_iff)

lemma parts_on [simp]:
  "g_objects (on_worker w f st) = g_objects st" "s_heap (on_worker w f st) = s_heap st"
  "s_misuse (on_worker w f st) = s_misuse st" "g_failed (on_worker w f st) = g_failed st"
  "length (g_workers (on_worker w f st)) = length (g_workers st)"
  "g_workers (on_object i g st) = g_workers st" "s_heap (on_object i g st) = s_heap st"
  "s_misuse (on_object i g st) = s_misuse st" "g_failed (on_object i g st) = g_failed st"
  "length (g_objects (on_object i g st)) = length (g_objects st)"
  by (simp_all add: on_worker_def on_object_def)

definition same_space :: "'h synth \<Rightarrow> 'h synth \<Rightarrow> bool" where
  "same_space st st' \<longleftrightarrow> length (g_objects st') = length (g_objects st) \<and>
    length (g_workers st') = length (g_workers st) \<and>
    (\<forall>w. windex (worker_at st' w) = windex (worker_at st w) \<and>
      object_first (worker_at st' w) = object_first (worker_at st w) \<and>
      w_profile (worker_at st' w) = w_profile (worker_at st w) \<and>
      next_descriptor_offset (worker_at st' w) = next_descriptor_offset (worker_at st w))"

lemma geometry_same: "same_space st st' \<Longrightarrow> geometry st' = geometry st"
  by (simp add: same_space_def geometry_def)

lemma own_at_same: "same_space st st' \<Longrightarrow> own_at st' x v = own_at st x v"
  by (simp add: same_space_def own_at_def mine_def)

lemma placed_same:
  assumes "same_space st st'" and "\<And>p x. with_object p \<Longrightarrow> x \<in> set (L p) \<Longrightarrow> owner (object_at st' x) = owner (object_at st x)"
  shows "placed st' L = placed st L"
proof -
  have "length (g_workers st') = length (g_workers st)"
    using assms(1) by (simp add: same_space_def)
  moreover have "(\<forall>p x. with_object p \<longrightarrow> x \<in> set (L p) \<longrightarrow> (\<exists>v. owner (object_at st' x) = of_nat v \<and> own_at st x v)) =
      (\<forall>p x. with_object p \<longrightarrow> x \<in> set (L p) \<longrightarrow> (\<exists>v. owner (object_at st x) = of_nat v \<and> own_at st x v))"
    using assms(2) by metis
  ultimately show ?thesis
    unfolding placed_def own_at_same [OF assms(1)] by simp
qed

lemma object_pointer_same:
  assumes "\<And>p x. with_object p \<Longrightarrow> x \<in> set (L p) \<Longrightarrow> pointer (object_at st' x) = pointer (object_at st x)"
  shows "object_pointer st' L = object_pointer st L"
  using assms unfolding object_pointer_def by (intro ext) auto

text \<open>Counters and the random state.\<close>

definition neutral :: "(sworker \<Rightarrow> sworker) \<Rightarrow> bool" where
  "neutral f \<longleftrightarrow> (\<forall>k. windex (f k) = windex k \<and> object_first (f k) = object_first k \<and>
    w_profile (f k) = w_profile k \<and> next_descriptor_offset (f k) = next_descriptor_offset k \<and>
    local_objects (f k) = local_objects k \<and> local_free_plus_one (f k) = local_free_plus_one k \<and>
    recycled_head (f k) = recycled_head k \<and> inbound_head (f k) = inbound_head k)"

lemma synth_inv_neutral:
  assumes "synth_inv env st L" and "neutral f"
  shows "synth_inv env (on_worker w f st) L"
proof -
  have s: "same_space st (on_worker w f st)"
    using assms(2) by (simp add: same_space_def neutral_def)
  have "shape (on_worker w f st) L"
    using assms synth_invD(3) [OF assms(1)] by (simp add: shape_def neutral_def)
  moreover have "placed (on_worker w f st) L"
    using placed_same [OF s, of L] synth_invD(4) [OF assms(1)] by simp
  moreover have "owned (object_pointer (on_worker w f st) L) (live_of env (s_heap st))"
    using object_pointer_same [of L "on_worker w f st" st] synth_invD(5) [OF assms(1)] by simp
  ultimately show ?thesis
    using synth_invD [OF assms(1)] geometry_same [OF s] by (simp add: synth_inv_def)
qed

lemma synth_inv_fail [simp]: "synth_inv env (fail_run st) L = synth_inv env st L"
proof -
  have s: "same_space st (fail_run st)"
    by (simp add: same_space_def fail_run_def)
  show ?thesis
    using geometry_same [OF s] placed_same [OF s, of L] object_pointer_same [of L "fail_run st" st]
    by (simp add: synth_inv_def shape_def fail_run_def)
qed

subsection \<open>Moves\<close>

definition moved :: "(place \<Rightarrow> u32 list) \<Rightarrow> place \<Rightarrow> u32 list \<Rightarrow> place \<Rightarrow> u32 list \<Rightarrow> u32 \<Rightarrow> bool" where
  "moved L p xs q ys x \<longleftrightarrow> p \<noteq> q \<and> distinct xs \<and> x \<notin> set xs \<and> set (L p) = insert x (set xs) \<and>
    distinct ys \<and> set ys = insert x (set (L q))"

lemma moved_member:
  assumes "moved L p xs q ys x"
  shows "y \<in> set ((L(p := xs, q := ys)) r) \<Longrightarrow> y \<in> set (L r) \<or> r = q \<and> y = x"
  using assms by (auto simp: moved_def split: if_splits)

lemma moved_separate: "separate L \<Longrightarrow> moved L p xs q ys x \<Longrightarrow> separate (L(p := xs, q := ys))"
  by (rule separate_move [of L p q xs x ys]) (auto simp: moved_def)

lemma moved_object_pointer:
  assumes "separate L" and "moved L p xs q ys x" and "with_object p = with_object q"
  shows "object_pointer st (L(p := xs, q := ys)) = object_pointer st L"
proof -
  have "(\<exists>r. with_object r \<and> y \<in> set ((L(p := xs, q := ys)) r)) = (\<exists>r. with_object r \<and> y \<in> set (L r))" for y
  proof
    assume "\<exists>r. with_object r \<and> y \<in> set ((L(p := xs, q := ys)) r)"
    then obtain r where r: "with_object r" "y \<in> set ((L(p := xs, q := ys)) r)" by blast
    from moved_member [OF assms(2) r(2)] show "\<exists>r. with_object r \<and> y \<in> set (L r)"
      using r(1) assms(2,3) unfolding moved_def by blast
  next
    assume "\<exists>r. with_object r \<and> y \<in> set (L r)"
    then obtain r where r: "with_object r" "y \<in> set (L r)" by blast
    consider "y = x" "r = p" | "r \<noteq> p \<or> y \<noteq> x" by blast
    then show "\<exists>r. with_object r \<and> y \<in> set ((L(p := xs, q := ys)) r)"
    proof cases
      case 1
      then show ?thesis using r assms(2,3) by (intro exI [of _ q]) (auto simp: moved_def)
    next
      case 2
      then show ?thesis using r assms(2) by (intro exI [of _ r]) (auto simp: moved_def)
    qed
  qed
  then show ?thesis
    unfolding object_pointer_def by (intro ext) simp
qed

lemma moved_placed:
  assumes "placed st L" and m: "moved L p xs q ys x" and "place_worker q < length (g_workers st)"
    and "\<And>v. q \<in> {FreeList v, Recycled v, Local v} \<Longrightarrow> own_at st x v"
    and "with_object q \<Longrightarrow> with_object p"
  shows "placed st (L(p := xs, q := ys))"
proof -
  have x: "x \<in> set (L p)"
    using m by (simp add: moved_def)
  note xd = placedD [OF assms(1) x]
  show ?thesis
  proof (rule placedI)
    fix r y
    assume "y \<in> set ((L(p := xs, q := ys)) r)"
    then have y: "y \<in> set (L r) \<or> r = q \<and> y = x" by (rule moved_member [OF m])
    note d = placedD [OF assms(1), of y r]
    show "place_worker r < length (g_workers st)"
      using y d(1) assms(3) by blast
    show "\<exists>v. own_at st y v"
      using y d(2) xd(2) by blast
    show "own_at st y v" if "r \<in> {FreeList v, Recycled v, Local v}" for v
      using y d(3) assms(4) that by blast
    show "\<exists>v. owner (object_at st y) = of_nat v \<and> own_at st y v" if "with_object r"
      using y d(4) xd(4) assms(5) that by blast
  qed
qed

lemma moved_object_pointer_change:
  assumes "separate L" and "moved L p xs q ys x"
  shows "with_object p \<Longrightarrow> \<not> with_object q \<Longrightarrow>
      object_pointer st (L(p := xs, q := ys)) = (object_pointer st L)(x := None)"
    and "\<not> with_object p \<Longrightarrow> with_object q \<Longrightarrow>
      object_pointer st (L(p := xs, q := ys)) = (object_pointer st L)(x \<mapsto> pointer (object_at st x))"
proof -
  have xp: "x \<in> set (L p)"
    using assms(2) by (simp add: moved_def)
  have x: "r \<noteq> p \<Longrightarrow> x \<notin> set (L r)" for r
    using separateD [OF assms(1) _ xp] by blast
  have here: "x \<in> set ((L(p := xs, q := ys)) r) \<longleftrightarrow> r = q" for r
    using assms(2) x [of r] unfolding moved_def by (cases "r = q"; cases "r = p") simp_all
  have other: "y \<in> set ((L(p := xs, q := ys)) r) \<longleftrightarrow> y \<in> set (L r)" if "y \<noteq> x" for y r
    using assms(2) that unfolding moved_def by (cases "r = q"; cases "r = p") simp_all
  show "object_pointer st (L(p := xs, q := ys)) = (object_pointer st L)(x := None)"
    if "with_object p" "\<not> with_object q"
  proof
    fix y
    show "object_pointer st (L(p := xs, q := ys)) y = ((object_pointer st L)(x := None)) y"
    proof (cases "y = x")
      case True
      then show ?thesis using here that unfolding object_pointer_def by auto
    next
      case False
      then show ?thesis unfolding object_pointer_def other [OF False] by simp
    qed
  qed
  show "object_pointer st (L(p := xs, q := ys)) = (object_pointer st L)(x \<mapsto> pointer (object_at st x))"
    if "\<not> with_object p" "with_object q"
  proof
    fix y
    show "object_pointer st (L(p := xs, q := ys)) y = ((object_pointer st L)(x \<mapsto> pointer (object_at st x))) y"
    proof (cases "y = x")
      case True
      then show ?thesis using here that unfolding object_pointer_def by auto
    next
      case False
      then show ?thesis unfolding object_pointer_def other [OF False] by simp
    qed
  qed
qed

text \<open>A move between two places of one kind, with neither an object nor a call changed.\<close>

lemma synth_inv_moved:
  assumes inv: "synth_inv env st L" and m: "moved L p xs q ys x" and kind: "with_object p = with_object q"
    and to: "place_worker q < length (g_workers st)"
    and home: "\<And>v. q \<in> {FreeList v, Recycled v, Local v} \<Longrightarrow> own_at st x v"
    and same: "same_space st st'"
    and objs: "\<And>y. owner (object_at st' y) = owner (object_at st y) \<and> pointer (object_at st' y) = pointer (object_at st y)"
    and heap: "s_heap st' = s_heap st" "s_misuse st' = s_misuse st"
    and shp: "shape st' (L(p := xs, q := ys))"
  shows "synth_inv env st' (L(p := xs, q := ys))"
proof -
  note i = synth_invD [OF inv]
  have "placed st (L(p := xs, q := ys))"
    using moved_placed [OF i(4) m to home] kind by blast
  then have "placed st' (L(p := xs, q := ys))"
    using placed_same [OF same] objs by blast
  moreover have "object_pointer st' (L(p := xs, q := ys)) = object_pointer st L"
    using object_pointer_same [of "L(p := xs, q := ys)" st' st] objs moved_object_pointer [OF i(2) m kind]
    by simp
  ultimately show ?thesis
    using i geometry_same [OF same] moved_separate [OF i(2) m] heap shp by (simp add: synth_inv_def)
qed

lemma shapeD:
  assumes "shape st L" and "w < length (g_workers st)"
  shows "chain (g_objects st) (local_free_plus_one (worker_at st w)) (L (FreeList w))"
    and "chain (g_objects st) (head_top (recycled_head (worker_at st w))) (L (Recycled w))"
    and "chain (g_objects st) (head_top (inbound_head (worker_at st w))) (L (Inbound w))"
    and "local_objects (worker_at st w) = L (Local w)"
  using assms by (simp_all add: shape_def)

lemma separate_head:
  assumes "separate L" and "L p = x # xs" and "p \<noteq> q"
  shows "moved L p xs q (x # L q) x"
proof -
  have "x \<notin> set (L q)" "distinct (L q)" "distinct (x # xs)"
    using assms unfolding separate_def by (metis list.set_intros(1))+
  then show ?thesis using assms(2,3) by (simp add: moved_def)
qed

text \<open>Two lists are no longer in the hands of a worker, in order.\<close>

definition hands :: "(place \<Rightarrow> u32 list) \<Rightarrow> nat \<Rightarrow> u32 list \<Rightarrow> u32 list \<Rightarrow> bool" where
  "hands L w hs bs \<longleftrightarrow> (\<forall>v. L (Hand v) = (if v = w then hs else []) \<and> L (Bare v) = (if v = w then bs else []))"

lemma stack_pop_chain:
  assumes "chain objs (head_top h) xs" and "INDEX_NONE \<notin> set xs" and "stack_pop objs h = (i, h')"
  shows "i = INDEX_NONE \<and> xs = [] \<and> h' = h \<or>
    i \<noteq> INDEX_NONE \<and> (\<exists>ys. xs = i # ys \<and> chain objs (head_top h') ys)"
  using assms by (cases xs) (auto simp: stack_pop_def Let_def)

lemma stack_push_chain:
  assumes "chain objs (head_top h) xs" and "unat i < length objs" and "i + 1 \<noteq> 0" and "i \<notin> set xs"
    and "stack_push i objs h = (objs', h')"
  shows "chain objs' (head_top h') (i # xs)" and "objs' = set_next i (head_top h) objs"
  using assms by (auto simp: stack_push_def get_set_next chain_frame)

lemma none_is_no_descriptor:
  assumes "synth_inv env st L"
  shows "INDEX_NONE \<notin> set (L p)"
proof
  assume "INDEX_NONE \<in> set (L p)"
  then obtain v where "own_at st INDEX_NONE v"
    using synth_invD(4) [OF assms] unfolding placed_def by blast
  then show False
    using own_at_bound(3) [OF synth_invD(1) [OF assms]] by blast
qed

lemma pop_inbound_inv:
  assumes inv: "synth_inv env st L" and w: "w < length (g_workers st)" and pop: "pop_inbound w st = (i, st')"
  shows "i = INDEX_NONE \<and> st' = st \<and> L (Inbound w) = [] \<or> i \<noteq> INDEX_NONE \<and> (\<exists>xs. L (Inbound w) = i # xs \<and>
      synth_inv env st' (L(Inbound w := xs, Hand w := i # L (Hand w))))"
proof -
  obtain h where h: "stack_pop (g_objects st) (inbound_head (worker_at st w)) = (i, h)"
    "st' = on_worker w (\<lambda>k. k\<lparr>inbound_head := h\<rparr>) st"
    using pop by (auto simp: pop_inbound_def split: prod.splits)
  note sh = shapeD [OF synth_invD(3) [OF inv] w]
  from stack_pop_chain [OF sh(3) none_is_no_descriptor [OF inv] h(1)] show ?thesis
  proof (elim disjE conjE exE)
    assume "i = INDEX_NONE" and "L (Inbound w) = []" and "h = inbound_head (worker_at st w)"
    then show ?thesis
      unfolding h(2) by (simp add: on_worker_same)
  next
    fix xs
    assume i: "i \<noteq> INDEX_NONE" and xs: "L (Inbound w) = i # xs" "chain (g_objects st) (head_top h) xs"
    have "shape st' (L(Inbound w := xs, Hand w := i # L (Hand w)))"
      using synth_invD(3) [OF inv] xs(2) unfolding h(2) shape_def by simp
    moreover have "same_space st st'"
      unfolding h(2) same_space_def by simp
    ultimately have "synth_inv env st' (L(Inbound w := xs, Hand w := i # L (Hand w)))"
      by (intro synth_inv_moved [OF inv separate_head [OF synth_invD(2) [OF inv] xs(1)]])
        (use w in \<open>simp_all add: h(2)\<close>)
    with i xs(1) show ?thesis by blast
  qed
qed

lemma pop_recycled_inv:
  assumes inv: "synth_inv env st L" and w: "w < length (g_workers st)" and pop: "pop_recycled w st = (i, st')"
  shows "i = INDEX_NONE \<and> st' = st \<and> L (Recycled w) = [] \<or> i \<noteq> INDEX_NONE \<and> (\<exists>xs. L (Recycled w) = i # xs \<and>
      synth_inv env st' (L(Recycled w := xs, Bare w := i # L (Bare w))))"
proof -
  obtain h where h: "stack_pop (g_objects st) (recycled_head (worker_at st w)) = (i, h)"
    "st' = on_worker w (\<lambda>k. k\<lparr>recycled_head := h\<rparr>) st"
    using pop by (auto simp: pop_recycled_def split: prod.splits)
  note sh = shapeD [OF synth_invD(3) [OF inv] w]
  from stack_pop_chain [OF sh(2) none_is_no_descriptor [OF inv] h(1)] show ?thesis
  proof (elim disjE conjE exE)
    assume "i = INDEX_NONE" and "L (Recycled w) = []" and "h = recycled_head (worker_at st w)"
    then show ?thesis
      unfolding h(2) by (simp add: on_worker_same)
  next
    fix xs
    assume i: "i \<noteq> INDEX_NONE" and xs: "L (Recycled w) = i # xs" "chain (g_objects st) (head_top h) xs"
    have "shape st' (L(Recycled w := xs, Bare w := i # L (Bare w)))"
      using synth_invD(3) [OF inv] xs(2) unfolding h(2) shape_def by simp
    moreover have "same_space st st'"
      unfolding h(2) same_space_def by simp
    ultimately have "synth_inv env st' (L(Recycled w := xs, Bare w := i # L (Bare w)))"
      by (intro synth_inv_moved [OF inv separate_head [OF synth_invD(2) [OF inv] xs(1)]])
        (use w in \<open>simp_all add: h(2)\<close>)
    with i xs(1) show ?thesis by blast
  qed
qed

lemma take_free_inv:
  assumes inv: "synth_inv env st L" and w: "w < length (g_workers st)"
    and free: "local_free_plus_one (worker_at st w) \<noteq> 0"
  shows "\<exists>xs. L (FreeList w) = (local_free_plus_one (worker_at st w) - 1) # xs \<and>
    synth_inv env (on_worker w (\<lambda>k. k\<lparr>local_free_plus_one :=
        get_next (g_objects st) (local_free_plus_one (worker_at st w) - 1)\<rparr>) st)
      (L(FreeList w := xs, Bare w := (local_free_plus_one (worker_at st w) - 1) # L (Bare w)))"
proof -
  let ?i = "local_free_plus_one (worker_at st w) - 1"
  let ?st' = "on_worker w (\<lambda>k. k\<lparr>local_free_plus_one := get_next (g_objects st) ?i\<rparr>) st"
  obtain xs where xs: "L (FreeList w) = ?i # xs" "chain (g_objects st) (get_next (g_objects st) ?i) xs"
    using shapeD(1) [OF synth_invD(3) [OF inv] w] free by (cases "L (FreeList w)") auto
  have "shape ?st' (L(FreeList w := xs, Bare w := ?i # L (Bare w)))"
    using synth_invD(3) [OF inv] xs(2) unfolding shape_def by simp
  moreover have "same_space st ?st'"
    unfolding same_space_def by simp
  ultimately have "synth_inv env ?st' (L(FreeList w := xs, Bare w := ?i # L (Bare w)))"
    by (intro synth_inv_moved [OF inv separate_head [OF synth_invD(2) [OF inv] xs(1)]]) (use w in simp_all)
  with xs(1) show ?thesis by blast
qed

text \<open>A descriptor handed out for the first time.\<close>

lemma new_descriptor_inv:
  assumes inv: "synth_inv env st L" and w: "w < length (g_workers st)"
    and room: "next_descriptor_offset (worker_at st w) < capacity (w_profile (worker_at st w))"
    and i: "i = object_first (worker_at st w) + next_descriptor_offset (worker_at st w)"
    and st': "st' = on_worker w (\<lambda>k. k\<lparr>next_descriptor_offset := next_descriptor_offset k + 1\<rparr>) st"
  shows "synth_inv env st' (L(Bare w := i # L (Bare w)))" and "i \<noteq> INDEX_NONE" and "own_at st' i w"
proof -
  note g = synth_invD(1) [OF inv]
  let ?k = "worker_at st w"
  have b: "unat (object_first ?k) + unat (capacity (w_profile ?k)) \<le> length (g_objects st)"
    "length (g_objects st) < 2 ^ 32 - 1"
    using g w unfolding geometry_def by auto
  have lt: "unat (next_descriptor_offset ?k) < unat (capacity (w_profile ?k))"
    using room by (simp add: word_less_nat_alt)
  then have ui: "unat i = unat (object_first ?k) + unat (next_descriptor_offset ?k)"
    using b unfolding i by (intro unat_add_no_wrap) simp
  have un: "unat (next_descriptor_offset ?k + 1) = unat (next_descriptor_offset ?k) + 1"
    using lt b by (simp add: unat_add_no_wrap)
  have own: "own_at st' x v \<longleftrightarrow> own_at st x v \<or> v = w \<and> x = i" for x v
  proof (cases "v = w")
    case True
    show ?thesis
      using w un ui True unfolding own_at_def mine_def st' by (auto simp: word_unat_eq_iff)
  next
    case False
    then show ?thesis unfolding own_at_def mine_def st' by simp
  qed
  have notown: "\<not> own_at st i v" for v
  proof
    assume o: "own_at st i v"
    consider "v < w" | "v = w" | "w < v" by linarith
    then show False
    proof cases
      case 1
      then have "unat (object_first (worker_at st v)) + unat (capacity (w_profile (worker_at st v))) \<le> unat (object_first ?k)"
        "unat (next_descriptor_offset (worker_at st v)) \<le> unat (capacity (w_profile (worker_at st v)))"
        using g w unfolding geometry_def by auto
      then show False using o ui unfolding own_at_def mine_def by linarith
    next
      case 2
      then show False using o ui unfolding own_at_def mine_def by simp
    next
      case 3
      then have "unat (object_first ?k) + unat (capacity (w_profile ?k)) \<le> unat (object_first (worker_at st v))"
        using g o unfolding geometry_def own_at_def by auto
      then show False using o ui lt unfolding own_at_def mine_def by linarith
    qed
  qed
  then have fresh: "i \<notin> set (L p)" for p
    using synth_invD(4) [OF inv] unfolding placed_def by blast
  have geo: "geometry st'"
    using g un lt unfolding geometry_def st' by auto
  have "shape st' (L(Bare w := i # L (Bare w)))"
    using synth_invD(3) [OF inv] unfolding shape_def st' by simp
  moreover have "placed st' (L(Bare w := i # L (Bare w)))"
  proof (rule placedI)
    fix p x
    assume "x \<in> set ((L(Bare w := i # L (Bare w))) p)"
    then have x: "x \<in> set (L p) \<or> p = Bare w \<and> x = i" by (auto split: if_splits)
    note d = placedD [OF synth_invD(4) [OF inv], of x p]
    show "place_worker p < length (g_workers st')"
      using x d(1) w by (auto simp: st')
    show "\<exists>v. own_at st' x v"
      using x d(2) unfolding own by blast
    show "own_at st' x v" if "p \<in> {FreeList v, Recycled v, Local v}" for v
      using x d(3) that unfolding own by blast
    show "\<exists>v. owner (object_at st' x) = of_nat v \<and> own_at st' x v" if "with_object p"
      using x d(4) that unfolding own by (auto simp: st')
  qed
  moreover have "object_pointer st' (L(Bare w := i # L (Bare w))) = object_pointer st L"
  proof -
    have "with_object p \<and> x \<in> set ((L(Bare w := i # L (Bare w))) p) \<longleftrightarrow> with_object p \<and> x \<in> set (L p)" for p x
      by (cases "p = Bare w") simp_all
    then show ?thesis unfolding object_pointer_def st' by (intro ext) simp
  qed
  ultimately show "synth_inv env st' (L(Bare w := i # L (Bare w)))"
    using synth_invD [OF inv] geo separate_new [OF _ fresh] by (simp add: synth_inv_def st')
  show o: "own_at st' i w" by (simp add: own)
  show "i \<noteq> INDEX_NONE" using o by (rule own_at_bound(3) [OF geo])
qed


subsection \<open>What a worker holds between two lists\<close>

text \<open>\<open>n\<close> workers; worker \<open>w\<close> holds the objects \<open>hs\<close> and the descriptors \<open>bs\<close>, the others nothing.\<close>

definition holding :: "'h environment \<Rightarrow> nat \<Rightarrow> nat \<Rightarrow> u32 list \<Rightarrow> u32 list \<Rightarrow> 'h synth \<Rightarrow> bool" where
  "holding env n w hs bs st \<longleftrightarrow> length (g_workers st) = n \<and> w < n \<and> (\<exists>L. synth_inv env st L \<and> hands L w hs bs)"

lemma holdingI: "synth_inv env st L \<Longrightarrow> hands L w hs bs \<Longrightarrow> length (g_workers st) = n \<Longrightarrow> w < n \<Longrightarrow>
    holding env n w hs bs st"
  unfolding holding_def by blast

lemma holdingE:
  assumes "holding env n w hs bs st"
  obtains L where "synth_inv env st L" and "hands L w hs bs" and "L (Hand w) = hs" and "L (Bare w) = bs"
    and "length (g_workers st) = n" and "w < n"
  using assms unfolding holding_def hands_def by auto

lemma hands_other [simp]:
  "hands (L(Inbound v := xs)) w hs bs = hands L w hs bs" "hands (L(FreeList v := xs)) w hs bs = hands L w hs bs"
  "hands (L(Recycled v := xs)) w hs bs = hands L w hs bs" "hands (L(Local v := xs)) w hs bs = hands L w hs bs"
  by (auto simp: hands_def)

lemma hands_upd [simp]:
  "hands L w hs bs \<Longrightarrow> hands (L(Hand w := hs')) w hs' bs"
  "hands L w hs bs \<Longrightarrow> hands (L(Bare w := bs')) w hs bs'"
  by (auto simp: hands_def)

lemma hands_move [simp]:
  "hands L w hs bs \<Longrightarrow> hands (L(p := xs, Hand w := hs', Bare w := bs')) w hs' bs'" if "p \<in> {Hand w, Bare w}" for p
  using that by (auto simp: hands_def)

lemma holding_neutral: "neutral f \<Longrightarrow> holding env n w hs bs st \<Longrightarrow> holding env n w hs bs (on_worker v f st)"
  unfolding holding_def using synth_inv_neutral by fastforce

lemma holding_fail [simp]: "holding env n w hs bs (fail_run st) = holding env n w hs bs st"
  by (simp add: holding_def) (simp add: fail_run_def)

lemma holding_random: "holding env n w hs bs st \<Longrightarrow> holding env n w hs bs (snd (random_next v st))"
  unfolding random_next_def Let_def by (simp add: holding_neutral neutral_def)

lemma holding_count: "holding env n w hs bs st \<Longrightarrow> holding env n w hs bs (count_call v f st)"
  unfolding count_call_def by (simp add: holding_neutral neutral_def)

lemma take_descriptor_holding:
  assumes "holding env n w [] [] st" and "take_descriptor w st = (i, st')"
  shows "if i = INDEX_NONE then holding env n w [] [] st' else holding env n w [] [i] st' \<and> own_at st' i w"
proof -
  obtain L where L: "synth_inv env st L" "hands L w [] []" "L (Bare w) = []" "length (g_workers st) = n" "w < n"
    using assms(1) by (rule holdingE)
  have w: "w < length (g_workers st)" using L by simp
  show ?thesis
  proof (cases "local_free_plus_one (worker_at st w) = 0")
    case False
    then obtain xs where xs: "L (FreeList w) = (local_free_plus_one (worker_at st w) - 1) # xs"
      "synth_inv env (on_worker w (\<lambda>k. k\<lparr>local_free_plus_one :=
          get_next (g_objects st) (local_free_plus_one (worker_at st w) - 1)\<rparr>) st)
        (L(FreeList w := xs, Bare w := (local_free_plus_one (worker_at st w) - 1) # L (Bare w)))"
      using take_free_inv [OF L(1) w] by blast
    have i: "i = local_free_plus_one (worker_at st w) - 1"
      "st' = on_worker w (\<lambda>k. k\<lparr>local_free_plus_one := get_next (g_objects st) i\<rparr>) st"
      using assms(2) False by (auto simp: take_descriptor_def Let_def)
    have "i \<noteq> INDEX_NONE"
      using none_is_no_descriptor [OF L(1), of "FreeList w"] xs(1) i(1) by auto
    moreover have "holding env n w [] [i] st'"
      using holdingI [OF xs(2), of w "[]" "[i]" n] L i by simp
    moreover have "own_at st i w"
      using placedD(3) [OF synth_invD(4) [OF L(1)], of i "FreeList w"] xs(1) i(1) by simp
    ultimately show ?thesis using i(2) by simp
  next
    case no_free: True
    obtain j st1 where j: "pop_recycled w st = (j, st1)" by fastforce
    show ?thesis
    proof (cases "j = INDEX_NONE")
      case False
      then obtain xs where xs: "L (Recycled w) = j # xs"
        "synth_inv env st1 (L(Recycled w := xs, Bare w := j # L (Bare w)))"
        using pop_recycled_inv [OF L(1) w j] by blast
      have "i = j" "st' = st1"
        using assms(2) no_free j False by (simp_all add: take_descriptor_def Let_def)
      moreover have "length (g_workers st1) = n"
        using j L(4) by (auto simp: pop_recycled_def split: prod.splits)
      moreover have "own_at st1 j w"
        using placedD(3) [OF synth_invD(4) [OF L(1)], of j "Recycled w"] xs(1) j
        by (auto simp: pop_recycled_def split: prod.splits)
      ultimately show ?thesis
        using False holdingI [OF xs(2), of w "[]" "[i]" n] L by simp
    next
      case True
      then have st1: "st1 = st"
        using pop_recycled_inv [OF L(1) w j] by blast
      show ?thesis
      proof (cases "next_descriptor_offset (worker_at st w) < capacity (w_profile (worker_at st w))")
        case room: True
        have i: "i = object_first (worker_at st w) + next_descriptor_offset (worker_at st w)"
          "st' = on_worker w (\<lambda>k. k\<lparr>next_descriptor_offset := next_descriptor_offset k + 1\<rparr>) st"
          using assms(2) no_free j True room st1 by (simp_all add: take_descriptor_def Let_def)
        have "holding env n w [] [i] st'"
          using holdingI [OF new_descriptor_inv(1) [OF L(1) w room i], of w "[]" "[i]" n] L i(2) by simp
        then show ?thesis
          using new_descriptor_inv(2,3) [OF L(1) w room i] by simp
      next
        case False
        then show ?thesis
          using assms no_free j True st1 by (auto simp: take_descriptor_def Let_def)
      qed
    qed
  qed
qed


lemma pop_inbound_holding:
  assumes "holding env n w [] [] st" and pop: "pop_inbound w st = (i, st')"
  shows "if i = INDEX_NONE then st' = st else holding env n w [i] [] st'"
proof -
  obtain L where L: "synth_inv env st L" "hands L w [] []" "L (Hand w) = []" "length (g_workers st) = n" "w < n"
    using assms(1) by (rule holdingE)
  have "length (g_workers st') = n"
    using pop L(4) by (auto simp: pop_inbound_def split: prod.splits)
  with pop_inbound_inv [OF L(1) _ pop] L show ?thesis
    by (auto intro!: holdingI)
qed

lemma swap_remove:
  assumes "position < length xs"
  shows "mset xs = add_mset (xs ! position) (mset (swap_remove position xs))"
proof -
  have ne: "xs \<noteq> []" using assms by auto
  let ?ys = "xs[position := last xs]"
  have ys: "?ys \<noteq> []" "last ?ys = last xs"
    using ne assms by (auto simp: last_list_update)
  have "mset ?ys = add_mset (last xs) (mset (butlast ?ys))"
    using append_butlast_last_id [OF ys(1)] ys(2) by (metis mset.simps(2) mset_append union_mset_add_mset_right
      add.right_neutral mset.simps(1))
  moreover have "mset ?ys = add_mset (last xs) (mset xs - {#xs ! position#})"
    using assms by (rule mset_update)
  ultimately have "mset (swap_remove position xs) = mset xs - {#xs ! position#}"
    by (simp add: swap_remove_def)
  then show ?thesis
    using assms by simp
qed

lemma swap_remove_distinct:
  assumes "position < length xs" and "distinct xs"
  shows "distinct (swap_remove position xs)" and "xs ! position \<notin> set (swap_remove position xs)"
    and "set xs = insert (xs ! position) (set (swap_remove position xs))"
proof -
  have "mset (xs ! position # swap_remove position xs) = mset xs"
    using swap_remove [OF assms(1)] by simp
  from mset_eq_setD [OF this] mset_eq_imp_distinct_iff [OF this] assms(2)
  show "distinct (swap_remove position xs)" "xs ! position \<notin> set (swap_remove position xs)"
    "set xs = insert (xs ! position) (set (swap_remove position xs))" by auto
qed

lemma local_remove_holding:
  assumes "holding env n w [] [] st" and rem: "local_remove w position st = (i, st')"
    and pos: "position < length (local_objects (worker_at st w))"
  shows "holding env n w [i] [] st'" and "owner (object_at st' i) = of_nat w" and "g_objects st' = g_objects st"
proof -
  obtain L where L: "synth_inv env st L" "hands L w [] []" "L (Hand w) = []" "length (g_workers st) = n" "w < n"
    using assms(1) by (rule holdingE)
  let ?xs = "swap_remove position (L (Local w))"
  have w: "w < length (g_workers st)" using L by simp
  have loc: "local_objects (worker_at st w) = L (Local w)"
    using shapeD(4) [OF synth_invD(3) [OF L(1)] w] .
  have i: "i = L (Local w) ! position" "st' = on_worker w (\<lambda>k. k\<lparr>local_objects := ?xs\<rparr>) st"
    using rem loc by (auto simp: local_remove_def on_worker_def update_at_def worker_at_def)
  have d: "distinct (L (Local w))" "i \<in> set (L (Local w))"
    using synth_invD(2) [OF L(1)] pos loc i(1) by (auto simp: separate_def)
  note sd = swap_remove_distinct [OF _ d(1), of position]
  have m: "moved L (Local w) ?xs (Hand w) [i] i"
    using sd pos loc L(3) unfolding moved_def i(1) by auto
  have "shape st' (L(Local w := ?xs, Hand w := [i]))"
    using synth_invD(3) [OF L(1)] unfolding i(2) shape_def by simp
  moreover have "same_space st st'"
    unfolding i(2) same_space_def by simp
  ultimately have "synth_inv env st' (L(Local w := ?xs, Hand w := [i]))"
    by (intro synth_inv_moved [OF L(1) m]) (use w in \<open>simp_all add: i(2)\<close>)
  then show "holding env n w [i] [] st'"
    by (rule holdingI) (use L i(2) in simp_all)
  obtain v where "owner (object_at st i) = of_nat v" "own_at st i v"
    using placedD(4) [OF synth_invD(4) [OF L(1)] d(2)] by auto
  moreover have "own_at st i w"
    using placedD(3) [OF synth_invD(4) [OF L(1)] d(2)] by auto
  ultimately show "owner (object_at st' i) = of_nat w"
    using own_at_unique [OF synth_invD(1) [OF L(1)], of i v w] by (simp add: i(2))
  show "g_objects st' = g_objects st" by (simp add: i(2))
qed

lemma held_object:
  assumes "holding env n w [i] bs st"
  shows "\<exists>v. owner (object_at st i) = of_nat v \<and> own_at st i v" and "unat i < length (g_objects st)" and "i + 1 \<noteq> 0"
    and "i \<noteq> INDEX_NONE"
proof -
  obtain L where L: "synth_inv env st L" "L (Hand w) = [i]"
    using assms by (rule holdingE)
  then have i: "i \<in> set (L (Hand w))" by simp
  note d = placedD [OF synth_invD(4) [OF L(1)] i]
  show "\<exists>v. owner (object_at st i) = of_nat v \<and> own_at st i v"
    using d(4) by simp
  obtain v where v: "own_at st i v" using d(2) by blast
  show "unat i < length (g_objects st)" "i + 1 \<noteq> 0" "i \<noteq> INDEX_NONE"
    using own_at_bound [OF synth_invD(1) [OF L(1)] v] by blast+
qed

lemma of_nat_worker:
  assumes "(of_nat v :: u32) = of_nat w" and "v < 2 ^ 32" and "w < 2 ^ 32"
  shows "v = w"
proof -
  have "v < 4294967296" "w < 4294967296" using assms(2,3) by simp_all
  then show ?thesis using assms(1) unat_of_nat_u32 by metis
qed

lemma local_append_holding:
  assumes "holding env n w [i] [] st" and own: "owner (object_at st i) = of_nat w"
    and st': "st' = on_worker w (\<lambda>k. k\<lparr>local_objects := local_objects k @ [i]\<rparr>) st"
  shows "holding env n w [] [] st'"
proof -
  obtain L where L: "synth_inv env st L" "hands L w [i] []" "L (Hand w) = [i]" "length (g_workers st) = n" "w < n"
    using assms(1) by (rule holdingE)
  have w: "w < length (g_workers st)" using L by simp
  obtain v where v: "owner (object_at st i) = of_nat v" "own_at st i v"
    using held_object(1) [OF assms(1)] by blast
  have "length (g_workers st) < 2 ^ 32"
    using synth_invD(1) [OF L(1)] unfolding geometry_def by blast
  then have vw: "v = w"
    using of_nat_worker [of v w] own v w unfolding own_at_def by auto
  have "i \<notin> set (L (Local w))" "distinct (L (Local w))"
    using synth_invD(2) [OF L(1)] L(3) separateD [of L i "Local w" "Hand w"] by (auto simp: separate_def)
  then have m: "moved L (Hand w) [] (Local w) (L (Local w) @ [i]) i"
    using L(3) by (simp add: moved_def)
  have "shape st' (L(Hand w := [], Local w := L (Local w) @ [i]))"
    using synth_invD(3) [OF L(1)] unfolding st' shape_def by simp
  moreover have "same_space st st'"
    unfolding st' same_space_def by simp
  ultimately have "synth_inv env st' (L(Hand w := [], Local w := L (Local w) @ [i]))"
    by (intro synth_inv_moved [OF L(1) m]) (use w v(2) vw in \<open>simp_all add: st'\<close>)
  then show ?thesis
    by (rule holdingI) (use L st' in simp_all)
qed


lemma object_at_set_next [simp]:
  "owner (object_at (st\<lparr>g_objects := set_next i m (g_objects st)\<rparr>) y) = owner (object_at st y)"
  "pointer (object_at (st\<lparr>g_objects := set_next i m (g_objects st)\<rparr>) y) = pointer (object_at st y)"
proof -
  have "owner (set_next i m objs ! k) = owner (objs ! k) \<and> pointer (set_next i m objs ! k) = pointer (objs ! k)" for objs k
    by (cases "unat i < length objs"; cases "k = unat i")
      (simp_all add: set_next_def update_at_def list_update_beyond)
  then show "owner (object_at (st\<lparr>g_objects := set_next i m (g_objects st)\<rparr>) y) = owner (object_at st y)"
    "pointer (object_at (st\<lparr>g_objects := set_next i m (g_objects st)\<rparr>) y) = pointer (object_at st y)"
    by (simp_all add: object_at_def)
qed

lemma shape_set_next:
  assumes "shape st L" and "unat i < length (g_objects st)"
    and "\<And>v. i \<notin> set (L (FreeList v)) \<and> i \<notin> set (L (Recycled v)) \<and> i \<notin> set (L (Inbound v))"
  shows "shape (st\<lparr>g_objects := set_next i m (g_objects st)\<rparr>) L"
  using assms unfolding shape_def by (simp add: chain_frame)

lemma publish_holding:
  assumes "holding env n w [i] [] st" and t: "unat target < n"
  shows "holding env n w [] [] (publish_object target i st)"
proof -
  obtain L where L: "synth_inv env st L" "hands L w [i] []" "L (Hand w) = [i]" "length (g_workers st) = n" "w < n"
    using assms(1) by (rule holdingE)
  let ?t = "unat target"
  have tn: "?t < length (g_workers st)" using t L by simp
  obtain objs h where p: "stack_push i (g_objects st) (inbound_head (worker_at st ?t)) = (objs, h)"
    by fastforce
  note sh = synth_invD(3) [OF L(1)]
  have only: "i \<notin> set (L p)" if "p \<noteq> Hand w" for p
    using separateD [OF synth_invD(2) [OF L(1)], of i p "Hand w"] L(3) that by auto
  note pushed = stack_push_chain [OF shapeD(3) [OF sh tn] held_object(2,3) [OF assms(1)] only p]
  let ?st1 = "st\<lparr>g_objects := objs\<rparr>"
  let ?st' = "on_worker ?t (\<lambda>k. k\<lparr>inbound_head := h\<rparr>) ?st1"
  have st': "publish_object target i st = ?st'"
    by (simp add: publish_object_def p)
  have objs: "objs = set_next i (head_top (inbound_head (worker_at st ?t))) (g_objects st)"
    using pushed(2) by simp
  have sh1: "shape ?st1 L"
    unfolding objs by (rule shape_set_next [OF sh held_object(2) [OF assms(1)]]) (simp add: only)
  have shp: "shape ?st' (L(Hand w := [], Inbound ?t := i # L (Inbound ?t)))"
    using sh1 pushed(1) held_object(3) [OF assms(1)] unfolding shape_def by simp
  have same: "same_space st ?st'"
    unfolding same_space_def by (simp add: objs)
  have m: "moved L (Hand w) [] (Inbound ?t) (i # L (Inbound ?t)) i"
    using separate_head [OF synth_invD(2) [OF L(1)], of "Hand w" i "[]" "Inbound ?t"] L(3) by simp
  have "synth_inv env ?st' (L(Hand w := [], Inbound ?t := i # L (Inbound ?t)))"
    by (rule synth_inv_moved [OF L(1) m _ _ _ same _ _ _ shp]) (use tn in \<open>simp_all add: objs\<close>)
  then show ?thesis
    unfolding st' by (rule holdingI) (use L in simp_all)
qed

text \<open>An update of an object that leaves its link; its pointer counts only in a place with objects.\<close>

lemma set_object_inv:
  assumes inv: "synth_inv env st L"
    and f: "\<And>ob. next_plus_one (f ob) = next_plus_one ob"
    and i: "unat i < length (g_objects st)"
    and own: "owner (f (object_at st i)) = owner (object_at st i) \<or> (\<forall>p. with_object p \<longrightarrow> i \<notin> set (L p))"
    and live: "owned (object_pointer (on_object i f (st\<lparr>s_heap := h, s_misuse := False\<rparr>)) L) (live_of env h)"
  shows "synth_inv env (on_object i f (st\<lparr>s_heap := h, s_misuse := False\<rparr>)) L"
proof -
  let ?st' = "on_object i f (st\<lparr>s_heap := h, s_misuse := False\<rparr>)"
  note d = synth_invD [OF inv]
  have same: "same_space st ?st'"
    unfolding same_space_def by (simp add: on_object_def worker_at_def)
  have at: "object_at ?st' y = (if y = i then f (object_at st y) else object_at st y)" for y
    using i by (simp add: object_at_def on_object_def update_at_def nth_list_update word_unat_eq_iff)
  have nxt: "get_next (g_objects ?st') y = get_next (g_objects st) y" for y
    using at [of y] f unfolding object_at_def get_next_def by auto
  have "chain (g_objects ?st') m xs = chain (g_objects st) m xs" for m xs
    using nxt by (induction xs arbitrary: m) (simp_all add: on_object_def)
  moreover have "worker_at ?st' w = worker_at st w" for w
    by (simp add: worker_at_def on_object_def)
  ultimately have "shape ?st' L"
    using d(3) unfolding shape_def by simp
  moreover have "placed ?st' L"
  proof -
    have "owner (object_at ?st' y) = owner (object_at st y)" if "with_object p" "y \<in> set (L p)" for p y
      using own that unfolding at by auto
    then show ?thesis
      using placed_same [OF same, of L] d(4) by blast
  qed
  ultimately show ?thesis
    using d live geometry_same [OF same] unfolding synth_inv_def by (simp add: on_object_def)
qed


subsection \<open>Calls\<close>

text \<open>What is relied on of the allocator.\<close>

definition lawful :: "'h environment \<Rightarrow> bool" where
  "lawful env \<longleftrightarrow> (\<forall>c h. heap_result c (live_of env h) (fst (call_heap env c h)) (live_of env (snd (call_heap env c h))))"

lemma heap_call_state:
  assumes "\<not> s_misuse st" and "\<not> misused c (live_of env (s_heap st))"
  shows "snd (heap_call env c st) = st\<lparr>s_heap := snd (call_heap env c (s_heap st)), s_misuse := False\<rparr>"
  using assms by (simp add: heap_call_def)

lemma owned_mono:
  assumes "owned H live" and "fresh_result live r live'"
  shows "owned H live'"
  using assms unfolding owned_def fresh_result_def by (cases "r = 0") auto

text \<open>An allocation for a descriptor the worker holds.\<close>

lemma alloc_holding:
  assumes "holding env n w [] [i] st" and own: "own_at st i w" and law: "lawful env"
    and c: "case c of None \<Rightarrow> True | Some d \<Rightarrow> (\<forall>live r live'. \<not> misused d live \<and>
      heap_result d live r live' = fresh_result live r live')"
    and call: "(r, st1) = (case c of None \<Rightarrow> (0, st) | Some d \<Rightarrow> heap_call env d st)"
  shows "holding env n w [i] [] (on_object i (\<lambda>ob. ob\<lparr>pointer := r, object_size := sz, owner := of_nat w\<rparr>) st1)"
proof -
  obtain L where L: "synth_inv env st L" "hands L w [] [i]" "L (Bare w) = [i]" "length (g_workers st) = n" "w < n"
    using assms(1) by (rule holdingE)
  note d = synth_invD [OF L(1)]
  let ?h = "s_heap st1"
  let ?f = "\<lambda>ob. ob\<lparr>pointer := r, object_size := sz, owner := of_nat w\<rparr>"
  have st1: "st1 = st\<lparr>s_heap := ?h, s_misuse := False\<rparr>"
    and fr: "fresh_result (live_of env (s_heap st)) r (live_of env ?h)"
  proof -
    show "st1 = st\<lparr>s_heap := ?h, s_misuse := False\<rparr>"
      using call c d(6) heap_call_state [OF d(6)] by (cases c) (auto simp: heap_call_def)
    show "fresh_result (live_of env (s_heap st)) r (live_of env ?h)"
    proof (cases c)
      case None
      then show ?thesis using call by (simp add: fresh_result_def)
    next
      case (Some e)
      have "heap_result e (live_of env (s_heap st)) (fst (call_heap env e (s_heap st)))
          (live_of env (snd (call_heap env e (s_heap st))))"
        using law unfolding lawful_def by blast
      then show ?thesis
        using Some call c by (simp add: heap_call_def)
    qed
  qed
  let ?st = "on_object i ?f st1"
  have i: "unat i < length (g_objects st)"
    using own_at_bound [OF d(1) own] by blast
  have bare: "i \<notin> set (L p)" if "with_object p" for p
    using separateD [OF d(2), of i p "Bare w"] L(3) that by auto
  have at: "object_at ?st y = (if y = i then ?f (object_at st y) else object_at st y)" for y
    using i by (subst st1) simp
  have ptr: "object_pointer ?st L = object_pointer st L"
    by (rule object_pointer_same) (use bare in \<open>auto simp: at\<close>)
  have inv: "synth_inv env ?st L"
  proof -
    have "synth_inv env (on_object i ?f (st\<lparr>s_heap := ?h, s_misuse := False\<rparr>)) L"
      by (rule set_object_inv [OF L(1) _ i])
        (use bare owned_mono [OF d(5) fr] ptr in \<open>simp_all flip: st1\<close>)
    then show ?thesis by (simp flip: st1)
  qed
  have m: "moved L (Bare w) [] (Hand w) [i] i"
    using separate_head [OF d(2), of "Bare w" i "[]" "Hand w"] L(2,3) by (simp add: hands_def)
  let ?L = "L(Bare w := [], Hand w := [i])"
  have own': "own_at ?st i w"
    using own st1 by (metis own_at_on(1,2,3))
  have "object_pointer ?st ?L = (object_pointer st L)(i \<mapsto> r)"
    using moved_object_pointer_change(2) [OF d(2) m, of ?st] ptr at [of i] by simp
  then have o: "owned (object_pointer ?st ?L) (live_of env (s_heap ?st))"
    using owned_fresh [OF d(5) fr, of i] by simp
  have "placed ?st ?L"
  proof (rule placedI)
    fix p x
    assume "x \<in> set (?L p)"
    then have x: "x \<in> set (L p) \<or> p = Hand w \<and> x = i" by (auto split: if_splits)
    note dd = placedD [OF synth_invD(4) [OF inv], of x p]
    have n: "length (g_workers ?st) = n" using L(4) by (subst st1) simp
    show "place_worker p < length (g_workers ?st)"
      using x dd(1) L(5) n by auto
    show "\<exists>v. own_at ?st x v"
      using x dd(2) own' by blast
    show "own_at ?st x v" if "p \<in> {FreeList v, Recycled v, Local v}" for v
      using x dd(3) that by blast
    show "\<exists>v. owner (object_at ?st x) = of_nat v \<and> own_at ?st x v" if "with_object p"
    proof (cases "x = i")
      case True
      then show ?thesis using own' at [of i] by auto
    next
      case False
      then show ?thesis using x dd(4) that by blast
    qed
  qed
  moreover have "shape ?st ?L"
    using synth_invD(3) [OF inv] unfolding shape_def by simp
  ultimately have "synth_inv env ?st ?L"
    using synth_invD [OF inv] moved_separate [OF d(2) m] o by (simp add: synth_inv_def)
  moreover have "length (g_workers ?st) = n" using L(4) by (subst st1) simp
  moreover have "hands ?L w [i] []" using L(2) by (auto simp: hands_def)
  ultimately show ?thesis using L(5) by (intro holdingI)
qed

text \<open>An object that is given up leaves its descriptor.\<close>

lemma heap_inv:
  assumes "synth_inv env st L" and "owned (object_pointer st L) (live_of env h)"
  shows "synth_inv env (st\<lparr>s_heap := h, s_misuse := False\<rparr>) L"
proof -
  let ?st = "st\<lparr>s_heap := h, s_misuse := False\<rparr>"
  have same: "same_space st ?st" by (simp add: same_space_def)
  note d = synth_invD [OF assms(1)]
  have "shape ?st L" using d(3) unfolding shape_def by simp
  moreover have "object_pointer ?st L = object_pointer st L"
    using object_pointer_same [of L ?st st] by simp
  ultimately show ?thesis
    using d assms(2) geometry_same [OF same] placed_same [OF same, of L] by (simp add: synth_inv_def)
qed

lemma drop_inv:
  assumes inv: "synth_inv env st L" and L: "hands L w [i] []" and w: "w < length (g_workers st)"
  defines "L' \<equiv> L(Hand w := [], Bare w := [i])"
  shows "synth_inv env st L'" and "object_pointer st L' = (object_pointer st L)(i := None)" and "hands L' w [] [i]"
proof -
  note d = synth_invD [OF inv]
  have m: "moved L (Hand w) [] (Bare w) [i] i"
    using separate_head [OF d(2), of "Hand w" i "[]" "Bare w"] L by (simp add: hands_def)
  show ptr: "object_pointer st L' = (object_pointer st L)(i := None)"
    unfolding L'_def using moved_object_pointer_change(1) [OF d(2) m, of st] by simp
  have "owned (object_pointer st L') (live_of env (s_heap st))"
    unfolding ptr by (rule owned_drop [OF d(5)])
  moreover have "placed st L'"
    unfolding L'_def using moved_placed [OF d(4) m] w by simp
  moreover have "shape st L'"
    using d(3) unfolding L'_def shape_def by simp
  ultimately show "synth_inv env st L'"
    using d moved_separate [OF d(2) m] by (simp add: synth_inv_def L'_def)
  show "hands L' w [] [i]" unfolding L'_def using L by (auto simp: hands_def)
qed

lemma drop_holding:
  assumes "holding env n w [i] [] st"
  shows "holding env n w [] [i] st"
  using assms drop_inv unfolding holding_def by blast

lemma free_holding:
  assumes "holding env n w [i] [] st" and law: "lawful env"
    and c: "c = Free (pointer (object_at st i)) \<or> c = Free_sized (pointer (object_at st i)) sz"
  shows "holding env n w [] [i] (snd (heap_call env c st))"
proof -
  obtain L where L: "synth_inv env st L" "hands L w [i] []" "L (Hand w) = [i]" "length (g_workers st) = n" "w < n"
    using assms(1) by (rule holdingE)
  note d = synth_invD [OF L(1)]
  let ?p = "pointer (object_at st i)"
  let ?h = "snd (call_heap env c (s_heap st))"
  have "with_object (Hand w) \<and> i \<in> set (L (Hand w))" using L(3) by simp
  then have H: "object_pointer st L i = Some ?p"
    unfolding object_pointer_def by (metis (mono_tags))
  have mis: "\<not> misused c (live_of env (s_heap st))"
    using c owned_misuse [OF d(5) H] by auto
  have res: "heap_result (Free ?p) (live_of env (s_heap st)) (fst (call_heap env c (s_heap st))) (live_of env ?h)"
    using law c unfolding lawful_def by (metis heap_result.simps(2,3))
  note dr = drop_inv [OF L(1,2)]
  have w: "w < length (g_workers st)" using L(4,5) by simp
  have "synth_inv env (st\<lparr>s_heap := ?h, s_misuse := False\<rparr>) (L(Hand w := [], Bare w := [i]))"
    by (rule heap_inv [OF dr(1) [OF w]]) (simp only: dr(2) [OF w] owned_free(1) [OF d(5) H res])
  then show ?thesis
    unfolding heap_call_state [OF d(6) mis] using dr(3) [OF w] L(4,5) by (intro holdingI) simp_all
qed

text \<open>The descriptor returns to its owner.\<close>

lemma recycle_holding:
  assumes "holding env n w [] [i] st" and o: "owner (object_at st i) = of_nat v" and own: "own_at st i v"
  shows "holding env n w [] [] (recycle_object w i st)"
proof -
  obtain L where L0: "synth_inv env st L" "hands L w [] [i]" "L (Bare w) = [i]" "length (g_workers st) = n" "w < n"
    using assms(1) by (rule holdingE)
  let ?f = "\<lambda>ob. ob\<lparr>pointer := 0, object_size := 0\<rparr>"
  let ?s = "on_object i ?f st"
  have i: "unat i < length (g_objects st)" "i + 1 \<noteq> 0"
    using own_at_bound [OF synth_invD(1) [OF L0(1)] own] by blast+
  have bare: "i \<notin> set (L p)" if "p \<noteq> Bare w" for p
    using separateD [OF synth_invD(2) [OF L0(1)], of i p "Bare w"] L0(3) that by auto
  have "st\<lparr>s_heap := s_heap st, s_misuse := False\<rparr> = st"
    using synth_invD(6) [OF L0(1)] by simp
  moreover have "owned (object_pointer ?s L) (live_of env (s_heap st))"
  proof -
    have "i \<notin> set (L p)" if "with_object p" for p using bare [of p] that by (cases "p = Bare w") auto
    then have "object_pointer ?s L = object_pointer st L"
      by (intro object_pointer_same) (auto simp: i(1))
    then show ?thesis using synth_invD(5) [OF L0(1)] by simp
  qed
  ultimately have inv: "synth_inv env ?s L"
    using set_object_inv [OF L0(1), of ?f i "s_heap st"] i(1) by simp
  have L: "length (g_workers ?s) = n" "w < length (g_workers ?s)" using L0(4,5) by simp_all
  note d = synth_invD [OF inv]
  have geo: "length (g_workers st) < 2 ^ 32" "windex (worker_at st w) = of_nat w" "v < length (g_workers st)"
    using synth_invD(1) [OF L0(1)] L own unfolding geometry_def own_at_def by auto
  have i': "unat i < length (g_objects ?s)" using i by simp
  show ?thesis
  proof (cases "v = w")
    case True
    let ?st' = "on_worker w (\<lambda>k. k\<lparr>local_free_plus_one := i + 1\<rparr>)
      (?s\<lparr>g_objects := set_next i (local_free_plus_one (worker_at ?s w)) (g_objects ?s)\<rparr>)"
    let ?L = "L(Bare w := [], FreeList w := i # L (FreeList w))"
    have st': "recycle_object w i st = ?st'"
      using o True geo(2) by (simp add: recycle_object_def Let_def on_object_def set_next_def worker_at_def)
    have m: "moved L (Bare w) [] (FreeList w) (i # L (FreeList w)) i"
      using separate_head [OF d(2), of "Bare w" i "[]" "FreeList w"] L0(3) by simp
    have s1: "shape (?s\<lparr>g_objects := set_next i (local_free_plus_one (worker_at ?s w)) (g_objects ?s)\<rparr>) L"
      by (rule shape_set_next [OF d(3) i']) (simp add: bare)
    then have shp: "shape ?st' ?L"
      unfolding shape_def using i' i(2) by (simp add: get_set_next)
    have same: "same_space ?s ?st'"
      by (simp add: same_space_def)
    have "synth_inv env ?st' ?L"
      by (rule synth_inv_moved [OF inv m _ _ _ same _ _ _ shp]) (use L own True in simp_all)
    then show ?thesis
      unfolding st' by (rule holdingI) (use L L0 in \<open>simp_all add: hands_def\<close>)
  next
    case False
    obtain objs h where p: "stack_push i (g_objects ?s) (recycled_head (worker_at ?s v)) = (objs, h)"
      by fastforce
    have v: "v < length (g_workers ?s)" using geo(3) by simp
    note pushed = stack_push_chain [OF shapeD(2) [OF d(3) v] i' i(2) bare p]
    let ?st' = "on_worker v (\<lambda>k. k\<lparr>recycled_head := h\<rparr>) (?s\<lparr>g_objects := objs\<rparr>)"
    let ?L = "L(Bare w := [], Recycled v := i # L (Recycled v))"
    have objs: "objs = set_next i (head_top (recycled_head (worker_at ?s v))) (g_objects ?s)"
      using pushed(2) by simp
    have "(of_nat v :: u32) \<noteq> of_nat w" "unat (of_nat v :: u32) = v"
      using of_nat_worker [of v w] geo(1,3) L(2) False unat_of_nat_u32 [of v] by auto
    then have st': "recycle_object w i st = ?st'"
      using o geo(2) p by (simp add: recycle_object_def Let_def push_recycled_def)
    have m: "moved L (Bare w) [] (Recycled v) (i # L (Recycled v)) i"
      using separate_head [OF d(2), of "Bare w" i "[]" "Recycled v"] L0(3) by simp
    have s1: "shape (?s\<lparr>g_objects := objs\<rparr>) L"
      unfolding objs by (rule shape_set_next [OF d(3) i']) (simp add: bare)
    then have shp: "shape ?st' ?L"
      unfolding shape_def using pushed(1) i(2) by simp
    have same: "same_space ?s ?st'"
      by (simp add: same_space_def objs)
    have "synth_inv env ?st' ?L"
      by (rule synth_inv_moved [OF inv m _ _ _ same _ _ _ shp]) (use v own in \<open>simp_all add: objs\<close>)
    then show ?thesis
      unfolding st' by (rule holdingI) (use L L0 in \<open>simp_all add: hands_def\<close>)
  qed
qed


subsection \<open>The operations of a worker\<close>

lemma local_member:
  assumes "holding env n w hs bs st"
  shows "distinct (local_objects (worker_at st w))"
    and "x \<in> set (local_objects (worker_at st w)) \<Longrightarrow> own_at st x w"
    and "length (local_objects (worker_at st w)) \<le> unat (next_descriptor_offset (worker_at st w))"
    and "unat (next_descriptor_offset (worker_at st w)) \<le> unat (capacity (w_profile (worker_at st w)))"
proof -
  obtain L where L: "synth_inv env st L" "length (g_workers st) = n" "w < n"
    using assms by (rule holdingE)
  let ?k = "worker_at st w"
  have loc: "local_objects ?k = L (Local w)"
    using shapeD(4) [OF synth_invD(3) [OF L(1)]] L(2,3) by simp
  show dist: "distinct (local_objects ?k)"
    unfolding loc using synth_invD(2) [OF L(1)] by (simp add: separate_def)
  have own: "own_at st y w" if "y \<in> set (local_objects ?k)" for y
    using placedD(3) [OF synth_invD(4) [OF L(1)], of y "Local w"] that loc by simp
  then show "x \<in> set (local_objects ?k) \<Longrightarrow> own_at st x w" .
  let ?lo = "unat (object_first ?k)"
  have "set (map unat (local_objects ?k)) \<subseteq> {?lo..<?lo + unat (next_descriptor_offset ?k)}"
    using own unfolding own_at_def mine_def by auto
  then have "card (set (map unat (local_objects ?k))) \<le> card {?lo..<?lo + unat (next_descriptor_offset ?k)}"
    by (intro card_mono) simp_all
  moreover have "distinct (map unat (local_objects ?k))"
    using dist by (simp add: distinct_map inj_on_def word_unat_eq_iff)
  then have "card (set (map unat (local_objects ?k))) = length (local_objects ?k)"
    using distinct_card [of "map unat (local_objects ?k)"] by simp
  ultimately show "length (local_objects ?k) \<le> unat (next_descriptor_offset ?k)" by simp
  show "unat (next_descriptor_offset ?k) \<le> unat (capacity (w_profile ?k))"
    using synth_invD(1) [OF L(1)] L(2,3) unfolding geometry_def by simp
qed

lemma random_position:
  assumes "holding env n w hs bs st" and "local_objects (worker_at st w) \<noteq> []"
  shows "unat (v mod of_nat (length (local_objects (worker_at st w))) :: u64) < length (local_objects (worker_at st w))"
proof -
  let ?l = "length (local_objects (worker_at st w))"
  have "?l \<le> unat (next_descriptor_offset (worker_at st w))"
    by (rule local_member(3) [OF assms(1)])
  also have "\<dots> < 2 ^ 32"
    using unsigned_less [of "next_descriptor_offset (worker_at st w)", where ?'a = nat] by simp
  finally have l: "?l < 18446744073709551616" by simp
  then have "unat (of_nat ?l :: u64) = ?l" by (rule unat_of_nat_u64)
  then show ?thesis
    using assms(2) by (simp add: unat_mod_distrib)
qed

lemma workers_kept [simp]:
  "worker_at (snd (heap_call env c st)) v = worker_at st v" "object_at (snd (heap_call env c st)) x = object_at st x"
  "g_objects (snd (heap_call env c st)) = g_objects st" "own_at (snd (heap_call env c st)) x v = own_at st x v"
  "g_workers (snd (heap_call env c st)) = g_workers st"
  "object_at (snd (random_next w st)) x = object_at st x" "own_at (snd (random_next w st)) x v = own_at st x v"
  "object_at (count_call w f st) x = object_at st x" "own_at (count_call w f st) x v = own_at st x v"
  "local_objects (worker_at (snd (random_next w st)) v) = local_objects (worker_at st v)"
  "local_objects (worker_at (count_call w f st) v) = local_objects (worker_at st v)"
  "windex (worker_at (count_call w f st) v) = windex (worker_at st v)"
proof -
  show "worker_at (snd (heap_call env c st)) v = worker_at st v" "object_at (snd (heap_call env c st)) x = object_at st x"
    "g_objects (snd (heap_call env c st)) = g_objects st" "own_at (snd (heap_call env c st)) x v = own_at st x v"
    "g_workers (snd (heap_call env c st)) = g_workers st"
    by (simp_all add: heap_call_def)
  show "object_at (snd (random_next w st)) x = object_at st x" "own_at (snd (random_next w st)) x v = own_at st x v"
    "local_objects (worker_at (snd (random_next w st)) v) = local_objects (worker_at st v)"
    by (simp_all add: random_next_def Let_def)
  show "object_at (count_call w f st) x = object_at st x" "own_at (count_call w f st) x v = own_at st x v"
    "local_objects (worker_at (count_call w f st) v) = local_objects (worker_at st v)"
    "windex (worker_at (count_call w f st) v) = windex (worker_at st v)"
    by (simp_all add: count_call_def)
qed

lemma run_free_call_holding:
  assumes h: "holding env n w [i] [] st" and law: "lawful env"
  shows "holding env n w [] [] (run_free_call env w f i remote st)"
proof -
  obtain v where v: "owner (object_at st i) = of_nat v" "own_at st i v"
    using held_object(1) [OF h] by blast
  let ?c = "if f = FUNC_FREE_SIZED \<and> has_free_sized env
    then Free_sized (pointer (object_at st i)) (object_size (object_at st i)) else Free (pointer (object_at st i))"
  let ?s1 = "count_call w f (snd (heap_call env ?c st))"
  have "holding env n w [] [i] (snd (heap_call env ?c st))"
    by (rule free_holding [OF h law, of _ "object_size (object_at st i)"]) simp
  then have s1: "holding env n w [] [i] ?s1"
    by (rule holding_count)
  then have s2: "holding env n w [] [i] (on_worker w (\<lambda>k. k\<lparr>remote_frees := remote_frees k + 1\<rparr>) ?s1)"
    by (rule holding_neutral [rotated]) (simp add: neutral_def)
  show ?thesis
    unfolding run_free_call_def Let_def using s1 s2 v
    by (auto intro!: recycle_holding simp del: FUNC_FREE_SIZED_def)
qed

lemma run_local_free_holding:
  assumes h: "holding env n w [] [] st" and law: "lawful env" and run: "run_local_free env w f debt st = (debt', st')"
  shows "holding env n w [] [] st'"
proof (cases "local_objects (worker_at st w) = []")
  case True
  then show ?thesis using h run by (simp add: run_local_free_def)
next
  case False
  obtain v st1 where v: "random_next w st = (v, st1)" by fastforce
  have h1: "holding env n w [] [] st1" and l1: "local_objects (worker_at st1 w) = local_objects (worker_at st w)"
    using holding_random [OF h, of w] workers_kept(10) [where st = st and w = w and v = w] v by simp_all
  let ?p = "unat (v mod of_nat (length (local_objects (worker_at st1 w))))"
  obtain i st2 where i: "local_remove w ?p st1 = (i, st2)" by fastforce
  have "holding env n w [i] [] st2"
    by (rule local_remove_holding(1) [OF h1 i random_position [OF h1]]) (simp add: l1 False)
  from run_free_call_holding [OF this law] show ?thesis
    using run False v i by (auto simp: run_local_free_def)
qed

lemma drain_local_holding:
  assumes "lawful env"
  shows "holding env n w [] [] st \<Longrightarrow> drain_local_steps env w fuel debt st = (debt', st') \<Longrightarrow> holding env n w [] [] st'"
proof (induction fuel arbitrary: debt st)
  case 0
  then show ?case by simp
next
  case (Suc fuel)
  show ?case
  proof (cases "local_objects (worker_at st w) = [] \<or> debt_function debt = None")
    case True
    then show ?thesis using Suc.prems by (auto split: option.splits)
  next
    case False
    then obtain f where f: "debt_function debt = Some f" by auto
    obtain debt1 st1 where s: "run_local_free env w f (update_at f (\<lambda>n. n - 1) debt) st = (debt1, st1)"
      by fastforce
    have "drain_local_steps env w fuel debt1 st1 = (debt', st')"
      using Suc.prems(2) False f s by simp
    then show ?thesis
      using Suc.IH run_local_free_holding [OF Suc.prems(1) assms s] by blast
  qed
qed

lemma remote_holding:
  assumes h: "holding env n w [] [] st" and law: "lawful env"
  shows "run_remote_free env w f debt st = (debt', st') \<Longrightarrow> holding env n w [] [] st'"
    and "drain_one_remote env w debt st = (b, debt', st') \<Longrightarrow> holding env n w [] [] st'"
proof -
  obtain i st1 where i: "pop_inbound w st = (i, st1)" by fastforce
  have c: "if i = INDEX_NONE then st1 = st else holding env n w [i] [] st1"
    by (rule pop_inbound_holding [OF h i])
  then have fr: "holding env n w [] [] (run_free_call env w f i True st1)" if "i \<noteq> INDEX_NONE" for f
    using that run_free_call_holding [OF _ law] by simp
  have "holding env n w [] [] (on_worker w (\<lambda>k. k\<lparr>deferred_remote_frees := deferred_remote_frees k + 1\<rparr>) st)"
    by (rule holding_neutral [OF _ h]) (simp add: neutral_def)
  then show "run_remote_free env w f debt st = (debt', st') \<Longrightarrow> holding env n w [] [] st'"
    using c fr i by (auto simp: run_remote_free_def split: if_splits)
  show "drain_one_remote env w debt st = (b, debt', st') \<Longrightarrow> holding env n w [] [] st'"
    using c fr i h by (auto simp: drain_one_remote_def split: if_splits option.splits)
qed


lemma on_object_commute:
  "on_object i g (on_worker w f st) = on_worker w f (on_object i g st)"
  by (simp add: on_object_def on_worker_def)

text \<open>A \<open>realloc\<close> of an object of the array, before the counters.\<close>

lemma realloc_holding:
  assumes h: "holding env n w [] [] st" and law: "lawful env"
    and i: "i \<in> set (local_objects (worker_at st w))"
    and call: "heap_call env (Realloc (pointer (object_at st i)) sz) st = (r, st1)"
  shows "r = 0 \<Longrightarrow> sz \<noteq> 0 \<Longrightarrow> holding env n w [] [] st1"
    and "holding env n w [] [] (on_object i (\<lambda>ob. ob\<lparr>pointer := r, object_size := sz\<rparr>) st1)"
proof -
  obtain L where L: "synth_inv env st L" "hands L w [] []" "length (g_workers st) = n" "w < n"
    using h by (rule holdingE)
  note d = synth_invD [OF L(1)]
  let ?p = "pointer (object_at st i)"
  let ?c = "Realloc ?p sz"
  let ?h = "snd (call_heap env ?c (s_heap st))"
  let ?f = "\<lambda>ob. ob\<lparr>pointer := r, object_size := sz\<rparr>"
  have iL: "i \<in> set (L (Local w))"
    using i shapeD(4) [OF d(3)] L(3,4) by simp
  then have "with_object (Local w) \<and> i \<in> set (L (Local w))" by simp
  then have H: "object_pointer st L i = Some ?p"
    unfolding object_pointer_def by (metis (mono_tags))
  have st1: "st1 = st\<lparr>s_heap := ?h, s_misuse := False\<rparr>" and r: "r = fst (call_heap env ?c (s_heap st))"
    using heap_call_state [OF d(6) owned_misuse(2) [OF d(5) H], of sz] call by (auto simp: heap_call_def)
  have res: "heap_result ?c (live_of env (s_heap st)) r (live_of env ?h)"
    using law unfolding r lawful_def by blast
  have b: "unat i < length (g_objects st)"
    using own_at_bound(1) [OF d(1)] local_member(2) [OF h i] by blast
  show "holding env n w [] [] st1" if "r = 0" "sz \<noteq> 0"
  proof -
    have "(object_pointer st L)(i \<mapsto> ?p) = object_pointer st L"
      using H by auto
    then have "synth_inv env st1 L"
      unfolding st1 using owned_realloc(1) [OF d(5) H res] that by (intro heap_inv [OF L(1)]) simp
    then show ?thesis
      by (rule holdingI) (use L st1 in simp_all)
  qed
  have "object_pointer (on_object i ?f (st\<lparr>s_heap := ?h, s_misuse := False\<rparr>)) L = (object_pointer st L)(i \<mapsto> r)"
  proof
    fix y
    show "object_pointer (on_object i ?f (st\<lparr>s_heap := ?h, s_misuse := False\<rparr>)) L y = ((object_pointer st L)(i \<mapsto> r)) y"
      using b H by (auto simp: object_pointer_def split: if_splits)
  qed
  then have "synth_inv env (on_object i ?f st1) L"
    unfolding st1 using owned_realloc(2) [OF d(5) H res] by (intro set_object_inv [OF L(1) _ b]) simp_all
  then show "holding env n w [] [] (on_object i ?f st1)"
    by (rule holdingI) (use L st1 in simp_all)
qed

lemma holding_failure: "holding env n w hs bs st \<Longrightarrow>
    holding env n w hs bs (on_worker v (\<lambda>k. k\<lparr>allocation_failures := allocation_failures k + 1\<rparr>) st)"
  by (rule holding_neutral [rotated]) (simp_all add: neutral_def)

lemma run_realloc_local_holding:
  assumes h: "holding env n w [] [] st" and law: "lawful env" and ne: "local_objects (worker_at st w) \<noteq> []"
    and t: "publish \<Longrightarrow> unat target < n"
  shows "holding env n w [] [] (run_realloc_local env w sz publish target st)"
proof -
  obtain v st1 where v: "random_next w st = (v, st1)" by fastforce
  have h1: "holding env n w [] [] st1" and l1: "local_objects (worker_at st1 w) = local_objects (worker_at st w)"
    using holding_random [OF h, of w] workers_kept(10) [where st = st and w = w and v = w] v by simp_all
  define p where "p = unat (v mod of_nat (length (local_objects (worker_at st1 w))))"
  define i where "i = local_objects (worker_at st1 w) ! p"
  have p: "p < length (local_objects (worker_at st1 w))"
    unfolding p_def by (rule random_position [OF h1]) (simp add: l1 ne)
  then have i: "i \<in> set (local_objects (worker_at st1 w))"
    by (simp add: i_def)
  obtain r st2 where r: "heap_call env (Realloc (pointer (object_at st1 i)) sz) st1 = (r, st2)" by fastforce
  note re = realloc_holding [OF h1 law i r]
  let ?f = "\<lambda>ob. ob\<lparr>pointer := r, object_size := sz\<rparr>"
  define st4 where "st4 = (if r = 0 \<and> sz \<noteq> 0
    then on_worker w (\<lambda>k. k\<lparr>allocation_failures := allocation_failures k + 1\<rparr>) (count_call w FUNC_REALLOC st2)
    else snd (random_next w (on_object i ?f (count_call w FUNC_REALLOC st2))))"
  have h4: "holding env n w [] [] st4"
  proof (cases "r = 0 \<and> sz \<noteq> 0")
    case True
    then show ?thesis
      using holding_failure [OF holding_count [OF re(1)]] by (simp add: st4_def)
  next
    case False
    have "on_object i ?f (count_call w FUNC_REALLOC st2) = count_call w FUNC_REALLOC (on_object i ?f st2)"
      unfolding count_call_def by (rule on_object_commute)
    then show ?thesis
      using False holding_random [OF holding_count [OF re(2)], of w] by (auto simp: st4_def)
  qed
  have l4: "local_objects (worker_at st4 w) = local_objects (worker_at st1 w)"
    using r workers_kept(1) [where env = env and c = "Realloc (pointer (object_at st1 i)) sz" and st = st1 and v = w] by (simp add: st4_def)
  obtain j st5 where j: "local_remove w p st4 = (j, st5)" by fastforce
  have h5: "holding env n w [i] [] st5"
    using local_remove_holding(1) [OF h4 j] p l4 j by (auto simp: local_remove_def i_def)
  obtain u where u: "owner (object_at st5 i) = of_nat u" "own_at st5 i u"
    using held_object(1) [OF h5] by blast
  have "run_realloc_local env w sz publish target st = (if publish then publish_object target i st5
      else if r = 0 \<and> sz = 0 then recycle_object w i st5 else st4)"
    by (simp only: run_realloc_local_def Let_def v prod.case p_def [symmetric] i_def [symmetric] r
      st4_def [symmetric] j snd_conv)
  then show ?thesis
    using publish_holding [OF h5 t] recycle_holding [OF drop_holding [OF h5] u] h4 by auto
qed


lemma new_allocation_call:
  "case (if f = FUNC_REALLOC then Some (Realloc 0 sz) else run_new_allocation f sz) of None \<Rightarrow> True
    | Some d \<Rightarrow> (\<forall>live r live'. \<not> misused d live \<and> heap_result d live r live' = fresh_result live r live')"
  by (simp add: run_new_allocation_def)

lemma run_new_object_holding:
  assumes h: "holding env n w [] [] st" and law: "lawful env" and t: "publish \<Longrightarrow> unat target < n"
  shows "holding env n w [] [] (run_new_object env w f sz publish target st)"
proof -
  obtain i st1 where i: "take_descriptor w st = (i, st1)" by fastforce
  note td = take_descriptor_holding [OF h i]
  show ?thesis
  proof (cases "i = INDEX_NONE")
    case True
    then show ?thesis using td i by (simp add: run_new_object_def)
  next
    case False
    then have h1: "holding env n w [] [i] st1" and own: "own_at st1 i w"
      using td by simp_all
    define c where "c = (if f = FUNC_REALLOC then Some (Realloc 0 sz) else run_new_allocation f sz)"
    obtain r st2 where r: "(case c of None \<Rightarrow> (0, st1) | Some d \<Rightarrow> heap_call env d st1) = (r, st2)" by fastforce
    let ?f = "\<lambda>ob. ob\<lparr>pointer := r, object_size := sz, owner := of_nat w\<rparr>"
    have h2: "holding env n w [i] [] (on_object i ?f st2)"
      by (rule alloc_holding [OF h1 own law new_allocation_call r [unfolded c_def, symmetric]])
    let ?s3 = "count_call w f st2"
    define st3 where "st3 = (if r = 0 \<and> sz \<noteq> 0
      then on_worker w (\<lambda>k. k\<lparr>allocation_failures := allocation_failures k + 1\<rparr>) ?s3 else ?s3)"
    have w3: "windex (worker_at st3 w) = of_nat w"
    proof -
      obtain L where L: "synth_inv env st1 L" "length (g_workers st1) = n" "w < n"
        using h1 by (rule holdingE)
      have "windex (worker_at st1 w) = of_nat w"
        using synth_invD(1) [OF L(1)] L(2,3) unfolding geometry_def by simp
      moreover have "worker_at st2 w = worker_at st1 w"
        using r by (auto split: option.splits simp: heap_call_def)
      ultimately show ?thesis by (simp add: st3_def)
    qed
    have "on_object i ?f st3 = (if r = 0 \<and> sz \<noteq> 0
        then on_worker w (\<lambda>k. k\<lparr>allocation_failures := allocation_failures k + 1\<rparr>) (count_call w f (on_object i ?f st2))
        else count_call w f (on_object i ?f st2))"
      by (simp add: st3_def count_call_def on_object_commute)
    then have h3: "holding env n w [i] [] (on_object i ?f st3)"
      using holding_count [OF h2, of w f] holding_failure [OF holding_count [OF h2, of w f], of w] by (auto split: if_splits)
    define st4 where "st4 = snd (random_next w (on_object i ?f st3))"
    have h4: "holding env n w [i] [] st4"
      unfolding st4_def by (rule holding_random [OF h3])
    have "unat i < length (g_objects st3)"
      using held_object(2) [OF h3] by simp
    then have o4: "owner (object_at st4 i) = of_nat w"
      by (simp add: st4_def)
    have "run_new_object env w f sz publish target st = (if publish then publish_object target i st4
        else on_worker w (\<lambda>k. k\<lparr>local_objects := local_objects k @ [i]\<rparr>) st4)"
      by (simp only: run_new_object_def Let_def i prod.case False if_False c_def [symmetric] r st3_def [symmetric] w3
        st4_def [symmetric])
    then show ?thesis
      using publish_holding [OF h4 t] local_append_holding [OF h4 o4 refl] by simp
  qed
qed

lemma run_alloc_call_holding:
  assumes h: "holding env n w [] [] st" and law: "lawful env" and t: "publish \<Longrightarrow> unat target < n"
  shows "holding env n w [] [] (run_alloc_call env w phase f publish target force st)"
proof -
  obtain sz st1 where s: "sample_size env w phase f st = (sz, st1)" by fastforce
  have "holding env n w [] [] st1"
    using s holding_random [OF h, of w] h by (auto simp: sample_size_def Let_def split: if_splits prod.splits)
  then show ?thesis
    using run_realloc_local_holding [OF _ law _ t, of w st1] run_new_object_holding [OF _ law t, of w st1]
    by (auto simp: run_alloc_call_def s simp del: FUNC_REALLOC_def)
qed

lemma free_null_holding: "holding env n w [] [] (free_null env w f st)"
  if h: "holding env n w [] [] st" and law: "lawful env"
proof -
  obtain L where L: "synth_inv env st L" "hands L w [] []" "length (g_workers st) = n" "w < n"
    using h by (rule holdingE)
  note d = synth_invD [OF L(1)]
  let ?h = "snd (call_heap env (Free 0) (s_heap st))"
  have "heap_result (Free 0) (live_of env (s_heap st)) (fst (call_heap env (Free 0) (s_heap st))) (live_of env ?h)"
    using law unfolding lawful_def by blast
  moreover have "0 \<notin> live_of env (s_heap st)"
    using d(5) by (simp add: owned_def)
  ultimately have "live_of env ?h = live_of env (s_heap st)" by simp
  then have "synth_inv env (snd (heap_call env (Free 0) st)) L"
    using heap_inv [OF L(1), of ?h] d(5) heap_call_state [OF d(6), of "Free 0" env] by simp
  then have "holding env n w [] [] (snd (heap_call env (Free 0) st))"
    by (rule holdingI) (use L in simp_all)
  from holding_count [OF this] show ?thesis
    unfolding free_null_def by (intro holding_neutral) (simp_all add: neutral_def)
qed

lemma pay_local_holding:
  assumes "holding env n w [] [] st" and "lawful env"
  shows "pay_local_debt env w debt st = (debt', st') \<Longrightarrow> holding env n w [] [] st'"
proof -
  have "holding env n w [] [] ((free_null env w f ^^ k) s)" if "holding env n w [] [] s" for f k s
    using that assms(2) by (induction k) (simp_all add: free_null_holding)
  then show "pay_local_debt env w debt st = (debt', st') \<Longrightarrow> holding env n w [] [] st'"
    using assms(1) by (auto simp: pay_local_debt_def)
qed

lemma generate_call_holding:
  assumes h: "holding env n w [] [] st" and law: "lawful env" and n: "length (profile_threads (env_profile env)) = n"
    and g: "generate_call env w wr st = (b, wr', st')"
  shows "holding env n w [] [] st'"
proof -
  obtain f rest st1 where c: "choose_function w (remaining (wr_run wr)) (calls_left (wr_run wr)) st = ((f, rest), st1)"
    by (metis prod.exhaust)
  have h1: "holding env n w [] [] st1"
    using c holding_random [OF h, of w] by (auto simp: choose_function_def Let_def split: prod.splits)
  let ?pr = "(wr_run wr)\<lparr>remaining := rest, calls_left := calls_left (wr_run wr) - 1\<rparr>"
  let ?model = "worker_model env st w (wr_phase wr)"
  note g = g [unfolded generate_call_def Let_def c prod.case]
  show ?thesis
  proof (cases "is_allocation_function f")
    case False
    then show ?thesis
      using g remote_holding(1) [OF h1 law] run_local_free_holding [OF h1 law]
      by (auto split: prod.splits if_splits)
  next
    case True
    obtain target pr where p: "publish_choice env ?model ?pr = (target, pr)" by fastforce
    obtain force pr' where fp: "realloc_null_choice ?model f pr = (force, pr')" by fastforce
    let ?ok = "case target of None \<Rightarrow> False | Some t \<Rightarrow> length (profile_threads (env_profile env)) \<le> unat t"
    show ?thesis
    proof (cases ?ok)
      case bad: True
      then show ?thesis using g True h1 by (auto simp: p)
    next
      case False
      let ?t = "case target of None \<Rightarrow> INDEX_NONE | Some t \<Rightarrow> t"
      have t: "target \<noteq> None \<Longrightarrow> unat ?t < n"
        using False n by (auto split: option.splits)
      let ?s = "run_alloc_call env w (wr_phase wr) f (target \<noteq> None) ?t force st1"
      have "holding env n w [] [] ?s"
        by (rule run_alloc_call_holding [OF h1 law t])
      moreover obtain debt st2 where d: "drain_local_debt env w (local_debt wr) ?s = (debt, st2)" by fastforce
      ultimately have "holding env n w [] [] st2"
        using drain_local_holding [OF law] unfolding drain_local_debt_def by blast
      then show ?thesis
        using g True False d by (cases target) (auto simp: p fp)
    qed
  qed
qed

end
