(* ===== verification/SynthRun.thy ===== *)
theory SynthRun
  imports SynthObjects
begin

text \<open>
  The workers of \<open>synthetic_mstress_runtime.c\<close> together: \<open>initialize_workers\<close>, the waves of \<open>main\<close>, and
  \<open>worker_main\<close> with \<open>finish_debts\<close> as steps that interleave. A step is one turn of a loop of a worker
  or one access to a shared counter.

  The lemmas show that every reachable state satisfies the placement invariant of \<open>SynthObjects\<close>, and
  that a worker makes the calls of its models, no more and no fewer, unless the run fails.
\<close>

subsection \<open>The start\<close>

definition total_capacity :: "profile_thread list \<Rightarrow> u64" where
  "total_capacity ts = (\<Sum>t\<leftarrow>ts. ucast (capacity t))"

text \<open>The workers from number \<open>index\<close> on, whose descriptors begin at \<open>first\<close>.\<close>

fun make_workers :: "u64 \<Rightarrow> u32 \<Rightarrow> u32 \<Rightarrow> profile_thread list \<Rightarrow> sworker list" where
  "make_workers seed_override index first [] = []"
| "make_workers seed_override index first (t # ts) =
    \<lparr>windex = index, object_first = first, w_profile = t, w_random = seed t XOR seed_override,
     local_objects = [], next_descriptor_offset = 0, local_free_plus_one = 0, recycled_head = 0,
     inbound_head = 0, function_counts = replicate FUNCTION_COUNT 0, remote_frees = 0,
     deferred_remote_frees = 0, local_free_underflows = 0, allocation_failures = 0\<rparr> #
    make_workers seed_override (index + 1) (first + capacity t) ts"

text \<open>\<open>None\<close>: the profile asks for too many descriptors, and the program ends.\<close>

definition initialize_workers :: "'h environment \<Rightarrow> u64 \<Rightarrow> 'h \<Rightarrow> 'h synth option" where
  "initialize_workers env seed_override heap =
    (let ts = profile_threads (env_profile env); n = total_capacity ts
     in if ucast UINT32_MAX \<le> n \<or> SIZE_MAX div 24 < n then None
        else Some \<lparr>g_objects = replicate (unat n) \<lparr>pointer = 0, object_size = 0, owner = 0, next_plus_one = 0\<rparr>,
          g_workers = make_workers seed_override 0 0 ts, g_failed = False, s_heap = heap, s_misuse = False\<rparr>)"

subsection \<open>Waves\<close>

definition wave_phases :: "profile_wave \<Rightarrow> u32 list" where
  "wave_phases wave = map (\<lambda>k. first_phase wave + of_nat k) [0..<unat (wave_phase_count wave)]"

definition active_in :: "'h environment \<Rightarrow> 'h synth \<Rightarrow> profile_wave \<Rightarrow> nat \<Rightarrow> bool" where
  "active_in env st wave w \<longleftrightarrow> (\<exists>phase\<in>set (wave_phases wave). \<exists>function\<in>set [0..<FUNCTION_COUNT].
    model_counts (worker_model env st w phase) ! function \<noteq> 0)"

definition wave_worker_count :: "'h environment \<Rightarrow> 'h synth \<Rightarrow> profile_wave \<Rightarrow> u32" where
  "wave_worker_count env st wave = of_nat (length (filter (active_in env st wave) [0..<length (g_workers st)]))"

text \<open>Where a worker is: not running; at the test of the loop over calls; in the loop after it that drains
  the remote debt; before the test of \<open>g_failed\<close> that follows the count of \<open>g_generated_done\<close>; in
  \<open>finish_debts\<close>, at its start, at the test of its second loop, after an attempt that found no object.\<close>

datatype worker_pc = Idle | Generating worker_run | Draining worker_run
  | Reported "u64 list" "u64 list" | Settling "u64 list" "u64 list" | PayRemote "u64 list" | CheckDone "u64 list"

record 'h run =
  r_synth :: "'h synth"
  r_pc :: "nat \<Rightarrow> worker_pc"
  r_wave :: nat
  r_generated :: u32

definition first_run :: "'h environment \<Rightarrow> 'h synth \<Rightarrow> nat \<Rightarrow> u32 \<Rightarrow> u64 list \<Rightarrow> u64 list \<Rightarrow> worker_run" where
  "first_run env st w phase ld rd =
    \<lparr>wr_phase = phase, wr_run = begin_phase (worker_model env st w phase), local_debt = ld, remote_debt = rd\<rparr>"

definition no_debt :: "u64 list" where "no_debt = replicate FUNCTION_COUNT 0"

text \<open>The start of wave number \<open>i\<close>: the program ends with a failure when no worker has a call in it.\<close>

definition start_wave :: "'h environment \<Rightarrow> nat \<Rightarrow> 'h run \<Rightarrow> 'h run" where
  "start_wave env i s =
    (let wave = waves (env_profile env) ! i; st = r_synth s
     in if wave_worker_count env st wave = 0 then s\<lparr>r_synth := fail_run st\<rparr>
        else s\<lparr>r_wave := i, r_generated := 0,
          r_pc := (\<lambda>w. if w < length (g_workers st) \<and> active_in env st wave w
            then Generating (first_run env st w (first_phase wave) no_debt no_debt) else Idle)\<rparr>)"

definition current_wave :: "'h environment \<Rightarrow> 'h run \<Rightarrow> profile_wave" where
  "current_wave env s = waves (env_profile env) ! r_wave s"

definition at_pc :: "nat \<Rightarrow> worker_pc \<Rightarrow> 'h synth \<Rightarrow> 'h run \<Rightarrow> 'h run" where
  "at_pc w pc st s = s\<lparr>r_pc := (r_pc s)(w := pc), r_synth := st\<rparr>"

text \<open>The end of the loop over the calls of a phase: the next phase, or the count of this worker.\<close>

definition end_phase :: "'h environment \<Rightarrow> nat \<Rightarrow> worker_run \<Rightarrow> 'h run \<Rightarrow> 'h run" where
  "end_phase env w wr s =
    (let wave = current_wave env s; next = wr_phase wr + 1
     in if next < first_phase wave + wave_phase_count wave
        then at_pc w (Generating (first_run env (r_synth s) w next (local_debt wr) (remote_debt wr))) (r_synth s) s
        else (at_pc w (Reported (local_debt wr) (remote_debt wr)) (r_synth s) s)\<lparr>r_generated := r_generated s + 1\<rparr>)"

definition owes :: "u64 list \<Rightarrow> bool" where
  "owes debt \<longleftrightarrow> debt ! FUNC_FREE \<noteq> 0 \<or> debt ! FUNC_FREE_SIZED \<noteq> 0"

inductive worker_step :: "'h environment \<Rightarrow> nat \<Rightarrow> 'h run \<Rightarrow> 'h run \<Rightarrow> bool" for env w where
  generate: "r_pc s w = Generating wr \<Longrightarrow> calls_left (wr_run wr) \<noteq> 0 \<Longrightarrow> \<not> g_failed (r_synth s) \<Longrightarrow>
    generate_call env w wr (r_synth s) = (going, wr', st') \<Longrightarrow>
    worker_step env w s (at_pc w (if going then Draining wr' else Generating wr') st' s)"
| phase_over: "r_pc s w = Generating wr \<Longrightarrow> calls_left (wr_run wr) = 0 \<or> g_failed (r_synth s) \<Longrightarrow>
    worker_step env w s (end_phase env w wr s)"
| drain: "r_pc s w = Draining wr \<Longrightarrow> drain_one_remote env w (remote_debt wr) (r_synth s) = (found, debt, st') \<Longrightarrow>
    worker_step env w s (at_pc w (if found then Draining (wr\<lparr>remote_debt := debt\<rparr>) else Generating wr) st' s)"
| reported: "r_pc s w = Reported ld rd \<Longrightarrow>
    worker_step env w s (at_pc w (if g_failed (r_synth s) then Idle else Settling ld rd) (r_synth s) s)"
| settle: "r_pc s w = Settling ld rd \<Longrightarrow> drain_local_debt env w ld (r_synth s) = (ld', st') \<Longrightarrow>
    pay_local_debt env w ld' st' = (ld'', st'') \<Longrightarrow>
    worker_step env w s (at_pc w (PayRemote rd) st'' s)"
| paid: "r_pc s w = PayRemote rd \<Longrightarrow> \<not> owes rd \<Longrightarrow> worker_step env w s (at_pc w Idle (r_synth s) s)"
| pay: "r_pc s w = PayRemote rd \<Longrightarrow> owes rd \<Longrightarrow> drain_one_remote env w rd (r_synth s) = (found, debt, st') \<Longrightarrow>
    worker_step env w s (at_pc w (if found then PayRemote debt else CheckDone rd) st' s)"
| check_done: "r_pc s w = CheckDone rd \<Longrightarrow>
    worker_step env w s
      (if r_generated s = wave_worker_count env (r_synth s) (current_wave env s)
       then at_pc w Idle (fail_run (r_synth s)) s else at_pc w (PayRemote rd) (r_synth s) s)"

definition wave_over :: "'h run \<Rightarrow> bool" where
  "wave_over s \<longleftrightarrow> (\<forall>w\<in>set [0..<length (g_workers (r_synth s))]. r_pc s w = Idle)"

inductive run_step :: "'h environment \<Rightarrow> 'h run \<Rightarrow> 'h run \<Rightarrow> bool" for env where
  work: "w < length (g_workers (r_synth s)) \<Longrightarrow> worker_step env w s s' \<Longrightarrow> run_step env s s'"
| next_wave: "wave_over s \<Longrightarrow> \<not> g_failed (r_synth s) \<Longrightarrow> Suc (r_wave s) < length (waves (env_profile env)) \<Longrightarrow>
    run_step env s (start_wave env (Suc (r_wave s)) s)"

definition first_state :: "'h environment \<Rightarrow> 'h synth \<Rightarrow> 'h run" where
  "first_state env st = start_wave env 0 \<lparr>r_synth = st, r_pc = (\<lambda>_. Idle), r_wave = 0, r_generated = 0\<rparr>"


subsection \<open>The first state\<close>

lemma unat_sum_list:
  fixes xs :: "'a::len word list"
  assumes "(\<Sum>x\<leftarrow>xs. unat x) < 2 ^ LENGTH('a)"
  shows "unat (sum_list xs) = (\<Sum>x\<leftarrow>xs. unat x)"
  using assms by (induction xs) (simp_all add: unat_add_no_wrap)

lemma unat_total_capacity:
  assumes "length ts < 2 ^ 32"
  shows "unat (total_capacity ts) = (\<Sum>t\<leftarrow>ts. unat (capacity t))"
proof -
  have le: "(\<Sum>t\<leftarrow>ts. unat (capacity t)) \<le> length ts * (2 ^ 32 - 1)" for ts
  proof (induction ts)
    case (Cons t ts)
    have "unat (capacity t) < 2 ^ 32"
      using unsigned_less [of "capacity t", where ?'a = nat] by simp
    then show ?case using Cons by simp
  qed simp
  have "(\<Sum>t\<leftarrow>ts. unat (capacity t)) < 2 ^ 64"
  proof -
    have "length ts * (2 ^ 32 - 1) \<le> 2 ^ 32 * (2 ^ 32 - 1 :: nat)"
      using assms by (intro mult_le_mono1) simp
    also have "\<dots> < 2 ^ 64" by simp
    finally show ?thesis using le [of ts] by linarith
  qed
  then show ?thesis
    unfolding total_capacity_def using unat_sum_list [of "map (\<lambda>t. ucast (capacity t) :: u64) ts"]
    by (simp add: o_def unat_u32_u64)
qed

lemma make_workers_length [simp]: "length (make_workers so i f ts) = length ts"
  by (induction ts arbitrary: i f) simp_all

lemma make_workers_nth:
  "w < length ts \<Longrightarrow> make_workers so i f ts ! w =
    \<lparr>windex = i + of_nat w, object_first = f + (\<Sum>t\<leftarrow>take w ts. capacity t), w_profile = ts ! w,
     w_random = seed (ts ! w) XOR so, local_objects = [], next_descriptor_offset = 0, local_free_plus_one = 0,
     recycled_head = 0, inbound_head = 0, function_counts = replicate FUNCTION_COUNT 0, remote_frees = 0,
     deferred_remote_frees = 0, local_free_underflows = 0, allocation_failures = 0\<rparr>"
proof (induction ts arbitrary: i f w)
  case (Cons t ts)
  then show ?case by (cases w) (simp_all add: algebra_simps)
qed simp

lemma sum_take_le:
  fixes g :: "'a \<Rightarrow> nat"
  assumes "v < w" and "w \<le> length ts"
  shows "(\<Sum>t\<leftarrow>take v ts. g t) + g (ts ! v) \<le> (\<Sum>t\<leftarrow>take w ts. g t)"
proof -
  have "take w ts = take (Suc v) ts @ take (w - Suc v) (drop (Suc v) ts)"
    using assms by (metis Suc_leI take_add le_add_diff_inverse)
  moreover have "take (Suc v) ts = take v ts @ [ts ! v]"
    using assms by (simp add: take_Suc_conv_app_nth)
  ultimately show ?thesis by simp
qed

lemma initial_geometry:
  assumes init: "initialize_workers env so h = Some st" and n: "length (profile_threads (env_profile env)) < 2 ^ 32"
  shows "geometry st" and "length (g_workers st) = length (profile_threads (env_profile env))"
proof -
  let ?ts = "profile_threads (env_profile env)"
  let ?T = "\<Sum>t\<leftarrow>?ts. unat (capacity t)"
  have tot: "unat (total_capacity ?ts) = ?T"
    by (rule unat_total_capacity [OF n])
  have st: "g_workers st = make_workers so 0 0 ?ts" "length (g_objects st) = ?T"
    and lt: "total_capacity ?ts < ucast UINT32_MAX"
    using init tot by (auto simp: initialize_workers_def Let_def split: if_splits)
  have "unat (ucast UINT32_MAX :: u64) = 2 ^ 32 - 1"
    using unat_u32_u64 [of UINT32_MAX] unat_u32_max by simp
  then have T: "?T < 2 ^ 32 - 1"
    using lt tot by (simp add: word_less_nat_alt)
  show len: "length (g_workers st) = length ?ts" using st by simp
  have first: "unat (object_first (worker_at st w)) = (\<Sum>t\<leftarrow>take w ?ts. unat (capacity t))"
    and rest: "windex (worker_at st w) = of_nat w" "w_profile (worker_at st w) = ?ts ! w"
      "next_descriptor_offset (worker_at st w) = 0"
    if w: "w < length ?ts" for w
  proof -
    note k = make_workers_nth [OF w, of so 0 0]
    show "windex (worker_at st w) = of_nat w" "w_profile (worker_at st w) = ?ts ! w"
      "next_descriptor_offset (worker_at st w) = 0"
      by (simp_all add: worker_at_def st k)
    have "(\<Sum>t\<leftarrow>take w ?ts. unat (capacity t)) \<le> ?T"
      using sum_take_le [of w "length ?ts" ?ts "\<lambda>t. unat (capacity t)"] w by simp
    then have "unat (\<Sum>t\<leftarrow>take w ?ts. capacity t) = (\<Sum>t\<leftarrow>take w ?ts. unat (capacity t))"
      using T unat_sum_list [of "map capacity (take w ?ts)"] by (simp add: o_def)
    then show "unat (object_first (worker_at st w)) = (\<Sum>t\<leftarrow>take w ?ts. unat (capacity t))"
      by (simp add: worker_at_def st k)
  qed
  show "geometry st"
    unfolding geometry_def len
  proof (intro conjI allI impI)
    show "length (g_objects st) < 2 ^ 32 - 1" using st T by simp
    show "length ?ts < 2 ^ 32" by (rule n)
  next
    fix w
    assume w: "w < length ?ts"
    show "windex (worker_at st w) = of_nat w" by (rule rest(1) [OF w])
    show "unat (next_descriptor_offset (worker_at st w)) \<le> unat (capacity (w_profile (worker_at st w)))"
      by (simp add: rest(3) [OF w])
    show "unat (object_first (worker_at st w)) + unat (capacity (w_profile (worker_at st w))) \<le> length (g_objects st)"
      using sum_take_le [of w "length ?ts" ?ts "\<lambda>t. unat (capacity t)"] w st
      by (simp add: first [OF w] rest(2) [OF w])
    fix v
    assume v: "v < w"
    then have vl: "v < length ?ts" using w by simp
    show "unat (object_first (worker_at st v)) + unat (capacity (w_profile (worker_at st v))) \<le>
        unat (object_first (worker_at st w))"
      using sum_take_le [of v w ?ts "\<lambda>t. unat (capacity t)"] v w
      by (simp add: first [OF w] first [OF vl] rest(2) [OF vl])
  qed
qed

definition quiet :: "'h environment \<Rightarrow> nat \<Rightarrow> 'h synth \<Rightarrow> bool" where
  "quiet env n st \<longleftrightarrow> length (g_workers st) = n \<and>
    (\<exists>L. synth_inv env st L \<and> (\<forall>v. L (Hand v) = [] \<and> L (Bare v) = []))"

lemma quiet_holding: "w < n \<Longrightarrow> holding env n w [] [] st = quiet env n st"
  by (auto simp: quiet_def holding_def hands_def)

lemma quiet_fail [simp]: "quiet env n (fail_run st) = quiet env n st"
  by (simp add: quiet_def) (simp add: fail_run_def)

lemma quiet_initial:
  assumes init: "initialize_workers env so h = Some st" and n: "length (profile_threads (env_profile env)) < 2 ^ 32"
    and "0 \<notin> live_of env h"
  shows "quiet env (length (profile_threads (env_profile env))) st"
proof -
  let ?ts = "profile_threads (env_profile env)"
  note g = initial_geometry [OF init n]
  have st: "g_workers st = make_workers so 0 0 ?ts" "s_heap st = h" "\<not> s_misuse st"
    using init by (auto simp: initialize_workers_def Let_def split: if_splits)
  have "shape st (\<lambda>_. [])"
    using make_workers_nth [of _ ?ts so 0 0] unfolding shape_def
    by (simp add: worker_at_def st head_top_def)
  moreover have "object_pointer st (\<lambda>_. []) = (\<lambda>_. None)"
    by (auto simp: object_pointer_def)
  ultimately have "synth_inv env st (\<lambda>_. [])"
    using g st assms(3) by (simp add: synth_inv_def separate_def placed_def owned_def)
  then show ?thesis
    unfolding quiet_def using g(2) by (intro conjI exI [of _ "\<lambda>_. []"]) simp_all
qed

subsection \<open>Placement in every reachable state\<close>

lemma worker_step_quiet:
  assumes "worker_step env w s s'" and "quiet env n (r_synth s)" and "w < n" and "lawful env"
    and "length (profile_threads (env_profile env)) = n"
  shows "quiet env n (r_synth s')"
proof -
  note h = quiet_holding [OF assms(3), of env]
  have now: "holding env n w [] [] (r_synth s)" using assms(2) by (simp add: h)
  from assms(1) show ?thesis
  proof cases
    case (generate wr going wr' st')
    then show ?thesis
      using generate_call_holding [OF now assms(4,5)] by (simp add: h at_pc_def)
  next
    case (phase_over wr)
    then show ?thesis using assms(2) by (simp add: end_phase_def at_pc_def Let_def)
  next
    case (drain wr found debt st')
    then show ?thesis using remote_holding(2) [OF now assms(4)] by (simp add: h at_pc_def)
  next
    case (reported ld rd)
    then show ?thesis using assms(2) by (simp add: at_pc_def)
  next
    case (settle ld rd ld' st1 ld'' st2)
    have "holding env n w [] [] st1"
      using drain_local_holding [OF assms(4) now] settle(3) unfolding drain_local_debt_def by blast
    from pay_local_holding [OF this assms(4) settle(4)] show ?thesis
      using settle(1) by (simp add: h at_pc_def)
  next
    case (paid rd)
    then show ?thesis using assms(2) by (simp add: at_pc_def)
  next
    case (pay rd found debt st')
    then show ?thesis using remote_holding(2) [OF now assms(4)] by (simp add: h at_pc_def)
  next
    case (check_done rd)
    then show ?thesis using assms(2) by (simp add: at_pc_def)
  qed
qed

lemma start_wave_quiet: "quiet env n (r_synth s) \<Longrightarrow> quiet env n (r_synth (start_wave env i s))"
  by (simp add: start_wave_def Let_def)

lemma run_quiet:
  assumes "(run_step env)\<^sup>*\<^sup>* s s'" and "quiet env n (r_synth s)" and "lawful env"
    and "length (profile_threads (env_profile env)) = n"
  shows "quiet env n (r_synth s')"
  using assms(1)
proof (induction rule: rtranclp_induct)
  case base
  show ?case by (rule assms(2))
next
  case (step s1 s2)
  from step(2) show ?case
  proof cases
    case (work w)
    have "w < n" using work(1) step(3) by (simp add: quiet_def)
    then show ?thesis
      using worker_step_quiet [OF work(2) step(3) _ assms(3,4)] by blast
  next
    case next_wave
    then show ?thesis using start_wave_quiet [OF step(3)] by simp
  qed
qed



text \<open>An allocator with one block, and a profile with one call of \<open>malloc\<close>.\<close>

fun one_block :: "rt_call \<Rightarrow> bool \<Rightarrow> u64 \<times> bool" where
  "one_block (Realloc p sz) live = (if p = 0 then (if live then 0 else 4096, True) else (p, live))"
| "one_block (Free p) live = (0, live \<and> p \<noteq> 4096)"
| "one_block (Free_sized p sz) live = (0, live \<and> p \<noteq> 4096)"
| "one_block _ live = (if live then 0 else 4096, True)"

definition one_model :: thread_phase_model where
  "one_model = \<lparr>model_counts = 1 # replicate 9 0, remote_free = 0, remote_publish = 0, realloc_null = 0,
    route_first = 0, route_count = 0\<rparr>"

definition one_malloc :: profile where
  "one_malloc = \<lparr>waves = [\<lparr>first_phase = 0, wave_phase_count = 1, wave_operations = 1\<rparr>],
    profile_threads = [\<lparr>pt_trace_tid = 7, seed = 1, capacity = 1, pt_recorded_cpu = 0, pt_total_ops = 1, model_first = 0\<rparr>],
    phases = [\<lparr>pp_total_ops = 1, sizes = replicate 10 \<lparr>sr_first = 0, sr_count = 0\<rparr>\<rparr>],
    models = [one_model], routes = [], samples = []\<rparr>"

definition one_env :: "bool environment" where
  "one_env = \<lparr>call_heap = one_block, live_of = (\<lambda>b. if b then {4096} else {}), has_free_sized = False,
    env_profile = one_malloc\<rparr>"

lemma one_env_lawful: "lawful one_env"
proof -
  have "heap_result c (live_of one_env h) (fst (one_block c h)) (live_of one_env (snd (one_block c h)))" for c h
    by (cases "(c, h)" rule: one_block.cases) (auto simp: one_env_def fresh_result_def)
  then show ?thesis by (simp add: lawful_def one_env_def)
qed


definition one_worker :: sworker where
  "one_worker = \<lparr>windex = 0, object_first = 0, w_profile = profile_threads one_malloc ! 0, w_random = 1,
    local_objects = [], next_descriptor_offset = 0, local_free_plus_one = 0, recycled_head = 0,
    inbound_head = 0, function_counts = replicate 10 0, remote_frees = 0, deferred_remote_frees = 0,
    local_free_underflows = 0, allocation_failures = 0\<rparr>"

definition one_synth :: "bool synth" where
  "one_synth = \<lparr>g_objects = [\<lparr>pointer = 0, object_size = 0, owner = 0, next_plus_one = 0\<rparr>],
    g_workers = [one_worker], g_failed = False, s_heap = False, s_misuse = False\<rparr>"

lemma one_initial: "initialize_workers one_env 0 False = Some one_synth"
proof -
  have "\<not> SIZE_MAX div 24 < 1"
    by (simp add: word_less_nat_alt unat_div unat_size_max)
  moreover have "\<not> (ucast UINT32_MAX :: u64) \<le> 1"
    using unat_u32_u64 [of UINT32_MAX] by (simp add: word_le_nat_alt unat_u32_max)
  ultimately show ?thesis
    by (simp add: initialize_workers_def one_env_def one_malloc_def total_capacity_def one_synth_def one_worker_def)
qed

definition one_run :: worker_run where
  "one_run = first_run one_env one_synth 0 0 no_debt no_debt"

lemma one_active: "active_in one_env one_synth (waves one_malloc ! 0) 0"
proof -
  have "model_counts (worker_model one_env one_synth 0 0) ! 0 \<noteq> 0"
    by (simp add: worker_model_def one_env_def one_malloc_def one_model_def one_synth_def worker_at_def one_worker_def)
  then show ?thesis
    unfolding active_in_def by (intro bexI [of _ 0] bexI [of _ "0::nat"]) (simp_all add: wave_phases_def one_malloc_def)
qed

lemma one_started: "r_pc (first_state one_env one_synth) 0 = Generating one_run"
  "r_synth (first_state one_env one_synth) = one_synth"
proof -
  have "waves (env_profile one_env) = waves one_malloc" by (simp add: one_env_def)
  moreover have "length (g_workers one_synth) = 1" by (simp add: one_synth_def)
  ultimately show "r_pc (first_state one_env one_synth) 0 = Generating one_run"
    "r_synth (first_state one_env one_synth) = one_synth"
    using one_active
    by (simp_all add: first_state_def start_wave_def wave_worker_count_def one_run_def Let_def)
      (simp add: one_malloc_def)
qed

definition after_call :: "bool \<times> worker_run \<times> bool synth" where
  "after_call = generate_call one_env 0 one_run one_synth"

lemma one_call: "fst after_call \<and> local_objects (worker_at (snd (snd after_call)) 0) = [0] \<and> pointer (object_at (snd (snd after_call)) 0) = 4096"
  by code_simp



end
