(* ===== verification/ImageBytes.thy ===== *)
theory ImageBytes
  imports Prelude
begin

text \<open>
  The images that \<open>trace_to_native.py\<close> and \<open>rply_to_mstress.py\<close> append to an executable, as bytes: the
  little-endian fields of the packed structures, arrays of them, and the range test that both
  runtimes make before they use an offset of the image.
\<close>

text \<open>Reads beyond the file fall in the rest of its last page, which is zero.\<close>

definition byte_at :: "u8 list \<Rightarrow> nat \<Rightarrow> u8" where
  "byte_at file i = (if i < length file then file ! i else 0)"

definition le_word :: "nat \<Rightarrow> u8 list \<Rightarrow> nat \<Rightarrow> 'a::len word" where
  "le_word n file i = foldr (\<lambda>k w. push_bit 8 w OR ucast (byte_at file (i + k))) [0..<n] 0"

definition u16_at :: "u8 list \<Rightarrow> nat \<Rightarrow> u16" where "u16_at = le_word 2"
definition u32_at :: "u8 list \<Rightarrow> nat \<Rightarrow> u32" where "u32_at = le_word 4"
definition u64_at :: "u8 list \<Rightarrow> nat \<Rightarrow> u64" where "u64_at = le_word 8"

definition bytes_at :: "u8 list \<Rightarrow> nat \<Rightarrow> nat \<Rightarrow> u8 list" where
  "bytes_at file i n = map (\<lambda>k. byte_at file (i + k)) [0..<n]"

text \<open>\<open>n\<close> structures of \<open>element\<close> bytes from \<open>i\<close> on.\<close>

definition array_at :: "(u8 list \<Rightarrow> nat \<Rightarrow> 'a) \<Rightarrow> nat \<Rightarrow> u8 list \<Rightarrow> nat \<Rightarrow> nat \<Rightarrow> 'a list" where
  "array_at read element file i n = map (\<lambda>k. read file (i + element * k)) [0..<n]"

lemma array_at_length [simp]: "length (array_at read element file i n) = n"
  by (simp add: array_at_def)

lemma array_at_nth [simp]: "k < n \<Longrightarrow> array_at read element file i n ! k = read file (i + element * k)"
  by (simp add: array_at_def)

definition range_valid :: "u64 \<Rightarrow> u64 \<Rightarrow> u64 \<Rightarrow> u64 \<Rightarrow> bool" where
  "range_valid offset n element image_size \<longleftrightarrow> offset \<le> image_size \<and> n \<le> (image_size - offset) div element"

lemma range_valid_bound:
  assumes "range_valid offset n element image_size" and "element \<noteq> 0"
  shows "unat offset + unat n * unat element \<le> unat image_size"
proof -
  have o: "unat offset \<le> unat image_size"
    using assms(1) by (simp add: range_valid_def word_le_nat_alt)
  have "unat n \<le> (unat image_size - unat offset) div unat element"
    using assms(1) o by (simp add: range_valid_def word_le_nat_alt unat_div unat_sub_no_wrap)
  then have "unat n * unat element \<le> (unat image_size - unat offset) div unat element * unat element"
    by (rule mult_le_mono1)
  also have "\<dots> \<le> unat image_size - unat offset" by simp
  finally show ?thesis using o by simp
qed

text \<open>The bytes of an ASCII string.\<close>

definition ascii :: "string \<Rightarrow> u8 list" where
  "ascii s = map (\<lambda>c. of_nat (of_char c)) s"

end
