(* ===== verification/SynthProfile.thy ===== *)
theory SynthProfile
  imports SynthRun ImageBytes
begin

text \<open>
  \<open>load_profile\<close> of \<open>synthetic_mstress_runtime.c\<close>: the profile that is appended to the executable, from
  the bytes of the file to the lists that the workers read, with the tests that reject it.
\<close>

subsection \<open>The image\<close>

record profile_header =
  hd_magic :: "u8 list"
  hd_version :: u32
  header_size :: u32
  thread_count :: u32
  phase_count :: u32
  function_count :: u32
  wave_count :: u32
  total_ops :: u64
  thread_offset :: u64
  phase_offset :: u64
  model_offset :: u64
  route_offset :: u64
  sample_offset :: u64
  image_size :: u64

definition header_at :: "u8 list \<Rightarrow> nat \<Rightarrow> profile_header" where
  "header_at file i =
    \<lparr>hd_magic = bytes_at file i 8, hd_version = u32_at file (i + 8), header_size = u32_at file (i + 12),
     thread_count = u32_at file (i + 16), phase_count = u32_at file (i + 20),
     function_count = u32_at file (i + 24), wave_count = u32_at file (i + 28), total_ops = u64_at file (i + 32),
     thread_offset = u64_at file (i + 40), phase_offset = u64_at file (i + 48),
     model_offset = u64_at file (i + 56), route_offset = u64_at file (i + 64),
     sample_offset = u64_at file (i + 72), image_size = u64_at file (i + 80)\<rparr>"

definition wave_at :: "u8 list \<Rightarrow> nat \<Rightarrow> profile_wave" where
  "wave_at file i = \<lparr>first_phase = u32_at file i, wave_phase_count = u32_at file (i + 4),
    wave_operations = u64_at file (i + 8)\<rparr>"

definition thread_at :: "u8 list \<Rightarrow> nat \<Rightarrow> profile_thread" where
  "thread_at file i = \<lparr>pt_trace_tid = u64_at file i, seed = u64_at file (i + 8), capacity = u32_at file (i + 16),
    pt_recorded_cpu = u32_at file (i + 20), pt_total_ops = u64_at file (i + 24), model_first = u64_at file (i + 32)\<rparr>"

definition range_at :: "u8 list \<Rightarrow> nat \<Rightarrow> sample_range" where
  "range_at file i = \<lparr>sr_first = u32_at file i, sr_count = u32_at file (i + 4)\<rparr>"

definition phase_at :: "u8 list \<Rightarrow> nat \<Rightarrow> profile_phase" where
  "phase_at file i = \<lparr>pp_total_ops = u64_at file i, sizes = array_at range_at 8 file (i + 8) FUNCTION_COUNT\<rparr>"

definition model_at :: "u8 list \<Rightarrow> nat \<Rightarrow> thread_phase_model" where
  "model_at file i = \<lparr>model_counts = array_at u64_at 8 file i FUNCTION_COUNT, remote_free = u64_at file (i + 80),
    remote_publish = u64_at file (i + 88), realloc_null = u64_at file (i + 96),
    route_first = u64_at file (i + 104), route_count = u32_at file (i + 112)\<rparr>"

definition route_at :: "u8 list \<Rightarrow> nat \<Rightarrow> remote_route" where
  "route_at file i = \<lparr>target_thread = u32_at file i, route_share = u64_at file (i + 8)\<rparr>"

subsection \<open>The tests\<close>

definition PROFILE_VERSION :: u32 where "PROFILE_VERSION = 2"

definition header_valid :: "profile_header \<Rightarrow> u64 \<Rightarrow> bool" where
  "header_valid hdr trailer_size \<longleftrightarrow>
    hd_magic hdr = ascii ''MSRUN001'' \<and> hd_version hdr = PROFILE_VERSION \<and> header_size hdr = 88 \<and>
    function_count hdr = of_nat FUNCTION_COUNT \<and> image_size hdr = trailer_size \<and>
    thread_count hdr \<noteq> 0 \<and> phase_count hdr \<noteq> 0 \<and> wave_count hdr \<noteq> 0"

definition model_count :: "profile_header \<Rightarrow> u64" where
  "model_count hdr = ucast (thread_count hdr) * ucast (phase_count hdr)"

definition offsets_valid :: "profile_header \<Rightarrow> bool" where
  "offsets_valid hdr \<longleftrightarrow>
    range_valid 88 (ucast (wave_count hdr)) 16 (image_size hdr) \<and>
    range_valid (thread_offset hdr) (ucast (thread_count hdr)) 40 (image_size hdr) \<and>
    range_valid (phase_offset hdr) (ucast (phase_count hdr)) 88 (image_size hdr) \<and>
    range_valid (model_offset hdr) (model_count hdr) 120 (image_size hdr) \<and>
    route_offset hdr \<le> sample_offset hdr \<and> sample_offset hdr \<le> image_size hdr"

text \<open>The loop over the waves: the phase after the last wave, and the sum of the operations.\<close>

fun check_waves :: "u32 \<Rightarrow> profile_wave list \<Rightarrow> u32 \<Rightarrow> u64 \<Rightarrow> (u32 \<times> u64) option" where
  "check_waves n [] expected operations = Some (expected, operations)"
| "check_waves n (wave # ws) expected operations =
    (if first_phase wave \<noteq> expected \<or> wave_phase_count wave = 0 \<or>
        n - expected < wave_phase_count wave
     then None
     else check_waves n ws (expected + wave_phase_count wave) (operations + wave_operations wave))"

definition samples_valid :: "profile \<Rightarrow> u64 \<Rightarrow> bool" where
  "samples_valid p sample_count \<longleftrightarrow> (\<forall>phase\<in>set (phases p). \<forall>rg\<in>set (sizes phase).
    (ucast (sr_first rg) :: u64) + ucast (sr_count rg) \<le> sample_count)"

definition routes_valid :: "profile \<Rightarrow> u64 \<Rightarrow> bool" where
  "routes_valid p g_route_count \<longleftrightarrow>
    (\<forall>model\<in>set (models p). route_first model + ucast (route_count model) \<le> g_route_count)"

definition profile_of :: "u8 list \<Rightarrow> nat \<Rightarrow> profile_header \<Rightarrow> profile" where
  "profile_of file i hdr =
    \<lparr>waves = array_at wave_at 16 file (i + 88) (unat (wave_count hdr)),
     profile_threads = array_at thread_at 40 file (i + unat (thread_offset hdr)) (unat (thread_count hdr)),
     phases = array_at phase_at 88 file (i + unat (phase_offset hdr)) (unat (phase_count hdr)),
     models = array_at model_at 120 file (i + unat (model_offset hdr)) (unat (model_count hdr)),
     routes = array_at route_at 16 file (i + unat (route_offset hdr))
       (unat ((sample_offset hdr - route_offset hdr) div 16)),
     samples = array_at u64_at 8 file (i + unat (sample_offset hdr))
       (unat ((image_size hdr - sample_offset hdr) div 8))\<rparr>"

text \<open>\<open>None\<close>: the program prints an error and exits.\<close>

definition load_profile :: "u8 list \<Rightarrow> (profile_header \<times> profile) option" where
  "load_profile file =
    (let t = length file - 24; trailer_size = u64_at file (t + 8)
     in if length file < 24 \<or> bytes_at file t 8 \<noteq> ascii ''MSEND001'' \<or>
          u64_at file (t + 16) \<noteq> ucast PROFILE_VERSION \<or> t < unat trailer_size
        then None
        else
          let i = t - unat trailer_size; hdr = header_at file i; p = profile_of file i hdr
          in if \<not> header_valid hdr trailer_size \<or> \<not> offsets_valid hdr then None
             else case check_waves (phase_count hdr) (waves p) 0 0 of
               None \<Rightarrow> None
             | Some (expected, operations) \<Rightarrow>
                 if expected \<noteq> phase_count hdr \<or> operations \<noteq> total_ops hdr \<or>
                    \<not> samples_valid p ((image_size hdr - sample_offset hdr) div 8) \<or>
                    \<not> routes_valid p ((sample_offset hdr - route_offset hdr) div 16)
                 then None else Some (hdr, p))"

subsection \<open>What an accepted profile satisfies\<close>

lemma check_waves_phases:
  assumes "check_waves pc ws e ops = Some (e', ops')" and "unat e \<le> unat pc"
  shows "unat e' \<le> unat pc \<and> unat e \<le> unat e' \<and> concat (map wave_phases ws) = map of_nat [unat e..<unat e'] \<and>
    (\<forall>wave\<in>set ws. unat (first_phase wave) + unat (wave_phase_count wave) \<le> unat pc)"
  using assms
proof (induction ws arbitrary: e ops)
  case (Cons wave ws)
  let ?n = "wave_phase_count wave"
  have c: "first_phase wave = e" "?n \<le> pc - e" "check_waves pc ws (e + ?n) (ops + wave_operations wave) = Some (e', ops')"
    using Cons.prems(1) by (auto split: if_splits)
  then have n: "unat e + unat ?n \<le> unat pc"
    using Cons.prems(2) by (simp add: word_le_nat_alt unat_sub_no_wrap)
  then have u: "unat (e + ?n) = unat e + unat ?n"
    using unsigned_less [of pc, where ?'a = nat] by (intro unat_add_no_wrap) simp
  have ih: "unat e' \<le> unat pc" "unat e + unat ?n \<le> unat e'"
    "concat (map wave_phases ws) = map of_nat [unat e + unat ?n..<unat e']"
    "\<forall>wave\<in>set ws. unat (first_phase wave) + unat (wave_phase_count wave) \<le> unat pc"
    using Cons.IH [OF c(3)] n u by auto
  have "wave_phases wave = map of_nat [unat e..<unat e + unat ?n]"
    unfolding wave_phases_def c(1) by (auto intro!: nth_equalityI simp: add.commute)
  then have "concat (map wave_phases (wave # ws)) = map of_nat ([unat e..<unat e + unat ?n] @ [unat e + unat ?n..<unat e'])"
    using ih(3) by simp
  also have "[unat e..<unat e + unat ?n] @ [unat e + unat ?n..<unat e'] = [unat e..<unat e']"
    using ih(2) upt_add_eq_append [of "unat e" "unat e + unat ?n" "unat e' - (unat e + unat ?n)"] by simp
  finally show ?case using ih n c(1) by simp
qed simp

definition wave_end :: "profile_wave \<Rightarrow> nat" where
  "wave_end wave = unat (first_phase wave) + unat (wave_phase_count wave)"

lemma check_waves_nth:
  assumes "check_waves pc ws e ops = Some (e', ops')" and "unat e \<le> unat pc" and "i < length ws"
  shows "unat (first_phase (ws ! i)) = (if i = 0 then unat e else wave_end (ws ! (i - 1)))"
    and "wave_phase_count (ws ! i) \<noteq> 0" and "wave_end (last ws) = unat e'"
proof -
  have "unat (first_phase (ws ! i)) = (if i = 0 then unat e else wave_end (ws ! (i - 1))) \<and>
      wave_phase_count (ws ! i) \<noteq> 0 \<and> wave_end (last ws) = unat e'"
    using assms
  proof (induction ws arbitrary: e ops i)
    case (Cons wave ws)
    let ?n = "wave_phase_count wave"
    have c: "first_phase wave = e" "?n \<noteq> 0" "?n \<le> pc - e"
      "check_waves pc ws (e + ?n) (ops + wave_operations wave) = Some (e', ops')"
      using Cons.prems(1) by (auto split: if_splits)
    then have n: "unat e + unat ?n \<le> unat pc"
      using Cons.prems(2) by (simp add: word_le_nat_alt unat_sub_no_wrap)
    then have u: "unat (e + ?n) = unat e + unat ?n"
      using unsigned_less [of pc, where ?'a = nat] by (intro unat_add_no_wrap) simp
    show ?case
    proof (cases ws)
      case Nil
      then show ?thesis using c u Cons.prems(3) by (simp add: wave_end_def)
    next
      case (Cons wave' ws')
      have l: "unat (e + ?n) \<le> unat pc" using n u by simp
      note ih = Cons.IH [OF c(4) l]
      have "wave_end (last ws) = unat e'" using ih [of 0] Cons by simp
      then show ?thesis
        using c(1,2) u ih [of "i - 1"] Cons.prems(3) Cons
        by (cases i) (auto simp: wave_end_def nth_Cons split: nat.splits)
    qed
  qed simp
  then show "unat (first_phase (ws ! i)) = (if i = 0 then unat e else wave_end (ws ! (i - 1)))"
    "wave_phase_count (ws ! i) \<noteq> 0" "wave_end (last ws) = unat e'" by blast+
qed

lemma range_list:
  assumes "range_valid offset n element bytes" and "element \<noteq> 0"
  shows "unat offset + unat element * unat n \<le> unat bytes"
  using range_valid_bound [OF assms] by (simp add: mult.commute)

lemma range_word_bound:
  assumes "(ucast (a :: u32) :: u64) + ucast b \<le> n"
  shows "unat a + unat (b :: u32) \<le> unat n"
proof -
  have "unat a < 2 ^ 32" "unat b < 2 ^ 32"
    using unsigned_less [of a, where ?'a = nat] unsigned_less [of b, where ?'a = nat] by simp_all
  then have "unat ((ucast a :: u64) + ucast b) = unat a + unat b"
    by (subst unat_add_no_wrap) (simp_all add: unat_u32_u64)
  then show ?thesis using assms by (simp add: word_le_nat_alt)
qed

definition in_image :: "nat \<Rightarrow> nat \<Rightarrow> nat \<Rightarrow> nat \<Rightarrow> bool" where
  "in_image first element n bytes \<longleftrightarrow> first + element * n \<le> bytes"

lemma load_profile_spec:
  assumes "load_profile file = Some (hdr, p)"
  shows "24 + unat (image_size hdr) \<le> length file" (is ?file)
    and "in_image 88 16 (length (waves p)) (unat (image_size hdr))" (is ?waves)
    and "in_image (unat (thread_offset hdr)) 40 (length (profile_threads p)) (unat (image_size hdr))" (is ?threads)
    and "in_image (unat (phase_offset hdr)) 88 (length (phases p)) (unat (image_size hdr))" (is ?phases)
    and "in_image (unat (model_offset hdr)) 120 (length (models p)) (unat (image_size hdr))" (is ?models)
    and "in_image (unat (route_offset hdr)) 16 (length (routes p)) (unat (sample_offset hdr))" (is ?routes)
    and "in_image (unat (sample_offset hdr)) 8 (length (samples p)) (unat (image_size hdr))" (is ?samples)
    and "length (profile_threads p) = unat (thread_count hdr)" and "length (phases p) = unat (phase_count hdr)"
    and "length (models p) = unat (thread_count hdr) * unat (phase_count hdr)"
    and "concat (map wave_phases (waves p)) = map of_nat [0..<unat (phase_count hdr)]"
    and "wave \<in> set (waves p) \<Longrightarrow> unat (first_phase wave) + unat (wave_phase_count wave) \<le> unat (phase_count hdr)"
    and "phase \<in> set (phases p) \<Longrightarrow> rg \<in> set (sizes phase) \<Longrightarrow>
      unat (sr_first rg) + unat (sr_count rg) \<le> length (samples p)"
    and "model \<in> set (models p) \<Longrightarrow> unat (route_first model + ucast (route_count model)) \<le> length (routes p)"
    and "waves p \<noteq> []" and "profile_threads p \<noteq> []" and "length (profile_threads p) < 2 ^ 32"
    and "\<exists>ops. check_waves (phase_count hdr) (waves p) 0 0 = Some (phase_count hdr, ops)"
    and "model \<in> set (models p) \<Longrightarrow> length (model_counts model) = FUNCTION_COUNT"
proof -
  let ?t = "length file - 24"
  let ?size = "u64_at file (?t + 8)"
  let ?i = "?t - unat ?size"
  obtain e ops where l: "24 \<le> length file" "unat ?size \<le> ?t" "hdr = header_at file ?i" "p = profile_of file ?i hdr"
    "header_valid hdr ?size" "offsets_valid hdr" "check_waves (phase_count hdr) (waves p) 0 0 = Some (e, ops)"
    "e = phase_count hdr" "samples_valid p ((image_size hdr - sample_offset hdr) div 8)"
    "routes_valid p ((sample_offset hdr - route_offset hdr) div 16)"
    using assms unfolding load_profile_def Let_def by (auto split: if_splits option.splits)
  have size: "image_size hdr = ?size"
    using l(5) by (simp add: header_valid_def)
  show ?file using l(1,2) by (simp add: size)
  note o = l(6) [unfolded offsets_valid_def]
  have le: "unat (route_offset hdr) \<le> unat (sample_offset hdr)" "unat (sample_offset hdr) \<le> unat (image_size hdr)"
    using o by (simp_all add: word_le_nat_alt)
  have tc: "unat (thread_count hdr) < 2 ^ 32" "unat (phase_count hdr) < 2 ^ 32"
    using unsigned_less [of "thread_count hdr", where ?'a = nat] unsigned_less [of "phase_count hdr", where ?'a = nat]
    by simp_all
  have "unat (thread_count hdr) * unat (phase_count hdr) < 2 ^ 32 * 2 ^ 32"
    using tc by (intro mult_strict_mono) simp_all
  then have mc: "unat (model_count hdr) = unat (thread_count hdr) * unat (phase_count hdr)"
    by (simp add: model_count_def unat_word_ariths unat_u32_u64)
  have len: "length (waves p) = unat (wave_count hdr)" "length (profile_threads p) = unat (thread_count hdr)"
    "length (phases p) = unat (phase_count hdr)" "length (models p) = unat (model_count hdr)"
    "length (routes p) = (unat (sample_offset hdr) - unat (route_offset hdr)) div 16"
    "length (samples p) = (unat (image_size hdr) - unat (sample_offset hdr)) div 8"
    unfolding l(4) using le by (simp_all add: profile_of_def unat_div unat_sub_no_wrap)
  show ?waves ?threads ?phases ?models
    using range_list [of 88 "ucast (wave_count hdr)" 16 "image_size hdr"]
      range_list [of "thread_offset hdr" "ucast (thread_count hdr)" 40 "image_size hdr"]
      range_list [of "phase_offset hdr" "ucast (phase_count hdr)" 88 "image_size hdr"]
      range_list [of "model_offset hdr" "model_count hdr" 120 "image_size hdr"] o
    by (simp_all add: in_image_def len unat_u32_u64)
  show ?routes ?samples
    using le by (simp_all add: in_image_def len)
  show "length (profile_threads p) = unat (thread_count hdr)" "length (phases p) = unat (phase_count hdr)"
    "length (models p) = unat (thread_count hdr) * unat (phase_count hdr)" "length (profile_threads p) < 2 ^ 32"
    using len mc tc by simp_all
  note w = check_waves_phases [OF l(7)]
  show "concat (map wave_phases (waves p)) = map of_nat [0..<unat (phase_count hdr)]"
    using w l(8) by simp
  show "wave \<in> set (waves p) \<Longrightarrow> unat (first_phase wave) + unat (wave_phase_count wave) \<le> unat (phase_count hdr)"
    using w by simp
  show "unat (sr_first rg) + unat (sr_count rg) \<le> length (samples p)"
    if "phase \<in> set (phases p)" "rg \<in> set (sizes phase)"
  proof -
    have "(ucast (sr_first rg) :: u64) + ucast (sr_count rg) \<le> (image_size hdr - sample_offset hdr) div 8"
      using l(9) that unfolding samples_valid_def by blast
    from range_word_bound [OF this] show ?thesis
      using le by (simp add: len unat_div unat_sub_no_wrap)
  qed
  show "unat (route_first model + ucast (route_count model)) \<le> length (routes p)" if "model \<in> set (models p)"
  proof -
    have "route_first model + ucast (route_count model) \<le> (sample_offset hdr - route_offset hdr) div 16"
      using l(10) that unfolding routes_valid_def by blast
    then show ?thesis
      using le by (simp add: len word_le_nat_alt unat_div unat_sub_no_wrap)
  qed
  show "\<exists>ops. check_waves (phase_count hdr) (waves p) 0 0 = Some (phase_count hdr, ops)"
    using l(7,8) by simp
  show "model \<in> set (models p) \<Longrightarrow> length (model_counts model) = FUNCTION_COUNT"
    unfolding l(4) by (auto simp: profile_of_def array_at_def model_at_def)
  show "waves p \<noteq> []" "profile_threads p \<noteq> []"
    using l(5) len(1,2) unfolding header_valid_def by (auto simp: unat_eq_zero)
qed

text \<open>C35: A profile that \<open>load_profile\<close> accepts keeps the workers in the image. The waves, threads, phases and
  models lie in it one after the other as the header says, the routes and samples between their
  offsets; the waves split the phases, in order and without a gap; and the index of each size sample that a
  worker can draw is below the number of samples. The test of the routes adds in 64 bits: without a
  wrap of that sum the routes of a model are routes of the profile.\<close>

theorem profile_accesses_in_bounds:
  assumes "load_profile file = Some (hdr, p)"
  shows "24 + unat (image_size hdr) \<le> length file \<and>
    in_image 88 16 (length (waves p)) (unat (image_size hdr)) \<and>
    in_image (unat (thread_offset hdr)) 40 (length (profile_threads p)) (unat (image_size hdr)) \<and>
    in_image (unat (phase_offset hdr)) 88 (length (phases p)) (unat (image_size hdr)) \<and>
    in_image (unat (model_offset hdr)) 120 (length (models p)) (unat (image_size hdr)) \<and>
    in_image (unat (route_offset hdr)) 16 (length (routes p)) (unat (sample_offset hdr)) \<and>
    in_image (unat (sample_offset hdr)) 8 (length (samples p)) (unat (image_size hdr)) \<and>
    length (models p) = length (profile_threads p) * length (phases p) \<and>
    concat (map wave_phases (waves p)) = map of_nat [0..<length (phases p)] \<and>
    (\<forall>phase\<in>set (phases p). \<forall>rg\<in>set (sizes phase). sr_count rg \<noteq> 0 \<longrightarrow>
      (\<forall>v. unat (ucast (sr_first rg) + v mod ucast (sr_count rg) :: u64) < length (samples p))) \<and>
    (\<forall>model\<in>set (models p). unat (route_first model) + unat (route_count model) < 2 ^ 64 \<longrightarrow>
      (\<forall>k<unat (route_count model). unat (route_first model + of_nat k) < length (routes p)))"
proof -
  note l = load_profile_spec [OF assms]
  have "unat (ucast (sr_first rg) + v mod ucast (sr_count rg) :: u64) < length (samples p)"
    if rg: "phase \<in> set (phases p)" "rg \<in> set (sizes phase)" and nz: "sr_count rg \<noteq> 0" for phase rg and v :: u64
  proof -
    have "unat (v mod ucast (sr_count rg)) < unat (sr_count rg)"
      using nz by (simp add: unat_mod_distrib unat_u32_u64 unat_gt_0)
    moreover have "unat (sr_first rg) + unat (sr_count rg) \<le> length (samples p)"
      using l(13) [OF rg] .
    moreover have "unat (sr_first rg) < 2 ^ 32" "unat (sr_count rg) < 2 ^ 32"
      using unsigned_less [of "sr_first rg", where ?'a = nat] unsigned_less [of "sr_count rg", where ?'a = nat] by simp_all
    ultimately show ?thesis
      by (subst unat_add_no_wrap) (simp_all add: unat_u32_u64)
  qed
  moreover have "unat (route_first model + of_nat k) < length (routes p)"
    if mo: "model \<in> set (models p)" and nw: "unat (route_first model) + unat (route_count model) < 2 ^ 64"
      and k: "k < unat (route_count model)" for model k
  proof -
    have "unat (route_first model + ucast (route_count model)) = unat (route_first model) + unat (route_count model)"
      using nw by (subst unat_add_no_wrap) (simp_all add: unat_u32_u64)
    moreover have "unat (route_first model + of_nat k) = unat (route_first model) + k"
      using nw k by (subst unat_add_no_wrap) (simp_all add: unat_of_nat_u64)
    ultimately show ?thesis
      using l(14) [OF mo] k by simp
  qed
  ultimately show ?thesis
    using l(1-7,8-11) by (simp only: l(8,9)) blast
qed

text \<open>A sum that wraps is accepted: the routes would begin far outside the image.\<close>

lemma wrapped_routes_accepted:
  "routes_valid \<lparr>waves = ws, profile_threads = ts, phases = ps,
     models = [\<lparr>model_counts = cs, remote_free = 0, remote_publish = 1, realloc_null = 0,
       route_first = - 1, route_count = 1\<rparr>], routes = [], samples = []\<rparr> 0"
  by (simp add: routes_valid_def)

definition tiny_image :: "u8 list" where
  "tiny_image = [77, 83, 82, 85, 78, 48, 48, 49, 2, 0, 0, 0, 88, 0, 0, 0, 1, 0, 0, 0, 1, 0, 0, 0, 10, 0, 0, 0, 1, 0, 0, 0,
     0, 0, 0, 0, 0, 0, 0, 0, 104, 0, 0, 0, 0, 0, 0, 0, 104, 0, 0, 0, 0, 0, 0, 0, 104, 0, 0, 0, 0, 0, 0, 0,
     224, 0, 0, 0, 0, 0, 0, 0, 224, 0, 0, 0, 0, 0, 0, 0, 224, 0, 0, 0, 0, 0, 0, 0,
     0, 0, 0, 0, 1, 0, 0, 0, 0, 0, 0, 0, 0, 0, 0, 0] @ replicate 120 0 @
    [77, 83, 69, 78, 68, 48, 48, 49, 224, 0, 0, 0, 0, 0, 0, 0, 2, 0, 0, 0, 0, 0, 0, 0]"

lemma tiny_image_loads: "load_profile tiny_image \<noteq> None"
  by code_simp


lemma profile_accesses_in_bounds_witness:
  "\<exists>hdr p. load_profile tiny_image = Some (hdr, p) \<and> 24 + unat (image_size hdr) \<le> length tiny_image \<and>
    length (models p) = length (profile_threads p) * length (phases p)"
proof -
  obtain hdr p where l: "load_profile tiny_image = Some (hdr, p)"
    using tiny_image_loads by auto
  from profile_accesses_in_bounds [OF l] l show ?thesis by blast
qed

end
