(* ===== verification/SynthCounts.thy ===== *)
theory SynthCounts
  imports SynthProfile
begin

text \<open>
  How many calls the workers of the workload runtime make. For each worker and function, the
  calls made, the calls owed as debts and the calls still to choose add up to the counts of
  the models of its phases; therefore a run that does not fail makes exactly the calls of the profile.
\<close>

subsection \<open>What an operation adds\<close>

definition calls :: "'h synth \<Rightarrow> nat \<Rightarrow> nat \<Rightarrow> u64" where
  "calls st v g = function_counts (worker_at st v) ! g"

definition one :: "nat \<Rightarrow> nat \<Rightarrow> u64" where
  "one f g = (if g = f then 1 else 0)"

definition no_call :: "nat \<Rightarrow> u64" where
  "no_call g = 0"

definition free_debt :: "u64 list \<Rightarrow> bool" where
  "free_debt debt \<longleftrightarrow> length debt = FUNCTION_COUNT \<and>
    (\<forall>g<FUNCTION_COUNT. g \<noteq> FUNC_FREE \<longrightarrow> g \<noteq> FUNC_FREE_SIZED \<longrightarrow> debt ! g = 0)"

definition sized :: "'h synth \<Rightarrow> bool" where
  "sized st \<longleftrightarrow> (\<forall>v<length (g_workers st). length (function_counts (worker_at st v)) = FUNCTION_COUNT)"

text \<open>Worker \<open>w\<close> made, or owes now, the calls \<open>x\<close>; no other worker's counts changed.\<close>

definition settles :: "nat \<Rightarrow> (nat \<Rightarrow> u64) \<Rightarrow> u64 list \<Rightarrow> 'h synth \<Rightarrow> u64 list \<Rightarrow> 'h synth \<Rightarrow> bool" where
  "settles w x debt st debt' st' \<longleftrightarrow> length (g_workers st') = length (g_workers st) \<and>
    g_failed st' = g_failed st \<and> (\<forall>v. w_profile (worker_at st' v) = w_profile (worker_at st v)) \<and>
    (sized st \<longrightarrow> sized st') \<and> (free_debt debt \<longrightarrow> free_debt debt') \<and>
    (\<forall>v g. v \<noteq> w \<longrightarrow> calls st' v g = calls st v g) \<and>
    (\<forall>g<FUNCTION_COUNT. calls st' w g + debt' ! g = calls st w g + debt ! g + x g)"

definition still :: "'h synth \<Rightarrow> 'h synth \<Rightarrow> bool" where
  "still st st' \<longleftrightarrow> length (g_workers st') = length (g_workers st) \<and> g_failed st' = g_failed st \<and>
    (\<forall>v. w_profile (worker_at st' v) = w_profile (worker_at st v) \<and>
      function_counts (worker_at st' v) = function_counts (worker_at st v))"

lemma still_refl [simp]: "still st st"
  by (simp add: still_def)

lemma still_trans: "still st st1 \<Longrightarrow> still st1 st2 \<Longrightarrow> still st st2"
  by (simp add: still_def)

lemma still_settles: "still st st' \<Longrightarrow> settles w no_call debt st debt st'"
  by (simp add: still_def settles_def calls_def sized_def no_call_def)

lemma settles_still: "settles w x debt st debt' st1 \<Longrightarrow> still st1 st2 \<Longrightarrow> settles w x debt st debt' st2"
  by (simp add: still_def settles_def calls_def sized_def)

lemma still_settles_then: "still st st1 \<Longrightarrow> settles w x debt st1 debt' st2 \<Longrightarrow> settles w x debt st debt' st2"
  by (simp add: still_def settles_def calls_def sized_def)

lemma settles_trans:
  assumes "settles w x debt st debt1 st1" and "settles w y debt1 st1 debt2 st2"
    and "\<And>g. z g = x g + y g"
  shows "settles w z debt st debt2 st2"
  using assms unfolding settles_def by (auto simp: algebra_simps)

lemma still_steps [simp]:
  "still st (snd (heap_call env c st))" "still st (on_object i f st)" "still st (snd (random_next w st))"
  "still st (snd (local_remove w position st))" "still st (publish_object target i st)"
  "still st (push_recycled v i st)" "still st (snd (pop_inbound w st))" "still st (snd (pop_recycled w st))"
  "still st (recycle_object w i st)"
  by (auto simp: still_def heap_call_def random_next_def Let_def local_remove_def publish_object_def
    push_recycled_def recycle_object_def pop_inbound_def pop_recycled_def stack_push_def split: prod.splits)

lemma still_on_worker:
  "(\<And>k. w_profile (f k) = w_profile k) \<Longrightarrow> (\<And>k. function_counts (f k) = function_counts k) \<Longrightarrow>
    still st (on_worker w f st)"
  by (simp add: still_def)

lemma sample_size_still: "still st (snd (sample_size env w phase f st))"
  by (auto simp: sample_size_def Let_def split: prod.splits) (metis snd_conv still_steps(3))

lemma count_settles:
  assumes "w < length (g_workers st)" and "sized st" and "f < FUNCTION_COUNT"
  shows "settles w (one f) debt st debt (count_call w f st)"
  using assms by (simp add: settles_def count_call_def calls_def sized_def one_def)

lemma debt_down:
  assumes "settles w (one f) (update_at f (\<lambda>n. n - 1) debt) st debt' st'" and "free_debt debt"
    and "f = FUNC_FREE \<or> f = FUNC_FREE_SIZED"
  shows "settles w no_call debt st debt' st'"
proof -
  have f: "f < 10" "length debt = 10" using assms(2,3) by (auto simp: free_debt_def)
  have "free_debt (update_at f (\<lambda>n. n - 1) debt)"
    using assms(2,3) by (auto simp: free_debt_def)
  moreover have "update_at f (\<lambda>n. n - 1) debt ! g + one f g = debt ! g" if "g < 10" for g
    using f that by (simp add: one_def)
  ultimately show ?thesis
    using assms(1) unfolding settles_def by (simp add: no_call_def add.assoc)
qed

lemma debt_up:
  assumes "free_debt debt" and "f = FUNC_FREE \<or> f = FUNC_FREE_SIZED"
  shows "settles w (one f) debt st (update_at f (\<lambda>n. n + 1) debt) st"
  using assms by (auto simp: settles_def free_debt_def one_def)

lemma debt_function:
  "debt_function debt = Some f \<Longrightarrow> f = FUNC_FREE \<or> f = FUNC_FREE_SIZED"
  by (auto simp: debt_function_def split: if_splits)

subsection \<open>The operations\<close>

lemma run_free_call_counts:
  assumes "w < length (g_workers st)" and "sized st" and "f < FUNCTION_COUNT"
  shows "settles w (one f) debt st debt (run_free_call env w f i remote st)"
proof -
  let ?c = "if f = FUNC_FREE_SIZED \<and> has_free_sized env
    then Free_sized (pointer (object_at st i)) (object_size (object_at st i)) else Free (pointer (object_at st i))"
  let ?s = "snd (heap_call env ?c st)"
  have s: "still st ?s" by simp
  have "settles w (one f) debt ?s debt (count_call w f ?s)"
    by (rule count_settles) (use s assms in \<open>simp_all add: still_def sized_def\<close>)
  then have c: "settles w (one f) debt st debt (count_call w f ?s)"
    by (rule still_settles_then [OF s])
  have r: "still (count_call w f ?s) (on_worker w (\<lambda>k. k\<lparr>remote_frees := remote_frees k + 1\<rparr>) (count_call w f ?s))"
    by (rule still_on_worker) simp_all
  let ?s3 = "if remote \<and> owner (object_at st i) \<noteq> windex (worker_at (count_call w f ?s) w)
    then on_worker w (\<lambda>k. k\<lparr>remote_frees := remote_frees k + 1\<rparr>) (count_call w f ?s) else count_call w f ?s"
  have "settles w (one f) debt st debt ?s3"
    using c settles_still [OF c r] by (simp only: if_split simp_thms)
  from settles_still [OF this still_steps(9)] show ?thesis
    unfolding run_free_call_def Let_def .
qed

lemma run_local_free_counts:
  assumes "w < length (g_workers st)" and "sized st" and "free_debt debt" and "f = FUNC_FREE \<or> f = FUNC_FREE_SIZED"
    and run: "run_local_free env w f debt st = (debt', st')"
  shows "settles w (one f) debt st debt' st'"
proof (cases "local_objects (worker_at st w) = []")
  case True
  then show ?thesis using debt_up [OF assms(3,4)] run by (simp add: run_local_free_def)
next
  case False
  obtain v st1 where v: "random_next w st = (v, st1)" by fastforce
  let ?p = "unat (v mod of_nat (length (local_objects (worker_at st1 w))))"
  obtain i st2 where i: "local_remove w ?p st1 = (i, st2)" by fastforce
  have s: "still st st2"
    using still_trans [of st st1 st2] still_steps(3) [of st w] still_steps(4) [of st1 w ?p] v i by simp
  have "settles w (one f) debt st2 debt (run_free_call env w f i False st2)"
    by (rule run_free_call_counts) (use s assms in \<open>auto simp: still_def sized_def\<close>)
  then show ?thesis
    using still_settles_then [OF s] run False v i by (auto simp: run_local_free_def)
qed

lemma settles_size:
  "settles w x debt st debt' st' \<Longrightarrow> length (g_workers st') = length (g_workers st)"
  "settles w x debt st debt' st' \<Longrightarrow> sized st \<Longrightarrow> sized st'"
  "settles w x debt st debt' st' \<Longrightarrow> free_debt debt \<Longrightarrow> free_debt debt'"
  by (simp_all add: settles_def)

lemma drain_local_counts:
  "w < length (g_workers st) \<Longrightarrow> sized st \<Longrightarrow> free_debt debt \<Longrightarrow>
    drain_local_steps env w fuel debt st = (debt', st') \<Longrightarrow> settles w no_call debt st debt' st'"
proof (induction fuel arbitrary: debt st)
  case 0
  then show ?case by (simp add: still_settles)
next
  case (Suc fuel)
  show ?case
  proof (cases "local_objects (worker_at st w) = [] \<or> debt_function debt = None")
    case True
    then show ?thesis using Suc.prems by (auto simp: still_settles split: option.splits)
  next
    case False
    then obtain f where f: "debt_function debt = Some f" by auto
    let ?d = "update_at f (\<lambda>n. n - 1) debt"
    obtain debt1 st1 where s: "run_local_free env w f ?d st = (debt1, st1)"
      by fastforce
    have d: "free_debt ?d"
      using Suc.prems(3) debt_function [OF f] by (auto simp: free_debt_def)
    have one: "settles w no_call debt st debt1 st1"
      by (rule debt_down [OF run_local_free_counts [OF Suc.prems(1,2) d debt_function [OF f] s] Suc.prems(3)
        debt_function [OF f]])
    have "drain_local_steps env w fuel debt1 st1 = (debt', st')"
      using Suc.prems(4) False f s by simp
    from Suc.IH [OF _ _ _ this] have "settles w no_call debt1 st1 debt' st'"
      using settles_size [OF one] Suc.prems(1-3) by simp
    from settles_trans [OF one this] show ?thesis by (simp add: no_call_def)
  qed
qed

lemma run_free_call_failed: "g_failed (run_free_call env w f i remote st) = g_failed st"
proof -
  have r: "g_failed (recycle_object w i s) = g_failed s" for s :: "'a synth"
    using still_steps(9) [of s w i] by (simp add: still_def)
  have h: "g_failed (snd (heap_call env c st)) = g_failed st" for c
    using still_steps(1) [of st env c] by (simp add: still_def)
  show ?thesis
    unfolding run_free_call_def Let_def r by (simp only: count_call_def parts_on(4) h if_cancel if_distrib [of g_failed])
qed

lemma run_local_free_failed:
  assumes run: "run_local_free env w f debt st = (debt', st')"
  shows "g_failed st' = g_failed st"
proof (cases "local_objects (worker_at st w) = []")
  case True
  then show ?thesis using run by (simp add: run_local_free_def)
next
  case False
  obtain v st1 where v: "random_next w st = (v, st1)" by fastforce
  let ?p = "unat (v mod of_nat (length (local_objects (worker_at st1 w))))"
  obtain i st2 where i: "local_remove w ?p st1 = (i, st2)" by fastforce
  have "g_failed st2 = g_failed st"
    using still_steps(3) [of st w] still_steps(4) [of st1 w ?p] v i by (simp add: still_def)
  then show ?thesis
    using run False v i by (auto simp: run_local_free_def run_free_call_failed)
qed

lemma drain_local_failed:
  "drain_local_steps env w fuel debt st = (debt', st') \<Longrightarrow> g_failed st' = g_failed st"
proof (induction fuel arbitrary: debt st)
  case (Suc fuel)
  then show ?case
    using run_local_free_failed by (fastforce split: if_splits option.splits prod.splits)
qed simp

lemma remote_counts:
  assumes "w < length (g_workers st)" and "sized st" and "free_debt debt"
  shows "f = FUNC_FREE \<or> f = FUNC_FREE_SIZED \<Longrightarrow> run_remote_free env w f debt st = (debt', st') \<Longrightarrow>
      settles w (one f) debt st debt' st'"
    and "drain_one_remote env w debt st = (b, debt', st') \<Longrightarrow> settles w no_call debt st debt' st'"
proof -
  obtain i st1 where i: "pop_inbound w st = (i, st1)" by fastforce
  have s: "still st st1" using still_steps(7) [of st w] i by simp
  have fr: "settles w (one f) d st d (run_free_call env w f j True st1)" if "f < FUNCTION_COUNT" for f d j
    by (rule still_settles_then [OF s run_free_call_counts]) (use s assms that in \<open>auto simp: still_def sized_def\<close>)
  have df: "still st1 (on_worker w (\<lambda>k. k\<lparr>deferred_remote_frees := deferred_remote_frees k + 1\<rparr>) st1)"
    by (rule still_on_worker) simp_all
  show "settles w (one f) debt st debt' st'" if f: "f = FUNC_FREE \<or> f = FUNC_FREE_SIZED"
    and run: "run_remote_free env w f debt st = (debt', st')"
  proof (cases "i = INDEX_NONE")
    case True
    then show ?thesis
      using settles_still [OF debt_up [OF assms(3) f] still_trans [OF s df]] run i by (simp add: run_remote_free_def)
  next
    case False
    have "f < FUNCTION_COUNT" using f by auto
    from fr [OF this] show ?thesis
      using False run i by (auto simp: run_remote_free_def)
  qed
  show "settles w no_call debt st debt' st'" if run: "drain_one_remote env w debt st = (b, debt', st')"
  proof (cases "debt_function debt = None \<or> i = INDEX_NONE")
    case True
    then have "debt' = debt" "st' = st \<or> st' = st1"
      using run i by (auto simp: drain_one_remote_def split: option.splits)
    then show ?thesis using still_settles [OF s] still_settles [OF still_refl] by auto
  next
    case False
    then obtain f where f: "debt_function debt = Some f" by auto
    have "f < FUNCTION_COUNT" using debt_function [OF f] by auto
    then have "settles w (one f) (update_at f (\<lambda>n. n - 1) debt) st (update_at f (\<lambda>n. n - 1) debt)
        (run_free_call env w f i True st1)"
      by (rule fr)
    from debt_down [OF this assms(3) debt_function [OF f]] show ?thesis
      using run False f i by (auto simp: drain_one_remote_def)
  qed
qed


lemma take_descriptor_counts:
  assumes h: "holding env n w [] [] st" and t: "take_descriptor w st = (i, st')"
  shows "if i = INDEX_NONE then g_failed st' else still st st'"
proof -
  obtain L where L: "synth_inv env st L" "length (g_workers st) = n" "w < n"
    using h by (rule holdingE)
  have w: "w < length (g_workers st)" using L by simp
  let ?k = "worker_at st w"
  show ?thesis
  proof (cases "local_free_plus_one ?k = 0")
    case False
    then have i: "i + 1 = local_free_plus_one ?k"
      "st' = on_worker w (\<lambda>k. k\<lparr>local_free_plus_one := get_next (g_objects st) (local_free_plus_one ?k - 1)\<rparr>) st"
      using t by (auto simp: take_descriptor_def Let_def)
    have "i \<noteq> INDEX_NONE" using i(1) False by (auto simp: INDEX_NONE_def)
    then show ?thesis unfolding i(2) by (simp add: still_on_worker)
  next
    case no_free: True
    obtain j st1 where j: "pop_recycled w st = (j, st1)" by fastforce
    have s: "still st st1" using still_steps(8) [of st w] j by simp
    have st1: "st1 = st" if "j = INDEX_NONE"
      using pop_recycled_inv [OF L(1) w j] that by blast
    show ?thesis
    proof (cases "j = INDEX_NONE \<and> \<not> next_descriptor_offset ?k < capacity (w_profile ?k)")
      case True
      then show ?thesis
        using t no_free j st1 by (auto simp: take_descriptor_def Let_def fail_run_def)
    next
      case False
      show ?thesis
      proof (cases "j = INDEX_NONE")
        case True
        then have room: "next_descriptor_offset ?k < capacity (w_profile ?k)" using False by simp
        have i: "i = object_first ?k + next_descriptor_offset ?k"
          "st' = on_worker w (\<lambda>k. k\<lparr>next_descriptor_offset := next_descriptor_offset k + 1\<rparr>) st"
          using t no_free j True room st1 by (simp_all add: take_descriptor_def Let_def)
        have "still st st'" unfolding i(2) by (rule still_on_worker) simp_all
        then show ?thesis using new_descriptor_inv(2) [OF L(1) w room i] by simp
      next
        case got: False
        then show ?thesis using t no_free j s by (auto simp: take_descriptor_def Let_def)
      qed
    qed
  qed
qed

lemma failure_still: "still st (on_worker v (\<lambda>k. k\<lparr>allocation_failures := allocation_failures k + 1\<rparr>) st)"
  by (rule still_on_worker) simp_all

lemma run_realloc_local_counts:
  assumes "w < length (g_workers st)" and "sized st"
  shows "settles w (one FUNC_REALLOC) debt st debt (run_realloc_local env w sz publish target st)"
proof -
  obtain v st1 where v: "random_next w st = (v, st1)" by fastforce
  define p where "p = unat (v mod of_nat (length (local_objects (worker_at st1 w))))"
  define i where "i = local_objects (worker_at st1 w) ! p"
  obtain r st2 where r: "heap_call env (Realloc (pointer (object_at st1 i)) sz) st1 = (r, st2)" by fastforce
  let ?s3 = "count_call w FUNC_REALLOC st2"
  define st4 where "st4 = (if r = 0 \<and> sz \<noteq> 0
    then on_worker w (\<lambda>k. k\<lparr>allocation_failures := allocation_failures k + 1\<rparr>) ?s3
    else snd (random_next w (on_object i (\<lambda>ob. ob\<lparr>pointer := r, object_size := sz\<rparr>) ?s3)))"
  have s: "still st st2"
    using still_trans [of st st1 st2] still_steps(3) [of st w]
      still_steps(1) [of st1 env "Realloc (pointer (object_at st1 i)) sz"] v r by simp
  have "settles w (one FUNC_REALLOC) debt st2 debt ?s3"
    by (rule count_settles) (use s assms in \<open>simp_all add: still_def sized_def\<close>)
  then have c: "settles w (one FUNC_REALLOC) debt st debt ?s3"
    by (rule still_settles_then [OF s])
  have "still ?s3 st4"
    unfolding st4_def using failure_still [of ?s3 w]
      still_trans [OF still_steps(2) [of ?s3 i "\<lambda>ob. ob\<lparr>pointer := r, object_size := sz\<rparr>"] still_steps(3) [where w = w]]
    by (simp only: if_split simp_thms)
  from settles_still [OF c this] have d: "settles w (one FUNC_REALLOC) debt st debt st4" .
  have "run_realloc_local env w sz publish target st =
      (if publish then publish_object target i (snd (local_remove w p st4))
       else if r = 0 \<and> sz = 0 then recycle_object w i (snd (local_remove w p st4)) else st4)"
    by (simp only: run_realloc_local_def Let_def v prod.case p_def [symmetric] i_def [symmetric] r
      st4_def [symmetric] snd_conv)
  moreover have "still st4 (publish_object target i (snd (local_remove w p st4)))"
    "still st4 (recycle_object w i (snd (local_remove w p st4)))"
    using still_trans [OF still_steps(4) still_steps(5)] still_trans [OF still_steps(4) still_steps(9)] by blast+
  ultimately show ?thesis
    using d settles_still [OF d] by simp
qed

lemma run_new_object_counts:
  assumes h: "holding env n w [] [] st" and "sized st" and f: "f < FUNCTION_COUNT"
    and ok: "\<not> g_failed (run_new_object env w f sz publish target st)"
  shows "settles w (one f) debt st debt (run_new_object env w f sz publish target st)"
proof -
  have w: "w < length (g_workers st)"
    using h by (auto elim: holdingE)
  obtain i st1 where i: "take_descriptor w st = (i, st1)" by fastforce
  note td = take_descriptor_counts [OF h i]
  show ?thesis
  proof (cases "i = INDEX_NONE")
    case True
    then show ?thesis using td i ok by (simp add: run_new_object_def)
  next
    case False
    then have s1: "still st st1" using td by simp
    define c where "c = (if f = FUNC_REALLOC then Some (Realloc 0 sz) else run_new_allocation f sz)"
    obtain r st2 where r: "(case c of None \<Rightarrow> (0, st1) | Some d \<Rightarrow> heap_call env d st1) = (r, st2)" by fastforce
    have "still st1 st2"
    proof (cases c)
      case None
      then show ?thesis using r by simp
    next
      case (Some d)
      then show ?thesis using r still_steps(1) [of st1 env d] by simp
    qed
    then have s2: "still st st2" by (rule still_trans [OF s1])
    let ?s3 = "count_call w f st2"
    have "settles w (one f) debt st2 debt ?s3"
      by (rule count_settles) (use s2 w f assms(2) in \<open>simp_all add: still_def sized_def\<close>)
    then have c3: "settles w (one f) debt st debt ?s3"
      by (rule still_settles_then [OF s2])
    define st3 where "st3 = (if r = 0 \<and> sz \<noteq> 0
      then on_worker w (\<lambda>k. k\<lparr>allocation_failures := allocation_failures k + 1\<rparr>) ?s3 else ?s3)"
    define st4 where "st4 = snd (random_next w
      (on_object i (\<lambda>ob. ob\<lparr>pointer := r, object_size := sz, owner := windex (worker_at st3 w)\<rparr>) st3))"
    have "still ?s3 st3" unfolding st3_def by (simp add: failure_still)
    moreover have "still st3 st4" unfolding st4_def by (rule still_trans [OF still_steps(2) still_steps(3)])
    ultimately have d: "settles w (one f) debt st debt st4"
      by (rule settles_still [OF c3 still_trans])
    have "run_new_object env w f sz publish target st = (if publish then publish_object target i st4
        else on_worker w (\<lambda>k. k\<lparr>local_objects := local_objects k @ [i]\<rparr>) st4)"
      by (simp only: run_new_object_def Let_def i prod.case False if_False c_def [symmetric] r st3_def [symmetric]
        st4_def [symmetric])
    moreover have "still st4 (on_worker w (\<lambda>k. k\<lparr>local_objects := local_objects k @ [i]\<rparr>) st4)"
      by (rule still_on_worker) simp_all
    ultimately show ?thesis
      using settles_still [OF d] by simp
  qed
qed

lemma run_alloc_call_counts:
  assumes h: "holding env n w [] [] st" and "sized st" and f: "f < FUNCTION_COUNT"
    and ok: "\<not> g_failed (run_alloc_call env w phase f publish target force st)"
  shows "settles w (one f) debt st debt (run_alloc_call env w phase f publish target force st)"
proof -
  obtain sz st1 where s: "sample_size env w phase f st = (sz, st1)" by fastforce
  have st: "still st st1" using sample_size_still [of st env w phase f] s by simp
  have h1: "holding env n w [] [] st1"
    using s holding_random [OF h, of w] h by (auto simp: sample_size_def Let_def split: if_splits prod.splits)
  have w: "w < length (g_workers st1)" using h1 by (auto elim: holdingE)
  have z: "sized st1" using st assms(2) by (simp add: still_def sized_def)
  show ?thesis
  proof (cases "f = FUNC_REALLOC \<and> \<not> force \<and> local_objects (worker_at st1 w) \<noteq> []")
    case True
    then show ?thesis
      using still_settles_then [OF st run_realloc_local_counts [OF w z]] s
      by (simp add: run_alloc_call_def del: FUNC_REALLOC_def)
  next
    case False
    then have "run_alloc_call env w phase f publish target force st = run_new_object env w f sz publish target st1"
      using s by (simp only: run_alloc_call_def Let_def prod.case if_False)
    then show ?thesis
      using still_settles_then [OF st run_new_object_counts [OF h1 z f]] ok by simp
  qed
qed

subsection \<open>Choosing the functions\<close>

definition calls_of :: "u64 list \<Rightarrow> nat" where
  "calls_of counts = (\<Sum>g<FUNCTION_COUNT. unat (counts ! g))"

definition balanced :: "phase_run \<Rightarrow> bool" where
  "balanced pr \<longleftrightarrow> length (remaining pr) = FUNCTION_COUNT \<and> calls_of (remaining pr) = unat (calls_left pr)"

lemma choose_from_ok:
  "unat selected < (\<Sum>f\<leftarrow>fs. unat (rem ! f)) \<Longrightarrow> choose_from fs selected rem = (f, rest) \<Longrightarrow>
    f \<in> set fs \<and> rem ! f \<noteq> 0 \<and> rest = update_at f (\<lambda>n. n - 1) rem"
proof (induction fs arbitrary: selected)
  case (Cons g fs)
  show ?case
  proof (cases "selected < rem ! g")
    case True
    then show ?thesis using Cons.prems(2) by auto
  next
    case False
    then have "unat (selected - rem ! g) = unat selected - unat (rem ! g)" "unat (rem ! g) \<le> unat selected"
      by (simp_all add: unat_sub_no_wrap word_le_nat_alt not_less)
    then show ?thesis
      using Cons.IH [of "selected - rem ! g"] Cons.prems False by simp
  qed
qed simp

lemma calls_of_down:
  assumes "f < FUNCTION_COUNT" and "length rem = FUNCTION_COUNT" and "rem ! f \<noteq> 0"
  shows "calls_of (update_at f (\<lambda>n. n - 1) rem) = calls_of rem - 1" and "calls_of rem \<noteq> 0"
proof -
  have fin: "finite {..<FUNCTION_COUNT}" "f \<in> {..<FUNCTION_COUNT}" using assms(1) by simp_all
  have u: "unat (rem ! f - 1) = unat (rem ! f) - 1" "0 < unat (rem ! f)"
    using assms(3) by (simp_all add: unat_minus_one unat_gt_0)
  have "(\<Sum>g\<in>{..<FUNCTION_COUNT} - {f}. unat (update_at f (\<lambda>n. n - 1) rem ! g)) =
      (\<Sum>g\<in>{..<FUNCTION_COUNT} - {f}. unat (rem ! g))"
    using assms(2) by (intro sum.cong) auto
  then show "calls_of (update_at f (\<lambda>n. n - 1) rem) = calls_of rem - 1" "calls_of rem \<noteq> 0"
    using u assms(1,2) unfolding calls_of_def sum.remove [OF fin] by simp_all
qed

lemma choose_function_ok:
  assumes b: "balanced pr" and "calls_left pr \<noteq> 0"
    and c: "choose_function w (remaining pr) (calls_left pr) st = ((f, rest), st')"
  shows "f < FUNCTION_COUNT" and "\<And>g. g < FUNCTION_COUNT \<Longrightarrow> rest ! g + one f g = remaining pr ! g"
    and "balanced (pr\<lparr>remaining := rest, calls_left := calls_left pr - 1\<rparr>)" and "still st st'"
proof -
  obtain v where v: "random_next w st = (v, st')" "choose_from [0..<FUNCTION_COUNT] (v mod calls_left pr) (remaining pr) = (f, rest)"
    using c by (auto simp: choose_function_def Let_def split: prod.splits)
  have "unat (v mod calls_left pr) < unat (calls_left pr)"
    using assms(2) by (simp add: unat_mod_distrib unat_gt_0)
  also have "\<dots> = (\<Sum>f\<leftarrow>[0..<FUNCTION_COUNT]. unat (remaining pr ! f))"
    using b by (simp add: balanced_def calls_of_def interv_sum_list_conv_sum_set_nat atLeast0LessThan)
  finally have sel: "unat (v mod calls_left pr) < (\<Sum>f\<leftarrow>[0..<FUNCTION_COUNT]. unat (remaining pr ! f))" .
  note ok = choose_from_ok [OF sel v(2)]
  show f: "f < FUNCTION_COUNT" using ok by simp
  have len: "length (remaining pr) = FUNCTION_COUNT" using b by (simp add: balanced_def)
  show "rest ! g + one f g = remaining pr ! g" if "g < FUNCTION_COUNT" for g
    using ok that len by (simp add: one_def)
  note d = calls_of_down [OF f len]
  show "balanced (pr\<lparr>remaining := rest, calls_left := calls_left pr - 1\<rparr>)"
    using d ok b assms(2) by (simp add: balanced_def unat_minus_one)
  show "still st st'" using still_steps(3) [of st w] v(1) by simp
qed


lemma choices_keep:
  "publish_choice env model pr = (t, pr') \<Longrightarrow> remaining pr' = remaining pr \<and> calls_left pr' = calls_left pr"
  "realloc_null_choice model f pr = (b, pr') \<Longrightarrow> remaining pr' = remaining pr \<and> calls_left pr' = calls_left pr"
  "remote_choice model pr = (b, pr') \<Longrightarrow> remaining pr' = remaining pr \<and> calls_left pr' = calls_left pr"
  by (auto simp: publish_choice_def realloc_null_choice_def remote_choice_def Let_def split: if_splits)

lemma balanced_cong: "remaining pr' = remaining pr \<Longrightarrow> calls_left pr' = calls_left pr \<Longrightarrow> balanced pr' = balanced pr"
  by (simp add: balanced_def)

text \<open>What a worker still owes for function \<open>g\<close> while it generates the calls of a phase.\<close>

definition owed :: "worker_run \<Rightarrow> nat \<Rightarrow> u64" where
  "owed wr g = remaining (wr_run wr) ! g + local_debt wr ! g + remote_debt wr ! g"

definition in_order :: "worker_run \<Rightarrow> bool" where
  "in_order wr \<longleftrightarrow> balanced (wr_run wr) \<and> free_debt (local_debt wr) \<and> free_debt (remote_debt wr)"

definition others_kept :: "nat \<Rightarrow> 'h synth \<Rightarrow> 'h synth \<Rightarrow> bool" where
  "others_kept w st st' \<longleftrightarrow> length (g_workers st') = length (g_workers st) \<and>
    (\<forall>v. w_profile (worker_at st' v) = w_profile (worker_at st v)) \<and>
    (\<forall>v g. v \<noteq> w \<longrightarrow> calls st' v g = calls st v g) \<and> (sized st \<longrightarrow> sized st') \<and> g_failed st' = g_failed st"

lemma settles_others: "settles w x debt st debt' st' \<Longrightarrow> others_kept w st st'"
  by (simp add: settles_def others_kept_def)

lemma others_trans: "others_kept w st st1 \<Longrightarrow> others_kept w st1 st2 \<Longrightarrow> others_kept w st st2"
  by (simp add: others_kept_def)

lemma settles_calls:
  "settles w x debt st debt' st' \<Longrightarrow> g < FUNCTION_COUNT \<Longrightarrow> calls st' w g + debt' ! g = calls st w g + debt ! g + x g"
  by (simp add: settles_def)

lemma generate_call_counts:
  assumes h: "holding env n w [] [] st" and law: "lawful env" and n: "length (profile_threads (env_profile env)) = n"
    and sz: "sized st" and wr: "in_order wr" and left: "calls_left (wr_run wr) \<noteq> 0"
    and g: "generate_call env w wr st = (going, wr', st')" and ok: "\<not> g_failed st'"
  shows "going" and "wr_phase wr' = wr_phase wr" and "in_order wr'" and "others_kept w st st'"
    and "k < FUNCTION_COUNT \<Longrightarrow> calls st' w k + owed wr' k = calls st w k + owed wr k"
proof -
  obtain f rest st1 where c: "choose_function w (remaining (wr_run wr)) (calls_left (wr_run wr)) st = ((f, rest), st1)"
    by (metis prod.exhaust)
  have b: "balanced (wr_run wr)" and fd: "free_debt (local_debt wr)" "free_debt (remote_debt wr)"
    using wr by (simp_all add: in_order_def)
  let ?pr = "(wr_run wr)\<lparr>remaining := rest, calls_left := calls_left (wr_run wr) - 1\<rparr>"
  note ch = choose_function_ok [OF b left c]
  have h1: "holding env n w [] [] st1"
    using c holding_random [OF h, of w] by (auto simp: choose_function_def Let_def split: prod.splits)
  have w1: "w < length (g_workers st1)" using h1 by (auto elim: holdingE)
  have z1: "sized st1" using ch(4) sz by (simp add: still_def sized_def)
  have o1: "others_kept w st st1" by (rule settles_others [OF still_settles [OF ch(4)]])
  have c1: "calls st1 v k = calls st v k" for v k using ch(4) by (simp add: still_def calls_def)
  note g = g [unfolded generate_call_def Let_def c prod.case]
  let ?goal = "going \<and> wr_phase wr' = wr_phase wr \<and> in_order wr' \<and> others_kept w st st' \<and>
    (\<forall>k<FUNCTION_COUNT. calls st' w k + owed wr' k = calls st w k + owed wr k)"
  have "?goal"
  proof (cases "is_allocation_function f")
    case False
    then have f: "f = FUNC_FREE \<or> f = FUNC_FREE_SIZED" by (auto simp: is_allocation_function_def)
    obtain remote pr where rc: "remote_choice (worker_model env st w (wr_phase wr)) ?pr = (remote, pr)" by fastforce
    have pr: "balanced pr" "remaining pr = rest"
      using choices_keep(3) [OF rc] ch(3) balanced_cong [of pr ?pr] by simp_all
    show ?thesis
    proof (cases remote)
      case True
      obtain debt st2 where d: "run_remote_free env w f (remote_debt wr) st1 = (debt, st2)" by fastforce
      have s: "settles w (one f) (remote_debt wr) st1 debt st2"
        by (rule remote_counts(1) [OF w1 z1 fd(2) f d])
      have r: "going" "wr' = wr\<lparr>wr_run := pr, remote_debt := debt\<rparr>" "st' = st2"
        using g False True by (auto simp: rc d)
      have "calls st2 w k + owed wr' k = calls st w k + owed wr k" if "k < FUNCTION_COUNT" for k
      proof -
        have "calls st2 w k + owed wr' k = (calls st2 w k + debt ! k) + rest ! k + local_debt wr ! k"
          using pr(2) by (simp add: owed_def r(2))
        also have "\<dots> = calls st w k + remote_debt wr ! k + local_debt wr ! k + (rest ! k + one f k)"
          using settles_calls [OF s that] by (simp add: c1)
        finally show ?thesis using ch(2) [OF that] by (simp add: owed_def)
      qed
      then show ?thesis
        using r pr(1) fd settles_size(3) [OF s] others_trans [OF o1 settles_others [OF s]] by (simp add: in_order_def)
    next
      case local: False
      obtain debt st2 where d: "run_local_free env w f (local_debt wr) st1 = (debt, st2)" by fastforce
      have s: "settles w (one f) (local_debt wr) st1 debt st2"
        by (rule run_local_free_counts [OF w1 z1 fd(1) f d])
      have r: "going" "wr' = wr\<lparr>wr_run := pr, local_debt := debt\<rparr>" "st' = st2"
        using g False local by (auto simp: rc d)
      have "calls st2 w k + owed wr' k = calls st w k + owed wr k" if "k < FUNCTION_COUNT" for k
      proof -
        have "calls st2 w k + owed wr' k = (calls st2 w k + debt ! k) + rest ! k + remote_debt wr ! k"
          using pr(2) by (simp add: owed_def r(2))
        also have "\<dots> = calls st w k + local_debt wr ! k + remote_debt wr ! k + (rest ! k + one f k)"
          using settles_calls [OF s that] by (simp add: c1)
        finally show ?thesis using ch(2) [OF that] by (simp add: owed_def)
      qed
      then show ?thesis
        using r pr(1) fd settles_size(3) [OF s] others_trans [OF o1 settles_others [OF s]] by (simp add: in_order_def)
    qed
  next
    case True
    obtain target pr0 where p: "publish_choice env (worker_model env st w (wr_phase wr)) ?pr = (target, pr0)" by fastforce
    obtain force pr where fp: "realloc_null_choice (worker_model env st w (wr_phase wr)) f pr0 = (force, pr)" by fastforce
    have pr: "balanced pr" "remaining pr = rest"
      using choices_keep(1) [OF p] choices_keep(2) [OF fp] ch(3) balanced_cong [of pr ?pr] by simp_all
    let ?bad = "case target of None \<Rightarrow> False | Some t \<Rightarrow> length (profile_threads (env_profile env)) \<le> unat t"
    show ?thesis
    proof (cases ?bad)
      case bad: True
      then show ?thesis using g True ok by (auto simp: p fail_run_def)
    next
      case False
      let ?t = "case target of None \<Rightarrow> INDEX_NONE | Some t \<Rightarrow> t"
      let ?s = "run_alloc_call env w (wr_phase wr) f (target \<noteq> None) ?t force st1"
      have t: "target \<noteq> None \<Longrightarrow> unat ?t < n"
        using False n by (auto split: option.splits)
      obtain debt st2 where d: "drain_local_debt env w (local_debt wr) ?s = (debt, st2)" by fastforce
      have r: "going" "wr' = wr\<lparr>wr_run := pr, local_debt := debt\<rparr>" "st' = st2"
        using g True False d by (cases target; auto simp: p fp)+
      have hs: "holding env n w [] [] ?s"
        by (rule run_alloc_call_holding [OF h1 law t])
      have drained: "settles w no_call (local_debt wr) ?s debt st2" if "sized ?s"
        using hs d fd(1) that unfolding drain_local_debt_def by (intro drain_local_counts) (auto elim: holdingE)
      have notfailed: "\<not> g_failed ?s"
        using drain_local_failed d ok r(3) unfolding drain_local_debt_def by blast
      have a: "settles w (one f) (local_debt wr) st1 (local_debt wr) ?s"
        by (rule run_alloc_call_counts [OF h1 z1 ch(1) notfailed])
      have zs: "sized ?s" by (rule settles_size(2) [OF a z1])
      have s: "settles w (one f) (local_debt wr) st1 debt st2"
        by (rule settles_trans [OF a drained [OF zs]]) (simp add: no_call_def)
      have "calls st2 w k + owed wr' k = calls st w k + owed wr k" if "k < FUNCTION_COUNT" for k
      proof -
        have "calls st2 w k + owed wr' k = (calls st2 w k + debt ! k) + rest ! k + remote_debt wr ! k"
          using pr(2) by (simp add: owed_def r(2))
        also have "\<dots> = calls st w k + local_debt wr ! k + remote_debt wr ! k + (rest ! k + one f k)"
          using settles_calls [OF s that] by (simp add: c1)
        finally show ?thesis using ch(2) [OF that] by (simp add: owed_def)
      qed
      then show ?thesis
        using r pr(1) fd settles_size(3) [OF s] others_trans [OF o1 settles_others [OF s]] by (simp add: in_order_def)
    qed
  qed
  then show "going" "wr_phase wr' = wr_phase wr" "in_order wr'" "others_kept w st st'"
    "k < FUNCTION_COUNT \<Longrightarrow> calls st' w k + owed wr' k = calls st w k + owed wr k" by blast+
qed


lemma drain_one_failed: "drain_one_remote env w debt st = (b, debt', st') \<Longrightarrow> g_failed st' = g_failed st"
proof -
  obtain i st1 where i: "pop_inbound w st = (i, st1)" by fastforce
  have "g_failed st1 = g_failed st" using still_steps(7) [of st w] i by (simp add: still_def)
  then show "drain_one_remote env w debt st = (b, debt', st') \<Longrightarrow> g_failed st' = g_failed st"
    using i by (auto simp: drain_one_remote_def run_free_call_failed split: option.splits if_splits)
qed

lemma free_null_counts:
  assumes "w < length (g_workers st)" and "sized st" and "f < FUNCTION_COUNT"
  shows "settles w (one f) debt st debt (free_null env w f st)"
proof -
  let ?s = "snd (heap_call env (Free 0) st)"
  have s: "still st ?s" by simp
  have "settles w (one f) debt ?s debt (count_call w f ?s)"
    by (rule count_settles) (use s assms in \<open>simp_all add: still_def sized_def\<close>)
  then have c: "settles w (one f) debt st debt (count_call w f ?s)"
    by (rule still_settles_then [OF s])
  show ?thesis
    unfolding free_null_def by (rule settles_still [OF c still_on_worker]) simp_all
qed

lemma free_null_times:
  assumes "w < length (g_workers st)" and "sized st" and "f < FUNCTION_COUNT"
  shows "settles w (\<lambda>g. of_nat k * one f g) debt st debt ((free_null env w f ^^ k) st)"
proof (induction k)
  case 0
  show ?case using still_settles [OF still_refl, of w debt st] by (simp add: no_call_def settles_def)
next
  case (Suc k)
  have "settles w (one f) debt ((free_null env w f ^^ k) st) debt (free_null env w f ((free_null env w f ^^ k) st))"
    by (rule free_null_counts) (use settles_size [OF Suc] assms in simp_all)
  from settles_trans [OF Suc this] show ?case by (simp add: algebra_simps)
qed

lemma pay_local_counts:
  assumes w: "w < length (g_workers st)" and "sized st" and d: "free_debt debt"
    and pay: "pay_local_debt env w debt st = (debt', st')"
  shows "settles w no_call debt st debt' st'" and "g < FUNCTION_COUNT \<Longrightarrow> debt' ! g = 0"
proof -
  let ?a = "debt ! FUNC_FREE" and ?b = "debt ! FUNC_FREE_SIZED"
  let ?s1 = "(free_null env w FUNC_FREE ^^ unat ?a) st"
  have p: "debt' = debt[FUNC_FREE := 0, FUNC_FREE_SIZED := 0]"
    "st' = (free_null env w FUNC_FREE_SIZED ^^ unat ?b) ?s1"
    using pay by (simp_all only: pay_local_debt_def prod.inject)
  have a: "settles w (\<lambda>g. of_nat (unat ?a) * one FUNC_FREE g) debt st debt ?s1"
    by (rule free_null_times [OF assms(1,2)]) simp
  have b: "settles w (\<lambda>g. of_nat (unat ?b) * one FUNC_FREE_SIZED g) debt ?s1 debt st'"
    unfolding p(2) by (rule free_null_times) (use settles_size [OF a] assms(1,2) in simp_all)
  have s: "settles w (\<lambda>g. ?a * one FUNC_FREE g + ?b * one FUNC_FREE_SIZED g) debt st debt st'"
    by (rule settles_trans [OF a b]) simp
  have l: "length debt = 10" using d by (simp add: free_debt_def)
  have zero: "debt' ! g = 0" if "g < 10" for g
    using d that unfolding p(1) free_debt_def by (auto simp: nth_list_update)
  then show "g < FUNCTION_COUNT \<Longrightarrow> debt' ! g = 0" by simp
  have sum: "?a * one FUNC_FREE g + ?b * one FUNC_FREE_SIZED g = debt ! g" if "g < 10" for g
    using d that by (auto simp: one_def free_debt_def)
  have "length debt' = 10" using l by (simp add: p(1))
  then have "free_debt debt'" using zero by (simp add: free_debt_def)
  then show "settles w no_call debt st debt' st'"
    using s zero sum unfolding settles_def by (simp add: no_call_def algebra_simps)
qed

lemma pay_local_failed: "pay_local_debt env w debt st = (debt', st') \<Longrightarrow> g_failed st' = g_failed st"
proof -
  have "g_failed (free_null env w f s) = g_failed s" for f and s :: "'a synth"
    by (simp add: free_null_def count_call_def heap_call_def)
  then have "g_failed ((free_null env w f ^^ k) s) = g_failed s" for f k and s :: "'a synth"
    by (induction k) simp_all
  then show "pay_local_debt env w debt st = (debt', st') \<Longrightarrow> g_failed st' = g_failed st"
    by (auto simp: pay_local_debt_def)
qed

subsection \<open>The account of a run\<close>

definition plan_of :: "'h environment \<Rightarrow> nat \<Rightarrow> nat \<Rightarrow> thread_phase_model" where
  "plan_of env w p = models (env_profile env) ! unat (model_first (profile_threads (env_profile env) ! w) + of_nat p)"

definition planned :: "'h environment \<Rightarrow> nat \<Rightarrow> nat \<Rightarrow> nat \<Rightarrow> nat \<Rightarrow> u64" where
  "planned env w a b g = (\<Sum>p\<leftarrow>[a..<b]. model_counts (plan_of env w p) ! g)"

lemma planned_append: "a \<le> b \<Longrightarrow> b \<le> c \<Longrightarrow> planned env w a b g + planned env w b c g = planned env w a c g"
  using upt_add_eq_append [of a b "c - b"] by (simp add: planned_def flip: sum_list_append map_append)

lemma planned_first: "a < b \<Longrightarrow> planned env w a b g = model_counts (plan_of env w a) ! g + planned env w (Suc a) b g"
  by (simp add: planned_def upt_conv_Cons)

lemma planned_empty [simp]: "planned env w a a g = 0"
  by (simp add: planned_def)

lemma worker_model_plan:
  "w_profile (worker_at st w) = profile_threads (env_profile env) ! w \<Longrightarrow>
    worker_model env st w phase = plan_of env w (unat phase)"
proof -
  have "(ucast phase :: u64) = of_nat (unat phase)"
    using unat_u32_u64 [of phase] by (simp add: word_unat_eq_iff unat_of_nat_u64 less_trans [OF unsigned_less])
  then show "w_profile (worker_at st w) = profile_threads (env_profile env) ! w \<Longrightarrow>
    worker_model env st w phase = plan_of env w (unat phase)"
    by (simp add: worker_model_def plan_of_def)
qed

fun due :: "worker_pc \<Rightarrow> nat \<Rightarrow> u64" where
  "due Idle g = 0"
| "due (Generating wr) g = owed wr g"
| "due (Draining wr) g = owed wr g"
| "due (Reported ld rd) g = ld ! g + rd ! g"
| "due (Settling ld rd) g = ld ! g + rd ! g"
| "due (PayRemote rd) g = rd ! g"
| "due (CheckDone rd) g = rd ! g"

fun next_phase :: "profile_wave \<Rightarrow> worker_pc \<Rightarrow> nat" where
  "next_phase wave (Generating wr) = Suc (unat (wr_phase wr))"
| "next_phase wave (Draining wr) = Suc (unat (wr_phase wr))"
| "next_phase wave _ = wave_end wave"

fun pc_fine :: "profile_wave \<Rightarrow> worker_pc \<Rightarrow> bool" where
  "pc_fine wave Idle = True"
| "pc_fine wave (Generating wr) = (in_order wr \<and> unat (wr_phase wr) < wave_end wave)"
| "pc_fine wave (Draining wr) = (in_order wr \<and> unat (wr_phase wr) < wave_end wave)"
| "pc_fine wave (Reported ld rd) = (free_debt ld \<and> free_debt rd)"
| "pc_fine wave (Settling ld rd) = (free_debt ld \<and> free_debt rd)"
| "pc_fine wave (PayRemote rd) = free_debt rd"
| "pc_fine wave (CheckDone rd) = free_debt rd"

definition good_space :: "'h environment \<Rightarrow> 'h synth \<Rightarrow> bool" where
  "good_space env st \<longleftrightarrow> sized st \<and> length (g_workers st) = length (profile_threads (env_profile env)) \<and>
    (\<forall>v<length (g_workers st). w_profile (worker_at st v) = profile_threads (env_profile env) ! v)"

definition paid_up :: "'h environment \<Rightarrow> profile_wave \<Rightarrow> 'h synth \<Rightarrow> nat \<Rightarrow> worker_pc \<Rightarrow> bool" where
  "paid_up env wave st w pc \<longleftrightarrow> pc_fine wave pc \<and> (\<forall>g<FUNCTION_COUNT.
    calls st w g + due pc g + planned env w (next_phase wave pc) (wave_end wave) g = planned env w 0 (wave_end wave) g)"

definition account :: "'h environment \<Rightarrow> 'h run \<Rightarrow> bool" where
  "account env s \<longleftrightarrow> good_space env (r_synth s) \<and> r_wave s < length (waves (env_profile env)) \<and>
    (\<forall>w<length (g_workers (r_synth s)). paid_up env (current_wave env s) (r_synth s) w (r_pc s w))"

lemma accountD:
  assumes "account env s" and "w < length (g_workers (r_synth s))"
  shows "good_space env (r_synth s)" and "sized (r_synth s)" and "r_wave s < length (waves (env_profile env))"
    and "paid_up env (current_wave env s) (r_synth s) w (r_pc s w)"
  using assms by (simp_all add: account_def good_space_def)

lemma account_at_pc:
  assumes a: "account env s" and w: "w < length (g_workers (r_synth s))" and o: "others_kept w (r_synth s) st'"
    and p: "paid_up env (current_wave env s) st' w pc"
  shows "account env (at_pc w pc st' s)"
proof -
  have st': "length (g_workers st') = length (g_workers (r_synth s))"
    "\<And>v. w_profile (worker_at st' v) = w_profile (worker_at (r_synth s) v)"
    "\<And>v g. v \<noteq> w \<Longrightarrow> calls st' v g = calls (r_synth s) v g" "sized (r_synth s) \<Longrightarrow> sized st'"
    using o unfolding others_kept_def by blast+
  have gs: "good_space env st'"
    using accountD(1) [OF a w] st' by (simp add: good_space_def)
  have "paid_up env (current_wave env s) st' v (r_pc s v)" if "v < length (g_workers st')" "v \<noteq> w" for v
    using a that st' by (simp add: account_def paid_up_def)
  then show ?thesis
    using gs p accountD(3) [OF a w] by (simp add: account_def at_pc_def current_wave_def)
qed

lemma paid_up_step:
  assumes "paid_up env wave st w pc" and "pc_fine wave pc'" and "next_phase wave pc' = next_phase wave pc"
    and "\<And>g. g < FUNCTION_COUNT \<Longrightarrow> calls st' w g + due pc' g = calls st w g + due pc g"
  shows "paid_up env wave st' w pc'"
  using assms unfolding paid_up_def by (metis (no_types, lifting))


definition plan_fits :: "'h environment \<Rightarrow> bool" where
  "plan_fits env \<longleftrightarrow> (\<forall>wave\<in>set (waves (env_profile env)). wave_end wave < 2 ^ 32 \<and>
    (\<forall>w<length (profile_threads (env_profile env)). \<forall>p<wave_end wave.
      length (model_counts (plan_of env w p)) = FUNCTION_COUNT \<and> calls_of (model_counts (plan_of env w p)) < 2 ^ 64))"

lemma begin_phase_balanced:
  assumes "length (model_counts model) = FUNCTION_COUNT" and "calls_of (model_counts model) < 2 ^ 64"
  shows "balanced (begin_phase model)"
proof -
  have "(\<Sum>g\<leftarrow>[0..<FUNCTION_COUNT]. unat (model_counts model ! g)) = calls_of (model_counts model)"
    by (simp add: calls_of_def interv_sum_list_conv_sum_set_nat atLeast0LessThan)
  then show ?thesis
    using assms unat_sum_list [of "map (\<lambda>g. model_counts model ! g) [0..<FUNCTION_COUNT]"]
    by (simp add: balanced_def begin_phase_def o_def)
qed

lemma first_run_paid:
  assumes fits: "plan_fits env" and wave: "wave \<in> set (waves (env_profile env))" and gs: "good_space env st"
    and w: "w < length (g_workers st)" and p: "unat phase < wave_end wave"
    and d: "free_debt ld" "free_debt rd"
    and before: "\<And>g. g < FUNCTION_COUNT \<Longrightarrow> calls st w g + ld ! g + rd ! g = planned env w 0 (unat phase) g"
  shows "paid_up env wave st w (Generating (first_run env st w phase ld rd))"
proof -
  have m: "worker_model env st w phase = plan_of env w (unat phase)"
    by (rule worker_model_plan) (use gs w in \<open>simp add: good_space_def\<close>)
  have "balanced (begin_phase (plan_of env w (unat phase)))"
    using fits wave p w gs unfolding plan_fits_def good_space_def by (intro begin_phase_balanced) simp_all
  then have f: "pc_fine wave (Generating (first_run env st w phase ld rd))"
    using d p by (simp add: in_order_def first_run_def m)
  have "calls st w g + due (Generating (first_run env st w phase ld rd)) g +
      planned env w (Suc (unat phase)) (wave_end wave) g = planned env w 0 (wave_end wave) g" if "g < FUNCTION_COUNT" for g
  proof -
    have "calls st w g + due (Generating (first_run env st w phase ld rd)) g + planned env w (Suc (unat phase)) (wave_end wave) g =
        (calls st w g + ld ! g + rd ! g) +
        (model_counts (plan_of env w (unat phase)) ! g + planned env w (Suc (unat phase)) (wave_end wave) g)"
      by (simp add: owed_def first_run_def m begin_phase_def)
    also have "\<dots> = planned env w 0 (unat phase) g + planned env w (unat phase) (wave_end wave) g"
      using before [OF that] planned_first [OF p, of env w g] by simp
    also have "\<dots> = planned env w 0 (wave_end wave) g"
      using p by (intro planned_append) simp_all
    finally show ?thesis .
  qed
  then show ?thesis using f by (simp add: paid_up_def first_run_def)
qed

lemma nothing_left:
  assumes "balanced pr" and "calls_left pr = 0" and "g < FUNCTION_COUNT"
  shows "remaining pr ! g = 0"
proof -
  have "(\<Sum>g<FUNCTION_COUNT. unat (remaining pr ! g)) = 0"
    using assms(1,2) by (simp add: balanced_def calls_of_def)
  then have "unat (remaining pr ! g) = 0"
    using assms(3) by simp
  then show ?thesis by (simp add: unat_eq_zero)
qed

lemma not_owing: "free_debt rd \<Longrightarrow> \<not> owes rd \<Longrightarrow> g < FUNCTION_COUNT \<Longrightarrow> rd ! g = 0"
  by (auto simp: free_debt_def owes_def)

lemma end_phase_account:
  assumes a: "account env s" and w: "w < length (g_workers (r_synth s))" and pc: "r_pc s w = Generating wr"
    and left: "calls_left (wr_run wr) = 0" and fits: "plan_fits env"
  shows "account env (end_phase env w wr s)"
proof -
  let ?wave = "current_wave env s"
  let ?st = "r_synth s"
  have wave: "?wave \<in> set (waves (env_profile env))"
    using accountD(3) [OF a w] by (simp add: current_wave_def)
  have pu: "paid_up env ?wave ?st w (Generating wr)"
    using accountD(4) [OF a w] pc by simp
  have io: "in_order wr" "unat (wr_phase wr) < wave_end ?wave"
    using pu by (simp_all add: paid_up_def)
  have bal: "balanced (wr_run wr)" and fd: "free_debt (local_debt wr)" "free_debt (remote_debt wr)"
    using io(1) by (simp_all add: in_order_def)
  have lt: "wave_end ?wave < 2 ^ 32" using fits wave by (simp add: plan_fits_def)
  then have u: "unat (wr_phase wr + 1) = Suc (unat (wr_phase wr))"
    "unat (first_phase ?wave + wave_phase_count ?wave) = wave_end ?wave"
    using io(2) by (simp_all add: unat_add_no_wrap wave_end_def)
  have eq: "calls ?st w g + local_debt wr ! g + remote_debt wr ! g +
      planned env w (Suc (unat (wr_phase wr))) (wave_end ?wave) g = planned env w 0 (wave_end ?wave) g"
    if g: "g < FUNCTION_COUNT" for g
  proof -
    have "calls ?st w g + owed wr g + planned env w (Suc (unat (wr_phase wr))) (wave_end ?wave) g =
        planned env w 0 (wave_end ?wave) g"
      using pu g unfolding paid_up_def by simp
    then show ?thesis
      using nothing_left [OF bal left g] by (simp add: owed_def add.assoc)
  qed
  have kept: "others_kept w ?st ?st" by (simp add: others_kept_def)
  show ?thesis
  proof (cases "wr_phase wr + 1 < first_phase ?wave + wave_phase_count ?wave")
    case True
    then have lt: "Suc (unat (wr_phase wr)) < wave_end ?wave"
      by (simp add: word_less_nat_alt u)
    have "paid_up env ?wave ?st w (Generating (first_run env ?st w (wr_phase wr + 1) (local_debt wr) (remote_debt wr)))"
    proof (rule first_run_paid [OF fits wave accountD(1) [OF a w] w _ fd])
      show "unat (wr_phase wr + 1) < wave_end ?wave" using lt u by simp
      fix g
      assume g: "g < FUNCTION_COUNT"
      have "calls ?st w g + local_debt wr ! g + remote_debt wr ! g +
          planned env w (Suc (unat (wr_phase wr))) (wave_end ?wave) g =
        planned env w 0 (Suc (unat (wr_phase wr))) g + planned env w (Suc (unat (wr_phase wr))) (wave_end ?wave) g"
        using eq [OF g] planned_append [of 0 "Suc (unat (wr_phase wr))" "wave_end ?wave" env w g] lt by simp
      then show "calls ?st w g + local_debt wr ! g + remote_debt wr ! g = planned env w 0 (unat (wr_phase wr + 1)) g"
        by (simp add: u)
    qed
    from account_at_pc [OF a w kept this] show ?thesis
      using True by (simp add: end_phase_def Let_def)
  next
    case False
    then have "Suc (unat (wr_phase wr)) = wave_end ?wave"
      using io(2) by (simp add: word_less_nat_alt u)
    then have "paid_up env ?wave ?st w (Reported (local_debt wr) (remote_debt wr))"
      using eq fd by (simp add: paid_up_def add.assoc)
    from account_at_pc [OF a w kept this] show ?thesis
      using False by (simp add: end_phase_def Let_def account_def current_wave_def)
  qed
qed

lemma others_refl [simp]: "others_kept w st st"
  by (simp add: others_kept_def)

lemma worker_step_account:
  assumes step: "worker_step env w s s'" and w: "w < length (g_workers (r_synth s))"
    and q: "quiet env (length (profile_threads (env_profile env))) (r_synth s)" and law: "lawful env"
    and fits: "plan_fits env" and inv: "g_failed (r_synth s) \<or> account env s"
  shows "g_failed (r_synth s') \<or> account env s'"
proof -
  let ?st = "r_synth s" and ?wave = "current_wave env s"
  have h: "holding env (length (profile_threads (env_profile env))) w [] [] ?st"
    using q w quiet_holding by (metis quiet_def)
  have pu: "account env s \<Longrightarrow> paid_up env ?wave ?st w (r_pc s w)" and zs: "account env s \<Longrightarrow> sized ?st"
    using accountD(2,4) [OF _ w] by blast+
  from step show ?thesis
  proof cases
    case (generate wr going wr' st')
    show ?thesis
    proof (cases "g_failed st'")
      case True
      then show ?thesis using generate(1) by (simp add: at_pc_def)
    next
      case False
      have a: "account env s" using inv generate(4) by blast
      have p: "paid_up env ?wave ?st w (Generating wr)" using pu [OF a] generate(2) by simp
      then have io: "in_order wr" "unat (wr_phase wr) < wave_end ?wave" by (simp_all add: paid_up_def)
      note g = generate_call_counts [OF h law refl zs [OF a] io(1) generate(3,5) False]
      have "paid_up env ?wave st' w (Draining wr')"
        by (rule paid_up_step [OF p]) (use g io in simp_all)
      from account_at_pc [OF a w g(4) this] show ?thesis
        using generate(1) g(1) by simp
    qed
  next
    case (phase_over wr)
    show ?thesis
    proof (cases "g_failed ?st")
      case True
      then show ?thesis using phase_over(1) by (simp add: end_phase_def at_pc_def Let_def)
    next
      case False
      then show ?thesis
        using end_phase_account [OF _ w phase_over(2) _ fits] inv phase_over(1,3) by blast
    qed
  next
    case (drain wr found debt st')
    show ?thesis
    proof (cases "g_failed ?st")
      case True
      then show ?thesis using drain(1) drain_one_failed [OF drain(3)] by (simp add: at_pc_def)
    next
      case False
      then have a: "account env s" using inv by blast
      have p: "paid_up env ?wave ?st w (Draining wr)" using pu [OF a] drain(2) by simp
      then have io: "in_order wr" "unat (wr_phase wr) < wave_end ?wave" by (simp_all add: paid_up_def)
      have s: "settles w no_call (remote_debt wr) ?st debt st'"
        by (rule remote_counts(2) [OF w zs [OF a] _ drain(3)]) (use io in \<open>simp add: in_order_def\<close>)
      have e: "calls st' w g + debt ! g = calls ?st w g + remote_debt wr ! g" if "g < FUNCTION_COUNT" for g
        using settles_calls [OF s that] by (simp add: no_call_def)
      have d: "debt = remote_debt wr" if "\<not> found"
        using drain(3) that by (auto simp: drain_one_remote_def split: option.splits prod.splits if_splits)
      have "paid_up env ?wave st' w (if found then Draining (wr\<lparr>remote_debt := debt\<rparr>) else Generating wr)"
      proof (cases found)
        case True
        have "calls st' w g + owed (wr\<lparr>remote_debt := debt\<rparr>) g = calls ?st w g + owed wr g" if "g < FUNCTION_COUNT" for g
          using e [OF that] by (simp add: owed_def algebra_simps)
        then have "paid_up env ?wave st' w (Draining (wr\<lparr>remote_debt := debt\<rparr>))"
          using io settles_size(3) [OF s] by (intro paid_up_step [OF p]) (simp_all add: in_order_def)
        then show ?thesis using True by simp
      next
        case False
        have "paid_up env ?wave st' w (Generating wr)"
          using io e d [OF False] by (intro paid_up_step [OF p]) simp_all
        then show ?thesis using False by simp
      qed
      from account_at_pc [OF a w settles_others [OF s] this] show ?thesis
        using drain(1) by simp
    qed
  next
    case (reported ld rd)
    show ?thesis
    proof (cases "g_failed ?st")
      case True
      then show ?thesis using reported(1) by (simp add: at_pc_def)
    next
      case False
      then have a: "account env s" using inv by blast
      have "paid_up env ?wave ?st w (Settling ld rd)"
        using pu [OF a] reported(2) by (simp add: paid_up_def)
      from account_at_pc [OF a w others_refl this] show ?thesis
        using reported(1) False by simp
    qed
  next
    case (settle ld rd ld' st1 ld'' st2)
    have d: "drain_local_steps env w (length (local_objects (worker_at ?st w))) ld ?st = (ld', st1)"
      using settle(3) by (simp add: drain_local_debt_def)
    show ?thesis
    proof (cases "g_failed ?st")
      case True
      then show ?thesis
        using settle(1) drain_local_failed [OF d] pay_local_failed [OF settle(4)] by (simp add: at_pc_def)
    next
      case False
      then have a: "account env s" using inv by blast
      have p: "paid_up env ?wave ?st w (Settling ld rd)" using pu [OF a] settle(2) by simp
      then have fd: "free_debt ld" "free_debt rd" by (simp_all add: paid_up_def)
      have s1: "settles w no_call ld ?st ld' st1"
        by (rule drain_local_counts [OF w zs [OF a] fd(1) d])
      have w1: "w < length (g_workers st1)" "sized st1" "free_debt ld'"
        using settles_size [OF s1] w zs [OF a] fd(1) by simp_all
      note s2 = pay_local_counts [OF w1 settle(4)]
      have s: "settles w no_call ld ?st ld'' st2"
        by (rule settles_trans [OF s1 s2(1)]) (simp add: no_call_def)
      have "calls st2 w g + rd ! g = calls ?st w g + (ld ! g + rd ! g)" if "g < FUNCTION_COUNT" for g
        using settles_calls [OF s that] s2(2) [OF that] by (simp add: no_call_def add.assoc)
      then have "paid_up env ?wave st2 w (PayRemote rd)"
        using fd by (intro paid_up_step [OF p]) simp_all
      from account_at_pc [OF a w settles_others [OF s] this] show ?thesis
        using settle(1) by simp
    qed
  next
    case (paid rd)
    show ?thesis
    proof (cases "g_failed ?st")
      case True
      then show ?thesis using paid(1) by (simp add: at_pc_def)
    next
      case False
      then have a: "account env s" using inv by blast
      have p: "paid_up env ?wave ?st w (PayRemote rd)" using pu [OF a] paid(2) by simp
      then have "free_debt rd" by (simp add: paid_up_def)
      then have "paid_up env ?wave ?st w Idle"
        using not_owing [OF _ paid(3)] by (intro paid_up_step [OF p]) simp_all
      from account_at_pc [OF a w others_refl this] show ?thesis
        using paid(1) by simp
    qed
  next
    case (pay rd found debt st')
    show ?thesis
    proof (cases "g_failed ?st")
      case True
      then show ?thesis using pay(1) drain_one_failed [OF pay(4)] by (simp add: at_pc_def)
    next
      case False
      then have a: "account env s" using inv by blast
      have p: "paid_up env ?wave ?st w (PayRemote rd)" using pu [OF a] pay(2) by simp
      then have fd: "free_debt rd" by (simp add: paid_up_def)
      have s: "settles w no_call rd ?st debt st'"
        by (rule remote_counts(2) [OF w zs [OF a] fd pay(4)])
      have e: "calls st' w g + debt ! g = calls ?st w g + rd ! g" if "g < FUNCTION_COUNT" for g
        using settles_calls [OF s that] by (simp add: no_call_def)
      have d: "debt = rd" if "\<not> found"
        using pay(4) that by (auto simp: drain_one_remote_def split: option.splits prod.splits if_splits)
      have "paid_up env ?wave st' w (if found then PayRemote debt else CheckDone rd)"
        by (rule paid_up_step [OF p]) (use e d fd settles_size(3) [OF s] in auto)
      from account_at_pc [OF a w settles_others [OF s] this] show ?thesis
        using pay(1) by simp
    qed
  next
    case (check_done rd)
    show ?thesis
    proof (cases "g_failed ?st \<or> r_generated s = wave_worker_count env ?st ?wave")
      case True
      then show ?thesis using check_done(1) by (auto simp: at_pc_def fail_run_def)
    next
      case False
      then have a: "account env s" using inv by blast
      have "paid_up env ?wave ?st w (PayRemote rd)"
        using pu [OF a] check_done(2) by (simp add: paid_up_def)
      from account_at_pc [OF a w others_refl this] show ?thesis
        using check_done(1) False by simp
    qed
  qed
qed


lemma start_account:
  assumes fits: "plan_fits env" and i: "i < length (waves (env_profile env))" and gs: "good_space env (r_synth s)"
    and before: "\<And>w g. w < length (g_workers (r_synth s)) \<Longrightarrow> g < FUNCTION_COUNT \<Longrightarrow>
      calls (r_synth s) w g = planned env w 0 (unat (first_phase (waves (env_profile env) ! i))) g"
    and some: "wave_phase_count (waves (env_profile env) ! i) \<noteq> 0"
  shows "g_failed (r_synth (start_wave env i s)) \<or> account env (start_wave env i s)"
proof -
  let ?wave = "waves (env_profile env) ! i" and ?st = "r_synth s"
  let ?first = "unat (first_phase ?wave)"
  have wave: "?wave \<in> set (waves (env_profile env))" using i by simp
  have lt: "?first < wave_end ?wave"
    using some by (simp add: wave_end_def unat_gt_0)
  have nd: "free_debt no_debt" by (simp add: free_debt_def no_debt_def)
  have active: "paid_up env ?wave ?st w (Generating (first_run env ?st w (first_phase ?wave) no_debt no_debt))"
    if w: "w < length (g_workers ?st)" for w
    by (rule first_run_paid [OF fits wave gs w lt nd nd]) (use before [OF w] in \<open>simp add: no_debt_def\<close>)
  have idle: "paid_up env ?wave ?st w Idle" if w: "w < length (g_workers ?st)" and no: "\<not> active_in env ?st ?wave w" for w
  proof -
    have z0: "model_counts (plan_of env w p) ! g = 0" if p: "?first \<le> p" "p < wave_end ?wave" and g: "g < FUNCTION_COUNT" for p g
    proof -
      let ?phase = "first_phase ?wave + of_nat (p - ?first)"
      have b: "wave_end ?wave < 2 ^ 32" using fits wave by (simp add: plan_fits_def)
      then have "unat ?phase = p"
        using p by (simp add: unat_add_no_wrap unat_of_nat_u32)
      moreover have "?phase \<in> set (wave_phases ?wave)"
        using p unfolding wave_phases_def wave_end_def set_map by (intro imageI) auto
      ultimately show ?thesis
        using no g gs w worker_model_plan [of ?st w env ?phase] by (auto simp: active_in_def good_space_def)
    qed
    have z: "planned env w ?first (wave_end ?wave) g = 0" if "g < FUNCTION_COUNT" for g
    proof -
      have "map (\<lambda>p. model_counts (plan_of env w p) ! g) [?first..<wave_end ?wave] = map (\<lambda>_. 0) [?first..<wave_end ?wave]"
        using z0 that by (intro map_cong) auto
      then show ?thesis unfolding planned_def by (simp add: map_replicate_const sum_list_replicate)
    qed
    have "calls ?st w g = planned env w 0 (wave_end ?wave) g" if g: "g < FUNCTION_COUNT" for g
      using before [OF w g] z [OF g] planned_append [of 0 ?first "wave_end ?wave" env w g] lt by simp
    then show ?thesis by (simp add: paid_up_def)
  qed
  show ?thesis
    unfolding start_wave_def Let_def
    using active idle gs i by (auto simp: account_def current_wave_def fail_run_def)
qed

lemma run_account:
  assumes run: "(run_step env)\<^sup>*\<^sup>* s s'" and law: "lawful env" and fits: "plan_fits env"
    and waves: "check_waves pc (waves (env_profile env)) 0 0 = Some (e, ops)"
    and q: "quiet env (length (profile_threads (env_profile env))) (r_synth s)"
    and inv: "g_failed (r_synth s) \<or> account env s"
  shows "g_failed (r_synth s') \<or> account env s'"
  using run
proof (induction rule: rtranclp_induct)
  case base
  show ?case by (rule inv)
next
  case (step s1 s2)
  have q1: "quiet env (length (profile_threads (env_profile env))) (r_synth s1)"
    by (rule run_quiet [OF step(1) q law refl])
  from step(2) show ?case
  proof cases
    case (work w)
    show ?thesis by (rule worker_step_account [OF work(2,1) q1 law fits step(3)])
  next
    case next_wave
    let ?ws = "waves (env_profile env)"
    have a: "account env s1" using step(3) next_wave(3) by blast
    note cw = check_waves_nth [OF waves _ next_wave(4)]
    have first: "unat (first_phase (?ws ! Suc (r_wave s1))) = wave_end (?ws ! r_wave s1)"
      using cw(1) by simp
    have "calls (r_synth s1) w g = planned env w 0 (wave_end (?ws ! r_wave s1)) g"
      if w: "w < length (g_workers (r_synth s1))" and g: "g < FUNCTION_COUNT" for w g
    proof -
      have "paid_up env (current_wave env s1) (r_synth s1) w Idle"
        using accountD(4) [OF a w] next_wave(2) w by (simp add: wave_over_def)
      then show ?thesis using g by (simp add: paid_up_def current_wave_def)
    qed
    then show ?thesis
      unfolding next_wave(1) using a cw(2) next_wave(4)
      by (intro start_account [OF fits]) (simp_all add: first account_def)
  qed
qed

lemma initial_space:
  assumes "initialize_workers env so h = Some st"
  shows "good_space env st" and "w < length (g_workers st) \<Longrightarrow> g < FUNCTION_COUNT \<Longrightarrow> calls st w g = 0"
proof -
  have st: "g_workers st = make_workers so 0 0 (profile_threads (env_profile env))"
    using assms by (auto simp: initialize_workers_def Let_def split: if_splits)
  show "good_space env st"
    using make_workers_nth [of _ "profile_threads (env_profile env)" so 0 0]
    by (simp add: good_space_def sized_def worker_at_def st)
  show "w < length (g_workers st) \<Longrightarrow> g < FUNCTION_COUNT \<Longrightarrow> calls st w g = 0"
    using make_workers_nth [of w "profile_threads (env_profile env)" so 0 0]
    by (simp add: calls_def worker_at_def st)
qed

lemma loaded_plan_fits:
  assumes load: "load_profile file = Some (hdr, env_profile env)"
    and range: "\<And>t p. t \<in> set (profile_threads (env_profile env)) \<Longrightarrow> p < unat (phase_count hdr) \<Longrightarrow>
      unat (model_first t + of_nat p) < length (models (env_profile env))"
    and total: "\<And>model. model \<in> set (models (env_profile env)) \<Longrightarrow> calls_of (model_counts model) < 2 ^ 64"
  shows "plan_fits env"
  unfolding plan_fits_def
proof (intro ballI conjI allI impI)
  fix wave
  assume wave: "wave \<in> set (waves (env_profile env))"
  have e: "wave_end wave \<le> unat (phase_count hdr)"
    using load_profile_spec(12) [OF load wave] by (simp add: wave_end_def)
  then show "wave_end wave < 2 ^ 32"
    using unsigned_less [of "phase_count hdr", where ?'a = nat] by simp
  fix w p
  assume w: "w < length (profile_threads (env_profile env))" and p: "p < wave_end wave"
  have "plan_of env w p \<in> set (models (env_profile env))"
    using range [OF nth_mem [OF w], of p] p e by (simp add: plan_of_def)
  then show "length (model_counts (plan_of env w p)) = FUNCTION_COUNT" "calls_of (model_counts (plan_of env w p)) < 2 ^ 64"
    using load_profile_spec(19) [OF load] total by blast+
qed



text \<open>An image with one wave, one phase and one thread, whose model asks for one call of \<open>calloc\<close>; the
  bytes of the thread and of its model are the same ones.\<close>

definition calloc_image :: "u8 list" where
  "calloc_image = [77, 83, 82, 85, 78, 48, 48, 49, 2, 0, 0, 0, 88, 0, 0, 0, 1, 0, 0, 0, 1, 0, 0, 0, 10, 0, 0, 0, 1, 0, 0, 0,
     1, 0, 0, 0, 0, 0, 0, 0, 104, 0, 0, 0, 0, 0, 0, 0, 224, 0, 0, 0, 0, 0, 0, 0, 104, 0, 0, 0, 0, 0, 0, 0,
     56, 1, 0, 0, 0, 0, 0, 0, 56, 1, 0, 0, 0, 0, 0, 0, 56, 1, 0, 0, 0, 0, 0, 0,
     0, 0, 0, 0, 1, 0, 0, 0, 1, 0, 0, 0, 0, 0, 0, 0] @ replicate 16 0 @ [1] @ replicate 191 0 @
    [77, 83, 69, 78, 68, 48, 48, 49, 56, 1, 0, 0, 0, 0, 0, 0, 2, 0, 0, 0, 0, 0, 0, 0]"

definition calloc_model :: thread_phase_model where
  "calloc_model = \<lparr>model_counts = [0, 0, 1, 0, 0, 0, 0, 0, 0, 0], remote_free = 0, remote_publish = 0, realloc_null = 0,
    route_first = 0, route_count = 0\<rparr>"

definition calloc_profile :: profile where
  "calloc_profile = \<lparr>waves = [\<lparr>first_phase = 0, wave_phase_count = 1, wave_operations = 1\<rparr>],
    profile_threads = [\<lparr>pt_trace_tid = 0, seed = 0, capacity = 1, pt_recorded_cpu = 0, pt_total_ops = 0, model_first = 0\<rparr>],
    phases = [\<lparr>pp_total_ops = 0, sizes = replicate 10 \<lparr>sr_first = 0, sr_count = 0\<rparr>\<rparr>],
    models = [calloc_model], routes = [], samples = []\<rparr>"

definition calloc_header :: profile_header where
  "calloc_header = header_at calloc_image 0"

lemma calloc_loads: "load_profile calloc_image = Some (calloc_header, calloc_profile)"
  unfolding calloc_header_def by code_simp

definition calloc_env :: "bool environment" where
  "calloc_env = \<lparr>call_heap = one_block, live_of = (\<lambda>b. if b then {4096} else {}), has_free_sized = False,
    env_profile = calloc_profile\<rparr>"

definition calloc_start :: "bool synth" where
  "calloc_start = the (initialize_workers calloc_env 0 False)"

lemma calloc_initial: "initialize_workers calloc_env 0 False = Some calloc_start"
  unfolding calloc_start_def by code_simp

definition calloc_run :: worker_run where
  "calloc_run = first_run calloc_env calloc_start 0 0 no_debt no_debt"

definition calloc_done :: "bool \<times> worker_run \<times> bool synth" where
  "calloc_done = generate_call calloc_env 0 calloc_run calloc_start"

lemma calloc_facts:
  "fst calloc_done \<and> calls_left (wr_run calloc_run) \<noteq> 0 \<and> \<not> g_failed calloc_start \<and>
   calls_left (wr_run (fst (snd calloc_done))) = 0 \<and> wr_phase (fst (snd calloc_done)) = 0 \<and>
   local_debt (fst (snd calloc_done)) = no_debt \<and> remote_debt (fst (snd calloc_done)) = no_debt \<and>
   \<not> g_failed (snd (snd calloc_done)) \<and> length (g_workers calloc_start) = 1 \<and>
   length (g_workers (snd (snd calloc_done))) = 1 \<and> function_counts (worker_at (snd (snd calloc_done)) 0) ! 2 = 1"
  by code_simp

lemma calloc_active: "active_in calloc_env calloc_start (waves calloc_profile ! 0) 0"
  by code_simp

lemma calloc_started: "r_pc (first_state calloc_env calloc_start) 0 = Generating calloc_run"
  "r_synth (first_state calloc_env calloc_start) = calloc_start" "r_wave (first_state calloc_env calloc_start) = 0"
proof -
  have "waves (env_profile calloc_env) = waves calloc_profile" by (simp add: calloc_env_def)
  moreover have "length (g_workers calloc_start) = 1" using calloc_facts by blast
  ultimately show "r_pc (first_state calloc_env calloc_start) 0 = Generating calloc_run"
    "r_synth (first_state calloc_env calloc_start) = calloc_start" "r_wave (first_state calloc_env calloc_start) = 0"
    using calloc_active
    by (simp_all add: first_state_def start_wave_def wave_worker_count_def calloc_run_def Let_def)
      (simp add: calloc_profile_def)
qed


lemma at_pc_parts:
  "r_pc (at_pc w pc st s) v = (if v = w then pc else r_pc s v)" "r_synth (at_pc w pc st s) = st"
  "r_wave (at_pc w pc st s) = r_wave s" "current_wave env (at_pc w pc st s) = current_wave env s"
  by (simp_all add: at_pc_def current_wave_def)

lemma nothing_owed: "debt_function no_debt = None" "\<not> owes no_debt"
  by (simp_all add: debt_function_def owes_def no_debt_def)

lemma calloc_finishes:
  "\<exists>s. (run_step calloc_env)\<^sup>*\<^sup>* (first_state calloc_env calloc_start) s \<and> wave_over s \<and>
    Suc (r_wave s) = length (waves (env_profile calloc_env)) \<and> \<not> g_failed (r_synth s) \<and>
    function_counts (worker_at (r_synth s) 0) ! 2 = 1"
proof -
  obtain b wr st where fin: "calloc_done = (b, wr, st)" by (metis prod.exhaust)
  note f = calloc_facts [unfolded fin fst_conv snd_conv]
  have len: "length (g_workers st) = 1" using f by blast
  let ?s0 = "first_state calloc_env calloc_start"
  let ?s1 = "at_pc 0 (Draining wr) st ?s0"
  let ?s2 = "at_pc 0 (Generating wr) st ?s1"
  let ?s3 = "end_phase calloc_env 0 wr ?s2"
  let ?s4 = "at_pc 0 (Settling no_debt no_debt) (r_synth ?s3) ?s3"
  let ?s5 = "at_pc 0 (PayRemote no_debt) st ?s4"
  let ?s6 = "at_pc 0 Idle (r_synth ?s5) ?s5"
  have "worker_step calloc_env 0 ?s0 (at_pc 0 (if b then Draining wr else Generating wr) st ?s0)"
    by (rule generate [OF calloc_started(1)])
      (use f fin in \<open>simp_all add: calloc_started(2) flip: calloc_done_def\<close>)
  then have 1: "worker_step calloc_env 0 ?s0 ?s1" using f by simp
  have "worker_step calloc_env 0 ?s1 (at_pc 0 (if False then Draining (wr\<lparr>remote_debt := remote_debt wr\<rparr>) else Generating wr) st ?s1)"
    by (rule drain) (use f in \<open>simp_all add: at_pc_parts drain_one_remote_def nothing_owed\<close>)
  then have 2: "worker_step calloc_env 0 ?s1 ?s2" by simp
  have 3: "worker_step calloc_env 0 ?s2 ?s3"
    by (rule phase_over) (use f in \<open>simp_all add: at_pc_parts\<close>)
  have "current_wave calloc_env ?s2 = waves calloc_profile ! 0"
  proof -
    have "waves (env_profile calloc_env) = waves calloc_profile" by (simp add: calloc_env_def)
    then show ?thesis by (simp only: at_pc_parts) (simp add: current_wave_def calloc_started)
  qed
  then have s3: "r_pc ?s3 0 = Reported no_debt no_debt" "r_synth ?s3 = st" "r_wave ?s3 = 0"
    using f by (simp_all add: end_phase_def Let_def calloc_profile_def at_pc_parts calloc_started)
  have "worker_step calloc_env 0 ?s3 (at_pc 0 (if g_failed (r_synth ?s3) then Idle else Settling no_debt no_debt) (r_synth ?s3) ?s3)"
    by (rule reported [OF s3(1)])
  then have 4: "worker_step calloc_env 0 ?s3 ?s4" using f by (simp add: s3)
  have drained: "drain_local_debt calloc_env 0 no_debt st = (no_debt, st)"
    unfolding drain_local_debt_def by (cases "length (local_objects (worker_at st 0))") (simp_all add: nothing_owed)
  have payed: "pay_local_debt calloc_env 0 no_debt st = (no_debt, st)"
    by (simp add: pay_local_debt_def no_debt_def list_eq_iff_nth_eq nth_list_update)
  have 5: "worker_step calloc_env 0 ?s4 ?s5"
    by (rule settle [of _ _ no_debt no_debt _ no_debt st no_debt st]) (simp_all add: at_pc_parts s3 drained payed)
  have 6: "worker_step calloc_env 0 ?s5 ?s6"
    by (rule paid [of _ _ no_debt]) (simp_all add: at_pc_parts nothing_owed)
  have l: "length (g_workers (r_synth ?s0)) = 1" "length (g_workers (r_synth ?s1)) = 1"
    "length (g_workers (r_synth ?s2)) = 1" "length (g_workers (r_synth ?s3)) = 1"
    "length (g_workers (r_synth ?s4)) = 1" "length (g_workers (r_synth ?s5)) = 1"
    using f s3 by (simp_all add: at_pc_parts calloc_started)
  have step: "run_step calloc_env s s'" if "worker_step calloc_env 0 s s'" "length (g_workers (r_synth s)) = 1" for s s'
    using that by (intro work [of 0]) simp_all
  note go = converse_rtranclp_into_rtranclp [where r = "run_step calloc_env"]
  have "(run_step calloc_env)\<^sup>*\<^sup>* ?s0 ?s6"
    by (rule go [OF step [OF 1 l(1)]], rule go [OF step [OF 2 l(2)]], rule go [OF step [OF 3 l(3)]],
      rule go [OF step [OF 4 l(4)]], rule go [OF step [OF 5 l(5)]], rule go [OF step [OF 6 l(6)]], rule rtranclp.rtrancl_refl)
  moreover have "wave_over ?s6"
    using len by (simp add: wave_over_def at_pc_parts)
  moreover have "Suc (r_wave ?s6) = length (waves (env_profile calloc_env))"
    using s3 by (simp add: at_pc_parts calloc_env_def calloc_profile_def)
  ultimately show ?thesis
    using f by (intro exI [of _ ?s6]) (simp add: at_pc_parts)
qed

lemma calloc_env_lawful: "lawful calloc_env"
  using one_env_lawful by (simp add: lawful_def one_env_def calloc_env_def)


end
