(* ===== verification/NativeImage.thy ===== *)
theory NativeImage
  imports ImageBytes ReplayTools
begin

text \<open>
  The start of \<open>native_replay_runtime.c\<close>: the options that choose CPUs (\<open>parse_cpu_list\<close>,
  \<open>validate_cpu_options\<close>, \<open>worker_cpu\<close>) and \<open>load_embedded_image\<close>, which finds the operations of the
  threads in the executable.

  The lemmas show which lists of CPUs are accepted, and that every operation a worker of an
  accepted image reads lies in the image.
\<close>

subsection \<open>The choice of CPUs\<close>

text \<open>\<open>strtol(text, &end, 10)\<close>: the number, the rest of the text, and \<open>errno = ERANGE\<close>.\<close>

definition strtol10 :: "string \<Rightarrow> int \<times> string \<times> bool" where
  "strtol10 s =
    (let s1 = dropWhile is_space s;
         neg = (s1 \<noteq> [] \<and> hd s1 = CHR ''-'');
         s2 = (if s1 \<noteq> [] \<and> (hd s1 = CHR ''-'' \<or> hd s1 = CHR ''+'') then tl s1 else s1);
         ds = takeWhile is_digit s2; n = int (read_decimal ds); v = (if neg then - n else n)
     in if ds = [] then (0, s, False)
        else if v < - (2 ^ 63) then (- (2 ^ 63), dropWhile is_digit s2, True)
        else if 2 ^ 63 \<le> v then (2 ^ 63 - 1, dropWhile is_digit s2, True)
        else (v, dropWhile is_digit s2, False))"

definition CPU_SETSIZE :: nat where "CPU_SETSIZE = 1024"

text \<open>\<open>None\<close>, here and below: the program prints an error and exits.\<close>

definition parse_cpu_id :: "string \<Rightarrow> int option" where
  "parse_cpu_id s =
    (let (v, rest, erange) = strtol10 s
     in if erange \<or> rest = s \<or> rest \<noteq> [] \<or> v < 0 \<or> int CPU_SETSIZE \<le> v then None else Some v)"

definition append_cpu :: "int \<Rightarrow> int list \<Rightarrow> int list option" where
  "append_cpu cpu xs = (if cpu \<in> set xs then None else if CPU_SETSIZE \<le> length xs then None else Some (xs @ [cpu]))"

fun append_cpus :: "int list \<Rightarrow> int list \<Rightarrow> int list option" where
  "append_cpus [] xs = Some xs"
| "append_cpus (cpu # cpus) xs = (case append_cpu cpu xs of None \<Rightarrow> None | Some xs \<Rightarrow> append_cpus cpus xs)"

text \<open>The CPUs of one token of the list: a number or a range.\<close>

definition token_cpus :: "string \<Rightarrow> int list option" where
  "token_cpus token =
    (if CHR ''-'' \<notin> set token then map_option (\<lambda>cpu. [cpu]) (parse_cpu_id token)
     else case (parse_cpu_id (takeWhile (\<lambda>c. c \<noteq> CHR ''-'') token),
                parse_cpu_id (tl (dropWhile (\<lambda>c. c \<noteq> CHR ''-'') token))) of
       (Some low, Some high) \<Rightarrow> if high < low then None else Some [low..high]
     | _ \<Rightarrow> None)"

fun add_tokens :: "string list \<Rightarrow> int list \<Rightarrow> int list option" where
  "add_tokens [] xs = Some xs"
| "add_tokens (token # tokens) xs =
    (case token_cpus token of None \<Rightarrow> None
     | Some cpus \<Rightarrow> (case append_cpus cpus xs of None \<Rightarrow> None | Some xs \<Rightarrow> add_tokens tokens xs))"

text \<open>\<open>strtok_r\<close> skips empty tokens. \<open>xs\<close> is the list so far.\<close>

definition parse_cpu_list :: "string \<Rightarrow> int list \<Rightarrow> int list option" where
  "parse_cpu_list s xs =
    (case add_tokens (filter (\<lambda>token. token \<noteq> []) (split_on (CHR '','') s)) xs of
       None \<Rightarrow> None
     | Some ys \<Rightarrow> if ys = [] then None else Some ys)"

record cpu_options =
  g_cpu_list :: "int list"
  g_use_recorded_cpu :: bool
  g_controller_cpu :: int

definition validate_cpu_options :: "cpu_options \<Rightarrow> bool" where
  "validate_cpu_options opts \<longleftrightarrow>
    \<not> (g_use_recorded_cpu opts \<and> g_cpu_list opts \<noteq> []) \<and>
    (0 \<le> g_controller_cpu opts \<longrightarrow>
      \<not> (g_cpu_list opts = [] \<and> \<not> g_use_recorded_cpu opts) \<and> g_controller_cpu opts \<notin> set (g_cpu_list opts))"

text \<open>What an accepted list is.\<close>

definition cpus_ok :: "int list \<Rightarrow> bool" where
  "cpus_ok xs \<longleftrightarrow> distinct xs \<and> set xs \<subseteq> {0..<int CPU_SETSIZE}"

lemma cpus_ok_length: "cpus_ok xs \<Longrightarrow> length xs \<le> CPU_SETSIZE"
proof -
  assume ok: "cpus_ok xs"
  then have "card (set xs) \<le> card {0..<int CPU_SETSIZE}"
    unfolding cpus_ok_def by (intro card_mono) simp_all
  with ok show ?thesis
    by (simp add: cpus_ok_def distinct_card)
qed

lemma parse_cpu_id_range: "parse_cpu_id s = Some cpu \<Longrightarrow> 0 \<le> cpu \<and> cpu < int CPU_SETSIZE"
  by (auto simp: parse_cpu_id_def split: if_splits prod.splits)

lemma token_cpus_range: "token_cpus token = Some cpus \<Longrightarrow> set cpus \<subseteq> {0..<int CPU_SETSIZE}"
  by (auto simp: token_cpus_def dest!: parse_cpu_id_range split: if_splits option.splits)

text \<open>The array of the CPUs is never full when a new one is appended, so the second test never fails.\<close>

lemma append_cpu_room:
  assumes "cpus_ok xs" and "0 \<le> cpu" and "cpu < int CPU_SETSIZE" and "cpu \<notin> set xs"
  shows "length xs < CPU_SETSIZE" and "append_cpu cpu xs = Some (xs @ [cpu])"
proof -
  have "cpus_ok (xs @ [cpu])"
    using assms by (auto simp: cpus_ok_def)
  from cpus_ok_length [OF this] show "length xs < CPU_SETSIZE" by simp
  then show "append_cpu cpu xs = Some (xs @ [cpu])"
    using assms(4) by (simp add: append_cpu_def)
qed

lemma append_cpus_spec:
  assumes "cpus_ok xs" and "set cpus \<subseteq> {0..<int CPU_SETSIZE}"
  shows "append_cpus cpus xs = (if distinct (xs @ cpus) then Some (xs @ cpus) else None)"
  using assms
proof (induction cpus arbitrary: xs)
  case (Cons cpu cpus)
  show ?case
  proof (cases "cpu \<in> set xs")
    case True
    then show ?thesis by (simp add: append_cpu_def)
  next
    case False
    then have "append_cpu cpu xs = Some (xs @ [cpu])"
      using Cons.prems by (intro append_cpu_room(2)) simp_all
    moreover have "cpus_ok (xs @ [cpu])"
      using Cons.prems False by (auto simp: cpus_ok_def)
    ultimately show ?thesis
      using Cons.IH [of "xs @ [cpu]"] Cons.prems(2) by simp
  qed
qed (simp add: cpus_ok_def)

lemma add_tokens_spec:
  assumes "cpus_ok xs" and "add_tokens tokens xs = Some ys"
  shows "cpus_ok ys \<and> ys = xs @ concat (map (the \<circ> token_cpus) tokens) \<and> (\<forall>token\<in>set tokens. token_cpus token \<noteq> None)"
  using assms
proof (induction tokens arbitrary: xs)
  case (Cons token tokens)
  then obtain cpus zs where t: "token_cpus token = Some cpus" "append_cpus cpus xs = Some zs" "add_tokens tokens zs = Some ys"
    by (auto split: option.splits)
  then have "distinct (xs @ cpus)" "zs = xs @ cpus"
    using append_cpus_spec [OF Cons.prems(1) token_cpus_range [OF t(1)]] by (auto split: if_splits)
  moreover have "cpus_ok zs"
    using Cons.prems(1) token_cpus_range [OF t(1)] calculation unfolding cpus_ok_def by simp
  ultimately have ih: "cpus_ok ys" "ys = zs @ concat (map (the \<circ> token_cpus) tokens)"
    "\<forall>token\<in>set tokens. token_cpus token \<noteq> None" and zs: "zs = xs @ cpus"
    using Cons.IH [OF _ t(3)] by blast+
  show ?case
    using ih t(1) zs by (intro conjI ballI) (auto simp: comp_def)
qed simp

lemma parse_cpu_list_spec:
  assumes "cpus_ok xs" and "parse_cpu_list s xs = Some ys"
  shows "cpus_ok ys" and "ys \<noteq> []" and "length ys \<le> CPU_SETSIZE"
    and "ys = xs @ concat (map (the \<circ> token_cpus) (filter (\<lambda>token. token \<noteq> []) (split_on (CHR '','') s)))"
proof -
  have "add_tokens (filter (\<lambda>token. token \<noteq> []) (split_on (CHR '','') s)) xs = Some ys" and ne: "ys \<noteq> []"
    using assms(2) by (auto simp: parse_cpu_list_def split: option.splits if_splits)
  note spec = add_tokens_spec [OF assms(1) this(1)]
  show "ys \<noteq> []" by (rule ne)
  show "ys = xs @ concat (map (the \<circ> token_cpus) (filter (\<lambda>token. token \<noteq> []) (split_on (CHR '','') s)))"
    using spec by blast
  show "cpus_ok ys" using spec by blast
  then show "length ys \<le> CPU_SETSIZE" by (simp add: cpus_ok_length)
qed

lemma cpu_list_example: "parse_cpu_list ''4-6,,1'' [] = Some [4, 5, 6, 1] \<and> parse_cpu_list ''4,3-5'' [] = None \<and>
    parse_cpu_list ''-1'' [] = None \<and> parse_cpu_list ''1024'' [] = None"
  by code_simp

subsection \<open>The image\<close>

definition NATIVE_SLOT_NONE :: u32 where "NATIVE_SLOT_NONE = UINT32_MAX"

record native_header =
  n_magic :: "u8 list"
  n_version :: u32
  n_header_size :: u32
  n_thread_count :: u32
  n_flags :: u32
  n_slot_count :: u32
  n_op_count :: u32
  min_timestamp_ns :: u64
  max_timestamp_ns :: u64
  n_thread_offset :: u64
  n_op_offset :: u64

record native_thread =
  n_trace_tid :: u64
  first_op :: u64
  op_count :: u64
  n_recorded_cpu :: u32

record native_op =
  target_ns :: u64
  nop_size :: u64
  nop_slot :: u32
  wait_generation :: u32
  output_generation :: u32
  nop_aux :: u32
  nop_function :: u16
  nop_kind :: u8
  nop_flags :: u8

record native_image =
  ni_header :: native_header
  ni_threads :: "native_thread list"
  ni_ops :: "native_op list"

definition native_header_at :: "u8 list \<Rightarrow> nat \<Rightarrow> native_header" where
  "native_header_at file i =
    \<lparr>n_magic = bytes_at file i 8, n_version = u32_at file (i + 8), n_header_size = u32_at file (i + 12),
     n_thread_count = u32_at file (i + 16), n_flags = u32_at file (i + 20), n_slot_count = u32_at file (i + 24),
     n_op_count = u32_at file (i + 28), min_timestamp_ns = u64_at file (i + 32),
     max_timestamp_ns = u64_at file (i + 40), n_thread_offset = u64_at file (i + 48),
     n_op_offset = u64_at file (i + 56)\<rparr>"

definition native_thread_at :: "u8 list \<Rightarrow> nat \<Rightarrow> native_thread" where
  "native_thread_at file i = \<lparr>n_trace_tid = u64_at file i, first_op = u64_at file (i + 8),
    op_count = u64_at file (i + 16), n_recorded_cpu = u32_at file (i + 24)\<rparr>"

definition native_op_at :: "u8 list \<Rightarrow> nat \<Rightarrow> native_op" where
  "native_op_at file i = \<lparr>target_ns = u64_at file i, nop_size = u64_at file (i + 8), nop_slot = u32_at file (i + 16),
    wait_generation = u32_at file (i + 20), output_generation = u32_at file (i + 24), nop_aux = u32_at file (i + 28),
    nop_function = u16_at file (i + 32), nop_kind = byte_at file (i + 34), nop_flags = byte_at file (i + 35)\<rparr>"

definition NATIVE_VERSION :: u32 where "NATIVE_VERSION = 1"

definition native_header_valid :: "native_header \<Rightarrow> u64 \<Rightarrow> bool" where
  "native_header_valid hdr trailer_size \<longleftrightarrow>
    n_magic hdr = ascii ''MNRUN001'' \<and> n_version hdr = NATIVE_VERSION \<and> n_header_size hdr = 64 \<and>
    range_valid (n_thread_offset hdr) (ucast (n_thread_count hdr)) 32 trailer_size \<and>
    range_valid (n_op_offset hdr) (ucast (n_op_count hdr)) 40 trailer_size"

definition thread_range_valid :: "native_header \<Rightarrow> native_thread \<Rightarrow> bool" where
  "thread_range_valid hdr thread \<longleftrightarrow> first_op thread \<le> ucast (n_op_count hdr) \<and>
    op_count thread \<le> ucast (n_op_count hdr) - first_op thread"

text \<open>\<open>None\<close>: the program prints an error and exits.\<close>

definition load_embedded_image :: "u8 list \<Rightarrow> native_image option" where
  "load_embedded_image file =
    (let t = length file - 24; trailer_size = u64_at file (t + 8)
     in if length file < 24 \<or> bytes_at file t 8 \<noteq> ascii ''MNEND001'' \<or>
          u64_at file (t + 16) \<noteq> ucast NATIVE_VERSION \<or> t < unat trailer_size
        then None
        else
          let i = t - unat trailer_size; hdr = native_header_at file i
          in if \<not> native_header_valid hdr trailer_size then None
             else
               let threads = array_at native_thread_at 32 file (i + unat (n_thread_offset hdr)) (unat (n_thread_count hdr))
               in if \<forall>thread\<in>set threads. thread_range_valid hdr thread
                  then Some \<lparr>ni_header = hdr, ni_threads = threads,
                    ni_ops = array_at native_op_at 40 file (i + unat (n_op_offset hdr)) (unat (n_op_count hdr))\<rparr>
                  else None)"

text \<open>The operation number \<open>k\<close> of a thread.\<close>

definition op_at :: "native_image \<Rightarrow> native_thread \<Rightarrow> nat \<Rightarrow> native_op" where
  "op_at img thread k = ni_ops img ! unat (first_op thread + of_nat k)"

lemma native_image_spec:
  assumes load: "load_embedded_image file = Some img"
  defines "t \<equiv> length file - 24"
  defines "bytes \<equiv> unat (u64_at file (t + 8))"
  shows "24 + bytes \<le> length file"
    and "unat (n_thread_offset (ni_header img)) + 32 * length (ni_threads img) \<le> bytes"
    and "unat (n_op_offset (ni_header img)) + 40 * length (ni_ops img) \<le> bytes"
    and "length (ni_threads img) = unat (n_thread_count (ni_header img))"
    and "length (ni_ops img) = unat (n_op_count (ni_header img))"
    and "thread \<in> set (ni_threads img) \<Longrightarrow> unat (first_op thread) + unat (op_count thread) \<le> length (ni_ops img)"
    and "j < length (ni_ops img) \<Longrightarrow> ni_ops img ! j =
      native_op_at file (t - bytes + unat (n_op_offset (ni_header img)) + 40 * j)"
    and "w < length (ni_threads img) \<Longrightarrow> ni_threads img ! w =
      native_thread_at file (t - bytes + unat (n_thread_offset (ni_header img)) + 32 * w)"
proof -
  let ?hdr = "ni_header img"
  have l: "24 \<le> length file" "bytes \<le> t" "native_header_valid ?hdr (u64_at file (t + 8))"
    "ni_threads img = array_at native_thread_at 32 file (t - bytes + unat (n_thread_offset ?hdr)) (unat (n_thread_count ?hdr))"
    "\<forall>thread\<in>set (ni_threads img). thread_range_valid ?hdr thread"
    "ni_ops img = array_at native_op_at 40 file (t - bytes + unat (n_op_offset ?hdr)) (unat (n_op_count ?hdr))"
    using load unfolding load_embedded_image_def Let_def t_def bytes_def by (auto split: if_splits)
  have v: "range_valid (n_thread_offset ?hdr) (ucast (n_thread_count ?hdr)) 32 (u64_at file (t + 8))"
    "range_valid (n_op_offset ?hdr) (ucast (n_op_count ?hdr)) 40 (u64_at file (t + 8))"
    using l(3) by (simp_all add: native_header_valid_def)
  show "24 + bytes \<le> length file" using l(1,2) by (simp add: t_def)
  show len: "length (ni_threads img) = unat (n_thread_count ?hdr)" "length (ni_ops img) = unat (n_op_count ?hdr)"
    by (simp_all add: l(4,6))
  show "unat (n_thread_offset ?hdr) + 32 * length (ni_threads img) \<le> bytes"
    "unat (n_op_offset ?hdr) + 40 * length (ni_ops img) \<le> bytes"
    using range_valid_bound [OF v(1)] range_valid_bound [OF v(2)]
    by (simp_all add: len bytes_def unat_u32_u64 mult.commute)
  show "unat (first_op thread) + unat (op_count thread) \<le> length (ni_ops img)" if "thread \<in> set (ni_threads img)"
  proof -
    have r: "first_op thread \<le> ucast (n_op_count ?hdr)" "op_count thread \<le> ucast (n_op_count ?hdr) - first_op thread"
      using l(5) that by (auto simp: thread_range_valid_def)
    then have "unat (first_op thread) \<le> unat (n_op_count ?hdr)"
      by (simp add: word_le_nat_alt unat_u32_u64)
    then show ?thesis
      using r by (simp add: len word_le_nat_alt unat_sub_no_wrap unat_u32_u64)
  qed
  show "ni_ops img ! j = native_op_at file (t - bytes + unat (n_op_offset ?hdr) + 40 * j)"
    if "j < length (ni_ops img)"
    using that len(2) unfolding l(6) by simp
  show "ni_threads img ! w = native_thread_at file (t - bytes + unat (n_thread_offset ?hdr) + 32 * w)"
    if "w < length (ni_threads img)"
    using that len(1) unfolding l(4) by simp
qed

lemma native_op_index:
  assumes "load_embedded_image file = Some img" and "thread \<in> set (ni_threads img)" and "k < unat (op_count thread)"
  shows "unat (first_op thread + of_nat k) = unat (first_op thread) + k"
proof -
  note n = native_image_spec [OF assms(1)]
  have "unat (op_count thread) < 2 ^ 64"
    using unsigned_less [of "op_count thread", where ?'a = nat] by simp
  moreover have "length (ni_ops img) < 2 ^ 32"
    using n(5) unsigned_less [of "n_op_count (ni_header img)", where ?'a = nat] by simp
  ultimately show ?thesis
    using n(6) [OF assms(2)] assms(3) by (subst unat_add_no_wrap) (simp_all add: unat_of_nat_u64)
qed

text \<open>C37: \<open>load_embedded_image\<close> accepts only images whose workers stay inside: the trailer names a part
  of the file that ends before it; the description of every thread is the 32 bytes at its place in
  the table the header points to, and they lie in that part; and every operation that a worker
  reads, from its first to its last, is one of the operations of the image, the 40 bytes at its
  place in their table, which lie in that part too. (The slot and the function of an operation are
  not tested.)\<close>

theorem native_accesses_in_bounds:
  assumes "load_embedded_image file = Some img"
    and "bytes = unat (u64_at file (length file - 24 + 8))" and "start = length file - 24 - bytes"
  shows "start + bytes + 24 = length file \<and>
    (\<forall>w < length (ni_threads img).
      let i = start + unat (n_thread_offset (ni_header img)) + 32 * w
      in ni_threads img ! w = native_thread_at file i \<and> i + 32 \<le> start + bytes) \<and>
    (\<forall>thread\<in>set (ni_threads img). \<forall>k < unat (op_count thread).
      let j = unat (first_op thread + of_nat k); i = start + unat (n_op_offset (ni_header img)) + 40 * j
      in j < length (ni_ops img) \<and> op_at img thread k = native_op_at file i \<and> i + 40 \<le> start + bytes)"
proof -
  note n = native_image_spec [OF assms(1), folded assms(2), folded assms(3)]
  have fits: "o' + e * m \<le> b \<Longrightarrow> i < m \<Longrightarrow> s + o' + e * i + e \<le> s + b" for s o' e m b i :: nat
    using mult_le_mono2 [of "Suc i" m e] by simp
  have "start + unat (n_thread_offset (ni_header img)) + 32 * w + 32 \<le> start + bytes"
    if "w < length (ni_threads img)" for w
    by (rule fits [OF n(2) that])
  moreover have "unat (first_op thread + of_nat k) < length (ni_ops img)"
    if "thread \<in> set (ni_threads img)" "k < unat (op_count thread)" for thread k
    using native_op_index [OF assms(1) that] n(6) [OF that(1)] that(2) by simp
  moreover have "start + unat (n_op_offset (ni_header img)) + 40 * j + 40 \<le> start + bytes"
    if "j < length (ni_ops img)" for j
    by (rule fits [OF n(3) that])
  ultimately show ?thesis
    using n(1,7,8) assms(3) by (simp add: Let_def op_at_def)
qed

definition small_image :: "u8 list" where
  "small_image = ascii ''MNRUN001'' @ [1, 0, 0, 0, 64, 0, 0, 0, 2, 0, 0, 0, 0, 0, 0, 0, 1, 0, 0, 0, 2, 0, 0, 0] @ replicate 16 0 @
     [64, 0, 0, 0, 0, 0, 0, 0, 128, 0, 0, 0, 0, 0, 0, 0] @
     [7, 0, 0, 0, 0, 0, 0, 0, 0, 0, 0, 0, 0, 0, 0, 0, 1, 0, 0, 0, 0, 0, 0, 0, 3, 0, 0, 0, 0, 0, 0, 0] @
     [9, 0, 0, 0, 0, 0, 0, 0, 1, 0, 0, 0, 0, 0, 0, 0, 1, 0, 0, 0, 0, 0, 0, 0, 5, 0, 0, 0, 0, 0, 0, 0] @
     [0, 0, 0, 0, 0, 0, 0, 0, 100, 0, 0, 0, 0, 0, 0, 0, 0, 0, 0, 0, 0, 0, 0, 0, 1, 0, 0, 0, 0, 0, 0, 0, 0, 0, 0, 1, 0, 0, 0, 0] @
     [0, 0, 0, 0, 0, 0, 0, 0, 100, 0, 0, 0, 0, 0, 0, 0, 0, 0, 0, 0, 1, 0, 0, 0, 2, 0, 0, 0, 0, 0, 0, 0, 1, 0, 1, 0, 0, 0, 0, 0] @
     ascii ''MNEND001'' @ [208, 0, 0, 0, 0, 0, 0, 0, 1, 0, 0, 0, 0, 0, 0, 0]"

definition small_threads :: "native_thread list" where
  "small_threads = [\<lparr>n_trace_tid = 7, first_op = 0, op_count = 1, n_recorded_cpu = 3\<rparr>,
     \<lparr>n_trace_tid = 9, first_op = 1, op_count = 1, n_recorded_cpu = 5\<rparr>]"

definition small_ops :: "native_op list" where
  "small_ops =
    [\<lparr>target_ns = 0, nop_size = 100, nop_slot = 0, wait_generation = 0, output_generation = 1, nop_aux = 0,
      nop_function = 0, nop_kind = 0, nop_flags = 1\<rparr>,
     \<lparr>target_ns = 0, nop_size = 100, nop_slot = 0, wait_generation = 1, output_generation = 2, nop_aux = 0,
      nop_function = 1, nop_kind = 1, nop_flags = 0\<rparr>]"

lemma small_image_loads:
  "map_option (\<lambda>img. (ni_threads img, ni_ops img, n_slot_count (ni_header img))) (load_embedded_image small_image) =
    Some (small_threads, small_ops, 1)"
  by code_simp

theorem native_accesses_in_bounds_witness:
  "\<exists>img. load_embedded_image small_image = Some img \<and> length (ni_threads img) = 2 \<and> length (ni_ops img) = 2 \<and>
    ni_threads img ! 1 = native_thread_at small_image (unat (n_thread_offset (ni_header img)) + 32) \<and>
    op_at img (ni_threads img ! 1) 0 = native_op_at small_image (unat (n_op_offset (ni_header img)) + 40)"
proof -
  obtain img where l: "load_embedded_image small_image = Some img" "ni_threads img = small_threads"
      "ni_ops img = small_ops"
    using small_image_loads by (cases "load_embedded_image small_image") auto
  have b: "208 = unat (u64_at small_image (length small_image - 24 + 8))"
    "0 = length small_image - 24 - 208" by code_simp+
  have n: "length small_threads = 2" "length small_ops = 2" "small_threads ! 1 \<in> set (ni_threads img)"
    "0 < unat (op_count (small_threads ! 1))" "unat (first_op (small_threads ! 1) + of_nat 0) = 1"
    by (simp_all add: l(2)) (simp_all add: small_threads_def small_ops_def)
  note a = native_accesses_in_bounds [OF l(1) b]
  have "ni_threads img ! 1 = native_thread_at small_image (unat (n_thread_offset (ni_header img)) + 32)"
    using a [THEN conjunct2, THEN conjunct1, rule_format, of 1] n(1) l(2) by (simp add: Let_def)
  moreover have "op_at img (small_threads ! 1) 0 = native_op_at small_image (unat (n_op_offset (ni_header img)) + 40)"
    using a [THEN conjunct2, THEN conjunct2, rule_format, OF n(3,4)] n(5) by (simp add: Let_def)
  ultimately show ?thesis using l n(1,2) by auto
qed

subsection \<open>The CPU of a worker\<close>

definition worker_cpu :: "cpu_options \<Rightarrow> native_image \<Rightarrow> nat \<Rightarrow> int" where
  "worker_cpu opts img w =
    (if g_cpu_list opts \<noteq> [] then g_cpu_list opts ! (w mod length (g_cpu_list opts))
     else if g_use_recorded_cpu opts \<and> n_recorded_cpu (ni_threads img ! w) \<noteq> UINT32_MAX
     then sint (n_recorded_cpu (ni_threads img ! w)) else - 1)"

text \<open>The test of \<open>main\<close> before the workers are created.\<close>

definition controller_free :: "cpu_options \<Rightarrow> native_image \<Rightarrow> bool" where
  "controller_free opts img \<longleftrightarrow> \<not> (g_use_recorded_cpu opts \<and> 0 \<le> g_controller_cpu opts \<and>
    (\<exists>thread\<in>set (ni_threads img). n_recorded_cpu thread = of_int (g_controller_cpu opts)))"

lemma controller_alone:
  assumes "validate_cpu_options opts" and "controller_free opts img" and "0 \<le> g_controller_cpu opts"
    and "w < length (ni_threads img)"
  shows "worker_cpu opts img w \<noteq> g_controller_cpu opts"
proof (cases "g_cpu_list opts = []")
  case False
  then have "worker_cpu opts img w \<in> set (g_cpu_list opts)"
    by (simp add: worker_cpu_def)
  then show ?thesis
    using assms(1,3) by (auto simp: validate_cpu_options_def)
next
  case True
  let ?cpu = "n_recorded_cpu (ni_threads img ! w)"
  have "g_use_recorded_cpu opts"
    using assms(1,3) True by (auto simp: validate_cpu_options_def)
  then have "?cpu \<noteq> of_int (g_controller_cpu opts)"
    using assms(2-4) by (auto simp: controller_free_def)
  moreover have "of_int (sint ?cpu) = ?cpu" by simp
  ultimately have "sint ?cpu \<noteq> g_controller_cpu opts" by metis
  then show ?thesis
    using True assms(3) by (simp add: worker_cpu_def)
qed

end
