(* ===== verification/NativeReplay.thy ===== *)
theory NativeReplay
  imports NativeImage Schedules HeapCalls
begin

text \<open>
  The timed part of \<open>native_replay_runtime.c\<close>: \<open>execute_operation\<close> and what it calls, \<open>worker_main\<close> and
  the threads that \<open>main\<close> creates, releases and joins. A step is one access to a shared slot, one call of
  the allocator, or one access to \<open>g_ready\<close> or \<open>g_start\<close>; the steps of the threads interleave.

  An image fits a schedule when its operations come in one order of all threads in which each
  operation on a slot waits for the generation that the one before it publishes. The lemmas show that a
  worker that has waited is alone on its slot until it publishes, so that each pointer is held in
  one place, and that the first operation that is not done can always go on.

  Not in the model: waiting for the recorded times, the counters of late events and yields, and a
  failure to pin or create a thread. A spin of \<open>wait_for_slot\<close> is no step.
\<close>

subsection \<open>The calls\<close>

definition FUNC_COUNT :: nat where "FUNC_COUNT = 10"

definition OP_ALLOC :: u8 where "OP_ALLOC = 0"
definition OP_FREE :: u8 where "OP_FREE = 1"
definition OP_REALLOC :: u8 where "OP_REALLOC = 2"
definition OP_REALLOC_NULL :: u8 where "OP_REALLOC_NULL = 3"
definition OP_UNKNOWN_FREE :: u8 where "OP_UNKNOWN_FREE = 4"

lemmas op_kind_defs = OP_ALLOC_def OP_FREE_def OP_REALLOC_def OP_REALLOC_NULL_def OP_UNKNOWN_FREE_def

text \<open>The loop of \<open>replay_alignment\<close>.\<close>

function halve_alignment :: "u64 \<Rightarrow> u64 \<Rightarrow> u64" where
  "halve_alignment sz alignment =
    (if 8 < alignment \<and> sz mod alignment \<noteq> 0 then halve_alignment sz (alignment div 2) else alignment)"
  by pat_completeness auto

termination
  by (relation "measure (\<lambda>(sz, alignment). unat alignment)") (auto simp: word_less_nat_alt unat_div)

declare halve_alignment.simps [simp del]

lemma halve_alignment_64: "halve_alignment sz 64 \<in> {64, 32, 16, 8}"
    and halve_alignment_fits: "sz mod halve_alignment sz 64 = 0 \<or> halve_alignment sz 64 = 8"
  by (simp_all add: halve_alignment.simps [of sz 64] halve_alignment.simps [of sz 32]
    halve_alignment.simps [of sz 16] halve_alignment.simps [of sz 8])

definition replay_alignment :: "native_op \<Rightarrow> u64" where
  "replay_alignment op =
    (let alignment = ucast (nop_aux op)
     in if alignment < 8 \<or> alignment AND (alignment - 1) \<noteq> 0
        then if nop_function op = 6 then halve_alignment (nop_size op) 64 else 64
        else alignment)"

definition run_allocation :: "native_op \<Rightarrow> rt_call" where
  "run_allocation op =
    (let sz = nop_size op; f = nop_function op
     in if f = 0 then Malloc sz
        else if f = 2 then
          if nop_aux op \<noteq> 0 \<and> sz mod ucast (nop_aux op) = 0
          then Calloc (ucast (nop_aux op)) (sz div ucast (nop_aux op)) else Calloc 1 sz
        else if f = 5 then Posix_memalign (replay_alignment op) sz
        else if f = 6 then Aligned_alloc (replay_alignment op) sz
        else if f = 7 then Valloc sz
        else if f = 8 then Memalign (replay_alignment op) sz
        else if f = 9 then Pvalloc sz
        else Malloc sz)"

text \<open>The alignments are powers of two that \<open>posix_memalign\<close> accepts, whatever the image says.\<close>

lemma replay_alignment_spec: "8 \<le> replay_alignment op \<and> replay_alignment op AND (replay_alignment op - 1) = 0"
proof (cases "ucast (nop_aux op) < (8 :: u64) \<or> ucast (nop_aux op) AND (ucast (nop_aux op) - 1) \<noteq> (0 :: u64)")
  case True
  then have "replay_alignment op \<in> {64, 32, 16, 8}"
    using halve_alignment_64 [of "nop_size op"] by (auto simp: replay_alignment_def Let_def)
  then show ?thesis by auto
next
  case False
  then have "replay_alignment op = ucast (nop_aux op)"
    by (simp only: replay_alignment_def Let_def if_False)
  with False show ?thesis by (simp only: not_less de_Morgan_disj not_not)
qed

text \<open>The size of an \<open>aligned_alloc\<close> without a recorded alignment is a multiple of what it gets, except
  below 16.\<close>

lemma aligned_alloc_size:
  assumes "nop_function op = 6" and "nop_aux op = 0"
  shows "nop_size op mod replay_alignment op = 0 \<or> replay_alignment op = 8"
  using assms halve_alignment_fits [of "nop_size op"] by (simp add: replay_alignment_def)

subsection \<open>One operation\<close>

record native_slot =
  ns_pointer :: u64
  ns_generation :: u32

text \<open>The state that the threads share, and what they did: \<open>n_misuse\<close> is set by a call with a pointer that
  is not live, and by an access outside \<open>g_slots\<close> or outside the counters of a worker.\<close>

record nshared =
  n_slots :: "u32 \<Rightarrow> native_slot"
  n_live :: "u64 set"
  n_misuse :: bool
  n_counts :: "nat \<Rightarrow> u64 list"
  n_failures :: "nat \<Rightarrow> u64"
  n_calls :: "nat \<Rightarrow> rt_call list"

text \<open>A worker in \<open>execute_operation\<close>: before it, behind the counter, behind the loop of
  \<open>wait_for_slot\<close>, with the pointer of the slot, behind the call with the pointer to publish, between
  the two stores of \<open>publish_slot\<close>.\<close>

datatype nphase = AtOp | Counted | Waited | Loaded u64 | Got u64 | Stored

text \<open>\<open>fs\<close> holds when the C library has \<open>free_sized\<close>, \<open>n\<close> is the number of slots.\<close>

definition nfree_call :: "bool \<Rightarrow> native_op \<Rightarrow> u64 \<Rightarrow> rt_call" where
  "nfree_call fs op p = (if nop_function op = 4 \<and> fs then Free_sized p (nop_size op) else Free p)"

definition count_op :: "nat \<Rightarrow> native_op \<Rightarrow> nshared \<Rightarrow> nshared" where
  "count_op w op sh =
    sh\<lparr>n_counts := (n_counts sh)(w := update_at (unat (nop_function op)) (\<lambda>c. c + 1) (n_counts sh w)),
       n_misuse := n_misuse sh \<or> FUNC_COUNT \<le> unat (nop_function op)\<rparr>"

definition touch_slot :: "u32 \<Rightarrow> u32 \<Rightarrow> nshared \<Rightarrow> nshared" where
  "touch_slot n slot sh = sh\<lparr>n_misuse := n_misuse sh \<or> n \<le> slot\<rparr>"

definition store_pointer :: "u32 \<Rightarrow> u32 \<Rightarrow> u64 \<Rightarrow> nshared \<Rightarrow> nshared" where
  "store_pointer n slot p sh =
    touch_slot n slot (sh\<lparr>n_slots := (n_slots sh)(slot := (n_slots sh slot)\<lparr>ns_pointer := p\<rparr>)\<rparr>)"

definition store_generation :: "u32 \<Rightarrow> u32 \<Rightarrow> u32 \<Rightarrow> nshared \<Rightarrow> nshared" where
  "store_generation n slot g sh =
    touch_slot n slot (sh\<lparr>n_slots := (n_slots sh)(slot := (n_slots sh slot)\<lparr>ns_generation := g\<rparr>)\<rparr>)"

definition note_failure :: "nat \<Rightarrow> native_op \<Rightarrow> bool \<Rightarrow> nshared \<Rightarrow> nshared" where
  "note_failure w op failed sh =
    (if failed \<and> nop_flags op AND 1 \<noteq> 0 then sh\<lparr>n_failures := (n_failures sh)(w := n_failures sh w + 1)\<rparr> else sh)"

inductive native_call :: "nat \<Rightarrow> rt_call \<Rightarrow> nshared \<Rightarrow> u64 \<Rightarrow> nshared \<Rightarrow> bool" for w c sh r where
  "heap_result c (n_live sh) r live' \<Longrightarrow>
   native_call w c sh r (sh\<lparr>n_live := live', n_misuse := n_misuse sh \<or> misused c (n_live sh),
     n_calls := (n_calls sh)(w := n_calls sh w @ [c])\<rparr>)"

inductive_simps native_call_simps: "native_call w c sh r sh'"

definition wait_for_slot :: "nshared \<Rightarrow> native_op \<Rightarrow> bool" where
  "wait_for_slot sh op \<longleftrightarrow> wait_generation op \<le> ns_generation (n_slots sh (nop_slot op))"

inductive execute_operation :: "bool \<Rightarrow> u32 \<Rightarrow> nat \<Rightarrow> native_op \<Rightarrow> nphase \<Rightarrow> nshared \<Rightarrow> nphase option \<Rightarrow> nshared \<Rightarrow> bool"
    for fs n w op where
  op_count: "execute_operation fs n w op AtOp sh (Some Counted) (count_op w op sh)"
| op_wait: "nop_kind op = OP_FREE \<or> nop_kind op = OP_REALLOC \<or>
    (nop_kind op = OP_ALLOC \<or> nop_kind op = OP_REALLOC_NULL) \<and> wait_generation op \<noteq> 0 \<Longrightarrow> wait_for_slot sh op \<Longrightarrow>
    execute_operation fs n w op Counted sh (Some Waited) (touch_slot n (nop_slot op) sh)"
| op_no_wait: "nop_kind op = OP_ALLOC \<or> nop_kind op = OP_REALLOC_NULL \<Longrightarrow> wait_generation op = 0 \<Longrightarrow>
    execute_operation fs n w op Counted sh (Some Waited) sh"
| op_unknown: "nop_kind op = OP_UNKNOWN_FREE \<Longrightarrow> native_call w (Free 0) sh r sh' \<Longrightarrow>
    execute_operation fs n w op Counted sh None sh'"
| op_other: "OP_UNKNOWN_FREE < nop_kind op \<Longrightarrow> execute_operation fs n w op Counted sh None sh"
| op_load: "nop_kind op = OP_FREE \<or> nop_kind op = OP_REALLOC \<Longrightarrow>
    execute_operation fs n w op Waited sh (Some (Loaded (ns_pointer (n_slots sh (nop_slot op))))) (touch_slot n (nop_slot op) sh)"
| op_alloc: "nop_kind op = OP_ALLOC \<Longrightarrow> native_call w (run_allocation op) sh r sh' \<Longrightarrow>
    execute_operation fs n w op Waited sh (Some (Got r)) (note_failure w op (r = 0) sh')"
| op_realloc_null: "nop_kind op = OP_REALLOC_NULL \<Longrightarrow> native_call w (Realloc 0 (nop_size op)) sh r sh' \<Longrightarrow>
    execute_operation fs n w op Waited sh (Some (Got r)) (note_failure w op (r = 0) sh')"
| op_free: "nop_kind op = OP_FREE \<Longrightarrow> native_call w (nfree_call fs op p) sh r sh' \<Longrightarrow>
    execute_operation fs n w op (Loaded p) sh (Some (Got 0)) sh'"
| op_realloc: "nop_kind op = OP_REALLOC \<Longrightarrow> native_call w (Realloc p (nop_size op)) sh r sh' \<Longrightarrow>
    execute_operation fs n w op (Loaded p) sh (Some (Got (if r = 0 \<and> nop_size op \<noteq> 0 then p else r)))
      (note_failure w op (r = 0 \<and> nop_size op \<noteq> 0) sh')"
| op_no_slot: "nop_slot op = NATIVE_SLOT_NONE \<Longrightarrow> execute_operation fs n w op (Got p) sh None sh"
| op_store: "nop_slot op \<noteq> NATIVE_SLOT_NONE \<Longrightarrow>
    execute_operation fs n w op (Got p) sh (Some Stored) (store_pointer n (nop_slot op) p sh)"
| op_publish: "execute_operation fs n w op Stored sh None (store_generation n (nop_slot op) (output_generation op) sh)"

subsection \<open>The threads\<close>

datatype nworker_state = NotCreated | Entering | AtStart | Running nat nphase | Returned
datatype nmain_state = Creating nat | AwaitReady | Joining nat | Ended

record nrun =
  nr_shared :: nshared
  nr_ws :: "nat \<Rightarrow> nworker_state"
  nr_ready :: u32
  nr_start :: bool
  nr_main :: nmain_state

inductive native_worker_main :: "bool \<Rightarrow> native_image \<Rightarrow> nat \<Rightarrow> nrun \<Rightarrow> nrun \<Rightarrow> bool" for fs img w where
  worker_ready: "nr_ws c w = Entering \<Longrightarrow>
    native_worker_main fs img w c (c\<lparr>nr_ready := nr_ready c + 1, nr_ws := (nr_ws c)(w := AtStart)\<rparr>)"
| worker_go: "nr_ws c w = AtStart \<Longrightarrow> nr_start c \<Longrightarrow>
    native_worker_main fs img w c (c\<lparr>nr_ws := (nr_ws c)(w := Running 0 AtOp)\<rparr>)"
| worker_op: "nr_ws c w = Running k ph \<Longrightarrow> k < unat (op_count (ni_threads img ! w)) \<Longrightarrow>
    execute_operation fs (n_slot_count (ni_header img)) w (op_at img (ni_threads img ! w) k) ph (nr_shared c) (Some ph') sh \<Longrightarrow>
    native_worker_main fs img w c (c\<lparr>nr_shared := sh, nr_ws := (nr_ws c)(w := Running k ph')\<rparr>)"
| worker_op_done: "nr_ws c w = Running k ph \<Longrightarrow> k < unat (op_count (ni_threads img ! w)) \<Longrightarrow>
    execute_operation fs (n_slot_count (ni_header img)) w (op_at img (ni_threads img ! w) k) ph (nr_shared c) None sh \<Longrightarrow>
    native_worker_main fs img w c (c\<lparr>nr_shared := sh, nr_ws := (nr_ws c)(w := Running (k + 1) AtOp)\<rparr>)"
| worker_return: "nr_ws c w = Running k AtOp \<Longrightarrow> unat (op_count (ni_threads img ! w)) \<le> k \<Longrightarrow>
    native_worker_main fs img w c (c\<lparr>nr_ws := (nr_ws c)(w := Returned)\<rparr>)"

inductive native_main :: "native_image \<Rightarrow> nrun \<Rightarrow> nrun \<Rightarrow> bool" for img where
  main_create: "nr_main c = Creating i \<Longrightarrow> i < length (ni_threads img) \<Longrightarrow>
    native_main img c (c\<lparr>nr_ws := (nr_ws c)(i := Entering), nr_main := Creating (i + 1)\<rparr>)"
| main_created: "nr_main c = Creating (length (ni_threads img)) \<Longrightarrow> native_main img c (c\<lparr>nr_main := AwaitReady\<rparr>)"
| main_start: "nr_main c = AwaitReady \<Longrightarrow> nr_ready c = n_thread_count (ni_header img) \<Longrightarrow>
    native_main img c (c\<lparr>nr_start := True, nr_main := Joining 0\<rparr>)"
| main_join: "nr_main c = Joining i \<Longrightarrow> i < length (ni_threads img) \<Longrightarrow> nr_ws c i = Returned \<Longrightarrow>
    native_main img c (c\<lparr>nr_main := Joining (i + 1)\<rparr>)"
| main_ended: "nr_main c = Joining (length (ni_threads img)) \<Longrightarrow> native_main img c (c\<lparr>nr_main := Ended\<rparr>)"

inductive native_step :: "bool \<Rightarrow> native_image \<Rightarrow> nrun \<Rightarrow> nrun \<Rightarrow> bool" for fs img where
  native_main_step: "native_main img c c' \<Longrightarrow> native_step fs img c c'"
| native_worker_step: "native_worker_main fs img w c c' \<Longrightarrow> native_step fs img c c'"

text \<open>The slots and the workers are anonymous mappings, which are zero.\<close>

definition native_initial :: nrun where
  "native_initial =
    \<lparr>nr_shared = \<lparr>n_slots = (\<lambda>_. \<lparr>ns_pointer = 0, ns_generation = 0\<rparr>), n_live = {}, n_misuse = False,
       n_counts = (\<lambda>_. replicate FUNC_COUNT 0), n_failures = (\<lambda>_. 0), n_calls = (\<lambda>_. [])\<rparr>,
     nr_ws = (\<lambda>_. NotCreated), nr_ready = 0, nr_start = False, nr_main = Creating 0\<rparr>"

subsection \<open>Images that fit a schedule\<close>

text \<open>Operations that publish a generation of a slot.\<close>

definition on_slot :: "native_op \<Rightarrow> bool" where
  "on_slot op \<longleftrightarrow> nop_slot op \<noteq> NATIVE_SLOT_NONE \<and> nop_kind op \<le> OP_REALLOC_NULL"

definition well_formed :: "u32 \<Rightarrow> native_op \<Rightarrow> bool" where
  "well_formed n op \<longleftrightarrow> unat (nop_function op) < FUNC_COUNT \<and>
    (nop_kind op = OP_FREE \<or> nop_kind op = OP_REALLOC \<longrightarrow> nop_slot op \<noteq> NATIVE_SLOT_NONE) \<and>
    (nop_slot op = NATIVE_SLOT_NONE \<longrightarrow> wait_generation op = 0) \<and>
    (on_slot op \<longrightarrow> nop_slot op < n \<and> wait_generation op \<noteq> UINT32_MAX \<and> output_generation op = wait_generation op + 1)"

text \<open>\<open>gens\<close> holds the generation of each slot when all operations before have been done.\<close>

fun chained :: "u32 \<Rightarrow> (u32 \<Rightarrow> u32) \<Rightarrow> (nat \<times> native_op) list \<Rightarrow> bool" where
  "chained n gens [] = True"
| "chained n gens (x # s) = (well_formed n (snd x) \<and>
    (if on_slot (snd x)
     then wait_generation (snd x) = gens (nop_slot (snd x)) \<and>
       chained n (gens(nop_slot (snd x) := output_generation (snd x))) s
     else chained n gens s))"

definition thread_ops :: "native_image \<Rightarrow> nat \<Rightarrow> native_op list" where
  "thread_ops img w = map (op_at img (ni_threads img ! w)) [0..<unat (op_count (ni_threads img ! w))]"

definition fits_schedule :: "native_image \<Rightarrow> (nat \<times> native_op) list \<Rightarrow> bool" where
  "fits_schedule img s \<longleftrightarrow> chained (n_slot_count (ni_header img)) (\<lambda>_. 0) s \<and>
    list_all (\<lambda>x. fst x < length (ni_threads img)) s \<and>
    list_all (\<lambda>w. ops_of s w = thread_ops img w) [0..<length (ni_threads img)]"

abbreviation sop :: "(nat \<times> native_op) list \<Rightarrow> nat \<Rightarrow> native_op" where
  "sop s k \<equiv> snd (s ! k)"

lemma next_generation:
  "on_slot op \<Longrightarrow> well_formed n op \<Longrightarrow> unat (output_generation op) = Suc (unat (wait_generation op))"
  by (simp add: well_formed_def unat_plus_one)

lemma chained_all:
  assumes "chained n gens s" and "k < length s"
  shows "well_formed n (sop s k) \<and> (on_slot (sop s k) \<longrightarrow>
    unat (gens (nop_slot (sop s k))) \<le> unat (wait_generation (sop s k)) \<and>
    (wait_generation (sop s k) = gens (nop_slot (sop s k)) \<or>
      (\<exists>j<k. on_slot (sop s j) \<and> nop_slot (sop s j) = nop_slot (sop s k) \<and>
        output_generation (sop s j) = wait_generation (sop s k))))"
  using assms
proof (induction s arbitrary: gens k)
  case (Cons x s)
  let ?op = "snd x"
  define gens' where "gens' = (if on_slot ?op then gens(nop_slot ?op := output_generation ?op) else gens)"
  have c: "chained n gens' s" "well_formed n ?op" "on_slot ?op \<Longrightarrow> wait_generation ?op = gens (nop_slot ?op)"
    using Cons.prems(1) by (simp_all add: gens'_def split: if_splits)
  have mono: "unat (gens \<sigma>) \<le> unat (gens' \<sigma>)" for \<sigma>
    using next_generation [OF _ c(2)] c(3) by (simp add: gens'_def)
  show ?case
  proof (cases k)
    case 0
    then show ?thesis using c(2,3) by simp
  next
    case (Suc j)
    have ih: "well_formed n (sop s j)" "on_slot (sop s j) \<Longrightarrow> unat (gens' (nop_slot (sop s j))) \<le> unat (wait_generation (sop s j))"
      "on_slot (sop s j) \<Longrightarrow> wait_generation (sop s j) = gens' (nop_slot (sop s j)) \<or>
        (\<exists>i<j. on_slot (sop s i) \<and> nop_slot (sop s i) = nop_slot (sop s j) \<and>
          output_generation (sop s i) = wait_generation (sop s j))"
      using Cons.IH [OF c(1), of j] Cons.prems(2) Suc by auto
    have "wait_generation (sop s j) = gens (nop_slot (sop s j)) \<or>
        (\<exists>i<k. on_slot (sop (x # s) i) \<and> nop_slot (sop (x # s) i) = nop_slot (sop s j) \<and>
          output_generation (sop (x # s) i) = wait_generation (sop s j))" if o: "on_slot (sop s j)"
      using ih(3) [OF o]
    proof (elim disjE exE conjE)
      assume e: "wait_generation (sop s j) = gens' (nop_slot (sop s j))"
      show ?thesis
      proof (cases "on_slot ?op \<and> nop_slot ?op = nop_slot (sop s j)")
        case True
        with e Suc show ?thesis by (intro disjI2 exI [of _ 0]) (simp add: gens'_def)
      next
        case False
        with e show ?thesis by (auto simp: gens'_def split: if_splits)
      qed
    next
      fix i
      assume "i < j" "on_slot (sop s i)" "nop_slot (sop s i) = nop_slot (sop s j)"
        "output_generation (sop s i) = wait_generation (sop s j)"
      then show ?thesis
        using Suc by (intro disjI2 exI [of _ "Suc i"]) simp
    qed
    then show ?thesis
      using ih(1,2) mono [of "nop_slot (sop s j)"] by (auto simp: Suc intro: order_trans)
  qed
qed simp

lemmas chainedD = chained_all [THEN conjunct1] chained_all [THEN conjunct2, THEN mp, THEN conjunct1]
  chained_all [THEN conjunct2, THEN mp, THEN conjunct2]

lemma chained_order:
  assumes "chained n gens s" and "j < k" and "k < length s" and "on_slot (sop s j)" and "on_slot (sop s k)"
    and "nop_slot (sop s j) = nop_slot (sop s k)"
  shows "unat (wait_generation (sop s j)) < unat (wait_generation (sop s k))"
  using assms
proof (induction s arbitrary: gens j k)
  case (Cons x s)
  define gens' where "gens' = (if on_slot (snd x) then gens(nop_slot (snd x) := output_generation (snd x)) else gens)"
  have c: "chained n gens' s" "well_formed n (snd x)"
    using Cons.prems(1) by (simp_all add: gens'_def split: if_splits)
  obtain k' where k': "k = Suc k'"
    using Cons.prems(2) by (cases k) simp_all
  show ?case
  proof (cases j)
    case 0
    then have "unat (output_generation (snd x)) \<le> unat (wait_generation (sop s k'))"
      using chainedD(2) [OF c(1), of k'] Cons.prems(3-6) k' by (simp add: gens'_def)
    then show ?thesis
      using next_generation [OF _ c(2)] Cons.prems(4) 0 k' by simp
  next
    case (Suc j')
    then show ?thesis
      using Cons.IH [OF c(1), of j' k'] Cons.prems(2-6) k' by simp
  qed
qed simp

subsection \<open>What holds in a run\<close>

text \<open>\<open>pos w\<close> operations of worker \<open>w\<close> are done, and it is at phase \<open>ph w\<close> of the next.\<close>

fun past_wait :: "nphase \<Rightarrow> bool" where
  "past_wait AtOp = False"
| "past_wait Counted = False"
| "past_wait _ = True"

fun phase_fits :: "native_op \<Rightarrow> nphase \<Rightarrow> bool" where
  "phase_fits op Waited = (nop_kind op \<le> OP_REALLOC_NULL)"
| "phase_fits op (Loaded p) = (nop_kind op = OP_FREE \<or> nop_kind op = OP_REALLOC)"
| "phase_fits op (Got p) = (nop_kind op \<le> OP_REALLOC_NULL)"
| "phase_fits op Stored = on_slot op"
| "phase_fits op _ = True"

abbreviation op_now :: "(nat \<times> native_op) list \<Rightarrow> (nat \<Rightarrow> nat) \<Rightarrow> nat \<Rightarrow> native_op" where
  "op_now s pos w \<equiv> sop s (cur s pos w)"

definition slot_at :: "nshared \<Rightarrow> native_op \<Rightarrow> native_slot" where
  "slot_at sh op = n_slots sh (nop_slot op)"

definition worker_fits :: "(nat \<times> native_op) list \<Rightarrow> (nat \<Rightarrow> nat) \<Rightarrow> (nat \<Rightarrow> nphase) \<Rightarrow> nshared \<Rightarrow> nat \<Rightarrow> bool" where
  "worker_fits s pos ph sh w \<longleftrightarrow>
    (if busy s pos w
     then phase_fits (op_now s pos w) (ph w) \<and>
       (past_wait (ph w) \<longrightarrow> on_slot (op_now s pos w) \<longrightarrow>
         ns_generation (slot_at sh (op_now s pos w)) = wait_generation (op_now s pos w)) \<and>
       (\<forall>p. ph w = Loaded p \<longrightarrow> ns_pointer (slot_at sh (op_now s pos w)) = p)
     else ph w = AtOp)"

definition gens_fit :: "(nat \<times> native_op) list \<Rightarrow> (nat \<Rightarrow> nat) \<Rightarrow> nshared \<Rightarrow> bool" where
  "gens_fit s pos sh \<longleftrightarrow> (\<forall>k<length s. on_slot (sop s k) \<longrightarrow>
    (if fin s pos k then unat (output_generation (sop s k)) \<le> unat (ns_generation (slot_at sh (sop s k)))
     else unat (ns_generation (slot_at sh (sop s k))) \<le> unat (wait_generation (sop s k))))"

text \<open>Who holds which pointer: a slot, but not from the call of the operation that is on it to its store.\<close>

datatype place = InSlot u32 | InWorker nat

fun got :: "nphase \<Rightarrow> u64 option" where
  "got (Got p) = Some p"
| "got _ = None"

definition taken :: "(nat \<times> native_op) list \<Rightarrow> (nat \<Rightarrow> nat) \<Rightarrow> (nat \<Rightarrow> nphase) \<Rightarrow> u32 \<Rightarrow> bool" where
  "taken s pos ph \<sigma> \<longleftrightarrow> (\<exists>w. got (ph w) \<noteq> None \<and> on_slot (op_now s pos w) \<and> nop_slot (op_now s pos w) = \<sigma>)"

fun nholds :: "(nat \<times> native_op) list \<Rightarrow> (nat \<Rightarrow> nat) \<Rightarrow> (nat \<Rightarrow> nphase) \<Rightarrow> nshared \<Rightarrow> place \<Rightarrow> u64 option" where
  "nholds s pos ph sh (InSlot \<sigma>) = (if taken s pos ph \<sigma> then None else Some (ns_pointer (n_slots sh \<sigma>)))"
| "nholds s pos ph sh (InWorker w) = got (ph w)"

definition pointers_fit :: "(nat \<times> native_op) list \<Rightarrow> (nat \<Rightarrow> nat) \<Rightarrow> (nat \<Rightarrow> nphase) \<Rightarrow> nshared \<Rightarrow> bool" where
  "pointers_fit s pos ph sh \<longleftrightarrow> owned (nholds s pos ph sh) (n_live sh) \<and> \<not> n_misuse sh"

definition native_inv :: "(nat \<times> native_op) list \<Rightarrow> (nat \<Rightarrow> nat) \<Rightarrow> (nat \<Rightarrow> nphase) \<Rightarrow> nshared \<Rightarrow> bool" where
  "native_inv s pos ph sh \<longleftrightarrow> gens_fit s pos sh \<and> (\<forall>w. worker_fits s pos ph sh w) \<and> pointers_fit s pos ph sh"

lemma native_invD:
  assumes "native_inv s pos ph sh"
  shows "gens_fit s pos sh" and "worker_fits s pos ph sh w" and "pointers_fit s pos ph sh"
  using assms by (simp_all add: native_inv_def)

lemma worker_fitsD:
  assumes "worker_fits s pos ph sh w"
  shows "busy s pos w \<Longrightarrow> phase_fits (op_now s pos w) (ph w)"
    and "busy s pos w \<Longrightarrow> past_wait (ph w) \<Longrightarrow> on_slot (op_now s pos w) \<Longrightarrow>
      ns_generation (slot_at sh (op_now s pos w)) = wait_generation (op_now s pos w)"
    and "busy s pos w \<Longrightarrow> ph w = Loaded p \<Longrightarrow> ns_pointer (slot_at sh (op_now s pos w)) = p"
    and "\<not> busy s pos w \<Longrightarrow> ph w = AtOp"
  using assms by (auto simp: worker_fits_def)

text \<open>At most one worker is past the wait of an operation on a slot.\<close>

lemma alone_on_slot:
  assumes chain: "chained n gens s" and fits: "\<And>w. worker_fits s pos ph sh w"
    and w: "past_wait (ph w)" "on_slot (op_now s pos w)"
    and v: "past_wait (ph v)" "on_slot (op_now s pos v)"
    and same: "nop_slot (op_now s pos v) = nop_slot (op_now s pos w)"
  shows "v = w"
proof -
  have b: "busy s pos v" "busy s pos w"
    using worker_fitsD(4) [OF fits [of v]] worker_fitsD(4) [OF fits [of w]] v(1) w(1) past_wait.simps(1) by metis+
  have eq: "wait_generation (op_now s pos v) = wait_generation (op_now s pos w)"
    using worker_fitsD(2) [OF fits b(1) v] worker_fitsD(2) [OF fits b(2) w] same by (simp add: slot_at_def)
  have l: "cur s pos v < length s" "cur s pos w < length s"
    using cur_props(1) b by blast+
  have "cur s pos v = cur s pos w"
  proof (rule ccontr)
    assume "cur s pos v \<noteq> cur s pos w"
    then consider (lt) "cur s pos v < cur s pos w" | (gt) "cur s pos w < cur s pos v" by linarith
    then show False
    proof cases
      case lt
      from chained_order [OF chain lt l(2) v(2) w(2) same] eq show False by simp
    next
      case gt
      from chained_order [OF chain gt l(1) w(2) v(2) same [symmetric]] eq show False by simp
    qed
  qed
  then show ?thesis
    using cur_props(2) [OF b(1)] cur_props(2) [OF b(2)] by metis
qed

lemma gens_fitD:
  assumes "gens_fit s pos sh" and "k < length s" and "on_slot (sop s k)"
  shows "fin s pos k \<Longrightarrow> unat (output_generation (sop s k)) \<le> unat (ns_generation (slot_at sh (sop s k)))"
    and "\<not> fin s pos k \<Longrightarrow> unat (ns_generation (slot_at sh (sop s k))) \<le> unat (wait_generation (sop s k))"
  using assms by (auto simp: gens_fit_def)

lemma slot_at_cong: "n_slots sh' = n_slots sh \<Longrightarrow> slot_at sh' = slot_at sh"
  by (simp add: slot_at_def fun_eq_iff)

text \<open>Another phase of the same operation.\<close>

lemma worker_fits_phase:
  assumes "\<And>w. worker_fits s pos ph sh w" and "n_slots sh' = n_slots sh" and "busy s pos w"
    and "phase_fits (op_now s pos w) ph'"
    and "past_wait ph' \<Longrightarrow> on_slot (op_now s pos w) \<Longrightarrow>
      ns_generation (slot_at sh (op_now s pos w)) = wait_generation (op_now s pos w)"
    and "\<And>p. ph' = Loaded p \<Longrightarrow> ns_pointer (slot_at sh (op_now s pos w)) = p"
  shows "worker_fits s pos (ph(w := ph')) sh' v"
  using assms(1) [of v] assms(3-6)
  by (cases "v = w") (simp_all add: worker_fits_def slot_at_cong [OF assms(2)] split: if_splits)

text \<open>The operation is over without a store.\<close>

lemma other_cur:
  "v \<noteq> w \<Longrightarrow> cur s (pos(w := k)) v = cur s pos v" "v \<noteq> w \<Longrightarrow> busy s (pos(w := k)) v = busy s pos v"
  by (simp_all add: cur_def busy_def)

lemma worker_fits_done:
  assumes "\<And>w. worker_fits s pos ph sh w" and "n_slots sh' = n_slots sh"
  shows "worker_fits s (pos(w := pos w + 1)) (ph(w := AtOp)) sh' v"
  using assms(1) [of v]
  by (cases "v = w") (simp_all add: worker_fits_def slot_at_cong [OF assms(2)] other_cur split: if_splits)

lemma gens_fit_done:
  assumes "gens_fit s pos sh" and "busy s pos w" and "\<not> on_slot (op_now s pos w)" and "n_slots sh' = n_slots sh"
  shows "gens_fit s (pos(w := pos w + 1)) sh'"
  using assms(1,3) cur_props(4) [OF assms(2)] unfolding gens_fit_def slot_at_cong [OF assms(4)] by auto

subsection \<open>The holders after a step\<close>

lemma got_past: "got ph \<noteq> None \<Longrightarrow> past_wait ph"
  by (cases ph) simp_all

lemma nholds_cong:
  assumes "\<And>\<sigma>. ns_pointer (n_slots sh' \<sigma>) = ns_pointer (n_slots sh \<sigma>)"
    and "\<And>v. v \<noteq> w \<Longrightarrow> ph' v = ph v" and "\<And>v. v \<noteq> w \<Longrightarrow> op_now s pos' v = op_now s pos v"
    and "got (ph w) = None" and "got (ph' w) = None"
  shows "nholds s pos' ph' sh' = nholds s pos ph sh"
proof
  fix t
  have "got (ph' v) \<noteq> None \<and> on_slot (op_now s pos' v) \<and> nop_slot (op_now s pos' v) = \<sigma> \<longleftrightarrow>
    got (ph v) \<noteq> None \<and> on_slot (op_now s pos v) \<and> nop_slot (op_now s pos v) = \<sigma>" for v \<sigma>
    using assms(2-5) by (cases "v = w") simp_all
  then have "taken s pos' ph' \<sigma> = taken s pos ph \<sigma>" for \<sigma>
    unfolding taken_def by blast
  moreover have "got (ph' v) = got (ph v)" for v
    using assms(2,4,5) by (cases "v = w") simp_all
  ultimately show "nholds s pos' ph' sh' t = nholds s pos ph sh t"
    using assms(1) by (cases t) simp_all
qed

text \<open>What a new phase of one worker changes.\<close>

lemma taken_phase:
  assumes "\<And>v. v \<noteq> w \<Longrightarrow> op_now s pos' v = op_now s pos v"
  shows "taken s pos' (ph(w := ph')) \<sigma> \<longleftrightarrow>
    (\<exists>v. v \<noteq> w \<and> got (ph v) \<noteq> None \<and> on_slot (op_now s pos v) \<and> nop_slot (op_now s pos v) = \<sigma>) \<or>
    got ph' \<noteq> None \<and> on_slot (op_now s pos' w) \<and> nop_slot (op_now s pos' w) = \<sigma>"
    (is "_ \<longleftrightarrow> ?others \<or> ?own")
proof -
  have "got ((ph(w := ph')) v) \<noteq> None \<and> on_slot (op_now s pos' v) \<and> nop_slot (op_now s pos' v) = \<sigma> \<longleftrightarrow>
    v \<noteq> w \<and> got (ph v) \<noteq> None \<and> on_slot (op_now s pos v) \<and> nop_slot (op_now s pos v) = \<sigma> \<or> v = w \<and> ?own" for v
    using assms by (cases "v = w") simp_all
  then show ?thesis
    unfolding taken_def by blast
qed

lemma taken_split:
  "taken s pos ph \<sigma> \<longleftrightarrow>
    (\<exists>v. v \<noteq> w \<and> got (ph v) \<noteq> None \<and> on_slot (op_now s pos v) \<and> nop_slot (op_now s pos v) = \<sigma>) \<or>
    got (ph w) \<noteq> None \<and> on_slot (op_now s pos w) \<and> nop_slot (op_now s pos w) = \<sigma>"
  using taken_phase [of w s pos pos ph "ph w" \<sigma>] by simp

lemma nholds_got:
  assumes "n_slots sh' = n_slots sh" and "got (ph w) = None"
  shows "nholds s pos (ph(w := Got v)) sh' =
    (if on_slot (op_now s pos w) then (nholds s pos ph sh)(InSlot (nop_slot (op_now s pos w)) := None, InWorker w \<mapsto> v)
     else (nholds s pos ph sh)(InWorker w \<mapsto> v))"
proof
  fix t
  have "taken s pos (ph(w := Got v)) \<sigma> \<longleftrightarrow> taken s pos ph \<sigma> \<or> on_slot (op_now s pos w) \<and> nop_slot (op_now s pos w) = \<sigma>" for \<sigma>
    using taken_phase [of w s pos pos ph "Got v" \<sigma>] taken_split [of s pos ph \<sigma> w] assms(2) by simp
  then show "nholds s pos (ph(w := Got v)) sh' t =
    (if on_slot (op_now s pos w) then (nholds s pos ph sh)(InSlot (nop_slot (op_now s pos w)) := None, InWorker w \<mapsto> v)
     else (nholds s pos ph sh)(InWorker w \<mapsto> v)) t"
    by (cases t) (simp_all add: assms(1))
qed

lemma nholds_drop:
  assumes "\<not> on_slot (op_now s pos w)" and "n_slots sh' = n_slots sh"
  shows "nholds s (pos(w := k)) (ph(w := AtOp)) sh' = (nholds s pos ph sh)(InWorker w := None)"
proof
  fix t
  have "taken s (pos(w := k)) (ph(w := AtOp)) \<sigma> \<longleftrightarrow> taken s pos ph \<sigma>" for \<sigma>
    using taken_phase [of w s "pos(w := k)" pos ph AtOp \<sigma>] taken_split [of s pos ph \<sigma> w] assms(1)
    by (simp add: other_cur)
  then show "nholds s (pos(w := k)) (ph(w := AtOp)) sh' t = ((nholds s pos ph sh)(InWorker w := None)) t"
    by (cases t) (simp_all add: assms(2))
qed

lemma alone:
  assumes "chained n gens s" and "\<And>w. worker_fits s pos ph sh w" and "past_wait (ph w)" and "on_slot (op_now s pos w)"
  shows "\<not> (\<exists>v. v \<noteq> w \<and> got (ph v) \<noteq> None \<and> on_slot (op_now s pos v) \<and> nop_slot (op_now s pos v) = nop_slot (op_now s pos w))"
  using alone_on_slot [OF assms(1,2,3,4)] got_past by metis

lemma nholds_store:
  assumes chain: "chained n gens s" and fits: "\<And>w. worker_fits s pos ph sh w"
    and w: "ph w = Got p" "on_slot (op_now s pos w)"
  shows "nholds s pos (ph(w := Stored)) (store_pointer m (nop_slot (op_now s pos w)) p sh) =
    (nholds s pos ph sh)(InWorker w := None, InSlot (nop_slot (op_now s pos w)) \<mapsto> p)"
proof
  fix t
  have "\<not> taken s pos (ph(w := Stored)) (nop_slot (op_now s pos w))"
    using alone [where ph = ph, OF chain fits _ w(2)] w(1) by (subst taken_phase) simp_all
  moreover have "taken s pos (ph(w := Stored)) \<tau> = taken s pos ph \<tau>" if "\<tau> \<noteq> nop_slot (op_now s pos w)" for \<tau>
    using taken_phase [of w s pos pos ph Stored \<tau>] taken_split [of s pos ph \<tau> w] that by auto
  ultimately show "nholds s pos (ph(w := Stored)) (store_pointer m (nop_slot (op_now s pos w)) p sh) t =
      ((nholds s pos ph sh)(InWorker w := None, InSlot (nop_slot (op_now s pos w)) \<mapsto> p)) t"
    by (cases t) (simp_all add: store_pointer_def touch_slot_def)
qed

lemma slot_held:
  assumes chain: "chained n gens s" and fits: "\<And>w. worker_fits s pos ph sh w"
    and w: "past_wait (ph w)" "got (ph w) = None" "on_slot (op_now s pos w)"
  shows "nholds s pos ph sh (InSlot (nop_slot (op_now s pos w))) = Some (ns_pointer (slot_at sh (op_now s pos w)))"
proof -
  have "\<not> taken s pos ph (nop_slot (op_now s pos w))"
    using alone [where ph = ph, OF chain fits w(1,3)] w(2) by (subst taken_split [where w = w]) simp
  then show ?thesis by (simp add: slot_at_def)
qed

subsection \<open>The store of the generation\<close>

lemma store_generation_slots [simp]:
  "n_slots (store_generation n \<sigma> g sh) = (n_slots sh)(\<sigma> := (n_slots sh \<sigma>)\<lparr>ns_generation := g\<rparr>)"
  "n_live (store_generation n \<sigma> g sh) = n_live sh"
  by (simp_all add: store_generation_def touch_slot_def)

lemma publish_fits:
  assumes chain: "chained n gens s" and fits: "\<And>w. worker_fits s pos ph sh w" and g: "gens_fit s pos sh"
    and b: "busy s pos w" and st: "ph w = Stored"
  defines "op \<equiv> op_now s pos w"
  defines "sh' \<equiv> store_generation n (nop_slot op) (output_generation op) sh"
  shows "gens_fit s (pos(w := pos w + 1)) sh'" and "worker_fits s (pos(w := pos w + 1)) (ph(w := AtOp)) sh' v"
proof -
  have on: "on_slot op"
    using worker_fitsD(1) [OF fits [of w] b] st by (simp add: op_def)
  have gen: "ns_generation (slot_at sh op) = wait_generation op"
    using worker_fitsD(2) [OF fits [of w] b] st on by (simp add: op_def)
  have wf: "well_formed n op"
    unfolding op_def by (rule chainedD(1) [OF chain cur_props(1) [OF b]])
  note out = next_generation [OF on wf]
  have at: "ns_generation (slot_at sh' o') = (if nop_slot o' = nop_slot op then output_generation op
      else ns_generation (slot_at sh o'))" for o'
    by (simp add: slot_at_def sh'_def)
  show "gens_fit s (pos(w := pos w + 1)) sh'"
    unfolding gens_fit_def
  proof (intro allI impI)
    fix k
    assume k: "k < length s" "on_slot (sop s k)"
    note old = gens_fitD [OF g k]
    show "if fin s (pos(w := pos w + 1)) k
       then unat (output_generation (sop s k)) \<le> unat (ns_generation (slot_at sh' (sop s k)))
       else unat (ns_generation (slot_at sh' (sop s k))) \<le> unat (wait_generation (sop s k))"
    proof (cases "nop_slot (sop s k) = nop_slot op")
      case False
      then have "k \<noteq> cur s pos w" by (auto simp: op_def)
      then show ?thesis
        using old False at cur_props(4) [OF b] by simp
    next
      case True
      then have same: "slot_at sh (sop s k) = slot_at sh op" by (simp add: slot_at_def)
      consider "k = cur s pos w" | "k \<noteq> cur s pos w" "fin s pos k" | "k \<noteq> cur s pos w" "\<not> fin s pos k" by blast
      then show ?thesis
      proof cases
        case 1
        then show ?thesis
          using cur_props(4) [OF b] at True by (simp add: op_def)
      next
        case 2
        then show ?thesis
          using cur_props(4) [OF b] at True old(1) same gen out by simp
      next
        case 3
        have "unat (wait_generation op) \<le> unat (wait_generation (sop s k))"
          using old(2) 3 same gen by simp
        moreover have "unat (wait_generation op) \<noteq> unat (wait_generation (sop s k))"
        proof -
          consider (lt) "k < cur s pos w" | (gt) "cur s pos w < k"
            using 3(1) by linarith
          then show ?thesis
          proof cases
            case lt
            from chained_order [OF chain lt cur_props(1) [OF b] k(2)] on True show ?thesis
              by (simp add: op_def)
          next
            case gt
            from chained_order [OF chain gt k(1) _ k(2)] on True show ?thesis
              by (simp add: op_def)
          qed
        qed
        ultimately show ?thesis
          using cur_props(4) [OF b] 3 at True out by simp
      qed
    qed
  qed
  show "worker_fits s (pos(w := pos w + 1)) (ph(w := AtOp)) sh' v"
  proof (cases "v = w")
    case True
    then show ?thesis by (simp add: worker_fits_def)
  next
    case False
    have "nop_slot (op_now s pos v) \<noteq> nop_slot op" if "past_wait (ph v)" "on_slot (op_now s pos v)"
      using alone_on_slot [OF chain fits _ _ that] False on st by (auto simp: op_def)
    moreover have "ns_pointer (slot_at sh' o') = ns_pointer (slot_at sh o')" for o'
      by (simp add: slot_at_def sh'_def)
    ultimately show ?thesis
      using fits [of v] False at by (auto simp: worker_fits_def other_cur)
  qed
qed

subsection \<open>A step of an operation keeps the invariant\<close>

lemma count_op_frame [simp]:
  "n_slots (count_op w op sh) = n_slots sh" "n_live (count_op w op sh) = n_live sh"
  "n_misuse (count_op w op sh) \<longleftrightarrow> n_misuse sh \<or> FUNC_COUNT \<le> unat (nop_function op)"
  by (simp_all add: count_op_def)

lemma touch_slot_frame [simp]:
  "n_slots (touch_slot n \<sigma> sh) = n_slots sh" "n_live (touch_slot n \<sigma> sh) = n_live sh"
  "n_misuse (touch_slot n \<sigma> sh) \<longleftrightarrow> n_misuse sh \<or> n \<le> \<sigma>"
  by (simp_all add: touch_slot_def)

lemma note_failure_frame [simp]:
  "n_slots (note_failure w op b sh) = n_slots sh" "n_live (note_failure w op b sh) = n_live sh"
  "n_misuse (note_failure w op b sh) = n_misuse sh"
  by (simp_all add: note_failure_def)

lemma store_frame [simp]:
  "n_live (store_pointer n \<sigma> p sh) = n_live sh" "n_misuse (store_pointer n \<sigma> p sh) \<longleftrightarrow> n_misuse sh \<or> n \<le> \<sigma>"
  "n_misuse (store_generation n \<sigma> g sh) \<longleftrightarrow> n_misuse sh \<or> n \<le> \<sigma>"
  by (simp_all add: store_pointer_def store_generation_def)

lemma native_callD:
  assumes "native_call w c sh r sh'"
  shows "n_slots sh' = n_slots sh" and "heap_result c (n_live sh) r (n_live sh')"
    and "n_misuse sh' \<longleftrightarrow> n_misuse sh \<or> misused c (n_live sh)"
  using assms by (auto simp: native_call_simps)

lemma run_allocation_call [simp]:
  "\<not> misused (run_allocation op) live" "heap_result (run_allocation op) live r live' = fresh_result live r live'"
  by (simp_all add: run_allocation_def Let_def)

lemma owned_null: "owned H live \<Longrightarrow> owned (H(t \<mapsto> 0)) live"
  using owned_fresh [of H live 0 live t] by (simp add: fresh_result_def)

lemma nholds_simple:
  assumes "n_slots sh' = n_slots sh" and "got (ph w) = None" and "got ph' = None"
  shows "nholds s pos (ph(w := ph')) sh' = nholds s pos ph sh"
  by (rule nholds_cong [where w = w]) (use assms in simp_all)

text \<open>Steps that change no slot, and do not end the operation.\<close>

lemma native_inv_phase:
  assumes inv: "native_inv s pos ph sh" and b: "busy s pos w" and sl: "n_slots sh' = n_slots sh"
    and "phase_fits (op_now s pos w) ph'"
    and "past_wait ph' \<Longrightarrow> on_slot (op_now s pos w) \<Longrightarrow>
      ns_generation (slot_at sh (op_now s pos w)) = wait_generation (op_now s pos w)"
    and "\<And>p. ph' = Loaded p \<Longrightarrow> ns_pointer (slot_at sh (op_now s pos w)) = p"
    and "pointers_fit s pos (ph(w := ph')) sh'"
  shows "native_inv s pos (ph(w := ph')) sh'"
proof -
  have "gens_fit s pos sh'"
    using native_invD(1) [OF inv] unfolding gens_fit_def slot_at_cong [OF sl] .
  moreover have "worker_fits s pos (ph(w := ph')) sh' v" for v
    by (rule worker_fits_phase [OF native_invD(2) [OF inv] sl b assms(4-6)])
  ultimately show ?thesis
    using assms(7) by (simp add: native_inv_def)
qed

lemma native_inv_done:
  assumes inv: "native_inv s pos ph sh" and b: "busy s pos w" and sl: "n_slots sh' = n_slots sh"
    and off: "\<not> on_slot (op_now s pos w)" and "owned ((nholds s pos ph sh)(InWorker w := None)) (n_live sh')"
    and "\<not> n_misuse sh'"
  shows "native_inv s (pos(w := pos w + 1)) (ph(w := AtOp)) sh'"
  unfolding native_inv_def pointers_fit_def nholds_drop [where pos = pos, OF off sl]
  using gens_fit_done [OF native_invD(1) [OF inv] b off sl] worker_fits_done [OF native_invD(2) [OF inv] sl] assms(5,6)
  by blast

lemma native_inv_store:
  assumes inv: "native_inv s pos ph sh" and chain: "chained n gens s" and b: "busy s pos w"
    and w: "ph w = Got p" and on: "on_slot (op_now s pos w)"
  shows "native_inv s pos (ph(w := Stored)) (store_pointer n (nop_slot (op_now s pos w)) p sh)"
proof -
  let ?op = "op_now s pos w"
  let ?sh = "store_pointer n (nop_slot ?op) p sh"
  note fits = native_invD(2) [OF inv]
  have gen: "ns_generation (slot_at ?sh o') = ns_generation (slot_at sh o')" for o'
    by (simp add: slot_at_def store_pointer_def touch_slot_def)
  have "worker_fits s pos (ph(w := Stored)) ?sh v" for v
  proof (cases "v = w")
    case True
    then show ?thesis
      using worker_fitsD(2) [OF fits [of w] b] w on by (simp add: worker_fits_def b gen)
  next
    case False
    have "nop_slot (op_now s pos v) \<noteq> nop_slot ?op" if l: "ph v = Loaded q" and bv: "busy s pos v" for q
    proof
      assume same: "nop_slot (op_now s pos v) = nop_slot ?op"
      have "on_slot (op_now s pos v)"
        using worker_fitsD(1) [OF fits [of v] bv] l on same
        by (auto simp: on_slot_def op_kind_defs)
      with alone_on_slot [OF chain fits, of w v] w on l same False show False by simp
    qed
    then have "ns_pointer (slot_at ?sh (op_now s pos v)) = ns_pointer (slot_at sh (op_now s pos v))"
      if "ph v = Loaded q" and "busy s pos v" for q
      using that by (simp add: slot_at_def store_pointer_def touch_slot_def)
    then show ?thesis
      using fits [of v] False by (auto simp: worker_fits_def gen)
  qed
  moreover have "gens_fit s pos ?sh"
    using native_invD(1) [OF inv] unfolding gens_fit_def gen .
  moreover have "pointers_fit s pos (ph(w := Stored)) ?sh"
  proof -
    have "owned (nholds s pos ph sh) (n_live sh)" "\<not> n_misuse sh"
      using native_invD(3) [OF inv] by (simp_all add: pointers_fit_def)
    moreover have "nop_slot ?op < n"
      using chainedD(1) [OF chain cur_props(1) [OF b]] on by (simp add: well_formed_def)
    ultimately show ?thesis
      unfolding pointers_fit_def nholds_store [where ph = ph, OF chain fits w on]
      using owned_move [of "nholds s pos ph sh" "n_live sh" "InWorker w" p "InSlot (nop_slot ?op)"] w by simp
  qed
  ultimately show ?thesis by (simp add: native_inv_def)
qed

lemma native_inv_publish:
  assumes inv: "native_inv s pos ph sh" and chain: "chained n gens s" and b: "busy s pos w" and w: "ph w = Stored"
  shows "native_inv s (pos(w := pos w + 1)) (ph(w := AtOp))
    (store_generation n (nop_slot (op_now s pos w)) (output_generation (op_now s pos w)) sh)"
proof -
  let ?op = "op_now s pos w"
  let ?sh = "store_generation n (nop_slot ?op) (output_generation ?op) sh"
  note fits = native_invD(2) [OF inv]
  have on: "on_slot ?op"
    using worker_fitsD(1) [OF fits [of w] b] w by simp
  have "nholds s (pos(w := pos w + 1)) (ph(w := AtOp)) ?sh = nholds s pos ph sh"
    by (rule nholds_cong [where w = w]) (simp_all add: w other_cur)
  moreover have "nop_slot ?op < n"
    using chainedD(1) [OF chain cur_props(1) [OF b]] on by (simp add: well_formed_def)
  ultimately have "pointers_fit s (pos(w := pos w + 1)) (ph(w := AtOp)) ?sh"
    using native_invD(3) [OF inv] by (simp add: pointers_fit_def)
  then show ?thesis
    using publish_fits [OF chain fits native_invD(1) [OF inv] b w] by (simp add: native_inv_def)
qed

lemma kind_cases:
  obtains "nop_kind op = OP_ALLOC" | "nop_kind op = OP_FREE" | "nop_kind op = OP_REALLOC" | "nop_kind op = OP_REALLOC_NULL"
  | "nop_kind op = OP_UNKNOWN_FREE" | "OP_UNKNOWN_FREE < nop_kind op"
proof -
  have "k \<in> {0, 1, 2, 3, 4} \<or> 4 < k" for k :: u8
  proof -
    have "unat k \<in> {0, 1, 2, 3, 4} \<or> 4 < unat k" by auto
    then show ?thesis by (auto simp: word_less_nat_alt word_unat_eq_iff)
  qed
  then show thesis
    using that by (auto simp: op_kind_defs)
qed

lemma low_kinds: "nop_kind op \<le> OP_REALLOC_NULL \<longleftrightarrow> nop_kind op = OP_ALLOC \<or> nop_kind op = OP_FREE \<or>
    nop_kind op = OP_REALLOC \<or> nop_kind op = OP_REALLOC_NULL"
  by (rule kind_cases [of op]) (auto simp: op_kind_defs word_le_nat_alt word_less_nat_alt)

lemma execute_operation_inv:
  assumes inv: "native_inv s pos ph sh" and chain: "chained n gens s" and b: "busy s pos w"
    and step: "execute_operation fs n w (op_now s pos w) (ph w) sh res sh'"
  shows "res = Some ph' \<Longrightarrow> native_inv s pos (ph(w := ph')) sh'"
    and "res = None \<Longrightarrow> native_inv s (pos(w := pos w + 1)) (ph(w := AtOp)) sh'"
proof -
  let ?op = "op_now s pos w"
  let ?H = "nholds s pos ph sh"
  note fits = native_invD(2) [OF inv]
  note wf = chainedD(1) [OF chain cur_props(1) [OF b]]
  have own: "owned ?H (n_live sh)" and ok: "\<not> n_misuse sh"
    using native_invD(3) [OF inv] by (simp_all add: pointers_fit_def)
  have gen: "ns_generation (slot_at sh ?op) = wait_generation ?op" if "past_wait (ph w)" "on_slot ?op"
    using worker_fitsD(2) [OF fits [of w] b] that by blast
  have low: "nop_kind ?op \<le> OP_REALLOC_NULL" if "past_wait (ph w)"
    using worker_fitsD(1) [OF fits [of w] b] that by (cases "ph w") (auto simp: low_kinds on_slot_def)
  have in_range: "nop_slot ?op < n" if "on_slot ?op"
    using wf that by (simp add: well_formed_def)
  have notyet: "unat (ns_generation (slot_at sh ?op)) \<le> unat (wait_generation ?op)" if "on_slot ?op"
    by (rule gens_fitD(2) [OF native_invD(1) [OF inv] cur_props(1) [OF b] that cur_props(3) [OF b]])
  have reached: "ns_generation (slot_at sh ?op) = wait_generation ?op" if "on_slot ?op" "wait_for_slot sh ?op"
    using notyet [OF that(1)] that(2) by (simp add: wait_for_slot_def slot_at_def word_le_nat_alt word_unat_eq_iff)
  text \<open>A call that leaves the worker with a pointer to publish.\<close>
  have call: "native_inv s pos (ph(w := Got v)) sh''"
    if "past_wait (ph w)" "got (ph w) = None" "n_slots sh'' = n_slots sh" "\<not> n_misuse sh''"
      and o: "on_slot ?op \<Longrightarrow> owned (?H(InSlot (nop_slot ?op) := None, InWorker w \<mapsto> v)) (n_live sh'')"
      and n: "\<not> on_slot ?op \<Longrightarrow> owned (?H(InWorker w \<mapsto> v)) (n_live sh'')" for v sh''
    by (rule native_inv_phase [OF inv b that(3)])
      (use that low gen in \<open>simp_all add: pointers_fit_def nholds_got [where ph = ph]\<close>)
  have fresh: "native_inv s pos (ph(w := Got r)) (note_failure w ?op bb sh1)"
    if "ph w = Waited" "native_call w c sh r sh1" "\<not> misused c (n_live sh)"
      and "\<And>live'. heap_result c (n_live sh) r live' = fresh_result (n_live sh) r live'" for c r sh1 bb
  proof -
    note d = native_callD [OF that(2)]
    have f: "fresh_result (n_live sh) r (n_live sh1)"
      using d(2) that(4) by simp
    show ?thesis
      by (rule call) (use that(1,3) d(1,3) ok owned_fresh [OF own f] owned_fresh [OF owned_drop [OF own] f] in simp_all)
  qed
  have held: "?H (InSlot (nop_slot ?op)) = Some p" "on_slot ?op" if "ph w = Loaded p" for p
  proof -
    have "nop_kind ?op = OP_FREE \<or> nop_kind ?op = OP_REALLOC"
      using worker_fitsD(1) [OF fits [of w] b] that by simp
    then show on: "on_slot ?op"
      using wf by (auto simp: well_formed_def on_slot_def low_kinds)
    show "?H (InSlot (nop_slot ?op)) = Some p"
      using slot_held [where ph = ph, OF chain fits _ _ on] worker_fitsD(3) [OF fits [of w] b that] that by simp
  qed
  have main: "(\<forall>ph'. res = Some ph' \<longrightarrow> native_inv s pos (ph(w := ph')) sh') \<and>
    (res = None \<longrightarrow> native_inv s (pos(w := pos w + 1)) (ph(w := AtOp)) sh')"
    using step
  proof cases
    case op_count
    have "native_inv s pos (ph(w := Counted)) sh'"
      by (rule native_inv_phase [OF inv b])
        (use op_count own ok wf in \<open>simp_all add: pointers_fit_def nholds_simple [where ph = ph] well_formed_def\<close>)
    with op_count show ?thesis by simp
  next
    case op_wait
    have on: "on_slot ?op"
      using op_wait(4) wf by (auto simp: well_formed_def on_slot_def low_kinds)
    have "native_inv s pos (ph(w := Waited)) sh'"
      by (rule native_inv_phase [OF inv b])
        (use op_wait own ok on in_range reached in \<open>simp_all add: pointers_fit_def nholds_simple [where ph = ph] on_slot_def not_le\<close>)
    with op_wait show ?thesis by simp
  next
    case op_no_wait
    have "ns_generation (slot_at sh ?op) = wait_generation ?op" if "on_slot ?op"
      using notyet [OF that] op_no_wait(5) by (simp add: unat_eq_0)
    then have "native_inv s pos (ph(w := Waited)) sh'"
      by (intro native_inv_phase [OF inv b])
        (use op_no_wait own ok in \<open>auto simp: pointers_fit_def nholds_simple [where ph = ph] low_kinds\<close>)
    with op_no_wait show ?thesis by simp
  next
    case (op_unknown r)
    note d = native_callD [OF op_unknown(4)]
    have "0 \<notin> n_live sh" using own by (simp add: owned_def)
    then have "n_live sh' = n_live sh" "\<not> n_misuse sh'"
      using d(2,3) ok by simp_all
    then have "native_inv s (pos(w := pos w + 1)) (ph(w := AtOp)) sh'"
      by (intro native_inv_done [OF inv b d(1)])
        (use op_unknown owned_drop [OF own] in \<open>simp_all add: on_slot_def op_kind_defs\<close>)
    with op_unknown show ?thesis by simp
  next
    case op_other
    have "\<not> on_slot ?op"
      using op_other by (auto simp: on_slot_def op_kind_defs word_le_nat_alt word_less_nat_alt)
    then have "native_inv s (pos(w := pos w + 1)) (ph(w := AtOp)) sh'"
      by (intro native_inv_done [OF inv b]) (use op_other ok owned_drop [OF own] in simp_all)
    with op_other show ?thesis by simp
  next
    case op_load
    have on: "on_slot ?op"
      using op_load(4) wf by (auto simp: well_formed_def on_slot_def low_kinds)
    have "native_inv s pos (ph(w := Loaded (ns_pointer (n_slots sh (nop_slot ?op))))) sh'"
      by (rule native_inv_phase [OF inv b])
        (use op_load own ok on in_range gen in \<open>simp_all add: pointers_fit_def nholds_simple [where ph = ph] slot_at_def not_le\<close>)
    with op_load show ?thesis by simp
  next
    case (op_alloc r sh1)
    from fresh [OF op_alloc(1) op_alloc(5)] op_alloc show ?thesis by simp
  next
    case (op_realloc_null r sh1)
    from fresh [OF op_realloc_null(1) op_realloc_null(5)] op_realloc_null show ?thesis by simp
  next
    case (op_free p r)
    note h = held [OF op_free(1)] and d = native_callD [OF op_free(4)]
    have m: "\<not> misused (nfree_call fs ?op p) (n_live sh)" "heap_result (Free p) (n_live sh) r (n_live sh')"
      using owned_misuse [OF own h(1)] d(2) by (auto simp: nfree_call_def split: if_splits)
    have "native_inv s pos (ph(w := Got 0)) sh'"
      by (rule call) (use op_free d(1,3) m ok h(2) owned_null [OF owned_free(1) [OF own h(1) m(2)]] in simp_all)
    with op_free show ?thesis by simp
  next
    case (op_realloc p r sh1)
    note h = held [OF op_realloc(1)] and d = native_callD [OF op_realloc(5)]
    let ?G = "?H(InSlot (nop_slot ?op) := None, InWorker w \<mapsto> p)"
    have g: "owned ?G (n_live sh)"
      by (rule owned_move [OF own h(1)]) simp
    note r = owned_realloc [OF g, of "InWorker w" p, OF _ d(2)]
    have "owned (?H(InSlot (nop_slot ?op) := None, InWorker w \<mapsto> (if r = 0 \<and> nop_size ?op \<noteq> 0 then p else r))) (n_live sh1)"
      using r by (cases "nop_size ?op = 0") simp_all
    then have "native_inv s pos (ph(w := Got (if r = 0 \<and> nop_size ?op \<noteq> 0 then p else r)))
        (note_failure w ?op (r = 0 \<and> nop_size ?op \<noteq> 0) sh1)"
      by (intro call) (use op_realloc(1) d(1,3) ok h(2) owned_misuse(2) [OF own h(1)] in simp_all)
    with op_realloc show ?thesis by simp
  next
    case (op_no_slot p)
    have "native_inv s (pos(w := pos w + 1)) (ph(w := AtOp)) sh'"
      by (rule native_inv_done [OF inv b]) (use op_no_slot ok owned_drop [OF own] in \<open>simp_all add: on_slot_def\<close>)
    with op_no_slot show ?thesis by simp
  next
    case (op_store p)
    have "on_slot ?op"
      using low op_store by (simp add: on_slot_def)
    from native_inv_store [OF inv chain b op_store(1) this] op_store show ?thesis by simp
  next
    case op_publish
    from native_inv_publish [OF inv chain b op_publish(1)] op_publish show ?thesis by simp
  qed
  then show "res = Some ph' \<Longrightarrow> native_inv s pos (ph(w := ph')) sh'"
    "res = None \<Longrightarrow> native_inv s (pos(w := pos w + 1)) (ph(w := AtOp)) sh'"
    by blast+
qed

subsection \<open>What a worker has done\<close>

text \<open>The calls of an operation that got the pointer \<open>p\<close> of its slot.\<close>

definition op_calls :: "bool \<Rightarrow> native_op \<Rightarrow> u64 \<Rightarrow> rt_call list" where
  "op_calls fs op p =
    (if nop_kind op = OP_ALLOC then [run_allocation op]
     else if nop_kind op = OP_FREE then [nfree_call fs op p]
     else if nop_kind op = OP_REALLOC then [Realloc p (nop_size op)]
     else if nop_kind op = OP_REALLOC_NULL then [Realloc 0 (nop_size op)]
     else if nop_kind op = OP_UNKNOWN_FREE then [Free 0] else [])"

definition calls_match :: "bool \<Rightarrow> native_op list \<Rightarrow> rt_call list \<Rightarrow> bool" where
  "calls_match fs os cs \<longleftrightarrow> (\<exists>ps. length ps = length os \<and> cs = concat (map2 (op_calls fs) os ps))"

definition function_total :: "nat \<Rightarrow> native_op list \<Rightarrow> u64" where
  "function_total f os = of_nat (length (filter (\<lambda>op. unat (nop_function op) = f) os))"

fun called :: "nphase \<Rightarrow> bool" where
  "called (Got p) = True"
| "called Stored = True"
| "called _ = False"

definition log_fits :: "bool \<Rightarrow> native_op list \<Rightarrow> nat \<Rightarrow> nphase \<Rightarrow> u64 list \<Rightarrow> rt_call list \<Rightarrow> bool" where
  "log_fits fs os k ph cnt cs \<longleftrightarrow> length cnt = FUNC_COUNT \<and>
    (\<forall>f<FUNC_COUNT. cnt ! f = function_total f (take (if ph = AtOp then k else k + 1) os)) \<and>
    calls_match fs (take (if called ph then k + 1 else k) os) cs"

lemma calls_match_snoc:
  assumes "calls_match fs (take k os) cs" and "k < length os" and "op_calls fs (os ! k) p = ds"
  shows "calls_match fs (take (k + 1) os) (cs @ ds)"
proof -
  obtain ps where "length ps = length (take k os)" "cs = concat (map2 (op_calls fs) (take k os) ps)"
    using assms(1) by (auto simp: calls_match_def)
  then show ?thesis
    using assms(2,3) unfolding calls_match_def
    by (intro exI [of _ "ps @ [p]"]) (simp add: take_Suc_conv_app_nth)
qed

lemma function_total_snoc:
  "k < length os \<Longrightarrow> function_total f (take (Suc k) os) =
    function_total f (take k os) + (if unat (nop_function (os ! k)) = f then 1 else 0)"
  by (simp add: function_total_def take_Suc_conv_app_nth)

lemma native_call_log:
  assumes "native_call w c sh r sh'"
  shows "n_counts sh' = n_counts sh" and "n_calls sh' = (n_calls sh)(w := n_calls sh w @ [c])"
  using assms by (auto simp: native_call_simps)

lemma log_frame [simp]:
  "n_counts (touch_slot n \<sigma> sh) = n_counts sh" "n_calls (touch_slot n \<sigma> sh) = n_calls sh"
  "n_counts (store_pointer n \<sigma> p sh) = n_counts sh" "n_calls (store_pointer n \<sigma> p sh) = n_calls sh"
  "n_counts (store_generation n \<sigma> g sh) = n_counts sh" "n_calls (store_generation n \<sigma> g sh) = n_calls sh"
  "n_counts (note_failure w op b sh) = n_counts sh" "n_calls (note_failure w op b sh) = n_calls sh"
  by (simp_all add: touch_slot_def store_pointer_def store_generation_def note_failure_def)

lemma op_kinds_distinct [simp]:
  "OP_FREE \<noteq> OP_ALLOC" "OP_REALLOC \<noteq> OP_ALLOC" "OP_REALLOC_NULL \<noteq> OP_ALLOC" "OP_UNKNOWN_FREE \<noteq> OP_ALLOC"
  "OP_REALLOC \<noteq> OP_FREE" "OP_REALLOC_NULL \<noteq> OP_FREE" "OP_UNKNOWN_FREE \<noteq> OP_FREE"
  "OP_REALLOC_NULL \<noteq> OP_REALLOC" "OP_UNKNOWN_FREE \<noteq> OP_REALLOC" "OP_UNKNOWN_FREE \<noteq> OP_REALLOC_NULL"
  by (simp_all add: op_kind_defs)

lemma other_kind_calls: "OP_UNKNOWN_FREE < nop_kind op \<Longrightarrow> op_calls fs op p = []"
  by (auto simp: op_calls_def op_kind_defs)

lemma log_fits_count:
  assumes "log_fits fs os k AtOp cnt cs" and "k < length os"
  shows "log_fits fs os k Counted (update_at (unat (nop_function (os ! k))) (\<lambda>c. c + 1) cnt) cs"
  using assms by (auto simp: log_fits_def update_at_def nth_list_update function_total_snoc)

text \<open>A phase without a call; a call; the end of the operation.\<close>

lemma log_fits_same:
  assumes "log_fits fs os k ph cnt cs" and "ph \<noteq> AtOp" and "ph' \<noteq> AtOp" and "called ph' = called ph"
  shows "log_fits fs os k ph' cnt cs"
  using assms by (simp add: log_fits_def)

lemma log_fits_call:
  assumes "log_fits fs os k ph cnt cs" and "k < length os" and "ph \<noteq> AtOp" and "\<not> called ph"
    and "op_calls fs (os ! k) p = [c]"
  shows "log_fits fs os k (Got v) cnt (cs @ [c])" and "log_fits fs os (k + 1) AtOp cnt (cs @ [c])"
  using assms calls_match_snoc [of fs k os cs p "[c]"] by (simp_all add: log_fits_def)

lemma log_fits_done:
  assumes "log_fits fs os k ph cnt cs" and "called ph"
  shows "log_fits fs os (k + 1) AtOp cnt cs"
  using assms by (cases ph) (simp_all add: log_fits_def)

lemma execute_operation_log:
  assumes "execute_operation fs n w (os ! k) ph sh res sh'" and "k < length os"
    and "log_fits fs os k ph (n_counts sh w) (n_calls sh w)"
  shows "log_fits fs os (case res of Some ph' \<Rightarrow> k | None \<Rightarrow> k + 1) (case res of Some ph' \<Rightarrow> ph' | None \<Rightarrow> AtOp)
      (n_counts sh' w) (n_calls sh' w)"
    and "v \<noteq> w \<Longrightarrow> n_counts sh' v = n_counts sh v \<and> n_calls sh' v = n_calls sh v"
proof -
  show "log_fits fs os (case res of Some ph' \<Rightarrow> k | None \<Rightarrow> k + 1) (case res of Some ph' \<Rightarrow> ph' | None \<Rightarrow> AtOp)
      (n_counts sh' w) (n_calls sh' w)"
    using assms(1)
  proof cases
    case op_count
    then show ?thesis
      using log_fits_count [OF _ assms(2)] assms(3) by (simp add: count_op_def)
  next
    case (op_unknown r)
    then show ?thesis
      using log_fits_call(2) [OF assms(3,2), of 0] native_call_log [OF op_unknown(4)] by (simp add: op_calls_def)
  next
    case op_other
    then show ?thesis
      using calls_match_snoc [OF _ assms(2) other_kind_calls, of fs "n_calls sh w"] assms(3)
      by (simp add: log_fits_def)
  next
    case (op_alloc r sh1)
    then show ?thesis
      using log_fits_call(1) [OF assms(3,2), of 0] native_call_log [OF op_alloc(5)] by (simp add: op_calls_def)
  next
    case (op_realloc_null r sh1)
    then show ?thesis
      using log_fits_call(1) [OF assms(3,2), of 0] native_call_log [OF op_realloc_null(5)] by (simp add: op_calls_def)
  next
    case (op_free p r)
    then show ?thesis
      using log_fits_call(1) [OF assms(3,2), of p] native_call_log [OF op_free(4)] by (simp add: op_calls_def)
  next
    case (op_realloc p r sh1)
    then show ?thesis
      using log_fits_call(1) [OF assms(3,2), of p] native_call_log [OF op_realloc(5)] by (simp add: op_calls_def)
  qed (use assms(3) log_fits_same log_fits_done in \<open>auto split: option.splits\<close>)
  show "v \<noteq> w \<Longrightarrow> n_counts sh' v = n_counts sh v \<and> n_calls sh' v = n_calls sh v"
    using assms(1) by cases (auto simp: count_op_def native_call_simps)
qed

subsection \<open>Progress\<close>

lemma native_call_possible: "\<exists>r sh'. native_call w c sh r sh'"
proof -
  have "\<exists>live'. heap_result c (n_live sh) 0 live'"
    by (cases c) (auto simp: fresh_result_def)
  then show ?thesis
    using native_call.intros [of c sh 0] by blast
qed

lemma execute_operation_possible:
  assumes inv: "native_inv s pos ph sh" and chain: "chained n (\<lambda>_. 0) s"
    and k: "k < length s" "\<not> fin s pos k" "\<forall>j<k. fin s pos j"
  defines "w \<equiv> fst (s ! k)"
  shows "\<exists>res sh'. execute_operation fs n w (sop s k) (ph w) sh res sh'"
proof -
  let ?op = "sop s k"
  have b: "busy s pos w" and c: "cur s pos w = k"
    unfolding w_def by (rule first_open_is_cur [OF k])+
  note fits = worker_fitsD(1) [OF native_invD(2) [OF inv] b, unfolded c]
  note wf = chainedD(1) [OF chain k(1)]
  have ready: "wait_for_slot sh ?op" if on: "on_slot ?op"
    using chainedD(3) [OF chain k(1) on]
  proof (elim disjE exE conjE)
    fix j
    assume j: "j < k" "on_slot (sop s j)" "nop_slot (sop s j) = nop_slot ?op"
      "output_generation (sop s j) = wait_generation ?op"
    then have "unat (output_generation (sop s j)) \<le> unat (ns_generation (slot_at sh (sop s j)))"
      by (intro gens_fitD(1) [OF native_invD(1) [OF inv]]) (use k in simp_all)
    then show ?thesis
      using j by (simp add: wait_for_slot_def slot_at_def word_le_nat_alt)
  qed (simp add: wait_for_slot_def)
  note call = native_call_possible
  show ?thesis
  proof (cases "ph w")
    case AtOp
    then show ?thesis using op_count by metis
  next
    case Counted
    show ?thesis
    proof (cases "nop_kind ?op \<le> OP_REALLOC_NULL \<and> (nop_kind ?op = OP_FREE \<or> nop_kind ?op = OP_REALLOC \<or> wait_generation ?op \<noteq> 0)")
      case True
      then have "on_slot ?op"
        using wf by (auto simp: well_formed_def on_slot_def)
      from op_wait [OF _ ready [OF this]] True Counted show ?thesis
        by (metis low_kinds)
    next
      case False
      then show ?thesis
        using Counted op_no_wait [of ?op] op_other [of ?op] op_unknown [of ?op] call
        by (rule_tac kind_cases [of ?op]) (metis low_kinds)+
    qed
  next
    case Waited
    then have "nop_kind ?op \<le> OP_REALLOC_NULL" using fits by simp
    then consider "nop_kind ?op = OP_ALLOC" | "nop_kind ?op = OP_REALLOC_NULL" | "nop_kind ?op = OP_FREE \<or> nop_kind ?op = OP_REALLOC"
      unfolding low_kinds by blast
    then show ?thesis
      using Waited op_load [of ?op] op_alloc [of ?op] op_realloc_null [of ?op] call by cases metis+
  next
    case (Loaded p)
    then have "nop_kind ?op = OP_FREE \<or> nop_kind ?op = OP_REALLOC" using fits by simp
    then show ?thesis
      using Loaded op_free [of ?op] op_realloc [of ?op] call by metis
  next
    case (Got p)
    then show ?thesis using op_no_slot [of ?op] op_store [of ?op] by metis
  next
    case Stored
    then show ?thesis using op_publish by metis
  qed
qed

subsection \<open>Runs\<close>

fun ws_pos :: "nat \<Rightarrow> nworker_state \<Rightarrow> nat" where
  "ws_pos m (Running k ph) = k"
| "ws_pos m Returned = m"
| "ws_pos m _ = 0"

fun ws_phase :: "nworker_state \<Rightarrow> nphase" where
  "ws_phase (Running k ph) = ph"
| "ws_phase _ = AtOp"

definition ops_count :: "native_image \<Rightarrow> nat \<Rightarrow> nat" where
  "ops_count img w = unat (op_count (ni_threads img ! w))"

definition npos :: "native_image \<Rightarrow> nrun \<Rightarrow> nat \<Rightarrow> nat" where
  "npos img c w = ws_pos (ops_count img w) (nr_ws c w)"

definition nph :: "nrun \<Rightarrow> nat \<Rightarrow> nphase" where
  "nph c w = ws_phase (nr_ws c w)"

definition not_ready :: "nworker_state \<Rightarrow> bool" where
  "not_ready u \<longleftrightarrow> u = NotCreated \<or> u = Entering"

definition waits_start :: "nworker_state \<Rightarrow> bool" where
  "waits_start u \<longleftrightarrow> u = Entering \<or> u = AtStart"

fun main_fits :: "nat \<Rightarrow> nrun \<Rightarrow> nmain_state \<Rightarrow> bool" where
  "main_fits m c (Creating i) = (i \<le> m \<and> (\<forall>w\<ge>i. nr_ws c w = NotCreated) \<and> (\<forall>w<i. waits_start (nr_ws c w)) \<and> \<not> nr_start c)"
| "main_fits m c AwaitReady = ((\<forall>w\<ge>m. nr_ws c w = NotCreated) \<and> (\<forall>w<m. waits_start (nr_ws c w)) \<and> \<not> nr_start c)"
| "main_fits m c (Joining i) = (i \<le> m \<and> (\<forall>w\<ge>m. nr_ws c w = NotCreated) \<and> (\<forall>w<m. nr_ws c w \<noteq> NotCreated) \<and>
    nr_start c \<and> (\<forall>w<i. nr_ws c w = Returned))"
| "main_fits m c Ended = ((\<forall>w\<ge>m. nr_ws c w = NotCreated) \<and> (\<forall>w<m. nr_ws c w = Returned))"

definition run_fits :: "bool \<Rightarrow> native_image \<Rightarrow> (nat \<times> native_op) list \<Rightarrow> nrun \<Rightarrow> bool" where
  "run_fits fs img s c \<longleftrightarrow>
    native_inv s (npos img c) (nph c) (nr_shared c) \<and>
    (\<forall>w. log_fits fs (ops_of s w) (npos img c w) (nph c w) (n_counts (nr_shared c) w) (n_calls (nr_shared c) w)) \<and>
    main_fits (length (ni_threads img)) c (nr_main c) \<and>
    nr_ready c = of_nat (card {w. w < length (ni_threads img) \<and> \<not> not_ready (nr_ws c w)}) \<and>
    (\<forall>w. npos img c w \<le> ops_count img w)"

lemma run_fitsD:
  assumes "run_fits fs img s c"
  shows "native_inv s (npos img c) (nph c) (nr_shared c)"
    and "log_fits fs (ops_of s w) (npos img c w) (nph c w) (n_counts (nr_shared c) w) (n_calls (nr_shared c) w)"
    and "main_fits (length (ni_threads img)) c (nr_main c)"
    and "nr_ready c = of_nat (card {w. w < length (ni_threads img) \<and> \<not> not_ready (nr_ws c w)})"
    and "npos img c w \<le> ops_count img w"
  using assms by (simp_all add: run_fits_def)

lemma fits_scheduleD:
  assumes "fits_schedule img s"
  shows "chained (n_slot_count (ni_header img)) (\<lambda>_. 0) s"
    and "k < length s \<Longrightarrow> fst (s ! k) < length (ni_threads img)"
    and "w < length (ni_threads img) \<Longrightarrow> ops_of s w = thread_ops img w"
    and "w < length (ni_threads img) \<Longrightarrow> length (idxs s w) = ops_count img w"
    and "\<not> w < length (ni_threads img) \<Longrightarrow> idxs s w = []"
proof -
  show "chained (n_slot_count (ni_header img)) (\<lambda>_. 0) s"
    using assms by (simp add: fits_schedule_def)
  have in_range: "fst (s ! k) < length (ni_threads img)" if "k < length s" for k
    using assms that by (simp add: fits_schedule_def list_all_length)
  then show "k < length s \<Longrightarrow> fst (s ! k) < length (ni_threads img)" .
  show ops: "ops_of s w = thread_ops img w" if "w < length (ni_threads img)"
    using assms that by (simp add: fits_schedule_def list_all_length)
  show "length (idxs s w) = ops_count img w" if "w < length (ni_threads img)"
  proof -
    have "length (map (sop s) (idxs s w)) = ops_count img w"
      unfolding ops_of_idxs [symmetric] ops [OF that] by (simp add: thread_ops_def ops_count_def)
    then show ?thesis by simp
  qed
  show "idxs s w = []" if "\<not> w < length (ni_threads img)"
    using in_range that unfolding idxs_def filter_empty_conv by auto
qed

text \<open>Worker \<open>w\<close> is busy exactly when it has an operation left.\<close>

lemma busy_iff:
  assumes "fits_schedule img s"
  shows "w < length (ni_threads img) \<Longrightarrow> busy s pos w \<longleftrightarrow> pos w < ops_count img w"
    and "\<not> w < length (ni_threads img) \<Longrightarrow> \<not> busy s pos w"
  by (simp_all add: busy_def fits_scheduleD(4,5) [OF assms])

lemma op_now_at:
  assumes "fits_schedule img s" and "w < length (ni_threads img)" and "pos w < ops_count img w"
  shows "op_at img (ni_threads img ! w) (pos w) = op_now s pos w" and "ops_of s w ! pos w = op_now s pos w"
    and "length (ops_of s w) = ops_count img w"
proof -
  note o = fits_scheduleD(3) [OF assms(1,2)]
  show l: "length (ops_of s w) = ops_count img w"
    unfolding o by (simp add: thread_ops_def ops_count_def)
  have "ops_of s w ! pos w = sop s (idxs s w ! pos w)"
    unfolding ops_of_idxs using fits_scheduleD(4) [OF assms(1,2)] assms(3) by simp
  then show n: "ops_of s w ! pos w = op_now s pos w" by (simp add: cur_def)
  show "op_at img (ni_threads img ! w) (pos w) = op_now s pos w"
    unfolding n [symmetric] o using assms(3) by (simp add: thread_ops_def ops_count_def)
qed

text \<open>A step that changes the state of one worker and neither its position nor its phase.\<close>

lemma run_fits_control:
  assumes "run_fits fs img s c" and "nr_shared c' = nr_shared c" and "\<And>v. v \<noteq> w \<Longrightarrow> nr_ws c' v = nr_ws c v"
    and "ws_pos (ops_count img w) (nr_ws c' w) = npos img c w" and "ws_phase (nr_ws c' w) = nph c w"
    and "main_fits (length (ni_threads img)) c' (nr_main c')"
    and "nr_ready c' = of_nat (card {w. w < length (ni_threads img) \<and> \<not> not_ready (nr_ws c' w)})"
  shows "run_fits fs img s c'"
proof -
  have "npos img c' v = npos img c v" "nph c' v = nph c v" for v
    using assms(3-5) by (cases "v = w"; simp add: npos_def nph_def)+
  then have "npos img c' = npos img c" "nph c' = nph c" by blast+
  then show ?thesis
    using assms(1,2,6,7) by (simp add: run_fits_def)
qed

lemma main_fits_worker:
  assumes "main_fits m c mn" and "nr_ws c w = u" and "u \<noteq> NotCreated" and "u \<noteq> Returned" and "u' \<noteq> NotCreated"
    and "nr_start c \<or> waits_start u'" and "nr_ws c' = (nr_ws c)(w := u')" and "nr_start c' = nr_start c"
  shows "main_fits m c' mn"
  using assms(1-6) unfolding assms(7,8) by (cases mn) (auto simp: assms(7,8) waits_start_def)

lemma ready_same:
  assumes "\<And>v. v \<noteq> w \<Longrightarrow> nr_ws c' v = nr_ws c v" and "not_ready (nr_ws c' w) = not_ready (nr_ws c w)"
  shows "{v. v < m \<and> \<not> not_ready (nr_ws c' v)} = {v. v < m \<and> \<not> not_ready (nr_ws c v)}"
  using assms by (metis (no_types, lifting))

lemma created_below:
  assumes "main_fits m c mn" and "nr_ws c w \<noteq> NotCreated"
  shows "w < m"
  using assms by (cases mn) (auto simp: not_le [symmetric])

lemma run_fits_ready:
  assumes inv: "run_fits fs img s c" and w: "nr_ws c w = Entering"
  shows "run_fits fs img s (c\<lparr>nr_ready := nr_ready c + 1, nr_ws := (nr_ws c)(w := AtStart)\<rparr>)" (is "run_fits _ _ _ ?c")
proof (rule run_fits_control [OF inv, where w = w])
  let ?m = "length (ni_threads img)"
  have "w < ?m"
    by (rule created_below [OF run_fitsD(3) [OF inv]]) (simp add: w)
  then have "{v. v < ?m \<and> \<not> not_ready (nr_ws ?c v)} = insert w {v. v < ?m \<and> \<not> not_ready (nr_ws c v)}"
    by (auto simp: not_ready_def)
  moreover have "w \<notin> {v. v < ?m \<and> \<not> not_ready (nr_ws c v)}"
    by (simp add: w not_ready_def)
  ultimately show "nr_ready ?c = of_nat (card {v. v < ?m \<and> \<not> not_ready (nr_ws ?c v)})"
    using run_fitsD(4) [OF inv] by simp
  show "main_fits ?m ?c (nr_main ?c)"
    using main_fits_worker [OF run_fitsD(3) [OF inv] w, of AtStart ?c] by (simp add: waits_start_def)
qed (simp_all add: w npos_def nph_def)

lemma run_fits_worker_control:
  assumes inv: "run_fits fs img s c" and w: "nr_ws c w = u" "u \<noteq> NotCreated" "u \<noteq> Entering" "u \<noteq> Returned"
    and u': "u' \<noteq> NotCreated" "u' \<noteq> Entering" and start: "nr_start c"
    and "ws_pos (ops_count img w) u' = npos img c w" and "ws_phase u' = nph c w"
  shows "run_fits fs img s (c\<lparr>nr_ws := (nr_ws c)(w := u')\<rparr>)" (is "run_fits _ _ _ ?c")
proof (rule run_fits_control [OF inv, where w = w])
  show "main_fits (length (ni_threads img)) ?c (nr_main ?c)"
    using main_fits_worker [OF run_fitsD(3) [OF inv] w(1,2,4) u'(1), of ?c] start by simp
  have "not_ready (nr_ws ?c w) = not_ready (nr_ws c w)"
    using w u' by (simp add: not_ready_def)
  then have "{v. v < length (ni_threads img) \<and> \<not> not_ready (nr_ws ?c v)} = {v. v < length (ni_threads img) \<and> \<not> not_ready (nr_ws c v)}"
    by (intro ready_same [where w = w]) simp_all
  then show "nr_ready ?c = of_nat (card {v. v < length (ni_threads img) \<and> \<not> not_ready (nr_ws ?c v)})"
    using run_fitsD(4) [OF inv] by simp
qed (use assms in simp_all)

lemma started:
  assumes "run_fits fs img s c" and "nr_ws c w = Running k ph"
  shows "nr_start c" and "w < length (ni_threads img)"
proof -
  note m = run_fitsD(3) [OF assms(1)]
  show w: "w < length (ni_threads img)"
    by (rule created_below [OF m]) (simp add: assms(2))
  show "nr_start c"
  proof (cases "nr_main c")
    case (Creating i)
    then have "nr_ws c w = NotCreated \<or> waits_start (nr_ws c w)"
      using m by (cases "i \<le> w") simp_all
    with assms(2) show ?thesis by (simp add: waits_start_def)
  next
    case AwaitReady
    then have "waits_start (nr_ws c w)"
      using m w by simp
    with assms(2) show ?thesis by (simp add: waits_start_def)
  next
    case (Joining i)
    then show ?thesis using m by simp
  next
    case Ended
    then show ?thesis using m w assms(2) by simp
  qed
qed

lemma run_fits_op:
  assumes inv: "run_fits fs img s c" and sched: "fits_schedule img s" and w: "nr_ws c w = Running k ph"
    and k: "k < ops_count img w"
    and step: "execute_operation fs (n_slot_count (ni_header img)) w (op_at img (ni_threads img ! w) k) ph (nr_shared c) res sh"
  defines "u \<equiv> (case res of Some ph' \<Rightarrow> Running k ph' | None \<Rightarrow> Running (k + 1) AtOp)"
  shows "run_fits fs img s (c\<lparr>nr_shared := sh, nr_ws := (nr_ws c)(w := u)\<rparr>)" (is "run_fits _ _ _ ?c")
proof -
  note st = started [OF inv w] and chain = fits_scheduleD(1) [OF sched]
  have p: "npos img c w = k" "nph c w = ph"
    by (simp_all add: npos_def nph_def w)
  have kk: "npos img c w < ops_count img w" using k p by simp
  note at = op_now_at [where pos = "npos img c", OF sched st(2) kk]
  have b: "busy s (npos img c) w"
    using busy_iff(1) [OF sched st(2)] kk by simp
  have op: "execute_operation fs (n_slot_count (ni_header img)) w (op_now s (npos img c) w) (nph c w) (nr_shared c) res sh"
    using step at(1) p by simp
  note next_inv = execute_operation_inv [OF run_fitsD(1) [OF inv] chain b op]
  have views: "npos img ?c = (npos img c)(w := (case res of Some ph' \<Rightarrow> k | None \<Rightarrow> k + 1))"
    "nph ?c = (nph c)(w := (case res of Some ph' \<Rightarrow> ph' | None \<Rightarrow> AtOp))"
    by (auto simp: npos_def nph_def u_def fun_eq_iff split: option.splits)
  have "native_inv s (npos img ?c) (nph ?c) sh"
  proof (cases res)
    case None
    then show ?thesis using next_inv(2) p unfolding views by simp
  next
    case (Some ph')
    have "(npos img c)(w := k) = npos img c" using p(1) by auto
    with Some show ?thesis using next_inv(1) unfolding views by simp
  qed
  moreover have "log_fits fs (ops_of s v) (npos img ?c v) (nph ?c v) (n_counts sh v) (n_calls sh v)" for v
  proof (cases "v = w")
    case True
    have "execute_operation fs (n_slot_count (ni_header img)) w (ops_of s w ! k) ph (nr_shared c) res sh"
      using step at(1,2) p by simp
    from execute_operation_log(1) [OF this] run_fitsD(2) [OF inv, of w] at(3) k True show ?thesis
      unfolding views by (simp add: p)
  next
    case False
    have "n_counts sh v = n_counts (nr_shared c) v \<and> n_calls sh v = n_calls (nr_shared c) v"
      by (rule execute_operation_log(2) [OF _ _ _ False, of fs _ "ops_of s w" k ph "nr_shared c" res])
        (use step at p k run_fitsD(2) [OF inv, of w] in simp_all)
    then show ?thesis
      using run_fitsD(2) [OF inv, of v] False unfolding views by simp
  qed
  moreover have "main_fits (length (ni_threads img)) ?c (nr_main ?c)"
    using main_fits_worker [OF run_fitsD(3) [OF inv] w, of u ?c] st(1) by (simp add: u_def split: option.splits)
  moreover have "{v. v < length (ni_threads img) \<and> \<not> not_ready (nr_ws ?c v)} = {v. v < length (ni_threads img) \<and> \<not> not_ready (nr_ws c v)}"
    by (rule ready_same [where w = w]) (simp_all add: w not_ready_def u_def split: option.splits)
  moreover have "npos img ?c v \<le> ops_count img v" for v
    using run_fitsD(5) [OF inv, of v] k unfolding views by (simp split: option.splits)
  ultimately show ?thesis
    using run_fitsD(4) [OF inv] by (simp add: run_fits_def)
qed

lemma run_fits_step:
  assumes inv: "run_fits fs img s c" and sched: "fits_schedule img s" and step: "native_step fs img c c'"
  shows "run_fits fs img s c'"
  using step
proof cases
  case native_main_step
  note m = run_fitsD(3) [OF inv]
  from native_main_step show ?thesis
  proof cases
    case (main_create i)
    have u: "nr_ws c i = NotCreated" using m main_create by simp
    show ?thesis unfolding main_create(1)
      by (rule run_fits_control [OF inv, where w = i])
        (use main_create m u ready_same [where w = i and c = c] run_fitsD(4) [OF inv] in
          \<open>auto simp: npos_def nph_def not_ready_def waits_start_def less_Suc_eq intro!: arg_cong [where f = "\<lambda>x. of_nat (card x)"]\<close>)
  next
    case main_created
    show ?thesis unfolding main_created(1)
      by (rule run_fits_control [OF inv, where w = 0]) (use main_created m run_fitsD(4) [OF inv] in \<open>simp_all add: npos_def nph_def\<close>)
  next
    case main_start
    show ?thesis unfolding main_start(1)
      by (rule run_fits_control [OF inv, where w = 0])
        (use main_start m run_fitsD(4) [OF inv] in \<open>auto simp: npos_def nph_def waits_start_def\<close>)
  next
    case (main_join i)
    show ?thesis unfolding main_join(1)
      by (rule run_fits_control [OF inv, where w = 0])
        (use main_join m run_fitsD(4) [OF inv] in \<open>auto simp: npos_def nph_def less_Suc_eq\<close>)
  next
    case main_ended
    show ?thesis unfolding main_ended(1)
      by (rule run_fits_control [OF inv, where w = 0]) (use main_ended m run_fitsD(4) [OF inv] in \<open>simp_all add: npos_def nph_def\<close>)
  qed
next
  case (native_worker_step w)
  then show ?thesis
  proof cases
    case worker_ready
    with run_fits_ready [OF inv] show ?thesis by simp
  next
    case worker_go
    show ?thesis unfolding worker_go(1)
      by (rule run_fits_worker_control [OF inv worker_go(2)]) (use worker_go in \<open>simp_all add: npos_def nph_def\<close>)
  next
    case (worker_op k ph ph' sh)
    from run_fits_op [OF inv sched worker_op(2) _ worker_op(4)] worker_op show ?thesis
      by (simp add: ops_count_def)
  next
    case (worker_op_done k ph sh)
    from run_fits_op [OF inv sched worker_op_done(2) _ worker_op_done(4)] worker_op_done show ?thesis
      by (simp add: ops_count_def)
  next
    case (worker_return k)
    have "k = ops_count img w"
      using run_fitsD(5) [OF inv, of w] worker_return by (simp add: npos_def ops_count_def)
    with worker_return(2) started [OF inv worker_return(2)] show ?thesis unfolding worker_return(1)
      by (intro run_fits_worker_control [OF inv worker_return(2)]) (simp_all add: npos_def nph_def)
  qed
qed

lemma run_fits_initial: "run_fits fs img s native_initial"
proof -
  have p: "npos img native_initial = (\<lambda>_. 0)" "nph native_initial = (\<lambda>_. AtOp)"
    by (simp_all add: npos_def nph_def native_initial_def fun_eq_iff)
  have "\<not> fin s (\<lambda>_. 0) k" for k
    by (simp add: fin_def)
  then have "gens_fit s (\<lambda>_. 0) (nr_shared native_initial)"
    by (simp add: gens_fit_def slot_at_def native_initial_def)
  moreover have "worker_fits s (\<lambda>_. 0) (\<lambda>_. AtOp) (nr_shared native_initial) w" for w
    by (simp add: worker_fits_def)
  moreover have z: "p = 0" if "nholds s (\<lambda>_. 0) (\<lambda>_. AtOp) (nr_shared native_initial) t = Some p" for t p
    using that by (cases t) (simp_all add: native_initial_def split: if_splits)
  have l: "n_live (nr_shared native_initial) = {}" "\<not> n_misuse (nr_shared native_initial)"
    by (simp_all add: native_initial_def)
  have "pointers_fit s (\<lambda>_. 0) (\<lambda>_. AtOp) (nr_shared native_initial)"
    unfolding pointers_fit_def owned_def l(1) using l(2) by (auto dest: z)
  moreover have "log_fits fs (ops_of s w) 0 AtOp (replicate FUNC_COUNT 0) []" for w
    by (simp add: log_fits_def function_total_def calls_match_def)
  ultimately show ?thesis
    unfolding run_fits_def p native_inv_def by (intro conjI allI) (simp_all add: native_initial_def not_ready_def)
qed

lemma run_fits_reach:
  assumes "fits_schedule img s" and "(native_step fs img)\<^sup>*\<^sup>* native_initial c"
  shows "run_fits fs img s c"
  using assms(2) by induction (auto intro: run_fits_initial run_fits_step [OF _ assms(1)])

lemma op_steps:
  assumes "nr_ws c w = Running k ph" and "k < unat (op_count (ni_threads img ! w))"
    and "execute_operation fs (n_slot_count (ni_header img)) w (op_at img (ni_threads img ! w) k) ph (nr_shared c) res sh"
  shows "\<exists>c'. native_step fs img c c'"
  using assms native_worker_step [OF worker_op] native_worker_step [OF worker_op_done] by (cases res) blast+

lemma worker_can_step:
  assumes inv: "run_fits fs img s c" and sched: "fits_schedule img s"
    and "nr_start c" and w: "nr_ws c w \<noteq> Returned" "nr_ws c w \<noteq> NotCreated" "w < length (ni_threads img)"
    and created: "\<forall>v<length (ni_threads img). nr_ws c v \<noteq> NotCreated"
  shows "\<exists>c'. native_step fs img c c'"
proof -
  let ?pos = "npos img c"
  have early: "\<exists>c'. native_step fs img c c'" if "waits_start (nr_ws c v)" for v
    using that unfolding waits_start_def
  proof (elim disjE)
    show "\<exists>c'. native_step fs img c c'" if "nr_ws c v = Entering"
      using native_worker_step [OF worker_ready [OF that]] by blast
    show "\<exists>c'. native_step fs img c c'" if "nr_ws c v = AtStart"
      using native_worker_step [OF worker_go [OF that assms(3)]] by blast
  qed
  show ?thesis
  proof (cases "busy s ?pos w")
    case True
    then have "\<not> fin s ?pos (cur s ?pos w)" "cur s ?pos w < length s"
      using cur_props(1,3) by blast+
    then obtain k where k: "k < length s" "\<not> fin s ?pos k" "\<forall>j<k. fin s ?pos j"
      using exists_least_iff [of "\<lambda>k. k < length s \<and> \<not> fin s ?pos k"] by (metis less_trans)
    define v where "v = fst (s ! k)"
    have b: "busy s ?pos v" and c: "cur s ?pos v = k"
      unfolding v_def by (rule first_open_is_cur [OF k])+
    have v: "v < length (ni_threads img)"
      unfolding v_def by (rule fits_scheduleD(2) [OF sched k(1)])
    have lt: "?pos v < ops_count img v"
      using b busy_iff(1) [OF sched v] by blast
    obtain res sh where step: "execute_operation fs (n_slot_count (ni_header img)) v (sop s k) (nph c v) (nr_shared c) res sh"
      using execute_operation_possible [OF run_fitsD(1) [OF inv] fits_scheduleD(1) [OF sched] k] unfolding v_def by blast
    show ?thesis
    proof (cases "nr_ws c v")
      case (Running i ph)
      then have "?pos v = i" "nph c v = ph" by (simp_all add: npos_def nph_def)
      with step lt Running show ?thesis
        using op_now_at(1) [where pos = ?pos, OF sched v lt] c by (intro op_steps [OF Running]) (simp_all add: ops_count_def)
    next
      case Returned
      then show ?thesis using lt by (simp add: npos_def)
    qed (use early created v in \<open>auto simp: waits_start_def\<close>)
  next
    case False
    show ?thesis
    proof (cases "nr_ws c w")
      case (Running k ph)
      then have "ph = AtOp"
        using worker_fitsD(4) [OF native_invD(2) [OF run_fitsD(1) [OF inv]] False] by (simp add: nph_def)
      moreover have "unat (op_count (ni_threads img ! w)) \<le> k"
        using False busy_iff(1) [OF sched w(3), of ?pos] Running by (simp add: npos_def ops_count_def)
      ultimately show ?thesis
        using Running native_worker_step [OF worker_return] by blast
    qed (use early w in \<open>auto simp: waits_start_def\<close>)
  qed
qed

lemma native_progress:
  assumes inv: "run_fits fs img s c" and sched: "fits_schedule img s"
    and len: "length (ni_threads img) = unat (n_thread_count (ni_header img))"
  shows "(\<exists>c'. native_step fs img c c') \<longleftrightarrow> nr_main c \<noteq> Ended"
proof
  let ?m = "length (ni_threads img)"
  note m = run_fitsD(3) [OF inv]
  show "\<exists>c'. native_step fs img c c'" if "nr_main c \<noteq> Ended"
  proof (cases "nr_main c")
    case (Creating i)
    show ?thesis
    proof (cases "i = ?m")
      case True
      then show ?thesis using Creating native_main_step [OF main_created] by blast
    next
      case False
      then have "i < ?m" using m Creating by simp
      then show ?thesis using Creating native_main_step [OF main_create] by blast
    qed
  next
    case AwaitReady
    show ?thesis
    proof (cases "\<exists>w. nr_ws c w = Entering")
      case True
      then show ?thesis using native_worker_step [OF worker_ready] by blast
    next
      case False
      then have "{w. w < ?m \<and> \<not> not_ready (nr_ws c w)} = {..<?m}"
        using m AwaitReady by (auto simp: not_ready_def waits_start_def)
      then have "nr_ready c = n_thread_count (ni_header img)"
        using run_fitsD(4) [OF inv] len by simp
      then show ?thesis using AwaitReady native_main_step [OF main_start] by blast
    qed
  next
    case (Joining i)
    show ?thesis
    proof (cases "i = ?m")
      case True
      then show ?thesis using Joining native_main_step [OF main_ended] by blast
    next
      case False
      then have i: "i < ?m" using m Joining by simp
      show ?thesis
      proof (cases "nr_ws c i = Returned")
        case True
        then show ?thesis using Joining i native_main_step [OF main_join] by blast
      next
        case False
        then show ?thesis
          using m Joining i by (intro worker_can_step [OF inv sched, of i]) simp_all
      qed
    qed
  next
    case Ended
    with that show ?thesis by simp
  qed
  show "nr_main c \<noteq> Ended" if ex: "\<exists>c'. native_step fs img c c'"
  proof
    assume e: "nr_main c = Ended"
    then have "nr_ws c w = Returned \<or> nr_ws c w = NotCreated" for w
      using m by (cases "w < ?m") simp_all
    moreover obtain c' where "native_step fs img c c'" using ex by blast
    ultimately show False
      using e by (auto elim!: native_step.cases native_main.cases native_worker_main.cases) (metis nworker_state.distinct)+
  qed
qed

subsection \<open>The number of steps\<close>

fun phase_steps :: "nphase \<Rightarrow> nat" where
  "phase_steps AtOp = 0"
| "phase_steps Counted = 1"
| "phase_steps Waited = 2"
| "phase_steps (Loaded p) = 3"
| "phase_steps (Got p) = 4"
| "phase_steps Stored = 5"

fun ws_weight :: "nat \<Rightarrow> nworker_state \<Rightarrow> nat" where
  "ws_weight m NotCreated = 6 * m + 4"
| "ws_weight m Entering = 6 * m + 3"
| "ws_weight m AtStart = 6 * m + 2"
| "ws_weight m (Running k ph) = 6 * (m - k) + 1 - phase_steps ph"
| "ws_weight m Returned = 0"

fun main_weight :: "nat \<Rightarrow> nmain_state \<Rightarrow> nat" where
  "main_weight n (Creating i) = 2 * n - i + 3"
| "main_weight n AwaitReady = n + 2"
| "main_weight n (Joining i) = n - i + 1"
| "main_weight n Ended = 0"

definition weight :: "native_image \<Rightarrow> nrun \<Rightarrow> nat" where
  "weight img c = (\<Sum>w<length (ni_threads img). ws_weight (ops_count img w) (nr_ws c w)) +
    main_weight (length (ni_threads img)) (nr_main c)"

lemma execute_operation_forward:
  "execute_operation fs n w op ph sh res sh' \<Longrightarrow>
    phase_steps ph \<le> 5 \<and> (\<forall>ph'. res = Some ph' \<longrightarrow> phase_steps ph < phase_steps ph' \<and> phase_steps ph' \<le> 5)"
  by (cases rule: execute_operation.cases) auto

lemma sum_update_less:
  assumes "w < (n::nat)" and "f w < (g w :: nat)" and "\<And>v. v \<noteq> w \<Longrightarrow> f v = g v"
  shows "(\<Sum>v<n. f v) < (\<Sum>v<n. g v)"
proof (rule sum_strict_mono_ex1)
  show "\<forall>v\<in>{..<n}. f v \<le> g v"
    using assms(2,3) by (metis less_imp_le order_refl)
  show "\<exists>v\<in>{..<n}. f v < g v"
    using assms(1,2) by blast
qed simp

lemma lower_weight:
  assumes "w < length (ni_threads img)" and "nr_ws c' = (nr_ws c)(w := u)"
    and "ws_weight (ops_count img w) u < ws_weight (ops_count img w) (nr_ws c w)"
    and "main_weight (length (ni_threads img)) (nr_main c') \<le> main_weight (length (ni_threads img)) (nr_main c)"
  shows "weight img c' < weight img c"
proof -
  have "(\<Sum>v<length (ni_threads img). ws_weight (ops_count img v) (nr_ws c' v)) <
      (\<Sum>v<length (ni_threads img). ws_weight (ops_count img v) (nr_ws c v))"
    by (rule sum_update_less [OF assms(1)]) (use assms(2,3) in auto)
  with assms(4) show ?thesis by (simp add: weight_def)
qed

lemma native_step_weight:
  assumes inv: "run_fits fs img s c" and step: "native_step fs img c c'"
  shows "weight img c' < weight img c"
  using step
proof cases
  case native_main_step
  note m = run_fitsD(3) [OF inv]
  from native_main_step show ?thesis
  proof cases
    case (main_create i)
    have "nr_ws c i = NotCreated" using m main_create by simp
    then show ?thesis
      using main_create by (intro lower_weight [where w = i and u = Entering]) simp_all
  next
    case main_created
    then show ?thesis by (simp add: weight_def)
  next
    case main_start
    then show ?thesis by (simp add: weight_def)
  next
    case (main_join i)
    then show ?thesis by (simp add: weight_def)
  next
    case main_ended
    then show ?thesis by (simp add: weight_def)
  qed
next
  case (native_worker_step w)
  have lt: "w < length (ni_threads img)" if "nr_ws c w \<noteq> NotCreated"
    by (rule created_below [OF run_fitsD(3) [OF inv] that])
  from native_worker_step show ?thesis
  proof cases
    case worker_ready
    then show ?thesis using lt by (intro lower_weight [where w = w and u = AtStart]) simp_all
  next
    case worker_go
    then show ?thesis using lt by (intro lower_weight [where w = w and u = "Running 0 AtOp"]) simp_all
  next
    case (worker_op k ph ph' sh)
    then show ?thesis
      using lt execute_operation_forward [OF worker_op(4)]
      by (intro lower_weight [where w = w and u = "Running k ph'"]) (auto simp: ops_count_def)
  next
    case (worker_op_done k ph sh)
    then show ?thesis
      using lt execute_operation_forward [OF worker_op_done(4)]
      by (intro lower_weight [where w = w and u = "Running (k + 1) AtOp"]) (auto simp: ops_count_def)
  next
    case (worker_return k)
    then show ?thesis
      using lt by (intro lower_weight [where w = w and u = Returned]) simp_all
  qed
qed

definition total_operations :: "native_image \<Rightarrow> nat" where
  "total_operations img = (\<Sum>w<length (ni_threads img). ops_count img w)"

lemma initial_weight: "weight img native_initial = 6 * total_operations img + 6 * length (ni_threads img) + 3"
  by (simp add: weight_def native_initial_def total_operations_def sum.distrib sum_distrib_left)

lemma native_steps_weight:
  assumes "fits_schedule img s" and "(native_step fs img ^^ k) native_initial c"
  shows "k + weight img c \<le> weight img native_initial"
  using assms(2)
proof (induction k arbitrary: c)
  case (Suc k)
  then obtain c1 where c1: "(native_step fs img ^^ k) native_initial c1" "native_step fs img c1 c" by auto
  have "run_fits fs img s c1"
    by (rule run_fits_reach [OF assms(1) relpowp_imp_rtranclp [OF c1(1)]])
  from native_step_weight [OF this c1(2)] Suc.IH [OF c1(1)] show ?case by simp
qed simp

lemma native_run_spec:
  assumes load: "load_embedded_image file = Some img" and sched: "fits_schedule img s"
    and run: "(native_step fs img ^^ k) native_initial c"
  shows "k \<le> 6 * total_operations img + 6 * length (ni_threads img) + 3"
    and "(\<exists>c'. native_step fs img c c') \<longleftrightarrow> nr_main c \<noteq> Ended"
    and "\<not> n_misuse (nr_shared c)"
    and "nr_main c = Ended \<Longrightarrow> w < length (ni_threads img) \<Longrightarrow> f < FUNC_COUNT \<Longrightarrow>
      n_counts (nr_shared c) w ! f = function_total f (thread_ops img w)"
    and "nr_main c = Ended \<Longrightarrow> w < length (ni_threads img) \<Longrightarrow> calls_match fs (thread_ops img w) (n_calls (nr_shared c) w)"
proof -
  have inv: "run_fits fs img s c"
    by (rule run_fits_reach [OF sched relpowp_imp_rtranclp [OF run]])
  show "k \<le> 6 * total_operations img + 6 * length (ni_threads img) + 3"
    using native_steps_weight [OF sched run] by (simp add: initial_weight)
  show "(\<exists>c'. native_step fs img c c') \<longleftrightarrow> nr_main c \<noteq> Ended"
    by (rule native_progress [OF inv sched native_image_spec(4) [OF load]])
  show "\<not> n_misuse (nr_shared c)"
    using native_invD(3) [OF run_fitsD(1) [OF inv]] by (simp add: pointers_fit_def)
  assume "nr_main c = Ended" and w: "w < length (ni_threads img)"
  then have "nr_ws c w = Returned"
    using run_fitsD(3) [OF inv] by simp
  then have p: "npos img c w = ops_count img w" "nph c w = AtOp"
    by (simp_all add: npos_def nph_def)
  have "take (ops_count img w) (ops_of s w) = thread_ops img w"
    unfolding fits_scheduleD(3) [OF sched w] by (simp add: thread_ops_def ops_count_def)
  then have log: "log_fits fs (thread_ops img w) (ops_count img w) AtOp (n_counts (nr_shared c) w) (n_calls (nr_shared c) w)"
    using run_fitsD(2) [OF inv, of w] unfolding p fits_scheduleD(3) [OF sched w] by simp
  moreover have "take (ops_count img w) (thread_ops img w) = thread_ops img w"
    by (simp add: thread_ops_def ops_count_def)
  ultimately show "f < FUNC_COUNT \<Longrightarrow> n_counts (nr_shared c) w ! f = function_total f (thread_ops img w)"
    "calls_match fs (thread_ops img w) (n_calls (nr_shared c) w)"
    by (simp_all add: log_fits_def)
qed

lemma native_run_ends:
  assumes load: "load_embedded_image file = Some img" and sched: "fits_schedule img s"
  shows "\<exists>k c. (native_step fs img ^^ k) native_initial c \<and> nr_main c = Ended"
proof (rule ccontr)
  assume no: "\<not> ?thesis"
  have "\<exists>c. (native_step fs img ^^ k) native_initial c" for k
  proof (induction k)
    case (Suc k)
    then obtain c where c: "(native_step fs img ^^ k) native_initial c" by blast
    with no have "nr_main c \<noteq> Ended" by blast
    then obtain c' where "native_step fs img c c'"
      using native_run_spec(2) [OF load sched c] by blast
    with c show ?case by auto
  qed auto
  then obtain c where "(native_step fs img ^^ Suc (6 * total_operations img + 6 * length (ni_threads img) + 3)) native_initial c"
    by blast
  from native_run_spec(1) [OF load sched this] show False by simp
qed

end
