(* ===== verification/TraceToNative.thy ===== *)
theory TraceToNative
  imports NativeReplay
begin

text \<open>
  \<open>transform_trace\<close> of \<open>trace_to_native.py\<close>: the pass over the records of a trace that matches each free
  and \<open>realloc\<close> with the allocation it belongs to, and gives every object a slot and every change of
  it a generation. A slot that is free again is used by the thread that freed it.

  The lemmas show that the operations, in the order of the trace, are a schedule as \<open>NativeReplay\<close>
  wants it, whatever the trace holds.

  Not in the model: the counts that are only printed.
\<close>

subsection \<open>The pass\<close>

record gen_thread =
  gt_tid :: u64
  gt_count :: int
  gt_cpu :: u64

text \<open>The integers of the program are unbounded. \<open>tr_live\<close> gives slot, generation and publishing thread of
  an address; \<open>tr_spool\<close> is the spool file.\<close>

record transform =
  tr_live :: "u64 \<Rightarrow> (int \<times> int \<times> u64) option"
  tr_threads :: "gen_thread list"
  tr_next_slot :: int
  tr_available :: "u64 \<Rightarrow> (int \<times> int) list"
  tr_flags :: u32
  tr_spool :: "(u64 \<times> native_op) list"

record transform_options =
  minimum_timestamp :: int
  timestamp_multiplier :: int
  quantum_ns :: int
  allow_unknown :: bool

definition SLOT_NONE :: int where "SLOT_NONE = 0xFFFFFFFF"

definition pack_op :: "int \<Rightarrow> u64 \<Rightarrow> int \<Rightarrow> int \<Rightarrow> int \<Rightarrow> u64 \<Rightarrow> u64 \<Rightarrow> u8 \<Rightarrow> u8 \<Rightarrow> native_op" where
  "pack_op target sz slot wait out aux f kind flags =
    \<lparr>target_ns = of_int target, nop_size = sz, nop_slot = of_int slot, wait_generation = of_int wait,
     output_generation = of_int out, nop_aux = (if 0xFFFFFFFF < aux then 0 else ucast aux),
     nop_function = ucast f, nop_kind = kind, nop_flags = flags\<rparr>"

text \<open>\<open>None\<close>, here and below: a \<open>TraceError\<close>, which ends the program. The result of \<open>acquire_slot\<close> is the
  slot, the generation to wait for and the one to publish.\<close>

definition acquire_slot :: "u64 \<Rightarrow> transform \<Rightarrow> ((int \<times> int \<times> int) \<times> transform) option" where
  "acquire_slot tid st =
    (let available = tr_available st tid
     in if available \<noteq> [] then
          let (slot, completed) = last available;
              st = st\<lparr>tr_available := (tr_available st)(tid := butlast available)\<rparr>
          in if completed = 0xFFFFFFFF then None else Some ((slot, completed, completed + 1), st)
        else if SLOT_NONE \<le> tr_next_slot st then None
        else Some ((tr_next_slot st, 0, 1), st\<lparr>tr_next_slot := tr_next_slot st + 1\<rparr>))"

definition release_slot :: "u64 \<Rightarrow> int \<Rightarrow> int \<Rightarrow> transform \<Rightarrow> transform" where
  "release_slot tid slot generation st =
    st\<lparr>tr_available := (tr_available st)(tid := tr_available st tid @ [(slot, generation)])\<rparr>"

definition remember_live :: "u64 \<Rightarrow> int \<times> int \<times> u64 \<Rightarrow> transform \<Rightarrow> transform option" where
  "remember_live addr v st =
    (if tr_live st addr \<noteq> None then None else Some (st\<lparr>tr_live := (tr_live st)(addr \<mapsto> v)\<rparr>))"

definition pop_live :: "u64 \<Rightarrow> transform \<Rightarrow> transform" where
  "pop_live addr st = st\<lparr>tr_live := (tr_live st)(addr := None)\<rparr>"

text \<open>The slot of the result of an allocation, if it has one.\<close>

definition result_slot :: "u64 \<Rightarrow> u64 \<Rightarrow> transform \<Rightarrow> ((int \<times> int \<times> int) \<times> transform) option" where
  "result_slot tid result st =
    (if result = 0 then Some ((SLOT_NONE, 0, 0), st)
     else case acquire_slot tid st of
       None \<Rightarrow> None
     | Some ((slot, wait, out), st) \<Rightarrow>
         map_option (\<lambda>st. ((slot, wait, out), st)) (remember_live result (slot, out, tid) st))"

definition write_op :: "u64 \<Rightarrow> native_op \<Rightarrow> transform \<Rightarrow> transform" where
  "write_op tid op st = st\<lparr>tr_spool := tr_spool st @ [(tid, op)],
    tr_threads := map (\<lambda>t. if gt_tid t = tid then t\<lparr>gt_count := gt_count t + 1\<rparr> else t) (tr_threads st)\<rparr>"

definition note_thread :: "u64 \<Rightarrow> u64 \<Rightarrow> transform \<Rightarrow> transform" where
  "note_thread tid cpu st =
    (if tid \<in> gt_tid ` set (tr_threads st) then st
     else st\<lparr>tr_threads := tr_threads st @ [\<lparr>gt_tid = tid, gt_count = 0, gt_cpu = cpu\<rparr>]\<rparr>)"

definition normalized_target :: "transform_options \<Rightarrow> u64 \<Rightarrow> int option" where
  "normalized_target opts ts =
    (let t = max (uint ts - minimum_timestamp opts) 0
     in if 0xFFFFFFFFFFFFFFFF div timestamp_multiplier opts < t then None
        else let t = t * timestamp_multiplier opts
             in Some (if quantum_ns opts \<noteq> 0 then t div quantum_ns opts * quantum_ns opts else t))"

definition transform_alloc :: "int \<Rightarrow> u64 \<Rightarrow> rply_entry \<Rightarrow> transform \<Rightarrow> transform option" where
  "transform_alloc target f e st =
    (case result_slot (thread_id e) (entry_result e) st of
       None \<Rightarrow> None
     | Some ((slot, wait, out), st) \<Rightarrow>
         Some (write_op (thread_id e)
           (pack_op target (entry_size e) slot wait out
             (if f \<in> {2, 5, 6, 8} then entry_address e else 0) f OP_ALLOC (if entry_result e \<noteq> 0 then 1 else 0)) st))"

definition transform_free :: "transform_options \<Rightarrow> int \<Rightarrow> u64 \<Rightarrow> rply_entry \<Rightarrow> transform \<Rightarrow> transform option" where
  "transform_free opts target f e st =
    (let tid = thread_id e
     in case tr_live st (entry_address e) of
       None \<Rightarrow>
         if \<not> allow_unknown opts then None
         else Some (write_op tid (pack_op target (entry_size e) SLOT_NONE 0 0 0 f OP_UNKNOWN_FREE 0)
           (st\<lparr>tr_flags := tr_flags st OR 1\<rparr>))
     | Some (slot, generation, owner) \<Rightarrow>
         if generation = 0xFFFFFFFF then None
         else Some (write_op tid (pack_op target (entry_size e) slot generation (generation + 1) 0 f OP_FREE 0)
           (release_slot tid slot (generation + 1) (pop_live (entry_address e) st))))"

definition transform_realloc :: "transform_options \<Rightarrow> int \<Rightarrow> u64 \<Rightarrow> rply_entry \<Rightarrow> transform \<Rightarrow> transform option" where
  "transform_realloc opts target f e st =
    (let tid = thread_id e; flags = (if entry_result e \<noteq> 0 then 1 else 0);
         as_null = (\<lambda>st. case result_slot tid (entry_result e) st of
             None \<Rightarrow> None
           | Some ((slot, wait, out), st) \<Rightarrow>
               Some (write_op tid (pack_op target (entry_size e) slot wait out 0 f OP_REALLOC_NULL flags) st))
     in if entry_address e = 0 then as_null st
        else case tr_live st (entry_address e) of
          None \<Rightarrow> if \<not> allow_unknown opts then None else as_null (st\<lparr>tr_flags := tr_flags st OR 1\<rparr>)
        | Some (slot, generation, owner) \<Rightarrow>
            let out = generation + 1; st = pop_live (entry_address e) st
            in if 0xFFFFFFFF < out then None
               else map_option (write_op tid (pack_op target (entry_size e) slot generation out 0 f OP_REALLOC flags))
                 (if entry_result e \<noteq> 0 then remember_live (entry_result e) (slot, out, tid) st
                  else if entry_size e \<noteq> 0
                  then Some (st\<lparr>tr_live := (tr_live st)(entry_address e \<mapsto> (slot, out, tid))\<rparr>)
                  else Some (release_slot tid slot out st)))"

definition transform_record :: "transform_options \<Rightarrow> rply_entry \<Rightarrow> transform \<Rightarrow> transform option" where
  "transform_record opts e st =
    (let f = drop_bit 32 (func_and_cpu e); cpu = func_and_cpu e AND 0xFFFFFFFF
     in if 10 \<le> f then if 100 \<le> f \<and> f \<le> 104 then Some st else None
        else
          let st = note_thread (thread_id e) cpu st
          in case normalized_target opts (timestamp e) of
            None \<Rightarrow> None
          | Some target \<Rightarrow>
              if f = 1 \<or> f = 4 then transform_free opts target f e st
              else if f = 3 then transform_realloc opts target f e st
              else transform_alloc target f e st)"

fun transform_records :: "transform_options \<Rightarrow> rply_entry list \<Rightarrow> transform \<Rightarrow> transform option" where
  "transform_records opts [] st = Some st"
| "transform_records opts (e # es) st =
    (case transform_record opts e st of None \<Rightarrow> None | Some st \<Rightarrow> transform_records opts es st)"

definition transform_trace :: "transform_options \<Rightarrow> rply_entry list \<Rightarrow> transform option" where
  "transform_trace opts es = transform_records opts es
    \<lparr>tr_live = (\<lambda>_. None), tr_threads = [], tr_next_slot = 0, tr_available = (\<lambda>_. []), tr_flags = 0, tr_spool = []\<rparr>"

subsection \<open>Who holds which slot\<close>

lemma uint_u32: "0 \<le> a \<Longrightarrow> a < 2 ^ 32 \<Longrightarrow> uint (of_int a :: u32) = a"
  by (simp add: unsigned_of_int take_bit_int_eq_self)

lemma of_int_u32_inj:
  assumes "0 \<le> a" "a < 2 ^ 32" "0 \<le> b" "b < 2 ^ 32"
  shows "(of_int a :: u32) = of_int b \<longleftrightarrow> a = b"
  using uint_u32 [OF assms(1,2)] uint_u32 [OF assms(3,4)] by metis

lemma of_int_u32_less: "0 \<le> a \<Longrightarrow> a < b \<Longrightarrow> b < 2 ^ 32 \<Longrightarrow> (of_int a :: u32) < of_int b"
  by (simp add: word_less_def uint_u32)

text \<open>Each slot below \<open>next\<close> is held at most once, with its present generation; the others are unused.\<close>

definition slots_ok :: "('p \<Rightarrow> (int \<times> int) option) \<Rightarrow> int \<Rightarrow> (u32 \<Rightarrow> u32) \<Rightarrow> bool" where
  "slots_ok H n gens \<longleftrightarrow> 0 \<le> n \<and> n \<le> SLOT_NONE \<and>
    (\<forall>h \<sigma> g. H h = Some (\<sigma>, g) \<longrightarrow> 0 \<le> \<sigma> \<and> \<sigma> < n \<and> 0 \<le> g \<and> g \<le> 0xFFFFFFFF \<and> gens (of_int \<sigma>) = of_int g) \<and>
    (\<forall>h h' \<sigma> g g'. H h = Some (\<sigma>, g) \<longrightarrow> H h' = Some (\<sigma>, g') \<longrightarrow> h = h') \<and>
    (\<forall>\<sigma>. n \<le> \<sigma> \<longrightarrow> \<sigma> < SLOT_NONE \<longrightarrow> gens (of_int \<sigma>) = 0)"

lemma slots_okD:
  assumes "slots_ok H n gens"
  shows "0 \<le> n" "n \<le> SLOT_NONE"
    and "H h = Some (\<sigma>, g) \<Longrightarrow> 0 \<le> \<sigma> \<and> \<sigma> < n \<and> 0 \<le> g \<and> g \<le> 0xFFFFFFFF \<and> gens (of_int \<sigma>) = of_int g"
    and "H h = Some (\<sigma>, g) \<Longrightarrow> H h' = Some (\<sigma>, g') \<Longrightarrow> h = h'"
    and "n \<le> \<sigma> \<Longrightarrow> \<sigma> < SLOT_NONE \<Longrightarrow> gens (of_int \<sigma>) = 0"
  using assms unfolding slots_ok_def by blast+

lemma slots_ok_I:
  assumes "0 \<le> n" "n \<le> SLOT_NONE"
    and "\<And>h \<sigma> g. H h = Some (\<sigma>, g) \<Longrightarrow> 0 \<le> \<sigma> \<and> \<sigma> < n \<and> 0 \<le> g \<and> g \<le> 0xFFFFFFFF \<and> gens (of_int \<sigma>) = of_int g"
    and "\<And>h h' \<sigma> g g'. H h = Some (\<sigma>, g) \<Longrightarrow> H h' = Some (\<sigma>, g') \<Longrightarrow> h = h'"
    and "\<And>\<sigma>. n \<le> \<sigma> \<Longrightarrow> \<sigma> < SLOT_NONE \<Longrightarrow> gens (of_int \<sigma>) = 0"
  shows "slots_ok H n gens"
  using assms unfolding slots_ok_def by blast

text \<open>The holder \<open>h\<close> of a slot passes it, with the next generation, to \<open>h'\<close>.\<close>

lemma slots_ok_pass:
  assumes ok: "slots_ok H n gens" and h: "H h = Some (\<sigma>, g)" and g: "g < 0xFFFFFFFF"
  shows "slots_ok (H(h := None, h' \<mapsto> (\<sigma>, g + 1))) n (gens(of_int \<sigma> := of_int (g + 1)))"
proof (rule slots_ok_I)
  note d = slots_okD [OF ok] and s = slots_okD(3) [OF ok h]
  let ?H = "H(h := None, h' \<mapsto> (\<sigma>, g + 1))"
  have n: "n < 2 ^ 32" using d(2) by (simp add: SLOT_NONE_def)
  have other: "\<tau> \<noteq> \<sigma>" if "H t = Some (\<tau>, g')" "t \<noteq> h" for t \<tau> g'
    using d(4) [OF h] that by blast
  have neq: "(of_int \<tau> :: u32) \<noteq> of_int \<sigma>" if "0 \<le> \<tau>" "\<tau> < n \<or> \<tau> < SLOT_NONE" "\<tau> \<noteq> \<sigma>" for \<tau>
    using of_int_u32_inj [of \<tau> \<sigma>] that s n by (auto simp: SLOT_NONE_def)
  show "0 \<le> n" "n \<le> SLOT_NONE" using d by blast+
  show "0 \<le> \<tau> \<and> \<tau> < n \<and> 0 \<le> g' \<and> g' \<le> 0xFFFFFFFF \<and> (gens(of_int \<sigma> := of_int (g + 1))) (of_int \<tau>) = of_int g'"
    if t: "?H t = Some (\<tau>, g')" for t \<tau> g'
  proof (cases "t = h'")
    case True
    then show ?thesis using t s g by simp
  next
    case False
    then have H: "H t = Some (\<tau>, g')" "t \<noteq> h" using t by (auto split: if_splits)
    then show ?thesis
      using d(3) [OF H(1)] other [OF H] neq by simp
  qed
  show "t = t'" if "?H t = Some (\<tau>, g1)" "?H t' = Some (\<tau>, g2)" for t t' \<tau> g1 g2
    using that other d(4) by (auto split: if_splits)
  show "(gens(of_int \<sigma> := of_int (g + 1))) (of_int \<tau>) = 0" if "n \<le> \<tau>" "\<tau> < SLOT_NONE" for \<tau>
    using that d(1,5) neq [of \<tau>] s by auto
qed

lemma slots_ok_fresh:
  assumes ok: "slots_ok H n gens" and n: "n < SLOT_NONE"
  shows "slots_ok (H(h' \<mapsto> (n, 1))) (n + 1) (gens(of_int n := 1))"
proof (rule slots_ok_I)
  note d = slots_okD [OF ok]
  let ?H = "H(h' \<mapsto> (n, 1))"
  have neq: "(of_int \<tau> :: u32) \<noteq> of_int n" if "0 \<le> \<tau>" "\<tau> < SLOT_NONE" "\<tau> \<noteq> n" for \<tau>
    using of_int_u32_inj [of \<tau> n] that d(1) n by (auto simp: SLOT_NONE_def)
  show "0 \<le> n + 1" "n + 1 \<le> SLOT_NONE" using d(1) n by simp_all
  show "0 \<le> \<tau> \<and> \<tau> < n + 1 \<and> 0 \<le> g' \<and> g' \<le> 0xFFFFFFFF \<and> (gens(of_int n := 1)) (of_int \<tau>) = of_int g'"
    if t: "?H t = Some (\<tau>, g')" for t \<tau> g'
  proof (cases "t = h'")
    case True
    then show ?thesis using t d(1) by simp
  next
    case False
    then have "H t = Some (\<tau>, g')" using t by simp
    then show ?thesis
      using d(3) n neq [of \<tau>] by force
  qed
  show "t = t'" if "?H t = Some (\<tau>, g1)" "?H t' = Some (\<tau>, g2)" for t t' \<tau> g1 g2
    using that d(3,4) by (auto split: if_splits)
  show "(gens(of_int n := 1)) (of_int \<tau>) = 0" if "n + 1 \<le> \<tau>" "\<tau> < SLOT_NONE" for \<tau>
    using that d(1,5) neq [of \<tau>] by simp
qed

subsection \<open>The chain of the operations\<close>

definition after_op :: "native_op \<Rightarrow> (u32 \<Rightarrow> u32) \<Rightarrow> u32 \<Rightarrow> u32" where
  "after_op op gens = (if on_slot op then gens(nop_slot op := output_generation op) else gens)"

definition after :: "('t \<times> native_op) list \<Rightarrow> u32 \<Rightarrow> u32" where
  "after s = foldl (\<lambda>gens x. after_op (snd x) gens) (\<lambda>_. 0) s"

lemma after_snoc [simp]: "after (s @ [x]) = after_op (snd x) (after s)"
  by (simp add: after_def)

lemma chained_snoc_from:
  "chained n gens (s @ [x]) \<longleftrightarrow> chained n gens s \<and> well_formed n (snd x) \<and>
    (on_slot (snd x) \<longrightarrow> wait_generation (snd x) = foldl (\<lambda>gens x. after_op (snd x) gens) gens s (nop_slot (snd x)))"
  by (induction s arbitrary: gens) (auto simp: after_op_def)

lemma chained_mono: "chained n gens s \<Longrightarrow> n \<le> n' \<Longrightarrow> chained n' gens s"
  by (induction s arbitrary: gens) (auto simp: well_formed_def split: if_splits)

lemma chained_snd: "map snd s = map snd s' \<Longrightarrow> chained n gens s = chained n gens s'"
proof (induction s arbitrary: gens s')
  case (Cons x s)
  then obtain x' t where "s' = x' # t" "snd x' = snd x" "map snd s = map snd t"
    by (cases s') auto
  moreover from this(3) have "chained n g s = chained n g t" for g by (rule Cons.IH)
  ultimately show ?case by simp
qed simp

abbreviation untagged :: "('t \<times> native_op) list \<Rightarrow> (nat \<times> native_op) list" where
  "untagged s \<equiv> map (\<lambda>x. (0, snd x)) s"

definition chain :: "int \<Rightarrow> ('t \<times> native_op) list \<Rightarrow> bool" where
  "chain n s \<longleftrightarrow> chained (of_int n) (\<lambda>_. 0) (untagged s)"

lemma after_untagged: "foldl (\<lambda>gens x. after_op (snd x) gens) gens (untagged s) = foldl (\<lambda>gens x. after_op (snd x) gens) gens s"
  by (induction s arbitrary: gens) simp_all

lemma chain_snoc:
  "chain n (s @ [(t, op)]) \<longleftrightarrow> chain n s \<and> well_formed (of_int n) op \<and>
    (on_slot op \<longrightarrow> wait_generation op = after s (nop_slot op))"
  by (simp add: chain_def chained_snoc_from after_def after_untagged)

lemma chain_more: "chain n s \<Longrightarrow> 0 \<le> n \<Longrightarrow> n < SLOT_NONE \<Longrightarrow> chain (n + 1) s"
  unfolding chain_def using of_int_u32_less [of n "n + 1"]
  by (auto simp: SLOT_NONE_def intro: chained_mono less_imp_le)

subsection \<open>The invariant of the pass\<close>

datatype holder = AtAddress u64 | OnStack u64 nat

fun hold :: "transform \<Rightarrow> holder \<Rightarrow> (int \<times> int) option" where
  "hold st (AtAddress a) = map_option (\<lambda>(slot, generation, owner). (slot, generation)) (tr_live st a)"
| "hold st (OnStack t i) = (if i < length (tr_available st t) then Some (tr_available st t ! i) else None)"

definition threads_ok :: "gen_thread list \<Rightarrow> (u64 \<times> native_op) list \<Rightarrow> bool" where
  "threads_ok ts s \<longleftrightarrow> distinct (map gt_tid ts) \<and> fst ` set s \<subseteq> gt_tid ` set ts \<and>
    (\<forall>t\<in>set ts. gt_count t = int (length (filter (\<lambda>x. fst x = gt_tid t) s)))"

definition trans_inv :: "transform \<Rightarrow> bool" where
  "trans_inv st \<longleftrightarrow> slots_ok (hold st) (tr_next_slot st) (after (tr_spool st)) \<and>
    chain (tr_next_slot st) (tr_spool st) \<and> threads_ok (tr_threads st) (tr_spool st)"

text \<open>Between the choice of a slot and \<open>write_op\<close>: the operation that follows moves the slot from generation
  \<open>wait\<close> to \<open>out\<close>.\<close>

definition pending :: "int \<Rightarrow> int \<Rightarrow> int \<Rightarrow> transform \<Rightarrow> bool" where
  "pending slot wait out st \<longleftrightarrow> 0 \<le> slot \<and> slot < tr_next_slot st \<and> 0 \<le> wait \<and> wait < 0xFFFFFFFF \<and> out = wait + 1 \<and>
    after (tr_spool st) (of_int slot) = of_int wait \<and>
    slots_ok (hold st) (tr_next_slot st) ((after (tr_spool st))(of_int slot := of_int out)) \<and>
    chain (tr_next_slot st) (tr_spool st) \<and> threads_ok (tr_threads st) (tr_spool st)"

lemma write_op_simps [simp]:
  "hold (write_op tid op st) = hold st" "tr_next_slot (write_op tid op st) = tr_next_slot st"
  "tr_spool (write_op tid op st) = tr_spool st @ [(tid, op)]"
proof -
  have "hold (write_op tid op st) h = hold st h" for h
    by (cases h) (simp_all add: write_op_def)
  then show "hold (write_op tid op st) = hold st" ..
qed (simp_all add: write_op_def)

lemma write_op_threads:
  assumes "threads_ok (tr_threads st) (tr_spool st)" and "tid \<in> gt_tid ` set (tr_threads st)"
  shows "threads_ok (tr_threads (write_op tid op st)) (tr_spool (write_op tid op st))"
    and "gt_tid ` set (tr_threads (write_op tid op st)) = gt_tid ` set (tr_threads st)"
proof -
  have t: "gt_tid (if gt_tid t = tid then t\<lparr>gt_count := gt_count t + 1\<rparr> else t) = gt_tid t" for t by simp
  then have m: "map gt_tid (tr_threads (write_op tid op st)) = map gt_tid (tr_threads st)"
    by (simp add: write_op_def)
  then show i: "gt_tid ` set (tr_threads (write_op tid op st)) = gt_tid ` set (tr_threads st)"
    by (metis list.set_map)
  show "threads_ok (tr_threads (write_op tid op st)) (tr_spool (write_op tid op st))"
    unfolding threads_ok_def m i
  proof (intro conjI)
    show "distinct (map gt_tid (tr_threads st))" using assms(1) by (simp add: threads_ok_def)
    show "fst ` set (tr_spool (write_op tid op st)) \<subseteq> gt_tid ` set (tr_threads st)"
      using assms by (simp add: threads_ok_def write_op_def)
    show "\<forall>t\<in>set (tr_threads (write_op tid op st)).
        gt_count t = int (length (filter (\<lambda>x. fst x = gt_tid t) (tr_spool (write_op tid op st))))"
      using assms(1) by (auto simp: threads_ok_def write_op_def)
  qed
qed

lemma pack_op_fields [simp]:
  "nop_slot (pack_op target sz slot wait out aux f kind flags) = of_int slot"
  "wait_generation (pack_op target sz slot wait out aux f kind flags) = of_int wait"
  "output_generation (pack_op target sz slot wait out aux f kind flags) = of_int out"
  "nop_kind (pack_op target sz slot wait out aux f kind flags) = kind"
  "nop_function (pack_op target sz slot wait out aux f kind flags) = ucast f"
  "nop_size (pack_op target sz slot wait out aux f kind flags) = sz"
  by (simp_all add: pack_op_def)

lemma small_function:
  assumes "f < (10 :: u64)"
  shows "unat (ucast f :: u16) < FUNC_COUNT"
proof -
  have "unat f < 10" using assms by (simp add: word_less_nat_alt)
  then show ?thesis by (simp add: FUNC_COUNT_def unsigned_ucast_eq take_bit_nat_eq_self)
qed

lemma no_slot: "(of_int SLOT_NONE :: u32) = NATIVE_SLOT_NONE"
  by (simp add: SLOT_NONE_def NATIVE_SLOT_NONE_def)

text \<open>An operation without a slot, and one with the slot that is pending.\<close>

lemma write_plain:
  assumes inv: "trans_inv st" and tid: "tid \<in> gt_tid ` set (tr_threads st)" and "f < 10"
    and "kind = OP_ALLOC \<or> kind = OP_REALLOC_NULL \<or> kind = OP_UNKNOWN_FREE"
  shows "trans_inv (write_op tid (pack_op target sz SLOT_NONE 0 0 aux f kind flags) st)"
proof -
  let ?op = "pack_op target sz SLOT_NONE 0 0 aux f kind flags"
  have off: "\<not> on_slot ?op" by (simp add: on_slot_def no_slot)
  moreover have "well_formed (of_int (tr_next_slot st)) ?op"
    using assms(3,4) off by (auto simp: well_formed_def small_function op_kind_defs)
  ultimately show ?thesis
    using inv write_op_threads(1) [OF _ tid] by (simp add: trans_inv_def chain_snoc after_op_def)
qed

lemma write_pending:
  assumes p: "pending slot wait out st" and tid: "tid \<in> gt_tid ` set (tr_threads st)" and "f < 10"
    and "kind \<le> OP_REALLOC_NULL"
  shows "trans_inv (write_op tid (pack_op target sz slot wait out aux f kind flags) st)"
proof -
  let ?op = "pack_op target sz slot wait out aux f kind flags"
  have d: "0 \<le> slot" "slot < tr_next_slot st" "0 \<le> wait" "wait < 0xFFFFFFFF" "out = wait + 1"
    "after (tr_spool st) (of_int slot) = of_int wait"
    "slots_ok (hold st) (tr_next_slot st) ((after (tr_spool st))(of_int slot := of_int out))"
    "chain (tr_next_slot st) (tr_spool st)" "threads_ok (tr_threads st) (tr_spool st)"
    using p unfolding pending_def by blast+
  have n: "tr_next_slot st < 2 ^ 32" using slots_okD(2) [OF d(7)] by (simp add: SLOT_NONE_def)
  have "(of_int slot :: u32) \<noteq> NATIVE_SLOT_NONE" "(of_int wait :: u32) \<noteq> UINT32_MAX"
    using of_int_u32_inj [of slot SLOT_NONE] of_int_u32_inj [of wait "0xFFFFFFFF"] d(1-4) n slots_okD(2) [OF d(7)]
    by (auto simp: no_slot [symmetric] SLOT_NONE_def)
  moreover have "(of_int slot :: u32) < of_int (tr_next_slot st)"
    by (rule of_int_u32_less) (use d n in simp_all)
  ultimately have on: "on_slot ?op" "well_formed (of_int (tr_next_slot st)) ?op"
    using assms(3,4) d(5) by (simp_all add: on_slot_def well_formed_def small_function)
  then show ?thesis
    using d(6-9) write_op_threads(1) [OF d(9) tid] by (simp add: trans_inv_def chain_snoc after_op_def)
qed


lemma hold_pop_live: "hold (pop_live a st) = (hold st)(AtAddress a := None)"
proof
  show "hold (pop_live a st) h = ((hold st)(AtAddress a := None)) h" for h
    by (cases h) (simp_all add: pop_live_def)
qed

lemma hold_live: "hold (st\<lparr>tr_live := (tr_live st)(a \<mapsto> (slot, g, t))\<rparr>) = (hold st)(AtAddress a \<mapsto> (slot, g))"
proof
  show "hold (st\<lparr>tr_live := (tr_live st)(a \<mapsto> (slot, g, t))\<rparr>) h = ((hold st)(AtAddress a \<mapsto> (slot, g))) h" for h
    by (cases h) simp_all
qed

lemma hold_release: "hold (release_slot t slot g st) = (hold st)(OnStack t (length (tr_available st t)) \<mapsto> (slot, g))"
proof
  show "hold (release_slot t slot g st) h = ((hold st)(OnStack t (length (tr_available st t)) \<mapsto> (slot, g))) h" for h
    by (cases h) (auto simp: release_slot_def nth_append less_Suc_eq)
qed

lemma hold_pop_stack:
  assumes "tr_available st t \<noteq> []"
  shows "hold (st\<lparr>tr_available := (tr_available st)(t := butlast (tr_available st t))\<rparr>) =
    (hold st)(OnStack t (length (tr_available st t) - 1) := None)"
proof
  show "hold (st\<lparr>tr_available := (tr_available st)(t := butlast (tr_available st t))\<rparr>) h =
      ((hold st)(OnStack t (length (tr_available st t) - 1) := None)) h" for h
    using assms by (cases h) (auto simp: nth_butlast)
qed

lemma hold_frame [simp]:
  "hold (st\<lparr>tr_flags := x\<rparr>) = hold st" "hold (st\<lparr>tr_threads := ts\<rparr>) = hold st" "hold (st\<lparr>tr_next_slot := n\<rparr>) = hold st"
proof -
  have "hold (st\<lparr>tr_flags := x\<rparr>) h = hold st h" "hold (st\<lparr>tr_threads := ts\<rparr>) h = hold st h"
    "hold (st\<lparr>tr_next_slot := n\<rparr>) h = hold st h" for h by (cases h; simp)+
  then show "hold (st\<lparr>tr_flags := x\<rparr>) = hold st" "hold (st\<lparr>tr_threads := ts\<rparr>) = hold st"
    "hold (st\<lparr>tr_next_slot := n\<rparr>) = hold st" by blast+
qed

text \<open>What stays the same until \<open>write_op\<close>.\<close>

definition same_log :: "transform \<Rightarrow> transform \<Rightarrow> bool" where
  "same_log st st' \<longleftrightarrow> tr_spool st' = tr_spool st \<and> tr_threads st' = tr_threads st"

lemma remember_liveD:
  assumes "remember_live a (slot, g, t) st = Some st'"
  shows "hold st' = (hold st)(AtAddress a \<mapsto> (slot, g))" and "same_log st st'" and "tr_next_slot st' = tr_next_slot st"
  using assms hold_live by (auto simp: remember_live_def same_log_def split: if_splits)

lemma pending_passed:
  assumes inv: "trans_inv st" and h: "hold st h = Some (slot, wait)" and "wait < 0xFFFFFFFF"
    and "hold st' = (hold st)(h := None, h' \<mapsto> (slot, wait + 1))" and "same_log st st'"
    and "tr_next_slot st' = tr_next_slot st"
  shows "pending slot wait (wait + 1) st'"
proof -
  have ok: "slots_ok (hold st) (tr_next_slot st) (after (tr_spool st))" "chain (tr_next_slot st) (tr_spool st)"
    "threads_ok (tr_threads st) (tr_spool st)"
    using inv by (simp_all add: trans_inv_def)
  show ?thesis
    using slots_ok_pass [OF ok(1) h assms(3), of h'] slots_okD(3) [OF ok(1) h] ok(2,3) assms(3-6)
    by (simp add: pending_def same_log_def)
qed

lemma result_slot_spec:
  assumes inv: "trans_inv st" and step: "result_slot t r st = Some ((slot, wait, out), st')"
  shows "same_log st st'"
    and "slot = SLOT_NONE \<and> wait = 0 \<and> out = 0 \<and> st' = st \<or> pending slot wait out st'"
proof -
  have ok: "slots_ok (hold st) (tr_next_slot st) (after (tr_spool st))" "chain (tr_next_slot st) (tr_spool st)"
    "threads_ok (tr_threads st) (tr_spool st)"
    using inv by (simp_all add: trans_inv_def)
  have "same_log st st' \<and> (slot = SLOT_NONE \<and> wait = 0 \<and> out = 0 \<and> st' = st \<or> pending slot wait out st')"
  proof (cases "r = 0")
    case True
    then show ?thesis using step by (simp add: result_slot_def same_log_def)
  next
    case r: False
    obtain st1 where a: "acquire_slot t st = Some ((slot, wait, out), st1)"
      and rem: "remember_live r (slot, out, t) st1 = Some st'"
      using step r by (auto simp: result_slot_def split: option.splits)
    note rd = remember_liveD [OF rem]
    show ?thesis
    proof (cases "tr_available st t = []")
      case False
      let ?h = "OnStack t (length (tr_available st t) - 1)"
      have l: "last (tr_available st t) = (slot, wait)" "wait \<noteq> 0xFFFFFFFF" "out = wait + 1"
        "st1 = st\<lparr>tr_available := (tr_available st)(t := butlast (tr_available st t))\<rparr>"
        using a False by (auto simp: acquire_slot_def Let_def split: if_splits prod.splits)
      have h: "hold st ?h = Some (slot, wait)"
        using False l(1) by (simp add: last_conv_nth)
      have "wait < 0xFFFFFFFF"
        using slots_okD(3) [OF ok(1) h] l(2) by simp
      moreover have "hold st' = (hold st)(?h := None, AtAddress r \<mapsto> (slot, wait + 1))"
        unfolding rd(1) l(4) hold_pop_stack [OF False] l(3) ..
      ultimately have "pending slot wait (wait + 1) st'"
        by (intro pending_passed [OF inv h]) (use rd l(4) in \<open>simp_all add: same_log_def\<close>)
      then show ?thesis using l rd(2) by (simp add: same_log_def)
    next
      case True
      have l: "tr_next_slot st < SLOT_NONE" "slot = tr_next_slot st" "wait = 0" "out = 1"
        "st1 = st\<lparr>tr_next_slot := tr_next_slot st + 1\<rparr>"
        using a True by (auto simp: acquire_slot_def split: if_splits)
      have "pending slot wait out st'"
        using slots_ok_fresh [OF ok(1) l(1), of "AtAddress r"] slots_okD(1,5) [OF ok(1)] chain_more [OF ok(2)] ok(3) l rd
        by (simp add: pending_def same_log_def)
      then show ?thesis using l rd(2) by (simp add: same_log_def)
    qed
  qed
  then show "same_log st st'" "slot = SLOT_NONE \<and> wait = 0 \<and> out = 0 \<and> st' = st \<or> pending slot wait out st'" by blast+
qed

text \<open>The spool after a record, by the thread of its operation.\<close>

definition wrote :: "u64 \<Rightarrow> u16 \<Rightarrow> u64 \<Rightarrow> transform \<Rightarrow> transform \<Rightarrow> bool" where
  "wrote tid f sz st st' \<longleftrightarrow> trans_inv st' \<and> gt_tid ` set (tr_threads st') = gt_tid ` set (tr_threads st) \<and>
    (\<exists>op. tr_spool st' = tr_spool st @ [(tid, op)] \<and> nop_function op = f \<and> nop_size op = sz)"

lemma wrote_I:
  assumes "trans_inv (write_op tid op st1)" and "same_log st st1" and "trans_inv st"
    and "tid \<in> gt_tid ` set (tr_threads st)" and "nop_function op = f" and "nop_size op = sz"
  shows "wrote tid f sz st (write_op tid op st1)"
  using assms write_op_threads(2) [of st1 tid op] by (simp add: wrote_def same_log_def trans_inv_def)

lemma result_op_wrote:
  assumes inv: "trans_inv st" and tid: "tid \<in> gt_tid ` set (tr_threads st)" and "f < 10"
    and kind: "kind = OP_ALLOC \<or> kind = OP_REALLOC_NULL"
    and step: "result_slot tid r st = Some ((slot, wait, out), st1)"
  shows "wrote tid (ucast f) sz st (write_op tid (pack_op target sz slot wait out aux f kind flags) st1)"
proof -
  note s = result_slot_spec [OF inv step]
  have t: "tid \<in> gt_tid ` set (tr_threads st1)"
    using tid s(1) by (simp add: same_log_def)
  have k: "kind \<le> OP_REALLOC_NULL" using kind by (auto simp: op_kind_defs)
  from s(2) have "trans_inv (write_op tid (pack_op target sz slot wait out aux f kind flags) st1)"
    using write_plain [OF inv tid assms(3)] write_pending [OF _ t assms(3) k] kind by auto
  then show ?thesis
    by (rule wrote_I [OF _ s(1) inv tid]) simp_all
qed

lemma passed_op_wrote:
  assumes inv: "trans_inv st" and tid: "tid \<in> gt_tid ` set (tr_threads st)" and "f < 10"
    and "kind \<le> OP_REALLOC_NULL" and h: "hold st h = Some (slot, wait)" and "wait < 0xFFFFFFFF"
    and "hold st' = (hold st)(h := None, h' \<mapsto> (slot, wait + 1))" and "same_log st st'"
    and "tr_next_slot st' = tr_next_slot st"
  shows "wrote tid (ucast f) sz st (write_op tid (pack_op target sz slot wait (wait + 1) aux f kind flags) st')"
proof -
  have "tid \<in> gt_tid ` set (tr_threads st')"
    using tid assms(8) by (simp add: same_log_def)
  from write_pending [OF pending_passed [OF inv h assms(6-9)] this assms(3,4)]
  show ?thesis by (rule wrote_I [OF _ assms(8) inv tid]) simp_all
qed

lemma flags_inv: "trans_inv st \<Longrightarrow> trans_inv (st\<lparr>tr_flags := x\<rparr>)"
  by (simp add: trans_inv_def)

lemma wrote_flags: "wrote tid f sz (st\<lparr>tr_flags := x\<rparr>) st' = wrote tid f sz st st'"
  by (simp add: wrote_def)

lemma transform_alloc_wrote:
  assumes inv: "trans_inv st" and tid: "thread_id e \<in> gt_tid ` set (tr_threads st)" and f: "f < 10"
    and step: "transform_alloc target f e st = Some st'"
  shows "wrote (thread_id e) (ucast f) (entry_size e) st st'"
proof -
  obtain slot wait out st1 where r: "result_slot (thread_id e) (entry_result e) st = Some ((slot, wait, out), st1)"
    using step by (auto simp: transform_alloc_def split: option.splits)
  from result_op_wrote [OF inv tid f _ r] step r show ?thesis
    by (auto simp: transform_alloc_def)
qed

lemma transform_free_wrote:
  assumes inv: "trans_inv st" and tid: "thread_id e \<in> gt_tid ` set (tr_threads st)" and f: "f < 10"
    and step: "transform_free opts target f e st = Some st'"
  shows "wrote (thread_id e) (ucast f) (entry_size e) st st'"
proof (cases "tr_live st (entry_address e)")
  case None
  let ?st = "st\<lparr>tr_flags := tr_flags st OR 1\<rparr>"
  have i: "trans_inv ?st" "thread_id e \<in> gt_tid ` set (tr_threads ?st)"
    using flags_inv [OF inv] tid by simp_all
  have "st' = write_op (thread_id e) (pack_op target (entry_size e) SLOT_NONE 0 0 0 f OP_UNKNOWN_FREE 0) ?st"
    using step None by (simp add: transform_free_def Let_def split: if_splits)
  moreover have "wrote (thread_id e) (ucast f) (entry_size e) ?st
      (write_op (thread_id e) (pack_op target (entry_size e) SLOT_NONE 0 0 0 f OP_UNKNOWN_FREE 0) ?st)"
    by (rule wrote_I [OF write_plain [OF i f] _ i]) (simp_all add: same_log_def)
  ultimately show ?thesis
    unfolding wrote_flags by simp
next
  case (Some v)
  obtain slot g owner where v: "v = (slot, g, owner)" by (cases v)
  let ?st = "release_slot (thread_id e) slot (g + 1) (pop_live (entry_address e) st)"
  have st': "g \<noteq> 0xFFFFFFFF" "st' = write_op (thread_id e) (pack_op target (entry_size e) slot g (g + 1) 0 f OP_FREE 0) ?st"
    using step Some v by (auto simp: transform_free_def Let_def split: if_splits)
  have h: "hold st (AtAddress (entry_address e)) = Some (slot, g)"
    using Some v by simp
  have "g < 0xFFFFFFFF"
    using slots_okD(3) [where H = "hold st", OF _ h] inv st'(1) unfolding trans_inv_def by fastforce
  moreover have "tr_available (pop_live (entry_address e) st) = tr_available st"
    by (simp add: pop_live_def)
  then have "hold ?st = (hold st)(AtAddress (entry_address e) := None,
      OnStack (thread_id e) (length (tr_available st (thread_id e))) \<mapsto> (slot, g + 1))"
    unfolding hold_release hold_pop_live by simp
  moreover have "same_log st ?st" "tr_next_slot ?st = tr_next_slot st" "OP_FREE \<le> OP_REALLOC_NULL"
    by (simp_all add: same_log_def release_slot_def pop_live_def op_kind_defs)
  ultimately show ?thesis
    unfolding st'(2) by (intro passed_op_wrote [OF inv tid f _ h])
qed

lemma realloc_null_wrote:
  assumes inv: "trans_inv st" and tid: "t \<in> gt_tid ` set (tr_threads st)" and f: "f < 10"
    and step: "(case result_slot t r st of None \<Rightarrow> None
      | Some ((slot, wait, out), st1) \<Rightarrow> Some (write_op t (pack_op target sz slot wait out 0 f OP_REALLOC_NULL flags) st1)) = Some st'"
  shows "wrote t (ucast f) sz st st'"
proof -
  obtain slot wait out st1 where r: "result_slot t r st = Some ((slot, wait, out), st1)"
    using step by (auto split: option.splits)
  from result_op_wrote [OF inv tid f _ r] step r show ?thesis by auto
qed

lemma transform_realloc_wrote:
  assumes inv: "trans_inv st" and tid: "thread_id e \<in> gt_tid ` set (tr_threads st)" and f: "f < 10"
    and step: "transform_realloc opts target f e st = Some st'"
  shows "wrote (thread_id e) (ucast f) (entry_size e) st st'"
proof -
  let ?t = "thread_id e" and ?a = "entry_address e"
  consider (null) "?a = 0" | (unknown) "?a \<noteq> 0" "tr_live st ?a = None" | (known) v where "?a \<noteq> 0" "tr_live st ?a = Some v" by blast
  then show ?thesis
  proof cases
    case null
    then show ?thesis
      using step by (intro realloc_null_wrote [OF inv tid f]) (simp add: transform_realloc_def Let_def)
  next
    case unknown
    let ?st = "st\<lparr>tr_flags := tr_flags st OR 1\<rparr>"
    have "wrote ?t (ucast f) (entry_size e) ?st st'"
      using step unknown tid
      by (intro realloc_null_wrote [OF flags_inv [OF inv] _ f]) (simp_all add: transform_realloc_def Let_def split: if_splits)
    then show ?thesis by (simp add: wrote_flags)
  next
    case (known v)
    obtain slot g owner where v: "v = (slot, g, owner)" by (cases v)
    define st1 where "st1 = pop_live ?a st"
    obtain st2 where st2: "\<not> 0xFFFFFFFF < g + 1"
        "st' = write_op ?t (pack_op target (entry_size e) slot g (g + 1) 0 f OP_REALLOC (if entry_result e \<noteq> 0 then 1 else 0)) st2"
        "(if entry_result e \<noteq> 0 then remember_live (entry_result e) (slot, g + 1, ?t) st1
          else if entry_size e \<noteq> 0 then Some (st1\<lparr>tr_live := (tr_live st1)(?a \<mapsto> (slot, g + 1, ?t))\<rparr>)
          else Some (release_slot ?t slot (g + 1) st1)) = Some st2"
      using step known v by (auto simp: transform_realloc_def Let_def st1_def split: if_splits)
    have s1: "same_log st st1" "tr_next_slot st1 = tr_next_slot st" "hold st1 = (hold st)(AtAddress ?a := None)"
      by (simp_all add: st1_def same_log_def pop_live_def hold_pop_live [unfolded pop_live_def])
    have h: "hold st (AtAddress ?a) = Some (slot, g)" using known v by simp
    have "\<exists>h'. hold st2 = (hold st1)(h' \<mapsto> (slot, g + 1)) \<and> same_log st1 st2 \<and> tr_next_slot st2 = tr_next_slot st1"
    proof (cases "entry_result e \<noteq> 0")
      case True
      then show ?thesis using st2(3) remember_liveD by auto
    next
      case False
      show ?thesis
      proof (cases "entry_size e \<noteq> 0")
        case True
        with False have "st2 = st1\<lparr>tr_live := (tr_live st1)(?a \<mapsto> (slot, g + 1, ?t))\<rparr>" using st2(3) by simp
        with hold_live [of st1 ?a slot "g + 1" ?t] show ?thesis by (auto simp: same_log_def)
      next
        case zero: False
        with False have "st2 = release_slot ?t slot (g + 1) st1" using st2(3) by simp
        with hold_release [of ?t slot "g + 1" st1] show ?thesis by (auto simp: same_log_def release_slot_def)
      qed
    qed
    then obtain h' where h': "hold st2 = (hold st)(AtAddress ?a := None, h' \<mapsto> (slot, g + 1))"
        "same_log st st2" "tr_next_slot st2 = tr_next_slot st"
      using s1 by (auto simp: same_log_def)
    have "OP_REALLOC \<le> OP_REALLOC_NULL" by (simp add: op_kind_defs)
    moreover have "g < 0xFFFFFFFF" using st2(1) by simp
    ultimately show ?thesis
      unfolding st2(2) using h' by (intro passed_op_wrote [OF inv tid f _ h])
  qed
qed

text \<open>What a record of the trace and an operation have in common: thread, function and size.\<close>

definition record_event :: "rply_entry \<Rightarrow> u64 \<times> u16 \<times> u64" where
  "record_event e = (thread_id e, ucast (drop_bit 32 (func_and_cpu e)), entry_size e)"

definition op_event :: "u64 \<times> native_op \<Rightarrow> u64 \<times> u16 \<times> u64" where
  "op_event x = (fst x, nop_function (snd x), nop_size (snd x))"

definition allocator_event :: "rply_entry \<Rightarrow> bool" where
  "allocator_event e \<longleftrightarrow> drop_bit 32 (func_and_cpu e) < 10"

lemma note_thread_inv:
  assumes "trans_inv st"
  shows "trans_inv (note_thread t cpu st)" and "t \<in> gt_tid ` set (tr_threads (note_thread t cpu st))"
    and "tr_spool (note_thread t cpu st) = tr_spool st"
proof -
  have "threads_ok (tr_threads (note_thread t cpu st)) (tr_spool st)"
  proof (cases "t \<in> gt_tid ` set (tr_threads st)")
    case True
    then show ?thesis using assms by (simp add: note_thread_def trans_inv_def)
  next
    case False
    then have "fst x \<noteq> t" if "x \<in> set (tr_spool st)" for x
      using assms that by (auto simp: trans_inv_def threads_ok_def)
    then have "filter (\<lambda>x. fst x = t) (tr_spool st) = []" by (simp add: filter_empty_conv)
    with False show ?thesis
      using assms by (auto simp: note_thread_def trans_inv_def threads_ok_def)
  qed
  then show "trans_inv (note_thread t cpu st)"
    using assms by (auto simp: trans_inv_def note_thread_def)
  show "t \<in> gt_tid ` set (tr_threads (note_thread t cpu st))" "tr_spool (note_thread t cpu st) = tr_spool st"
    by (auto simp: note_thread_def)
qed

lemma transform_record_spec:
  assumes inv: "trans_inv st" and step: "transform_record opts e st = Some st'"
  shows "trans_inv st'"
    and "map op_event (tr_spool st') = map op_event (tr_spool st) @ (if allocator_event e then [record_event e] else [])"
proof -
  let ?f = "drop_bit 32 (func_and_cpu e)" and ?st = "note_thread (thread_id e) (func_and_cpu e AND 0xFFFFFFFF) st"
  have "trans_inv st' \<and> map op_event (tr_spool st') = map op_event (tr_spool st) @ (if allocator_event e then [record_event e] else [])"
  proof (cases "10 \<le> ?f")
    case True
    then show ?thesis
      using step inv by (auto simp: transform_record_def allocator_event_def Let_def split: if_splits)
  next
    case False
    then have f: "?f < 10" by simp
    obtain target where t: "(if ?f = 1 \<or> ?f = 4 then transform_free opts target ?f e ?st
        else if ?f = 3 then transform_realloc opts target ?f e ?st else transform_alloc target ?f e ?st) = Some st'"
      using step False by (auto simp: transform_record_def Let_def simp del: not_le split: option.splits)
    note n = note_thread_inv [OF inv, of "thread_id e" "func_and_cpu e AND 0xFFFFFFFF"]
    have "wrote (thread_id e) (ucast ?f) (entry_size e) ?st st'"
      using t transform_free_wrote [OF n(1,2) f] transform_realloc_wrote [OF n(1,2) f] transform_alloc_wrote [OF n(1,2) f]
      by (simp split: if_splits)
    then show ?thesis
      using f n(3) by (auto simp: wrote_def allocator_event_def record_event_def op_event_def)
  qed
  then show "trans_inv st'"
    "map op_event (tr_spool st') = map op_event (tr_spool st) @ (if allocator_event e then [record_event e] else [])" by blast+
qed

lemma transform_records_spec:
  assumes "trans_inv st" and "transform_records opts es st = Some st'"
  shows "trans_inv st' \<and> map op_event (tr_spool st') = map op_event (tr_spool st) @ map record_event (filter allocator_event es)"
  using assms
proof (induction es arbitrary: st)
  case (Cons e es)
  then obtain st1 where s: "transform_record opts e st = Some st1" "transform_records opts es st1 = Some st'"
    by (auto split: option.splits)
  from transform_record_spec [OF Cons.prems(1) s(1)] Cons.IH [OF _ s(2)] show ?case by simp
qed simp

lemma transform_trace_spec:
  assumes "transform_trace opts es = Some st"
  shows "trans_inv st" and "map op_event (tr_spool st) = map record_event (filter allocator_event es)"
proof -
  let ?st = "\<lparr>tr_live = (\<lambda>_. None), tr_threads = [], tr_next_slot = 0, tr_available = (\<lambda>_. []), tr_flags = 0, tr_spool = []\<rparr> :: transform"
  have "hold ?st h = None" for h
    by (cases h) simp_all
  then have "trans_inv ?st"
    by (simp add: trans_inv_def slots_ok_def chain_def threads_ok_def after_def SLOT_NONE_def)
  from transform_records_spec [OF this] assms show "trans_inv st"
    "map op_event (tr_spool st) = map record_event (filter allocator_event es)"
    by (simp_all add: transform_trace_def)
qed

end
