(* ===== verification/NativeWriter.thy ===== *)
theory NativeWriter
  imports TraceToNative
begin

text \<open>
  \<open>write_image\<close> and the assembly of the executable in \<open>trace_to_native.py\<close>, to the bytes that
  \<open>load_embedded_image\<close> of the runtime reads. The lemmas show that the runtime gets back exactly what the
  generator wrote, and that every executable the generator makes fits the schedule of its trace, so the
  safety and the end of its replay follow from \<open>NativeReplay\<close>.

  Not in the model: the compiler that makes the runtime (its bytes are a parameter) and the temporary files.
\<close>

subsection \<open>Fields\<close>

definition le_bytes :: "nat \<Rightarrow> 'a::len word \<Rightarrow> u8 list" where
  "le_bytes n w = map (\<lambda>k. ucast (drop_bit (8 * k) w)) [0..<n]"

lemma le_bytes_length [simp]: "length (le_bytes n w) = n"
  by (simp add: le_bytes_def)

text \<open>The bytes \<open>xs\<close> stand at offset \<open>i\<close> of a file.\<close>

definition stands_at :: "u8 list \<Rightarrow> nat \<Rightarrow> u8 list \<Rightarrow> bool" where
  "stands_at file i xs \<longleftrightarrow> (\<forall>k<length xs. byte_at file (i + k) = xs ! k)"

lemma stands_at_Nil [simp]: "stands_at file i []"
  by (simp add: stands_at_def)

lemma stands_at_append [simp]:
  "stands_at file i (xs @ ys) \<longleftrightarrow> stands_at file i xs \<and> stands_at file (i + length xs) ys"
proof -
  have "(\<forall>k<length xs + length ys. P k) \<longleftrightarrow> (\<forall>k<length xs. P k) \<and> (\<forall>k<length ys. P (length xs + k))" for P
  proof (intro iffI conjI allI impI; (elim conjE)?)
    fix k
    assume "\<forall>k<length xs. P k" "\<forall>k<length ys. P (length xs + k)" and k: "k < length xs + length ys"
    then show "P k"
      by (cases "k < length xs") (auto dest: spec [of _ "k - length xs"])
  qed simp_all
  then show ?thesis
    unfolding stands_at_def length_append by (simp add: nth_append add.assoc)
qed

lemma stands_at_Cons: "stands_at file i (x # xs) \<longleftrightarrow> byte_at file i = x \<and> stands_at file (Suc i) xs"
  using stands_at_append [of "file" i "[x]" xs] by (simp add: stands_at_def)

lemma stands_at_part: "stands_at (pre @ xs @ post) (length pre) xs"
  by (simp add: stands_at_def byte_at_def nth_append)

lemma bytes_at_stands: "stands_at file i xs \<Longrightarrow> n = length xs \<Longrightarrow> bytes_at file i n = xs"
  by (auto simp: bytes_at_def stands_at_def intro!: nth_equalityI)

lemma le_word_stands:
  fixes w :: "'a::len word"
  assumes "stands_at file i (le_bytes n w)" and "8 * n = LENGTH('a)"
  shows "le_word n file i = w"
  unfolding le_word_def using assms by (intro le_value) (simp_all add: stands_at_def le_bytes_def)

lemma word_at_stands [simp]:
  "stands_at file i (le_bytes 2 v) \<Longrightarrow> u16_at file i = v" "stands_at file i (le_bytes 4 w) \<Longrightarrow> u32_at file i = w"
  "stands_at file i (le_bytes 8 x) \<Longrightarrow> u64_at file i = x"
  by (simp_all add: u16_at_def u32_at_def u64_at_def le_word_stands)

lemma stands_at_concat:
  assumes "\<And>x. length (f x) = n" and "stands_at file i (concat (map f xs))" and "k < length xs"
  shows "stands_at file (i + n * k) (f (xs ! k))"
  using assms(2,3)
proof (induction xs arbitrary: i k)
  case (Cons x xs)
  then have x: "stands_at file i (f x)" "stands_at file (i + n) (concat (map f xs))"
    by (simp_all add: assms(1))
  show ?case
  proof (cases k)
    case 0
    then show ?thesis using x(1) by simp
  next
    case (Suc j)
    then show ?thesis using Cons.IH [OF x(2), of j] Cons.prems(2) by (simp add: add.assoc)
  qed
qed simp

subsection \<open>Structures\<close>

text \<open>\<open>IMAGE_HEADER\<close>, \<open>THREAD_RECORD\<close>, \<open>OP_RECORD\<close> and \<open>TRAILER\<close>.\<close>

definition header_bytes :: "native_header \<Rightarrow> u8 list" where
  "header_bytes hdr = n_magic hdr @ le_bytes 4 (n_version hdr) @ le_bytes 4 (n_header_size hdr) @
    le_bytes 4 (n_thread_count hdr) @ le_bytes 4 (n_flags hdr) @ le_bytes 4 (n_slot_count hdr) @
    le_bytes 4 (n_op_count hdr) @ le_bytes 8 (min_timestamp_ns hdr) @ le_bytes 8 (max_timestamp_ns hdr) @
    le_bytes 8 (n_thread_offset hdr) @ le_bytes 8 (n_op_offset hdr)"

definition thread_bytes :: "native_thread \<Rightarrow> u8 list" where
  "thread_bytes t = le_bytes 8 (n_trace_tid t) @ le_bytes 8 (first_op t) @ le_bytes 8 (op_count t) @
    le_bytes 4 (n_recorded_cpu t) @ le_bytes 4 (0 :: u32)"

definition op_bytes :: "native_op \<Rightarrow> u8 list" where
  "op_bytes op = le_bytes 8 (target_ns op) @ le_bytes 8 (nop_size op) @ le_bytes 4 (nop_slot op) @
    le_bytes 4 (wait_generation op) @ le_bytes 4 (output_generation op) @ le_bytes 4 (nop_aux op) @
    le_bytes 2 (nop_function op) @ [nop_kind op, nop_flags op] @ le_bytes 4 (0 :: u32)"

definition trailer_bytes :: "u64 \<Rightarrow> u8 list" where
  "trailer_bytes sz = ascii ''MNEND001'' @ le_bytes 8 sz @ le_bytes 8 (1 :: u64)"

lemma structure_lengths [simp]:
  "length (n_magic hdr) = 8 \<Longrightarrow> length (header_bytes hdr) = 64" "length (thread_bytes t) = 32"
  "length (op_bytes op) = 40" "length (trailer_bytes sz) = 24"
  by (simp_all add: header_bytes_def thread_bytes_def op_bytes_def trailer_bytes_def ascii_def)

lemma header_read:
  assumes "stands_at file i (header_bytes hdr)" and "length (n_magic hdr) = 8"
  shows "native_header_at file i = hdr"
proof -
  have "bytes_at file i 8 = n_magic hdr"
    using assms by (intro bytes_at_stands) (simp_all add: header_bytes_def)
  then show ?thesis
    using assms by (simp add: native_header_at_def header_bytes_def add.assoc)
qed

lemma thread_read: "stands_at file i (thread_bytes t) \<Longrightarrow> native_thread_at file i = t"
  by (simp add: native_thread_at_def thread_bytes_def add.assoc)

lemma op_read: "stands_at file i (op_bytes op) \<Longrightarrow> native_op_at file i = op"
  by (simp add: native_op_at_def op_bytes_def stands_at_Cons ac_simps)

text \<open>The image and the executable: the runtime, padded to a multiple of eight, the image, the trailer.\<close>

definition image_bytes :: "native_image \<Rightarrow> u8 list" where
  "image_bytes img = header_bytes (ni_header img) @ concat (map thread_bytes (ni_threads img)) @
    concat (map op_bytes (ni_ops img))"

definition assemble :: "u8 list \<Rightarrow> native_image \<Rightarrow> u8 list" where
  "assemble runtime img =
    (let padded = runtime @ replicate ((8 - length runtime mod 8) mod 8) 0; bytes = image_bytes img
     in padded @ bytes @ trailer_bytes (of_nat (length bytes)))"

definition image_consistent :: "native_image \<Rightarrow> bool" where
  "image_consistent img \<longleftrightarrow> length (n_magic (ni_header img)) = 8 \<and> n_magic (ni_header img) = ascii ''MNRUN001'' \<and>
    n_version (ni_header img) = NATIVE_VERSION \<and> n_header_size (ni_header img) = 64 \<and>
    unat (n_thread_count (ni_header img)) = length (ni_threads img) \<and>
    unat (n_op_count (ni_header img)) = length (ni_ops img) \<and>
    n_thread_offset (ni_header img) = 64 \<and>
    unat (n_op_offset (ni_header img)) = 64 + 32 * length (ni_threads img) \<and>
    (\<forall>t\<in>set (ni_threads img). thread_range_valid (ni_header img) t)"

lemma length_concat_uniform: "(\<And>x. length (f x) = n) \<Longrightarrow> length (concat (map f xs)) = n * length xs"
  by (induction xs) simp_all

lemma image_bytes_length:
  "length (n_magic (ni_header img)) = 8 \<Longrightarrow>
    length (image_bytes img) = 64 + 32 * length (ni_threads img) + 40 * length (ni_ops img)"
  by (simp add: image_bytes_def length_concat_uniform [of thread_bytes 32] length_concat_uniform [of op_bytes 40])

lemma range_valid_I:
  assumes "unat offset + unat n * unat element \<le> unat bytes" and "element \<noteq> 0"
  shows "range_valid offset n element bytes"
proof -
  have o: "unat offset \<le> unat bytes" using assms(1) by simp
  have "0 < unat element" using assms(2) by (simp add: unat_gt_0)
  then have "unat n \<le> (unat bytes - unat offset) div unat element"
    using assms(1) by (simp add: less_eq_div_iff_mult_less_eq)
  then show ?thesis
    using o by (simp add: range_valid_def word_le_nat_alt unat_div unat_sub_no_wrap)
qed

lemma array_read:
  assumes "\<And>x. length (f x) = n" and "\<And>j x. stands_at file j (f x) \<Longrightarrow> rd file j = x"
    and "stands_at file i (concat (map f xs))"
  shows "array_at rd n file i (length xs) = xs"
  using assms(2) [OF stands_at_concat [OF assms(1,3)]] by (intro nth_equalityI) simp_all

text \<open>The runtime reads what the generator wrote.\<close>

lemma load_assemble:
  assumes ok: "image_consistent img"
  shows "load_embedded_image (assemble runtime img) = Some img"
proof -
  let ?hdr = "ni_header img"
  define padded where "padded = runtime @ replicate ((8 - length runtime mod 8) mod 8) 0"
  define len where "len = length (image_bytes img)"
  define exe where "exe = assemble runtime img"
  note c = ok [unfolded image_consistent_def] and c8 = ok [unfolded image_consistent_def, THEN conjunct1]
  have l: "len = 64 + 32 * length (ni_threads img) + 40 * length (ni_ops img)"
    unfolding len_def by (rule image_bytes_length) (use c in blast)
  have small: "length (ni_threads img) < 2 ^ 32" "length (ni_ops img) < 2 ^ 32"
    using c unsigned_less [of "n_thread_count ?hdr", where ?'a = nat] unsigned_less [of "n_op_count ?hdr", where ?'a = nat]
    by simp_all
  then have sz: "unat (of_nat len :: u64) = len"
    using l by (subst unat_of_nat_u64) simp_all
  have exe: "exe = padded @ image_bytes img @ trailer_bytes (of_nat len)"
    by (simp add: exe_def assemble_def Let_def padded_def len_def)
  have le: "length exe - 24 = length padded + len" "24 \<le> length exe"
    by (simp_all add: exe len_def)
  have "stands_at exe (length padded + len) (trailer_bytes (of_nat len))"
    using stands_at_part [of "padded @ image_bytes img" "trailer_bytes (of_nat len)" "[]"] by (simp add: exe len_def)
  moreover have "length (ascii ''MNEND001'') = 8" by (simp add: ascii_def)
  ultimately have tr: "bytes_at exe (length padded + len) 8 = ascii ''MNEND001''"
    "u64_at exe (length padded + len + 8) = of_nat len" "u64_at exe (length padded + len + 16) = 1"
    by (simp_all add: trailer_bytes_def bytes_at_stands add.assoc)
  have im: "stands_at exe (length padded) (image_bytes img)"
    using stands_at_part [of padded "image_bytes img" "trailer_bytes (of_nat len)"] by (simp add: exe)
  have h: "native_header_at exe (length padded) = ?hdr"
    using im c8 by (intro header_read) (simp_all add: image_bytes_def)
  have th: "array_at native_thread_at 32 exe (length padded + 64) (length (ni_threads img)) = ni_threads img"
    using im c8 by (intro array_read [of thread_bytes]) (simp_all add: image_bytes_def thread_read)
  have op: "array_at native_op_at 40 exe (length padded + (64 + 32 * length (ni_threads img))) (length (ni_ops img)) = ni_ops img"
    using im c8 by (intro array_read [of op_bytes]) (simp_all add: image_bytes_def op_read length_concat_uniform [of thread_bytes 32] add.assoc)
  have "native_header_valid ?hdr (of_nat len)"
    using c l sz by (auto simp: native_header_valid_def unat_u32_u64 intro!: range_valid_I)
  then show ?thesis
    using c le tr h th op sz unfolding exe_def [symmetric] load_embedded_image_def Let_def
    by (simp add: NATIVE_VERSION_def)
qed

subsection \<open>\<open>write_image\<close>\<close>

text \<open>The records of the threads from operation \<open>first\<close> on, and the place of the first operation of each.\<close>

fun thread_records :: "nat \<Rightarrow> gen_thread list \<Rightarrow> native_thread list" where
  "thread_records first [] = []"
| "thread_records first (t # ts) =
    \<lparr>n_trace_tid = gt_tid t, first_op = of_nat first, op_count = of_int (gt_count t),
     n_recorded_cpu = (if gt_cpu t \<le> 0xFFFFFFFF then ucast (gt_cpu t) else UINT32_MAX)\<rparr> #
    thread_records (first + nat (gt_count t)) ts"

fun first_of :: "nat \<Rightarrow> gen_thread list \<Rightarrow> u64 \<Rightarrow> nat" where
  "first_of first [] = (\<lambda>_. 0)"
| "first_of first (t # ts) = (first_of (first + nat (gt_count t)) ts)(gt_tid t := first)"

text \<open>Each record of the spool file goes to the next place of its thread.\<close>

fun place_ops :: "(u64 \<Rightarrow> nat) \<Rightarrow> (u64 \<times> native_op) list \<Rightarrow> native_op list \<Rightarrow> native_op list" where
  "place_ops cursor [] ops = ops"
| "place_ops cursor (x # s) ops =
    place_ops (cursor(fst x := cursor (fst x) + 1)) s (ops[cursor (fst x) := snd x])"

definition blank_op :: native_op where
  "blank_op = \<lparr>target_ns = 0, nop_size = 0, nop_slot = 0, wait_generation = 0, output_generation = 0, nop_aux = 0,
    nop_function = 0, nop_kind = 0, nop_flags = 0\<rparr>"

definition write_image :: "transform_options \<Rightarrow> int \<Rightarrow> transform \<Rightarrow> native_image option" where
  "write_image opts maximum st =
    (let ts = tr_threads st; total_ops = sum_list (map gt_count ts)
     in if 0xFFFFFFFF < total_ops \<or> 0xFFFFFFFF < int (length ts) then None
        else Some
          \<lparr>ni_header =
            \<lparr>n_magic = ascii ''MNRUN001'', n_version = NATIVE_VERSION, n_header_size = 64,
             n_thread_count = of_nat (length ts), n_flags = tr_flags st, n_slot_count = of_int (tr_next_slot st),
             n_op_count = of_int total_ops,
             min_timestamp_ns = of_int (minimum_timestamp opts * timestamp_multiplier opts),
             max_timestamp_ns = of_int (maximum * timestamp_multiplier opts),
             n_thread_offset = 64, n_op_offset = of_nat (64 + 32 * length ts)\<rparr>,
           ni_threads = thread_records 0 ts,
           ni_ops = place_ops (first_of 0 ts) (tr_spool st) (replicate (nat total_ops) blank_op)\<rparr>)"

lemma thread_records_length [simp]: "length (thread_records first ts) = length ts"
  by (induction ts arbitrary: first) simp_all

lemma place_ops_length [simp]: "length (place_ops cursor s ops) = length ops"
  by (induction s arbitrary: cursor ops) simp_all

text \<open>Where the places of the threads do not meet, each operation ends at its own place.\<close>

definition apart :: "(u64 \<Rightarrow> nat) \<Rightarrow> (u64 \<times> native_op) list \<Rightarrow> nat \<Rightarrow> bool" where
  "apart cursor s n \<longleftrightarrow>
    (\<forall>t i. i < length (ops_of s t) \<longrightarrow> cursor t + i < n) \<and>
    (\<forall>t t' i i'. i < length (ops_of s t) \<longrightarrow> i' < length (ops_of s t') \<longrightarrow> cursor t + i = cursor t' + i' \<longrightarrow> t = t')"

lemma apart_bound: "apart cursor s n \<Longrightarrow> i < length (ops_of s t) \<Longrightarrow> cursor t + i < n"
  by (simp add: apart_def)

lemma ops_of_Cons: "ops_of (x # s) t = (if fst x = t then snd x # ops_of s t else ops_of s t)"
  by (simp add: ops_of_def)

lemma apart_next:
  assumes "apart cursor (x # s) n"
  shows "apart (cursor(fst x := cursor (fst x) + 1)) s n"
proof -
  let ?c = "cursor(fst x := cursor (fst x) + 1)"
  have lift: "\<exists>i'<length (ops_of (x # s) t). ?c t + i = cursor t + i'" if "i < length (ops_of s t)" for t i
    using that by (intro exI [of _ "if fst x = t then Suc i else i"]) (simp add: ops_of_Cons)
  show ?thesis
    using assms lift unfolding apart_def by metis
qed

lemma place_ops_other:
  assumes "\<And>t i. i < length (ops_of s t) \<Longrightarrow> j \<noteq> cursor t + i"
  shows "place_ops cursor s ops ! j = ops ! j"
  using assms
proof (induction s arbitrary: cursor ops)
  case (Cons x s)
  define c where "c = cursor(fst x := cursor (fst x) + 1)"
  have "j \<noteq> cursor (fst x)"
    using Cons.prems [of 0 "fst x"] by (simp add: ops_of_Cons)
  moreover have "j \<noteq> c t + i" if "i < length (ops_of s t)" for t i
  proof (cases "fst x = t")
    case True
    then show ?thesis using Cons.prems [of "Suc i" t] that by (simp add: ops_of_Cons c_def)
  next
    case False
    then show ?thesis using Cons.prems [of i t] that by (simp add: ops_of_Cons c_def)
  qed
  ultimately have "place_ops c s (ops[cursor (fst x) := snd x]) ! j = ops ! j"
    using Cons.IH [of c "ops[cursor (fst x) := snd x]"] by simp
  then show ?case by (simp only: place_ops.simps c_def)
qed simp

lemma place_ops_own:
  assumes "apart cursor s (length ops)" and "i < length (ops_of s t)"
  shows "place_ops cursor s ops ! (cursor t + i) = ops_of s t ! i"
  using assms
proof (induction s arbitrary: cursor ops i)
  case Nil
  then show ?case by (simp add: ops_of_def)
next
  case (Cons x s)
  define c where "c = cursor(fst x := cursor (fst x) + 1)"
  define ops' where "ops' = ops[cursor (fst x) := snd x]"
  have c: "c (fst x) = Suc (cursor (fst x))" "\<And>u. fst x \<noteq> u \<Longrightarrow> c u = cursor u"
    by (simp_all add: c_def)
  have step: "place_ops cursor (x # s) ops = place_ops c s ops'"
    by (simp add: c_def ops'_def)
  have ap: "apart c s (length ops')"
    using apart_next [OF Cons.prems(1)] by (simp add: c_def ops'_def)
  note IH = Cons.IH [OF ap]
  show ?case
  proof (cases "fst x = t")
    case False
    then show ?thesis using IH [of i] Cons.prems(2) c(2) [OF False] unfolding step by (simp add: ops_of_Cons)
  next
    case True
    show ?thesis
    proof (cases i)
      case (Suc k)
      then show ?thesis using IH [of k] Cons.prems(2) True c(1) unfolding step by (simp add: ops_of_Cons)
    next
      case 0
      have "cursor t \<noteq> c t' + k" if k: "k < length (ops_of s t')" for t' k
      proof
        assume e: "cursor t = c t' + k"
        then have t': "t' \<noteq> t" using True c(1) by auto
        then have "cursor t + 0 = cursor t' + k" "k < length (ops_of (x # s) t')" "0 < length (ops_of (x # s) t)"
          using e True k c(2) by (simp_all add: ops_of_Cons)
        then show False
          using Cons.prems(1) t' unfolding apart_def by blast
      qed
      then have "place_ops c s ops' ! cursor t = ops' ! cursor t"
        by (rule place_ops_other)
      moreover have "cursor t < length ops"
        using apart_bound [OF Cons.prems(1), of 0 t] True by (simp add: ops_of_Cons)
      ultimately show ?thesis using 0 True unfolding step by (simp add: ops_of_Cons ops'_def)
    qed
  qed
qed

text \<open>The places of the threads.\<close>

definition ops_total :: "gen_thread list \<Rightarrow> nat" where
  "ops_total ts = (\<Sum>t\<leftarrow>ts. nat (gt_count t))"

lemma ops_total_simps [simp]: "ops_total [] = 0" "ops_total (t # ts) = nat (gt_count t) + ops_total ts"
  by (simp_all add: ops_total_def)

lemma first_of_bounds:
  assumes "t \<in> set ts" and "distinct (map gt_tid ts)"
  shows "first \<le> first_of first ts (gt_tid t) \<and> first_of first ts (gt_tid t) + nat (gt_count t) \<le> first + ops_total ts"
  using assms
proof (induction ts arbitrary: first)
  case (Cons u ts)
  show ?case
  proof (cases "t = u")
    case False
    then have "t \<in> set ts" using Cons.prems(1) by simp
    moreover from this have "gt_tid t \<noteq> gt_tid u" using Cons.prems(2) by (auto simp: image_iff)
    ultimately show ?thesis
      using Cons.IH [of "first + nat (gt_count u)"] Cons.prems(2) by simp
  qed simp
qed simp

lemma first_of_disjoint:
  assumes "t \<in> set ts" and "u \<in> set ts" and "distinct (map gt_tid ts)" and "i < nat (gt_count t)" and "k < nat (gt_count u)"
    and "first_of first ts (gt_tid t) + i = first_of first ts (gt_tid u) + k"
  shows "gt_tid t = gt_tid u"
  using assms
proof (induction ts arbitrary: first)
  case (Cons v ts)
  have neq: "gt_tid x \<noteq> gt_tid v" if "x \<in> set ts" for x
    using Cons.prems(3) that by (auto simp: image_iff)
  have below: "first + nat (gt_count v) \<le> first_of (first + nat (gt_count v)) ts (gt_tid x)" if "x \<in> set ts" for x
    using first_of_bounds [OF that, of "first + nat (gt_count v)"] Cons.prems(3) by simp
  consider "t = v" "u = v" | "t = v" "u \<in> set ts" | "t \<in> set ts" "u = v" | "t \<in> set ts" "u \<in> set ts"
    using Cons.prems(1,2) by auto
  then show ?case
  proof cases
    case 2
    then show ?thesis using Cons.prems(4,6) neq below [of u] by simp
  next
    case 3
    then show ?thesis using Cons.prems(5,6) neq below [of t] by simp
  next
    case 4
    then show ?thesis
      using Cons.IH [of "first + nat (gt_count v)"] Cons.prems(3-6) neq by simp
  qed simp
qed simp

lemma threads_ok_ops:
  assumes "threads_ok ts s"
  shows "t \<in> set ts \<Longrightarrow> length (ops_of s (gt_tid t)) = nat (gt_count t)"
    and "tid \<notin> gt_tid ` set ts \<Longrightarrow> ops_of s tid = []"
  using assms by (auto simp: threads_ok_def ops_of_def filter_empty_conv image_subset_iff)

lemma apart_threads:
  assumes ok: "threads_ok ts s"
  shows "apart (first_of 0 ts) s (ops_total ts)"
proof -
  have d: "distinct (map gt_tid ts)" using ok by (simp add: threads_ok_def)
  have mem: "\<exists>u\<in>set ts. tid = gt_tid u \<and> i < nat (gt_count u)" if "i < length (ops_of s tid)" for tid i
    using threads_ok_ops [OF ok] that by (metis imageE list.size(3) not_less0)
  show ?thesis
    unfolding apart_def
  proof (intro conjI allI impI)
    fix t i
    assume "i < length (ops_of s t)"
    then obtain u where "u \<in> set ts" "t = gt_tid u" "i < nat (gt_count u)" using mem by blast
    then show "first_of 0 ts t + i < ops_total ts"
      using first_of_bounds [OF _ d, of u 0] by simp
  next
    fix t t' i i'
    assume "i < length (ops_of s t)" "i' < length (ops_of s t')" "first_of 0 ts t + i = first_of 0 ts t' + i'"
    then show "t = t'"
      using mem [of i t] mem [of i' t'] first_of_disjoint [OF _ _ d] by metis
  qed
qed

subsection \<open>What the generator writes\<close>

lemma thread_records_all:
  assumes "w < length ts" and "distinct (map gt_tid ts)"
  shows "first_op (thread_records first ts ! w) = of_nat (first_of first ts (gt_tid (ts ! w))) \<and>
    op_count (thread_records first ts ! w) = of_int (gt_count (ts ! w))"
  using assms
proof (induction ts arbitrary: first w)
  case (Cons t ts)
  have "gt_tid (ts ! k) \<noteq> gt_tid t" if k: "k < length ts" for k
    using Cons.prems(2) nth_mem [OF k] by (auto simp: image_iff)
  then show ?case
    using Cons.IH [of _ "first + nat (gt_count t)"] Cons.prems by (cases w) simp_all
qed simp

lemmas thread_records_nth = thread_records_all [THEN conjunct1] thread_records_all [THEN conjunct2]

lemma unat_of_int_u64: "0 \<le> a \<Longrightarrow> a < 2 ^ 64 \<Longrightarrow> unat (of_int a :: u64) = nat a"
  by (simp add: unat_eq_nat_uint unsigned_of_int take_bit_int_eq_self)

lemma counts_total:
  assumes "threads_ok ts s"
  shows "sum_list (map gt_count ts) = int (ops_total ts)" and "t \<in> set ts \<Longrightarrow> 0 \<le> gt_count t"
proof -
  show p: "0 \<le> gt_count t" if "t \<in> set ts" for t
    using assms that by (simp add: threads_ok_def)
  have "sum_list (map gt_count us) = int (ops_total us)" if "set us \<subseteq> set ts" for us
    using that p by (induction us) simp_all
  then show "sum_list (map gt_count ts) = int (ops_total ts)" by simp
qed

lemma count_below: "t \<in> set ts \<Longrightarrow> nat (gt_count t) \<le> ops_total ts"
  by (induction ts) auto

lemma write_imageD:
  assumes inv: "trans_inv st" and wr: "write_image opts maximum st = Some img"
  shows "ops_total (tr_threads st) < 2 ^ 32" and "length (tr_threads st) < 2 ^ 32"
    and "ni_threads img = thread_records 0 (tr_threads st)"
    and "ni_ops img = place_ops (first_of 0 (tr_threads st)) (tr_spool st) (replicate (ops_total (tr_threads st)) blank_op)"
    and "n_slot_count (ni_header img) = of_int (tr_next_slot st)"
    and "unat (n_thread_count (ni_header img)) = length (tr_threads st)"
    and "unat (n_op_count (ni_header img)) = ops_total (tr_threads st)"
    and "n_thread_offset (ni_header img) = 64" and "n_op_offset (ni_header img) = of_nat (64 + 32 * length (tr_threads st))"
    and "n_magic (ni_header img) = ascii ''MNRUN001''" and "n_version (ni_header img) = NATIVE_VERSION"
    and "n_header_size (ni_header img) = 64"
proof -
  have total: "sum_list (map gt_count (tr_threads st)) = int (ops_total (tr_threads st))"
    by (rule counts_total(1) [of _ "tr_spool st"]) (use inv in \<open>simp add: trans_inv_def\<close>)
  note w = wr [unfolded write_image_def Let_def total]
  show t: "ops_total (tr_threads st) < 2 ^ 32" and l: "length (tr_threads st) < 2 ^ 32"
    using w by (simp_all split: if_splits)
  have u: "unat (of_nat k :: u32) = k" if "k < 2 ^ 32" for k
    using that by (simp add: unsigned_of_nat take_bit_nat_eq_self)
  show "ni_threads img = thread_records 0 (tr_threads st)"
    "ni_ops img = place_ops (first_of 0 (tr_threads st)) (tr_spool st) (replicate (ops_total (tr_threads st)) blank_op)"
    "n_slot_count (ni_header img) = of_int (tr_next_slot st)"
    "unat (n_thread_count (ni_header img)) = length (tr_threads st)"
    "unat (n_op_count (ni_header img)) = ops_total (tr_threads st)"
    "n_thread_offset (ni_header img) = 64" "n_op_offset (ni_header img) = of_nat (64 + 32 * length (tr_threads st))"
    "n_magic (ni_header img) = ascii ''MNRUN001''" "n_version (ni_header img) = NATIVE_VERSION"
    "n_header_size (ni_header img) = 64"
    using w u [OF t] u [OF l] by (auto split: if_splits)
qed

lemma thread_of:
  assumes inv: "trans_inv st" and wr: "write_image opts maximum st = Some img" and w: "w < length (tr_threads st)"
  defines "t \<equiv> tr_threads st ! w"
  shows "unat (op_count (ni_threads img ! w)) = nat (gt_count t)"
    and "unat (first_op (ni_threads img ! w)) = first_of 0 (tr_threads st) (gt_tid t)"
    and "first_of 0 (tr_threads st) (gt_tid t) + nat (gt_count t) \<le> ops_total (tr_threads st)"
    and "t \<in> set (tr_threads st)"
proof -
  note d = write_imageD [OF inv wr]
  have ok: "threads_ok (tr_threads st) (tr_spool st)" and dist: "distinct (map gt_tid (tr_threads st))"
    using inv by (simp_all add: trans_inv_def threads_ok_def)
  note r = thread_records_nth [OF w dist, of 0, folded t_def]
  show t: "t \<in> set (tr_threads st)" using w by (simp add: t_def)
  show b: "first_of 0 (tr_threads st) (gt_tid t) + nat (gt_count t) \<le> ops_total (tr_threads st)"
    using first_of_bounds [OF t dist, of 0] by simp
  have "nat (gt_count t) < 2 ^ 32" "0 \<le> gt_count t"
    using count_below [OF t] d(1) counts_total(2) [OF ok t] by simp_all
  then show "unat (op_count (ni_threads img ! w)) = nat (gt_count t)"
    unfolding d(3) r(2) by (intro unat_of_int_u64) simp_all
  show "unat (first_op (ni_threads img ! w)) = first_of 0 (tr_threads st) (gt_tid t)"
    unfolding d(3) r(1) using b d(1) by (simp add: unat_of_nat_u64)
qed

lemma written_ops:
  assumes inv: "trans_inv st" and wr: "write_image opts maximum st = Some img" and w: "w < length (tr_threads st)"
  shows "thread_ops img w = ops_of (tr_spool st) (gt_tid (tr_threads st ! w))"
proof (rule nth_equalityI)
  let ?t = "tr_threads st ! w"
  note d = write_imageD [OF inv wr] and t = thread_of [OF inv wr w]
  have ok: "threads_ok (tr_threads st) (tr_spool st)" using inv by (simp add: trans_inv_def)
  note len = threads_ok_ops(1) [OF ok t(4)]
  show "length (thread_ops img w) = length (ops_of (tr_spool st) (gt_tid ?t))"
    using len t(1) by (simp add: thread_ops_def)
  fix k
  assume "k < length (thread_ops img w)"
  then have k: "k < nat (gt_count ?t)" using t(1) by (simp add: thread_ops_def)
  have "k < 2 ^ 64" using k t(3) d(1) by simp
  then have "unat (first_op (ni_threads img ! w) + of_nat k) = first_of 0 (tr_threads st) (gt_tid ?t) + k"
    using t(2,3) k d(1) by (subst unat_add_no_wrap) (simp_all add: unat_of_nat_u64)
  moreover have "place_ops (first_of 0 (tr_threads st)) (tr_spool st) (replicate (ops_total (tr_threads st)) blank_op) !
      (first_of 0 (tr_threads st) (gt_tid ?t) + k) = ops_of (tr_spool st) (gt_tid ?t) ! k"
    by (rule place_ops_own) (use apart_threads [OF ok] k len in simp_all)
  ultimately show "thread_ops img w ! k = ops_of (tr_spool st) (gt_tid ?t) ! k"
    using k t(1) d(4) by (simp add: thread_ops_def op_at_def)
qed

lemma written_consistent:
  assumes inv: "trans_inv st" and wr: "write_image opts maximum st = Some img"
  shows "image_consistent img"
proof -
  note d = write_imageD [OF inv wr]
  have "unat (n_op_offset (ni_header img)) = 64 + 32 * length (tr_threads st)"
    unfolding d(9) by (rule unat_of_nat_u64) (use d(2) in simp)
  moreover have "thread_range_valid (ni_header img) t" if tm: "t \<in> set (ni_threads img)" for t
  proof -
    obtain w where w: "w < length (tr_threads st)" "t = ni_threads img ! w"
      using tm by (auto simp: in_set_conv_nth d(3))
    have b: "unat (first_op t) + unat (op_count t) \<le> unat (n_op_count (ni_header img))"
      using thread_of [OF inv wr w(1)] d(7) w(2) by simp
    then show ?thesis
      by (simp add: thread_range_valid_def word_le_nat_alt unat_sub_no_wrap unat_u32_u64)
  qed
  moreover have "length (ascii ''MNRUN001'') = 8" by (simp add: ascii_def)
  ultimately show ?thesis
    using d by (simp add: image_consistent_def)
qed

text \<open>The schedule of an image: the operations in the order of the trace, each with the number of its thread.\<close>

definition thread_index :: "gen_thread list \<Rightarrow> u64 \<Rightarrow> nat" where
  "thread_index ts tid = length (takeWhile (\<lambda>t. gt_tid t \<noteq> tid) ts)"

definition trace_schedule :: "transform \<Rightarrow> (nat \<times> native_op) list" where
  "trace_schedule st = map (\<lambda>x. (thread_index (tr_threads st) (fst x), snd x)) (tr_spool st)"

lemma thread_index_iff:
  assumes "distinct (map gt_tid ts)" and "tid \<in> gt_tid ` set ts"
  shows "thread_index ts tid < length ts" and "w < length ts \<Longrightarrow> thread_index ts tid = w \<longleftrightarrow> tid = gt_tid (ts ! w)"
proof -
  have "dropWhile (\<lambda>t. gt_tid t \<noteq> tid) ts \<noteq> []"
    using assms(2) by (auto simp: dropWhile_eq_Nil_conv)
  moreover have "length ts = thread_index ts tid + length (dropWhile (\<lambda>t. gt_tid t \<noteq> tid) ts)"
    unfolding thread_index_def length_append [symmetric] by simp
  ultimately have l: "thread_index ts tid < length ts" by simp
  then show "thread_index ts tid < length ts" .
  have "gt_tid (ts ! thread_index ts tid) = tid"
    using l nth_length_takeWhile [of "\<lambda>t. gt_tid t \<noteq> tid" ts] by (simp add: thread_index_def)
  then show "thread_index ts tid = w \<longleftrightarrow> tid = gt_tid (ts ! w)" if "w < length ts"
    using l that assms(1) nth_eq_iff_index_eq [OF assms(1), of "thread_index ts tid" w] by auto
qed

lemma written_fits:
  assumes inv: "trans_inv st" and wr: "write_image opts maximum st = Some img"
  shows "fits_schedule img (trace_schedule st)"
proof -
  note d = write_imageD [OF inv wr]
  have ok: "threads_ok (tr_threads st) (tr_spool st)" and dist: "distinct (map gt_tid (tr_threads st))"
    using inv by (simp_all add: trans_inv_def threads_ok_def)
  have mem: "fst x \<in> gt_tid ` set (tr_threads st)" if "x \<in> set (tr_spool st)" for x
    using ok that by (auto simp: threads_ok_def)
  note ix = thread_index_iff [OF dist mem]
  have "chained (n_slot_count (ni_header img)) (\<lambda>_. 0) (trace_schedule st)"
    using inv chained_snd [of "trace_schedule st" "untagged (tr_spool st)"]
    by (simp add: trans_inv_def chain_def d(5) trace_schedule_def comp_def)
  moreover have "ops_of (trace_schedule st) w = ops_of (tr_spool st) (gt_tid (tr_threads st ! w))" if "w < length (tr_threads st)" for w
    using ix(2) [OF _ that] by (simp add: ops_of_def trace_schedule_def filter_map comp_def cong: filter_cong)
  ultimately show ?thesis
    using ix(1) by (simp add: fits_schedule_def list_all_iff written_ops [OF inv wr] d(3)) (auto simp: trace_schedule_def)
qed

subsection \<open>From a trace to its replay\<close>

definition scan_timestamp_range :: "rply_entry list \<Rightarrow> (int \<times> int) option" where
  "scan_timestamp_range es =
    (case map (\<lambda>e. uint (timestamp e)) (filter allocator_event es) of
       [] \<Rightarrow> None
     | t # ts \<Rightarrow> Some (foldl min t ts, foldl max t ts))"

text \<open>The program, from the records of the trace to the executable; \<open>runtime\<close> is what the compiler makes.\<close>

definition trace_to_native :: "int \<Rightarrow> int \<Rightarrow> bool \<Rightarrow> u8 list \<Rightarrow> rply_entry list \<Rightarrow> u8 list option" where
  "trace_to_native multiplier quantum allow runtime es =
    (case scan_timestamp_range es of
       None \<Rightarrow> None
     | Some (minimum, maximum) \<Rightarrow>
         let opts = \<lparr>minimum_timestamp = minimum, timestamp_multiplier = multiplier, quantum_ns = quantum, allow_unknown = allow\<rparr>
         in if 0xFFFFFFFFFFFFFFFF div multiplier < maximum then None
            else case transform_trace opts es of
              None \<Rightarrow> None
            | Some st \<Rightarrow> map_option (assemble runtime) (write_image opts maximum st))"

text \<open>The events of one thread in a trace, and the operations of a worker.\<close>

definition thread_events :: "rply_entry list \<Rightarrow> u64 \<Rightarrow> (u16 \<times> u64) list" where
  "thread_events es tid = map (\<lambda>e. (ucast (drop_bit 32 (func_and_cpu e)), entry_size e))
    (filter (\<lambda>e. allocator_event e \<and> thread_id e = tid) es)"

definition worker_events :: "native_image \<Rightarrow> nat \<Rightarrow> (u16 \<times> u64) list" where
  "worker_events img w = map (\<lambda>op. (nop_function op, nop_size op)) (thread_ops img w)"

lemma spool_events:
  assumes "map op_event s = map record_event (filter allocator_event es)"
  shows "map (\<lambda>op. (nop_function op, nop_size op)) (ops_of s tid) = thread_events es tid"
proof -
  have l: "map (\<lambda>op. (nop_function op, nop_size op)) (ops_of s tid) = map snd (filter (\<lambda>v. fst v = tid) (map op_event s))"
    by (simp add: ops_of_def filter_map comp_def op_event_def)
  have "map snd (filter (\<lambda>v. fst v = tid) (map record_event (filter allocator_event es))) = thread_events es tid"
    by (simp add: filter_map comp_def record_event_def thread_events_def conj_commute)
  then show ?thesis unfolding l assms .
qed

lemma trace_to_native_spec:
  assumes "trace_to_native multiplier quantum allow runtime es = Some exe"
  obtains img s where "load_embedded_image exe = Some img" and "fits_schedule img s"
    and "\<And>w. w < length (ni_threads img) \<Longrightarrow> worker_events img w = thread_events es (n_trace_tid (ni_threads img ! w))"
    and "distinct (map n_trace_tid (ni_threads img))"
    and "set (map n_trace_tid (ni_threads img)) \<supseteq> thread_id ` set (filter allocator_event es)"
proof -
  obtain opts maximum st img where tr: "transform_trace opts es = Some st" and wr: "write_image opts maximum st = Some img"
    and exe: "exe = assemble runtime img"
    using assms by (auto simp: trace_to_native_def Let_def split: option.splits if_splits)
  note inv = transform_trace_spec(1) [OF tr] and ev = transform_trace_spec(2) [OF tr]
  note d = write_imageD [OF inv wr]
  have ok: "threads_ok (tr_threads st) (tr_spool st)" using inv by (simp add: trans_inv_def)
  have tids: "map n_trace_tid (thread_records k ts) = map gt_tid ts" for k ts
    by (induction ts arbitrary: k) simp_all
  have "worker_events img w = thread_events es (n_trace_tid (ni_threads img ! w))" if w: "w < length (ni_threads img)" for w
  proof -
    have lt: "w < length (tr_threads st)" using w d(3) by simp
    have "n_trace_tid (ni_threads img ! w) = map n_trace_tid (ni_threads img) ! w" using w by simp
    also have "\<dots> = gt_tid (tr_threads st ! w)" unfolding d(3) tids using lt by simp
    finally show ?thesis
      by (simp add: worker_events_def written_ops [OF inv wr lt] spool_events [OF ev])
  qed
  moreover have "set (map n_trace_tid (ni_threads img)) \<supseteq> thread_id ` set (filter allocator_event es)"
  proof
    fix tid
    assume "tid \<in> thread_id ` set (filter allocator_event es)"
    then have "tid \<in> fst ` set (map record_event (filter allocator_event es))"
      by (force simp: record_event_def)
    then have "tid \<in> fst ` set (tr_spool st)"
      unfolding ev [symmetric] by (force simp: op_event_def)
    then show "tid \<in> set (map n_trace_tid (ni_threads img))"
      unfolding d(3) tids using ok by (auto simp: threads_ok_def)
  qed
  moreover have "distinct (map n_trace_tid (ni_threads img))"
    unfolding d(3) tids using ok by (simp add: threads_ok_def)
  ultimately show thesis
    using that load_assemble [OF written_consistent [OF inv wr]] written_fits [OF inv wr] exe by blast
qed

definition count_events :: "nat \<Rightarrow> (u16 \<times> u64) list \<Rightarrow> u64" where
  "count_events f evs = of_nat (length (filter (\<lambda>x. unat (fst x) = f) evs))"

lemma count_worker_events: "function_total f (thread_ops img w) = count_events f (worker_events img w)"
  by (simp add: function_total_def count_events_def worker_events_def filter_map comp_def)

text \<open>C38: The executable that \<open>trace_to_native.py\<close> makes carries the trace. \<open>load_embedded_image\<close> accepts it, there is one thread for
  each thread of the trace that called the allocator, and its operations are, in their order, the allocator
  calls of that thread, each with its function and size.\<close>

theorem native_executable_carries_trace:
  assumes "trace_to_native multiplier quantum allow runtime es = Some exe"
  shows "\<exists>img. load_embedded_image exe = Some img \<and> distinct (map n_trace_tid (ni_threads img)) \<and>
    thread_id ` set (filter allocator_event es) \<subseteq> set (map n_trace_tid (ni_threads img)) \<and>
    (\<forall>w<length (ni_threads img). worker_events img w = thread_events es (n_trace_tid (ni_threads img ! w)))"
  using trace_to_native_spec [OF assms] by metis

text \<open>C39: A native replay uses the allocator correctly. For every trace that \<open>trace_to_native.py\<close> accepts, whatever the
  interleaving of the workers of the executable and the results of its allocator, no \<open>free\<close> and no
  \<open>realloc\<close> is given a pointer that is not live, and no access leaves the slots or the counters.\<close>

theorem native_replay_safe:
  assumes "trace_to_native multiplier quantum allow runtime es = Some exe" and "load_embedded_image exe = Some img"
    and "(native_step fs img)\<^sup>*\<^sup>* native_initial c"
  shows "\<not> n_misuse (nr_shared c)"
proof -
  obtain s where "fits_schedule img s"
    using trace_to_native_spec [OF assms(1)] assms(2) by (metis option.inject)
  from native_run_spec(3) [OF assms(2) this] rtranclp_imp_relpowp [OF assms(3)] show ?thesis by blast
qed

text \<open>C40: A native replay ends and repeats the trace. For every trace that \<open>trace_to_native.py\<close> accepts, a run of the
  executable with \<open>o\<close> operations and \<open>t\<close> threads makes at most \<open>6 o + 6 t + 3\<close> steps; some thread can take a
  step until \<open>main\<close> has joined all workers, so no wait for a generation lasts for ever; and then each worker
  has made the calls of its operations in their order, and has counted each function as
  often as its thread called it in the trace.\<close>

theorem native_replay_completes:
  assumes "trace_to_native multiplier quantum allow runtime es = Some exe" and "load_embedded_image exe = Some img"
    and "(native_step fs img ^^ k) native_initial c"
  shows "k \<le> 6 * total_operations img + 6 * length (ni_threads img) + 3 \<and>
    ((\<exists>c'. native_step fs img c c') \<longleftrightarrow> nr_main c \<noteq> Ended) \<and>
    (nr_main c = Ended \<longrightarrow> (\<forall>w<length (ni_threads img).
      calls_match fs (thread_ops img w) (n_calls (nr_shared c) w) \<and>
      (\<forall>f<FUNC_COUNT. n_counts (nr_shared c) w ! f =
        count_events f (thread_events es (n_trace_tid (ni_threads img ! w))))))"
proof -
  obtain img' s where i: "load_embedded_image exe = Some img'" "fits_schedule img' s"
    "\<And>w. w < length (ni_threads img') \<Longrightarrow> worker_events img' w = thread_events es (n_trace_tid (ni_threads img' ! w))"
    using trace_to_native_spec [OF assms(1)] by metis
  then have e: "img' = img" using assms(2) by simp
  note spec = native_run_spec [OF assms(2) i(2) [unfolded e] assms(3)]
  show ?thesis
    using spec i(3) unfolding e by (auto simp: count_worker_events)
qed

definition tiny_record :: "u64 \<Rightarrow> u64 \<Rightarrow> u64 \<Rightarrow> u64 \<Rightarrow> u64 \<Rightarrow> u64 \<Rightarrow> rply_entry" where
  "tiny_record ts f tid a r sz = \<lparr>timestamp = ts, func_and_cpu = push_bit 32 f, thread_id = tid, entry_address = a,
    entry_result = r, entry_size = sz\<rparr>"

definition tiny_trace :: "rply_entry list" where
  "tiny_trace = [tiny_record 5 0 7 0 64 8, tiny_record 6 3 9 64 96 20, tiny_record 7 1 7 96 0 0]"

lemma tiny_trace_accepted: "trace_to_native 1 0 False [1, 2] tiny_trace \<noteq> None"
  by code_simp

lemma native_executable_carries_trace_witness:
  "\<exists>exe img. trace_to_native 1 0 False [1, 2] tiny_trace = Some exe \<and> load_embedded_image exe = Some img \<and>
    distinct (map n_trace_tid (ni_threads img))"
proof -
  obtain exe where e: "trace_to_native 1 0 False [1, 2] tiny_trace = Some exe"
    using tiny_trace_accepted by blast
  from native_executable_carries_trace [OF e] e show ?thesis by blast
qed

lemma tiny_run:
  "\<exists>exe img k c. trace_to_native 1 0 False [1, 2] tiny_trace = Some exe \<and> load_embedded_image exe = Some img \<and>
    (native_step True img ^^ k) native_initial c \<and> nr_main c = Ended"
proof -
  obtain exe where e: "trace_to_native 1 0 False [1, 2] tiny_trace = Some exe"
    using tiny_trace_accepted by blast
  then obtain img s where i: "load_embedded_image exe = Some img" "fits_schedule img s"
    using trace_to_native_spec by metis
  from native_run_ends [OF i, of True] e i(1) show ?thesis by blast
qed

lemma native_replay_safe_witness:
  "\<exists>exe img c. trace_to_native 1 0 False [1, 2] tiny_trace = Some exe \<and> load_embedded_image exe = Some img \<and>
    (native_step True img)\<^sup>*\<^sup>* native_initial c \<and> nr_main c = Ended \<and> \<not> n_misuse (nr_shared c)"
proof -
  obtain exe img k c where t: "trace_to_native 1 0 False [1, 2] tiny_trace = Some exe" "load_embedded_image exe = Some img"
    "(native_step True img ^^ k) native_initial c" "nr_main c = Ended"
    using tiny_run by blast
  note r = relpowp_imp_rtranclp [OF t(3)]
  from native_replay_safe [OF t(1,2) r] t r show ?thesis by blast
qed

lemma native_replay_completes_witness:
  "\<exists>exe img k c. trace_to_native 1 0 False [1, 2] tiny_trace = Some exe \<and> load_embedded_image exe = Some img \<and>
    (native_step True img ^^ k) native_initial c \<and> nr_main c = Ended \<and>
    (\<forall>w<length (ni_threads img). calls_match True (thread_ops img w) (n_calls (nr_shared c) w))"
proof -
  obtain exe img k c where t: "trace_to_native 1 0 False [1, 2] tiny_trace = Some exe" "load_embedded_image exe = Some img"
    "(native_step True img ^^ k) native_initial c" "nr_main c = Ended"
    using tiny_run by blast
  from native_replay_completes [OF t(1,2,3)] t show ?thesis by blast
qed

end
