(* ===== verification/Spec2Isabelle.thy ===== *)
theory Spec2Isabelle
  imports SizeClasses LiveStats HoleStats HoleApi ThreadMap Passthrough ReplayLog ReplayApi ReplayTools FreeRun EpochRun SynthCounts NativeWriter
begin

text \<open>
  Verification library of mini\_hook: allocator hooks that measure or record the allocations of a
  process, and the programs that convert a recording and make its calls again. Everything is
  translated from the C sources and from \<open>trace_to_native.py\<close>; the paths below are under \<open>src/\<close>.

  \<^bold>\<open>The parts of the program.\<close>
  \<^item> \<open>malloc_hole_hook.c\<close> is preloaded into a process. Each allocation goes to the real allocator and is
    counted by size class; the blocks that are live are kept in a sharded table, and rows of a CSV file are
    written from time to time. \<open>malloc_hole_passthrough.c\<close> and \<open>malloc_hole_all_api_passthrough.c\<close> forward
    only, as control groups.
  \<^item> \<open>malloc_free_hook.c\<close> is preloaded too. It appends each call to a memory-mapped log
    (\<open>replay_format.h\<close>), which \<open>bin_to_rply.c\<close> converts to a trace (\<open>rply_format.h\<close>); \<open>rply_to_txt.c\<close> and
    \<open>replay_dump.c\<close> print logs and traces.
  \<^item> \<open>replay_main.c\<close> makes the calls of a trace again, with a thread for each thread of the trace, in
    free-run or in epoch mode.
  \<^item> \<open>trace_to_native.py\<close> puts the calls of a trace behind \<open>native_replay_runtime.c\<close>, in one executable.
  \<^item> \<open>synthetic_mstress_runtime.c\<close> makes the calls that a profile of a trace describes.
  The parts meet in the formats of their files, and the development composes them there: a log that the
  hook has written is converted to a trace of exactly the recorded calls (\<open>capture_to_trace\<close>), a trace is
  planned and replayed safely and completely (\<open>plan_is_well_formed\<close>, \<open>replay_frees_only_live\<close>,
  \<open>free_run_completes\<close>), and the executable built of a trace carries and makes its calls
  (\<open>native_executable_carries_trace\<close>, \<open>native_replay_safe\<close>, \<open>native_replay_completes\<close>).
\<close>

text \<open>
  \<^bold>\<open>Shared theories.\<close> \<open>Prelude\<close> names the C integer types as words and holds the generic lemmas and the
  collections of rewrite rules. \<open>RealAllocator\<close> is the allocator below the hooks, a parameter: what
  \<open>dlsym\<close> returned for each function, as a transformer of heap and \<open>errno\<close>. \<open>HeapCalls\<close> is the allocator
  that the replayers call: \<open>heap_result\<close> says what a call may return, by its documentation. \<open>Schedules\<close>
  follows several workers through one list of operations. \<open>OpenAddressing\<close> holds the locale \<open>probing\<close>:
  tables with empty, deleted and used slots and a probe sequence. It is interpreted on the live-allocation
  table (\<open>LiveTable\<close>), the thread map (\<open>ThreadMap\<close>), and on both tables of the replayer (\<open>ReplayMap\<close>,
  \<open>ReplayPlan\<close>). Two further locales are interfaces: \<open>finite_map\<close> (\<open>ThreadMap\<close>) is what the hook expects of
  the thread map, \<open>take_map\<close> (\<open>ReplayMap\<close>) what the planning pass expects of the live-object map.

  \<^bold>\<open>The hole hook\<close> (\<open>malloc_hole_hook.c\<close>), in the build of the target \<open>mini_malloc_hole_hook\<close>
  (\<open>MINI_HOLE_ATOMIC_STATS\<close>, \<open>MINI_HOLE_NO_WRITER\<close>, \<open>MINI_HOLE_OPPORTUNISTIC_SNAPSHOT\<close>).
  \<^item> \<open>SizeClasses\<close>: \<open>rounded_allocation_size\<close>, the tables, \<open>live_histogram_bucket_index\<close>. The tables are in
    the theory as the code builds them; rounding returns the least class, the patched index is the position.
  \<^item> \<open>LiveTable\<close>: \<open>live_table_insert_locked\<close>, \<open>live_table_remove_locked\<close> refine a multiset.
  \<^item> \<open>LiveStats\<close>: counters and histograms of the shards, with tracking, detaching, freeing and restoring; a
    step relation whose invariant is that every counter is the sum over the entries of the table.
  \<^item> \<open>HoleStats\<close>: the sharded atomic counters; sums are exact under every interleaving of the additions.
  \<^item> \<open>Bootstrap\<close>: the arena for the calls before the real allocator is known, for the hooks with the same text.
  \<^item> \<open>CsvText\<close>: \<open>append_text\<close>, \<open>append_u64\<close>, the header and the rows; rows fit and can be parsed again.
  \<^item> \<open>HoleProcess\<close>: initialisation, forked children and the scope of \<open>appspawndf\<close>, log file, snapshots, deadline.
  \<^item> \<open>HoleApi\<close>: the exported entry points: they are transparent, and they keep the account right.
  \<^item> \<open>Passthrough\<close>: the two forwarding hooks, equal to the hole hook up to statistics and \<open>errno\<close>.

  \<^bold>\<open>The replay hook and its tools.\<close>
  \<^item> \<open>ThreadMap\<close>: \<open>thread_map_put\<close>, \<open>thread_map_get\<close>, \<open>thread_map_remove\<close> refine a finite map.
  \<^item> \<open>ReplayLog\<close>: mapping and header of the log, reservation and publication of slots as steps of the writers.
  \<^item> \<open>ReplayApi\<close>: the allocation and thread functions of \<open>malloc_free_hook.c\<close> with the events they log.
  \<^item> \<open>ReplayTools\<close>: \<open>bin_to_rply\<close>, \<open>rply_to_txt\<close>, \<open>replay_dump\<close> on bytes of files, errors as values.

  \<^bold>\<open>The replayer\<close> (\<open>replay_main.c\<close>).
  \<^item> \<open>ReplayMap\<close>: the live-object map \<open>omap\<close> with growth and repair, and the registration of threads.
  \<^item> \<open>ReplayPlan\<close>: the pass over the records; slots, generations, lifetimes, counters.
  \<^item> \<open>ReplayOps\<close>: \<open>execute_op_inner\<close> and what it calls as atomic steps on the shared slots.
  \<^item> \<open>FreeRun\<close>, \<open>EpochRun\<close>: the two modes as step relations over workers, \<open>main\<close> and the allocator.

  \<^bold>\<open>The native executable.\<close>
  \<^item> \<open>ImageBytes\<close>: little-endian fields of an image.
  \<^item> \<open>NativeImage\<close>: \<open>load_embedded_image\<close> with its checks, the options that choose CPUs.
  \<^item> \<open>NativeReplay\<close>: \<open>execute_operation\<close>, \<open>worker_main\<close> and the threads of \<open>main\<close>.
  \<^item> \<open>TraceToNative\<close>, \<open>NativeWriter\<close>: \<open>transform_trace\<close> and \<open>write_image\<close> of \<open>trace_to_native.py\<close>, and the
    properties of a whole executable.

  \<^bold>\<open>The workload runtime\<close> (\<open>synthetic_mstress_runtime.c\<close>).
  \<^item> \<open>SynthStack\<close>: \<open>stack_push\<close> and \<open>stack_pop\<close>, access by access; linearizable.
  \<^item> \<open>SynthWorkload\<close>, \<open>SynthObjects\<close>: the functions of a worker, and where the descriptors are.
  \<^item> \<open>SynthRun\<close>: the waves of \<open>main\<close> over the interleaved workers; no call gets a dead pointer.
  \<^item> \<open>SynthProfile\<close>: \<open>load_profile\<close>. \<open>SynthCounts\<close>: a run makes exactly the calls of the profile.
\<close>

text \<open>
  \<^bold>\<open>How code is modelled.\<close> Integers of the code are words, and wrap as they do in C; sizes of tables and
  positions are naturals where the code's bounds keep them small, which is then a lemma. A struct is a
  \<open>record\<close>. Pure or lock-protected functions are HOL functions that return the new state; a function
  with an exit or an error has a sum, an option or an own result type. Code that threads run at
  the same time is an \<open>inductive\<close> step relation with one step for each atomic access (or for each
  section under a lock), and what holds of it is proved for all runs.

  \<^bold>\<open>Bounds and fuel.\<close> The probes of a live table are bounded by the code's own limit. The loops over the
  tables of the replayer are \<open>partial_function (option)\<close>, and \<open>live_map_refines\<close> shows that they end. The
  thread map is scanned by recursion over its 65536 slots. The step relations have no fuel: \<open>free_run_ends\<close>,
  \<open>native_run_ends\<close> and their properties bound the number of steps of every run and exclude a deadlock.

  \<^bold>\<open>Hypotheses.\<close> The real allocator, the system calls, the start routines of threads and the results of
  the clock are arguments. What is assumed of the allocator is that a successful call returns a pointer
  that is not live (\<open>heap_result\<close>); each property with a hypothesis has a witness with concrete values.
\<close>

text \<open>
  \<^bold>\<open>Not modelled.\<close>
  \<^item> Builds of \<open>malloc_hole_hook.c\<close> other than the one above: statistics kept per thread and flushed, the writer
    thread, the loader probe. Of the fork handlers, the locking around \<open>fork\<close>, since every section under
    a lock is one step. Weak memory orders: atomic accesses are sequentially consistent.
  \<^item> Time: waiting for recorded times, affinity of threads, spinning and yielding, latency samples and
    their percentiles, progress and watchdog threads. They do not change which calls are made.
  \<^item> Contents of replayed blocks, and the simulation of accesses to them (\<open>--access-profile\<close>).
  \<^item> Parsing of the command lines of \<open>main\<close> (apart from the CPU lists), usage texts and printed summaries.
  \<^item> The bootstrap heaps of \<open>malloc_free_hook.c\<close> and \<open>malloc_hole_all_api_passthrough.c\<close> repeat that of the hole
    hook word for word; they are modelled once.
  \<^item> The Python scripts other than \<open>trace_to_native.py\<close>, which draw pictures, choose size classes and run
    benchmarks; tests; build files; the generated \<open>CMakeCCompilerId.c\<close>.
\<close>

end
